(* ===== verification/Xed_Prelude.thy ===== *)
theory Xed_Prelude
  imports Main "HOL-Library.AList" "HOL-Library.Word"
begin

unbundle bit_operations_syntax

text \<open>
  Shared vocabulary of the development: the value types the generator's Python code uses,
  errors as values, insertion-ordered dictionaries, the search loops, and the lemma
  collections the component theories add to.

  Python values are modelled as follows.  Unbounded ints are \<open>int\<close> (or \<open>nat\<close> where the code
  can only produce non-negative counts), strings are \<open>string\<close>, tuples and lists are lists, and
  a \<open>dict\<close> is an association list with distinct keys in insertion order: reading is
  \<^const>\<open>map_of\<close>, assignment is \<^const>\<open>AList.update\<close> (an existing key keeps its position, a
  new key goes to the end) and \<open>del\<close> is \<^const>\<open>AList.delete\<close>.  A call of \<open>genutil.die\<close>, a raised
  exception or an error exit is the left summand of a result.
\<close>

named_theorems dict_simps \<open>reading and writing insertion-ordered dictionaries\<close>
named_theorems res_simps \<open>results: binding and loops over results\<close>

section \<open>Results\<close>

datatype py_error =
    Die string
  | KeyError
  | IndexError
  | ValueError
  | TypeError
  | RecursionError
  | UnboundLocalError
  | AssertionError
  | AttributeError

type_synonym 'a res = "py_error + 'a"

definition rbind :: "'a res \<Rightarrow> ('a \<Rightarrow> 'b res) \<Rightarrow> 'b res" where
  "rbind r f = (case r of Inl e \<Rightarrow> Inl e | Inr x \<Rightarrow> f x)"

lemma rbind_simps [simp, res_simps]:
  "rbind (Inl e) f = Inl e"
  "rbind (Inr x) f = f x"
  by (simp_all add: rbind_def)

lemma rbind_eq_Inr [res_simps]:
  "rbind r f = Inr y \<longleftrightarrow> (\<exists>x. r = Inr x \<and> f x = Inr y)"
  by (cases r) auto

lemma rbind_eq_InrE [elim]:
  assumes "rbind r f = Inr y"
  obtains x where "r = Inr x" and "f x = Inr y"
  using assms by (auto simp: rbind_eq_Inr)

lemma rbind_cong [fundef_cong]:
  assumes "r = r'" and "\<And>x. r' = Inr x \<Longrightarrow> f x = g x"
  shows "rbind r f = rbind r' g"
  using assms by (cases r') auto

definition assert_res :: "bool \<Rightarrow> py_error \<Rightarrow> unit res" where
  "assert_res b e = (if b then Inr () else Inl e)"

lemma assert_res_Inr [simp]: "assert_res b e = Inr u \<longleftrightarrow> b"
  by (simp add: assert_res_def)

fun foldM :: "('a \<Rightarrow> 's \<Rightarrow> 's res) \<Rightarrow> 'a list \<Rightarrow> 's \<Rightarrow> 's res" where
  "foldM f [] s = Inr s"
| "foldM f (x # xs) s = rbind (f x s) (foldM f xs)"

fun mapM :: "('a \<Rightarrow> 'b res) \<Rightarrow> 'a list \<Rightarrow> 'b list res" where
  "mapM f [] = Inr []"
| "mapM f (x # xs) = rbind (f x) (\<lambda>y. rbind (mapM f xs) (\<lambda>ys. Inr (y # ys)))"

lemma foldM_append [res_simps]: "foldM f (xs @ ys) s = rbind (foldM f xs s) (foldM f ys)"
proof (induction xs arbitrary: s)
  case Nil
  then show ?case by simp
next
  case (Cons x xs)
  then show ?case by (cases "f x s") simp_all
qed

lemma foldM_invariant:
  assumes "foldM f xs s = Inr s'" and "I s"
    and "\<And>x s t. x \<in> set xs \<Longrightarrow> I s \<Longrightarrow> f x s = Inr t \<Longrightarrow> I t"
  shows "I s'"
  using assms
proof (induction xs arbitrary: s)
  case Nil
  then show ?case by simp
next
  case (Cons x xs)
  then show ?case by (auto simp: rbind_eq_Inr)
qed

lemma mapM_Inr_length: "mapM f xs = Inr ys \<Longrightarrow> length ys = length xs"
  by (induction xs arbitrary: ys) (auto simp: rbind_eq_Inr)

lemma mapM_Inr_nth:
  "mapM f xs = Inr ys \<Longrightarrow> i < length xs \<Longrightarrow> f (xs ! i) = Inr (ys ! i)"
  by (induction xs arbitrary: ys i) (auto simp: rbind_eq_Inr nth_Cons split: nat.splits)

lemma mapM_map: "mapM f (map g xs) = mapM (\<lambda>x. f (g x)) xs"
  by (induction xs) simp_all

lemma mapM_total: "(\<And>x. x \<in> set xs \<Longrightarrow> f x = Inr (g x)) \<Longrightarrow> mapM f xs = Inr (map g xs)"
  by (induction xs) auto

section \<open>Insertion-ordered dictionaries\<close>

type_synonym ('k, 'v) dict = "('k \<times> 'v) list"

abbreviation dkeys :: "('k, 'v) dict \<Rightarrow> 'k list" where
  "dkeys d \<equiv> map fst d"

abbreviation dvals :: "('k, 'v) dict \<Rightarrow> 'v list" where
  "dvals d \<equiv> map snd d"

abbreviation dset :: "'k \<Rightarrow> 'v \<Rightarrow> ('k, 'v) dict \<Rightarrow> ('k, 'v) dict" where
  "dset k v d \<equiv> AList.update k v d"

definition dict_ok :: "('k, 'v) dict \<Rightarrow> bool" where
  "dict_ok d \<longleftrightarrow> distinct (dkeys d)"

definition dget :: "('k, 'v) dict \<Rightarrow> 'k \<Rightarrow> 'v res" where
  "dget d k = (case map_of d k of None \<Rightarrow> Inl KeyError | Some v \<Rightarrow> Inr v)"

definition din :: "'k \<Rightarrow> ('k, 'v) dict \<Rightarrow> bool" where
  "din k d \<longleftrightarrow> map_of d k \<noteq> None"

definition dget_default :: "('k, 'v) dict \<Rightarrow> 'k \<Rightarrow> 'v \<Rightarrow> 'v" where
  "dget_default d k z = (case map_of d k of None \<Rightarrow> z | Some v \<Rightarrow> v)"

lemma dget_default_Nil [simp]: "dget_default [] k z = z"
  by (simp add: dget_default_def)

lemma dget_Inr [simp]: "dget d k = Inr v \<longleftrightarrow> map_of d k = Some v"
  by (simp add: dget_def split: option.splits)

lemma din_iff [dict_simps]: "din k d \<longleftrightarrow> k \<in> fst ` set d"
  by (simp add: din_def map_of_eq_None_iff)

lemma din_dkeys: "din k d \<longleftrightarrow> k \<in> set (dkeys d)"
  by (simp add: din_iff)

lemma map_of_dset [simp, dict_simps]: "map_of (dset k v d) = (map_of d)(k \<mapsto> v)"
  by (simp add: update_conv')

lemma dict_ok_Nil [simp]: "dict_ok []"
  by (simp add: dict_ok_def)

lemma dict_ok_dset [intro, simp]: "dict_ok d \<Longrightarrow> dict_ok (dset k v d)"
  by (simp add: dict_ok_def distinct_update)

lemma set_dset_subset: "set (dset k v d) \<subseteq> insert (k, v) (set d)"
  by (induction d) auto

lemma dset_new [dict_simps]: "k \<notin> fst ` set d \<Longrightarrow> dset k v d = d @ [(k, v)]"
  by (induction d) auto

lemma dkeys_dset:
  "dkeys (dset k v d) = (if k \<in> fst ` set d then dkeys d else dkeys d @ [k])"
  by (simp add: update_keys)

lemma dkeys_dset_set: "set (dkeys (dset k v d)) = insert k (set (dkeys d))"
  by (auto simp: dkeys_dset)

lemma dict_ok_map_of_iff: "dict_ok d \<Longrightarrow> map_of d k = Some v \<longleftrightarrow> (k, v) \<in> set d"
  by (simp add: dict_ok_def)

section \<open>Searches that stop at the first success\<close>

fun first_some :: "('a \<Rightarrow> 'b option) \<Rightarrow> 'a list \<Rightarrow> 'b option" where
  "first_some f [] = None"
| "first_some f (x # xs) = (case f x of Some y \<Rightarrow> Some y | None \<Rightarrow> first_some f xs)"

lemma first_some_SomeD:
  "first_some f xs = Some y \<Longrightarrow> \<exists>x \<in> set xs. f x = Some y"
  by (induction xs) (auto split: option.splits)

lemma first_some_None_iff: "first_some f xs = None \<longleftrightarrow> (\<forall>x \<in> set xs. f x = None)"
  by (induction xs) (auto split: option.splits)

section \<open>Lists\<close>

definition bounded_by :: "int list \<Rightarrow> nat list \<Rightarrow> bool" where
  "bounded_by xs ws \<longleftrightarrow> list_all2 (\<lambda>x w. 0 \<le> x \<and> x < 2 ^ w) xs ws"

lemma bounded_by_simps [simp]:
  "bounded_by [] []"
  "bounded_by (x # xs) (w # ws) \<longleftrightarrow> 0 \<le> x \<and> x < 2 ^ w \<and> bounded_by xs ws"
  "bounded_by [] us \<longleftrightarrow> us = []"
  "bounded_by ys [] \<longleftrightarrow> ys = []"
  by (simp_all add: bounded_by_def)

lemma int_div_less_iff_mult: "0 < b \<Longrightarrow> (a::int) div b < c \<longleftrightarrow> a < b * c"
proof -
  assume b: "0 < b"
  have le: "b * (a div b) \<le> a" using b by (simp flip: minus_mod_eq_mult_div)
  have "a div b < c \<Longrightarrow> a < b * c"
  proof -
    assume "a div b < c"
    then have "b * (a div b + 1) \<le> b * c" using b by (intro mult_left_mono) auto
    moreover have "a < b * (a div b + 1)"
      using b pos_mod_bound [of b a] by (simp add: distrib_left flip: minus_mod_eq_mult_div)
    ultimately show ?thesis by simp
  qed
  moreover have "a div b < c" if "a < b * c"
  proof (rule ccontr)
    assume "\<not> a div b < c"
    then have "b * c \<le> b * (a div b)" using b by (intro mult_left_mono) auto
    with le that show False by simp
  qed
  ultimately show ?thesis by blast
qed

lemma bounded_by_length: "bounded_by xs ws \<Longrightarrow> length xs = length ws"
  by (simp add: bounded_by_def list_all2_lengthD)

lemma sum_list_upt_split:
  "(i::nat) < length ws \<Longrightarrow> sum_list (take (Suc i) ws) = sum_list (take i ws) + ws ! i"
  by (simp add: take_Suc_conv_app_nth)

section \<open>Decimal and hexadecimal numerals\<close>

text \<open>Python's \<open>str(n)\<close> and \<open>hex(n)\<close> for non-negative \<open>n\<close>, and \<open>str(i)\<close> for any int.\<close>

definition digit_char :: "nat \<Rightarrow> char" where
  "digit_char d = ''0123456789abcdefghijklmnopqrstuvwxyz'' ! d"

fun digits_base :: "nat \<Rightarrow> nat \<Rightarrow> string" where
  "digits_base b n =
     (if b < 2 \<or> n < b then [digit_char n] else digits_base b (n div b) @ [digit_char (n mod b)])"

declare digits_base.simps [simp del]

definition str_nat :: "nat \<Rightarrow> string" where
  "str_nat n = digits_base 10 n"

definition str_int :: "int \<Rightarrow> string" where
  "str_int i = (if i < 0 then ''-'' @ str_nat (nat (- i)) else str_nat (nat i))"

definition hex_nat :: "nat \<Rightarrow> string" where
  "hex_nat n = ''0x'' @ digits_base 16 n"

fun join :: "string \<Rightarrow> string list \<Rightarrow> string" where
  "join sep [] = ''''"
| "join sep [s] = s"
| "join sep (s # t # ts) = s @ sep @ join sep (t # ts)"

section \<open>Logarithms\<close>

text \<open>The floor of the base-2 logarithm, 0 at 0.\<close>

fun ilog2 :: "nat \<Rightarrow> nat" where
  "ilog2 n = (if n < 2 then 0 else Suc (ilog2 (n div 2)))"

declare ilog2.simps [simp del]

lemma ilog2_pow2 [simp]: "ilog2 (2 ^ k) = k"
  by (induction k) (simp_all add: ilog2.simps)

end
