(* ===== verification/Tuple_Key.thy ===== *)
theory Tuple_Key
  imports Xed_Prelude
begin

text \<open>
  The hash key of a tuple of constraint values (\<open>pysrc/tup2int.py\<close>): the values are
  concatenated, least significant first, each in a field of the bit width that the operand
  has in the width dictionary.  The decoder's dictionaries (\<open>ild_cdict.py\<close>) and the
  encoder's constraint vectors (\<open>constraint_vec_gen.py\<close>) are both keyed by these integers,
  so everything the generated tables promise rests on the key being an injection of the
  tuples whose values fit their fields.
\<close>

section \<open>The code\<close>

text \<open>
  The loop of \<open>tuple2int\<close>: \<open>i\<close> is the index of the next element, \<open>res\<close> and \<open>bit_shift\<close> the
  two accumulators.  A tuple longer than \<open>cnames\<close> raises \<open>IndexError\<close>, a name without a width
  \<open>KeyError\<close>.
\<close>

fun tuple2int_loop ::
  "int list \<Rightarrow> nat \<Rightarrow> string list \<Rightarrow> (string, nat) dict \<Rightarrow> int \<Rightarrow> nat \<Rightarrow> int res" where
  "tuple2int_loop [] i cnames op_widths res bit_shift = Inr res"
| "tuple2int_loop (byte # t) i cnames op_widths res bit_shift =
     (if i < length cnames
      then rbind (dget op_widths (cnames ! i))
        (\<lambda>opwidth. tuple2int_loop t (Suc i) cnames op_widths
                     (res + push_bit bit_shift byte) (bit_shift + opwidth))
      else Inl IndexError)"

definition tuple2int :: "int list \<Rightarrow> string list \<Rightarrow> (string, nat) dict \<Rightarrow> int res" where
  "tuple2int t cnames op_widths_dict = tuple2int_loop t 0 cnames op_widths_dict 0 0"

section \<open>The packed fields as a function of the widths\<close>

text \<open>The reference: little-endian concatenation of fields of given widths.\<close>

fun pack :: "int list \<Rightarrow> nat list \<Rightarrow> int" where
  "pack [] ws = 0"
| "pack (x # xs) [] = 0"
| "pack (x # xs) (w # ws) = x + push_bit w (pack xs ws)"

fun unpack :: "nat list \<Rightarrow> int \<Rightarrow> int list" where
  "unpack [] k = []"
| "unpack (w # ws) k = take_bit w k # unpack ws (drop_bit w k)"

definition width_of :: "(string, nat) dict \<Rightarrow> string \<Rightarrow> nat" where
  "width_of d c = dget_default d c 0"

definition has_widths :: "(string, nat) dict \<Rightarrow> string list \<Rightarrow> bool" where
  "has_widths d cnames \<longleftrightarrow> (\<forall>c \<in> set cnames. din c d)"

lemma has_widths_nth:
  "has_widths d cnames \<Longrightarrow> i < length cnames \<Longrightarrow>
     map_of d (cnames ! i) = Some (width_of d (cnames ! i))"
  by (auto simp: has_widths_def width_of_def dget_default_def din_def dest!: nth_mem
      split: option.splits)

lemma tuple2int_loop_pack:
  assumes "has_widths d cnames" and "i + length t \<le> length cnames"
  shows "tuple2int_loop t i cnames d r s =
           Inr (r + push_bit s (pack t (map (width_of d) (drop i cnames))))"
  using assms(2)
proof (induction t arbitrary: i r s)
  case Nil
  then show ?case by simp
next
  case (Cons b t)
  then have i: "i < length cnames" by simp
  with assms(1) have w: "map_of d (cnames ! i) = Some (width_of d (cnames ! i))"
    by (rule has_widths_nth)
  from i have "drop i cnames = cnames ! i # drop (Suc i) cnames"
    by (simp add: Cons_nth_drop_Suc)
  with Cons i w show ?case
    by (simp add: dget_def push_bit_add push_bit_eq_mult power_add algebra_simps)
qed

lemma tuple2int_eq_pack:
  assumes "has_widths d cnames" and "length t \<le> length cnames"
  shows "tuple2int t cnames d = Inr (pack t (map (width_of d) cnames))"
  using tuple2int_loop_pack [OF assms(1), where i = 0 and t = t and r = 0 and s = 0] assms(2)
  by (simp add: tuple2int_def)

section \<open>Packing is injective and invertible on fields that fit\<close>

lemma pack_bounds:
  "bounded_by xs ws \<Longrightarrow> 0 \<le> pack xs ws \<and> pack xs ws < 2 ^ sum_list ws"
proof (induction xs ws rule: pack.induct)
  case (3 x xs w ws)
  then have b: "0 \<le> x" "x < 2 ^ w" "0 \<le> pack xs ws" "pack xs ws + 1 \<le> 2 ^ sum_list ws"
    by auto
  have "(2::int) ^ w * (pack xs ws + 1) \<le> 2 ^ w * 2 ^ sum_list ws"
    using b by (intro mult_left_mono) auto
  with b show ?case
    by (simp add: push_bit_eq_mult power_add algebra_simps)
qed auto

lemma unpack_pack: "bounded_by xs ws \<Longrightarrow> unpack ws (pack xs ws) = xs"
proof (induction xs ws rule: pack.induct)
  case (3 x xs w ws)
  then have x: "0 \<le> x" "x < 2 ^ w" by auto
  have "take_bit w (x + push_bit w (pack xs ws)) = x"
    using x by (simp add: take_bit_eq_mod push_bit_eq_mult)
  moreover have "drop_bit w (x + push_bit w (pack xs ws)) = pack xs ws"
    using x by (simp add: drop_bit_eq_div push_bit_eq_mult)
  ultimately show ?case using 3 by simp
qed auto

lemma pack_inj:
  "bounded_by xs ws \<Longrightarrow> bounded_by ys ws \<Longrightarrow> pack xs ws = pack ys ws \<Longrightarrow> xs = ys"
  by (metis unpack_pack)

lemma length_unpack [simp]: "length (unpack ws k) = length ws"
  by (induction ws arbitrary: k) auto

lemma pack_unpack:
  "0 \<le> k \<Longrightarrow> k < 2 ^ sum_list ws \<Longrightarrow> pack (unpack ws k) ws = k"
proof (induction ws arbitrary: k)
  case Nil
  then show ?case by simp
next
  case (Cons w ws)
  have "drop_bit w k < 2 ^ sum_list ws"
    using Cons.prems by (simp add: drop_bit_eq_div power_add int_div_less_iff_mult)
  moreover have "0 \<le> drop_bit w k" using Cons.prems by simp
  ultimately have "pack (unpack ws (drop_bit w k)) ws = drop_bit w k"
    by (intro Cons.IH)
  then show ?case
    by (simp add: take_bit_eq_mod drop_bit_eq_div push_bit_eq_mult mult.commute)
qed

lemma bounded_unpack: "bounded_by (unpack ws k) ws"
  by (induction ws arbitrary: k) auto

definition tuple_fits :: "(string, nat) dict \<Rightarrow> string list \<Rightarrow> int list \<Rightarrow> bool" where
  "tuple_fits d cnames t \<longleftrightarrow> bounded_by t (map (width_of d) cnames)"

lemma tuple_fits_length: "tuple_fits d cnames t \<Longrightarrow> length t = length cnames"
  by (auto simp: tuple_fits_def dest: bounded_by_length)

lemma tuple2int_fits:
  "has_widths d cnames \<Longrightarrow> tuple_fits d cnames t \<Longrightarrow>
     tuple2int t cnames d = Inr (pack t (map (width_of d) cnames))"
  by (simp add: tuple2int_eq_pack tuple_fits_length)

lemma tuple2int_inj:
  assumes "has_widths d cnames" "tuple_fits d cnames t" "tuple_fits d cnames u"
    and "tuple2int t cnames d = tuple2int u cnames d"
  shows "t = u"
  using assms by (auto simp: tuple2int_fits tuple_fits_def dest: pack_inj)

section \<open>The key determines the tuple\<close>

text \<open>
  C34: on operands with known widths, a tuple whose values fit their fields has a key, the key is
  below two to the total width, and cutting the key at the widths gives the tuple back: two tuples
  never share a key.
\<close>

theorem tuple_key_invertible:
  assumes "has_widths d cnames" and "tuple_fits d cnames t"
  shows "\<exists>k. tuple2int t cnames d = Inr k \<and> 0 \<le> k \<and> k < 2 ^ sum_list (map (width_of d) cnames) \<and>
    unpack (map (width_of d) cnames) k = t"
  using assms by (auto simp: tuple2int_fits tuple_fits_def pack_bounds unpack_pack)

theorem tuple_key_invertible_witness:
  "\<exists>k. tuple2int [3, 4] [''MOD'', ''RM''] [(''RM'', 3), (''MOD'', 2)] = Inr k \<and> 0 \<le> k \<and> k < 32 \<and>
    unpack [2, 3] k = [3, 4]"
  using tuple_key_invertible [of "[(''RM'', 3), (''MOD'', 2)]" "[''MOD'', ''RM'']" "[3, 4]"]
  by (simp add: has_widths_def din_def tuple_fits_def width_of_def dget_default_def)

end
