(* ===== verification/Cdict.thy ===== *)
theory Cdict
  imports Tuple_Key "HOL-Library.List_Lexorder" "HOL-Library.Char_ord"
begin

text \<open>
  Constraint dictionaries (\<open>constraint_dict_t\<close> of \<open>pysrc/ild_cdict.py\<close>).  A dictionary maps the
  tuples of constraint values of a map/opcode bin to the pattern (the rule) they select.  Every
  pattern is first expanded over the union of the constraint names of the bin, a name it does
  not mention taking all the values the grammar has; the expanded dictionaries are then united,
  an overlap being a decoding conflict of the grammar.
\<close>

section \<open>State\<close>

text \<open>\<open>state_space[NAME][VAL] = True\<close>: a dictionary of dictionaries.\<close>

type_synonym value_dict = "(int, bool) dict"
type_synonym space = "(string, value_dict) dict"

record 'r cdict =
  cnames :: "string list"
  state_space :: space
  all_state_space :: space
  rule :: "'r option"
  tuple2rule :: "(int list, 'r) dict"
  t2int :: "(int list, int) dict"
  int2tuple :: "(int, int list) dict"
  op_widths :: "(string, nat) dict"

section \<open>Construction\<close>

text \<open>
  The values of one name: the pattern's own if it constrains the name, else the grammar's.
  \<open>all_state_space\<close> is a \<open>defaultdict\<close>, so a name it lacks has no values, unless it is empty: the
  constructor then replaces it by a plain dict and the lookup raises \<open>KeyError\<close>.
\<close>

definition name_values :: "space \<Rightarrow> space \<Rightarrow> string \<Rightarrow> int list res" where
  "name_values space all_space name =
     (case map_of space name of
        Some vs \<Rightarrow> Inr (sort (dkeys vs))
      | None \<Rightarrow> if all_space = [] then Inl KeyError
                else Inr (sort (dkeys (dget_default all_space name []))))"

definition singletons :: "'r \<Rightarrow> int list \<Rightarrow> (int list, 'r) dict" where
  "singletons r vals = fold (\<lambda>val d. dset [val] r d) vals []"

definition extend_keys :: "'r \<Rightarrow> int list \<Rightarrow> (int list, 'r) dict \<Rightarrow> (int list, 'r) dict" where
  "extend_keys r vals t2r =
     fold (\<lambda>key_tuple d. fold (\<lambda>val d. dset (key_tuple @ [val]) r d) vals d) (dkeys t2r) []"

fun initialize_tuple2rule ::
  "space \<Rightarrow> space \<Rightarrow> 'r \<Rightarrow> string list \<Rightarrow> (int list, 'r) dict \<Rightarrow> (int list, 'r) dict res" where
  "initialize_tuple2rule space all_space r [] t2r = Inr t2r"
| "initialize_tuple2rule space all_space r (name # names) t2r =
     rbind (name_values space all_space name) (\<lambda>vals.
       if t2r = [] then initialize_tuple2rule space all_space r names (singletons r vals)
       else initialize_tuple2rule space all_space r names (extend_keys r vals t2r))"

text \<open>
  \<open>__init__\<close> with a rule, and with the names only (the result \<open>unite_dicts\<close> starts from).
\<close>

definition cdict_names :: "string set \<Rightarrow> 'r cdict" where
  "cdict_names cns =
     \<lparr>cnames = sorted_list_of_set cns, state_space = [], all_state_space = [], rule = None,
      tuple2rule = [], t2int = [], int2tuple = [], op_widths = []\<rparr>"

definition constraint_dict_new :: "string set \<Rightarrow> space \<Rightarrow> space \<Rightarrow> 'r \<Rightarrow> 'r cdict res" where
  "constraint_dict_new cns space all_space r =
     (let base = (cdict_names cns)\<lparr>state_space := space, all_state_space := all_space, rule := Some r\<rparr>
      in if space = [] then Inr base
         else rbind (initialize_tuple2rule space all_space r (cnames base) []) (\<lambda>t2r.
                Inr (base\<lparr>tuple2rule := t2r\<rparr>)))"

text \<open>
  The loop of \<open>unite_dicts\<close>: a key met twice is a conflict, which \<open>ild_err\<close> turns into an error
  exit.
\<close>

definition unite_key :: "'r cdict \<Rightarrow> int list \<Rightarrow> (int list, 'r) dict \<Rightarrow> (int list, 'r) dict res" where
  "unite_key cd key res =
     (if din key res then Inl (Die ''cdict conflict in pattern'')
      else rbind (dget (tuple2rule cd) key) (\<lambda>r. Inr (dset key r res)))"

definition unite_dicts :: "'r cdict list \<Rightarrow> string set \<Rightarrow> 'r cdict option res" where
  "unite_dicts dict_list cnstr_names =
     (case dict_list of
        [] \<Rightarrow> Inr None
      | [d] \<Rightarrow> Inr (Some d)
      | _ \<Rightarrow>
          rbind (foldM (\<lambda>cd res. foldM (unite_key cd) (dkeys (tuple2rule cd)) res) dict_list [])
            (\<lambda>t2r. Inr (Some ((cdict_names cnstr_names)\<lparr>tuple2rule := t2r\<rparr>))))"

section \<open>Keys\<close>

definition add_key ::
  "string list \<Rightarrow> (string, nat) dict \<Rightarrow> int list
     \<Rightarrow> (int list, int) dict \<times> (int, int list) dict
     \<Rightarrow> ((int list, int) dict \<times> (int, int list) dict) res" where
  "add_key cns widths t st =
     (case st of (ti, it) \<Rightarrow>
       rbind (tuple2int t cns widths) (\<lambda>k.
         if din k it then Inl (Die ''two tuples generate the same value'')
         else Inr (dset t k ti, dset k t it)))"

definition create_tuple2int :: "(string, nat) dict \<Rightarrow> 'r cdict \<Rightarrow> 'r cdict res" where
  "create_tuple2int all_ops_widths cd =
     rbind (foldM (add_key (cnames cd) all_ops_widths) (dkeys (tuple2rule cd)) ([], []))
       (\<lambda>(ti, it). Inr (cd\<lparr>op_widths := all_ops_widths, t2int := ti, int2tuple := it\<rparr>))"

definition get_all_keys_by_val :: "'r cdict \<Rightarrow> 'r \<Rightarrow> int list list" where
  "get_all_keys_by_val cd val = map fst (filter (\<lambda>(k, v). v = val) (tuple2rule cd))"

definition filter_tuple ::
  "'r cdict \<Rightarrow> int list \<Rightarrow> (int list, int) dict \<times> (int list, 'r) dict
     \<Rightarrow> ((int list, int) dict \<times> (int list, 'r) dict) res" where
  "filter_tuple cd t st =
     (case st of (ti, tr) \<Rightarrow>
       rbind (dget (t2int cd) t) (\<lambda>k. rbind (dget (tuple2rule cd) t) (\<lambda>r.
         Inr (dset t k ti, dset t r tr))))"

definition invert_dict :: "('a, 'b) dict \<Rightarrow> ('b, 'a) dict" where
  "invert_dict d = fold (\<lambda>(t, i) e. dset i t e) d []"

definition filter_tuples :: "'r cdict \<Rightarrow> int list list \<Rightarrow> 'r cdict res" where
  "filter_tuples cd tuples =
     rbind (foldM (filter_tuple cd) tuples ([], [])) (\<lambda>(ti, tr).
       Inr (cd\<lparr>t2int := ti, tuple2rule := tr, int2tuple := invert_dict ti\<rparr>))"

section \<open>What the expansion builds\<close>

definition const_dict :: "'r \<Rightarrow> 'k list \<Rightarrow> ('k, 'r) dict" where
  "const_dict r ks = map (\<lambda>k. (k, r)) ks"

lemma dkeys_const [simp]: "dkeys (const_dict r ks) = ks"
  by (simp add: const_dict_def comp_def)

lemma const_dict_eq_Nil [simp]: "const_dict r ks = [] \<longleftrightarrow> ks = []"
  by (simp add: const_dict_def)

lemma map_of_const [simp]:
  "map_of (const_dict r ks) k = (if k \<in> set ks then Some r else None)"
  by (induction ks) (auto simp: const_dict_def)

lemma fold_dset_const:
  "distinct (ks @ map f vs) \<Longrightarrow>
     fold (\<lambda>v d. dset (f v) r d) vs (const_dict r ks) = const_dict r (ks @ map f vs)"
proof (induction vs arbitrary: ks)
  case Nil
  then show ?case by simp
next
  case (Cons v vs)
  then have "f v \<notin> fst ` set (const_dict r ks)"
    by (auto simp: const_dict_def)
  then have "dset (f v) r (const_dict r ks) = const_dict r (ks @ [f v])"
    by (simp add: dset_new) (simp add: const_dict_def)
  with Cons show ?case by simp
qed

lemma singletons_eq: "distinct vals \<Longrightarrow> singletons r vals = const_dict r (map (\<lambda>v. [v]) vals)"
  using fold_dset_const [of "[]" "\<lambda>v. [v]" vals r]
  by (simp add: singletons_def distinct_map inj_on_def const_dict_def)

definition snoc_all :: "'a list list \<Rightarrow> 'a list \<Rightarrow> 'a list list" where
  "snoc_all ts vs = concat (map (\<lambda>t. map (\<lambda>v. t @ [v]) vs) ts)"

lemma snoc_all_simps [simp]:
  "snoc_all [] vs = []"
  "snoc_all (t # ts) vs = map (\<lambda>v. t @ [v]) vs @ snoc_all ts vs"
  by (simp_all add: snoc_all_def)

lemma set_snoc_all: "set (snoc_all ts vs) = {t @ [v] |t v. t \<in> set ts \<and> v \<in> set vs}"
  by (auto simp: snoc_all_def)

lemma distinct_snoc_all: "distinct ts \<Longrightarrow> distinct vs \<Longrightarrow> distinct (snoc_all ts vs)"
proof (induction ts)
  case (Cons t ts)
  then show ?case by (auto simp: snoc_all_def distinct_map inj_on_def)
qed (simp add: snoc_all_def)

lemma extend_keys_loop:
  "distinct (ks @ snoc_all ts vs) \<Longrightarrow>
     fold (\<lambda>t d. fold (\<lambda>v d. dset (t @ [v]) r d) vs d) ts (const_dict r ks) =
       const_dict r (ks @ snoc_all ts vs)"
proof (induction ts arbitrary: ks)
  case Nil
  then show ?case by simp
next
  case (Cons t ts)
  let ?new = "map (\<lambda>v. t @ [v]) vs"
  have "distinct (ks @ ?new)" and d: "distinct ((ks @ ?new) @ snoc_all ts vs)"
    using Cons.prems by (simp_all, blast)
  then have "fold (\<lambda>v d. dset (t @ [v]) r d) vs (const_dict r ks) = const_dict r (ks @ ?new)"
    by (intro fold_dset_const)
  with Cons.IH [OF d] show ?case by simp
qed

lemma extend_keys_eq:
  assumes "distinct ts" "distinct vs"
  shows "extend_keys r vs (const_dict r ts) = const_dict r (snoc_all ts vs)"
  using extend_keys_loop [of "[]" ts vs r] distinct_snoc_all [OF assms]
  by (simp add: extend_keys_def const_dict_def comp_def)

definition cross :: "int list list \<Rightarrow> int list list \<Rightarrow> int list list" where
  "cross ts vss = fold (\<lambda>vs ts. snoc_all ts vs) vss ts"

lemma set_cross:
  "set (cross ts vss) = {t @ u |t u. t \<in> set ts \<and> list_all2 (\<lambda>x vs. x \<in> set vs) u vss}"
proof (induction vss arbitrary: ts)
  case Nil
  then show ?case by (simp add: cross_def)
next
  case (Cons vs vss)
  have "set (cross ts (vs # vss)) =
      {t @ u |t u. t \<in> set (snoc_all ts vs) \<and> list_all2 (\<lambda>x vs. x \<in> set vs) u vss}"
    using Cons by (simp add: cross_def)
  also have "\<dots> = {t @ v # u |t v u. t \<in> set ts \<and> v \<in> set vs \<and>
      list_all2 (\<lambda>x vs. x \<in> set vs) u vss}"
  proof (intro set_eqI iffI)
    fix x
    assume "x \<in> {t @ u |t u. t \<in> set (snoc_all ts vs) \<and> list_all2 (\<lambda>x vs. x \<in> set vs) u vss}"
    then obtain t v u where "x = (t @ [v]) @ u" "t \<in> set ts" "v \<in> set vs"
      "list_all2 (\<lambda>x vs. x \<in> set vs) u vss" unfolding set_snoc_all by blast
    then show "x \<in> {t @ v # u |t v u. t \<in> set ts \<and> v \<in> set vs \<and>
      list_all2 (\<lambda>x vs. x \<in> set vs) u vss}" by auto
  next
    fix x
    assume "x \<in> {t @ v # u |t v u. t \<in> set ts \<and> v \<in> set vs \<and>
      list_all2 (\<lambda>x vs. x \<in> set vs) u vss}"
    then obtain t v u where "x = (t @ [v]) @ u" "t \<in> set ts" "v \<in> set vs"
      "list_all2 (\<lambda>x vs. x \<in> set vs) u vss" by auto
    then show "x \<in> {t @ u |t u. t \<in> set (snoc_all ts vs) \<and>
      list_all2 (\<lambda>x vs. x \<in> set vs) u vss}" unfolding set_snoc_all by blast
  qed
  also have "\<dots> = {t @ u |t u. t \<in> set ts \<and> list_all2 (\<lambda>x vs. x \<in> set vs) u (vs # vss)}"
    unfolding list_all2_Cons2 by blast
  finally show ?case .
qed

lemma distinct_cross: "distinct ts \<Longrightarrow> \<forall>vs \<in> set vss. distinct vs \<Longrightarrow> distinct (cross ts vss)"
  by (induction vss arbitrary: ts) (auto simp: cross_def distinct_snoc_all)

lemma snoc_all_nonempty: "ts \<noteq> [] \<Longrightarrow> vs \<noteq> [] \<Longrightarrow> snoc_all ts vs \<noteq> []"
  by (cases ts; cases vs) (auto simp: snoc_all_def)

lemma initialize_from:
  assumes "mapM (name_values sp all) names = Inr vss"
    and "\<forall>vs \<in> set vss. distinct vs \<and> vs \<noteq> []" and "distinct ts" "ts \<noteq> []"
  shows "initialize_tuple2rule sp all r names (const_dict r ts) = Inr (const_dict r (cross ts vss))"
  using assms
proof (induction names arbitrary: vss ts)
  case Nil
  then show ?case by (simp add: cross_def)
next
  case (Cons n names)
  then obtain vs vss' where vs: "name_values sp all n = Inr vs"
    and r: "mapM (name_values sp all) names = Inr vss'" and v: "vss = vs # vss'"
    by (auto simp: rbind_eq_Inr)
  have "initialize_tuple2rule sp all r names (const_dict r (snoc_all ts vs)) =
      Inr (const_dict r (cross (snoc_all ts vs) vss'))"
    using Cons.prems v by (intro Cons.IH [OF r]) (auto simp: distinct_snoc_all snoc_all_nonempty)
  with Cons.prems vs v show ?case
    by (simp add: extend_keys_eq cross_def)
qed

lemma initialize_tuple2rule_eq:
  assumes "mapM (name_values sp all) names = Inr vss" "names \<noteq> []"
    and "\<forall>vs \<in> set vss. distinct vs \<and> vs \<noteq> []"
  shows "initialize_tuple2rule sp all r names [] = Inr (const_dict r (cross [[]] vss))"
proof -
  from assms(1,2) obtain n names' vs vss' where n: "names = n # names'"
    and vs: "name_values sp all n = Inr vs" and r: "mapM (name_values sp all) names' = Inr vss'"
    and v: "vss = vs # vss'"
    by (cases names) (auto simp: rbind_eq_Inr)
  have d: "distinct vs" "vs \<noteq> []" using assms(3) v by auto
  then have "initialize_tuple2rule sp all r names' (const_dict r (map (\<lambda>v. [v]) vs)) =
      Inr (const_dict r (cross (map (\<lambda>v. [v]) vs) vss'))"
    using assms(3) v by (intro initialize_from [OF r]) (auto simp: distinct_map inj_on_def)
  moreover have "cross (map (\<lambda>v. [v]) vs) vss' = cross [[]] vss"
    by (simp add: cross_def v snoc_all_def)
  ultimately show ?thesis using vs d by (simp add: n singletons_eq)
qed

text \<open>The values a name ranges over, and the spaces on which the expansion is defined.\<close>

definition name_dict :: "space \<Rightarrow> space \<Rightarrow> string \<Rightarrow> value_dict" where
  "name_dict sp all n = (case map_of sp n of Some vs \<Rightarrow> vs | None \<Rightarrow> dget_default all n [])"

definition name_vals :: "space \<Rightarrow> space \<Rightarrow> string \<Rightarrow> int list" where
  "name_vals sp all n = sort (dkeys (name_dict sp all n))"

definition space_wf :: "space \<Rightarrow> space \<Rightarrow> string set \<Rightarrow> bool" where
  "space_wf sp all cns \<longleftrightarrow> finite cns \<and> cns \<noteq> {} \<and> sp \<noteq> [] \<and> all \<noteq> [] \<and>
     (\<forall>n \<in> cns. dict_ok (name_dict sp all n) \<and> name_dict sp all n \<noteq> [])"

definition satisfies :: "space \<Rightarrow> space \<Rightarrow> string list \<Rightarrow> int list \<Rightarrow> bool" where
  "satisfies sp all names t \<longleftrightarrow> list_all2 (\<lambda>x n. x \<in> set (dkeys (name_dict sp all n))) t names"

lemma name_values_eq: "all \<noteq> [] \<Longrightarrow> name_values sp all n = Inr (name_vals sp all n)"
  by (simp add: name_values_def name_vals_def name_dict_def split: option.splits)

lemma sort_eq_Nil [simp]: "sort xs = [] \<longleftrightarrow> xs = []"
  by (metis length_0_conv length_sort)

lemma constraint_dict_new_eq:
  assumes "space_wf sp all cns"
  shows "constraint_dict_new cns sp all r =
     Inr ((cdict_names cns)\<lparr>state_space := sp, all_state_space := all, rule := Some r,
       tuple2rule := const_dict r (cross [[]] (map (name_vals sp all) (sorted_list_of_set cns)))\<rparr>)"
proof -
  let ?names = "sorted_list_of_set cns"
  from assms have a: "all \<noteq> []" "sp \<noteq> []" and fin: "finite cns" "cns \<noteq> {}"
    and d: "\<forall>n \<in> cns. dict_ok (name_dict sp all n) \<and> name_dict sp all n \<noteq> []"
    by (auto simp: space_wf_def)
  have m: "mapM (name_values sp all) ?names = Inr (map (name_vals sp all) ?names)"
    using a by (intro mapM_total) (simp add: name_values_eq)
  have "initialize_tuple2rule sp all r ?names [] =
      Inr (const_dict r (cross [[]] (map (name_vals sp all) ?names)))"
    using fin d by (intro initialize_tuple2rule_eq [OF m])
      (auto simp: name_vals_def dict_ok_def)
  with a show ?thesis by (simp add: constraint_dict_new_def cdict_names_def Let_def)
qed

lemma expand_lookup:
  assumes wf: "space_wf sp all cns" and cd: "constraint_dict_new cns sp all r = Inr cd"
  shows "map_of (tuple2rule cd) t =
           (if satisfies sp all (sorted_list_of_set cns) t then Some r else None)"
    and "dict_ok (tuple2rule cd)" and "cnames cd = sorted_list_of_set cns"
proof -
  from cd have c: "cd = (cdict_names cns)\<lparr>state_space := sp, all_state_space := all, rule := Some r,
       tuple2rule := const_dict r (cross [[]] (map (name_vals sp all) (sorted_list_of_set cns)))\<rparr>"
    by (simp add: constraint_dict_new_eq [OF wf])
  have "t \<in> set (cross [[]] (map (name_vals sp all) (sorted_list_of_set cns))) \<longleftrightarrow>
      satisfies sp all (sorted_list_of_set cns) t"
    unfolding set_cross satisfies_def by (simp add: list_all2_map2 name_vals_def)
  then show "map_of (tuple2rule cd) t =
           (if satisfies sp all (sorted_list_of_set cns) t then Some r else None)"
    by (simp add: c)
  have "distinct (cross [[]] (map (name_vals sp all) (sorted_list_of_set cns)))"
    using wf by (intro distinct_cross) (auto simp: name_vals_def space_wf_def dict_ok_def)
  then show "dict_ok (tuple2rule cd)" by (simp add: c dict_ok_def)
  show "cnames cd = sorted_list_of_set cns" by (simp add: c cdict_names_def)
qed

section \<open>What the union holds\<close>

lemma unite_key_Inr:
  "unite_key cd k res = Inr res1 \<longleftrightarrow>
     \<not> din k res \<and> (\<exists>r. map_of (tuple2rule cd) k = Some r \<and> res1 = dset k r res)"
  by (auto simp: unite_key_def rbind_eq_Inr)

lemma unite_keys_Inr:
  assumes "foldM (unite_key cd) ks res = Inr res'" and "dict_ok res"
  shows "dict_ok res' \<and> distinct ks \<and> set ks \<inter> set (dkeys res) = {} \<and> set ks \<subseteq> set (dkeys (tuple2rule cd)) \<and>
    (\<forall>t. map_of res' t = (if t \<in> set ks then map_of (tuple2rule cd) t else map_of res t))"
  using assms
proof (induction ks arbitrary: res)
  case Nil
  then show ?case by simp
next
  case (Cons k ks)
  then obtain r where new: "\<not> din k res" and r: "map_of (tuple2rule cd) k = Some r"
    and rest: "foldM (unite_key cd) ks (dset k r res) = Inr res'"
    by (auto simp: rbind_eq_Inr unite_key_Inr)
  from new have k: "k \<notin> set (dkeys res)" by (simp add: din_dkeys)
  have "k \<in> set (dkeys (tuple2rule cd))"
    using r by (metis domI dom_map_of_conv_image_fst list.set_map)
  with Cons.IH [OF rest] Cons.prems(2) k r show ?case
    by (auto simp: dkeys_dset image_iff split: if_splits)
qed

lemma unite_keys_total:
  assumes "distinct ks" "set ks \<inter> set (dkeys res) = {}" "set ks \<subseteq> set (dkeys (tuple2rule cd))"
  shows "\<exists>res'. foldM (unite_key cd) ks res = Inr res'"
  using assms
proof (induction ks arbitrary: res)
  case Nil
  then show ?case by simp
next
  case (Cons k ks)
  have "k \<in> fst ` set (tuple2rule cd)" using Cons.prems(3) by simp
  then obtain r where r: "map_of (tuple2rule cd) k = Some r"
    by (metis domD dom_map_of_conv_image_fst)
  have "\<exists>res'. foldM (unite_key cd) ks (dset k r res) = Inr res'"
    using Cons.prems by (intro Cons.IH) (auto simp: dkeys_dset split: if_splits)
  moreover have "\<not> din k res" using Cons.prems(2) by (auto simp: din_dkeys)
  ultimately have "unite_key cd k res = Inr (dset k r res)"
    using r by (simp add: unite_key_Inr)
  with \<open>\<exists>res'. foldM (unite_key cd) ks (dset k r res) = Inr res'\<close> show ?case by simp
qed

definition unite_all :: "'r cdict list \<Rightarrow> (int list, 'r) dict \<Rightarrow> (int list, 'r) dict res" where
  "unite_all cds res = foldM (\<lambda>cd res. foldM (unite_key cd) (dkeys (tuple2rule cd)) res) cds res"

definition disjoint_rules :: "'r cdict list \<Rightarrow> bool" where
  "disjoint_rules cds \<longleftrightarrow> (\<forall>i j t. i < j \<longrightarrow> j < length cds \<longrightarrow>
     \<not> (map_of (tuple2rule (cds ! i)) t \<noteq> None \<and> map_of (tuple2rule (cds ! j)) t \<noteq> None))"

lemma disjoint_rules_Cons:
  "disjoint_rules (c # cds) \<longleftrightarrow> disjoint_rules cds \<and>
     (\<forall>d \<in> set cds. \<forall>t. \<not> (map_of (tuple2rule c) t \<noteq> None \<and> map_of (tuple2rule d) t \<noteq> None))"
    (is "?L \<longleftrightarrow> ?R")
proof
  assume L: ?L
  have "disjoint_rules cds"
    unfolding disjoint_rules_def
  proof (intro allI impI)
    fix i j t
    assume "i < j" "j < length cds"
    then show "\<not> (map_of (tuple2rule (cds ! i)) t \<noteq> None \<and> map_of (tuple2rule (cds ! j)) t \<noteq> None)"
      using L [unfolded disjoint_rules_def, rule_format, of "Suc i" "Suc j" t] by simp
  qed
  moreover have "\<not> (map_of (tuple2rule c) t \<noteq> None \<and> map_of (tuple2rule d) t \<noteq> None)"
    if "d \<in> set cds" for d t
  proof -
    from that obtain j where "j < length cds" "d = cds ! j" by (auto simp: in_set_conv_nth)
    then show ?thesis using L [unfolded disjoint_rules_def, rule_format, of 0 "Suc j" t] by simp
  qed
  ultimately show ?R by blast
next
  assume R: ?R
  show ?L
    unfolding disjoint_rules_def
  proof (intro allI impI)
    fix i j t
    assume ij: "i < j" "j < length (c # cds)"
    then obtain j' where j: "j = Suc j'" "j' < length cds" by (cases j) auto
    show "\<not> (map_of (tuple2rule ((c # cds) ! i)) t \<noteq> None \<and> map_of (tuple2rule ((c # cds) ! j)) t \<noteq> None)"
    proof (cases i)
      case 0
      then show ?thesis using R j by simp
    next
      case (Suc i')
      then show ?thesis using R j ij unfolding disjoint_rules_def by auto
    qed
  qed
qed

lemma map_of_None_keys: "map_of d t \<noteq> None \<longleftrightarrow> t \<in> set (dkeys d)"
  by (simp add: map_of_eq_None_iff)

lemma unite_all_Inr:
  assumes "unite_all cds res = Inr res'" and "dict_ok res"
  shows "dict_ok res' \<and> disjoint_rules cds \<and>
    (\<forall>c \<in> set cds. \<forall>t. \<not> (map_of res t \<noteq> None \<and> map_of (tuple2rule c) t \<noteq> None)) \<and>
    (\<forall>t r. map_of res' t = Some r \<longleftrightarrow> map_of res t = Some r \<or>
       (\<exists>c \<in> set cds. map_of (tuple2rule c) t = Some r))"
  using assms
proof (induction cds arbitrary: res)
  case Nil
  then show ?case by (simp add: unite_all_def disjoint_rules_def)
next
  case (Cons c cds)
  then obtain res1 where one: "foldM (unite_key c) (dkeys (tuple2rule c)) res = Inr res1"
    and rest: "unite_all cds res1 = Inr res'"
    by (auto simp: unite_all_def rbind_eq_Inr)
  note k = unite_keys_Inr [OF one Cons.prems(2)]
  have m1: "map_of res1 t = (if map_of (tuple2rule c) t \<noteq> None then map_of (tuple2rule c) t else map_of res t)" for t
    using k map_of_None_keys [of "tuple2rule c" t] by simp
  have dis: "\<not> (map_of res t \<noteq> None \<and> map_of (tuple2rule c) t \<noteq> None)" for t
    using k unfolding map_of_None_keys by blast
  note IH = Cons.IH [OF rest conjunct1 [OF k]]
  have "disjoint_rules (c # cds)"
    unfolding disjoint_rules_Cons using IH m1 by (metis option.distinct(1))
  moreover have "\<forall>d \<in> set (c # cds). \<forall>t. \<not> (map_of res t \<noteq> None \<and> map_of (tuple2rule d) t \<noteq> None)"
    using IH m1 dis by (metis set_ConsD)
  moreover have "map_of res' t = Some r \<longleftrightarrow> map_of res t = Some r \<or>
       (\<exists>d \<in> set (c # cds). map_of (tuple2rule d) t = Some r)" for t r
    using IH m1 [of t] dis [of t] by (auto split: if_splits)
  ultimately show ?case using IH by blast
qed

lemma unite_all_total:
  assumes "\<forall>c \<in> set cds. dict_ok (tuple2rule c)" and "dict_ok res" and "disjoint_rules cds"
    and "\<forall>c \<in> set cds. \<forall>t. \<not> (map_of res t \<noteq> None \<and> map_of (tuple2rule c) t \<noteq> None)"
  shows "\<exists>res'. unite_all cds res = Inr res'"
  using assms
proof (induction cds arbitrary: res)
  case Nil
  then show ?case by (simp add: unite_all_def)
next
  case (Cons c cds)
  have "set (dkeys (tuple2rule c)) \<inter> set (dkeys res) = {}"
    using Cons.prems(4) unfolding map_of_None_keys by auto
  then obtain res1 where one: "foldM (unite_key c) (dkeys (tuple2rule c)) res = Inr res1"
    using Cons.prems(1) unite_keys_total [of "dkeys (tuple2rule c)" res c]
    by (auto simp: dict_ok_def)
  note k = unite_keys_Inr [OF one Cons.prems(2)]
  have m1: "map_of res1 t = (if map_of (tuple2rule c) t \<noteq> None then map_of (tuple2rule c) t else map_of res t)" for t
    using k map_of_None_keys [of "tuple2rule c" t] by simp
  have "disjoint_rules cds" and d: "\<forall>e \<in> set cds. \<forall>t. \<not> (map_of (tuple2rule c) t \<noteq> None \<and> map_of (tuple2rule e) t \<noteq> None)"
    using Cons.prems(3) unfolding disjoint_rules_Cons by blast+
  moreover have "\<forall>e \<in> set cds. \<forall>t. \<not> (map_of res1 t \<noteq> None \<and> map_of (tuple2rule e) t \<noteq> None)"
    using Cons.prems(4) d m1 by (metis list.set_intros(2))
  ultimately have "\<exists>res'. unite_all cds res1 = Inr res'"
    using Cons.prems(1) k by (intro Cons.IH) simp_all
  with one show ?case by (simp add: unite_all_def)
qed

lemma unite_dicts_all:
  "2 \<le> length cds \<Longrightarrow> unite_dicts cds cns =
     rbind (unite_all cds []) (\<lambda>t2r. Inr (Some ((cdict_names cns)\<lparr>tuple2rule := t2r\<rparr>)))"
  by (cases cds; cases "tl cds") (auto simp: unite_dicts_def unite_all_def)

lemma unite_dicts_lookup:
  assumes "unite_dicts cds cns = Inr (Some u)" and "\<forall>c \<in> set cds. dict_ok (tuple2rule c)"
  shows "dict_ok (tuple2rule u) \<and> disjoint_rules cds \<and>
    (\<forall>t r. map_of (tuple2rule u) t = Some r \<longleftrightarrow> (\<exists>c \<in> set cds. map_of (tuple2rule c) t = Some r))"
proof -
  consider "cds = []" | c where "cds = [c]" | "2 \<le> length cds"
    by (cases cds; cases "tl cds") auto
  then show ?thesis
  proof cases
    case 1
    with assms(1) show ?thesis by (simp add: unite_dicts_def)
  next
    case 2
    with assms show ?thesis by (auto simp: unite_dicts_def disjoint_rules_def)
  next
    case 3
    then show ?thesis
      using assms(1) by (auto simp: unite_dicts_all rbind_eq_Inr dest!: unite_all_Inr)
  qed
qed

lemma unite_dicts_cnames:
  assumes "unite_dicts cds cns = Inr (Some u)" and "\<forall>c \<in> set cds. cnames c = sorted_list_of_set cns"
  shows "cnames u = sorted_list_of_set cns"
  using assms by (auto simp: unite_dicts_def cdict_names_def rbind_eq_Inr split: list.splits)

text \<open>Constraints and rules, expanded one by one and united.\<close>

lemma expand_unite_lookup:
  assumes m: "mapM (\<lambda>(sp, r). constraint_dict_new cns sp all_space r) xs = Inr cds"
    and un: "unite_dicts cds cns = Inr (Some u)"
    and wf: "\<forall>x \<in> set xs. space_wf (fst x) all_space cns"
  shows "dict_ok (tuple2rule u)" and "cnames u = sorted_list_of_set cns"
    and "map_of (tuple2rule u) t = Some q \<longleftrightarrow>
           (\<exists>sp. (sp, q) \<in> set xs \<and> satisfies sp all_space (sorted_list_of_set cns) t)"
proof -
  have len: "length cds = length xs" by (rule mapM_Inr_length [OF m])
  have new: "constraint_dict_new cns (fst (xs ! i)) all_space (snd (xs ! i)) = Inr (cds ! i)"
    if "i < length xs" for i using mapM_Inr_nth [OF m that] by (simp add: case_prod_unfold)
  note ex = expand_lookup [OF _ new]
  have ok: "\<forall>c \<in> set cds. dict_ok (tuple2rule c)" and cn: "\<forall>c \<in> set cds. cnames c = sorted_list_of_set cns"
    using ex(2,3) wf len by (metis in_set_conv_nth nth_mem)+
  note ul = unite_dicts_lookup [OF un ok]
  show "dict_ok (tuple2rule u)" using ul by simp
  show "cnames u = sorted_list_of_set cns" by (rule unite_dicts_cnames [OF un cn])
  have sub: "map_of (tuple2rule (cds ! i)) t = Some q \<longleftrightarrow>
      q = snd (xs ! i) \<and> satisfies (fst (xs ! i)) all_space (sorted_list_of_set cns) t"
    if "i < length xs" for i
    using ex(1) [OF _ that, of t] wf that by auto
  have "map_of (tuple2rule u) t = Some q \<longleftrightarrow> (\<exists>c \<in> set cds. map_of (tuple2rule c) t = Some q)"
    using ul by simp
  also have "\<dots> \<longleftrightarrow> (\<exists>i < length xs. map_of (tuple2rule (cds ! i)) t = Some q)"
    by (metis in_set_conv_nth len)
  also have "\<dots> \<longleftrightarrow> (\<exists>sp. (sp, q) \<in> set xs \<and> satisfies sp all_space (sorted_list_of_set cns) t)"
    using sub by (force simp: in_set_conv_nth)
  finally show "map_of (tuple2rule u) t = Some q \<longleftrightarrow>
           (\<exists>sp. (sp, q) \<in> set xs \<and> satisfies sp all_space (sorted_list_of_set cns) t)" .
qed

section \<open>Where the rules of a dictionary come from\<close>

definition values_in :: "'r set \<Rightarrow> ('k, 'r) dict \<Rightarrow> bool" where
  "values_in rs d \<longleftrightarrow> (\<forall>t q. map_of d t = Some q \<longrightarrow> q \<in> rs)"

lemma values_in_Nil [simp]: "values_in rs []"
  by (simp add: values_in_def)

lemma values_in_dset: "values_in rs d \<Longrightarrow> r \<in> rs \<Longrightarrow> values_in rs (dset k r d)"
  by (auto simp: values_in_def)

lemma values_in_fold:
  assumes "values_in rs d" and "\<And>x d. values_in rs d \<Longrightarrow> values_in rs (f x d)"
  shows "values_in rs (fold f xs d)"
  using assms(1) by (induction xs arbitrary: d) (simp_all add: assms(2))

lemma initialize_tuple2rule_values:
  assumes "initialize_tuple2rule sp all r ns d = Inr d'" and "values_in {r} d"
  shows "values_in {r} d'"
  using assms
proof (induction ns arbitrary: d)
  case Nil
  then show ?case by simp
next
  case (Cons n ns)
  have "values_in {r} (singletons r vals)" "values_in {r} (extend_keys r vals d)" for vals
    unfolding singletons_def extend_keys_def by (intro values_in_fold values_in_dset; simp)+
  with Cons show ?case by (auto simp: rbind_eq_Inr split: if_splits)
qed

lemma constraint_dict_new_values:
  assumes "constraint_dict_new cns sp all_space p = Inr cd"
  shows "values_in (if sp = [] then {} else {p}) (tuple2rule cd)"
  using assms initialize_tuple2rule_values [of sp all_space p "sorted_list_of_set cns" "[]"]
  by (auto simp: constraint_dict_new_def cdict_names_def rbind_eq_Inr Let_def)

lemma unite_dicts_values:
  assumes "unite_dicts cds cns = Inr (Some u)" and "\<forall>cd \<in> set cds. values_in rs (tuple2rule cd)"
  shows "values_in rs (tuple2rule u)"
proof (cases "2 \<le> length cds")
  case False
  then consider "cds = []" | c where "cds = [c]" by (cases cds; cases "tl cds") auto
  then show ?thesis by cases (use assms in \<open>auto simp: unite_dicts_def\<close>)
next
  case True
  then obtain d where d: "unite_all cds [] = Inr d" "tuple2rule u = d"
    using assms(1) by (auto simp: unite_dicts_all rbind_eq_Inr)
  have "values_in rs d"
  proof (rule foldM_invariant [OF d(1) [unfolded unite_all_def], of "values_in rs"])
    fix cd s t
    assume cd: "cd \<in> set cds" and s: "values_in rs s" "foldM (unite_key cd) (dkeys (tuple2rule cd)) s = Inr t"
    show "values_in rs t"
    proof (rule foldM_invariant [OF s(2), of "values_in rs", OF s(1)])
      fix k s t
      assume s: "values_in rs s" "unite_key cd k s = Inr t"
      then obtain r where "map_of (tuple2rule cd) k = Some r" "t = dset k r s" by (auto simp: unite_key_Inr)
      with assms(2) cd s(1) show "values_in rs t" by (auto simp: values_in_def intro!: values_in_dset [unfolded values_in_def])
    qed
  qed simp
  with d(2) show ?thesis by simp
qed

lemma constraint_dict_new_cnames:
  "constraint_dict_new cns sp all_space p = Inr cd \<Longrightarrow> cnames cd = sorted_list_of_set cns"
  by (auto simp: constraint_dict_new_def cdict_names_def rbind_eq_Inr Let_def split: if_splits)

section \<open>What the keys are\<close>

definition inverse_dicts :: "('a, 'b) dict \<Rightarrow> ('b, 'a) dict \<Rightarrow> bool" where
  "inverse_dicts d e \<longleftrightarrow> dict_ok d \<and> dict_ok e \<and> (\<forall>t k. map_of d t = Some k \<longleftrightarrow> map_of e k = Some t)"

lemma inverse_dicts_Nil [simp]: "inverse_dicts [] []"
  by (simp add: inverse_dicts_def)

lemma inverse_dicts_dset:
  assumes "inverse_dicts d e" "map_of d t = None" "map_of e k = None"
  shows "inverse_dicts (dset t k d) (dset k t e)"
proof -
  from assms(1) have ok: "dict_ok d" "dict_ok e"
    and iff: "\<And>u j. map_of d u = Some j \<longleftrightarrow> map_of e j = Some u"
    by (auto simp: inverse_dicts_def)
  have "map_of (dset t k d) u = Some j \<longleftrightarrow> map_of (dset k t e) j = Some u" for u j
    using assms(2,3) iff [of u j] iff [of t j] iff [of u k] by auto
  with ok show ?thesis by (simp add: inverse_dicts_def)
qed

definition keys_ok :: "'r cdict \<Rightarrow> bool" where
  "keys_ok cd \<longleftrightarrow> dict_ok (tuple2rule cd) \<and> set (dkeys (t2int cd)) = set (dkeys (tuple2rule cd)) \<and>
     inverse_dicts (t2int cd) (int2tuple cd) \<and>
     (\<forall>t k. map_of (t2int cd) t = Some k \<longrightarrow> tuple2int t (cnames cd) (op_widths cd) = Inr k)"

lemma add_keys_Inr:
  assumes "foldM (add_key cns w) ts (ti, it) = Inr (ti', it')" and "inverse_dicts ti it"
    and "distinct ts" "set ts \<inter> set (dkeys ti) = {}"
    and "\<forall>t k. map_of ti t = Some k \<longrightarrow> tuple2int t cns w = Inr k"
  shows "inverse_dicts ti' it' \<and> dkeys ti' = dkeys ti @ ts \<and>
    (\<forall>t k. map_of ti' t = Some k \<longrightarrow> tuple2int t cns w = Inr k)"
  using assms
proof (induction ts arbitrary: ti it)
  case Nil
  then show ?case by simp
next
  case (Cons t ts)
  then obtain k where k: "tuple2int t cns w = Inr k" "\<not> din k it"
    and rest: "foldM (add_key cns w) ts (dset t k ti, dset k t it) = Inr (ti', it')"
    by (auto simp: rbind_eq_Inr add_key_def [of cns w t] split: if_splits)
  have t: "t \<notin> set (dkeys ti)" using Cons.prems(4) by simp
  then have inv: "inverse_dicts (dset t k ti) (dset k t it)"
    using Cons.prems(2) k(2) by (intro inverse_dicts_dset) (auto simp: din_def map_of_eq_None_iff)
  have keys: "dkeys (dset t k ti) = dkeys ti @ [t]" using t by (simp add: dkeys_dset)
  have "inverse_dicts ti' it' \<and> dkeys ti' = dkeys (dset t k ti) @ ts \<and>
    (\<forall>t k. map_of ti' t = Some k \<longrightarrow> tuple2int t cns w = Inr k)"
    using Cons.prems k t by (intro Cons.IH [OF rest inv]) (auto simp: dkeys_dset image_iff)
  then show ?case by (simp add: keys)
qed

lemma create_tuple2int_keys_ok:
  assumes "create_tuple2int w cd = Inr cd'" and "dict_ok (tuple2rule cd)"
  shows "keys_ok cd'" and "tuple2rule cd' = tuple2rule cd" and "cnames cd' = cnames cd"
    and "op_widths cd' = w" and "dkeys (t2int cd') = dkeys (tuple2rule cd)"
proof -
  from assms(1) obtain ti it where f: "foldM (add_key (cnames cd) w) (dkeys (tuple2rule cd)) ([], []) = Inr (ti, it)"
    and cd': "cd' = cd\<lparr>op_widths := w, t2int := ti, int2tuple := it\<rparr>"
    by (auto simp: create_tuple2int_def rbind_eq_Inr)
  have "inverse_dicts ti it \<and> dkeys ti = dkeys (tuple2rule cd) \<and>
    (\<forall>t k. map_of ti t = Some k \<longrightarrow> tuple2int t (cnames cd) w = Inr k)"
    using add_keys_Inr [OF f] assms(2) by (simp add: dict_ok_def)
  then show "keys_ok cd'" and "dkeys (t2int cd') = dkeys (tuple2rule cd)"
    using assms(2) by (simp_all add: keys_ok_def cd')
  show "tuple2rule cd' = tuple2rule cd" and "cnames cd' = cnames cd" and "op_widths cd' = w"
    by (simp_all add: cd')
qed

text \<open>Tuples whose values fit their fields never collide.\<close>

lemma add_keys_total:
  assumes "has_widths w cns" and "\<forall>t \<in> set ts. tuple_fits w cns t" "distinct ts"
    and "\<forall>k t. map_of it k = Some t \<longrightarrow> tuple_fits w cns t \<and> t \<notin> set ts \<and> tuple2int t cns w = Inr k"
  shows "\<exists>r. foldM (add_key cns w) ts (ti, it) = Inr r"
  using assms
proof (induction ts arbitrary: ti it)
  case Nil
  then show ?case by simp
next
  case (Cons t ts)
  let ?k = "pack t (map (width_of w) cns)"
  have k: "tuple2int t cns w = Inr ?k" using Cons.prems by (simp add: tuple2int_fits)
  have "map_of it ?k = None"
  proof (rule ccontr)
    assume "map_of it ?k \<noteq> None"
    then obtain u where u: "map_of it ?k = Some u" by blast
    then have "tuple_fits w cns u" "u \<noteq> t" "tuple2int u cns w = tuple2int t cns w"
      using Cons.prems(4) k by auto
    then show False using Cons.prems(1,2) by (metis list.set_intros(1) tuple2int_inj)
  qed
  then have step: "add_key cns w t (ti, it) = Inr (dset t ?k ti, dset ?k t it)"
    by (simp add: add_key_def k din_def)
  have "\<exists>r. foldM (add_key cns w) ts (dset t ?k ti, dset ?k t it) = Inr r"
    using Cons.prems k by (intro Cons.IH) (auto split: if_splits)
  with step show ?case by simp
qed

lemma create_tuple2int_total:
  assumes "dict_ok (tuple2rule cd)" and "has_widths w (cnames cd)"
    and "\<forall>t \<in> set (dkeys (tuple2rule cd)). tuple_fits w (cnames cd) t"
  shows "\<exists>cd'. create_tuple2int w cd = Inr cd'"
proof -
  have "\<exists>r. foldM (add_key (cnames cd) w) (dkeys (tuple2rule cd)) ([], []) = Inr r"
    using assms by (intro add_keys_total) (auto simp: dict_ok_def)
  then show ?thesis by (auto simp: create_tuple2int_def)
qed

section \<open>Sub-dictionaries\<close>

lemma invert_loop:
  assumes "inverse_dicts d0 e0" and "distinct (dkeys d)" "distinct (dvals d)"
    and "set (dkeys d) \<inter> set (dkeys d0) = {}" "set (dvals d) \<inter> set (dkeys e0) = {}"
  shows "inverse_dicts (d0 @ d) (fold (\<lambda>(t, i) e. dset i t e) d e0)"
  using assms
proof (induction d arbitrary: d0 e0)
  case Nil
  then show ?case by simp
next
  case (Cons p d)
  obtain t i where p: "p = (t, i)" by (cases p)
  have n: "map_of d0 t = None" "map_of e0 i = None"
    using Cons.prems(4,5) by (auto simp: p map_of_eq_None_iff)
  then have new: "dset t i d0 = d0 @ [(t, i)]" by (simp add: dset_new map_of_eq_None_iff)
  have "inverse_dicts (dset t i d0) (dset i t e0)"
    by (rule inverse_dicts_dset [OF Cons.prems(1) n])
  then have "inverse_dicts ((d0 @ [(t, i)]) @ d) (fold (\<lambda>(t, i) e. dset i t e) d (dset i t e0))"
    using Cons.prems n unfolding new
    by (intro Cons.IH) (auto simp: p dkeys_dset image_iff split: if_splits)
  then show ?case by (simp add: p)
qed

lemma invert_dict_inverse:
  assumes "dict_ok d" and "inj_on (\<lambda>t. map_of d t) (set (dkeys d))"
  shows "inverse_dicts d (invert_dict d)"
proof -
  have "distinct (dvals d)"
    using assms
  proof (induction d)
    case Nil
    then show ?case by simp
  next
    case (Cons p d)
    obtain t i where p: "p = (t, i)" by (cases p)
    have ok: "dict_ok d" "t \<notin> set (dkeys d)" using Cons.prems(1) by (auto simp: p dict_ok_def)
    have "inj_on (map_of d) (set (dkeys d))"
    proof (rule inj_onI)
      fix x y
      assume "x \<in> set (dkeys d)" "y \<in> set (dkeys d)" "map_of d x = map_of d y"
      moreover from this ok(2) have "x \<noteq> t" "y \<noteq> t" by blast+
      ultimately show "x = y"
        using inj_onD [OF Cons.prems(2), of x y] by (simp add: p)
    qed
    then have d: "distinct (dvals d)" using ok(1) Cons.IH by blast
    have "i \<notin> set (dvals d)"
    proof
      assume "i \<in> set (dvals d)"
      then obtain u where u: "(u, i) \<in> set d" by auto
      then have "map_of d u = Some i" "u \<noteq> t" using ok by (auto simp: dict_ok_def rev_image_eqI)
      then show False
        using inj_onD [OF Cons.prems(2), of t u] u by (auto simp: p rev_image_eqI)
    qed
    with d show ?case by (simp add: p)
  qed
  then show ?thesis
    using invert_loop [of "[]" "[]" d] assms(1) by (simp add: invert_dict_def dict_ok_def)
qed

lemma filter_loop:
  assumes "set ts \<subseteq> set (dkeys (t2int cd))" "set ts \<subseteq> set (dkeys (tuple2rule cd))"
    and "distinct ts" "set ts \<inter> set (dkeys ti) = {}" "set ts \<inter> set (dkeys tr) = {}"
    and "dict_ok ti" "dict_ok tr"
  shows "\<exists>ti' tr'. foldM (filter_tuple cd) ts (ti, tr) = Inr (ti', tr') \<and> dict_ok ti' \<and> dict_ok tr' \<and>
     dkeys ti' = dkeys ti @ ts \<and> dkeys tr' = dkeys tr @ ts \<and>
     (\<forall>t. map_of ti' t = (if t \<in> set ts then map_of (t2int cd) t else map_of ti t)) \<and>
     (\<forall>t. map_of tr' t = (if t \<in> set ts then map_of (tuple2rule cd) t else map_of tr t))"
  using assms
proof (induction ts arbitrary: ti tr)
  case Nil
  then show ?case by simp
next
  case (Cons t ts)
  from Cons.prems(1,2) have "map_of (t2int cd) t \<noteq> None" "map_of (tuple2rule cd) t \<noteq> None"
    unfolding map_of_None_keys by simp_all
  then obtain k r where kr: "map_of (t2int cd) t = Some k" "map_of (tuple2rule cd) t = Some r" by blast
  have keys: "dkeys (dset t k ti) = dkeys ti @ [t]" "dkeys (dset t r tr) = dkeys tr @ [t]"
    using Cons.prems(4,5) by (simp_all add: dkeys_dset)
  have "\<exists>ti' tr'. foldM (filter_tuple cd) ts (dset t k ti, dset t r tr) = Inr (ti', tr') \<and>
     dict_ok ti' \<and> dict_ok tr' \<and>
     dkeys ti' = dkeys (dset t k ti) @ ts \<and> dkeys tr' = dkeys (dset t r tr) @ ts \<and>
     (\<forall>u. map_of ti' u = (if u \<in> set ts then map_of (t2int cd) u else map_of (dset t k ti) u)) \<and>
     (\<forall>u. map_of tr' u = (if u \<in> set ts then map_of (tuple2rule cd) u else map_of (dset t r tr) u))"
    using Cons.prems keys by (intro Cons.IH) auto
  then obtain ti' tr' where *: "foldM (filter_tuple cd) ts (dset t k ti, dset t r tr) = Inr (ti', tr')"
    "dict_ok ti'" "dict_ok tr'" "dkeys ti' = dkeys ti @ t # ts" "dkeys tr' = dkeys tr @ t # ts"
    "\<forall>u. map_of ti' u = (if u \<in> set ts then map_of (t2int cd) u else map_of (dset t k ti) u)"
    "\<forall>u. map_of tr' u = (if u \<in> set ts then map_of (tuple2rule cd) u else map_of (dset t r tr) u)"
    unfolding keys by auto
  have "filter_tuple cd t (ti, tr) = Inr (dset t k ti, dset t r tr)"
    by (simp add: filter_tuple_def dget_def kr)
  then have "foldM (filter_tuple cd) (t # ts) (ti, tr) = Inr (ti', tr')" using *(1) by simp
  moreover have "\<forall>u. map_of ti' u = (if u \<in> set (t # ts) then map_of (t2int cd) u else map_of ti u)"
    "\<forall>u. map_of tr' u = (if u \<in> set (t # ts) then map_of (tuple2rule cd) u else map_of tr u)"
    using *(6,7) kr Cons.prems(3) by auto
  ultimately show ?case using *(2-5) by blast
qed

lemma filter_tuples_keys_ok:
  assumes "keys_ok cd" and "distinct ts" "set ts \<subseteq> set (dkeys (tuple2rule cd))"
  shows "\<exists>cd'. filter_tuples cd ts = Inr cd' \<and> keys_ok cd' \<and> cnames cd' = cnames cd \<and>
     op_widths cd' = op_widths cd \<and> dkeys (tuple2rule cd') = ts \<and> dkeys (t2int cd') = ts \<and>
     (\<forall>t \<in> set ts. map_of (tuple2rule cd') t = map_of (tuple2rule cd) t \<and>
                  map_of (t2int cd') t = map_of (t2int cd) t)"
proof -
  from assms(1) have inv: "inverse_dicts (t2int cd) (int2tuple cd)"
    and keys: "set (dkeys (t2int cd)) = set (dkeys (tuple2rule cd))"
    and t2i: "\<forall>t k. map_of (t2int cd) t = Some k \<longrightarrow> tuple2int t (cnames cd) (op_widths cd) = Inr k"
    by (simp_all add: keys_ok_def)
  obtain ti tr where *: "foldM (filter_tuple cd) ts ([], []) = Inr (ti, tr)"
    "dict_ok ti" "dict_ok tr" "dkeys ti = ts" "dkeys tr = ts"
    "\<And>t. map_of ti t = (if t \<in> set ts then map_of (t2int cd) t else None)"
    "\<And>t. map_of tr t = (if t \<in> set ts then map_of (tuple2rule cd) t else None)"
    using filter_loop [of ts cd "[]" "[]"] assms(2,3) keys by (auto simp: dict_ok_def)
  have "inj_on (map_of ti) (set (dkeys ti))"
  proof (rule inj_onI)
    fix x y
    assume xy: "x \<in> set (dkeys ti)" "y \<in> set (dkeys ti)" "map_of ti x = map_of ti y"
    then obtain k where "map_of (t2int cd) x = Some k" "map_of (t2int cd) y = Some k"
      using *(4,6) by (metis map_of_None_keys option.exhaust)
    then show "x = y" using inv unfolding inverse_dicts_def by (metis option.inject)
  qed
  then have "inverse_dicts ti (invert_dict ti)" by (rule invert_dict_inverse [OF *(2)])
  moreover have "set (dkeys ti) = set (dkeys tr)" using *(4,5) by simp
  moreover have "\<forall>t k. map_of ti t = Some k \<longrightarrow> tuple2int t (cnames cd) (op_widths cd) = Inr k"
    using *(6) t2i by auto
  ultimately have "keys_ok (cd\<lparr>t2int := ti, tuple2rule := tr, int2tuple := invert_dict ti\<rparr>)"
    using *(3) by (simp add: keys_ok_def)
  moreover have "filter_tuples cd ts = Inr (cd\<lparr>t2int := ti, tuple2rule := tr, int2tuple := invert_dict ti\<rparr>)"
    using *(1) by (simp add: filter_tuples_def)
  ultimately show ?thesis using *(4-7)
    by (intro exI [of _ "cd\<lparr>t2int := ti, tuple2rule := tr, int2tuple := invert_dict ti\<rparr>"]) simp
qed

section \<open>Keys of a dictionary\<close>

text \<open>
  C31: when the keys of a dictionary are computed, every tuple has one, two tuples never share one, and
  the reverse dictionary takes each key back to its tuple; the rules are untouched.
\<close>

theorem tuple_keys_bijective:
  assumes "create_tuple2int w cd = Inr cd'" and "dict_ok (tuple2rule cd)"
  shows "tuple2rule cd' = tuple2rule cd \<and> (\<forall>t \<in> set (dkeys (tuple2rule cd)). \<exists>k.
      tuple2int t (cnames cd) w = Inr k \<and> map_of (t2int cd') t = Some k) \<and>
    (\<forall>t k. map_of (t2int cd') t = Some k \<longleftrightarrow> map_of (int2tuple cd') k = Some t)"
proof -
  note k = create_tuple2int_keys_ok [OF assms]
  have "\<exists>k. tuple2int t (cnames cd) w = Inr k \<and> map_of (t2int cd') t = Some k"
    if "t \<in> set (dkeys (tuple2rule cd))" for t
  proof -
    have "map_of (t2int cd') t \<noteq> None" unfolding map_of_None_keys k(5) by (rule that)
    then show ?thesis using k(1,3,4) by (auto simp: keys_ok_def)
  qed
  with k(1,2) show ?thesis by (auto simp: keys_ok_def inverse_dicts_def)
qed

definition plain_cdict :: "int cdict" where
  "plain_cdict =
     \<lparr>cnames = [''MOD'', ''RM''], state_space = [], all_state_space = [], rule = None,
      tuple2rule = [([3, 4], 100), ([0, 5], 200)], t2int = [], int2tuple = [], op_widths = []\<rparr>"

theorem tuple_keys_bijective_witness:
  "\<exists>cd. create_tuple2int [(''MOD'', 2), (''RM'', 3)] plain_cdict = Inr cd \<and>
     map_of (t2int cd) [3, 4] = Some 19 \<and> map_of (int2tuple cd) 19 = Some [3, 4]"
proof -
  let ?cd = "plain_cdict\<lparr>t2int := [([3, 4], 19), ([0, 5], 20)], int2tuple := [(19, [3, 4]), (20, [0, 5])],
      op_widths := [(''MOD'', 2), (''RM'', 3)]\<rparr>"
  have c: "create_tuple2int [(''MOD'', 2), (''RM'', 3)] plain_cdict = Inr ?cd" by code_simp
  have "dict_ok (tuple2rule plain_cdict)" by (simp add: plain_cdict_def dict_ok_def)
  from tuple_keys_bijective [OF c this] c show ?thesis by auto
qed

text \<open>
  Restricting a dictionary with keys to some of its tuples keeps their rules and their keys and
  leaves a dictionary with consistent keys and nothing else.
\<close>

lemma filtered_dictionary:
  assumes "keys_ok cd" and "distinct ts" and "set ts \<subseteq> set (dkeys (tuple2rule cd))"
  shows "\<exists>cd'. filter_tuples cd ts = Inr cd' \<and> keys_ok cd' \<and> dkeys (tuple2rule cd') = ts \<and> dkeys (t2int cd') = ts \<and>
     (\<forall>t \<in> set ts. map_of (tuple2rule cd') t = map_of (tuple2rule cd) t \<and>
                  map_of (t2int cd') t = map_of (t2int cd) t)"
  using filter_tuples_keys_ok [OF assms] by blast

lemma filtered_dictionary_witness:
  "\<exists>cd cd'. create_tuple2int [(''MOD'', 2), (''RM'', 3)] plain_cdict = Inr cd \<and>
     filter_tuples cd [[0, 5]] = Inr cd' \<and> keys_ok cd' \<and> dkeys (tuple2rule cd') = [[0, 5]]"
proof -
  let ?cd = "plain_cdict\<lparr>t2int := [([3, 4], 19), ([0, 5], 20)], int2tuple := [(19, [3, 4]), (20, [0, 5])],
      op_widths := [(''MOD'', 2), (''RM'', 3)]\<rparr>"
  have c: "create_tuple2int [(''MOD'', 2), (''RM'', 3)] plain_cdict = Inr ?cd" by code_simp
  have "keys_ok ?cd"
    by (auto simp: keys_ok_def inverse_dicts_def dict_ok_def plain_cdict_def tuple2int_def dget_def)
  from filtered_dictionary [OF this, of "[[0, 5]]"] c show ?thesis by (auto simp: plain_cdict_def)
qed

end
