(* ===== verification/Genutil.thy ===== *)
theory Genutil
  imports Xed_Prelude
begin

text \<open>
  The generic utilities of \<open>pysrc/genutil.py\<close> that compute on values: flattening of lists and
  dicts with list-valued entries, conversions between numerals, runs of bits, comment stripping,
  line continuations and the \<open>REG[lo-hi]\<close> range notation.  Regular expressions are written as
  the recognisers they denote; \<open>$\<close> also matches before a final newline, which \<open>re_line\<close> allows.
\<close>

section \<open>Characters, prefixes and regular expressions\<close>

definition is_space :: "char \<Rightarrow> bool" where
  "is_space c \<longleftrightarrow> c \<in> {CHR 0x20, CHR 0x09, CHR 0x0A, CHR 0x0B, CHR 0x0C, CHR 0x0D}"

definition lstrip :: "string \<Rightarrow> string" where
  "lstrip s = dropWhile is_space s"

definition rstrip :: "string \<Rightarrow> string" where
  "rstrip s = rev (dropWhile is_space (rev s))"

definition strip :: "string \<Rightarrow> string" where
  "strip s = rstrip (lstrip s)"

definition is_digit :: "char \<Rightarrow> bool" where
  "is_digit c \<longleftrightarrow> c \<in> set ''0123456789''"

definition is_hexdigit :: "char \<Rightarrow> bool" where
  "is_hexdigit c \<longleftrightarrow> c \<in> set ''0123456789ABCDEFabcdef''"

definition is_bit_or_underscore :: "char \<Rightarrow> bool" where
  "is_bit_or_underscore c \<longleftrightarrow> c \<in> set ''01_''"

definition is_lower :: "char \<Rightarrow> bool" where
  "is_lower c \<longleftrightarrow> (97::nat) \<le> of_char c \<and> of_char c \<le> (122::nat)"

definition is_upper :: "char \<Rightarrow> bool" where
  "is_upper c \<longleftrightarrow> (65::nat) \<le> of_char c \<and> of_char c \<le> (90::nat)"

definition upper_char :: "char \<Rightarrow> char" where
  "upper_char c = (if is_lower c then char_of (of_char c - (32::nat)) else c)"

abbreviation upper :: "string \<Rightarrow> string" where "upper \<equiv> map upper_char"

definition lower_char :: "char \<Rightarrow> char" where
  "lower_char c = (if is_upper c then char_of (of_char c + (32::nat)) else c)"

abbreviation lower :: "string \<Rightarrow> string" where "lower \<equiv> map lower_char"

definition chop_newline :: "string \<Rightarrow> string" where
  "chop_newline s = (if s \<noteq> [] \<and> last s = CHR 0x0A then butlast s else s)"

definition all_nonempty :: "(char \<Rightarrow> bool) \<Rightarrow> string \<Rightarrow> bool" where
  "all_nonempty p s \<longleftrightarrow> s \<noteq> [] \<and> list_all p s"

definition re_line :: "(string \<Rightarrow> bool) \<Rightarrow> string \<Rightarrow> bool" where
  "re_line r s \<longleftrightarrow> r s \<or> r (chop_newline s)"

definition starts_with :: "string \<Rightarrow> string \<Rightarrow> bool" where
  "starts_with p s \<longleftrightarrow> take (length p) s = p"

text \<open>\<open>needle in s\<close>\<close>

fun str_in :: "string \<Rightarrow> string \<Rightarrow> bool" where
  "str_in needle [] = (needle = [])"
| "str_in needle (c # s) = (starts_with needle (c # s) \<or> str_in needle s)"

definition make_numeric_decimal_match :: "string \<Rightarrow> bool" where
  "make_numeric_decimal_match s \<longleftrightarrow>
     re_line (\<lambda>s. all_nonempty is_digit (if starts_with ''-'' s then drop 1 s else s)) s"

definition make_numeric_hex_match :: "string \<Rightarrow> bool" where
  "make_numeric_hex_match s \<longleftrightarrow>
     re_line (\<lambda>s. (starts_with ''0x'' s \<or> starts_with ''0X'' s) \<and>
                  all_nonempty is_hexdigit (drop 2 s)) s"

definition make_numeric_binary_match :: "string \<Rightarrow> bool" where
  "make_numeric_binary_match s \<longleftrightarrow>
     re_line (\<lambda>s. starts_with ''0b'' s \<and> all_nonempty is_bit_or_underscore (drop 2 s)) s"

definition make_numeric_old_decimal_match :: "string \<Rightarrow> bool" where
  "make_numeric_old_decimal_match s \<longleftrightarrow>
     re_line (\<lambda>s. starts_with ''0m'' s \<and> all_nonempty is_digit (drop 2 s)) s"

definition make_numeric_old_binary_match :: "string \<Rightarrow> bool" where
  "make_numeric_old_binary_match s \<longleftrightarrow>
     starts_with (CHR ''B'' # [CHR 0x27]) s \<and>
     (case drop 2 s of [] \<Rightarrow> False | c # _ \<Rightarrow> is_bit_or_underscore c)"

section \<open>Integers from text\<close>

text \<open>
  \<open>int(s, base)\<close>: surrounding blanks, a sign, the base's prefix (when the base is 2 or 16),
  and digits, with single underscores allowed between digits and after the prefix.
\<close>

fun digit_val :: "char \<Rightarrow> nat option" where
  "digit_val c =
     (let n = of_char c :: nat
      in if 48 \<le> n \<and> n \<le> 57 then Some (n - 48)
         else if 97 \<le> n \<and> n \<le> 122 then Some (n - 87)
         else if 65 \<le> n \<and> n \<le> 90 then Some (n - 55) else None)"

fun digits_val :: "nat \<Rightarrow> string \<Rightarrow> nat \<Rightarrow> nat option" where
  "digits_val base [] acc = None"
| "digits_val base [c] acc =
     (case digit_val c of None \<Rightarrow> None
      | Some d \<Rightarrow> if d < base then Some (base * acc + d) else None)"
| "digits_val base (c # c' # cs) acc =
     (case digit_val c of None \<Rightarrow> None
      | Some d \<Rightarrow>
          if d < base
          then digits_val base (if c' = CHR ''_'' then cs else c' # cs) (base * acc + d)
          else None)"

definition strip_base_prefix :: "nat \<Rightarrow> string \<Rightarrow> string" where
  "strip_base_prefix base s =
     (if base = 2 \<and> (starts_with ''0b'' s \<or> starts_with ''0B'' s) \<or>
         base = 16 \<and> (starts_with ''0x'' s \<or> starts_with ''0X'' s)
      then (if drop 2 s \<noteq> [] \<and> hd (drop 2 s) = CHR ''_'' then drop 3 s else drop 2 s)
      else s)"

definition py_int :: "nat \<Rightarrow> string \<Rightarrow> int res" where
  "py_int base s =
     (let t = strip s;
          neg = starts_with ''-'' t;
          u = (if starts_with ''-'' t \<or> starts_with ''+'' t then drop 1 t else t)
      in case digits_val base (strip_base_prefix base u) 0 of
           None \<Rightarrow> Inl ValueError
         | Some n \<Rightarrow> Inr (if neg then - int n else int n))"

section \<open>Flattening\<close>

text \<open>An entry of a list with possible sublists is a scalar or a list.\<close>

datatype 'a entry = Scalar 'a | Sublist "'a list"

fun flatten_sub :: "'a list list \<Rightarrow> 'a list \<Rightarrow> 'a entry list \<Rightarrow> 'a list list" where
  "flatten_sub retlist cur_list [] = retlist @ [cur_list]"
| "flatten_sub retlist cur_list (Sublist vs # rest) =
     fold (\<lambda>v ret. flatten_sub ret (cur_list @ [v]) rest) vs retlist"
| "flatten_sub retlist cur_list (Scalar r0 # rest) =
     flatten_sub retlist (cur_list @ [r0]) rest"

definition flatten :: "'a entry list \<Rightarrow> 'a list list" where
  "flatten list_with_sublists = flatten_sub [] [] list_with_sublists"

fun flatten_dict_sub ::
  "('k, 'a) dict list \<Rightarrow> ('k, 'a) dict \<Rightarrow> ('k, 'a entry) dict \<Rightarrow> 'k list \<Rightarrow> ('k, 'a) dict list res"
where
  "flatten_dict_sub retlist cur_dict main_dict [] = Inr (retlist @ [cur_dict])"
| "flatten_dict_sub retlist cur_dict main_dict (r0 # rest_keys) =
     rbind (dget main_dict r0) (\<lambda>rhs.
       case rhs of
         Sublist vs \<Rightarrow>
           foldM (\<lambda>v ret. flatten_dict_sub ret (dset r0 v cur_dict) main_dict rest_keys)
             vs retlist
       | Scalar v \<Rightarrow> flatten_dict_sub retlist (dset r0 v cur_dict) main_dict rest_keys)"

definition flatten_dict :: "('k, 'a entry) dict \<Rightarrow> ('k, 'a) dict list res" where
  "flatten_dict dict_with_lists =
     flatten_dict_sub [] [] dict_with_lists (dkeys dict_with_lists)"

fun choices :: "'a entry \<Rightarrow> 'a list" where
  "choices (Scalar x) = [x]"
| "choices (Sublist xs) = xs"

lemma fold_append_concat:
  "(\<And>v ret. v \<in> set vs \<Longrightarrow> f v ret = ret @ g v) \<Longrightarrow> fold f vs ret = ret @ concat (map g vs)"
  by (induction vs arbitrary: ret) auto

lemma flatten_sub_eq:
  "flatten_sub ret cur rest = ret @ map (\<lambda>t. cur @ t) (product_lists (map choices rest))"
proof (induction rest arbitrary: ret cur)
  case Nil
  then show ?case by simp
next
  case (Cons e rest)
  show ?case
  proof (cases e)
    case (Scalar x)
    then show ?thesis by (simp add: Cons.IH comp_def)
  next
    case (Sublist vs)
    have "flatten_sub ret cur (e # rest) =
        ret @ concat (map (\<lambda>v. map (\<lambda>t. (cur @ [v]) @ t) (product_lists (map choices rest))) vs)"
      unfolding Sublist flatten_sub.simps by (rule fold_append_concat, rule Cons.IH)
    also have "\<dots> = ret @ map (\<lambda>t. cur @ t) (product_lists (map choices (e # rest)))"
      by (simp add: Sublist map_concat comp_def)
    finally show ?thesis .
  qed
qed

lemma flatten_eq: "flatten xs = product_lists (map choices xs)"
  by (simp add: flatten_def flatten_sub_eq)

text \<open>The same for dictionaries: one result per combination, with the keys in their order.\<close>

lemma foldM_append_concat:
  "(\<And>v ret. v \<in> set vs \<Longrightarrow> f v ret = Inr (ret @ g v)) \<Longrightarrow> foldM f vs ret = Inr (ret @ concat (map g vs))"
  by (induction vs arbitrary: ret) auto

lemma flatten_dict_sub_eq:
  assumes "\<And>k. k \<in> set ks \<Longrightarrow> map_of d k = Some (e k)" and "distinct ks"
    and "set ks \<inter> fst ` set cur = {}"
  shows "flatten_dict_sub ret cur d ks =
           Inr (ret @ map (\<lambda>vs. cur @ zip ks vs) (product_lists (map (choices \<circ> e) ks)))"
  using assms
proof (induction ks arbitrary: ret cur)
  case Nil
  then show ?case by simp
next
  case (Cons k ks)
  then have k: "map_of d k = Some (e k)" and new: "\<And>v. dset k v cur = cur @ [(k, v)]"
    by (simp_all add: dset_new)
  have IH: "flatten_dict_sub ret (cur @ [(k, v)]) d ks =
      Inr (ret @ map (\<lambda>vs. (cur @ [(k, v)]) @ zip ks vs) (product_lists (map (choices \<circ> e) ks)))"
    for ret v
    using Cons.prems by (intro Cons.IH) auto
  show ?case
  proof (cases "e k")
    case (Scalar v)
    with k IH show ?thesis by (simp add: dget_def new comp_def)
  next
    case (Sublist vs)
    have "foldM (\<lambda>v ret. flatten_dict_sub ret (dset k v cur) d ks) vs ret =
        Inr (ret @ concat (map (\<lambda>v. map (\<lambda>ws. (cur @ [(k, v)]) @ zip ks ws)
               (product_lists (map (choices \<circ> e) ks))) vs))"
      by (rule foldM_append_concat) (simp only: new IH)
    with k Sublist show ?thesis by (simp add: dget_def map_concat comp_def)
  qed
qed

lemma flatten_dict_eq:
  assumes "dict_ok d"
  shows "flatten_dict d =
           Inr (map (\<lambda>vs. zip (dkeys d) vs) (product_lists (map choices (dvals d))))"
proof -
  have "map_of d k = Some (the (map_of d k))" if "k \<in> set (dkeys d)" for k
    using that by (metis domIff dom_map_of_conv_image_fst list.set_map option.collapse)
  then have "flatten_dict d = Inr (map (\<lambda>vs. zip (dkeys d) vs)
      (product_lists (map (choices \<circ> (\<lambda>k. the (map_of d k))) (dkeys d))))"
    unfolding flatten_dict_def using assms
    by (subst flatten_dict_sub_eq [where e = "\<lambda>k. the (map_of d k)"]) (auto simp: dict_ok_def)
  moreover have "map (choices \<circ> (\<lambda>k. the (map_of d k))) (dkeys d) = map choices (dvals d)"
    using assms by (auto simp: dict_ok_def)
  ultimately show ?thesis by (simp only:)
qed

section \<open>Binary, decimal and hexadecimal\<close>

text \<open>A list of one-character strings is a \<open>string\<close>.\<close>

fun convert_binary_loop :: "string \<Rightarrow> nat \<Rightarrow> nat \<Rightarrow> nat" where
  "convert_binary_loop [] decimal radix = decimal"
| "convert_binary_loop (b # blist) decimal radix =
     convert_binary_loop blist (if b = CHR ''1'' then decimal + radix else decimal) (radix + radix)"

definition convert_binary_to_hex :: "string \<Rightarrow> string" where
  "convert_binary_to_hex bit_string = hex_nat (convert_binary_loop (rev bit_string) 0 1)"

function decimal_to_binary_loop :: "int \<Rightarrow> string \<Rightarrow> string" where
  "decimal_to_binary_loop i rev_out =
     (if i > 0
      then decimal_to_binary_loop (drop_bit 1 i)
             (rev_out @ [if i AND 1 = 1 then CHR ''1'' else CHR ''0''])
      else rev_out)"
  by pat_completeness auto
termination
  by (relation "measure (\<lambda>(i, _). nat i)") (auto simp: drop_bit_eq_div)

declare decimal_to_binary_loop.simps [simp del]

definition decimal_to_binary :: "int \<Rightarrow> string" where
  "decimal_to_binary i = (if i = 0 then ''0'' else rev (decimal_to_binary_loop i []))"

definition hex_to_binary :: "string \<Rightarrow> string res" where
  "hex_to_binary x = rbind (py_int 16 x) (\<lambda>i. Inr (decimal_to_binary i))"

fun bits_val :: "string \<Rightarrow> nat" where
  "bits_val [] = 0"
| "bits_val (c # cs) = (if c = CHR ''1'' then 1 else 0) + 2 * bits_val cs"

lemma convert_binary_loop_eq: "convert_binary_loop bs d r = d + r * bits_val bs"
  by (induction bs arbitrary: d r) (auto simp: algebra_simps)

lemma bits_val_append: "bits_val (xs @ ys) = bits_val xs + 2 ^ length xs * bits_val ys"
  by (induction xs) auto

lemma decimal_to_binary_loop_val:
  "0 \<le> i \<Longrightarrow> bits_val (decimal_to_binary_loop i out) = bits_val out + 2 ^ length out * nat i"
proof (induction i out rule: decimal_to_binary_loop.induct)
  case (1 i out)
  show ?case
  proof (cases "i > 0")
    case True
    have "i = (if i mod 2 = 1 then 1 else 0) + 2 * (i div 2)" by presburger
    then have n: "nat i = (if i mod 2 = 1 then 1 else 0) + 2 * nat (i div 2)"
      using True by (auto simp: nat_eq_iff split: if_splits)
    have "bits_val (decimal_to_binary_loop i out) =
        bits_val (out @ [if i AND 1 = 1 then CHR ''1'' else CHR ''0'']) +
        2 ^ Suc (length out) * nat (i div 2)"
      using 1 True by (subst decimal_to_binary_loop.simps) (simp add: drop_bit_eq_div)
    then show ?thesis
      by (simp add: bits_val_append n and_one_eq algebra_simps)
  next
    case False
    with 1 show ?thesis by (subst decimal_to_binary_loop.simps) simp
  qed
qed

lemma decimal_to_binary_val: "0 \<le> i \<Longrightarrow> bits_val (rev (decimal_to_binary i)) = nat i"
  by (simp add: decimal_to_binary_def decimal_to_binary_loop_val)

lemma convert_binary_decimal: "convert_binary_to_hex (decimal_to_binary (int n)) = hex_nat n"
  by (simp add: convert_binary_to_hex_def convert_binary_loop_eq decimal_to_binary_val)

lemma decimal_to_binary_loop_bits:
  "set out \<subseteq> set ''01'' \<Longrightarrow> set (decimal_to_binary_loop i out) \<subseteq> set ''01''"
proof (induction i out rule: decimal_to_binary_loop.induct)
  case (1 i out)
  then show ?case by (subst decimal_to_binary_loop.simps) auto
qed

lemma decimal_to_binary_bits: "set (decimal_to_binary i) \<subseteq> set ''01''"
  using decimal_to_binary_loop_bits [of "[]" i] by (auto simp: decimal_to_binary_def)

lemma decimal_to_binary_loop_length:
  "0 \<le> i \<Longrightarrow> i < 2 ^ w \<Longrightarrow> length (decimal_to_binary_loop i out) \<le> length out + w"
proof (induction w arbitrary: i out)
  case 0
  then show ?case by (subst decimal_to_binary_loop.simps) simp
next
  case (Suc w)
  show ?case
  proof (cases "i > 0")
    case True
    have d: "drop_bit 1 i < 2 ^ w" "0 \<le> drop_bit 1 i"
      using Suc.prems by (simp_all add: drop_bit_eq_div)
    let ?b = "if i AND 1 = 1 then CHR ''1'' else CHR ''0''"
    have "length (decimal_to_binary_loop (drop_bit 1 i) (out @ [?b])) \<le> length (out @ [?b]) + w"
      by (rule Suc.IH [OF d(2,1)])
    then show ?thesis using True by (subst decimal_to_binary_loop.simps) simp
  next
    case False
    with Suc.prems show ?thesis by (subst decimal_to_binary_loop.simps) simp
  qed
qed

section \<open>Numeric text\<close>

definition no_underscores :: "string \<Rightarrow> string" where
  "no_underscores s = filter (\<lambda>c. c \<noteq> CHR ''_'') s"

definition is_hex :: "string \<Rightarrow> bool" where
  "is_hex s = make_numeric_hex_match s"

definition is_binary :: "string \<Rightarrow> bool" where
  "is_binary s = make_numeric_binary_match s"

definition is_numeric :: "string \<Rightarrow> bool" where
  "is_numeric s =
     (if make_numeric_decimal_match s then True
      else if make_numeric_hex_match s then True
      else if make_numeric_binary_match s then True
      else False)"

definition make_numeric :: "string \<Rightarrow> int res" where
  "make_numeric s =
     (if make_numeric_hex_match s then py_int 16 s
      else if make_numeric_binary_match s then py_int 2 s
      else if make_numeric_old_decimal_match s
        then Inl (Die ''0m should not occur. Rewrite files!'')
      else if make_numeric_old_binary_match s
        then Inl (Die ''B-quote binary specifer should not occur. Rewrite files!'')
      else py_int 10 s)"

definition make_binary :: "string \<Rightarrow> string res" where
  "make_binary bits =
     (if make_numeric_binary_match bits then Inr (drop 2 (no_underscores bits))
      else if is_numeric bits
        then rbind (make_numeric bits) (\<lambda>v. Inr (decimal_to_binary v))
      else Inr (no_underscores bits))"

lemma make_binary_literal:
  assumes "list_all is_bit_or_underscore bs" "bs \<noteq> []"
  shows "make_binary (''0b'' @ bs) = Inr (no_underscores bs)"
  using assms
  by (simp add: make_binary_def make_numeric_binary_match_def re_line_def starts_with_def
      all_nonempty_def no_underscores_def)

section \<open>Runs of equal bits\<close>

text \<open>\<open>prev\<close> is the code's \<open>last\<close>, the previous letter (\<open>None\<close> before the first), \<open>run\<close> its count so far.\<close>

fun find_runs_loop :: "'a list \<Rightarrow> 'a option \<Rightarrow> nat \<Rightarrow> ('a \<times> nat) list \<Rightarrow> ('a \<times> nat) list" where
  "find_runs_loop [] prev run output =
     (case prev of None \<Rightarrow> output | Some l \<Rightarrow> output @ [(l, run)])"
| "find_runs_loop (b # blist) prev run output =
     (case prev of
        None \<Rightarrow> find_runs_loop blist (Some b) run output
      | Some l \<Rightarrow>
          if b = l then find_runs_loop blist (Some b) (run + 1) output
          else find_runs_loop blist (Some b) 1 (output @ [(l, run)]))"

definition find_runs :: "'a list \<Rightarrow> ('a \<times> nat) list" where
  "find_runs blist = find_runs_loop blist None 1 []"

definition expand_runs :: "('a \<times> nat) list \<Rightarrow> 'a list" where
  "expand_runs rs = concat (map (\<lambda>(c, n). replicate n c) rs)"

lemma expand_runs_simps [simp]:
  "expand_runs [] = []"
  "expand_runs ((c, n) # rs) = replicate n c @ expand_runs rs"
  "expand_runs (rs @ rs') = expand_runs rs @ expand_runs rs'"
  by (simp_all add: expand_runs_def)

lemma find_runs_loop_expand:
  "expand_runs (find_runs_loop bs (Some l) n out) = expand_runs out @ replicate n l @ bs"
  by (induction bs arbitrary: l n out) (auto simp: replicate_append_same)

lemma expand_find_runs: "expand_runs (find_runs bs) = bs"
  by (cases bs) (simp_all add: find_runs_def find_runs_loop_expand)

text \<open>Neighbouring runs differ and no run is empty: the runs are maximal.\<close>

fun maximal_runs :: "('a \<times> nat) list \<Rightarrow> bool" where
  "maximal_runs [] = True"
| "maximal_runs [(c, n)] = (0 < n)"
| "maximal_runs ((c, n) # (d, m) # rs) = (0 < n \<and> c \<noteq> d \<and> maximal_runs ((d, m) # rs))"

lemma maximal_runs_snoc:
  "maximal_runs (rs @ [(c, n)]) \<Longrightarrow> c \<noteq> d \<Longrightarrow> 0 < m \<Longrightarrow> maximal_runs (rs @ [(c, n), (d, m)])"
  by (induction rs rule: maximal_runs.induct) auto

lemma maximal_runs_bump:
  "maximal_runs (rs @ [(c, n)]) \<Longrightarrow> maximal_runs (rs @ [(c, Suc n)])"
  by (induction rs rule: maximal_runs.induct) auto

lemma find_runs_loop_maximal:
  "maximal_runs (out @ [(l, n)]) \<Longrightarrow> maximal_runs (find_runs_loop bs (Some l) n out)"
proof (induction bs arbitrary: l n out)
  case Nil
  then show ?case by simp
next
  case (Cons b bs)
  show ?case
  proof (cases "b = l")
    case True
    then show ?thesis using Cons by (auto dest: maximal_runs_bump)
  next
    case False
    then have "maximal_runs ((out @ [(l, n)]) @ [(b, 1)])"
      using Cons.prems by (simp add: maximal_runs_snoc)
    with False show ?thesis by (simp add: Cons.IH)
  qed
qed

lemma find_runs_maximal: "maximal_runs (find_runs bs)"
  by (cases bs) (simp_all add: find_runs_def find_runs_loop_maximal)

section \<open>Comments, blank lines and continuations\<close>

text \<open>
  A line as \<open>readlines\<close> gives it has its newline, if any, at the end; the comment pattern then
  removes everything from the first \<open>#\<close> up to that newline, which the strip removes.
\<close>

definition no_comments :: "string \<Rightarrow> string" where
  "no_comments line = strip (takeWhile (\<lambda>c. c \<noteq> CHR ''#'') line)"

definition blank_line :: "string \<Rightarrow> bool" where
  "blank_line line = (if line = [] then False else True)"

definition ends_continued :: "string \<Rightarrow> bool" where
  "ends_continued line \<longleftrightarrow> line \<noteq> [] \<and> last line = CHR 0x5C"

function process_continuations_loop :: "string list \<Rightarrow> string list \<Rightarrow> string list" where
  "process_continuations_loop [] olines = olines"
| "process_continuations_loop (l # lines) olines =
     (let line = strip (no_comments l)
      in if line = [] then process_continuations_loop lines olines
         else if ends_continued line
         then (case lines of
                 [] \<Rightarrow> olines @ [butlast line]
               | l' # lines' \<Rightarrow>
                   process_continuations_loop ((butlast line @ l') # lines') olines)
         else process_continuations_loop lines (olines @ [line]))"
  by pat_completeness auto
termination
  by (relation "measure (\<lambda>(lines, _). length lines)") auto

definition process_continuations :: "string list \<Rightarrow> string list" where
  "process_continuations lines = process_continuations_loop lines []"

definition uniqueify :: "'a::linorder list \<Rightarrow> 'a list" where
  "uniqueify values = sorted_list_of_set (set values)"

definition open_for_writing :: "string \<Rightarrow> bool" where
  "open_for_writing mode =
     list_ex (\<lambda>c. c \<in> set ''wa+'') (if mode = [] then ''r'' else mode)"

lemma dropWhile_space_idem: "dropWhile is_space (dropWhile is_space s) = dropWhile is_space s"
  by (rule dropWhile_idem)

lemma set_strip: "set (strip s) \<subseteq> set s"
  by (auto simp: strip_def rstrip_def lstrip_def dest!: set_dropWhileD)

lemma no_comments_no_hash: "CHR ''#'' \<notin> set (no_comments s)"
  using set_strip by (fastforce simp: no_comments_def dest: set_takeWhileD)

text \<open>
  No returned line holds a comment character.
\<close>

lemma process_continuations_loop_no_hash:
  "(\<And>l. l \<in> set out \<Longrightarrow> CHR ''#'' \<notin> set l) \<Longrightarrow>
     l \<in> set (process_continuations_loop lines out) \<Longrightarrow> CHR ''#'' \<notin> set l"
proof (induction lines out arbitrary: l rule: process_continuations_loop.induct)
  case (1 out)
  then show ?case by simp
next
  case (2 x lines out)
  have h: "CHR ''#'' \<notin> set (strip (no_comments x))"
    using set_strip [of "no_comments x"] no_comments_no_hash [of x] by auto
  then have h': "CHR ''#'' \<notin> set (butlast (strip (no_comments x)))"
    by (meson in_set_butlastD)
  let ?x = "strip (no_comments x)"
  consider (blank) "?x = []" | (cont) "?x \<noteq> []" "ends_continued ?x"
    | (plain) "?x \<noteq> []" "\<not> ends_continued ?x" by blast
  then show ?case
  proof cases
    case blank
    then show ?thesis using "2.IH"(1) [OF refl blank "2.prems"(1)] "2.prems"(2) by simp
  next
    case cont
    show ?thesis
    proof (cases lines)
      case Nil
      then show ?thesis using cont "2.prems" h' by auto
    next
      case (Cons y ys)
      show ?thesis using "2.IH"(2) [OF refl cont Cons "2.prems"(1)] "2.prems"(2) cont
        by (simp add: Cons)
    qed
  next
    case plain
    have out: "CHR ''#'' \<notin> set k" if "k \<in> set (out @ [?x])" for k
      using that "2.prems"(1) h by auto
    show ?thesis using "2.IH"(3) [OF refl plain out] "2.prems"(2) plain by simp
  qed
qed

section \<open>Numerals read back\<close>

lemma digit_val_char:
  assumes "d < 36" shows "digit_val (digit_char d) = Some d"
proof -
  have "list_all (\<lambda>d. digit_val (digit_char d) = Some d) [0..<36]"
    by (simp add: upt_rec digit_char_def)
  then show ?thesis using assms by (simp add: list_all_iff del: digit_val.simps)
qed

definition digit_below :: "nat \<Rightarrow> char \<Rightarrow> bool" where
  "digit_below b c \<longleftrightarrow> (\<exists>d. digit_val c = Some d \<and> d < b)"

lemma digit_below_not_underscore: "digit_below b c \<Longrightarrow> c \<noteq> CHR ''_''"
  by (auto simp: digit_below_def)

lemma digits_val_foldl:
  "list_all (digit_below b) cs \<Longrightarrow> cs \<noteq> [] \<Longrightarrow>
     digits_val b cs acc = Some (foldl (\<lambda>a c. b * a + the (digit_val c)) acc cs)"
proof (induction b cs acc rule: digits_val.induct)
  case (3 b c c' cs acc)
  then have "c' \<noteq> CHR ''_''" using digit_below_not_underscore [of b c'] by simp
  moreover obtain d where "digit_val c = Some d" "d < b"
    using 3(2) by (auto simp: digit_below_def)
  ultimately show ?case using 3 by simp
qed (auto simp: digit_below_def simp del: digit_val.simps)

lemma digits_base_digits:
  "2 \<le> b \<Longrightarrow> b \<le> 36 \<Longrightarrow> list_all (digit_below b) (digits_base b n) \<and> digits_base b n \<noteq> []"
proof (induction b n rule: digits_base.induct)
  case (1 b n)
  have d: "digit_below b (digit_char k)" if "k < b" for k
    using digit_val_char [of k] that 1(3) by (simp add: digit_below_def del: digit_val.simps)
  show ?case
  proof (cases "n < b")
    case True
    then show ?thesis using d [of n] by (simp add: digits_base.simps [of b n])
  next
    case False
    then show ?thesis using 1 d [of "n mod b"] by (simp add: digits_base.simps [of b n])
  qed
qed

lemma foldl_digits_base:
  "2 \<le> b \<Longrightarrow> b \<le> 36 \<Longrightarrow> foldl (\<lambda>a c. b * a + the (digit_val c)) 0 (digits_base b n) = n"
proof (induction b n rule: digits_base.induct)
  case (1 b n)
  show ?case
  proof (cases "n < b")
    case True
    then show ?thesis
      using digit_val_char [of n] 1(3) by (simp add: digits_base.simps [of b n] del: digit_val.simps)
  next
    case False
    moreover have "digit_val (digit_char (n mod b)) = Some (n mod b)"
      using 1(2,3) by (intro digit_val_char) (meson le_trans less_le_trans mod_less_divisor zero_less_numeral)
    ultimately show ?thesis
      using 1 by (simp add: digits_base.simps [of b n] del: digit_val.simps)
  qed
qed

lemma digits_val_digits_base: "2 \<le> b \<Longrightarrow> b \<le> 36 \<Longrightarrow> digits_val b (digits_base b n) 0 = Some n"
  using digits_base_digits [of b n]
  by (simp add: digits_val_foldl foldl_digits_base del: digit_val.simps)

lemma set_digits_base: "2 \<le> b \<Longrightarrow> set (digits_base b n) \<subseteq> digit_char ` {0..<b}"
proof (induction b n rule: digits_base.induct)
  case (1 b n)
  show ?case
  proof (cases "n < b")
    case True
    then show ?thesis by (simp add: digits_base.simps [of b n])
  next
    case False
    moreover have "n mod b < b" using 1(2) by (intro mod_less_divisor) simp
    ultimately show ?thesis using 1 by (auto simp: digits_base.simps [of b n])
  qed
qed

lemma hex_digit_chars:
  assumes "c \<in> set (digits_base 16 n)"
  shows "is_hexdigit c" and "\<not> is_space c" and "c \<noteq> CHR ''_''"
proof -
  have "map digit_char [0..<16] = ''0123456789abcdef''" by (simp add: upt_rec digit_char_def)
  then have "digit_char ` {0..<16} = set ''0123456789abcdef''"
    by (metis list.set_map set_upt)
  then have "c \<in> set ''0123456789abcdef''"
    using set_digits_base [of 16 n] assms by (metis numeral_le_iff one_le_numeral semiring_norm(68) semiring_norm(71) subsetD)
  then show "is_hexdigit c" "\<not> is_space c" "c \<noteq> CHR ''_''"
    by (auto simp: is_hexdigit_def is_space_def)
qed

lemma strip_id: "\<forall>c \<in> set s. \<not> is_space c \<Longrightarrow> strip s = s"
proof -
  assume s: "\<forall>c \<in> set s. \<not> is_space c"
  have d: "dropWhile is_space t = t" if "\<forall>c \<in> set t. \<not> is_space c" for t
    using that by (cases t) auto
  have "rev (dropWhile is_space (rev s)) = s" using s d [of "rev s"] by simp
  then show ?thesis using d [OF s] by (simp add: strip_def lstrip_def rstrip_def)
qed

lemma make_numeric_hex: "make_numeric (hex_nat n) = Inr (int n)"
proof -
  let ?d = "digits_base 16 n"
  have d: "?d \<noteq> []" "list_all is_hexdigit ?d"
    using digits_base_digits [of 16 n] hex_digit_chars [of _ n] by (auto simp: list_all_iff)
  then have m: "make_numeric_hex_match (hex_nat n)"
    by (simp add: make_numeric_hex_match_def re_line_def hex_nat_def starts_with_def all_nonempty_def)
  have "strip (hex_nat n) = hex_nat n"
    using hex_digit_chars(2) [of _ n] by (intro strip_id) (auto simp: hex_nat_def is_space_def)
  moreover have "hd ?d \<noteq> CHR ''_''" using d(1) hex_digit_chars(3) [of "hd ?d" n] by simp
  ultimately have "py_int 16 (hex_nat n) = Inr (int n)"
    using d digits_val_digits_base [of 16 n]
    by (simp add: py_int_def hex_nat_def strip_base_prefix_def starts_with_def Let_def del: digit_val.simps)
  with m show ?thesis by (simp add: make_numeric_def)
qed

section \<open>Round trips and enumeration\<close>

text \<open>
  Binary, hexadecimal and plain numbers agree: the binary text of a number converts to its
  hexadecimal text, and that text reads back as the number.
\<close>

lemma numeral_round_trip:
  "convert_binary_to_hex (decimal_to_binary (int n)) = hex_nat n \<and> make_numeric (hex_nat n) = Inr (int n)"
  by (simp add: convert_binary_decimal make_numeric_hex)

text \<open>
  \<open>flatten_dict\<close> enumerates the cartesian product: for every choice of one value per key, in the
  order of the keys, exactly one dictionary.
\<close>

lemma flatten_dict_product:
  assumes "dict_ok d"
  shows "flatten_dict d = Inr (map (zip (dkeys d)) (product_lists (map choices (dvals d))))"
  using flatten_dict_eq [OF assms] by simp

lemma flatten_dict_product_witness:
  "flatten_dict [(''MOD'', Sublist [0, 1]), (''REP'', Scalar (2 :: int))] =
     Inr [[(''MOD'', 0), (''REP'', 2)], [(''MOD'', 1), (''REP'', 2)]]"
  using flatten_dict_product [of "[(''MOD'', Sublist [0, 1]), (''REP'', Scalar (2 :: int))]"]
  by (simp add: dict_ok_def)

text \<open>
  \<open>find_runs\<close> loses nothing and merges everything it can: expanding the runs gives the bits
  back, no run is empty and neighbouring runs have different bits.
\<close>

lemma find_runs_maximal_partition: "expand_runs (find_runs bs) = bs \<and> maximal_runs (find_runs bs)"
  by (simp add: expand_find_runs find_runs_maximal)

end
