(* ===== verification/Reg_Range.thy ===== *)
theory Reg_Range
  imports Genutil
begin

text \<open>
  The \<open>REG[lo-hi]\<close> notation of the data files (\<open>parse_reg_values\<close> and \<open>expand_reg_range\<close> of
  \<open>pysrc/genutil.py\<close>) and the slash notation \<open>r/3\<close> of \<open>pysrc/slash_expand.py\<close>.  A regular
  expression search is a scan of the suffixes of the text; a match carries the text before and
  after it.
\<close>

section \<open>Register ranges\<close>

definition match_reg_range :: "string \<Rightarrow> (string \<times> string \<times> string) option" where
  "match_reg_range s =
     (if \<not> starts_with ''REG['' s then None
      else let r = drop 4 s; lo = takeWhile is_digit r; r1 = dropWhile is_digit r
           in if lo = [] \<or> \<not> starts_with ''-'' r1 then None
              else let r2 = drop 1 r1; hi = takeWhile is_digit r2; r3 = dropWhile is_digit r2
                   in if hi = [] \<or> \<not> starts_with '']'' r3 then None
                      else Some (lo, hi, drop 1 r3))"

definition match_reg_single :: "string \<Rightarrow> string option" where
  "match_reg_single s =
     (if \<not> starts_with ''REG['' s then None
      else let r = drop 4 s; reg = takeWhile (\<lambda>c. c \<in> set ''b01'') r;
               r1 = dropWhile (\<lambda>c. c \<in> set ''b01'') r
           in if reg = [] \<or> \<not> starts_with '']'' r1 then None else Some reg)"

definition match_reg_invalid :: "string \<Rightarrow> bool" where
  "match_reg_invalid s \<longleftrightarrow>
     starts_with ''REG['' s \<and>
     (let r = drop 4 s; body = takeWhile (\<lambda>c. c \<noteq> CHR '']'') r
      in CHR '']'' \<in> set r \<and> CHR ''-'' \<in> set body)"

fun search_reg_range :: "string \<Rightarrow> string \<Rightarrow> (string \<times> string \<times> string \<times> string) option" where
  "search_reg_range pre [] = None"
| "search_reg_range pre (c # s) =
     (case match_reg_range (c # s) of
        Some (lo, hi, suf) \<Rightarrow> Some (pre, lo, hi, suf)
      | None \<Rightarrow> search_reg_range (pre @ [c]) s)"

fun search_reg_single :: "string \<Rightarrow> string option" where
  "search_reg_single [] = None"
| "search_reg_single (c # s) =
     (case match_reg_single (c # s) of Some r \<Rightarrow> Some r | None \<Rightarrow> search_reg_single s)"

fun search_reg_invalid :: "string \<Rightarrow> bool" where
  "search_reg_invalid [] = False"
| "search_reg_invalid (c # s) = (match_reg_invalid (c # s) \<or> search_reg_invalid s)"

definition parse_reg_values :: "string \<Rightarrow> int list res" where
  "parse_reg_values pat =
     (case search_reg_range [] pat of
        Some (_, lo_s, hi_s, _) \<Rightarrow>
          rbind (py_int 10 lo_s) (\<lambda>lo. rbind (py_int 10 hi_s) (\<lambda>hi.
            if lo > hi then Inl (Die ''Bad REG range: lo > hi'')
            else if hi > 7 then Inl (Die ''REG range value exceeds 3-bit max (7)'')
            else Inr [lo..hi]))
      | None \<Rightarrow>
          if search_reg_invalid pat then Inl (Die ''Bad REG range token'')
          else case search_reg_single pat of
                 Some reg \<Rightarrow> rbind (make_numeric reg) (\<lambda>v. Inr [v])
               | None \<Rightarrow> Inr [])"

definition format_03b :: "int \<Rightarrow> string" where
  "format_03b v = (let d = decimal_to_binary v in replicate (3 - length d) CHR ''0'' @ d)"

definition reg_token :: "int \<Rightarrow> string" where
  "reg_token v = ''REG['' @ (''0b'' @ format_03b v) @ '']''"

definition expand_reg_range :: "string \<Rightarrow> string list res" where
  "expand_reg_range pat =
     rbind (parse_reg_values pat) (\<lambda>vals.
       case search_reg_range [] pat of
         None \<Rightarrow> Inr [pat]
       | Some (pre, lo, hi, suf) \<Rightarrow> Inr (map (\<lambda>val. pre @ reg_token val @ suf) vals))"

text \<open>Each token an expansion writes reads back as exactly the value it stands for.\<close>

lemma reg_token_roundtrip:
  assumes "0 \<le> v" "v \<le> 7"
  shows "parse_reg_values (reg_token v) = Inr [v]"
proof -
  have "v \<in> {0, 1, 2, 3, 4, 5, 6, 7}" using assms by auto
  moreover have "parse_reg_values (reg_token 0) = Inr [0]" by code_simp
  moreover have "parse_reg_values (reg_token 1) = Inr [1]" by code_simp
  moreover have "parse_reg_values (reg_token 2) = Inr [2]" by code_simp
  moreover have "parse_reg_values (reg_token 3) = Inr [3]" by code_simp
  moreover have "parse_reg_values (reg_token 4) = Inr [4]" by code_simp
  moreover have "parse_reg_values (reg_token 5) = Inr [5]" by code_simp
  moreover have "parse_reg_values (reg_token 6) = Inr [6]" by code_simp
  moreover have "parse_reg_values (reg_token 7) = Inr [7]" by code_simp
  ultimately show ?thesis by auto
qed

lemma digits_val_nonneg_range:
  "parse_reg_values pat = Inr vals \<Longrightarrow> search_reg_range [] pat = Some (pre, lo_s, hi_s, suf) \<Longrightarrow>
     \<exists>lo hi. py_int 10 lo_s = Inr lo \<and> py_int 10 hi_s = Inr hi \<and> lo \<le> hi \<and> hi \<le> 7 \<and>
       vals = [lo..hi]"
  by (auto simp: parse_reg_values_def rbind_eq_Inr split: if_splits)

lemma search_reg_range_digits:
  assumes "search_reg_range p s = Some (pre, lo, hi, suf)"
  shows "list_all is_digit lo" and "lo \<noteq> []"
proof -
  have "list_all is_digit lo \<and> lo \<noteq> []"
    using assms
  proof (induction p s rule: search_reg_range.induct)
    case (2 p c s)
    have m: "list_all is_digit l \<and> l \<noteq> []" if "match_reg_range t = Some (l, h, u)" for t l h u
      using that by (auto simp: match_reg_range_def Let_def list_all_iff split: if_splits
          dest: set_takeWhileD)
    show ?case
      using 2 by (auto split: option.splits dest: m)
  qed simp
  then show "list_all is_digit lo" and "lo \<noteq> []" by auto
qed

lemma set_starts_with: "starts_with [c] s \<Longrightarrow> c \<in> set s"
  by (cases s) (auto simp: starts_with_def)

lemma py_int_digits_nonneg:
  assumes "list_all is_digit s" "py_int b s = Inr v"
  shows "0 \<le> v"
proof -
  have "\<not> is_digit CHR ''-''" by (simp add: is_digit_def)
  then have "CHR ''-'' \<notin> set (strip s)"
    using assms(1) set_strip [of s] unfolding list_all_iff by blast
  then have "\<not> starts_with ''-'' (strip s)" by (auto dest: set_starts_with)
  with assms(2) show ?thesis by (auto simp: py_int_def Let_def split: option.splits)
qed

section \<open>Slash notation\<close>

text \<open>\<open>[a-z][/][0-9]+\<close> at the start of the text: letter, number, rest.\<close>

fun match_slash :: "string \<Rightarrow> (char \<times> string \<times> string) option" where
  "match_slash (l # sl # r) =
     (if is_lower l \<and> sl = CHR ''/'' \<and> takeWhile is_digit r \<noteq> []
      then Some (l, takeWhile is_digit r, dropWhile is_digit r) else None)"
| "match_slash s = None"

fun search_slash :: "string \<Rightarrow> string \<Rightarrow> (string \<times> char \<times> string \<times> string) option" where
  "search_slash pre [] = None"
| "search_slash pre (c # s) =
     (case match_slash (c # s) of
        Some (l, num, suf) \<Rightarrow> Some (pre, l, num, suf)
      | None \<Rightarrow> search_slash (pre @ [c]) s)"

text \<open>
  The code replaces the first occurrence of the matched text; an earlier occurrence would be an
  earlier match, so that is the match itself.
\<close>

lemma search_slash_split:
  "search_slash p s = Some (pre, l, num, suf) \<Longrightarrow>
     p @ s = pre @ (l # CHR ''/'' # num @ suf) \<and> is_lower l \<and> num \<noteq> [] \<and> list_all is_digit num"
proof (induction p s rule: search_slash.induct)
  case (2 p c s)
  have m: "t = k # CHR ''/'' # n @ u \<and> is_lower k \<and> n \<noteq> [] \<and> list_all is_digit n"
    if "match_slash t = Some (k, n, u)" for t k n u
    using that by (cases t rule: match_slash.cases)
      (auto simp: list_all_iff dest: set_takeWhileD split: if_splits)
  show ?case
  proof (cases "match_slash (c # s)")
    case None
    then show ?thesis using 2 by simp
  next
    case (Some a)
    then show ?thesis using 2 m by (cases a) auto
  qed
qed simp

function expand_slashes_loop :: "string \<Rightarrow> string res" where
  "expand_slashes_loop a =
     (case search_slash [] a of
        None \<Rightarrow> Inr a
      | Some (pre, letter, number, suf) \<Rightarrow>
          rbind (py_int 10 number) (\<lambda>n.
            if n > 99 then Inl (Die ''Hit a very large number when expanding slash patterns'')
            else expand_slashes_loop (pre @ replicate (nat n) letter @ suf)))"
  by pat_completeness auto

lemma lower_not_slash: "is_lower l \<Longrightarrow> l \<noteq> CHR ''/''"
  by (auto simp: is_lower_def)

lemma digit_not_slash: "is_digit c \<Longrightarrow> c \<noteq> CHR ''/''"
  by (auto simp: is_digit_def)

lemma slash_step_decreases:
  assumes "search_slash [] a = Some (pre, l, num, suf)"
  shows "count_list (pre @ replicate n l @ suf) CHR ''/'' < count_list a CHR ''/''"
proof -
  from search_slash_split [OF assms] have a: "a = pre @ l # CHR ''/'' # num @ suf"
    and l: "is_lower l" and num: "list_all is_digit num" by auto
  have "count_list (replicate n l) CHR ''/'' = 0"
    using lower_not_slash [OF l] by (induction n) auto
  then show ?thesis using lower_not_slash [OF l] by (simp add: a)
qed

termination expand_slashes_loop
  by (relation "measure (\<lambda>a. count_list a CHR ''/'')") (auto dest: slash_step_decreases)

declare expand_slashes_loop.simps [simp del]

definition expand_all_slashes :: "string \<Rightarrow> string res" where
  "expand_all_slashes s = expand_slashes_loop s"

lemma expand_slashes_done: "expand_slashes_loop a = Inr b \<Longrightarrow> search_slash [] b = None"
proof (induction a rule: expand_slashes_loop.induct)
  case (1 a)
  show ?case
  proof (cases "search_slash [] a")
    case None
    with "1.prems" show ?thesis by (simp add: expand_slashes_loop.simps [of a])
  next
    case (Some m)
    obtain pre l num suf where m: "m = (pre, l, num, suf)" by (cases m)
    with "1.prems" Some obtain n where n: "py_int 10 num = Inr n" "\<not> n > 99"
      "expand_slashes_loop (pre @ replicate (nat n) l @ suf) = Inr b"
      by (auto simp: expand_slashes_loop.simps [of a] rbind_eq_Inr split: if_splits)
    show ?thesis
      using "1.IH" Some m n by auto
  qed
qed

lemma expand_slashes_id: "search_slash [] a = None \<Longrightarrow> expand_slashes_loop a = Inr a"
  by (simp add: expand_slashes_loop.simps [of a])

section \<open>Expansions\<close>

lemma expand_reg_range_eq:
  assumes "search_reg_range [] pat = Some (pre, lo, hi, suf)" and "parse_reg_values pat = Inr vals"
  shows "expand_reg_range pat = Inr (map (\<lambda>v. pre @ reg_token v @ suf) vals)"
  using assms by (simp add: expand_reg_range_def)

text \<open>
  A pattern with a register range expands to one pattern per register of the range, in order
  and all within three bits, and the token written in each reads back as that register alone.
\<close>

lemma reg_range_expansion:
  assumes "search_reg_range [] pat = Some (pre, lo_s, hi_s, suf)" and "parse_reg_values pat = Inr vals"
  shows "\<exists>lo hi. py_int 10 lo_s = Inr lo \<and> py_int 10 hi_s = Inr hi \<and> 0 \<le> lo \<and> lo \<le> hi \<and> hi \<le> 7 \<and>
    vals = [lo..hi] \<and> expand_reg_range pat = Inr (map (\<lambda>v. pre @ reg_token v @ suf) [lo..hi]) \<and>
    (\<forall>v \<in> set vals. parse_reg_values (reg_token v) = Inr [v])"
proof -
  from digits_val_nonneg_range [OF assms(2,1)] obtain lo hi where
    b: "py_int 10 lo_s = Inr lo" "py_int 10 hi_s = Inr hi" "lo \<le> hi" "hi \<le> 7" "vals = [lo..hi]" by blast
  have "0 \<le> lo" using py_int_digits_nonneg search_reg_range_digits(1) [OF assms(1)] b(1) by blast
  with b expand_reg_range_eq [OF assms] reg_token_roundtrip show ?thesis by auto
qed

lemma reg_range_expansion_witness:
  "expand_reg_range ''0x0F REG[2-3] MOD=3'' =
     Inr [''0x0F REG[0b010] MOD=3'', ''0x0F REG[0b011] MOD=3'']"
proof -
  have s: "search_reg_range [] ''0x0F REG[2-3] MOD=3'' = Some (''0x0F '', ''2'', ''3'', '' MOD=3'')" by code_simp
  have p: "parse_reg_values ''0x0F REG[2-3] MOD=3'' = Inr [2, 3]" by code_simp
  have t: "reg_token 2 = ''REG[0b010]''" "reg_token 3 = ''REG[0b011]''" by code_simp+
  from reg_range_expansion [OF s p] show ?thesis by (auto simp: t expand_reg_range_eq [OF s p])
qed

text \<open>
  The slash expansion ends on every text, and a successful result has no letter-slash-number
  left, so expanding again changes nothing.
\<close>

lemma slash_expansion_complete:
  assumes "expand_all_slashes s = Inr t"
  shows "search_slash [] t = None \<and> expand_all_slashes t = Inr t"
  using expand_slashes_done expand_slashes_id assms by (auto simp: expand_all_slashes_def)

lemma slash_expansion_complete_witness:
  "expand_all_slashes ''r/3 m/2'' = Inr ''rrr mm'' \<and> expand_all_slashes ''rrr mm'' = Inr ''rrr mm''"
proof -
  have "expand_all_slashes ''r/3 m/2'' = Inr ''rrr mm''" by code_simp
  from slash_expansion_complete [OF this] this show ?thesis by simp
qed

end
