(* ===== verification/Pattern_Bits.thy ===== *)
theory Pattern_Bits
  imports Reg_Range
begin

text \<open>
  The bits of a decode pattern (\<open>bit_info_t\<close>, \<open>prebinding_t\<close> and \<open>parse_opcode_spec\<close> of
  \<open>pysrc/generator.py\<close>).  A pattern is a sequence of literal bits, don't-care letters, operand
  deciders (\<open>MOD=3\<close>, \<open>RM!=4\<close>) and nonterminals.  \<open>parse_opcode_spec\<close> turns the text of a
  pattern into such a sequence; the lemmas at the end say that the positions it assigns are the
  consecutive ones and that a captured field is made of bits of the pattern.
\<close>

section \<open>Bits\<close>

datatype bit_type = BBit | BDontcare | BOperand | BNonterminal

datatype od_test = OdEq | OdNe

record bit_info =
  btype :: bit_type
  bvalue :: string
  pbit :: int
  btoken :: "string option"
  btest :: "od_test option"
  brequirement :: "int option"

definition is_upper_num :: "char \<Rightarrow> bool" where
  "is_upper_num c \<longleftrightarrow> c \<in> set ''ABCDEFGHIJKLMNOPQRSTUVWXYZ0123456789_''"

definition is_requirement_char :: "char \<Rightarrow> bool" where
  "is_requirement_char c \<longleftrightarrow> is_upper_num c \<or> c = CHR ''b'' \<or> c = CHR ''x''"

text \<open>\<open>restriction_pattern\<close>: \<open>([A-Z0-9_]+)(!=|=)([bx0-9A-Z_]+)\<close>, at the start and searched.\<close>

definition match_restriction :: "string \<Rightarrow> (string \<times> string \<times> string) option" where
  "match_restriction s =
     (let token = takeWhile is_upper_num s; r = dropWhile is_upper_num s;
          test = (if starts_with ''!='' r then ''!='' else if starts_with ''='' r then ''='' else []);
          requirement = takeWhile is_requirement_char (drop (length test) r)
      in if token = [] \<or> test = [] \<or> requirement = [] then None
         else Some (token, test, requirement))"

fun search_restriction :: "string \<Rightarrow> (string \<times> string \<times> string) option" where
  "search_restriction [] = None"
| "search_restriction (c # s) =
     (case match_restriction (c # s) of Some m \<Rightarrow> Some m | None \<Rightarrow> search_restriction s)"

definition bit_info_new :: "string \<Rightarrow> bit_type \<Rightarrow> int \<Rightarrow> bit_info res" where
  "bit_info_new value bt pb =
     (if bt = BOperand
      then (case search_restriction value of
              None \<Rightarrow> Inl (Die ''bad operand decider'')
            | Some (token, test, requirement) \<Rightarrow>
                rbind (make_numeric requirement) (\<lambda>req.
                  Inr \<lparr>btype = bt, bvalue = value, pbit = pb, btoken = Some token,
                       btest = Some (if test = ''='' then OdEq else OdNe),
                       brequirement = Some req\<rparr>))
      else Inr \<lparr>btype = bt, bvalue = value, pbit = pb, btoken = None, btest = None,
                brequirement = None\<rparr>)"

definition bit_info_eq :: "bit_info \<Rightarrow> bit_info option \<Rightarrow> bool" where
  "bit_info_eq b other =
     (case other of
        None \<Rightarrow> False
      | Some c \<Rightarrow> if bvalue b = bvalue c then (if btype b = btype c then True else False) else False)"

definition just_bits :: "bit_info \<Rightarrow> string" where
  "just_bits b = bvalue b"

definition is_nonterminal :: "bit_info \<Rightarrow> bool" where
  "is_nonterminal b = (if btype b = BNonterminal then True else False)"

definition is_operand_decider :: "bit_info \<Rightarrow> bool" where
  "is_operand_decider b = (if btype b = BOperand then True else False)"

definition is_dont_care :: "bit_info \<Rightarrow> bool" where
  "is_dont_care b = (if btype b = BDontcare then True else False)"

definition is_real_bit :: "bit_info \<Rightarrow> bool" where
  "is_real_bit b = (if btype b = BDontcare \<or> btype b = BBit then True else False)"

definition is_one_or_zero :: "bit_info \<Rightarrow> bool" where
  "is_one_or_zero b = (if btype b = BBit then True else False)"

lemmas bit_kind_simps =
  is_nonterminal_def is_operand_decider_def is_dont_care_def is_real_bit_def is_one_or_zero_def

text \<open>\<open>nonterminal_pattern\<close>: \<open>([A-Z][a-zA-Z0-9_]*)[(][)]\<close>, searched; the name is the group.\<close>

definition is_word_char :: "char \<Rightarrow> bool" where
  "is_word_char c \<longleftrightarrow> is_upper c \<or> is_lower c \<or> is_digit c \<or> c = CHR ''_''"

fun search_nonterminal :: "string \<Rightarrow> string option" where
  "search_nonterminal [] = None"
| "search_nonterminal (c # s) =
     (if is_upper c \<and> starts_with ''()'' (dropWhile is_word_char s)
      then Some (c # takeWhile is_word_char s)
      else search_nonterminal s)"

definition nonterminal_name :: "bit_info \<Rightarrow> string option res" where
  "nonterminal_name b =
     (if is_nonterminal b
      then (case search_nonterminal (bvalue b) of
              Some nt_name \<Rightarrow> Inr (Some nt_name)
            | None \<Rightarrow> Inl (Die ''Error finding NT name''))
      else Inr None)"

section \<open>Captured fields\<close>

record prebinding =
  field_name :: string
  bit_info_list :: "bit_info list"

definition prebinding_new :: "string \<Rightarrow> prebinding" where
  "prebinding_new name = \<lparr>field_name = name, bit_info_list = []\<rparr>"

definition add_bit :: "bit_info \<Rightarrow> prebinding \<Rightarrow> prebinding" where
  "add_bit b p = p\<lparr>bit_info_list := bit_info_list p @ [b]\<rparr>"

definition is_constant :: "prebinding \<Rightarrow> bool" where
  "is_constant p = (if list_ex is_dont_care (bit_info_list p) then False else True)"

definition prebinding_value :: "prebinding \<Rightarrow> string" where
  "prebinding_value p = concat (map just_bits (bit_info_list p))"

section \<open>Parsing a pattern\<close>

definition get_btype :: "char \<Rightarrow> bit_type" where
  "get_btype b = (if b = CHR ''1'' \<or> b = CHR ''0'' then BBit else BDontcare)"

definition pad_to_multiple_of_8bits :: "string \<Rightarrow> string" where
  "pad_to_multiple_of_8bits x =
     (let frac = length x mod 8 in if frac = 0 then x else replicate (8 - frac) CHR ''0'' @ x)"

definition hex_pattern_match :: "string \<Rightarrow> bool" where
  "hex_pattern_match w \<longleftrightarrow> (starts_with ''0x'' w \<or> starts_with ''0X'' w) \<and>
     (case drop 2 w of [] \<Rightarrow> False | c # _ \<Rightarrow> is_hexdigit c)"

text \<open>\<open>pattern_binding_pattern\<close>: \<open>NAME[bits]\<close> at the start of the word.\<close>

definition match_pattern_binding :: "string \<Rightarrow> (string \<times> string) option" where
  "match_pattern_binding w =
     (let name = takeWhile is_word_char w; r = dropWhile is_word_char w;
          ok = (\<lambda>c. is_upper c \<or> is_lower c \<or> c \<in> set ''01_'');
          bits = takeWhile ok (drop 1 r); r' = dropWhile ok (drop 1 r)
      in if name = [] \<or> \<not> starts_with ''['' r \<or> bits = [] \<or> \<not> starts_with '']'' r' then None
         else Some (name, bits))"

definition formal_binary_match :: "string \<Rightarrow> bool" where
  "formal_binary_match w = make_numeric_binary_match w"

text \<open>
  What \<open>parse_opcode_spec\<close> accumulates: the raw bits, the captures, the interpreted bits, the
  prebindings by field name and the bit counter.
\<close>

record opcode_spec =
  all_bits :: "string list"
  extra_bindings :: "(string \<times> string) list"
  all_bit_infos :: "bit_info list"
  all_prebindings :: "(string, prebinding) dict"
  bcount :: int

definition opcode_spec_empty :: opcode_spec where
  "opcode_spec_empty = \<lparr>all_bits = [], extra_bindings = [], all_bit_infos = [],
     all_prebindings = [], bcount = 0\<rparr>"

text \<open>Appending one interpreted bit and counting it.\<close>

definition push_bit_info :: "string \<Rightarrow> bit_type \<Rightarrow> opcode_spec \<Rightarrow> opcode_spec res" where
  "push_bit_info value bt st =
     rbind (bit_info_new value bt (bcount st)) (\<lambda>b.
       Inr (st\<lparr>all_bit_infos := all_bit_infos st @ [b], bcount := bcount st + 1\<rparr>))"

definition push_raw :: "string list \<Rightarrow> opcode_spec \<Rightarrow> opcode_spec" where
  "push_raw bs st = st\<lparr>all_bits := all_bits st @ bs\<rparr>"

definition push_chars :: "(char \<Rightarrow> bit_type) \<Rightarrow> string \<Rightarrow> opcode_spec \<Rightarrow> opcode_spec res" where
  "push_chars kind bs st =
     rbind (foldM (\<lambda>c st. push_bit_info [c] (kind c) st) bs st) (\<lambda>st.
       Inr (push_raw (map (\<lambda>c. [c]) bs) st))"

text \<open>
  \<open>validate_field_width\<close> compares the captured bits with the width of the operand storage
  field, a dictionary of widths here.
\<close>

definition validate_field_width :: "(string, nat) dict \<Rightarrow> string \<Rightarrow> string \<Rightarrow> unit res" where
  "validate_field_width widths fname bits =
     rbind (make_binary bits) (\<lambda>b. rbind (dget widths fname) (\<lambda>w.
       if length b > w then Inl (Die ''length of captured field exceeds operand storage field width'')
       else Inr ()))"

definition capture_bits :: "string \<Rightarrow> string \<Rightarrow> opcode_spec \<Rightarrow> opcode_spec res" where
  "capture_bits fname bs st =
     rbind (foldM (\<lambda>c (pb, st).
              rbind (bit_info_new [c] (get_btype c) (bcount st)) (\<lambda>bi.
                Inr (add_bit bi pb,
                     st\<lparr>all_bit_infos := all_bit_infos st @ [bi], bcount := bcount st + 1\<rparr>)))
            bs (prebinding_new fname, st)) (\<lambda>(pb, st).
       Inr (push_raw (map (\<lambda>c. [c]) bs)
              (st\<lparr>all_prebindings := dset fname pb (all_prebindings st)\<rparr>)))"

definition parse_word ::
  "(string, nat) dict \<Rightarrow> (string \<Rightarrow> bool res) \<Rightarrow> string \<Rightarrow> opcode_spec \<Rightarrow> opcode_spec res" where
  "parse_word widths decoder_skip w st =
     (if hex_pattern_match w
      then rbind (hex_to_binary w) (\<lambda>b.
             push_chars (\<lambda>_. BBit) (pad_to_multiple_of_8bits b) st)
      else case match_pattern_binding w of
        Some (fname, bits) \<Rightarrow>
          if list_ex is_upper bits then Inl (Die ''Upper case letters in capture pattern'')
          else rbind (validate_field_width widths fname bits) (\<lambda>_.
               rbind (make_binary bits) (\<lambda>bs.
                 capture_bits fname bs
                   (st\<lparr>extra_bindings := extra_bindings st @ [(fname, bits)]\<rparr>)))
      | None \<Rightarrow>
      if search_nonterminal w \<noteq> None
      then rbind (push_bit_info w BNonterminal st) (\<lambda>st. Inr (push_raw [w] st))
      else case search_restriction w of
        Some (token, test, requirement) \<Rightarrow>
          rbind (decoder_skip token) (\<lambda>skip.
            if skip then Inr st
            else if w \<notin> set (all_bits st)
            then rbind (push_bit_info w BOperand st) (\<lambda>st. Inr (push_raw [w] st))
            else Inr st)
      | None \<Rightarrow>
      if formal_binary_match w
      then rbind (make_binary w) (\<lambda>bits. push_chars get_btype bits st)
      else push_chars get_btype (no_underscores w) st)"

text \<open>
  \<open>paren_underscore_pattern\<close> turns \<open>()\<close> followed by underscores into \<open>()\<close> and a blank.
\<close>

function paren_underscore_sub :: "string \<Rightarrow> string" where
  "paren_underscore_sub [] = []"
| "paren_underscore_sub (c # s) =
     (if starts_with ''()_'' (c # s)
      then ''() '' @ paren_underscore_sub (dropWhile (\<lambda>c. c = CHR ''_'') (drop 2 (c # s)))
      else c # paren_underscore_sub s)"
  by pat_completeness auto
termination
  by (relation "measure length") (auto intro: le_less_trans [OF length_dropWhile_le])

function split_words :: "string \<Rightarrow> string list" where
  "split_words s =
     (let t = lstrip s
      in if t = [] then []
         else takeWhile (\<lambda>c. \<not> is_space c) t # split_words (dropWhile (\<lambda>c. \<not> is_space c) t))"
  by pat_completeness auto
termination
proof (relation "measure length")
  fix s x :: string
  assume x: "x = lstrip s" and ne: "x \<noteq> []"
  then have "\<not> is_space (hd x)" by (simp add: lstrip_def hd_dropWhile)
  then have "length (dropWhile (\<lambda>c. \<not> is_space c) x) < length x"
    using ne by (cases x) (auto intro: le_less_trans [OF length_dropWhile_le])
  also have "\<dots> \<le> length s" by (simp add: x lstrip_def length_dropWhile_le)
  finally show "(dropWhile (\<lambda>c. \<not> is_space c) x, s) \<in> measure length" by simp
qed simp

declare split_words.simps [simp del]

text \<open>The word \<open>otherwise\<close> ends the parse: \<open>None\<close> for the four lists and \<open>True\<close>.\<close>

fun parse_words ::
  "(string, nat) dict \<Rightarrow> (string \<Rightarrow> bool res) \<Rightarrow> string list \<Rightarrow> opcode_spec
     \<Rightarrow> (opcode_spec option \<times> bool) res" where
  "parse_words widths skip [] st = Inr (Some st, False)"
| "parse_words widths skip (w # ws) st =
     (if w = ''otherwise'' then Inr (None, True)
      else rbind (parse_word widths skip w st) (parse_words widths skip ws))"

definition parse_opcode_spec ::
  "(string, nat) dict \<Rightarrow> (string \<Rightarrow> bool res) \<Rightarrow> string \<Rightarrow> (string, string list) dict
     \<Rightarrow> (opcode_spec option \<times> bool) res" where
  "parse_opcode_spec widths skip line state_dict =
     (let b = paren_underscore_sub line;
          wrds = concat (map (\<lambda>w. case map_of state_dict w of Some l \<Rightarrow> l | None \<Rightarrow> [w])
                   (split_words b))
      in parse_words widths skip wrds opcode_spec_empty)"

section \<open>What a parsed pattern looks like\<close>

text \<open>
  The bits carry their own positions, and the raw bits are the values of the interpreted ones.
\<close>

definition numbered :: "bit_info list \<Rightarrow> bool" where
  "numbered bs \<longleftrightarrow> map pbit bs = map int [0..<length bs]"

definition captured_in :: "bit_info list \<Rightarrow> string \<times> prebinding \<Rightarrow> bool" where
  "captured_in bs fp \<longleftrightarrow> field_name (snd fp) = fst fp \<and>
     (\<exists>i. take (length (bit_info_list (snd fp))) (drop i bs) = bit_info_list (snd fp))"

text \<open>An operand decider has its three parts and does not look like a literal bit.\<close>

definition decider_ok :: "bit_info \<Rightarrow> bool" where
  "decider_ok b \<longleftrightarrow>
     (is_operand_decider b \<longrightarrow>
        btoken b \<noteq> None \<and> btest b \<noteq> None \<and> brequirement b \<noteq> None \<and>
        bvalue b \<noteq> ''0'' \<and> bvalue b \<noteq> ''1'')"

definition infos_ok :: "opcode_spec \<Rightarrow> bool" where
  "infos_ok st \<longleftrightarrow> numbered (all_bit_infos st) \<and> bcount st = int (length (all_bit_infos st)) \<and>
     (\<forall>b \<in> set (all_bit_infos st). decider_ok b) \<and>
     (\<forall>fp \<in> set (all_prebindings st). captured_in (all_bit_infos st) fp)"

definition spec_ok :: "opcode_spec \<Rightarrow> bool" where
  "spec_ok st \<longleftrightarrow> infos_ok st \<and> map bvalue (all_bit_infos st) = all_bits st"

lemma numbered_snoc: "numbered bs \<Longrightarrow> pbit b = int (length bs) \<Longrightarrow> numbered (bs @ [b])"
  by (simp add: numbered_def)

lemma captured_in_append: "captured_in bs fp \<Longrightarrow> captured_in (bs @ cs) fp"
proof -
  assume "captured_in bs fp"
  then obtain i where i: "take (length (bit_info_list (snd fp))) (drop i bs) = bit_info_list (snd fp)"
    and f: "field_name (snd fp) = fst fp" by (auto simp: captured_in_def)
  let ?n = "length (bit_info_list (snd fp))"
  have "?n \<le> length (drop i bs)"
    using i by (metis length_take min.absorb_iff2 min.commute)
  show ?thesis
  proof (cases "bit_info_list (snd fp) = []")
    case True
    then show ?thesis using f by (auto simp: captured_in_def)
  next
    case False
    with \<open>?n \<le> length (drop i bs)\<close> have "i \<le> length bs" by (cases "i \<le> length bs") auto
    then have "take ?n (drop i (bs @ cs)) = bit_info_list (snd fp)"
      using i \<open>?n \<le> length (drop i bs)\<close> by simp
    then show ?thesis using f by (auto simp: captured_in_def)
  qed
qed

lemma bit_info_new_fields:
  "bit_info_new v bt p = Inr b \<Longrightarrow> bvalue b = v \<and> pbit b = p \<and> btype b = bt"
  by (auto simp: bit_info_new_def rbind_eq_Inr split: if_splits option.splits)

lemma bit_info_new_decider_ok:
  assumes "bit_info_new v bt p = Inr b"
  shows "decider_ok b"
proof (cases "bt = BOperand")
  case True
  with assms obtain token test req r where s: "search_restriction v = Some (token, test, req)"
    and b: "b = \<lparr>btype = bt, bvalue = v, pbit = p, btoken = Some token,
      btest = Some (if test = ''='' then OdEq else OdNe), brequirement = Some r\<rparr>"
    by (auto simp: bit_info_new_def rbind_eq_Inr split: option.splits)
  have "search_restriction ''0'' = None" "search_restriction ''1'' = None" by code_simp+
  with s have "v \<noteq> ''0''" "v \<noteq> ''1''" by auto
  then show ?thesis by (simp add: b decider_ok_def)
next
  case False
  with bit_info_new_fields [OF assms] show ?thesis by (simp add: decider_ok_def is_operand_decider_def)
qed

lemma push_bit_info_Inr:
  assumes "push_bit_info v bt st = Inr st'" and "infos_ok st"
  shows "infos_ok st'" and "map bvalue (all_bit_infos st') = map bvalue (all_bit_infos st) @ [v]"
    and "all_bits st' = all_bits st" and "all_prebindings st' = all_prebindings st"
proof -
  from assms(1) obtain b where b: "bit_info_new v bt (bcount st) = Inr b"
    and st': "st' = st\<lparr>all_bit_infos := all_bit_infos st @ [b], bcount := bcount st + 1\<rparr>"
    by (auto simp: push_bit_info_def rbind_eq_Inr)
  from bit_info_new_fields [OF b] bit_info_new_decider_ok [OF b] assms(2) show "infos_ok st'"
    by (auto simp: st' infos_ok_def numbered_snoc captured_in_append)
  from bit_info_new_fields [OF b]
  show "map bvalue (all_bit_infos st') = map bvalue (all_bit_infos st) @ [v]"
    and "all_bits st' = all_bits st" and "all_prebindings st' = all_prebindings st"
    by (auto simp: st')
qed

lemma push_chars_loop:
  assumes "foldM (\<lambda>c st. push_bit_info [c] (kind c) st) bs st = Inr st'" and "infos_ok st"
  shows "infos_ok st' \<and> map bvalue (all_bit_infos st') = map bvalue (all_bit_infos st) @ map (\<lambda>c. [c]) bs
    \<and> all_bits st' = all_bits st"
  using assms
proof (induction bs arbitrary: st)
  case Nil
  then show ?case by simp
next
  case (Cons c bs)
  then obtain st1 where st1: "push_bit_info [c] (kind c) st = Inr st1"
    and rest: "foldM (\<lambda>c st. push_bit_info [c] (kind c) st) bs st1 = Inr st'"
    by (auto simp: rbind_eq_Inr)
  from push_bit_info_Inr [OF st1 Cons.prems(2)] Cons.IH [OF rest] show ?case by simp
qed

lemma push_chars_ok: "push_chars kind bs st = Inr st' \<Longrightarrow> spec_ok st \<Longrightarrow> spec_ok st'"
  by (auto simp: push_chars_def rbind_eq_Inr spec_ok_def infos_ok_def push_raw_def
      dest!: push_chars_loop)

lemma push_one_ok:
  "push_bit_info w bt st = Inr st1 \<Longrightarrow> spec_ok st \<Longrightarrow> spec_ok (push_raw [w] st1)"
  using push_bit_info_Inr [of w bt st st1]
  by (auto simp: spec_ok_def infos_ok_def push_raw_def)

lemma capture_loop:
  assumes "foldM (\<lambda>c (pb, st).
              rbind (bit_info_new [c] (get_btype c) (bcount st)) (\<lambda>bi.
                Inr (add_bit bi pb,
                     st\<lparr>all_bit_infos := all_bit_infos st @ [bi], bcount := bcount st + 1\<rparr>)))
            bs (pb, st) = Inr (pb', st')"
    and "infos_ok st" and "all_bit_infos st = pre @ bit_info_list pb"
  shows "infos_ok st' \<and> all_bit_infos st' = pre @ bit_info_list pb' \<and> field_name pb' = field_name pb
    \<and> map bvalue (all_bit_infos st') = map bvalue (all_bit_infos st) @ map (\<lambda>c. [c]) bs
    \<and> all_bits st' = all_bits st \<and> all_prebindings st' = all_prebindings st"
  using assms
proof (induction bs arbitrary: pb st)
  case Nil
  then show ?case by simp
next
  case (Cons c bs)
  then obtain bi where bi: "bit_info_new [c] (get_btype c) (bcount st) = Inr bi"
    by (auto simp: rbind_eq_Inr)
  let ?st = "st\<lparr>all_bit_infos := all_bit_infos st @ [bi], bcount := bcount st + 1\<rparr>"
  have "push_bit_info [c] (get_btype c) st = Inr ?st"
    using bi by (simp add: push_bit_info_def)
  then have ok: "infos_ok ?st" by (rule push_bit_info_Inr(1) [OF _ Cons.prems(2)])
  have split: "all_bit_infos ?st = pre @ bit_info_list (add_bit bi pb)"
    using Cons.prems(3) by (simp add: add_bit_def)
  show ?case
    using Cons.IH [OF _ ok split] Cons.prems(1) bi bit_info_new_fields [OF bi]
    by (auto simp: add_bit_def)
qed

lemma capture_bits_ok:
  assumes "capture_bits f bs st = Inr st'" and "spec_ok st"
  shows "spec_ok st'"
proof -
  let ?loop = "foldM (\<lambda>c (pb, st).
              rbind (bit_info_new [c] (get_btype c) (bcount st)) (\<lambda>bi.
                Inr (add_bit bi pb,
                     st\<lparr>all_bit_infos := all_bit_infos st @ [bi], bcount := bcount st + 1\<rparr>)))
            bs (prebinding_new f, st)"
  from assms(1) obtain pb st1 where l: "?loop = Inr (pb, st1)"
    and st': "st' = push_raw (map (\<lambda>c. [c]) bs)
              (st1\<lparr>all_prebindings := dset f pb (all_prebindings st1)\<rparr>)"
    by (auto simp: capture_bits_def rbind_eq_Inr)
  have ok: "infos_ok st" using assms(2) by (simp add: spec_ok_def)
  have r: "infos_ok st1 \<and> all_bit_infos st1 = all_bit_infos st @ bit_info_list pb \<and>
      field_name pb = field_name (prebinding_new f)
    \<and> map bvalue (all_bit_infos st1) = map bvalue (all_bit_infos st) @ map (\<lambda>c. [c]) bs
    \<and> all_bits st1 = all_bits st \<and> all_prebindings st1 = all_prebindings st"
    by (rule capture_loop [OF l ok]) (simp add: prebinding_new_def)
  have cap: "captured_in (all_bit_infos st1) (f, pb)"
    using r unfolding captured_in_def
    by (auto simp: prebinding_new_def intro!: exI [of _ "length (all_bit_infos st)"])
  have "\<forall>fp \<in> set (dset f pb (all_prebindings st1)). captured_in (all_bit_infos st1) fp"
    using r cap set_dset_subset [of f pb "all_prebindings st1"] by (fastforce simp: infos_ok_def)
  then show ?thesis
    using r assms(2) by (auto simp: st' spec_ok_def infos_ok_def push_raw_def)
qed

lemma spec_ok_extra [simp]: "spec_ok (st\<lparr>extra_bindings := x\<rparr>) \<longleftrightarrow> spec_ok st"
  by (simp add: spec_ok_def infos_ok_def)

lemma capture_extra_ok:
  "capture_bits f bs (st\<lparr>extra_bindings := x\<rparr>) = Inr st' \<Longrightarrow> spec_ok st \<Longrightarrow> spec_ok st'"
  by (erule capture_bits_ok) simp

lemma parse_word_ok:
  "parse_word widths skip w st = Inr st' \<Longrightarrow> spec_ok st \<Longrightarrow> spec_ok st'"
  by (auto simp: parse_word_def rbind_eq_Inr split: if_splits option.splits
      intro: push_chars_ok push_one_ok dest: capture_extra_ok)

lemma parse_words_ok:
  "parse_words widths skip ws st = Inr (Some st', other) \<Longrightarrow> spec_ok st \<Longrightarrow> spec_ok st'"
proof (induction ws arbitrary: st)
  case Nil
  then show ?case by simp
next
  case (Cons w ws)
  then show ?case by (auto simp: rbind_eq_Inr split: if_splits dest: parse_word_ok)
qed

lemma spec_ok_empty: "spec_ok opcode_spec_empty"
  by (simp add: spec_ok_def infos_ok_def opcode_spec_empty_def numbered_def)

lemma parse_opcode_spec_ok:
  "parse_opcode_spec widths skip line sd = Inr (Some st, other) \<Longrightarrow> spec_ok st"
  by (auto simp: parse_opcode_spec_def dest: parse_words_ok [OF _ spec_ok_empty])

text \<open>
  Whatever the text of a pattern, the bits it parses to carry the positions 0, 1, 2, \<dots> in
  order, the raw bits are the values of the interpreted ones, and every captured field is a
  contiguous run of the pattern's bits stored under its own name.
\<close>

lemma parsed_pattern_positions:
  assumes "parse_opcode_spec widths skip line state_dict = Inr (Some st, other)"
  shows "map pbit (all_bit_infos st) = map int [0..<length (all_bit_infos st)] \<and>
    map bvalue (all_bit_infos st) = all_bits st \<and>
    (\<forall>(f, pb) \<in> set (all_prebindings st). field_name pb = f \<and>
       (\<exists>i. take (length (bit_info_list pb)) (drop i (all_bit_infos st)) = bit_info_list pb))"
  using parse_opcode_spec_ok [OF assms]
  by (simp add: spec_ok_def infos_ok_def numbered_def captured_in_def case_prod_unfold)

lemma parsed_pattern_positions_witness:
  "\<exists>st. parse_opcode_spec [(''REG'', 3)] (\<lambda>_. Inr False) ''0x0F REG[rrr] MOD=3'' [] = Inr (Some st, False) \<and>
     map pbit (all_bit_infos st) = map int [0..<12] \<and> length (all_prebindings st) = 1"
proof -
  obtain st where st: "parse_opcode_spec [(''REG'', 3)] (\<lambda>_. Inr False) ''0x0F REG[rrr] MOD=3'' [] =
      Inr (Some st, False)" "length (all_bit_infos st) = 12" "length (all_prebindings st) = 1"
  proof -
    let ?r = "parse_opcode_spec [(''REG'', 3)] (\<lambda>_. Inr False) ''0x0F REG[rrr] MOD=3'' []"
    have "(case ?r of Inr (Some st, False) \<Rightarrow> length (all_bit_infos st) = 12 \<and> length (all_prebindings st) = 1
        | _ \<Rightarrow> False)" by code_simp
    then show thesis using that by (auto split: sum.splits prod.splits option.splits bool.splits)
  qed
  with parsed_pattern_positions [OF st(1)] show ?thesis by auto
qed

end
