(* ===== verification/Map_Info.thy ===== *)
theory Map_Info
  imports Pattern_Bits "HOL-Library.List_Lexorder" "HOL-Library.Char_ord"
begin

text \<open>
  Opcode map descriptions (\<open>pysrc/map_info_rdr.py\<close>): the parsing of the description lines, the
  numbering of the maps without an id, and the per-encoding-space feature tables with the C
  functions that read them.  The lines of the file are an input of the model.
\<close>

section \<open>Encoding spaces\<close>

definition space_ids :: "(string, int) dict" where
  "space_ids = [(''legacy'', 0), (''vex'', 1), (''evex'', 2), (''xop'', 3)]"

definition space_id_sorted :: "string list" where
  "space_id_sorted = map fst (sort_key snd space_ids)"

definition encoding_space_max :: int where
  "encoding_space_max = Max (set (dvals space_ids))"

text \<open>A Python list index: a negative one counts from the end.\<close>

definition py_index :: "'a list \<Rightarrow> int \<Rightarrow> 'a res" where
  "py_index xs i =
     (if 0 \<le> i \<and> i < int (length xs) then Inr (xs ! nat i)
      else if i < 0 \<and> - int (length xs) \<le> i then Inr (xs ! nat (int (length xs) + i))
      else Inl IndexError)"

definition vexvalid_to_encoding_space :: "int \<Rightarrow> string res" where
  "vexvalid_to_encoding_space vv = py_index space_id_sorted vv"

definition encoding_space_to_vexvalid :: "string \<Rightarrow> int res" where
  "encoding_space_to_vexvalid s = dget space_ids s"

section \<open>Splitting a line\<close>

text \<open>
  \<open>shlex.split\<close>: words are separated by blanks, quotes group, a backslash escapes (inside double
  quotes only a backslash or the quote itself).
\<close>

datatype shlex_state = ShSpace | ShWord | ShQuote char | ShEscape "char option"

definition shlex_blank :: "char \<Rightarrow> bool" where
  "shlex_blank c \<longleftrightarrow> c \<in> {CHR '' '', CHR 0x09, CHR 0x0D, CHR 0x0A}"

definition shlex_quote_char :: "char \<Rightarrow> bool" where
  "shlex_quote_char c \<longleftrightarrow> c = CHR 0x27 \<or> c = CHR 0x22"

definition backslash :: char where
  "backslash = CHR 0x5C"

fun shlex_loop :: "shlex_state \<Rightarrow> string \<Rightarrow> bool \<Rightarrow> string list \<Rightarrow> string \<Rightarrow> string list res" where
  "shlex_loop ShSpace token quoted acc [] = Inr acc"
| "shlex_loop ShWord token quoted acc [] =
     Inr (if token \<noteq> [] \<or> quoted then acc @ [token] else acc)"
| "shlex_loop (ShQuote q) token quoted acc [] = Inl ValueError"
| "shlex_loop (ShEscape e) token quoted acc [] = Inl ValueError"
| "shlex_loop ShSpace token quoted acc (c # s) =
     (if shlex_blank c then shlex_loop ShSpace [] False acc s
      else if c = backslash then shlex_loop (ShEscape None) [] False acc s
      else if shlex_quote_char c then shlex_loop (ShQuote c) [] False acc s
      else shlex_loop ShWord [c] False acc s)"
| "shlex_loop ShWord token quoted acc (c # s) =
     (if shlex_blank c
      then shlex_loop ShSpace [] False (if token \<noteq> [] \<or> quoted then acc @ [token] else acc) s
      else if c = backslash then shlex_loop (ShEscape None) token quoted acc s
      else if shlex_quote_char c then shlex_loop (ShQuote c) token quoted acc s
      else shlex_loop ShWord (token @ [c]) quoted acc s)"
| "shlex_loop (ShQuote q) token quoted acc (c # s) =
     (if c = q then shlex_loop ShWord token True acc s
      else if c = backslash \<and> q = CHR 0x22 then shlex_loop (ShEscape (Some q)) token True acc s
      else shlex_loop (ShQuote q) (token @ [c]) True acc s)"
| "shlex_loop (ShEscape None) token quoted acc (c # s) =
     shlex_loop ShWord (token @ [c]) quoted acc s"
| "shlex_loop (ShEscape (Some q)) token quoted acc (c # s) =
     shlex_loop (ShQuote q)
       (if c \<noteq> backslash \<and> c \<noteq> q then token @ [backslash, c] else token @ [c]) quoted acc s"

definition shlex_split :: "string \<Rightarrow> string list res" where
  "shlex_split s = shlex_loop ShSpace [] False [] s"

section \<open>Map descriptions\<close>

text \<open>\<open>map_id\<close> is a number, or the word of the line until \<open>fix_nonnumeric_maps\<close> replaces it.\<close>

datatype map_id_value = MapNum int | MapWord string

record map_info =
  map_name :: string
  mspace :: string
  legacy_escape :: string
  legacy_opcode :: string
  map_id :: map_id_value
  modrm :: string
  disp :: string
  imm :: string
  opcpos :: int
  search_pattern :: string
  legacy_escape_int :: "int option"
  legacy_opcode_int :: "int option"
  map_id_fixup :: bool
  priority :: int

definition map_info_fields :: "string list" where
  "map_info_fields = [''map_name'', ''space'', ''legacy_escape'', ''legacy_opcode'', ''map_id'',
     ''modrm'', ''disp'', ''imm'', ''opcpos'', ''search_pattern'']"

definition dash_to_underscore :: "string \<Rightarrow> string" where
  "dash_to_underscore s = map (\<lambda>c. if c = CHR ''-'' then CHR ''_'' else c) s"

text \<open>The two integers of a legacy map: \<open>int(.., 16)\<close> of the escape and of the opcode.\<close>

definition legacy_ints :: "string \<Rightarrow> string \<Rightarrow> string \<Rightarrow> (int option \<times> int option) res" where
  "legacy_ints sp esc opc =
     (if sp = ''legacy'' \<and> esc \<noteq> ''N/A''
      then rbind (py_int 16 esc) (\<lambda>e.
             if opc \<noteq> ''N/A'' then rbind (py_int 16 opc) (\<lambda>k. Inr (Some e, Some k))
             else Inr (Some e, None))
      else Inr (None, None))"

text \<open>The checks on the escape, the opcode and the id, and whether the id is left to be fixed.\<close>

definition check_space_fields ::
  "string \<Rightarrow> string \<Rightarrow> string \<Rightarrow> string \<Rightarrow> (map_id_value \<times> bool) res" where
  "check_space_fields sp esc opc mid =
     (if sp \<notin> {''legacy'', ''vex'', ''evex'', ''xop''}
        then Inl (Die ''Bad map description encoding space'')
      else if sp = ''legacy''
        then (if \<not> is_hex esc \<and> esc \<noteq> ''N/A'' then Inl (Die ''Bad map description legacy escape'')
              else if \<not> is_hex opc \<and> opc \<noteq> ''N/A'' then Inl (Die ''Bad map description legacy opcode'')
              else if mid = ''N/A'' then Inl (Die ''Bad map description map-id'')
              else if is_numeric mid then rbind (make_numeric mid) (\<lambda>i. Inr (MapNum i, False))
              else Inr (MapWord mid, True))
      else (if esc \<noteq> ''N/A'' then Inl (Die ''Bad map description legacy escape'')
            else if opc \<noteq> ''N/A'' then Inl (Die ''Bad map description legacy opcode'')
            else if is_numeric mid then rbind (make_numeric mid) (\<lambda>i. Inr (MapNum i, False))
            else Inl (Die ''Bad map description map id'')))"

definition parse_map_fields where
  "parse_map_fields name sp esc opc mid mo di im pos pat =
     rbind (legacy_ints sp esc opc) (\<lambda>(ei, oi).
     rbind (check_space_fields sp esc opc mid) (\<lambda>(idv, fixup).
       if di \<notin> {''var'', ''no''} then Inl (Die ''Bad map description disp specifier'')
       else if mo \<notin> {''var'', ''yes'', ''no''} then Inl (Die ''Bad map description modrm specifier'')
       else if im \<notin> {''var'', ''0'', ''1'', ''2'', ''4''}
         then Inl (Die ''Bad map description imm specifier'')
       else if \<not> is_numeric pos then Inl (Die ''Bad map description opcode position specifier'')
       else rbind (make_numeric pos) (\<lambda>p.
         Inr \<lparr>map_name = dash_to_underscore name, mspace = sp, legacy_escape = esc,
              legacy_opcode = opc, map_id = idv, modrm = mo, disp = di, imm = im, opcpos = p,
              search_pattern = pat, legacy_escape_int = ei, legacy_opcode_int = oi,
              map_id_fixup = fixup, priority = 100 - int (length pat)\<rparr>)))"

definition parse_map_line :: "string \<Rightarrow> map_info res" where
  "parse_map_line s =
     rbind (shlex_split (strip s)) (\<lambda>t.
       if length t \<noteq> length map_info_fields then Inl (Die ''Bad map description line'')
       else parse_map_fields (t ! 0) (t ! 1) (t ! 2) (t ! 3) (t ! 4) (t ! 5) (t ! 6) (t ! 7)
              (t ! 8) (t ! 9))"

section \<open>Queries\<close>

definition is_legacy :: "map_info \<Rightarrow> bool" where "is_legacy mi \<longleftrightarrow> mspace mi = ''legacy''"
definition is_vex :: "map_info \<Rightarrow> bool" where "is_vex mi \<longleftrightarrow> mspace mi = ''vex''"
definition is_evex :: "map_info \<Rightarrow> bool" where "is_evex mi \<longleftrightarrow> mspace mi = ''evex''"
definition is_xop :: "map_info \<Rightarrow> bool" where "is_xop mi \<longleftrightarrow> mspace mi = ''xop''"

definition get_legacy_escapes :: "map_info \<Rightarrow> string \<times> string option" where
  "get_legacy_escapes mi =
     (if legacy_opcode mi = ''N/A'' then (legacy_escape mi, None)
      else (legacy_escape mi, Some (legacy_opcode mi)))"

definition has_variable_modrm :: "map_info \<Rightarrow> bool" where "has_variable_modrm mi \<longleftrightarrow> modrm mi = ''var''"
definition has_regular_modrm :: "map_info \<Rightarrow> bool" where "has_regular_modrm mi \<longleftrightarrow> modrm mi = ''yes''"
definition has_variable_disp :: "map_info \<Rightarrow> bool" where "has_variable_disp mi \<longleftrightarrow> disp mi = ''var''"
definition has_variable_imm :: "map_info \<Rightarrow> bool" where "has_variable_imm mi \<longleftrightarrow> imm mi = ''var''"

text \<open>\<open>hex(i)\<close> of any int; \<open>hex\<close> of a word raises \<open>TypeError\<close>.\<close>

definition hex_int :: "int \<Rightarrow> string" where
  "hex_int i = (if i < 0 then ''-'' @ hex_nat (nat (- i)) else hex_nat (nat i))"

definition map_short_name :: "map_info \<Rightarrow> string res" where
  "map_short_name mi =
     (if map_name mi = ''amd_3dnow'' then Inr ''AMD''
      else case map_id mi of MapNum i \<Rightarrow> Inr [List.last (hex_int i)] | MapWord w \<Rightarrow> Inl TypeError)"

definition ild_enum :: "map_info \<Rightarrow> string res" where
  "ild_enum mi =
     rbind (map_short_name mi) (\<lambda>s.
       let s = (if mspace mi = ''XOP'' then ''_XOP'' @ s else s)
       in Inr (''XED_ILD_MAP'' @ s))"

section \<open>Numbering the maps that have no id\<close>

text \<open>\<open>max\<close> of the numeric ids of each space, in the order the spaces are met.\<close>

definition space_max :: "map_info list \<Rightarrow> (string, int) dict res" where
  "space_max maps =
     foldM (\<lambda>mi mx. if map_id_fixup mi then Inr mx
                     else case map_id mi of
                       MapNum i \<Rightarrow> Inr (dset (mspace mi)
                         (case map_of mx (mspace mi) of None \<Rightarrow> i | Some m \<Rightarrow> max m i) mx)
                     | MapWord w \<Rightarrow> Inl TypeError) maps []"

fun fix_maps :: "map_info list \<Rightarrow> (string, int) dict \<Rightarrow> map_info list res" where
  "fix_maps [] mx = Inr []"
| "fix_maps (mi # mis) mx =
     (if map_id_fixup mi
      then rbind (dget mx (mspace mi)) (\<lambda>m.
             let maxval = m + 1 in
             rbind (fix_maps mis (dset (mspace mi) maxval mx)) (\<lambda>r.
               Inr (mi\<lparr>map_id := MapNum maxval, map_id_fixup := False\<rparr> # r)))
      else rbind (fix_maps mis mx) (\<lambda>r. Inr (mi # r)))"

definition fix_nonnumeric_maps :: "map_info list \<Rightarrow> map_info list res" where
  "fix_nonnumeric_maps maps = rbind (space_max maps) (fix_maps maps)"

definition read_map_lines :: "string list \<Rightarrow> map_info list res" where
  "read_map_lines lines =
     rbind (mapM parse_map_line (filter blank_line (map no_comments lines))) (\<lambda>maps.
     rbind (fix_nonnumeric_maps maps) (\<lambda>maps. Inr (sort_key priority maps)))"

section \<open>Words without special characters\<close>

definition plain_char :: "char \<Rightarrow> bool" where
  "plain_char c \<longleftrightarrow> \<not> shlex_blank c \<and> \<not> shlex_quote_char c \<and> c \<noteq> backslash"

definition plain_word :: "string \<Rightarrow> bool" where
  "plain_word w \<longleftrightarrow> w \<noteq> [] \<and> list_all plain_char w"

lemma shlex_plain:
  "list_all plain_char w \<Longrightarrow>
     shlex_loop ShWord token q acc (w @ s) = shlex_loop ShWord (token @ w) q acc s"
  by (induction w arbitrary: token) (auto simp: plain_char_def)

lemma shlex_plain_start:
  assumes "plain_word w"
  shows "shlex_loop ShSpace token q acc (w @ s) = shlex_loop ShWord w False acc s"
proof -
  from assms obtain c v where w: "w = c # v" "plain_char c" "list_all plain_char v"
    by (cases w) (auto simp: plain_word_def)
  then show ?thesis by (simp add: plain_char_def shlex_plain)
qed

lemma shlex_quoted:
  "list_all (\<lambda>c. c \<noteq> CHR 0x27) w \<Longrightarrow>
     shlex_loop (ShQuote (CHR 0x27)) token q acc (w @ CHR 0x27 # s) =
       shlex_loop ShWord (token @ w) True acc s"
  by (induction w arbitrary: token q) auto

text \<open>A word is written as it is when plain, and between single quotes otherwise.\<close>

definition shlex_write :: "string \<Rightarrow> string" where
  "shlex_write w = (if plain_word w then w else CHR 0x27 # w @ [CHR 0x27])"

definition quotable :: "string \<Rightarrow> bool" where
  "quotable w \<longleftrightarrow> list_all (\<lambda>c. c \<noteq> CHR 0x27) w"

lemma shlex_write_start:
  assumes "quotable w"
  shows "\<exists>q'. (w \<noteq> [] \<or> q') \<and>
    shlex_loop ShSpace token q acc (shlex_write w @ s) = shlex_loop ShWord w q' acc s"
proof (cases "plain_word w")
  case True
  then show ?thesis
    by (intro exI [of _ False]) (simp add: shlex_write_def shlex_plain_start plain_word_def)
next
  case False
  have "shlex_loop ShSpace token q acc (CHR 0x27 # w @ CHR 0x27 # s) =
      shlex_loop (ShQuote (CHR 0x27)) [] False acc (w @ CHR 0x27 # s)"
    by (simp add: shlex_blank_def shlex_quote_char_def backslash_def)
  with False assms shlex_quoted [of w "[]" False acc s] show ?thesis
    by (intro exI [of _ True]) (simp add: shlex_write_def quotable_def)
qed

lemma shlex_words:
  "list_all quotable ws \<Longrightarrow>
     shlex_loop ShSpace token q acc (join '' '' (map shlex_write ws)) = Inr (acc @ ws)"
proof (induction ws arbitrary: token q acc)
  case Nil
  then show ?case by simp
next
  case (Cons w ws)
  have qw: "quotable w" using Cons.prems by simp
  show ?case
  proof (cases ws)
    case Nil
    then show ?thesis using shlex_write_start [OF qw, of token q acc "[]"] by auto
  next
    case (Cons v vs)
    let ?rest = "join '' '' (map shlex_write ws)"
    obtain q' where q': "w \<noteq> [] \<or> q'"
      "shlex_loop ShSpace token q acc (shlex_write w @ CHR '' '' # ?rest) =
         shlex_loop ShWord w q' acc (CHR '' '' # ?rest)"
      using shlex_write_start [OF qw] by blast
    have "join '' '' (map shlex_write (w # ws)) = shlex_write w @ CHR '' '' # ?rest"
      by (simp add: Cons)
    moreover have "shlex_loop ShWord w q' acc (CHR '' '' # ?rest) =
        shlex_loop ShSpace [] False (acc @ [w]) ?rest"
      using q'(1) by (simp add: shlex_blank_def)
    ultimately show ?thesis
      using q'(2) Cons.IH [of "[]" False "acc @ [w]"] Cons.prems by simp
  qed
qed

section \<open>What a parsed line satisfies\<close>

definition map_info_ok :: "map_info \<Rightarrow> bool" where
  "map_info_ok mi \<longleftrightarrow>
     mspace mi \<in> set (dkeys space_ids) \<and>
     disp mi \<in> {''var'', ''no''} \<and> modrm mi \<in> {''var'', ''yes'', ''no''} \<and>
     imm mi \<in> {''var'', ''0'', ''1'', ''2'', ''4''} \<and>
     (map_id_fixup mi \<longleftrightarrow> (\<exists>w. map_id mi = MapWord w)) \<and>
     (map_id_fixup mi \<longrightarrow> is_legacy mi) \<and>
     (\<not> is_legacy mi \<longrightarrow> legacy_escape mi = ''N/A'' \<and> legacy_opcode mi = ''N/A'') \<and>
     CHR ''-'' \<notin> set (map_name mi) \<and>
     priority mi = 100 - int (length (search_pattern mi))"

lemma check_space_fields_Inr:
  assumes "check_space_fields sp esc opc mid = Inr (idv, fixup)"
  shows "sp \<in> set (dkeys space_ids)" and "fixup \<longleftrightarrow> (\<exists>w. idv = MapWord w)"
    and "fixup \<longrightarrow> sp = ''legacy''"
    and "sp \<noteq> ''legacy'' \<longrightarrow> esc = ''N/A'' \<and> opc = ''N/A''"
  using assms
  by (auto simp: check_space_fields_def space_ids_def rbind_eq_Inr split: if_splits)

lemma dash_to_underscore_no_dash: "CHR ''-'' \<notin> set (dash_to_underscore s)"
  by (auto simp: dash_to_underscore_def)

lemma parse_map_fields_Inr:
  assumes "parse_map_fields name sp esc opc mid mo di im pos pat = Inr mi"
  obtains ei oi idv fixup p where
    "check_space_fields sp esc opc mid = Inr (idv, fixup)"
    "di \<in> {''var'', ''no''}" "mo \<in> {''var'', ''yes'', ''no''}"
    "im \<in> {''var'', ''0'', ''1'', ''2'', ''4''}"
    "mi = \<lparr>map_name = dash_to_underscore name, mspace = sp, legacy_escape = esc,
         legacy_opcode = opc, map_id = idv, modrm = mo, disp = di, imm = im, opcpos = p,
         search_pattern = pat, legacy_escape_int = ei, legacy_opcode_int = oi,
         map_id_fixup = fixup, priority = 100 - int (length pat)\<rparr>"
  using assms
  unfolding parse_map_fields_def
  by (auto simp: rbind_eq_Inr simp del: insert_iff split: if_splits)

lemma parse_map_fields_ok:
  assumes "parse_map_fields name sp esc opc mid mo di im pos pat = Inr mi"
  shows "map_info_ok mi"
  using assms
proof (rule parse_map_fields_Inr)
  fix ei oi idv fixup p
  assume c: "check_space_fields sp esc opc mid = Inr (idv, fixup)"
  assume "di \<in> {''var'', ''no''}" "mo \<in> {''var'', ''yes'', ''no''}"
    "im \<in> {''var'', ''0'', ''1'', ''2'', ''4''}"
    "mi = \<lparr>map_name = dash_to_underscore name, mspace = sp, legacy_escape = esc,
         legacy_opcode = opc, map_id = idv, modrm = mo, disp = di, imm = im, opcpos = p,
         search_pattern = pat, legacy_escape_int = ei, legacy_opcode_int = oi,
         map_id_fixup = fixup, priority = 100 - int (length pat)\<rparr>"
  then show ?thesis
    unfolding map_info_ok_def is_legacy_def
    using check_space_fields_Inr [OF c] by (simp add: dash_to_underscore_no_dash)
qed

lemma parse_map_line_ok: "parse_map_line s = Inr mi \<Longrightarrow> map_info_ok mi"
  by (auto simp: parse_map_line_def rbind_eq_Inr intro: parse_map_fields_ok split: if_splits)

section \<open>What the numbering assigns\<close>

definition needs_id :: "string \<Rightarrow> map_info \<Rightarrow> bool" where
  "needs_id sp mi \<longleftrightarrow> map_id_fixup mi \<and> mspace mi = sp"

definition with_id :: "int \<Rightarrow> map_info \<Rightarrow> map_info" where
  "with_id i mi = mi\<lparr>map_id := MapNum i, map_id_fixup := False\<rparr>"

text \<open>The id of the map at a position: the maximum of its space and the count of those before it.\<close>

definition assigned_id :: "(string, int) dict \<Rightarrow> map_info list \<Rightarrow> nat \<Rightarrow> int" where
  "assigned_id mx maps i =
     the (map_of mx (mspace (maps ! i))) + 1 +
     int (length (filter (needs_id (mspace (maps ! i))) (take i maps)))"

lemma fix_maps_spec:
  assumes "fix_maps maps mx = Inr r"
  shows "length r = length maps \<and> (\<forall>i < length maps.
    r ! i = (if map_id_fixup (maps ! i) then with_id (assigned_id mx maps i) (maps ! i) else maps ! i))"
  using assms
proof (induction maps arbitrary: mx r)
  case Nil
  then show ?case by simp
next
  case (Cons mi mis)
  show ?case
  proof (cases "map_id_fixup mi")
    case False
    then obtain r' where r: "fix_maps mis mx = Inr r'" "r = mi # r'"
      using Cons.prems by (auto simp: rbind_eq_Inr)
    have "assigned_id mx (mi # mis) (Suc i) = assigned_id mx mis i" if "i < length mis" for i
      using False by (simp add: assigned_id_def needs_id_def)
    then show ?thesis using Cons.IH [OF r(1)] r(2) False by (auto simp: nth_Cons split: nat.splits)
  next
    case True
    then obtain m r' where m: "map_of mx (mspace mi) = Some m"
      and r': "fix_maps mis (dset (mspace mi) (m + 1) mx) = Inr r'"
      and r: "r = with_id (m + 1) mi # r'"
      using Cons.prems by (auto simp: rbind_eq_Inr Let_def with_id_def)
    have "assigned_id mx (mi # mis) (Suc i) = assigned_id (dset (mspace mi) (m + 1) mx) mis i"
      if "i < length mis" for i
      using True m by (simp add: assigned_id_def needs_id_def)
    moreover have "assigned_id mx (mi # mis) 0 = m + 1" by (simp add: assigned_id_def m)
    ultimately show ?thesis
      using Cons.IH [OF r'] r True by (auto simp: nth_Cons split: nat.splits)
  qed
qed

lemma space_max_bound:
  assumes "space_max maps = Inr mx"
    and "mi \<in> set maps" "\<not> map_id_fixup mi" "map_id mi = MapNum k"
  shows "\<exists>m. map_of mx (mspace mi) = Some m \<and> k \<le> m"
proof -
  let ?f = "\<lambda>mi mx. if map_id_fixup mi then Inr mx
                     else case map_id mi of
                       MapNum i \<Rightarrow> Inr (dset (mspace mi)
                         (case map_of mx (mspace mi) of None \<Rightarrow> i | Some m \<Rightarrow> max m i) mx)
                     | MapWord w \<Rightarrow> Inl TypeError"
  obtain as bs where maps: "maps = as @ mi # bs" using assms(2) by (meson split_list)
  obtain mx0 where pre: "foldM ?f as [] = Inr mx0" and post: "foldM ?f (mi # bs) mx0 = Inr mx"
    using assms(1) by (auto simp: space_max_def maps foldM_append rbind_eq_Inr)
  let ?I = "\<lambda>mx. \<exists>m. map_of mx (mspace mi) = Some m \<and> k \<le> m"
  from post obtain mx1 where one: "?f mi mx0 = Inr mx1" and rest: "foldM ?f bs mx1 = Inr mx"
    by (auto simp: rbind_eq_Inr)
  have "?I mx1" using one assms(3,4) by (auto split: option.splits)
  show ?thesis
  proof (rule foldM_invariant [OF rest, of ?I])
    show "?I mx1" by fact
    fix x s t
    assume "x \<in> set bs" "?I s" "?f x s = Inr t"
    then show "?I t" by (auto split: if_splits map_id_value.splits option.splits)
  qed
qed

section \<open>Feature tables\<close>

datatype field = FModrm | FDisp | FImm

definition field_value :: "field \<Rightarrow> map_info \<Rightarrow> string" where
  "field_value f mi = (case f of FModrm \<Rightarrow> modrm mi | FDisp \<Rightarrow> disp mi | FImm \<Rightarrow> imm mi)"

definition cvt_yes_no_var :: "(string, int) dict" where
  "cvt_yes_no_var = [(''yes'', 1), (''no'', 0), (''var'', 2)]"

definition cvt_imm :: "(string, int) dict" where
  "cvt_imm = [(''0'', 0), (''1'', 1), (''2'', 2), (''4'', 4), (''var'', 7)]"

definition field_cvt :: "field \<Rightarrow> (string, int) dict" where
  "field_cvt f = (case f of FModrm \<Rightarrow> cvt_yes_no_var | FDisp \<Rightarrow> cvt_yes_no_var | FImm \<Rightarrow> cvt_imm)"

definition field_bits :: "field \<Rightarrow> nat" where
  "field_bits f = (case f of FModrm \<Rightarrow> 2 | FDisp \<Rightarrow> 2 | FImm \<Rightarrow> 4)"

text \<open>\<open>collect_codes\<close>: the codes of the maps of one space, indexed by map id, zero where there is none.\<close>

definition collect_step :: "field \<Rightarrow> map_info \<Rightarrow> (int, int) dict \<Rightarrow> (int, int) dict res" where
  "collect_step f mi d =
     (case map_id mi of
        MapNum i \<Rightarrow> rbind (dget (field_cvt f) (field_value f mi)) (\<lambda>c. Inr (dset i c d))
      | MapWord w \<Rightarrow> Inl TypeError)"

definition collect_codes :: "nat \<Rightarrow> field \<Rightarrow> map_info list \<Rightarrow> int list res" where
  "collect_codes max_map_id f space_maps =
     rbind (foldM (collect_step f) space_maps (map (\<lambda>i. (int i, 0)) [0..<max_map_id + 1]))
       (\<lambda>codes. mapM (\<lambda>i. dget codes (int i)) [0..<max_map_id + 1])"

text \<open>\<open>convert_list_to_integer\<close>: the chunks, and one of them left alone.\<close>

fun convert_loop :: "nat \<Rightarrow> int list \<Rightarrow> int list \<Rightarrow> int \<Rightarrow> nat \<Rightarrow> int list" where
  "convert_loop bpf [] integers tot shift = integers @ [tot]"
| "convert_loop bpf (v # vs) integers tot shift =
     (if 64 \<le> shift then convert_loop bpf vs (integers @ [tot]) v bpf
      else convert_loop bpf vs integers (tot + push_bit shift v) (shift + bpf))"

datatype table_constant = OneInt int | IntList "int list"

definition convert_list_to_integer :: "int list \<Rightarrow> nat \<Rightarrow> table_constant" where
  "convert_list_to_integer lst bpf =
     (let integers = convert_loop bpf lst [] 0 0
      in if length integers = 1 then OneInt (hd integers) else IntList integers)"

text \<open>
  The body of \<open>xed_ild_has_<field>_<space>\<close>.  Formatting a list with \<open>{:x}\<close>, or iterating over an
  integer, raises \<open>TypeError\<close>.
\<close>

datatype map_function =
    AllZero
  | OneConst int nat int
  | ConstArray nat "int list" nat nat nat int

definition required_chunks :: "nat \<Rightarrow> nat \<Rightarrow> nat" where
  "required_chunks max_map_id bpf = (max_map_id * bpf + 63) div 64"

definition values_per_chunk :: "nat \<Rightarrow> nat" where
  "values_per_chunk bpf = 64 div bpf"

definition emit_space_function :: "nat \<Rightarrow> field \<Rightarrow> map_info list \<Rightarrow> map_function res" where
  "emit_space_function max_map_id f space_maps =
     (let bpf = field_bits f; chunks = required_chunks max_map_id bpf; msk = push_bit bpf 1 - 1
      in rbind (if space_maps = [] then Inr [0] else collect_codes max_map_id f space_maps) (\<lambda>codes.
         let constant = (if space_maps = [] then OneInt 0 else convert_list_to_integer codes bpf)
         in if list_all (\<lambda>c. c = 0) codes then Inr AllZero
            else if chunks \<le> 1
              then (case constant of OneInt c \<Rightarrow> Inr (OneConst c bpf msk) | IntList cs \<Rightarrow> Inl TypeError)
            else (case constant of
                    OneInt c \<Rightarrow> Inl TypeError
                  | IntList cs \<Rightarrow> Inr (ConstArray chunks cs (ilog2 (values_per_chunk bpf))
                                     (values_per_chunk bpf) bpf msk))))"

text \<open>
  What the C function computes for map \<open>m\<close>: 64-bit words, and no value where C has none (a shift
  of 64 or more, an array with more initialisers than elements, an index outside the array).
\<close>

fun eval_map_function :: "map_function \<Rightarrow> nat \<Rightarrow> int option" where
  "eval_map_function AllZero m = Some 0"
| "eval_map_function (OneConst c bpf msk) m =
     (if bpf * m < 64 then Some (drop_bit (bpf * m) (take_bit 64 c) AND msk) else None)"
| "eval_map_function (ConstArray n cs lg vpc bpf msk) m =
     (let chunkno = drop_bit lg m; offset = m AND (vpc - 1)
      in if length cs \<le> n \<and> chunkno < n \<and> bpf * offset < 64
         then Some (drop_bit (bpf * offset) (take_bit 64 (if chunkno < length cs then cs ! chunkno else 0)) AND msk)
         else None)"

section \<open>Packing fields into words\<close>

fun pack_fields :: "nat \<Rightarrow> int list \<Rightarrow> int" where
  "pack_fields bpf [] = 0"
| "pack_fields bpf (v # vs) = v + 2 ^ bpf * pack_fields bpf vs"

definition fields_fit :: "nat \<Rightarrow> int list \<Rightarrow> bool" where
  "fields_fit bpf vs \<longleftrightarrow> list_all (\<lambda>v. 0 \<le> v \<and> v < 2 ^ bpf) vs"

lemma pack_fields_bounds:
  "fields_fit bpf vs \<Longrightarrow> 0 \<le> pack_fields bpf vs \<and> pack_fields bpf vs < 2 ^ (bpf * length vs)"
proof (induction vs)
  case Nil
  then show ?case by simp
next
  case (Cons v vs)
  then have v: "0 \<le> v" "v < 2 ^ bpf" and IH: "0 \<le> pack_fields bpf vs"
    "pack_fields bpf vs < 2 ^ (bpf * length vs)" by (simp_all add: fields_fit_def)
  have "2 ^ bpf * (pack_fields bpf vs + 1) \<le> 2 ^ bpf * 2 ^ (bpf * length vs)"
    using IH by (intro mult_left_mono) auto
  then show ?case using v IH by (simp add: power_add distrib_left)
qed

lemma pack_fields_nth:
  "fields_fit bpf vs \<Longrightarrow> i < length vs \<Longrightarrow>
     take_bit bpf (drop_bit (bpf * i) (pack_fields bpf vs)) = vs ! i"
proof (induction vs arbitrary: i)
  case Nil
  then show ?case by simp
next
  case (Cons v vs)
  then have v: "0 \<le> v" "v < 2 ^ bpf" "fields_fit bpf vs" by (simp_all add: fields_fit_def)
  show ?case
  proof (cases i)
    case 0
    with v show ?thesis by (simp add: take_bit_eq_mod)
  next
    case (Suc j)
    have "drop_bit bpf (v + 2 ^ bpf * pack_fields bpf vs) = pack_fields bpf vs"
      using v by (simp add: drop_bit_eq_div)
    moreover have "drop_bit (bpf * i) x = drop_bit (bpf * j) (drop_bit bpf x)" for x :: int
      by (simp add: Suc drop_bit_drop_bit add.commute)
    ultimately have "drop_bit (bpf * i) (pack_fields bpf (v # vs)) = drop_bit (bpf * j) (pack_fields bpf vs)"
      by (simp only: pack_fields.simps)
    with Cons.IH [OF v(3), of j] Cons.prems(2) show ?thesis by (simp add: Suc)
  qed
qed

lemma pack_fields_snoc:
  "pack_fields bpf (vs @ [v]) = pack_fields bpf vs + 2 ^ (bpf * length vs) * v"
  by (induction vs) (simp_all add: power_add algebra_simps)

text \<open>The chunks: the groups of \<open>k\<close> fields, packed.\<close>

function chunks :: "nat \<Rightarrow> nat \<Rightarrow> int list \<Rightarrow> int list" where
  "chunks bpf k vs =
     (if k = 0 \<or> length vs \<le> k then [pack_fields bpf vs]
      else pack_fields bpf (take k vs) # chunks bpf k (drop k vs))"
  by pat_completeness auto
termination by (relation "measure (\<lambda>(bpf, k, vs). length vs)") auto

declare chunks.simps [simp del]

lemma convert_loop_chunks:
  assumes "bpf * k = 64" and "length us \<le> k"
  shows "convert_loop bpf vs integers (pack_fields bpf us) (bpf * length us) =
           integers @ chunks bpf k (us @ vs)"
  using assms(2)
proof (induction vs arbitrary: integers us)
  case Nil
  then show ?case by (simp add: chunks.simps [of bpf k us])
next
  case (Cons v vs)
  have pos: "0 < bpf" "0 < k" using assms(1) by (cases bpf; cases k; simp)+
  show ?case
  proof (cases "length us = k")
    case True
    have "convert_loop bpf (v # vs) integers (pack_fields bpf us) (bpf * length us) =
        convert_loop bpf vs (integers @ [pack_fields bpf us]) (pack_fields bpf [v]) (bpf * length [v])"
      using True assms(1) by simp
    also have "\<dots> = (integers @ [pack_fields bpf us]) @ chunks bpf k ([v] @ vs)"
      using pos by (intro Cons.IH) simp
    also have "\<dots> = integers @ chunks bpf k (us @ v # vs)"
      using True pos by (simp add: chunks.simps [of bpf k "us @ v # vs"])
    finally show ?thesis .
  next
    case False
    then have lt: "length us < k" using Cons.prems by simp
    then have "bpf * length us < 64" using pos assms(1) by (metis mult_less_cancel1)
    then have "convert_loop bpf (v # vs) integers (pack_fields bpf us) (bpf * length us) =
        convert_loop bpf vs integers (pack_fields bpf (us @ [v])) (bpf * length (us @ [v]))"
      by (simp add: pack_fields_snoc push_bit_eq_mult mult.commute add.commute)
    also have "\<dots> = integers @ chunks bpf k ((us @ [v]) @ vs)"
      using lt by (intro Cons.IH) simp
    finally show ?thesis by simp
  qed
qed

lemma convert_loop_eq: "bpf * k = 64 \<Longrightarrow> convert_loop bpf vs [] 0 0 = chunks bpf k vs"
  using convert_loop_chunks [of bpf k "[]" vs "[]"] by simp

lemma length_chunks: "0 < k \<Longrightarrow> length (chunks bpf k vs) = (length vs - 1) div k + 1"
proof (induction bpf k vs rule: chunks.induct)
  case (1 bpf k vs)
  show ?case
  proof (cases "length vs \<le> k")
    case True
    with 1(2) have "(length vs - 1) div k = 0" by (intro div_less) auto
    with True show ?thesis by (simp add: chunks.simps [of bpf k vs])
  next
    case False
    with 1(2) have "(length vs - 1) div k = (length vs - k - 1) div k + 1"
      using le_div_geq [of k "length vs - 1"] by (simp add: diff_commute)
    moreover have "length (chunks bpf k vs) = length (chunks bpf k (drop k vs)) + 1"
      using False 1(2) by (simp add: chunks.simps [of bpf k vs])
    ultimately show ?thesis using 1 False by simp
  qed
qed

lemma nth_chunks:
  "0 < k \<Longrightarrow> j * k < length vs \<or> j = 0 \<Longrightarrow>
     chunks bpf k vs ! j = pack_fields bpf (take k (drop (j * k) vs))"
proof (induction bpf k vs arbitrary: j rule: chunks.induct)
  case (1 bpf k vs)
  show ?case
  proof (cases "length vs \<le> k")
    case True
    then have "j = 0" using 1(2,3) by (cases j) auto
    with True show ?thesis by (simp add: chunks.simps [of bpf k vs])
  next
    case False
    then have c: "chunks bpf k vs = pack_fields bpf (take k vs) # chunks bpf k (drop k vs)"
      using 1(2) by (simp add: chunks.simps [of bpf k vs])
    show ?thesis
    proof (cases j)
      case 0
      then show ?thesis by (simp add: c)
    next
      case (Suc i)
      then have "i * k < length (drop k vs) \<or> i = 0" using 1(3) by auto
      moreover have "\<not> (k = 0 \<or> length vs \<le> k)" using False 1(2) by simp
      ultimately show ?thesis
        using 1(1) [of i] 1(2) by (simp add: c Suc add.commute)
    qed
  qed
qed

lemma chunk_field:
  assumes "bpf * k = 64" and "fields_fit bpf vs" and "m < length vs"
  shows "take_bit bpf (drop_bit (bpf * (m mod k)) (take_bit 64 (chunks bpf k vs ! (m div k)))) = vs ! m"
proof -
  have k: "0 < k" using assms(1) by (cases k) auto
  let ?ws = "take k (drop ((m div k) * k) vs)"
  have le: "(m div k) * k \<le> m" by simp
  then have "(m div k) * k < length vs" using assms(3) by (rule le_less_trans)
  with k have c: "chunks bpf k vs ! (m div k) = pack_fields bpf ?ws"
    by (intro nth_chunks disjI1)
  have fit: "fields_fit bpf ?ws"
    using assms(2) by (auto simp: fields_fit_def list_all_iff dest!: in_set_takeD in_set_dropD)
  have "bpf * length ?ws \<le> 64" using assms(1) by (metis length_take min.cobounded2 mult_le_mono2)
  then have "(2::int) ^ (bpf * length ?ws) \<le> 2 ^ 64" by (intro power_increasing) auto
  with pack_fields_bounds [OF fit] have "0 \<le> pack_fields bpf ?ws" "pack_fields bpf ?ws < 2 ^ 64"
    by linarith+
  then have t: "take_bit 64 (pack_fields bpf ?ws) = pack_fields bpf ?ws"
    by (simp add: take_bit_int_eq_self)
  have lt: "m mod k < length ?ws"
    using assms(3) k by (simp add: less_diff_conv add.commute)
  have "?ws ! (m mod k) = vs ! m"
    using lt assms(3) le k by (simp add: mult.commute)
  with pack_fields_nth [OF fit lt] show ?thesis by (simp only: c t)
qed

section \<open>What the emitted functions return\<close>

text \<open>The code of a map id: that of the last map of the space with this id, zero when there is none.\<close>

definition code_of :: "field \<Rightarrow> map_info list \<Rightarrow> int \<Rightarrow> int" where
  "code_of f maps i =
     (case find (\<lambda>mi. map_id mi = MapNum i) (rev maps) of
        None \<Rightarrow> 0
      | Some mi \<Rightarrow> dget_default (field_cvt f) (field_value f mi) 0)"

lemma field_cvt_fits:
  "map_of (field_cvt f) s = Some c \<Longrightarrow> 0 \<le> c \<and> c < 2 ^ field_bits f"
  by (cases f) (auto simp: field_cvt_def field_bits_def cvt_yes_no_var_def cvt_imm_def split: if_splits)

lemma collect_step_Inr:
  "collect_step f mi d = Inr d' \<longleftrightarrow>
     (\<exists>j c. map_id mi = MapNum j \<and> map_of (field_cvt f) (field_value f mi) = Some c \<and> d' = dset j c d)"
  by (auto simp: collect_step_def rbind_eq_Inr split: map_id_value.splits)

lemma collect_fold:
  assumes "foldM (collect_step f) maps d0 = Inr d"
  shows "map_of d i = (if find (\<lambda>mi. map_id mi = MapNum i) (rev maps) = None then map_of d0 i
                       else Some (code_of f maps i))"
  using assms
proof (induction maps arbitrary: d rule: rev_induct)
  case Nil
  then show ?case by simp
next
  case (snoc mi maps)
  then obtain d1 j c where d1: "foldM (collect_step f) maps d0 = Inr d1"
    and j: "map_id mi = MapNum j" and c: "map_of (field_cvt f) (field_value f mi) = Some c"
    and d: "d = dset j c d1"
    by (auto simp: foldM_append rbind_eq_Inr collect_step_Inr)
  show ?case
    using snoc.IH [OF d1] by (auto simp: d j c code_of_def dget_default_def)
qed

lemma collect_codes_spec:
  assumes "collect_codes mx f maps = Inr codes"
  shows "codes = map (\<lambda>i. code_of f maps (int i)) [0..<mx + 1]"
proof -
  let ?z = "map (\<lambda>i. (int i, 0::int)) [0..<mx + 1]"
  from assms obtain d where d: "foldM (collect_step f) maps ?z = Inr d"
    and m: "mapM (\<lambda>i. dget d (int i)) [0..<mx + 1] = Inr codes"
    by (auto simp: collect_codes_def rbind_eq_Inr)
  have z: "map_of ?z (int i) = Some 0" if "i < mx + 1" for i
  proof -
    have "distinct (map fst ?z)" by (simp add: distinct_map inj_on_def o_def del: upt_Suc)
    then show ?thesis using that by (intro map_of_is_SomeI) auto
  qed
  have len: "length codes = mx + 1" using mapM_Inr_length [OF m] by simp
  show ?thesis
  proof (rule nth_equalityI)
    show "length codes = length (map (\<lambda>i. code_of f maps (int i)) [0..<mx + 1])" by (simp add: len)
    fix i assume "i < length codes"
    then have i: "i < mx + 1" using len by simp
    then have "map_of d (int i) = Some (codes ! i)"
      using mapM_Inr_nth [OF m, of i] by (simp del: upt_Suc)
    then have "codes ! i = code_of f maps (int i)"
      using collect_fold [OF d, of "int i"] z [OF i] by (auto simp: code_of_def split: if_splits)
    then show "codes ! i = map (\<lambda>i. code_of f maps (int i)) [0..<mx + 1] ! i"
      using i by (simp del: upt_Suc)
  qed
qed

lemma code_of_fits: "0 \<le> code_of f maps i \<and> code_of f maps i < 2 ^ field_bits f"
  using field_cvt_fits [of f] by (auto simp: code_of_def dget_default_def split: option.splits)

lemma collect_codes_fit: "collect_codes mx f maps = Inr codes \<Longrightarrow> fields_fit (field_bits f) codes"
  by (auto simp: fields_fit_def list_all_iff code_of_fits dest!: collect_codes_spec)

lemma codes_nth:
  "collect_codes mx f maps = Inr codes \<Longrightarrow> m \<le> mx \<Longrightarrow> codes ! m = code_of f maps (int m)"
  using collect_codes_spec [of mx f maps codes] by (simp del: upt_Suc)

definition fields_per_chunk :: "field \<Rightarrow> nat" where
  "fields_per_chunk f = 64 div field_bits f"

lemma fields_per_chunk: "field_bits f * fields_per_chunk f = 64"
  by (cases f) (simp_all add: fields_per_chunk_def field_bits_def)

lemma chunk_index:
  "drop_bit (ilog2 (values_per_chunk (field_bits f))) m = m div fields_per_chunk f"
  "m AND (values_per_chunk (field_bits f) - 1) = m mod fields_per_chunk f"
proof -
  have p: "values_per_chunk (field_bits f) = 2 ^ (case f of FImm \<Rightarrow> 4 | _ \<Rightarrow> 5)"
    and q: "fields_per_chunk f = 2 ^ (case f of FImm \<Rightarrow> 4 | _ \<Rightarrow> 5)"
    by (cases f; simp add: values_per_chunk_def fields_per_chunk_def field_bits_def)+
  show "drop_bit (ilog2 (values_per_chunk (field_bits f))) m = m div fields_per_chunk f"
    unfolding p q by (simp add: drop_bit_eq_div)
  show "m AND (values_per_chunk (field_bits f) - 1) = m mod fields_per_chunk f"
    unfolding p q
    by (simp only: mask_eq_exp_minus_1 [symmetric] take_bit_eq_mask [symmetric] take_bit_eq_mod)
qed

lemma and_field_mask: "x AND (2 ^ b - 1) = take_bit b (x :: int)"
  by (simp only: mask_eq_exp_minus_1 [symmetric] take_bit_eq_mask)

text \<open>
  The number of 64-bit words declared and the number computed agree unless the last id falls on a
  word boundary.
\<close>

lemma round_up_chunks:
  assumes "b * k = 64" and "(mx::nat) mod k \<noteq> 0"
  shows "(mx * b + 63) div 64 = mx div k + 1"
proof -
  let ?q = "mx div k" and ?r = "mx mod k"
  have b: "0 < b" "0 < k" using assms(1) by (cases b; cases k; simp)+
  have "?r + 1 \<le> k" using b by (simp add: Suc_leI)
  then have "b * (?r + 1) \<le> b * k" by (rule mult_le_mono2)
  moreover have "b * 1 \<le> b * ?r" using assms(2) by (intro mult_le_mono2) simp
  moreover have "mx * b = (b * k) * ?q + b * ?r"
    by (metis mult.assoc mult.commute distrib_left div_mult_mod_eq)
  ultimately have "64 * (?q + 1) \<le> mx * b + 63" "mx * b + 63 < 64 * (?q + 2)"
    using b assms(1) by (simp_all add: distrib_left)
  then show ?thesis by (intro div_nat_eqI) (simp_all add: mult.commute)
qed

lemma chunk_count:
  assumes "mx = 0 \<or> mx mod fields_per_chunk f \<noteq> 0" and "length codes = mx + 1"
  shows "length (chunks (field_bits f) (fields_per_chunk f) codes) = max 1 (required_chunks mx (field_bits f))"
proof -
  have "0 < fields_per_chunk f" by (cases f) (simp_all add: fields_per_chunk_def field_bits_def)
  then have "length (chunks (field_bits f) (fields_per_chunk f) codes) = mx div fields_per_chunk f + 1"
    using assms(2) by (simp add: length_chunks)
  also have "\<dots> = max 1 (required_chunks mx (field_bits f))"
    using assms(1) round_up_chunks [OF fields_per_chunk [of f], of mx]
    by (auto simp: required_chunks_def)
  finally show ?thesis .
qed

lemma emit_space_function_lookup:
  assumes codes: "collect_codes mx f maps = Inr codes" and ne: "maps \<noteq> []"
    and bnd: "mx = 0 \<or> mx mod fields_per_chunk f \<noteq> 0" and m: "m \<le> mx"
  shows "\<exists>fn. emit_space_function mx f maps = Inr fn \<and> eval_map_function fn m = Some (code_of f maps (int m))"
proof -
  let ?b = "field_bits f" and ?k = "fields_per_chunk f"
  let ?cs = "chunks ?b ?k codes"
  have len: "length codes = mx + 1" using collect_codes_spec [OF codes] by simp
  note fit = collect_codes_fit [OF codes]
  have nth: "codes ! m = code_of f maps (int m)" by (rule codes_nth [OF codes m])
  have field: "take_bit ?b (drop_bit (?b * (m mod ?k)) (take_bit 64 (?cs ! (m div ?k)))) = codes ! m"
    using m len by (intro chunk_field [OF fields_per_chunk fit]) simp
  have cl: "convert_loop ?b codes [] 0 0 = ?cs" by (rule convert_loop_eq [OF fields_per_chunk])
  note cnt = chunk_count [OF bnd len]
  have k0: "0 < ?k" "0 < ?b" by (cases f; simp add: fields_per_chunk_def field_bits_def)+
  have off: "?b * (m mod ?k) < 64" using k0 fields_per_chunk [of f] by (metis mod_less_divisor mult_less_cancel1)
  show ?thesis
  proof (cases "list_all (\<lambda>c. c = 0) codes")
    case True
    then have "codes ! m = 0" using m len by (simp add: list_all_length)
    with True codes ne nth show ?thesis by (auto simp: emit_space_function_def Let_def)
  next
    case False
    show ?thesis
    proof (cases "required_chunks mx ?b \<le> 1")
      case True
      then have one: "length ?cs = 1" using cnt by simp
      then have "mx div ?k = 0" using len k0 by (simp add: length_chunks)
      with k0 m have "m < ?k" by (auto simp: div_eq_0_iff)
      then have m0: "m mod ?k = m" "m div ?k = 0" by simp_all
      have "emit_space_function mx f maps = Inr (OneConst (hd ?cs) ?b (push_bit ?b 1 - 1))"
        using True False codes ne one
        by (simp add: emit_space_function_def Let_def convert_list_to_integer_def cl)
      moreover have "hd ?cs = ?cs ! 0" using one by (cases ?cs) auto
      ultimately show ?thesis
        using off field nth m0 by (simp add: and_field_mask)
    next
      case many: False
      then have l: "length ?cs = required_chunks mx ?b" using cnt by simp
      have "m div ?k < length ?cs"
        using m len k0 div_le_mono [of m mx ?k] by (simp add: length_chunks)
      moreover have "emit_space_function mx f maps =
          Inr (ConstArray (required_chunks mx ?b) ?cs (ilog2 (values_per_chunk ?b))
            (values_per_chunk ?b) ?b (push_bit ?b 1 - 1))"
        using many False codes ne l
        by (simp add: emit_space_function_def Let_def convert_list_to_integer_def cl)
      ultimately show ?thesis
        using off field nth l
        by (simp add: and_field_mask chunk_index(1) chunk_index(2) [simplified] Let_def)
    qed
  qed
qed

text \<open>
  When the last id is a multiple of the fields in a word, the declared number of words is one
  short: \<open>max_map_id * bits_per_field\<close> counts the ids \<open>0 .. max_map_id - 1\<close> only.
\<close>

lemma emit_space_function_boundary:
  assumes codes: "collect_codes mx f maps = Inr codes" and ne: "maps \<noteq> []"
    and bnd: "mx = fields_per_chunk f" and nz: "\<exists>i \<le> mx. code_of f maps (int i) \<noteq> 0"
  shows "emit_space_function mx f maps = Inl TypeError"
proof -
  let ?b = "field_bits f" and ?k = "fields_per_chunk f"
  have len: "length codes = mx + 1" using collect_codes_spec [OF codes] by simp
  have cl: "convert_loop ?b codes [] 0 0 = chunks ?b ?k codes"
    by (rule convert_loop_eq [OF fields_per_chunk])
  have k0: "0 < ?k" by (cases f; simp add: fields_per_chunk_def field_bits_def)
  have "length (chunks ?b ?k codes) = 2" using len bnd k0 by (simp add: length_chunks)
  moreover have "required_chunks mx ?b \<le> 1"
    using fields_per_chunk [of f] bnd by (simp add: required_chunks_def mult.commute)
  moreover have "\<not> list_all (\<lambda>c. c = 0) codes"
    using nz len codes_nth [OF codes] by (force simp: list_all_length)
  ultimately show ?thesis
    using codes ne
    by (simp add: emit_space_function_def Let_def convert_list_to_integer_def cl)
qed

section \<open>The functions over all spaces and the validity of a map\<close>

definition maps_of_space :: "string \<Rightarrow> map_info list \<Rightarrow> map_info list" where
  "maps_of_space sp maps = filter (\<lambda>mi. mspace mi = sp) (sort_key map_name maps)"

text \<open>\<open>max\<close> over the ids; a description numbers its maps from 0, a negative maximum is outside the model.\<close>

definition max_map_id :: "map_info list \<Rightarrow> nat res" where
  "max_map_id maps =
     rbind (mapM (\<lambda>mi. case map_id mi of MapNum i \<Rightarrow> Inr i | MapWord w \<Rightarrow> Inl TypeError) maps) (\<lambda>is.
       if is = [] then Inl ValueError else Inr (nat (Max (set is))))"

text \<open>One row of the two-dimensional table of \<open>xed_ild_has_<field>\<close>.\<close>

definition all_spaces_row :: "nat \<Rightarrow> field \<Rightarrow> map_info list \<Rightarrow> int list res" where
  "all_spaces_row mx f space_maps =
     (let bpf = field_bits f; chunks = required_chunks mx bpf
      in rbind (if space_maps = []
                then Inr (if chunks \<le> 1 then OneInt 0 else IntList (replicate chunks 0))
                else rbind (collect_codes mx f space_maps) (\<lambda>codes.
                       Inr (convert_list_to_integer codes bpf))) (\<lambda>constant.
           if chunks \<le> 1
           then (case constant of OneInt c \<Rightarrow> Inr [c] | IntList cs \<Rightarrow> Inl TypeError)
           else (case constant of OneInt c \<Rightarrow> Inl TypeError | IntList cs \<Rightarrow> Inr cs)))"

definition emit_all_spaces :: "nat \<Rightarrow> field \<Rightarrow> map_info list \<Rightarrow> int list list res" where
  "emit_all_spaces mx f maps =
     mapM (\<lambda>sp. all_spaces_row mx f (maps_of_space sp maps)) space_id_sorted"

definition map_valid_codes :: "nat \<Rightarrow> map_info list \<Rightarrow> int list res" where
  "map_valid_codes mx space_maps =
     rbind (foldM (\<lambda>mi d. case map_id mi of MapNum i \<Rightarrow> Inr (dset i 1 d) | MapWord w \<Rightarrow> Inl TypeError)
              space_maps (map (\<lambda>i. (int i, 0)) [0..<mx + 1]))
       (\<lambda>codes. mapM (\<lambda>i. dget codes (int i)) [0..<mx + 1])"

definition emit_map_valid :: "nat \<Rightarrow> map_info list \<Rightarrow> int res" where
  "emit_map_valid mx space_maps =
     (if 64 < mx then Inl (Die ''Need to make this work with multiple chunks of u64'')
      else rbind (map_valid_codes mx space_maps) (\<lambda>codes.
        case convert_list_to_integer codes 1 of OneInt c \<Rightarrow> Inr c | IntList cs \<Rightarrow> Inl TypeError))"

lemma map_valid_boundary:
  assumes "map_valid_codes 64 space_maps = Inr codes"
  shows "emit_map_valid 64 space_maps = Inl TypeError"
proof -
  have "length codes = 65"
    using assms by (auto simp: map_valid_codes_def rbind_eq_Inr simp del: upt_Suc dest!: mapM_Inr_length)
  then have "length (convert_loop 1 codes [] 0 0) = 2"
    using convert_loop_eq [of 1 64 codes] by (simp add: length_chunks)
  then show ?thesis using assms by (simp add: emit_map_valid_def convert_list_to_integer_def)
qed

text \<open>
  The rows of \<open>xed_legacy_maps\<close>: escape, whether there is a second opcode byte, that byte, the id
  and the opcode position, the longest search pattern first, map 0 left out.
\<close>

definition legacy_key :: "map_info \<Rightarrow> int res" where
  "legacy_key mi =
     (case map_id mi of
        MapNum i \<Rightarrow> Inr (- int (length (search_pattern mi)) * 10 + i)
      | MapWord w \<Rightarrow> Inl TypeError)"

definition legacy_row :: "map_info \<Rightarrow> (string \<times> int \<times> string \<times> map_id_value \<times> int)" where
  "legacy_row mi =
     ((if legacy_escape mi \<noteq> ''N/A'' then legacy_escape mi else ''0''),
      (if legacy_opcode mi \<noteq> ''N/A'' then 1 else 0),
      (if legacy_opcode mi \<noteq> ''N/A'' then legacy_opcode mi else ''0''),
      map_id mi, opcpos mi)"

definition legacy_map_rows :: "map_info list \<Rightarrow> (string \<times> int \<times> string \<times> map_id_value \<times> int) list res" where
  "legacy_map_rows maps =
     (let legacy = maps_of_space ''legacy'' maps
      in rbind (mapM legacy_key legacy) (\<lambda>keys.
         Inr (map (\<lambda>p. legacy_row (snd p))
           (filter (\<lambda>p. map_id (snd p) \<noteq> MapNum 0) (sort_key fst (zip keys legacy))))))"

lemma map_valid_step_fold:
  assumes "foldM (\<lambda>mi d. case map_id mi of MapNum i \<Rightarrow> Inr (dset i 1 d) | MapWord w \<Rightarrow> Inl TypeError) maps d0 = Inr d"
  shows "map_of d i = (if \<exists>mi \<in> set maps. map_id mi = MapNum i then Some (1 :: int) else map_of d0 i)"
  using assms
proof (induction maps arbitrary: d0)
  case Nil
  then show ?case by simp
next
  case (Cons mi maps)
  then obtain j where j: "map_id mi = MapNum j" by (auto simp: rbind_eq_Inr split: map_id_value.splits)
  then have "foldM (\<lambda>mi d. case map_id mi of MapNum i \<Rightarrow> Inr (dset i 1 d) | MapWord w \<Rightarrow> Inl TypeError)
      maps (dset j 1 d0) = Inr d" using Cons.prems by simp
  from Cons.IH [OF this] j show ?case by auto
qed

lemma map_valid_codes_nth:
  assumes "map_valid_codes mx maps = Inr codes"
  shows "length codes = mx + 1"
    and "m \<le> mx \<Longrightarrow> codes ! m = (if \<exists>mi \<in> set maps. map_id mi = MapNum (int m) then 1 else 0)"
proof -
  let ?d0 = "map (\<lambda>i. (int i, 0 :: int)) [0..<mx + 1]"
  from assms obtain d where
    d: "foldM (\<lambda>mi d. case map_id mi of MapNum i \<Rightarrow> Inr (dset i 1 d) | MapWord w \<Rightarrow> Inl TypeError) maps ?d0 = Inr d"
    and c: "mapM (\<lambda>i. dget d (int i)) [0..<mx + 1] = Inr codes"
    by (auto simp: map_valid_codes_def rbind_eq_Inr simp del: upt_Suc)
  show "length codes = mx + 1" using mapM_Inr_length [OF c] by simp
  assume m: "m \<le> mx"
  then have "dget d (int ([0..<mx + 1] ! m)) = Inr (codes ! m)"
    by (intro mapM_Inr_nth [OF c]) (simp del: upt_Suc)
  then have "map_of d (int m) = Some (codes ! m)" using m by (simp del: upt_Suc add: nth_upt)
  moreover have "map_of ?d0 (int m) = Some 0"
  proof (rule map_of_is_SomeI)
    show "distinct (map fst ?d0)" by (simp add: comp_def distinct_map inj_on_def del: upt_Suc)
    show "(int m, 0) \<in> set ?d0" using m by (auto simp del: upt_Suc)
  qed
  ultimately show "codes ! m = (if \<exists>mi \<in> set maps. map_id mi = MapNum (int m) then 1 else 0)"
    using map_valid_step_fold [OF d, of "int m"] by (auto split: if_splits)
qed

lemma emit_map_valid_codes:
  assumes v: "emit_map_valid mx maps = Inr c" and mx: "mx < 64"
  obtains codes where "map_valid_codes mx maps = Inr codes" "chunks 1 64 codes = [c]" "fields_fit 1 codes"
proof -
  from v mx have "rbind (map_valid_codes mx maps) (\<lambda>codes.
      case convert_list_to_integer codes 1 of OneInt c \<Rightarrow> Inr c | IntList cs \<Rightarrow> Inl TypeError) = Inr c"
    by (simp add: emit_map_valid_def)
  then obtain codes where codes: "map_valid_codes mx maps = Inr codes"
    and "(case convert_list_to_integer codes 1 of OneInt c \<Rightarrow> Inr c | IntList cs \<Rightarrow> Inl TypeError) = Inr c"
    by (rule rbind_eq_InrE)
  then have conv: "convert_list_to_integer codes 1 = OneInt c"
    by (cases "convert_list_to_integer codes 1") simp_all
  note n = map_valid_codes_nth [OF codes]
  have ch: "convert_loop 1 codes [] 0 0 = chunks 1 64 codes" by (rule convert_loop_eq) simp
  then have "chunks 1 64 codes = [c]"
    using conv by (cases "chunks 1 64 codes") (auto simp: convert_list_to_integer_def Let_def split: if_splits)
  moreover have "fields_fit 1 codes"
    unfolding fields_fit_def list_all_length using n by auto
  ultimately show thesis using codes that by blast
qed

lemma emit_map_valid_bit:
  assumes v: "emit_map_valid mx maps = Inr c" and mx: "mx < 64" and m: "m \<le> mx"
  shows "bit c m \<longleftrightarrow> (\<exists>mi \<in> set maps. map_id mi = MapNum (int m))"
proof -
  obtain codes where codes: "map_valid_codes mx maps = Inr codes"
    and c: "chunks 1 64 codes = [c]" and fit: "fields_fit 1 codes" by (rule emit_map_valid_codes [OF v mx])
  note n = map_valid_codes_nth [OF codes]
  have "take_bit 1 (drop_bit (1 * (m mod 64)) (take_bit 64 (chunks 1 64 codes ! (m div 64)))) = codes ! m"
    by (rule chunk_field [OF _ fit]) (use n(1) m in simp_all)
  then have "take_bit 1 (drop_bit m (take_bit 64 c)) = codes ! m" using c m mx by simp
  then have "bit (take_bit 1 (drop_bit m (take_bit 64 c))) 0 \<longleftrightarrow> bit (codes ! m) 0" by simp
  moreover have "bit (take_bit 1 (drop_bit m (take_bit 64 c))) 0 \<longleftrightarrow> bit c m"
    unfolding bit_take_bit_iff bit_drop_bit_eq comp_def using m mx by simp
  ultimately have "bit c m \<longleftrightarrow> bit (codes ! m) 0" by simp
  then show ?thesis using n(2) [OF m] by auto
qed

lemma emit_map_valid_high:
  assumes v: "emit_map_valid mx maps = Inr c" and mx: "mx < 64" and m: "mx < m"
  shows "\<not> bit c m"
proof -
  obtain codes where codes: "map_valid_codes mx maps = Inr codes"
    and c: "chunks 1 64 codes = [c]" and fit: "fields_fit 1 codes" by (rule emit_map_valid_codes [OF v mx])
  have l: "length codes = mx + 1" by (rule map_valid_codes_nth(1) [OF codes])
  then have "c = pack_fields 1 codes" using c mx by (simp add: chunks.simps)
  then have "0 \<le> c" "c < 2 ^ (mx + 1)" using pack_fields_bounds [OF fit] l by simp_all
  then have "take_bit (mx + 1) c = c" by (rule take_bit_int_eq_self)
  then have "bit c m \<longleftrightarrow> m < mx + 1 \<and> bit c m" by (metis bit_take_bit_iff)
  then show ?thesis using m by simp
qed

section \<open>Fresh ids\<close>

lemma assigned_id_mono:
  assumes "i < j" "j < length maps" "map_id_fixup (maps ! i)" "mspace (maps ! i) = mspace (maps ! j)"
  shows "assigned_id mx maps i < assigned_id mx maps j"
proof -
  let ?P = "needs_id (mspace (maps ! j))"
  have "take j maps = take i maps @ maps ! i # drop (Suc i) (take j maps)"
    using assms(1,2) by (subst id_take_nth_drop [of i "take j maps"]) (simp_all add: min_absorb1)
  then have "filter ?P (take j maps) = filter ?P (take i maps) @ filter ?P (maps ! i # drop (Suc i) (take j maps))"
    by (metis filter_append)
  then have "length (filter ?P (take i maps)) < length (filter ?P (take j maps))"
    using assms(3,4) by (simp add: needs_id_def)
  then show ?thesis using assms(4) by (simp add: assigned_id_def)
qed

lemma fix_nonnumeric_fresh:
  assumes f: "fix_nonnumeric_maps maps = Inr r" and i: "i < length maps" "map_id_fixup (maps ! i)"
  shows "\<exists>k. r ! i = (maps ! i)\<lparr>map_id := MapNum k, map_id_fixup := False\<rparr> \<and>
    (\<forall>j < length maps. j \<noteq> i \<longrightarrow> mspace (maps ! j) = mspace (maps ! i) \<longrightarrow> map_id (r ! j) \<noteq> MapNum k)"
proof -
  from f obtain mx where mx: "space_max maps = Inr mx" and r: "fix_maps maps mx = Inr r"
    by (auto simp: fix_nonnumeric_maps_def rbind_eq_Inr)
  note spec = fix_maps_spec [OF r]
  let ?k = "assigned_id mx maps i"
  have "map_id (r ! j) \<noteq> MapNum ?k"
    if j: "j < length maps" "j \<noteq> i" "mspace (maps ! j) = mspace (maps ! i)" for j
  proof (cases "map_id_fixup (maps ! j)")
    case True
    then have "map_id (r ! j) = MapNum (assigned_id mx maps j)" using spec j by (simp add: with_id_def)
    moreover have "assigned_id mx maps j \<noteq> ?k"
      using assigned_id_mono [of i j maps mx] assigned_id_mono [of j i maps mx] i j True
      by (metis less_irrefl linorder_neqE_nat)
    ultimately show ?thesis by simp
  next
    case False
    then have rj: "r ! j = maps ! j" using spec j by simp
    have "k < ?k" if k: "map_id (maps ! j) = MapNum k" for k
    proof -
      from space_max_bound [OF mx _ False k] j(1) obtain m where "map_of mx (mspace (maps ! j)) = Some m" "k \<le> m"
        by auto
      then show ?thesis using j(3) by (simp add: assigned_id_def)
    qed
    with rj show ?thesis by force
  qed
  moreover have "r ! i = with_id ?k (maps ! i)" using spec i by simp
  ultimately show ?thesis by (auto simp: with_id_def intro!: exI [of _ ?k])
qed

section \<open>Reading, numbering and looking up maps\<close>

text \<open>
  The words of a line come back from \<open>shlex.split\<close> whatever they contain short of a single
  quote, when each is written bare or, if it has blanks, quotes or backslashes, between single quotes.
\<close>

lemma map_line_words:
  assumes "list_all quotable ws"
  shows "shlex_split (join '' '' (map shlex_write ws)) = Inr ws"
  using shlex_words [OF assms, of "[]" False "[]"] by (simp add: shlex_split_def)

lemma map_line_words_example:
  "shlex_split (''vex-map1 '' @ [CHR 0x27] @ ''a b'' @ [CHR 0x27] @ '' var'') =
     Inr [''vex-map1'', ''a b'', ''var'']"
  using map_line_words [of "[''vex-map1'', ''a b'', ''var'']"]
  by (simp add: quotable_def shlex_write_def plain_word_def plain_char_def shlex_blank_def
      shlex_quote_char_def backslash_def)

text \<open>
  A line that parses describes a map of one of the four spaces, with legal specifiers; only a legacy
  map may have an escape, a second opcode byte or an id still to be numbered, the name has no dash,
  and the priority falls with the length of the search pattern.
\<close>

lemma parsed_map_well_formed:
  assumes "parse_map_line s = Inr mi"
  shows "mspace mi \<in> {''legacy'', ''vex'', ''evex'', ''xop''} \<and> disp mi \<in> {''var'', ''no''} \<and>
    modrm mi \<in> {''var'', ''yes'', ''no''} \<and> imm mi \<in> {''var'', ''0'', ''1'', ''2'', ''4''} \<and>
    (map_id_fixup mi \<longleftrightarrow> (\<exists>w. map_id mi = MapWord w)) \<and> (map_id_fixup mi \<longrightarrow> is_legacy mi) \<and>
    (is_legacy mi \<or> get_legacy_escapes mi = (''N/A'', None)) \<and>
    CHR ''-'' \<notin> set (map_name mi) \<and> priority mi = 100 - int (length (search_pattern mi))"
  using parse_map_line_ok [OF assms]
  by (auto simp: map_info_ok_def space_ids_def get_legacy_escapes_def)

lemma parsed_map_well_formed_witness:
  "\<exists>mi. parse_map_line ''vex-map1 vex N/A N/A 1 var no var 1 V0F'' = Inr mi \<and> mspace mi = ''vex'' \<and>
     get_legacy_escapes mi = (''N/A'', None) \<and> priority mi = 97"
proof -
  have "parse_map_line ''vex-map1 vex N/A N/A 1 var no var 1 V0F'' =
    Inr \<lparr>map_name = ''vex_map1'', mspace = ''vex'', legacy_escape = ''N/A'', legacy_opcode = ''N/A'',
         map_id = MapNum 1, modrm = ''var'', disp = ''no'', imm = ''var'', opcpos = 1,
         search_pattern = ''V0F'', legacy_escape_int = None, legacy_opcode_int = None,
         map_id_fixup = False, priority = 97\<rparr>" by code_simp
  from this parsed_map_well_formed [OF this] show ?thesis by (simp add: is_legacy_def)
qed

text \<open>
  Numbering gives every map without an id one that no other map of its space has, changes
  nothing else of it, and leaves the numbered maps as they were.
\<close>

lemma map_ids_fresh:
  assumes "fix_nonnumeric_maps maps = Inr r"
  shows "length r = length maps \<and> (\<forall>i < length maps.
    if map_id_fixup (maps ! i)
    then \<exists>k. r ! i = (maps ! i)\<lparr>map_id := MapNum k, map_id_fixup := False\<rparr> \<and>
      (\<forall>j < length maps. j \<noteq> i \<longrightarrow> mspace (maps ! j) = mspace (maps ! i) \<longrightarrow> map_id (r ! j) \<noteq> MapNum k)
    else r ! i = maps ! i)"
proof -
  from assms obtain mx where "fix_maps maps mx = Inr r"
    by (auto simp: fix_nonnumeric_maps_def rbind_eq_Inr)
  from fix_maps_spec [OF this] fix_nonnumeric_fresh [OF assms] show ?thesis by simp
qed

definition sample_map :: "map_id_value \<Rightarrow> bool \<Rightarrow> map_info" where
  "sample_map idv fixup =
     \<lparr>map_name = ''m'', mspace = ''legacy'', legacy_escape = ''0x0F'', legacy_opcode = ''N/A'', map_id = idv,
      modrm = ''var'', disp = ''no'', imm = ''2'', opcpos = 1, search_pattern = ''0x0F'',
      legacy_escape_int = Some 15, legacy_opcode_int = None, map_id_fixup = fixup, priority = 96\<rparr>"

lemma map_ids_fresh_witness:
  "\<exists>r. fix_nonnumeric_maps [sample_map (MapWord ''amd'') True, sample_map (MapNum 3) False] = Inr r \<and>
     map_id (r ! 0) \<noteq> map_id (r ! 1) \<and> r ! 1 = sample_map (MapNum 3) False"
proof -
  let ?maps = "[sample_map (MapWord ''amd'') True, sample_map (MapNum 3) False]"
  have "fix_nonnumeric_maps ?maps = Inr [sample_map (MapNum 4) False, sample_map (MapNum 3) False]" by code_simp
  from this map_ids_fresh [OF this] show ?thesis by (auto simp: sample_map_def)
qed

text \<open>
  The C function emitted for a field of a space returns, for every map id up to the maximum, the
  code of the map with that id and zero when the space has none, provided the maximum is zero or not a
  multiple of the fields that fit in 64 bits.
\<close>

lemma map_feature_lookup:
  assumes "collect_codes mx f maps = Inr codes" and "maps \<noteq> []"
    and "mx = 0 \<or> mx mod fields_per_chunk f \<noteq> 0" and "m \<le> mx"
  shows "\<exists>fn. emit_space_function mx f maps = Inr fn \<and> eval_map_function fn m =
    Some (case find (\<lambda>mi. map_id mi = MapNum (int m)) (rev maps) of
            None \<Rightarrow> 0 | Some mi \<Rightarrow> the (map_of (field_cvt f) (field_value f mi)))"
proof -
  from assms(1) obtain d where d: "foldM (collect_step f) maps (map (\<lambda>i. (int i, 0)) [0..<mx + 1]) = Inr d"
    by (auto simp: collect_codes_def rbind_eq_Inr simp del: upt_Suc)
  have *: "map_of (field_cvt f) (field_value f mi) \<noteq> None" if "mi \<in> set maps" for mi
    using d that
  proof (induction maps arbitrary: d rule: rev_induct)
    case (snoc x xs)
    then show ?case by (auto simp: foldM_append rbind_eq_Inr collect_step_Inr simp del: upt_Suc)
  qed simp
  then have "code_of f maps (int m) = (case find (\<lambda>mi. map_id mi = MapNum (int m)) (rev maps) of
      None \<Rightarrow> 0 | Some mi \<Rightarrow> the (map_of (field_cvt f) (field_value f mi)))"
  proof (cases "find (\<lambda>mi. map_id mi = MapNum (int m)) (rev maps)")
    case None
    then show ?thesis by (simp add: code_of_def)
  next
    case (Some mi)
    then have "mi \<in> set (rev maps)" by (metis find_Some_iff nth_mem)
    then have "mi \<in> set maps" by simp
    from * [OF this] Some show ?thesis by (auto simp: code_of_def dget_default_def)
  qed
  with emit_space_function_lookup [OF assms] show ?thesis by simp
qed

lemma map_feature_lookup_witness:
  "\<exists>fn. emit_space_function 3 FImm [sample_map (MapNum 3) False] = Inr fn \<and> eval_map_function fn 3 = Some 2"
proof -
  have "collect_codes 3 FImm [sample_map (MapNum 3) False] = Inr [0, 0, 0, 2]" by code_simp
  from map_feature_lookup [OF this, of 3] show ?thesis
    by (simp add: fields_per_chunk_def field_bits_def field_cvt_def cvt_imm_def field_value_def sample_map_def)
qed

text \<open>
  When the maximal map id is the number of fields that fit in 64 bits (16 for \<open>imm\<close>, 32 for the others)
  the generator stops with a \<open>TypeError\<close>: the number of words is computed from the maximum instead of
  the number of ids.
\<close>

lemma map_feature_boundary_error:
  assumes "collect_codes (fields_per_chunk f) f maps = Inr codes"
    and "m \<le> fields_per_chunk f" and "codes ! m \<noteq> 0"
  shows "emit_space_function (fields_per_chunk f) f maps = Inl TypeError"
proof -
  have "maps \<noteq> []"
  proof
    assume "maps = []"
    then have "codes ! m = 0" using codes_nth [OF assms(1,2)] by (simp add: code_of_def)
    with assms(3) show False by simp
  qed
  moreover have "code_of f maps (int m) \<noteq> 0" using codes_nth [OF assms(1,2)] assms(3) by simp
  ultimately show ?thesis using emit_space_function_boundary [OF assms(1) _ refl] assms(2) by blast
qed

lemma map_feature_boundary_error_witness:
  "emit_space_function 16 FImm [sample_map (MapNum 3) False] = Inl TypeError"
proof -
  let ?codes = "[0, 0, 0, 2, 0, 0, 0, 0, 0, 0, 0, 0, 0, 0, 0, 0, 0]"
  have n: "fields_per_chunk FImm = 16" by (simp add: fields_per_chunk_def field_bits_def)
  have "collect_codes 16 FImm [sample_map (MapNum 3) False] = Inr ?codes" by code_simp
  with map_feature_boundary_error [of FImm "[sample_map (MapNum 3) False]" ?codes 3] show ?thesis by (simp add: n)
qed

text \<open>
  C35: whenever the constant of \<open>xed_ild_map_valid\<close> is emitted, the maximal id is below 64, and the
  constant has bit \<open>m\<close> set exactly when \<open>m\<close> is at most the maximal id and the space has a map with
  id \<open>m\<close>: every bit above the maximal id is zero.  At the maximal id 64, which the guard lets
  through, no constant is emitted.
\<close>

theorem map_valid_bits:
  assumes "emit_map_valid mx maps = Inr c"
  shows "mx < 64 \<and> (\<forall>m. bit c m \<longleftrightarrow> m \<le> mx \<and> (\<exists>mi \<in> set maps. map_id mi = MapNum (int m)))"
proof -
  have le: "mx \<le> 64" using assms by (auto simp: emit_map_valid_def split: if_splits)
  have "mx \<noteq> 64"
  proof
    assume mx: "mx = 64"
    then obtain codes where "map_valid_codes 64 maps = Inr codes"
      using assms by (auto simp: emit_map_valid_def rbind_eq_Inr)
    from map_valid_boundary [OF this] assms mx show False by simp
  qed
  with le have mx: "mx < 64" by simp
  have "bit c m \<longleftrightarrow> m \<le> mx \<and> (\<exists>mi \<in> set maps. map_id mi = MapNum (int m))" for m
    using emit_map_valid_bit [OF assms mx, of m] emit_map_valid_high [OF assms mx, of m]
    by (cases "m \<le> mx") auto
  with mx show ?thesis by blast
qed

theorem map_valid_bits_witness:
  "\<exists>c. emit_map_valid 3 [sample_map (MapNum 3) False] = Inr c \<and> bit c 3 \<and> \<not> bit c 2"
proof -
  have "emit_map_valid 3 [sample_map (MapNum 3) False] = Inr 8" by code_simp
  from map_valid_bits [OF this] this show ?thesis by (auto simp: sample_map_def)
qed

end
