(* ===== verification/Ild_Pattern.thy ===== *)
theory Ild_Pattern
  imports Cdict Map_Info
begin

text \<open>
  Instruction patterns of the length decoder: the state space of the operands
  (\<open>pysrc/ild_cdict.py\<close>), the constraints of an instruction (\<open>pysrc/ild_nt.py\<close>,
  \<open>pysrc/dec_dyn.py\<close>) and \<open>pattern_t\<close> with its map, opcode and encoding space (\<open>pysrc/ild.py\<close>).
  The nonterminals that bind sizes are inputs (\<open>eosz_nt_seq\<close> and the like are in \<open>Ild_Tables\<close>).
\<close>

section \<open>Instructions\<close>

text \<open>The part of \<open>instruction_info_t\<close> the length decoder reads.\<close>

record instruction =
  i_iclass :: "string option"
  i_pattern :: string
  i_bits :: "bit_info list"
  i_prebindings :: "(string, prebinding) dict"
  i_inum :: int

section \<open>The state space\<close>

text \<open>\<open>state_space[name][val] = True\<close> on a \<open>defaultdict(dict)\<close>.\<close>

definition set_val :: "string \<Rightarrow> int \<Rightarrow> space \<Rightarrow> space" where
  "set_val name val sp = dset name (dset val True (dget_default sp name [])) sp"

definition set_vals :: "string \<Rightarrow> int list \<Rightarrow> space \<Rightarrow> space" where
  "set_vals name vals sp = fold (set_val name) vals sp"

definition state_space_bit :: "bit_info \<Rightarrow> space \<Rightarrow> space" where
  "state_space_bit bt sp =
     (if is_operand_decider bt
      then (case (btest bt, btoken bt, brequirement bt) of
              (Some OdEq, Some tok, Some req) \<Rightarrow> set_val tok req sp
            | _ \<Rightarrow> sp)
      else sp)"

text \<open>Captured fields of up to three bits take every value, constant ones their value.\<close>

definition state_space_prebinding :: "string \<times> prebinding \<Rightarrow> space \<Rightarrow> space res" where
  "state_space_prebinding nb sp =
     (case nb of (name, binding) \<Rightarrow>
       let bitnum = length (bit_info_list binding)
       in if bitnum < 4
          then Inr (set_vals name (map int [0..<2 ^ bitnum])
                 (if din name sp then sp else dset name [] sp))
          else if is_constant binding
          then rbind (py_int 2 (prebinding_value binding)) (\<lambda>val. Inr (set_val name val sp))
          else Inr sp)"

definition set_state_space_from_ii :: "instruction \<Rightarrow> space \<Rightarrow> space res" where
  "set_state_space_from_ii ii sp =
     foldM state_space_prebinding (i_prebindings ii) (fold state_space_bit (i_bits ii) sp)"

text \<open>
  An operand of a nonterminal that is a constant immediate (\<open>bits\<close> in hexadecimal) adds its value to
  an operand that is already there.
\<close>

record rule_operand =
  op_name :: string
  op_bits :: "string option"
  op_is_imm_const :: bool

definition set_space_from_operand :: "rule_operand \<Rightarrow> space \<Rightarrow> space res" where
  "set_space_from_operand op sp =
     (case op_bits op of
        None \<Rightarrow> Inr sp
      | Some b \<Rightarrow>
          if b \<noteq> [] \<and> din (op_name op) sp \<and> op_is_imm_const op
          then rbind (py_int 16 b) (\<lambda>v. Inr (set_val (op_name op) v sp))
          else Inr sp)"

text \<open>
  The whole space: the instructions of every generator, the (macro-expanded) operands of the
  nonterminals, then the values that no pattern mentions.
\<close>

definition get_all_constraints_state_space :: "instruction list \<Rightarrow> rule_operand list \<Rightarrow> space res" where
  "get_all_constraints_state_space instructions nt_operands =
     rbind (foldM set_state_space_from_ii instructions []) (\<lambda>sp.
     rbind (foldM set_space_from_operand nt_operands sp) (\<lambda>sp.
       Inr (if \<not> din ''VEXVALID'' sp then set_val ''VEXVALID'' 0 sp
            else set_val ''VL'' 3 (set_val ''ZEROING'' 1 sp))))"

text \<open>
  \<open>int(math.floor(math.log(maxval, 2))) + 1\<close> is the bit length of the values that occur (8 bits at
  most); \<open>max\<close> of no values and \<open>log\<close> of a negative one raise \<open>ValueError\<close>.
\<close>

definition op_width :: "(string, nat) dict \<Rightarrow> string \<times> value_dict \<Rightarrow> nat res" where
  "op_width storage_widths nv =
     (case nv of (opname, vals) \<Rightarrow>
       case map_of storage_widths opname of
         Some w \<Rightarrow> Inr w
       | None \<Rightarrow>
           if vals = [] then Inl ValueError
           else let maxval = Max (set (dkeys vals))
                in if maxval = 0 then Inr 1
                   else if maxval < 0 then Inl ValueError
                   else Inr (ilog2 (nat maxval) + 1))"

definition compressed_widths :: "(string, nat) dict" where
  "compressed_widths = [(''MOD3'', 1), (''VEXDEST210_7'', 1), (''VEXDEST_1F'', 1), (''RM4'', 1),
     (''MASK_NOT0'', 1), (''MASK_ZERO'', 1), (''UIMM0'', 8)]"

definition get_state_op_widths :: "(string, nat) dict \<Rightarrow> space \<Rightarrow> (string, nat) dict res" where
  "get_state_op_widths storage_widths sp =
     rbind (foldM (\<lambda>nv d. rbind (op_width storage_widths nv) (\<lambda>w. Inr (dset (fst nv) w d))) sp [])
       (\<lambda>d. Inr (fold (\<lambda>(n, w) d. dset n w d) compressed_widths d))"

section \<open>Constraints of an instruction\<close>

definition add_op_decider :: "space \<Rightarrow> bit_info \<Rightarrow> space \<Rightarrow> space res" where
  "add_op_decider all_space bt argnames =
     (if is_operand_decider bt
      then (case (btest bt, btoken bt, brequirement bt) of
              (Some OdEq, Some tok, Some req) \<Rightarrow> Inr (set_val tok req argnames)
            | (Some OdNe, Some tok, Some req) \<Rightarrow>
                (let argnames = (if din tok argnames then argnames else dset tok [] argnames);
                     trimmed_vals = filter (\<lambda>x. x \<noteq> req) (dkeys (dget_default all_space tok []))
                 in Inr (set_vals tok trimmed_vals argnames))
            | _ \<Rightarrow> Inl (Die ''Bad bit test (not eq or ne)''))
      else Inr argnames)"

definition add_op_deciders :: "bit_info list \<Rightarrow> space \<Rightarrow> space \<Rightarrow> space res" where
  "add_op_deciders bits all_space argnames = foldM (add_op_decider all_space) bits argnames"

definition add_prebinding :: "string \<times> prebinding \<Rightarrow> space \<Rightarrow> space res" where
  "add_prebinding nb constraints =
     (case nb of (name, binding) \<Rightarrow>
       if is_constant binding
       then rbind (py_int 2 (prebinding_value binding)) (\<lambda>val. Inr (set_val name val constraints))
       else Inr constraints)"

definition get_ii_constraints :: "instruction \<Rightarrow> space \<Rightarrow> space res" where
  "get_ii_constraints ii all_space =
     rbind (add_op_deciders (i_bits ii) all_space [])
       (foldM add_prebinding (i_prebindings ii))"

section \<open>What the constraints mean\<close>

abbreviation cvals :: "space \<Rightarrow> string \<Rightarrow> int set" where
  "cvals sp n \<equiv> set (dkeys (dget_default sp n []))"

lemma cvals_set_val: "cvals (set_val n v sp) m = (if m = n then insert v (cvals sp n) else cvals sp m)"
  by (simp add: set_val_def dget_default_def dkeys_dset_set del: set_map)

lemma din_set_val [simp]: "din m (set_val n v sp) \<longleftrightarrow> m = n \<or> din m sp"
  by (auto simp: set_val_def din_def)

lemma cvals_set_vals:
  "cvals (set_vals n vs sp) m = (if m = n then set vs \<union> cvals sp n else cvals sp m)"
proof (induction vs arbitrary: sp)
  case Nil
  then show ?case by (simp add: set_vals_def)
next
  case (Cons v vs)
  have "set_vals n (v # vs) sp = set_vals n vs (set_val n v sp)" by (simp add: set_vals_def)
  then show ?case by (simp add: Cons.IH cvals_set_val del: set_map)
qed

lemma din_set_vals: "din n sp \<Longrightarrow> din m (set_vals n vs sp) \<longleftrightarrow> din m sp"
proof (induction vs arbitrary: sp)
  case Nil
  then show ?case by (simp add: set_vals_def)
next
  case (Cons v vs)
  have "set_vals n (v # vs) sp = set_vals n vs (set_val n v sp)" by (simp add: set_vals_def)
  then show ?case using Cons by auto
qed

lemma cvals_dset_Nil:
  "\<not> din n sp \<Longrightarrow> cvals (dset n [] sp) m = cvals sp m" "din m (dset n [] sp) \<longleftrightarrow> m = n \<or> din m sp"
  by (auto simp: din_def dget_default_def)

text \<open>The values an operand decider admits for a token.\<close>

definition od_admits :: "space \<Rightarrow> bit_info \<Rightarrow> string \<Rightarrow> int \<Rightarrow> bool" where
  "od_admits sp bt tok v \<longleftrightarrow> is_operand_decider bt \<and> btoken bt = Some tok \<and>
     (btest bt = Some OdEq \<and> brequirement bt = Some v \<or>
      btest bt = Some OdNe \<and> brequirement bt \<noteq> Some v \<and> v \<in> cvals sp tok)"

lemma add_op_decider_Inr:
  assumes "add_op_decider sp bt arg = Inr arg'"
  shows "v \<in> cvals arg' tok \<longleftrightarrow> v \<in> cvals arg tok \<or> od_admits sp bt tok v"
    and "din tok arg' \<longleftrightarrow> din tok arg \<or> (is_operand_decider bt \<and> btoken bt = Some tok)"
    and "is_operand_decider bt \<Longrightarrow> btest bt \<noteq> None \<and> btoken bt \<noteq> None \<and> brequirement bt \<noteq> None"
  using assms
  by (auto simp: add_op_decider_def od_admits_def cvals_set_val cvals_set_vals cvals_dset_Nil
        din_set_vals Let_def simp del: set_map split: if_splits option.splits od_test.splits)

lemma add_op_deciders_Inr:
  assumes "add_op_deciders bits sp arg = Inr arg'"
  shows "(v \<in> cvals arg' tok \<longleftrightarrow> v \<in> cvals arg tok \<or> (\<exists>bt \<in> set bits. od_admits sp bt tok v)) \<and>
    (din tok arg' \<longleftrightarrow> din tok arg \<or> (\<exists>bt \<in> set bits. is_operand_decider bt \<and> btoken bt = Some tok)) \<and>
    (\<forall>bt \<in> set bits. is_operand_decider bt \<longrightarrow>
       btest bt \<noteq> None \<and> btoken bt \<noteq> None \<and> brequirement bt \<noteq> None)"
  using assms
proof (induction bits arbitrary: arg)
  case Nil
  then show ?case by (simp add: add_op_deciders_def)
next
  case (Cons bt bits)
  then obtain arg1 where one: "add_op_decider sp bt arg = Inr arg1"
    and rest: "add_op_deciders bits sp arg1 = Inr arg'"
    by (auto simp: add_op_deciders_def rbind_eq_Inr)
  show ?case using Cons.IH [OF rest] add_op_decider_Inr [OF one] by auto
qed

definition binding_admits :: "string \<times> prebinding \<Rightarrow> string \<Rightarrow> int \<Rightarrow> bool" where
  "binding_admits nb n v \<longleftrightarrow>
     fst nb = n \<and> is_constant (snd nb) \<and> py_int 2 (prebinding_value (snd nb)) = Inr v"

lemma add_prebinding_Inr:
  assumes "add_prebinding nb arg = Inr arg'"
  shows "v \<in> cvals arg' n \<longleftrightarrow> v \<in> cvals arg n \<or> binding_admits nb n v"
    and "din n arg' \<longleftrightarrow> din n arg \<or> (fst nb = n \<and> is_constant (snd nb))"
    and "is_constant (snd nb) \<Longrightarrow> \<exists>v. py_int 2 (prebinding_value (snd nb)) = Inr v"
  using assms
  by (auto simp: add_prebinding_def binding_admits_def cvals_set_val rbind_eq_Inr
        simp del: set_map split: prod.splits if_splits)

lemma add_prebindings_Inr:
  assumes "foldM add_prebinding nbs arg = Inr arg'"
  shows "(v \<in> cvals arg' n \<longleftrightarrow> v \<in> cvals arg n \<or> (\<exists>nb \<in> set nbs. binding_admits nb n v)) \<and>
    (din n arg' \<longleftrightarrow> din n arg \<or> (\<exists>nb \<in> set nbs. fst nb = n \<and> is_constant (snd nb))) \<and>
    (\<forall>nb \<in> set nbs. is_constant (snd nb) \<longrightarrow> (\<exists>v. py_int 2 (prebinding_value (snd nb)) = Inr v))"
  using assms
proof (induction nbs arbitrary: arg)
  case Nil
  then show ?case by simp
next
  case (Cons nb nbs)
  then obtain arg1 where one: "add_prebinding nb arg = Inr arg1"
    and rest: "foldM add_prebinding nbs arg1 = Inr arg'"
    by (auto simp: rbind_eq_Inr)
  show ?case using Cons.IH [OF rest] add_prebinding_Inr [OF one] by auto
qed

lemma get_ii_constraints_Inr:
  assumes "get_ii_constraints ii sp = Inr c"
  shows "v \<in> cvals c n \<longleftrightarrow> (\<exists>bt \<in> set (i_bits ii). od_admits sp bt n v) \<or>
       (\<exists>nb \<in> set (i_prebindings ii). binding_admits nb n v)"
    and "din n c \<longleftrightarrow> (\<exists>bt \<in> set (i_bits ii). is_operand_decider bt \<and> btoken bt = Some n) \<or>
       (\<exists>nb \<in> set (i_prebindings ii). fst nb = n \<and> is_constant (snd nb))"
    and "\<forall>bt \<in> set (i_bits ii). is_operand_decider bt \<longrightarrow>
       btest bt \<noteq> None \<and> btoken bt \<noteq> None \<and> brequirement bt \<noteq> None"
proof -
  from assms obtain c1 where c1: "add_op_deciders (i_bits ii) sp [] = Inr c1"
    and c: "foldM add_prebinding (i_prebindings ii) c1 = Inr c"
    by (auto simp: get_ii_constraints_def rbind_eq_Inr)
  note a = add_op_deciders_Inr [OF c1] and b = add_prebindings_Inr [OF c]
  show "v \<in> cvals c n \<longleftrightarrow> (\<exists>bt \<in> set (i_bits ii). od_admits sp bt n v) \<or>
       (\<exists>nb \<in> set (i_prebindings ii). binding_admits nb n v)"
    using a [of v n] b [of v n] by (simp add: din_def)
  show "din n c \<longleftrightarrow> (\<exists>bt \<in> set (i_bits ii). is_operand_decider bt \<and> btoken bt = Some n) \<or>
       (\<exists>nb \<in> set (i_prebindings ii). fst nb = n \<and> is_constant (snd nb))"
    using a [of _ n] b [of _ n] by (simp add: din_def)
  show "\<forall>bt \<in> set (i_bits ii). is_operand_decider bt \<longrightarrow>
       btest bt \<noteq> None \<and> btoken bt \<noteq> None \<and> brequirement bt \<noteq> None"
    using a by blast
qed

text \<open>
  The constraints on one operand are united, not intersected (the FIXME of \<open>_set_constraints\<close>): they hold
  in an environment when for every constrained operand one of its deciders and constant fields does.
  That is all of them when the deciders and fields of one operand say the same, as in \<open>MOD[0b11] MOD=3\<close>.
\<close>

definition sat :: "(string \<Rightarrow> int) \<Rightarrow> space \<Rightarrow> bool" where
  "sat env c \<longleftrightarrow> (\<forall>n. din n c \<longrightarrow> env n \<in> cvals c n)"

definition od_holds :: "(string \<Rightarrow> int) \<Rightarrow> bit_info \<Rightarrow> bool" where
  "od_holds env bt \<longleftrightarrow>
     (case (btoken bt, btest bt, brequirement bt) of
        (Some tok, Some OdEq, Some req) \<Rightarrow> env tok = req
      | (Some tok, Some OdNe, Some req) \<Rightarrow> env tok \<noteq> req
      | _ \<Rightarrow> False)"

definition binding_holds :: "(string \<Rightarrow> int) \<Rightarrow> string \<times> prebinding \<Rightarrow> bool" where
  "binding_holds env nb \<longleftrightarrow> py_int 2 (prebinding_value (snd nb)) = Inr (env (fst nb))"

type_synonym constraint_source = "string option \<times> od_test option \<times> int option"

definition od_source :: "bit_info \<Rightarrow> constraint_source" where
  "od_source bt = (btoken bt, btest bt, brequirement bt)"

definition field_source :: "string \<times> prebinding \<Rightarrow> constraint_source" where
  "field_source nb =
     (Some (fst nb), Some OdEq,
      case py_int 2 (prebinding_value (snd nb)) of Inl e \<Rightarrow> None | Inr v \<Rightarrow> Some v)"

definition constraint_sources :: "instruction \<Rightarrow> constraint_source list" where
  "constraint_sources ii =
     map od_source (filter is_operand_decider (i_bits ii)) @
     map field_source (filter (\<lambda>nb. is_constant (snd nb)) (i_prebindings ii))"

definition sources_agree :: "instruction \<Rightarrow> bool" where
  "sources_agree ii \<longleftrightarrow>
     list_all (\<lambda>s. list_all (\<lambda>t. fst s = fst t \<longrightarrow> s = t) (constraint_sources ii)) (constraint_sources ii)"

definition source_holds :: "(string \<Rightarrow> int) \<Rightarrow> constraint_source \<Rightarrow> bool" where
  "source_holds env s \<longleftrightarrow>
     (case s of
        (Some tok, Some OdEq, Some req) \<Rightarrow> env tok = req
      | (Some tok, Some OdNe, Some req) \<Rightarrow> env tok \<noteq> req
      | _ \<Rightarrow> False)"

lemma source_simps [simp]:
  "source_holds env (od_source bt) \<longleftrightarrow> od_holds env bt"
  "source_holds env (field_source nb) \<longleftrightarrow> binding_holds env nb"
  "fst (od_source bt) = btoken bt" "fst (field_source nb) = Some (fst nb)"
  by (auto simp: source_holds_def od_source_def field_source_def od_holds_def binding_holds_def split: sum.splits)

lemma in_sources:
  "s \<in> set (constraint_sources ii) \<longleftrightarrow>
     (\<exists>bt \<in> set (i_bits ii). is_operand_decider bt \<and> s = od_source bt) \<or>
     (\<exists>nb \<in> set (i_prebindings ii). is_constant (snd nb) \<and> s = field_source nb)"
  unfolding constraint_sources_def by auto

lemma all_sources:
  "(\<forall>s \<in> set (constraint_sources ii). source_holds env s) \<longleftrightarrow>
     (\<forall>bt \<in> set (i_bits ii). is_operand_decider bt \<longrightarrow> od_holds env bt) \<and>
     (\<forall>nb \<in> set (i_prebindings ii). is_constant (snd nb) \<longrightarrow> binding_holds env nb)"
  unfolding constraint_sources_def set_append set_map set_filter ball_Un ball_simps source_simps by blast

lemma some_source:
  "(\<exists>s \<in> set (constraint_sources ii). fst s = Some n \<and> P s) \<longleftrightarrow>
     (\<exists>bt \<in> set (i_bits ii). is_operand_decider bt \<and> btoken bt = Some n \<and> P (od_source bt)) \<or>
     (\<exists>nb \<in> set (i_prebindings ii). is_constant (snd nb) \<and> fst nb = n \<and> P (field_source nb))"
  unfolding constraint_sources_def set_append set_map set_filter bex_Un bex_simps source_simps option.inject
  by blast

lemma get_ii_constraints_union:
  assumes c: "get_ii_constraints ii sp = Inr c"
    and legal: "\<forall>bt \<in> set (i_bits ii). \<forall>tok. is_operand_decider bt \<longrightarrow> btoken bt = Some tok \<longrightarrow>
      env tok \<in> cvals sp tok"
  shows "env n \<in> cvals c n \<longleftrightarrow> (\<exists>s \<in> set (constraint_sources ii). fst s = Some n \<and> source_holds env s)"
    and "din n c \<longleftrightarrow> (\<exists>s \<in> set (constraint_sources ii). fst s = Some n)"
proof -
  note full = get_ii_constraints_Inr(3) [OF c]
  have admits: "od_admits sp bt n (env n) \<longleftrightarrow> is_operand_decider bt \<and> btoken bt = Some n \<and> od_holds env bt"
    if "bt \<in> set (i_bits ii)" for bt
    using that full legal
    by (auto simp: od_admits_def od_holds_def simp del: set_map split: option.splits od_test.splits)
  have binds: "binding_admits nb n (env n) \<longleftrightarrow> is_constant (snd nb) \<and> fst nb = n \<and> binding_holds env nb" for nb
    by (auto simp: binding_admits_def binding_holds_def)
  show "env n \<in> cvals c n \<longleftrightarrow> (\<exists>s \<in> set (constraint_sources ii). fst s = Some n \<and> source_holds env s)"
    unfolding some_source [of ii n "source_holds env"] source_simps(1,2) get_ii_constraints_Inr(1) [OF c]
    using admits binds by blast
  show "din n c \<longleftrightarrow> (\<exists>s \<in> set (constraint_sources ii). fst s = Some n)"
    using some_source [of ii n "\<lambda>_. True"] unfolding get_ii_constraints_Inr(2) [OF c] by auto
qed

lemma get_ii_constraints_sat:
  assumes c: "get_ii_constraints ii sp = Inr c" and agree: "sources_agree ii"
    and legal: "\<forall>bt \<in> set (i_bits ii). \<forall>tok. is_operand_decider bt \<longrightarrow> btoken bt = Some tok \<longrightarrow>
      env tok \<in> cvals sp tok"
  shows "sat env c \<longleftrightarrow>
     (\<forall>bt \<in> set (i_bits ii). is_operand_decider bt \<longrightarrow> od_holds env bt) \<and>
     (\<forall>nb \<in> set (i_prebindings ii). is_constant (snd nb) \<longrightarrow> binding_holds env nb)"
proof -
  note un = get_ii_constraints_union [OF c legal]
  have named: "fst s \<noteq> None" if "s \<in> set (constraint_sources ii)" for s
    using that get_ii_constraints_Inr(3) [OF c] by (auto simp: in_sources)
  have "sat env c \<longleftrightarrow> (\<forall>s \<in> set (constraint_sources ii). source_holds env s)"
    using un named agree unfolding sat_def sources_agree_def list_all_iff by (metis not_Some_eq)
  then show ?thesis unfolding all_sources .
qed

section \<open>Patterns\<close>

text \<open>
  \<open>pattern_t\<close>.  The \<open>has_modrm\<close> and nonterminal-sequence members are functions of the pattern text and
  are defined in \<open>Ild_Tables\<close>.
\<close>

record pattern =
  ptrn :: string
  p_iclass :: "string option"
  p_bits :: "bit_info list"
  p_inum :: int
  constraints :: space
  special_constraints :: space
  vv :: int
  encspace :: string
  insn_map :: string
  opcode :: string
  incomplete_opcode :: bool
  missing_bits :: nat
  ext_opcode :: "int option"
  mode :: "int list"

text \<open>Two patterns are equal when text and iclass are.\<close>

definition pattern_eq :: "pattern \<Rightarrow> pattern option \<Rightarrow> bool" where
  "pattern_eq p other =
     (case other of None \<Rightarrow> False | Some q \<Rightarrow> ptrn p = ptrn q \<and> p_iclass p = p_iclass q)"

text \<open>\<open>_set_constraints\<close>: the default \<open>VEXVALID\<close>, and the operands dispatched on before the table.\<close>

definition set_constraints :: "instruction \<Rightarrow> space \<Rightarrow> (space \<times> space) res" where
  "set_constraints ii all_space =
     rbind (get_ii_constraints ii all_space) (\<lambda>c.
       let c = (if din ''VEXVALID'' c then c else dset ''VEXVALID'' [(0, True)] c);
           special = filter (\<lambda>nv. fst nv \<in> {''MAP'', ''VEXVALID''}) c;
           c = filter (\<lambda>nv. fst nv \<notin> {''MAP'', ''VEXVALID''}) c
       in Inr (c, special))"

definition set_vexvalid :: "space \<Rightarrow> int res" where
  "set_vexvalid special =
     (case dkeys (dget_default special ''VEXVALID'' []) of
        [v] \<Rightarrow> Inr v
      | _ \<Rightarrow> Inl (Die ''Not one value for VEXVALID''))"

text \<open>
  \<open>parse_opcode\<close>: the value, with the low bits of a short binary opcode filled with zeros, whether it
  is incomplete, and the number of missing bits.
\<close>

definition strip_0b :: "string \<Rightarrow> string" where
  "strip_0b s = (if starts_with ''0b'' s then drop 2 s else s)"

definition parse_opcode :: "string \<Rightarrow> (int \<times> bool \<times> nat) option res" where
  "parse_opcode op_str =
     (if \<not> is_numeric op_str then Inr None
      else rbind (make_numeric op_str) (\<lambda>val.
        if is_binary op_str
        then let bin_str = no_underscores (strip_0b op_str)
             in if 8 < length bin_str then Inl (Die ''Unexpectedly long binary opcode'')
                else if length bin_str < 8
                then Inr (Some (push_bit (8 - length bin_str) val, True, 8 - length bin_str))
                else Inr (Some (val, False, 0))
        else Inr (Some (val, False, 0))))"

text \<open>
  \<open>_get_map_opcode\<close>: the first map of the encoding space whose search pattern occurs in the text.
  An absent opcode word is an error, as is one that is no number.
\<close>

fun get_map_opcode :: "string \<Rightarrow> string \<Rightarrow> map_info list \<Rightarrow> (map_info \<times> int \<times> bool \<times> nat) res" where
  "get_map_opcode text space [] = Inl (Die ''Did not find map / opcode'')"
| "get_map_opcode text space (mi # mis) =
     (if mspace mi = space \<and> (search_pattern mi = [] \<or> str_in (search_pattern mi) text)
      then (case py_index (split_words text) (opcpos mi) of
              Inl e \<Rightarrow> Inl (Die ''Did not find any opcode position'')
            | Inr w \<Rightarrow> rbind (parse_opcode w) (\<lambda>r.
                case r of
                  None \<Rightarrow> Inl (Die ''Did failed to convert opcode'')
                | Some (val, inc, missing) \<Rightarrow> Inr (mi, val, inc, missing)))
      else get_map_opcode text space mis)"

text \<open>\<open>reg_binding_pattern\<close>: \<open>REG[\<close>, a binary number, \<open>]\<close>, at the start of a word.\<close>

definition match_reg_binding :: "string \<Rightarrow> string option" where
  "match_reg_binding w =
     (if starts_with ''REG[0b'' w
      then let bits = takeWhile is_bit_or_underscore (drop 6 w); r = dropWhile is_bit_or_underscore (drop 6 w)
           in if bits \<noteq> [] \<and> starts_with '']'' r then Some (''0b'' @ bits) else None
      else None)"

definition set_ext_opcode :: "string list \<Rightarrow> int option res" where
  "set_ext_opcode words =
     (case first_some match_reg_binding words of
        None \<Rightarrow> Inr None
      | Some bits \<Rightarrow> rbind (make_numeric bits) (\<lambda>v. Inr (Some v)))"

text \<open>\<open>list.remove\<close> raises \<open>ValueError\<close> when the element is absent.\<close>

definition py_remove :: "'a \<Rightarrow> 'a list \<Rightarrow> 'a list res" where
  "py_remove x xs = (if x \<in> set xs then Inr (remove1 x xs) else Inl ValueError)"

fun set_mode :: "int list \<Rightarrow> bit_info list \<Rightarrow> int list res" where
  "set_mode mode_space [] = Inr mode_space"
| "set_mode mode_space (bt # bts) =
     (if btoken bt = Some ''MODE''
      then (case (btest bt, brequirement bt) of
              (Some OdEq, Some req) \<Rightarrow> Inr [req]
            | (_, Some req) \<Rightarrow> py_remove req mode_space
            | _ \<Rightarrow> Inl ValueError)
      else set_mode mode_space bts)"

definition pattern_new ::
  "map_info list \<Rightarrow> int list \<Rightarrow> space \<Rightarrow> instruction \<Rightarrow> pattern res" where
  "pattern_new map_infos mode_space all_space ii =
     rbind (set_constraints ii all_space) (\<lambda>(c, special).
     rbind (set_vexvalid special) (\<lambda>v.
     rbind (vexvalid_to_encoding_space v) (\<lambda>es.
     rbind (get_map_opcode (i_pattern ii) es map_infos) (\<lambda>(mi, val, inc, missing).
     rbind (set_ext_opcode (split_words (i_pattern ii))) (\<lambda>ext.
     rbind (set_mode mode_space (i_bits ii)) (\<lambda>m.
       Inr \<lparr>ptrn = i_pattern ii, p_iclass = i_iclass ii, p_bits = i_bits ii, p_inum = i_inum ii,
            constraints = c, special_constraints = special, vv = v, encspace = es,
            insn_map = map_name mi, opcode = hex_int val, incomplete_opcode = inc,
            missing_bits = missing, ext_opcode = ext, mode = m\<rparr>))))))"

text \<open>
  A register in the opcode byte: one copy of the pattern for each value of the missing bits but 0,
  which the pattern itself stands for.
\<close>

definition expand_partial_opcode :: "pattern \<Rightarrow> pattern list res" where
  "expand_partial_opcode p =
     (if incomplete_opcode p \<and> (str_in ''RM[rrr]'' (ptrn p) \<or> str_in ''REG[rrr]'' (ptrn p))
      then rbind (make_numeric (opcode p)) (\<lambda>opc.
             Inr (map (\<lambda>i. p\<lparr>opcode := hex_int (opc OR int i)\<rparr>) [1..<2 ^ missing_bits p]))
      else Inr [])"

definition get_patterns ::
  "map_info list \<Rightarrow> int list \<Rightarrow> space \<Rightarrow> instruction list \<Rightarrow> pattern list res" where
  "get_patterns map_infos machine_modes all_space instructions =
     rbind (mapM (\<lambda>ii.
         rbind (pattern_new map_infos machine_modes all_space ii) (\<lambda>p.
           if incomplete_opcode p
           then rbind (expand_partial_opcode p) (\<lambda>ps. Inr (p # ps))
           else Inr [p])) instructions)
       (\<lambda>pss. Inr (concat pss))"

section \<open>Opcodes of a partial pattern\<close>

lemma parse_opcode_incomplete:
  assumes "parse_opcode s = Inr (Some (val, inc, k))"
  shows "inc \<longleftrightarrow> 0 < k" and "k \<le> 8" and "\<exists>v. val = push_bit k v"
  using assms
  by (auto simp: parse_opcode_def rbind_eq_Inr Let_def split: if_splits intro: exI [of _ val])

lemma or_low_bits:
  assumes "i < 2 ^ k" shows "(push_bit k v OR int i) = push_bit k v + int i"
proof -
  have t: "take_bit k (int i) = int i" using assms by (simp add: take_bit_int_eq_self)
  have "push_bit k v AND take_bit k (int i) = 0"
    by (rule bit_eqI) (auto simp: bit_simps)
  then have "push_bit k v AND int i = 0" by (simp only: t)
  then show ?thesis by (simp add: disjunctive_add_eq_or)
qed

text \<open>
  The pattern and its copies cover the opcodes from its own up to the next multiple of the missing
  power of two, each once.
\<close>

lemma expand_partial_opcode_covers:
  assumes opc: "opcode p = hex_int (push_bit (missing_bits p) v)" and v: "0 \<le> v"
    and inc: "incomplete_opcode p" "str_in ''RM[rrr]'' (ptrn p) \<or> str_in ''REG[rrr]'' (ptrn p)"
  shows "\<exists>ps. expand_partial_opcode p = Inr ps \<and>
    map opcode (p # ps) = map (\<lambda>i. hex_int (push_bit (missing_bits p) v + int i)) [0..<2 ^ missing_bits p] \<and>
    (\<forall>q \<in> set ps. q\<lparr>opcode := opcode p\<rparr> = p)"
proof -
  let ?k = "missing_bits p"
  have nn: "0 \<le> push_bit ?k v" using v by simp
  then have "make_numeric (opcode p) = Inr (push_bit ?k v)"
    using make_numeric_hex [of "nat (push_bit ?k v)"] by (simp add: opc hex_int_def)
  then have e: "expand_partial_opcode p =
      Inr (map (\<lambda>i. p\<lparr>opcode := hex_int (push_bit ?k v OR int i)\<rparr>) [1..<2 ^ ?k])"
    using inc by (simp add: expand_partial_opcode_def)
  have "[0..<2 ^ ?k] = 0 # [1..<2 ^ ?k]" by (simp add: upt_rec)
  then have "map opcode (p # map (\<lambda>i. p\<lparr>opcode := hex_int (push_bit ?k v OR int i)\<rparr>) [1..<2 ^ ?k]) =
      map (\<lambda>i. hex_int (push_bit ?k v + int i)) [0..<2 ^ ?k]"
    using opc by (simp add: or_low_bits)
  with e show ?thesis by auto
qed

section \<open>Patterns built from instructions\<close>

lemma py_int_nonneg:
  assumes "CHR ''-'' \<notin> set s" "py_int b s = Inr v"
  shows "0 \<le> v"
proof -
  have "CHR ''-'' \<notin> set (strip s)" using assms(1) set_strip [of s] by blast
  then have "\<not> starts_with ''-'' (strip s)" by (auto dest: set_starts_with)
  with assms(2) show ?thesis by (auto simp: py_int_def Let_def split: option.splits)
qed

lemma binary_match_no_minus:
  assumes "make_numeric_binary_match s"
  shows "CHR ''-'' \<notin> set s"
proof -
  have plain: "CHR ''-'' \<notin> set t" if "starts_with ''0b'' t" "all_nonempty is_bit_or_underscore (drop 2 t)" for t
  proof -
    have a: "take 2 t = ''0b''" using that(1) by (simp add: starts_with_def numeral_2_eq_2)
    have "\<not> is_bit_or_underscore CHR ''-''" by (simp add: is_bit_or_underscore_def)
    moreover have "\<forall>c \<in> set (drop 2 t). is_bit_or_underscore c"
      using that(2) unfolding all_nonempty_def list_all_iff by blast
    ultimately have b: "CHR ''-'' \<notin> set (drop 2 t)" by blast
    show ?thesis
    proof
      assume "CHR ''-'' \<in> set t"
      then have "CHR ''-'' \<in> set (take 2 t)" using b by (metis Un_iff append_take_drop_id set_append)
      then show False unfolding a by simp
    qed
  qed
  have "CHR ''-'' \<in> set s \<Longrightarrow> CHR ''-'' \<in> set (chop_newline s)"
    by (induction s rule: rev_induct) (auto simp: chop_newline_def)
  with assms plain show ?thesis by (auto simp: make_numeric_binary_match_def re_line_def)
qed

lemma make_numeric_binary_nonneg:
  assumes "make_numeric_binary_match s" "make_numeric s = Inr v"
  shows "0 \<le> v"
  using assms py_int_nonneg [OF binary_match_no_minus]
  by (auto simp: make_numeric_def split: if_splits)

lemma parse_opcode_nonneg:
  assumes "parse_opcode s = Inr (Some (val, True, k))"
  shows "\<exists>v. val = push_bit k v \<and> 0 \<le> v \<and> 0 < k"
proof -
  from assms obtain w where w: "make_numeric s = Inr w" "is_binary s" "val = push_bit k w" "0 < k"
    by (auto simp: parse_opcode_def rbind_eq_Inr Let_def split: if_splits)
  then have "0 \<le> w" using make_numeric_binary_nonneg by (simp add: is_binary_def)
  with w show ?thesis by auto
qed

lemma get_map_opcode_Inr:
  assumes "get_map_opcode text sp mis = Inr (mi, val, inc, missing)"
  shows "\<exists>pre post w. mis = pre @ mi # post \<and> mspace mi = sp \<and>
    (search_pattern mi = [] \<or> str_in (search_pattern mi) text) \<and>
    (\<forall>m \<in> set pre. mspace m = sp \<longrightarrow> \<not> str_in (search_pattern m) text) \<and>
    py_index (split_words text) (opcpos mi) = Inr w \<and> parse_opcode w = Inr (Some (val, inc, missing))"
  using assms
proof (induction mis)
  case Nil
  then show ?case by simp
next
  case (Cons m mis)
  show ?case
  proof (cases "mspace m = sp \<and> (search_pattern m = [] \<or> str_in (search_pattern m) text)")
    case True
    with Cons.prems have "m = mi"
      "\<exists>w. py_index (split_words text) (opcpos mi) = Inr w \<and> parse_opcode w = Inr (Some (val, inc, missing))"
      by (auto simp: rbind_eq_Inr split: sum.splits option.splits)
    then obtain w where "m = mi" "py_index (split_words text) (opcpos mi) = Inr w"
      "parse_opcode w = Inr (Some (val, inc, missing))" by blast
    with True show ?thesis by (intro exI [of _ "[]"] exI [of _ mis] exI [of _ w]) auto
  next
    case False
    then have "get_map_opcode text sp mis = Inr (mi, val, inc, missing)" using Cons.prems by auto
    from Cons.IH [OF this] obtain pre post w where *: "mis = pre @ mi # post" "mspace mi = sp"
      "search_pattern mi = [] \<or> str_in (search_pattern mi) text"
      "\<forall>m \<in> set pre. mspace m = sp \<longrightarrow> \<not> str_in (search_pattern m) text"
      "py_index (split_words text) (opcpos mi) = Inr w" "parse_opcode w = Inr (Some (val, inc, missing))"
      by blast
    then show ?thesis using False by (intro exI [of _ "m # pre"] exI [of _ post] exI [of _ w]) auto
  qed
qed

lemma pattern_new_Inr:
  assumes "pattern_new mis ms sp ii = Inr p"
  shows "\<exists>mi val w. get_map_opcode (i_pattern ii) (encspace p) mis = Inr (mi, val, incomplete_opcode p, missing_bits p) \<and>
    insn_map p = map_name mi \<and> opcode p = hex_int val \<and> ptrn p = i_pattern ii \<and>
    vexvalid_to_encoding_space (vv p) = Inr (encspace p)"
proof -
  from assms obtain c special v es mi val inc missing ext m where
    *: "get_map_opcode (i_pattern ii) es mis = Inr (mi, val, inc, missing)"
    "vexvalid_to_encoding_space v = Inr es"
    and p: "p = \<lparr>ptrn = i_pattern ii, p_iclass = i_iclass ii, p_bits = i_bits ii, p_inum = i_inum ii,
            constraints = c, special_constraints = special, vv = v, encspace = es,
            insn_map = map_name mi, opcode = hex_int val, incomplete_opcode = inc,
            missing_bits = missing, ext_opcode = ext, mode = m\<rparr>"
    by (auto simp: pattern_new_def rbind_eq_Inr)
  show ?thesis using * unfolding p by simp
qed

section \<open>Constraints, maps and opcodes of a pattern\<close>

text \<open>
  C30: what the constraints computed for an instruction accept.  On values that are legal for its operand
  deciders, an assignment satisfies them exactly when for every operand they mention some decider or
  some constant captured field of that operand holds.  If the deciders and fields of one operand all make
  the same test (an instruction may well say \<open>MOD[0b11] MOD=3\<close>), that is exactly when every operand decider
  of the pattern holds and every constant captured field has its value.
\<close>

theorem instruction_constraints_exact:
  assumes "get_ii_constraints ii sp = Inr c"
    and "\<forall>bt \<in> set (i_bits ii). \<forall>tok. is_operand_decider bt \<longrightarrow> btoken bt = Some tok \<longrightarrow>
      env tok \<in> cvals sp tok"
  shows "(sat env c \<longleftrightarrow> (\<forall>n. din n c \<longrightarrow>
       (\<exists>bt \<in> set (i_bits ii). is_operand_decider bt \<and> btoken bt = Some n \<and> od_holds env bt) \<or>
       (\<exists>nb \<in> set (i_prebindings ii). is_constant (snd nb) \<and> fst nb = n \<and> binding_holds env nb))) \<and>
    (sources_agree ii \<longrightarrow>
      (sat env c \<longleftrightarrow>
       (\<forall>bt \<in> set (i_bits ii). is_operand_decider bt \<longrightarrow> od_holds env bt) \<and>
       (\<forall>nb \<in> set (i_prebindings ii). is_constant (snd nb) \<longrightarrow> binding_holds env nb)))"
proof
  show "sat env c \<longleftrightarrow> (\<forall>n. din n c \<longrightarrow>
       (\<exists>bt \<in> set (i_bits ii). is_operand_decider bt \<and> btoken bt = Some n \<and> od_holds env bt) \<or>
       (\<exists>nb \<in> set (i_prebindings ii). is_constant (snd nb) \<and> fst nb = n \<and> binding_holds env nb))"
    using get_ii_constraints_union(1) [OF assms]
    unfolding sat_def some_source [of ii _ "source_holds env"] source_simps(1,2) by blast
qed (use get_ii_constraints_sat [OF assms(1) _ assms(2)] in blast)

text \<open>\<open>MOD[0b11] MOD=3\<close>\<close>

definition one_bit :: "int \<Rightarrow> bit_info" where
  "one_bit pb = \<lparr>btype = BBit, bvalue = ''1'', pbit = pb, btoken = None, btest = None, brequirement = None\<rparr>"

definition field_instruction :: instruction where
  "field_instruction =
     \<lparr>i_iclass = Some ''POP'', i_pattern = ''0x8F MOD[0b11] MOD=3'',
      i_bits = [\<lparr>btype = BOperand, bvalue = ''MOD=3'', pbit = 10, btoken = Some ''MOD'', btest = Some OdEq,
                 brequirement = Some 3\<rparr>],
      i_prebindings = [(''MOD'', add_bit (one_bit 9) (add_bit (one_bit 8) (prebinding_new ''MOD'')))],
      i_inum = 7\<rparr>"

definition sample_instruction :: instruction where
  "sample_instruction =
     \<lparr>i_iclass = Some ''POP'', i_pattern = ''0b0101_1 REG[rrr] MOD!=3'',
      i_bits = [\<lparr>btype = BOperand, bvalue = ''MOD!=3'', pbit = 8, btoken = Some ''MOD'', btest = Some OdNe,
                 brequirement = Some 3\<rparr>],
      i_prebindings = [], i_inum = 7\<rparr>"

definition sample_space :: space where
  "sample_space = [(''MOD'', [(0, True), (1, True), (2, True), (3, True)])]"

theorem instruction_constraints_exact_witness:
  "\<exists>c. get_ii_constraints field_instruction sample_space = Inr c \<and> sat (\<lambda>_. 3) c \<and> \<not> sat (\<lambda>_. 1) c"
proof -
  let ?c = "[(''MOD'', [(3, True)])]"
  have c: "get_ii_constraints field_instruction sample_space = Inr ?c" by code_simp
  have o: "sources_agree field_instruction" by code_simp
  have f: "binding_holds (\<lambda>_. 3) (hd (i_prebindings field_instruction))"
    "\<not> binding_holds (\<lambda>_. 1) (hd (i_prebindings field_instruction))" by code_simp+
  have "sat (\<lambda>_. k) ?c \<longleftrightarrow> k = 3 \<and> binding_holds (\<lambda>_. k) (hd (i_prebindings field_instruction))"
    if "k = 1 \<or> k = 3" for k :: int
    using instruction_constraints_exact [OF c, of "\<lambda>_. k"] o that
    by (auto simp: field_instruction_def sample_space_def dget_default_def od_holds_def is_operand_decider_def
        is_constant_def add_bit_def prebinding_new_def one_bit_def is_dont_care_def)
  from this [of 1] this [of 3] f c show ?thesis by auto
qed

text \<open>
  A pattern is put in the first map of its encoding space, in the order of the maps, whose search
  pattern occurs in its text, and its encoding space is the one its \<open>VEXVALID\<close> value names.
\<close>

lemma pattern_first_map:
  assumes "pattern_new mis modes sp ii = Inr p"
  shows "vexvalid_to_encoding_space (vv p) = Inr (encspace p) \<and>
    (\<exists>pre mi post. mis = pre @ mi # post \<and> insn_map p = map_name mi \<and> mspace mi = encspace p \<and>
      (search_pattern mi = [] \<or> str_in (search_pattern mi) (ptrn p)) \<and>
      (\<forall>m \<in> set pre. mspace m = encspace p \<longrightarrow> \<not> str_in (search_pattern m) (ptrn p)))"
proof -
  from pattern_new_Inr [OF assms] obtain mi val where
    *: "get_map_opcode (ptrn p) (encspace p) mis = Inr (mi, val, incomplete_opcode p, missing_bits p)"
    "insn_map p = map_name mi" "vexvalid_to_encoding_space (vv p) = Inr (encspace p)" by auto
  from get_map_opcode_Inr [OF *(1)] *(2,3) show ?thesis by blast
qed

definition sample_maps :: "map_info list" where
  "sample_maps = [sample_map (MapNum 1) False,
     (sample_map (MapNum 0) False)\<lparr>map_name := ''m0'', search_pattern := [], opcpos := 0\<rparr>]"

definition sample_pattern :: pattern where
  "sample_pattern =
     \<lparr>ptrn = ''0b0101_1 REG[rrr] MOD!=3'', p_iclass = Some ''POP'', p_bits = i_bits sample_instruction,
      p_inum = 7, constraints = [(''MOD'', [(0, True), (1, True), (2, True)])],
      special_constraints = [(''VEXVALID'', [(0, True)])], vv = 0, encspace = ''legacy'', insn_map = ''m0'',
      opcode = ''0x58'', incomplete_opcode = True, missing_bits = 3, ext_opcode = None, mode = [0, 1, 2]\<rparr>"

lemma sample_pattern_new: "pattern_new sample_maps [0, 1, 2] sample_space sample_instruction = Inr sample_pattern"
  by code_simp

lemma pattern_first_map_witness:
  "\<exists>mi. insn_map sample_pattern = map_name mi \<and> mi \<in> set sample_maps \<and> mspace mi = ''legacy''"
proof -
  have "encspace sample_pattern = ''legacy''" by (simp add: sample_pattern_def)
  with pattern_first_map [OF sample_pattern_new] show ?thesis by (metis in_set_conv_decomp)
qed

text \<open>
  A pattern whose opcode byte ends in a register field stands, with its copies, for every value of
  the missing bits: one pattern per opcode, the opcodes consecutive from the pattern's own, and the
  copies differ from it in nothing else.
\<close>

lemma partial_opcode_expansion:
  assumes "pattern_new mis modes sp ii = Inr p" and "incomplete_opcode p"
    and "str_in ''RM[rrr]'' (ptrn p) \<or> str_in ''REG[rrr]'' (ptrn p)"
  shows "\<exists>ps v. expand_partial_opcode p = Inr ps \<and> 0 < missing_bits p \<and> missing_bits p \<le> 8 \<and>
    opcode p = hex_int v \<and> take_bit (missing_bits p) v = 0 \<and>
    map opcode (p # ps) = map (\<lambda>i. hex_int (v + int i)) [0..<2 ^ missing_bits p] \<and>
    (\<forall>q \<in> set ps. q\<lparr>opcode := opcode p\<rparr> = p)"
proof -
  from pattern_new_Inr [OF assms(1)] obtain mi val where
    "get_map_opcode (ptrn p) (encspace p) mis = Inr (mi, val, incomplete_opcode p, missing_bits p)"
    "opcode p = hex_int val" by auto
  with get_map_opcode_Inr assms(2) obtain w where
    w: "parse_opcode w = Inr (Some (val, True, missing_bits p))" "opcode p = hex_int val" by metis
  from parse_opcode_nonneg [OF w(1)] obtain v where
    v: "val = push_bit (missing_bits p) v" "0 \<le> v" "0 < missing_bits p" by blast
  have "take_bit (missing_bits p) val = 0" unfolding v(1) by (simp add: take_bit_push_bit)
  with expand_partial_opcode_covers [OF w(2) [unfolded v(1)] v(2) assms(2,3)] w v
    parse_opcode_incomplete(2) [OF w(1)]
  show ?thesis by metis
qed

lemma partial_opcode_expansion_witness:
  "\<exists>ps. expand_partial_opcode sample_pattern = Inr ps \<and> length ps = 7 \<and>
     (\<forall>q \<in> set ps. q\<lparr>opcode := ''0x58''\<rparr> = sample_pattern)"
proof -
  have f: "incomplete_opcode sample_pattern" "missing_bits sample_pattern = 3" "opcode sample_pattern = ''0x58''"
    "str_in ''RM[rrr]'' (ptrn sample_pattern) \<or> str_in ''REG[rrr]'' (ptrn sample_pattern)" by code_simp+
  from partial_opcode_expansion [OF sample_pattern_new f(1,4)] obtain ps v where
    ps: "expand_partial_opcode sample_pattern = Inr ps"
    and m: "map opcode (sample_pattern # ps) = map (\<lambda>i. hex_int (v + int i)) [0..<2 ^ missing_bits sample_pattern]"
    and eq: "\<forall>q \<in> set ps. q\<lparr>opcode := opcode sample_pattern\<rparr> = sample_pattern" by blast
  from arg_cong [OF m, of length] have "length ps = 7" by (simp add: f(2))
  with ps eq f(3) show ?thesis by auto
qed

end
