(* ===== verification/Ild_Tables.thy ===== *)
theory Ild_Tables
  imports Ild_Pattern
begin

text \<open>
  The tables of the length decoder: the info objects of the patterns and their storage by map and
  opcode (\<open>pysrc/ild_info.py\<close>, \<open>ild_storage.py\<close>), the has-MODRM table (\<open>ild_modrm.py\<close>), the
  nonterminal sequences of a pattern and the mappings from operand values they define (\<open>ild_nt.py\<close>).
\<close>

section \<open>Nonterminal sequences of a pattern\<close>

text \<open>\<open>re.sub('[(][)]', '', w)\<close>: every \<open>()\<close> removed.\<close>

fun strip_brackets :: "string \<Rightarrow> string" where
  "strip_brackets (a # b # s) =
     (if a = CHR ''('' \<and> b = CHR '')'' then strip_brackets s else a # strip_brackets (b # s))"
| "strip_brackets s = s"

definition get_nt_seq :: "string list \<Rightarrow> string list \<Rightarrow> string option \<Rightarrow> string list" where
  "get_nt_seq ptrn_wrds nt_list implied_nt =
     (case implied_nt of None \<Rightarrow> [] | Some nt \<Rightarrow> if nt = [] then [] else [nt]) @
     filter (\<lambda>w. w \<in> set nt_list) (map strip_brackets ptrn_wrds)"

definition get_eosz_nt_seq :: "string list \<Rightarrow> string list \<Rightarrow> string list" where
  "get_eosz_nt_seq ptrn_wrds eosz_nts = get_nt_seq ptrn_wrds eosz_nts (Some ''OSZ_NONTERM'')"

definition get_easz_nt_seq :: "string list \<Rightarrow> string list \<Rightarrow> string list" where
  "get_easz_nt_seq ptrn_wrds easz_nts = get_nt_seq ptrn_wrds easz_nts (Some ''ASZ_NONTERM'')"

definition get_imm_nt_seq :: "string list \<Rightarrow> string list \<Rightarrow> string list" where
  "get_imm_nt_seq ptrn_wrds imm_nts = get_nt_seq ptrn_wrds (imm_nts @ [''UIMM8_1'']) None"

definition get_disp_nt_seq :: "string list \<Rightarrow> string list \<Rightarrow> string list" where
  "get_disp_nt_seq ptrn_wrds disp_nts = get_nt_seq ptrn_wrds disp_nts None"

section \<open>MODRM of a pattern\<close>

definition is_ignored_mod :: "string \<Rightarrow> bool" where
  "is_ignored_mod p \<longleftrightarrow>
     str_in ''MOD['' p \<and> \<not> str_in ''VMODRM'' p \<and> \<not> str_in ''MODRM()'' p \<and> \<not> str_in ''MOD=3'' p"

definition bool2has_modrm_str :: "bool option \<Rightarrow> string" where
  "bool2has_modrm_str val =
     (case val of
        None \<Rightarrow> ''XED_ILD_HASMODRM_UNDEF''
      | Some v \<Rightarrow> if v then ''XED_ILD_HASMODRM_TRUE'' else ''XED_ILD_HASMODRM_FALSE'')"

definition get_hasmodrm :: "string \<Rightarrow> string" where
  "get_hasmodrm p =
     (if is_ignored_mod p then ''XED_ILD_HASMODRM_IGNORE_MOD''
      else bool2has_modrm_str (Some (str_in ''MODRM()'' p \<or> str_in ''MOD['' p)))"

section \<open>Info objects\<close>

record ild_info =
  nfo_vexvalid :: int
  nfo_map :: string
  nfo_opcode :: string
  nfo_incomplete :: bool
  nfo_missing :: nat
  nfo_ext_opcode :: "int option"
  nfo_mode :: "int list"
  nfo_has_modrm :: string
  nfo_eosz_nt_seq :: "string list"
  nfo_easz_nt_seq :: "string list"
  nfo_imm_nt_seq :: "string list"
  nfo_disp_nt_seq :: "string list"
  nfo_priority :: int
  nfo_ptrn_wrds :: "string list"

text \<open>Which nonterminals bind which size.\<close>

record nt_names =
  eosz_nts :: "string list"
  easz_nts :: "string list"
  imm_nts :: "string list"
  disp_nts :: "string list"

definition ptrn_to_info :: "nt_names \<Rightarrow> int \<Rightarrow> pattern \<Rightarrow> ild_info" where
  "ptrn_to_info nts prio p =
     (let words = split_words (ptrn p)
      in \<lparr>nfo_vexvalid = vv p, nfo_map = insn_map p, nfo_opcode = opcode p,
          nfo_incomplete = incomplete_opcode p, nfo_missing = missing_bits p,
          nfo_ext_opcode = ext_opcode p, nfo_mode = mode p, nfo_has_modrm = get_hasmodrm (ptrn p),
          nfo_eosz_nt_seq = get_eosz_nt_seq words (eosz_nts nts),
          nfo_easz_nt_seq = get_easz_nt_seq words (easz_nts nts),
          nfo_imm_nt_seq = get_imm_nt_seq words (imm_nts nts),
          nfo_disp_nt_seq = get_disp_nt_seq words (disp_nts nts),
          nfo_priority = prio, nfo_ptrn_wrds = words\<rparr>)"

text \<open>Equality skips \<open>vexvalid\<close>, the priority and the words.\<close>

definition ild_info_eq :: "ild_info \<Rightarrow> ild_info \<Rightarrow> bool" where
  "ild_info_eq a b \<longleftrightarrow>
     nfo_map a = nfo_map b \<and> nfo_opcode a = nfo_opcode b \<and> nfo_has_modrm a = nfo_has_modrm b \<and>
     nfo_ext_opcode a = nfo_ext_opcode b \<and> nfo_mode a = nfo_mode b \<and>
     nfo_eosz_nt_seq a = nfo_eosz_nt_seq b \<and> nfo_easz_nt_seq a = nfo_easz_nt_seq b \<and>
     nfo_imm_nt_seq a = nfo_imm_nt_seq b \<and> nfo_disp_nt_seq a = nfo_disp_nt_seq b"

definition get_min_prio_list :: "ild_info list \<Rightarrow> ild_info list" where
  "get_min_prio_list info_list =
     (if length info_list = 0 then []
      else let min_prio = Min (set (map nfo_priority info_list))
           in filter (\<lambda>info. nfo_priority info = min_prio) info_list)"

section \<open>Storage\<close>

type_synonym storage = "(string, (string, ild_info list) dict) dict"

definition get_lookup :: "string list \<Rightarrow> storage" where
  "get_lookup map_names = fold (\<lambda>m d. dset m [] d) map_names []"

definition get_info_list :: "storage \<Rightarrow> string \<Rightarrow> string \<Rightarrow> ild_info list res" where
  "get_info_list st m opc =
     (case map_of st m of
        None \<Rightarrow> Inl (Die ''get_info_list failed'')
      | Some d \<Rightarrow> Inr (dget_default d opc []))"

definition append_info :: "string \<Rightarrow> string \<Rightarrow> ild_info \<Rightarrow> storage \<Rightarrow> storage res" where
  "append_info m opc info st =
     rbind (dget st m) (\<lambda>d. Inr (dset m (dset opc (dget_default d opc [] @ [info]) d) st))"

definition get_all_infos :: "storage \<Rightarrow> ild_info list" where
  "get_all_infos st = concat (map (\<lambda>d. concat (dvals d)) (dvals st))"

definition store_pattern :: "nt_names \<Rightarrow> int \<Rightarrow> pattern \<Rightarrow> storage \<Rightarrow> storage res" where
  "store_pattern nts prio p st =
     (let info = ptrn_to_info nts prio p
      in rbind (get_info_list st (insn_map p) (opcode p)) (\<lambda>infos.
           if list_ex (ild_info_eq info) infos then Inr st
           else append_info (insn_map p) (opcode p) info st))"

definition get_info_storage ::
  "string list \<Rightarrow> nt_names \<Rightarrow> int \<Rightarrow> pattern list \<Rightarrow> storage res" where
  "get_info_storage map_names nts prio ptrn_list =
     foldM (store_pattern nts prio) ptrn_list (get_lookup map_names)"

section \<open>The has-MODRM table\<close>

text \<open>\<open>init_ild_gap\<close>: no MODRM in the holes of legacy maps 0 and 1.\<close>

definition init_ild_gap :: "(string, (nat, string) dict) dict" where
  "init_ild_gap =
     [(''legacy_map0'', map (\<lambda>opc. (opc, ''no'')) [0..<256]),
      (''legacy_map1'', map (\<lambda>opc. (opc, ''no'')) [0..<256])]"

definition ild_gap_modrm :: "(string, (nat, string) dict) dict \<Rightarrow> string \<Rightarrow> nat \<Rightarrow> string res" where
  "ild_gap_modrm gaps m opc = rbind (dget gaps m) (\<lambda>d. dget d opc)"

definition get_modrm_gap :: "(string, (nat, string) dict) dict \<Rightarrow> string \<Rightarrow> nat \<Rightarrow> string res" where
  "get_modrm_gap gaps m opc =
     rbind (ild_gap_modrm gaps m opc) (\<lambda>g.
       Inr (if g = ''yes'' then ''XED_ILD_HASMODRM_TRUE''
            else if g = ''no'' then ''XED_ILD_HASMODRM_FALSE''
            else ''XED_ILD_HASMODRM_UNDEF''))"

definition is_modrm_conflict :: "ild_info list \<Rightarrow> bool" where
  "is_modrm_conflict info_list =
     (case info_list of
        [] \<Rightarrow> False
      | [_] \<Rightarrow> False
      | first # rest \<Rightarrow> list_ex (\<lambda>info. nfo_has_modrm first \<noteq> nfo_has_modrm info) rest)"

definition alias_map :: "string \<Rightarrow> string option" where
  "alias_map m =
     (if m \<in> {''evex_map1'', ''vex_map1''} then Some ''legacy_map1''
      else if m \<in> {''evex_map0'', ''vex_map0''} then Some ''legacy_map0''
      else None)"

definition find_decoding_length_alias ::
  "(string, (nat, string) dict) dict \<Rightarrow> storage \<Rightarrow> string \<Rightarrow> nat \<Rightarrow> string res" where
  "find_decoding_length_alias gaps st m opc =
     (case alias_map m of
        None \<Rightarrow> Inr ''XED_ILD_HASMODRM_UNDEF''
      | Some legacy_map \<Rightarrow>
          rbind (get_info_list st legacy_map (hex_nat opc)) (\<lambda>info_list.
            let info_list = get_min_prio_list info_list
            in if length info_list = 0 then get_modrm_gap gaps legacy_map opc
               else if is_modrm_conflict info_list
                 then if legacy_map = ''legacy_map1'' \<and> opc = 0xFF then Inr ''XED_ILD_HASMODRM_UD0''
                      else Inl (Die ''ILD_MODRM: Conflict'')
               else Inr (nfo_has_modrm (hd info_list))))"

definition modrm_entry ::
  "(string, (nat, string) dict) dict \<Rightarrow> storage \<Rightarrow> string \<Rightarrow> nat \<Rightarrow> string res" where
  "modrm_entry gaps st m opc =
     rbind (get_info_list st m (hex_nat opc)) (\<lambda>info_list.
       let info_list = get_min_prio_list info_list
       in if length info_list = 0 then find_decoding_length_alias gaps st m opc
          else if is_modrm_conflict info_list
            then if m = ''legacy_map1'' \<and> opc = 0xFF then Inr ''XED_ILD_HASMODRM_UD0''
                 else Inl (Die ''UNRESOLVED CONFLICT IN MODRM'')
          else Inr (nfo_has_modrm (hd info_list)))"

definition gen_modrm_lookup ::
  "(string, (nat, string) dict) dict \<Rightarrow> map_info list \<Rightarrow> storage
     \<Rightarrow> (string, (string, string) dict) dict res" where
  "gen_modrm_lookup gaps map_infos st =
     foldM (\<lambda>m d.
         rbind (mapM (modrm_entry gaps st m) [0..<256]) (\<lambda>vs.
           Inr (dset m (zip (map hex_nat [0..<256]) vs) d)))
       (map map_name (filter has_variable_modrm map_infos)) []"

section \<open>Mappings defined by nonterminals\<close>

text \<open>A row gives values to operands; a mapping lists rows with the value bound for each.\<close>

type_synonym row = "(string, int) dict"
type_synonym mapping = "(row list \<times> string) list"

fun row_match :: "row \<Rightarrow> row \<Rightarrow> bool res" where
  "row_match base_row [] = Inr True"
| "row_match base_row ((opn, val) # row) =
     (case map_of base_row opn of
        Some v \<Rightarrow> if v \<noteq> val then Inr False else row_match base_row row
      | None \<Rightarrow> Inl (Die ''BASE ROW does not have OD''))"

text \<open>One row of the overriding mapping over every row of the base.\<close>

definition flat :: "mapping \<Rightarrow> (row \<times> string) list" where
  "flat m = concat (map (\<lambda>(rows, v). map (\<lambda>r. (r, v)) rows) m)"

definition override_row :: "row \<Rightarrow> string \<Rightarrow> mapping \<Rightarrow> mapping res" where
  "override_row row value base_mapping =
     mapM (\<lambda>(base_row, base_value).
         rbind (row_match base_row row) (\<lambda>is_match.
           Inr ([base_row], if is_match then value else base_value)))
       (flat base_mapping)"

definition override_mapping :: "mapping \<Rightarrow> mapping \<Rightarrow> mapping res" where
  "override_mapping base_mapping all_values =
     foldM (\<lambda>(row, value) m. override_row row value m) (flat all_values) base_mapping"

fun combine_mapping_seq :: "mapping \<Rightarrow> mapping list \<Rightarrow> mapping option res" where
  "combine_mapping_seq cur_map [] = Inr (Some cur_map)"
| "combine_mapping_seq cur_map (all_values # map_list) =
     rbind (override_mapping cur_map all_values) (\<lambda>cur_map.
       if cur_map = [] then Inr None else combine_mapping_seq cur_map map_list)"

text \<open>\<open>_generate_lookup_function_indices\<close>: the complete rows a rule stands for.\<close>

definition index_bit :: "(string, int list) dict \<Rightarrow> bit_info \<Rightarrow> (string, int entry) dict
    \<Rightarrow> (string, int entry) dict res" where
  "index_bit all_space bt indices =
     (if is_operand_decider bt
      then (case (btest bt, btoken bt, brequirement bt) of
              (Some OdEq, Some tok, Some req) \<Rightarrow> Inr (dset tok (Scalar req) indices)
            | (Some OdNe, Some tok, Some req) \<Rightarrow>
                rbind (dget all_space tok) (\<lambda>vals.
                  Inr (dset tok (Sublist (filter (\<lambda>x. x \<noteq> req) vals)) indices))
            | _ \<Rightarrow> Inl (Die ''Bad bit test (not eq or ne)''))
      else Inr indices)"

definition add_missing_index :: "string \<times> value_dict \<Rightarrow> (string, int entry) dict
    \<Rightarrow> (string, int entry) dict" where
  "add_missing_index nv indices =
     (if din (fst nv) indices then indices else dset (fst nv) (Sublist (dkeys (snd nv))) indices)"

definition generate_lookup_function_indices ::
  "bit_info list \<Rightarrow> (string, int list) dict \<Rightarrow> space \<Rightarrow> row list res" where
  "generate_lookup_function_indices bits all_space argnames =
     rbind (foldM (index_bit all_space) bits []) (\<lambda>indices.
       flatten_dict (fold add_missing_index argnames indices))"

definition is_constant_mapping :: "mapping \<Rightarrow> bool res" where
  "is_constant_mapping val_dict =
     (case val_dict of
        [] \<Rightarrow> Inl IndexError
      | (_, first_output) # rest \<Rightarrow> Inr (list_all (\<lambda>(_, out_val). out_val = first_output) rest))"

definition get_lufn :: "string list \<Rightarrow> string \<Rightarrow> string \<Rightarrow> string" where
  "get_lufn nt_seq target_op flevel =
     (let lu_fn = ''xed_lookup_function_'' @ join ''_'' nt_seq @ ''_'' @ target_op
      in if 0 < length flevel then lu_fn @ ''_'' @ flevel else lu_fn)"

definition gen_lu_names :: "string list \<Rightarrow> string \<Rightarrow> string \<Rightarrow> string \<times> string \<times> string" where
  "gen_lu_names nt_seq target_op level =
     (let lu_name = join ''_'' nt_seq
      in (''xed_lookup_'' @ lu_name @ ''_'' @ target_op,
          ''xed_lookup_function_init_'' @ lu_name @ ''_'' @ target_op,
          get_lufn nt_seq target_op level))"

section \<open>The minimal priority\<close>

lemma get_min_prio_list_mem:
  "i \<in> set (get_min_prio_list infos) \<longleftrightarrow>
     i \<in> set infos \<and> (\<forall>j \<in> set infos. nfo_priority i \<le> nfo_priority j)"
proof (cases "infos = []")
  case True
  then show ?thesis by (simp add: get_min_prio_list_def)
next
  case False
  let ?P = "set (map nfo_priority infos)"
  have fin: "finite ?P" "?P \<noteq> {}" using False by simp_all
  have "nfo_priority i = Min ?P \<longleftrightarrow> (\<forall>j \<in> set infos. nfo_priority i \<le> nfo_priority j)" if "i \<in> set infos"
    using that unfolding eq_Min_iff [OF fin] by auto
  then show ?thesis using False by (auto simp: get_min_prio_list_def Let_def)
qed

lemma get_min_prio_list_Nil: "get_min_prio_list infos = [] \<longleftrightarrow> infos = []"
proof -
  have "get_min_prio_list infos \<noteq> []" if "infos \<noteq> []"
  proof -
    have "Min (set (map nfo_priority infos)) \<in> set (map nfo_priority infos)" using that by (intro Min_in) simp_all
    then obtain x where "x \<in> set infos" "nfo_priority x = Min (set (map nfo_priority infos))" by auto
    then show ?thesis using that by (auto simp: get_min_prio_list_def Let_def filter_empty_conv)
  qed
  then show ?thesis by (auto simp: get_min_prio_list_def)
qed

text \<open>The table entry of an opcode with infos is the \<open>has_modrm\<close> they all agree on.\<close>

lemma is_modrm_conflict_iff:
  "is_modrm_conflict infos \<longleftrightarrow> (\<exists>a \<in> set infos. \<exists>b \<in> set infos. nfo_has_modrm a \<noteq> nfo_has_modrm b)"
proof (cases infos)
  case Nil
  then show ?thesis by (simp add: is_modrm_conflict_def)
next
  case (Cons first rest)
  have "is_modrm_conflict infos \<longleftrightarrow> (\<exists>b \<in> set rest. nfo_has_modrm first \<noteq> nfo_has_modrm b)"
    unfolding Cons is_modrm_conflict_def by (cases rest) (auto simp: list_ex_iff)
  then show ?thesis unfolding Cons by auto
qed

lemma modrm_entry_agrees:
  assumes e: "modrm_entry gaps st m opc = Inr v" and i: "get_info_list st m (hex_nat opc) = Inr infos"
    and ne: "infos \<noteq> []" and ud0: "\<not> (m = ''legacy_map1'' \<and> opc = 0xFF)"
  shows "\<forall>info \<in> set infos. (\<forall>j \<in> set infos. nfo_priority info \<le> nfo_priority j) \<longrightarrow> nfo_has_modrm info = v"
proof -
  let ?l = "get_min_prio_list infos"
  have l: "?l \<noteq> []" using ne by (simp add: get_min_prio_list_Nil)
  then have "\<not> is_modrm_conflict ?l" "v = nfo_has_modrm (hd ?l)"
    using e i ud0 by (auto simp: modrm_entry_def Let_def split: if_splits)
  moreover have "hd ?l \<in> set ?l" using l by simp
  ultimately have "\<forall>info \<in> set ?l. nfo_has_modrm info = v"
    unfolding is_modrm_conflict_iff by metis
  then show ?thesis by (simp add: get_min_prio_list_mem)
qed

section \<open>Storing infos\<close>

lemma get_info_list_append:
  assumes "append_info m opc info st = Inr st'"
  shows "get_info_list st' m' opc' =
    (if m' = m \<and> opc' = opc
     then rbind (get_info_list st m opc) (\<lambda>infos. Inr (infos @ [info]))
     else get_info_list st m' opc')"
proof -
  from assms obtain d where d: "map_of st m = Some d"
    and st': "st' = dset m (dset opc (dget_default d opc [] @ [info]) d) st"
    by (auto simp: append_info_def rbind_eq_Inr)
  show ?thesis
    by (cases "m' = m"; cases "opc' = opc") (simp_all add: get_info_list_def st' d dget_default_def)
qed

definition same_bin :: "nt_names \<Rightarrow> pattern \<Rightarrow> string \<Rightarrow> string \<Rightarrow> bool" where
  "same_bin nts p m opc \<longleftrightarrow> insn_map p = m \<and> opcode p = opc"

text \<open>
  Every pattern is represented in its bin, by an info equal to its own, and a bin holds only infos
  of its patterns, no two of them equal.
\<close>

definition bin_ok :: "nt_names \<Rightarrow> int \<Rightarrow> pattern list \<Rightarrow> string \<Rightarrow> string \<Rightarrow> ild_info list \<Rightarrow> bool" where
  "bin_ok nts prio ps m opc infos \<longleftrightarrow>
     (\<forall>p \<in> set ps. same_bin nts p m opc \<longrightarrow> (\<exists>i \<in> set infos. ild_info_eq (ptrn_to_info nts prio p) i)) \<and>
     (\<forall>i \<in> set infos. \<exists>p \<in> set ps. same_bin nts p m opc \<and> i = ptrn_to_info nts prio p) \<and>
     sorted_wrt (\<lambda>a b. \<not> ild_info_eq b a) infos"

definition storage_ok :: "nt_names \<Rightarrow> int \<Rightarrow> pattern list \<Rightarrow> storage \<Rightarrow> bool" where
  "storage_ok nts prio ps st \<longleftrightarrow>
     (\<forall>m opc infos. get_info_list st m opc = Inr infos \<longrightarrow> bin_ok nts prio ps m opc infos)"

lemma ild_info_eq_refl [simp]: "ild_info_eq i i"
  by (simp add: ild_info_eq_def)

lemma bin_ok_other: "\<not> same_bin nts p m opc \<Longrightarrow> bin_ok nts prio ps m opc infos \<Longrightarrow>
    bin_ok nts prio (ps @ [p]) m opc infos"
  by (auto simp: bin_ok_def)

lemma store_pattern_ok:
  assumes ok: "storage_ok nts prio ps st" and s: "store_pattern nts prio p st = Inr st'"
  shows "storage_ok nts prio (ps @ [p]) st'"
  unfolding storage_ok_def
proof (intro allI impI)
  fix m opc infos'
  assume g': "get_info_list st' m opc = Inr infos'"
  let ?info = "ptrn_to_info nts prio p"
  from s obtain infos where g: "get_info_list st (insn_map p) (opcode p) = Inr infos"
    by (auto simp: store_pattern_def Let_def rbind_eq_Inr)
  show "bin_ok nts prio (ps @ [p]) m opc infos'"
  proof (cases "same_bin nts p m opc")
    case False
    have "get_info_list st' m opc = get_info_list st m opc"
    proof (cases "list_ex (ild_info_eq ?info) infos")
      case True
      with s g show ?thesis by (simp add: store_pattern_def Let_def)
    next
      case nex: False
      with s g have "append_info (insn_map p) (opcode p) ?info st = Inr st'"
        by (simp add: store_pattern_def Let_def)
      from get_info_list_append [OF this, of m opc] False show ?thesis
        by (auto simp: same_bin_def)
    qed
    with g' ok have "bin_ok nts prio ps m opc infos'" by (simp add: storage_ok_def)
    with False show ?thesis by (intro bin_ok_other)
  next
    case True
    then have m: "m = insn_map p" "opc = opcode p" by (simp_all add: same_bin_def)
    have b: "bin_ok nts prio ps m opc infos" using ok g m by (simp add: storage_ok_def)
    show ?thesis
    proof (cases "list_ex (ild_info_eq ?info) infos")
      case t: True
      with s g have "st' = st" by (simp add: store_pattern_def Let_def)
      with g g' m have "infos' = infos" by simp
      with b t show ?thesis by (auto simp: bin_ok_def list_ex_iff)
    next
      case False
      with s g have "append_info (insn_map p) (opcode p) ?info st = Inr st'"
        by (simp add: store_pattern_def Let_def)
      from get_info_list_append [OF this, of m opc] g g' m have i: "infos' = infos @ [?info]" by simp
      have new: "\<not> ild_info_eq ?info i" if "i \<in> set infos" for i
        using False that by (auto simp: list_ex_iff)
      from b new True show ?thesis by (auto simp: bin_ok_def i sorted_wrt_append)
    qed
  qed
qed

lemma get_lookup_empty: "get_info_list (get_lookup ms) m opc = Inr infos \<Longrightarrow> infos = []"
proof -
  have "map_of (fold (\<lambda>m d. dset m [] d) ms d0) m = Some d \<Longrightarrow> d = [] \<or> map_of d0 m = Some d"
    for d :: "(string, ild_info list) dict" and d0
    by (induction ms arbitrary: d0) (fastforce split: if_splits)+
  then show "get_info_list (get_lookup ms) m opc = Inr infos \<Longrightarrow> infos = []"
    by (fastforce simp: get_info_list_def get_lookup_def split: option.splits)
qed

lemma get_info_storage_ok:
  assumes "get_info_storage ms nts prio ps = Inr st"
  shows "storage_ok nts prio ps st"
proof -
  have "foldM (store_pattern nts prio) qs st0 = Inr st1 \<Longrightarrow> storage_ok nts prio rs st0 \<Longrightarrow>
      storage_ok nts prio (rs @ qs) st1" for qs rs st0 st1
  proof (induction qs arbitrary: rs st0)
    case Nil
    then show ?case by simp
  next
    case (Cons p qs)
    then obtain st2 where "store_pattern nts prio p st0 = Inr st2" "foldM (store_pattern nts prio) qs st2 = Inr st1"
      by (auto simp: rbind_eq_Inr)
    with Cons.IH [of st2 "rs @ [p]"] store_pattern_ok [OF Cons.prems(2)] show ?case by simp
  qed
  moreover have "storage_ok nts prio [] (get_lookup ms)"
    unfolding storage_ok_def bin_ok_def using get_lookup_empty by fastforce
  ultimately show ?thesis using assms by (fastforce simp: get_info_storage_def)
qed

section \<open>What a combined mapping binds\<close>

text \<open>
  The decoder runs the nonterminals in order, each rebinding the operand when one of its rows
  holds: the value after the rows \<open>ovs\<close> from the value \<open>v\<close>.
\<close>

definition row_holds :: "row \<Rightarrow> row \<Rightarrow> bool" where
  "row_holds base_row row \<longleftrightarrow> (\<forall>(opn, val) \<in> set row. map_of base_row opn = Some val)"

definition rebind :: "row \<Rightarrow> (row \<times> string) list \<Rightarrow> string \<Rightarrow> string" where
  "rebind base_row ovs v = fold (\<lambda>(row, value) v. if row_holds base_row row then value else v) ovs v"

lemma row_match_Inr: "row_match base_row row = Inr b \<Longrightarrow> b \<longleftrightarrow> row_holds base_row row"
  by (induction base_row row rule: row_match.induct)
    (auto simp: row_holds_def split: option.splits if_splits)

lemma flat_singletons: "flat (map (\<lambda>p. ([fst p], snd p)) xs) = xs"
  by (induction xs) (auto simp: flat_def)

lemma override_row_flat:
  assumes "override_row row value m = Inr m'"
  shows "flat m' = map (\<lambda>(r, v). (r, rebind r [(row, value)] v)) (flat m)"
proof -
  have m: "mapM (\<lambda>(base_row, base_value).
         rbind (row_match base_row row) (\<lambda>is_match.
           Inr ([base_row], if is_match then value else base_value))) (flat m) = Inr m'"
    using assms by (simp add: override_row_def)
  have "m' = map (\<lambda>p. ([fst p], snd p)) (map (\<lambda>(r, v). (r, rebind r [(row, value)] v)) (flat m))"
  proof (rule nth_equalityI)
    show "length m' = length (map (\<lambda>p. ([fst p], snd p)) (map (\<lambda>(r, v). (r, rebind r [(row, value)] v)) (flat m)))"
      using mapM_Inr_length [OF m] by simp
    fix i assume "i < length m'"
    then have i: "i < length (flat m)" using mapM_Inr_length [OF m] by simp
    obtain r v where rv: "flat m ! i = (r, v)" by (cases "flat m ! i")
    with mapM_Inr_nth [OF m i] obtain b where "row_match r row = Inr b" "m' ! i = ([r], if b then value else v)"
      by (auto simp: rbind_eq_Inr)
    with row_match_Inr [of r row b] i rv
    show "m' ! i = map (\<lambda>p. ([fst p], snd p)) (map (\<lambda>(r, v). (r, rebind r [(row, value)] v)) (flat m)) ! i"
      by (simp add: rebind_def)
  qed
  then show ?thesis by (simp only: flat_singletons)
qed

lemma override_mapping_flat:
  assumes "override_mapping m ov = Inr m'"
  shows "flat m' = map (\<lambda>(r, v). (r, rebind r (flat ov) v)) (flat m)"
proof -
  have "foldM (\<lambda>(row, value) m. override_row row value m) ovs m = Inr m' \<Longrightarrow>
      flat m' = map (\<lambda>(r, v). (r, rebind r ovs v)) (flat m)" for ovs m
  proof (induction ovs arbitrary: m)
    case Nil
    then show ?case by (simp add: rebind_def case_prod_beta)
  next
    case (Cons rv ovs)
    obtain row vl where rv: "rv = (row, vl)" by (cases rv)
    with Cons.prems obtain m1 where m1: "override_row row vl m = Inr m1"
      and rest: "foldM (\<lambda>(row, value) m. override_row row value m) ovs m1 = Inr m'"
      by (auto simp: rbind_eq_Inr)
    from Cons.IH [OF rest] override_row_flat [OF m1]
    show ?case by (simp add: rv rebind_def case_prod_beta comp_def)
  qed
  then show ?thesis using assms by (simp add: override_mapping_def)
qed

lemma rebind_append: "rebind r (xs @ ys) v = rebind r ys (rebind r xs v)"
  by (simp add: rebind_def)

lemma combine_mapping_seq_flat:
  assumes "combine_mapping_seq m ovs = Inr (Some m')"
  shows "flat m' = map (\<lambda>(r, v). (r, rebind r (concat (map flat ovs)) v)) (flat m)"
  using assms
proof (induction ovs arbitrary: m)
  case Nil
  then show ?case by (simp add: rebind_def case_prod_beta)
next
  case (Cons ov ovs)
  then obtain m1 where m1: "override_mapping m ov = Inr m1" and rest: "combine_mapping_seq m1 ovs = Inr (Some m')"
    by (auto simp: rbind_eq_Inr split: if_splits)
  from Cons.IH [OF rest] override_mapping_flat [OF m1]
  show ?case by (simp add: rebind_append case_prod_beta comp_def)
qed

section \<open>Storage, tables and mappings\<close>

text \<open>
  C29: the storage holds, under a map and an opcode, exactly the infos of the patterns of that map and
  opcode: every pattern has an info equal to its own there, every info there comes from such a pattern,
  and no info equals one stored before it.
\<close>

theorem info_storage_complete:
  assumes "get_info_storage map_names nts prio ps = Inr st" and "get_info_list st m opc = Inr infos"
  shows "(\<forall>p \<in> set ps. insn_map p = m \<and> opcode p = opc \<longrightarrow>
      (\<exists>i \<in> set infos. ild_info_eq (ptrn_to_info nts prio p) i)) \<and>
    (\<forall>i \<in> set infos. \<exists>p \<in> set ps. insn_map p = m \<and> opcode p = opc \<and> i = ptrn_to_info nts prio p) \<and>
    sorted_wrt (\<lambda>a b. \<not> ild_info_eq b a) infos"
  using get_info_storage_ok [OF assms(1)] assms(2)
  by (simp add: storage_ok_def bin_ok_def same_bin_def)

definition no_nts :: nt_names where
  "no_nts = \<lparr>eosz_nts = [], easz_nts = [], imm_nts = [], disp_nts = []\<rparr>"

definition sample_storage :: storage where
  "sample_storage = [(''m0'', [(''0x58'', [ptrn_to_info no_nts 10 sample_pattern])])]"

lemma sample_storage:
  "get_info_storage [''m0''] no_nts 10 [sample_pattern, sample_pattern\<lparr>p_inum := 8\<rparr>] = Inr sample_storage"
  "get_info_list sample_storage ''m0'' ''0x58'' = Inr [ptrn_to_info no_nts 10 sample_pattern]"
  by code_simp+

theorem info_storage_complete_witness:
  "ild_info_eq (ptrn_to_info no_nts 10 (sample_pattern\<lparr>p_inum := 8\<rparr>)) (ptrn_to_info no_nts 10 sample_pattern)"
proof -
  have f: "insn_map (sample_pattern\<lparr>p_inum := 8\<rparr>) = ''m0'' \<and> opcode (sample_pattern\<lparr>p_inum := 8\<rparr>) = ''0x58''"
    by (simp add: sample_pattern_def)
  from info_storage_complete [OF sample_storage] f show ?thesis by fastforce
qed

text \<open>
  A has-MODRM entry computed for an opcode with patterns is the value of all of its infos of minimal
  priority: a table is produced only where they agree, outside the one opcode (0xFF of legacy map 1)
  whose conflict is resolved by hand.
\<close>

lemma modrm_entry_unanimous:
  assumes "modrm_entry gaps st m opc = Inr v" and "get_info_list st m (hex_nat opc) = Inr infos"
    and "infos \<noteq> []" and "\<not> (m = ''legacy_map1'' \<and> opc = 0xFF)"
    and "i \<in> set infos" and "\<forall>j \<in> set infos. nfo_priority i \<le> nfo_priority j"
  shows "nfo_has_modrm i = v"
  using modrm_entry_agrees [OF assms(1-4)] assms(5,6) by blast

lemma modrm_entry_unanimous_witness:
  "\<exists>v. modrm_entry init_ild_gap sample_storage ''m0'' 0x58 = Inr v \<and>
     nfo_has_modrm (ptrn_to_info no_nts 10 sample_pattern) = v"
proof -
  have e: "modrm_entry init_ild_gap sample_storage ''m0'' 0x58 = Inr ''XED_ILD_HASMODRM_FALSE''" by code_simp
  have h: "hex_nat 0x58 = ''0x58''" by code_simp
  from modrm_entry_unanimous [OF e sample_storage(2) [folded h], of "ptrn_to_info no_nts 10 sample_pattern"] e
  show ?thesis by simp
qed

text \<open>
  C28: combining the mappings of a sequence of nonterminals gives each row of the base the value the
  decoder would have bound after running the nonterminals in order, each rebinding the operand when
  one of its rows holds; no row of the base is lost, added or moved.
\<close>

theorem combined_mapping_is_sequential:
  assumes "combine_mapping_seq base map_list = Inr (Some combined)"
  shows "flat combined =
    map (\<lambda>(r, v). (r, fold (\<lambda>(row, value) v. if row_holds r row then value else v) (concat (map flat map_list)) v))
      (flat base)"
  using combine_mapping_seq_flat [OF assms] by (simp add: rebind_def)

theorem combined_mapping_is_sequential_witness:
  "\<exists>c. combine_mapping_seq [([[(''REXW'', 0)], [(''REXW'', 1)]], ''2'')] [[([[(''REXW'', 1)]], ''3'')]] = Inr (Some c) \<and>
     flat c = [([(''REXW'', 0)], ''2''), ([(''REXW'', 1)], ''3'')]"
proof -
  have c: "combine_mapping_seq [([[(''REXW'', 0)], [(''REXW'', 1)]], ''2'')] [[([[(''REXW'', 1)]], ''3'')]] =
      Inr (Some [([[(''REXW'', 0)]], ''2''), ([[(''REXW'', 1)]], ''3'')])" by code_simp
  from combined_mapping_is_sequential [OF c] c show ?thesis by (simp add: flat_def row_holds_def)
qed

end
