(* ===== verification/Array_Gen.thy ===== *)
theory Array_Gen
  imports Genutil
begin

text \<open>
  Lookup arrays (\<open>array_gen_t\<close> of \<open>pysrc/codegen.py\<close>): a C array with one dimension per operand, the
  function that fills it and the function that looks a value up.  The emitted code is a datatype with
  a text and an effect on the array.  The lemmas show that a looked-up value is that of the last entry
  that covers the operands.
\<close>

section \<open>The generator\<close>

text \<open>A dimension is the C type of the operand, its bounds (the second exclusive) and its name.\<close>

type_synonym index_row = "(string, int) dict"

record array_gen =
  ag_name :: string
  ag_type :: string
  ag_target_op :: "string option"
  ag_ranges :: "(string \<times> int \<times> int \<times> string) list"
  ag_values :: "(index_row \<times> string) list"

definition array_new :: "string \<Rightarrow> string \<Rightarrow> string option \<Rightarrow> array_gen" where
  "array_new name ty target_op =
     \<lparr>ag_name = name, ag_type = ty, ag_target_op = target_op, ag_ranges = [], ag_values = []\<rparr>"

definition add_dimension :: "string \<Rightarrow> int \<Rightarrow> int \<Rightarrow> string \<Rightarrow> array_gen \<Rightarrow> array_gen" where
  "add_dimension range_type range_min range_max argname a =
     a\<lparr>ag_ranges := ag_ranges a @ [(range_type, range_min, range_max, argname)]\<rparr>"

definition range_name :: "string \<times> int \<times> int \<times> string \<Rightarrow> string" where
  "range_name r = (case r of (ty, lo, hi, argname) \<Rightarrow> argname)"

definition get_arg_names :: "array_gen \<Rightarrow> string list" where
  "get_arg_names a = map range_name (ag_ranges a)"

definition get_dimension_num :: "array_gen \<Rightarrow> nat" where
  "get_dimension_num a = length (ag_ranges a)"

definition get_values_space :: "array_gen \<Rightarrow> string list" where
  "get_values_space a = map snd (ag_values a)"

definition is_const_lookup_fun :: "array_gen \<Rightarrow> bool" where
  "is_const_lookup_fun a \<longleftrightarrow> get_dimension_num a = 0"

definition add_value :: "index_row \<Rightarrow> string \<Rightarrow> array_gen \<Rightarrow> array_gen" where
  "add_value indx_dict val a = a\<lparr>ag_values := ag_values a @ [(indx_dict, val)]\<rparr>"

definition validate :: "array_gen \<Rightarrow> bool" where
  "validate a \<longleftrightarrow> list_all (\<lambda>(idict, v). length idict = length (ag_ranges a)) (ag_values a)"

section \<open>The lookup function\<close>

text \<open>It returns a constant, or indexes the array after checking each argument against its bounds.\<close>

datatype lookup_body = ConstReturn string | IndexReturn bool "(string \<times> int \<times> int \<times> string) list"

definition gen_lookup_function :: "bool \<Rightarrow> bool \<Rightarrow> array_gen \<Rightarrow> lookup_body" where
  "gen_lookup_function check_bounds check_const a =
     (if check_const \<and> is_const_lookup_fun a \<and> length (ag_values a) = 1
      then ConstReturn (snd (hd (ag_values a)))
      else IndexReturn check_bounds (ag_ranges a))"

definition bounds_text :: "string \<times> int \<times> int \<times> string \<Rightarrow> string" where
  "bounds_text r =
     (case r of (ty, lo, hi, argname) \<Rightarrow>
       ''xed_assert(arg_'' @ argname @ ''>='' @ str_int lo @ '' && arg_'' @ argname @ ''<'' @ str_int hi @ '')'')"

fun lookup_lines :: "array_gen \<Rightarrow> lookup_body \<Rightarrow> string list" where
  "lookup_lines a (ConstReturn v) = [''/*Constant function*/'', ''return '' @ v @ '';'']"
| "lookup_lines a (IndexReturn check ranges) =
     [ag_type a @ '' _v;''] @ (if check then map (\<lambda>r. bounds_text r @ '';'') ranges else []) @
     [''_v='' @ ag_name a @ concat (map (\<lambda>r. ''[arg_'' @ range_name r @ '']'') ranges) @ '';'', ''return _v;'']"

fun lookup_args :: "lookup_body \<Rightarrow> string list" where
  "lookup_args (ConstReturn v) = []"
| "lookup_args (IndexReturn check ranges) = map (\<lambda>r. fst r @ '' arg_'' @ range_name r) ranges"

definition emit_declaration :: "bool \<Rightarrow> bool \<Rightarrow> array_gen \<Rightarrow> string" where
  "emit_declaration is_extern is_static a =
     (if is_static then ''static '' else []) @ (if is_extern then ''extern '' else []) @
     ag_type a @ '' '' @ ag_name a @
     concat (map (\<lambda>(ty, lo, hi, argname). ''['' @ str_int hi @ '']'') (ag_ranges a)) @ '';'' @ [CHR 0x0A]"

section \<open>The initialization\<close>

definition compute_missing_values :: "string \<Rightarrow> (index_row \<times> string) list \<Rightarrow> int list" where
  "compute_missing_values key vals =
     dkeys (fold (\<lambda>(indices_dict, v) present.
       case map_of indices_dict key of None \<Rightarrow> present | Some x \<Rightarrow> dset x True present) vals [])"

text \<open>The last key an entry misses; one pass replicates the entries that miss one.\<close>

definition missing_key :: "string list \<Rightarrow> index_row \<Rightarrow> string option" where
  "missing_key indices d = find (\<lambda>k. \<not> din k d) (rev indices)"

definition expand_entry ::
  "string list \<Rightarrow> (index_row \<times> string) list \<Rightarrow> index_row \<times> string \<Rightarrow> (index_row \<times> string) list" where
  "expand_entry indices vals e =
     (case missing_key indices (fst e) of
        None \<Rightarrow> [e]
      | Some key \<Rightarrow> map (\<lambda>v. (dset key v (fst e), snd e)) (compute_missing_values key vals))"

definition expand_pass :: "string list \<Rightarrow> (index_row \<times> string) list \<Rightarrow> (index_row \<times> string) list" where
  "expand_pass indices vals = concat (map (expand_entry indices vals) vals)"

definition missed_one :: "string list \<Rightarrow> (index_row \<times> string) list \<Rightarrow> bool" where
  "missed_one indices vals \<longleftrightarrow> list_ex (\<lambda>e. missing_key indices (fst e) \<noteq> None) vals"

definition missing_count :: "string list \<Rightarrow> index_row \<Rightarrow> nat" where
  "missing_count indices d = length (filter (\<lambda>k. \<not> din k d) indices)"

definition max_missing :: "string list \<Rightarrow> (index_row \<times> string) list \<Rightarrow> nat" where
  "max_missing indices vals = foldr max (map (\<lambda>e. missing_count indices (fst e)) vals) 0"

lemma max_missing_less:
  "max_missing indices vals < n \<longleftrightarrow> 0 < n \<and> (\<forall>e \<in> set vals. missing_count indices (fst e) < n)"
  by (induction vals) (auto simp: max_missing_def)

lemma missing_key_None: "missing_key indices d = None \<longleftrightarrow> missing_count indices d = 0"
  by (auto simp: missing_key_def missing_count_def find_None_iff filter_empty_conv)

lemma missing_key_Some:
  "missing_key indices d = Some k \<Longrightarrow> k \<in> set indices \<and> \<not> din k d"
  by (auto simp: missing_key_def find_Some_iff in_set_conv_nth) (metis nth_mem set_rev length_rev in_set_conv_nth)

lemma missing_count_dset:
  assumes "k \<in> set indices" "\<not> din k d"
  shows "missing_count indices (dset k v d) < missing_count indices d"
proof -
  have le: "length (filter (\<lambda>j. \<not> din j (dset k v d)) js) \<le> length (filter (\<lambda>j. \<not> din j d) js)" for js
    by (induction js) (auto simp: din_def)
  from assms(1) obtain xs ys where "indices = xs @ k # ys" by (auto simp: in_set_conv_decomp)
  then show ?thesis
    using assms(2) le [of xs] le [of ys] by (simp add: missing_count_def din_def)
qed

lemma expand_pass_decreases:
  assumes "missed_one indices vals"
  shows "max_missing indices (expand_pass indices vals) < max_missing indices vals"
proof -
  have pos: "0 < max_missing indices vals"
  proof -
    obtain e where e: "e \<in> set vals" "missing_count indices (fst e) \<noteq> 0"
      using assms by (auto simp: missed_one_def list_ex_iff missing_key_None)
    then have "\<not> max_missing indices vals < 1" unfolding max_missing_less by auto
    then show ?thesis by simp
  qed
  have "missing_count indices (fst e) < max_missing indices vals" if "e \<in> set (expand_pass indices vals)" for e
  proof -
    from that obtain e0 where e0: "e0 \<in> set vals" "e \<in> set (expand_entry indices vals e0)"
      by (auto simp: expand_pass_def)
    have le: "missing_count indices (fst e0) \<le> max_missing indices vals"
      using e0(1) max_missing_less [of indices vals "Suc (max_missing indices vals)"] by force
    show ?thesis
    proof (cases "missing_key indices (fst e0)")
      case None
      then have "e = e0" "missing_count indices (fst e0) = 0"
        using e0(2) missing_key_None [of indices "fst e0"] by (simp_all add: expand_entry_def)
      then show ?thesis using pos by simp
    next
      case (Some k)
      then obtain v where "e = (dset k v (fst e0), snd e0)" using e0(2) by (auto simp: expand_entry_def)
      then show ?thesis
        using missing_count_dset [of k indices "fst e0" v] missing_key_Some [OF Some] le by simp
    qed
  qed
  then show ?thesis by (simp add: max_missing_less pos)
qed

function expand_values :: "string list \<Rightarrow> (index_row \<times> string) list \<Rightarrow> (index_row \<times> string) list" where
  "expand_values indices vals =
     (if missed_one indices vals then expand_values indices (expand_pass indices vals)
      else expand_pass indices vals)"
  by pat_completeness auto
termination
  by (relation "measure (\<lambda>(indices, vals). max_missing indices vals)") (auto simp: expand_pass_decreases)

declare expand_values.simps [simp del]

text \<open>One assignment per entry: the indices and the value.\<close>

definition emit_initialization :: "array_gen \<Rightarrow> (int list \<times> string) list res" where
  "emit_initialization a =
     (let indices = get_arg_names a
      in mapM (\<lambda>(indices_dict, v). rbind (mapM (dget indices_dict) indices) (\<lambda>idx. Inr (idx, v)))
           (expand_values indices (ag_values a)))"

definition init_line_text :: "string \<Rightarrow> int list \<times> string \<Rightarrow> string" where
  "init_line_text name line =
     name @ concat (map (\<lambda>i. ''['' @ str_int i @ '']'') (fst line)) @ ''='' @ snd line @ '';''"

section \<open>What the emitted code does\<close>

text \<open>
  The array maps indices to the expression assigned, if any was; a write or read outside the
  dimensions is undefined, and so is a failed assertion.
\<close>

type_synonym array_mem = "int list \<Rightarrow> string option"

definition in_dims :: "(string \<times> int \<times> int \<times> string) list \<Rightarrow> int list \<Rightarrow> bool" where
  "in_dims ranges idx \<longleftrightarrow> list_all2 (\<lambda>i (ty, lo, hi, argname). 0 \<le> i \<and> i < hi) idx ranges"

fun run_init ::
  "(string \<times> int \<times> int \<times> string) list \<Rightarrow> (int list \<times> string) list \<Rightarrow> array_mem \<Rightarrow> array_mem option" where
  "run_init ranges [] mem = Some mem"
| "run_init ranges ((idx, v) # lines) mem =
     (if in_dims ranges idx then run_init ranges lines (mem(idx \<mapsto> v)) else None)"

fun run_lookup :: "lookup_body \<Rightarrow> array_mem \<Rightarrow> int list \<Rightarrow> string option option" where
  "run_lookup (ConstReturn v) mem args = Some (Some v)"
| "run_lookup (IndexReturn check ranges) mem args =
     (if (check \<longrightarrow> list_all2 (\<lambda>i (ty, lo, hi, argname). lo \<le> i \<and> i < hi) args ranges) \<and> in_dims ranges args
      then Some (mem args) else None)"

section \<open>Entries that cover the operands\<close>

definition present :: "string \<Rightarrow> (index_row \<times> string) list \<Rightarrow> int set" where
  "present k vals = {x. \<exists>e \<in> set vals. map_of (fst e) k = Some x}"

definition covers :: "string list \<Rightarrow> (string \<Rightarrow> int set) \<Rightarrow> (string \<Rightarrow> int) \<Rightarrow> index_row \<Rightarrow> bool" where
  "covers indices S env d \<longleftrightarrow>
     (\<forall>k \<in> set indices. case map_of d k of Some x \<Rightarrow> x = env k | None \<Rightarrow> env k \<in> S k)"

definition last_value :: "(index_row \<Rightarrow> bool) \<Rightarrow> (index_row \<times> string) list \<Rightarrow> string option" where
  "last_value P vals = map_option snd (find (\<lambda>e. P (fst e)) (rev vals))"

lemma last_value_simps [simp]:
  "last_value P [] = None"
  "last_value P (vals @ [e]) = (if P (fst e) then Some (snd e) else last_value P vals)"
  by (simp_all add: last_value_def)

lemma find_append: "find P (xs @ ys) = (case find P xs of None \<Rightarrow> find P ys | Some x \<Rightarrow> Some x)"
  by (induction xs) auto

lemma last_value_append:
  "last_value P (xs @ ys) = (case last_value P ys of None \<Rightarrow> last_value P xs | Some v \<Rightarrow> Some v)"
  by (simp add: last_value_def find_append split: option.splits)

lemma last_value_None: "last_value P vals = None \<longleftrightarrow> (\<forall>e \<in> set vals. \<not> P (fst e))"
  by (auto simp: last_value_def find_None_iff)

lemma last_value_mem: "last_value P vals = Some v \<Longrightarrow> \<exists>e \<in> set vals. P (fst e) \<and> snd e = v"
  by (induction vals rule: rev_induct) (auto split: if_splits)

lemma last_value_same:
  assumes "\<forall>e \<in> set vals. snd e = v" "\<exists>e \<in> set vals. P (fst e)"
  shows "last_value P vals = Some v"
  using assms last_value_None [of P vals] last_value_mem [of P vals] by (cases "last_value P vals") auto

lemma set_compute_missing: "set (compute_missing_values k vals) = present k vals"
proof -
  have "set (dkeys (fold (\<lambda>(d, v) p. case map_of d k of None \<Rightarrow> p | Some x \<Rightarrow> dset x True p) vals p)) =
      set (dkeys p) \<union> present k vals" for p :: "(int, bool) dict"
  proof (induction vals arbitrary: p)
    case (Cons e vals)
    obtain d v where e: "e = (d, v)" by (cases e)
    have "present k (e # vals) = (case map_of d k of None \<Rightarrow> {} | Some x \<Rightarrow> {x}) \<union> present k vals"
      by (auto simp: present_def e split: option.splits)
    then show ?case
      using Cons.IH by (cases "map_of d k") (simp_all add: e dkeys_dset_set del: set_map)
  qed (simp add: present_def)
  from this [of "[]"] show ?thesis by (simp add: compute_missing_values_def)
qed

text \<open>One pass, and all of them, keep the value at every assignment of the operands.\<close>

lemma expand_entry_covers:
  assumes "\<forall>k \<in> set indices. S k = present k vals"
  shows "(\<exists>e' \<in> set (expand_entry indices vals e). covers indices S env (fst e')) \<longleftrightarrow> covers indices S env (fst e)"
    and "\<forall>e' \<in> set (expand_entry indices vals e). snd e' = snd e"
proof -
  show "\<forall>e' \<in> set (expand_entry indices vals e). snd e' = snd e"
    by (auto simp: expand_entry_def split: option.splits)
  show "(\<exists>e' \<in> set (expand_entry indices vals e). covers indices S env (fst e')) \<longleftrightarrow> covers indices S env (fst e)"
  proof (cases "missing_key indices (fst e)")
    case None
    then show ?thesis by (simp add: expand_entry_def)
  next
    case (Some k)
    note k = missing_key_Some [OF Some]
    have "covers indices S env (dset k x (fst e)) \<longleftrightarrow> x = env k \<and>
        (\<forall>j \<in> set indices - {k}. case map_of (fst e) j of Some y \<Rightarrow> y = env j | None \<Rightarrow> env j \<in> S j)" for x
      using k by (auto simp: covers_def split: if_splits)
    moreover have "covers indices S env (fst e) \<longleftrightarrow> env k \<in> S k \<and>
        (\<forall>j \<in> set indices - {k}. case map_of (fst e) j of Some y \<Rightarrow> y = env j | None \<Rightarrow> env j \<in> S j)"
      using k by (auto simp: covers_def din_def split: if_splits)
    ultimately show ?thesis
      using Some k assms by (auto simp: expand_entry_def set_compute_missing)
  qed
qed

lemma expand_pass_value:
  assumes S: "\<forall>k \<in> set indices. S k = present k vals"
  shows "last_value (covers indices S env) (expand_pass indices vals) = last_value (covers indices S env) vals"
proof -
  have "last_value (covers indices S env) (concat (map (expand_entry indices vals) es)) =
      last_value (covers indices S env) es" for es
  proof (induction es rule: rev_induct)
    case (snoc e es)
    have "last_value (covers indices S env) (expand_entry indices vals e) =
        (if covers indices S env (fst e) then Some (snd e) else None)"
      using expand_entry_covers(1) [OF S, where env = env and e = e] expand_entry_covers(2) [OF S, where e = e]
      by (auto simp: last_value_None intro: last_value_same)
    then show ?case
      using snoc last_value_append [of _ "concat (map (expand_entry indices vals) es)" "expand_entry indices vals e"]
      by simp
  qed simp
  then show ?thesis by (simp add: expand_pass_def)
qed

lemma expand_pass_present:
  assumes S: "\<forall>k \<in> set indices. S k = present k vals" and ne: "\<forall>k \<in> set indices. S k \<noteq> {}"
  shows "\<forall>k \<in> set indices. present k (expand_pass indices vals) = S k"
proof
  fix k
  assume k: "k \<in> set indices"
  have e: "(\<Union>e' \<in> set (expand_entry indices vals e). {x. map_of (fst e') k = Some x}) =
      {x. map_of (fst e) k = Some x} \<union> (if missing_key indices (fst e) = Some k then present k vals else {})" for e
  proof (cases "missing_key indices (fst e)")
    case None
    then show ?thesis by (simp add: expand_entry_def)
  next
    case (Some j)
    note j = missing_key_Some [OF Some]
    then have "present j vals \<noteq> {}" using S ne by auto
    then show ?thesis using Some j by (auto simp: expand_entry_def set_compute_missing din_def split: if_splits)
  qed
  have "present k (expand_pass indices vals) =
      (\<Union>e \<in> set vals. \<Union>e' \<in> set (expand_entry indices vals e). {x. map_of (fst e') k = Some x})"
    by (auto simp: present_def expand_pass_def)
  also have "\<dots> = present k vals" unfolding e by (auto simp: present_def split: if_splits)
  finally show "present k (expand_pass indices vals) = S k" using S k by simp
qed

lemma not_missed: "\<not> missed_one indices vals \<Longrightarrow> expand_pass indices vals = vals"
proof -
  assume "\<not> missed_one indices vals"
  then have "\<forall>e \<in> set vals. expand_entry indices vals e = [e]"
    by (auto simp: missed_one_def list_ex_iff expand_entry_def)
  moreover have "\<forall>e \<in> set es. f e = [e] \<Longrightarrow> concat (map f es) = es" for f and es :: "(index_row \<times> string) list"
    by (induction es) auto
  ultimately show ?thesis by (simp add: expand_pass_def)
qed

lemma expand_values_spec:
  assumes "\<forall>k \<in> set indices. S k = present k vals" and "\<forall>k \<in> set indices. S k \<noteq> {}"
  shows "last_value (covers indices S env) (expand_values indices vals) = last_value (covers indices S env) vals \<and>
    (\<forall>e \<in> set (expand_values indices vals). \<forall>k \<in> set indices. din k (fst e)) \<and>
    (\<forall>k \<in> set indices. present k (expand_values indices vals) = S k)"
  using assms
proof (induction indices vals rule: expand_values.induct)
  case (1 indices vals)
  show ?case
  proof (cases "missed_one indices vals")
    case True
    have p: "\<forall>k \<in> set indices. S k = present k (expand_pass indices vals)"
      using expand_pass_present [OF 1(2,3)] by simp
    from 1(1) [OF True p 1(3)] True expand_pass_value [OF 1(2)] show ?thesis
      by (simp add: expand_values.simps [of indices vals])
  next
    case False
    then have "\<forall>e \<in> set vals. \<forall>k \<in> set indices. din k (fst e)"
      by (auto simp: missed_one_def list_ex_iff missing_key_def find_None_iff)
    with False 1(2) show ?thesis by (simp add: expand_values.simps [of indices vals] not_missed)
  qed
qed

text \<open>Filling the array keeps the last line for each index.\<close>

lemma run_init_total:
  assumes "\<forall>line \<in> set lines. in_dims ranges (fst line)"
  shows "run_init ranges lines mem =
    Some (\<lambda>idx. case find (\<lambda>line. fst line = idx) (rev lines) of Some line \<Rightarrow> Some (snd line) | None \<Rightarrow> mem idx)"
  using assms
proof (induction lines arbitrary: mem)
  case (Cons line lines)
  obtain idx v where line: "line = (idx, v)" by (cases line)
  show ?case
    using Cons by (auto simp: line find_append fun_eq_iff split: option.splits)
qed simp

text \<open>
  An array is well-formed when its dimensions have different names, every index value of an entry is
  within its dimension, and every dimension is indexed by some entry.
\<close>

definition array_ok :: "array_gen \<Rightarrow> bool" where
  "array_ok a \<longleftrightarrow>
     distinct (get_arg_names a) \<and>
     list_all (\<lambda>(ty, lo, hi, argname). 0 \<le> lo \<and>
       list_all (\<lambda>(d, v). case map_of d argname of Some x \<Rightarrow> lo \<le> x \<and> x < hi | None \<Rightarrow> True) (ag_values a) \<and>
       list_ex (\<lambda>(d, v). din argname d) (ag_values a)) (ag_ranges a)"

lemma array_ok_present:
  assumes "array_ok a" "r \<in> set (ag_ranges a)"
  shows "present (range_name r) (ag_values a) \<noteq> {}"
    and "x \<in> present (range_name r) (ag_values a) \<Longrightarrow>
      (case r of (ty, lo, hi, argname) \<Rightarrow> 0 \<le> lo \<and> lo \<le> x \<and> x < hi)"
  using assms
  by (cases r; fastforce simp: array_ok_def list_all_iff list_ex_iff present_def din_def range_name_def)+

lemma complete_lines:
  assumes "mapM (\<lambda>(d, v). rbind (mapM (dget d) indices) (\<lambda>idx. Inr (idx, v))) vals = Inr lines"
  shows "lines = map (\<lambda>e. (map (\<lambda>k. the (map_of (fst e) k)) indices, snd e)) vals"
proof -
  have idx: "mapM (dget d) ks = Inr xs \<Longrightarrow> xs = map (\<lambda>k. the (map_of d k)) ks" for d ks xs
    by (induction ks arbitrary: xs) (auto simp: rbind_eq_Inr)
  from assms show ?thesis
    by (induction vals arbitrary: lines) (auto simp: rbind_eq_Inr intro: idx)
qed

lemma find_last_value:
  assumes "\<forall>e \<in> set vals. P (fst e) \<longleftrightarrow> f e = x"
  shows "(case find (\<lambda>line. fst line = x) (rev (map (\<lambda>e. (f e, snd e)) vals)) of
      Some line \<Rightarrow> Some (snd line) | None \<Rightarrow> None) = last_value P vals"
  using assms by (induction vals rule: rev_induct) auto

lemma array_lookup_value:
  assumes ok: "array_ok a"
    and env: "\<forall>k \<in> set (get_arg_names a). env k \<in> present k (ag_values a)"
  shows "\<exists>lines mem. emit_initialization a = Inr lines \<and> run_init (ag_ranges a) lines (\<lambda>idx. None) = Some mem \<and>
    run_lookup (gen_lookup_function check False a) mem (map env (get_arg_names a)) =
      Some (last_value (covers (get_arg_names a) (\<lambda>k. present k (ag_values a)) env) (ag_values a))"
proof -
  let ?indices = "get_arg_names a" and ?S = "\<lambda>k. present k (ag_values a)"
  let ?vals = "expand_values ?indices (ag_values a)"
  have ne: "\<forall>k \<in> set ?indices. ?S k \<noteq> {}" using array_ok_present(1) [OF ok] by (auto simp: get_arg_names_def)
  note ex = expand_values_spec [of ?indices ?S "ag_values a" env, OF _ ne, simplified]
  obtain lines where init: "emit_initialization a = Inr lines"
  proof -
    have "mapM (\<lambda>(d, v). rbind (mapM (dget d) ?indices) (\<lambda>idx. Inr (idx, v))) ?vals =
        Inr (map (\<lambda>e. (map (\<lambda>k. the (map_of (fst e) k)) ?indices, snd e)) ?vals)"
    proof (rule mapM_total)
      fix e
      assume e: "e \<in> set ?vals"
      have "mapM (dget (fst e)) ?indices = Inr (map (\<lambda>k. the (map_of (fst e) k)) ?indices)"
      proof (rule mapM_total)
        fix k
        assume "k \<in> set ?indices"
        then have "din k (fst e)" using ex e by blast
        then show "dget (fst e) k = Inr (the (map_of (fst e) k))" by (auto simp: din_def)
      qed
      then show "(case e of (d, v) \<Rightarrow> rbind (mapM (dget d) ?indices) (\<lambda>idx. Inr (idx, v))) =
          Inr (map (\<lambda>k. the (map_of (fst e) k)) ?indices, snd e)"
        by (simp add: case_prod_unfold)
    qed
    then show thesis using that by (simp add: emit_initialization_def Let_def)
  qed
  have lines: "lines = map (\<lambda>e. (map (\<lambda>k. the (map_of (fst e) k)) ?indices, snd e)) ?vals"
    using init by (intro complete_lines) (simp add: emit_initialization_def Let_def)
  have dims: "in_dims (ag_ranges a) (map f ?indices)" if f: "\<forall>k \<in> set ?indices. f k \<in> ?S k" for f
  proof -
    have "list_all2 (\<lambda>i (ty, lo, hi, argname). 0 \<le> i \<and> i < hi) (map (\<lambda>r. f (range_name r)) rs) rs"
      if "set rs \<subseteq> set (ag_ranges a)" for rs
      using that
    proof (induction rs)
      case (Cons r rs)
      then have "f (range_name r) \<in> ?S (range_name r)" using f by (auto simp: get_arg_names_def)
      from array_ok_present(2) [OF ok _ this] Cons show ?case by (auto split: prod.splits)
    qed simp
    then show ?thesis by (simp add: in_dims_def get_arg_names_def comp_def)
  qed
  have "\<forall>line \<in> set lines. in_dims (ag_ranges a) (fst line)"
  proof
    fix line
    assume "line \<in> set lines"
    then obtain e where e: "e \<in> set ?vals" "fst line = map (\<lambda>k. the (map_of (fst e) k)) ?indices"
      by (auto simp: lines)
    have "the (map_of (fst e) k) \<in> ?S k" if "k \<in> set ?indices" for k
    proof -
      have "din k (fst e)" using ex e(1) that by blast
      then obtain x where x: "map_of (fst e) k = Some x" by (auto simp: din_def)
      then have "x \<in> present k ?vals" using e(1) unfolding present_def by blast
      moreover have "present k ?vals = ?S k" using ex that by blast
      ultimately show ?thesis using x by simp
    qed
    then show "in_dims (ag_ranges a) (fst line)" using dims by (simp add: e(2))
  qed
  note run = run_init_total [OF this, of "\<lambda>idx. None"]
  have cov: "covers ?indices ?S env (fst e) \<longleftrightarrow> map (\<lambda>k. the (map_of (fst e) k)) ?indices = map env ?indices"
    if e: "e \<in> set ?vals" for e
  proof -
    have "(case map_of (fst e) k of Some x \<Rightarrow> x = env k | None \<Rightarrow> env k \<in> ?S k) \<longleftrightarrow> the (map_of (fst e) k) = env k"
      if "k \<in> set ?indices" for k
    proof -
      have "din k (fst e)" using ex e that by blast
      then show ?thesis by (auto simp: din_def)
    qed
    then show ?thesis by (simp add: covers_def)
  qed
  have "(case find (\<lambda>line. fst line = map env ?indices) (rev lines) of
      Some line \<Rightarrow> Some (snd line) | None \<Rightarrow> None) = last_value (covers ?indices ?S env) ?vals"
    unfolding lines using cov by (intro find_last_value) blast
  moreover have "list_all2 (\<lambda>i (ty, lo, hi, argname). lo \<le> i \<and> i < hi) (map env ?indices) (ag_ranges a)"
  proof -
    have "list_all2 (\<lambda>i (ty, lo, hi, argname). lo \<le> i \<and> i < hi) (map (\<lambda>r. env (range_name r)) rs) rs"
      if "set rs \<subseteq> set (ag_ranges a)" for rs
      using that
    proof (induction rs)
      case (Cons r rs)
      then have "env (range_name r) \<in> ?S (range_name r)" using env by (auto simp: get_arg_names_def)
      from array_ok_present(2) [OF ok _ this] Cons show ?case by (auto split: prod.splits)
    qed simp
    then show ?thesis by (simp add: get_arg_names_def comp_def)
  qed
  ultimately show ?thesis
    using init run dims [of env] env ex by (simp add: gen_lookup_function_def)
qed

text \<open>
  C10: After the emitted initialization, the emitted lookup function returns, for operands within the
  values of the entries, the value of the last entry that covers them: an entry covers them when it
  agrees with them on the operands it names, whichever operands it names.
\<close>

theorem array_lookup_last_cover:
  assumes ok: "array_ok a"
    and env: "\<forall>k \<in> set (get_arg_names a). env k \<in> present k (ag_values a)"
  shows "\<exists>lines mem. emit_initialization a = Inr lines \<and> run_init (ag_ranges a) lines (\<lambda>idx. None) = Some mem \<and>
    run_lookup (gen_lookup_function check False a) mem (map env (get_arg_names a)) =
      Some (last_value (covers (get_arg_names a) (\<lambda>k. present k (ag_values a)) env) (ag_values a))"
  by (rule array_lookup_value [OF assms])

definition sample_array :: array_gen where
  "sample_array =
     \<lparr>ag_name = ''xed_lookup_OSZ_NONTERM_EOSZ'', ag_type = ''xed_bits_t'', ag_target_op = Some ''EOSZ'',
      ag_ranges = [(''xed_bits_t'', 0, 2, ''OSZ''), (''xed_bits_t'', 0, 2, ''REXW'')],
      ag_values = [([(''OSZ'', 0)], ''2''), ([(''OSZ'', 1), (''REXW'', 0)], ''1''), ([(''REXW'', 1)], ''3'')]\<rparr>"

theorem array_lookup_last_cover_witness:
  "\<exists>lines mem. emit_initialization sample_array = Inr lines \<and>
     run_init (ag_ranges sample_array) lines (\<lambda>idx. None) = Some mem \<and>
     run_lookup (gen_lookup_function True False sample_array) mem [0, 1] = Some (Some ''3'')"
proof -
  let ?env = "\<lambda>k. if k = ''REXW'' then 1 else (0::int)"
  have ok: "array_ok sample_array" by code_simp
  have env: "\<forall>k \<in> set (get_arg_names sample_array). ?env k \<in> present k (ag_values sample_array)"
    by (simp add: sample_array_def get_arg_names_def range_name_def present_def)
  have "map ?env (get_arg_names sample_array) = [0, 1]" by code_simp
  with array_lookup_last_cover [OF ok env, of True] show ?thesis
    by (simp add: sample_array_def last_value_def covers_def get_arg_names_def range_name_def present_def)
qed

end
