(* ===== verification/Py_Regex.thy ===== *)
theory Py_Regex
  imports Genutil
begin

text \<open>
  The part of Python's \<open>re\<close> module the generator uses: a pattern is a value of a datatype, and its
  meaning lists all ways it matches at a position, in the order in which Python's backtracking
  search tries them, so that the first is the match Python reports.  \<open>rx_match\<close>, \<open>rx_search\<close> and
  \<open>rx_sub\<close> are \<open>match\<close>, \<open>search\<close> and \<open>sub\<close>.  Repetition is greedy; in the patterns of the generator
  the repeated part never matches the empty string.
\<close>

section \<open>Patterns and matches\<close>

datatype regex =
    REps
  | RBol
  | REol
  | RChar "char \<Rightarrow> bool"
  | RSeq regex regex
  | RAlt regex regex
  | RStar regex
  | RGroup string regex

text \<open>Where a match has got to: the position, the rest of the string and the named groups.\<close>

type_synonym rx_state = "nat \<times> string \<times> (string, string) dict"

text \<open>The first argument bounds the repetitions, each of which consumes a character.\<close>

primrec rx_star :: "nat \<Rightarrow> (rx_state \<Rightarrow> rx_state list) \<Rightarrow> rx_state \<Rightarrow> rx_state list" where
  "rx_star 0 f st = [st]"
| "rx_star (Suc n) f st =
     concat (map (\<lambda>st'. if fst st < fst st' then rx_star n f st' else []) (f st)) @ [st]"

fun rx_steps :: "regex \<Rightarrow> rx_state \<Rightarrow> rx_state list" where
  "rx_steps REps st = [st]"
| "rx_steps RBol (p, s, g) = (if p = 0 then [(p, s, g)] else [])"
| "rx_steps REol (p, s, g) = (if s \<in> {[], [CHR 0x0A]} then [(p, s, g)] else [])"
| "rx_steps (RChar P) (p, s, g) =
     (case s of [] \<Rightarrow> [] | c # s \<Rightarrow> if P c then [(Suc p, s, g)] else [])"
| "rx_steps (RSeq a b) st = concat (map (rx_steps b) (rx_steps a st))"
| "rx_steps (RAlt a b) st = rx_steps a st @ rx_steps b st"
| "rx_steps (RStar r) (p, s, g) = rx_star (length s) (rx_steps r) (p, s, g)"
| "rx_steps (RGroup n r) (p, s, g) =
     map (\<lambda>(p', s', g'). (p', s', dset n (take (p' - p) s) g')) (rx_steps r (p, s, g))"

definition ROpt :: "regex \<Rightarrow> regex" where
  "ROpt r = RAlt r REps"

definition RPlus :: "regex \<Rightarrow> regex" where
  "RPlus r = RSeq r (RStar r)"

definition ROneOf :: "char set \<Rightarrow> regex" where
  "ROneOf cs = RChar (\<lambda>c. c \<in> cs)"

definition RNoneOf :: "char set \<Rightarrow> regex" where
  "RNoneOf cs = RChar (\<lambda>c. c \<notin> cs)"

text \<open>A dot matches everything but a newline.\<close>

definition RDot :: regex where
  "RDot = RNoneOf {CHR 0x0A}"

fun RLit :: "string \<Rightarrow> regex" where
  "RLit [] = REps"
| "RLit [c] = ROneOf {c}"
| "RLit (c # d # s) = RSeq (ROneOf {c}) (RLit (d # s))"

fun RSeqs :: "regex list \<Rightarrow> regex" where
  "RSeqs [] = REps"
| "RSeqs [r] = r"
| "RSeqs (r # s # rs) = RSeq r (RSeqs (s # rs))"

fun RAlts :: "regex list \<Rightarrow> regex" where
  "RAlts [] = REps"
| "RAlts [r] = r"
| "RAlts (r # s # rs) = RAlt r (RAlts (s # rs))"

text \<open>The characters between two characters, as in a character class.\<close>

definition char_between :: "char \<Rightarrow> char \<Rightarrow> char \<Rightarrow> bool" where
  "char_between a b c \<longleftrightarrow> of_char a \<le> (of_char c :: nat) \<and> of_char c \<le> (of_char b :: nat)"

definition is_alpha :: "char \<Rightarrow> bool" where
  "is_alpha c \<longleftrightarrow> char_between CHR ''a'' CHR ''z'' c \<or> char_between CHR ''A'' CHR ''Z'' c"

definition is_name_char :: "char \<Rightarrow> bool" where
  "is_name_char c \<longleftrightarrow> is_alpha c \<or> is_digit c \<or> c = CHR ''_''"

section \<open>Matching\<close>

definition rx_at :: "regex \<Rightarrow> nat \<Rightarrow> string \<Rightarrow> rx_state option" where
  "rx_at r p s = (case rx_steps r (p, s, []) of [] \<Rightarrow> None | st # _ \<Rightarrow> Some st)"

definition rx_match :: "regex \<Rightarrow> string \<Rightarrow> (string, string) dict option" where
  "rx_match r s = map_option (\<lambda>(p, s, g). g) (rx_at r 0 s)"

text \<open>Where a search finds its match: the start, the end, and the groups.\<close>

fun rx_find :: "regex \<Rightarrow> nat \<Rightarrow> string \<Rightarrow> (nat \<times> nat \<times> (string, string) dict) option" where
  "rx_find r p s =
     (case rx_at r p s of
        Some (p', s', g) \<Rightarrow> Some (p, p', g)
      | None \<Rightarrow> (case s of [] \<Rightarrow> None | c # s \<Rightarrow> rx_find r (Suc p) s))"

declare rx_find.simps [simp del]

definition rx_search :: "regex \<Rightarrow> string \<Rightarrow> (string, string) dict option" where
  "rx_search r s = map_option (\<lambda>(b, e, g). g) (rx_find r 0 s)"

definition rx_matches :: "regex \<Rightarrow> string \<Rightarrow> bool" where
  "rx_matches r s \<longleftrightarrow> rx_match r s \<noteq> None"

definition rx_searches :: "regex \<Rightarrow> string \<Rightarrow> bool" where
  "rx_searches r s \<longleftrightarrow> rx_search r s \<noteq> None"

text \<open>A group that took part in the match.\<close>

definition group :: "string \<Rightarrow> (string, string) dict \<Rightarrow> string" where
  "group n g = dget_default g n ''''"

text \<open>
  Replacement of all matches: the first argument bounds the steps, each of which consumes a
  character or ends the text.
\<close>

fun rx_sub_loop :: "nat \<Rightarrow> regex \<Rightarrow> string \<Rightarrow> nat \<Rightarrow> string \<Rightarrow> string" where
  "rx_sub_loop 0 r t p s = s"
| "rx_sub_loop (Suc n) r t p s =
     (case rx_at r p s of
        Some (p', s', g) \<Rightarrow>
          if p < p' then t @ rx_sub_loop n r t p' s'
          else t @ (case s of [] \<Rightarrow> [] | c # s \<Rightarrow> c # rx_sub_loop n r t (Suc p) s)
      | None \<Rightarrow> (case s of [] \<Rightarrow> [] | c # s \<Rightarrow> c # rx_sub_loop n r t (Suc p) s))"

definition rx_sub :: "regex \<Rightarrow> string \<Rightarrow> string \<Rightarrow> string" where
  "rx_sub r t s = rx_sub_loop (Suc (length s)) r t 0 s"

section \<open>Facts about simple patterns\<close>

lemma rx_star_char:
  "length s \<le> n \<Longrightarrow> rx_star n (rx_steps (RChar P)) (p, s, g) =
     map (\<lambda>k. (p + k, drop k s, g)) (rev [0..<Suc (length (takeWhile P s))])"
proof (induction n arbitrary: p s)
  case 0
  then show ?case by simp
next
  case (Suc n)
  show ?case
  proof (cases s)
    case (Cons c s')
    have e: "map (\<lambda>k. (p + k, drop k (c # s'), g)) (rev [0..<Suc (Suc m)]) =
        map (\<lambda>k. (Suc p + k, drop k s', g)) (rev [0..<Suc m]) @ [(p, c # s', g)]" for m
      by (simp add: upt_rec [of 0 "Suc (Suc m)"] map_Suc_upt [symmetric] rev_map del: upt_Suc)
    show ?thesis
    proof (cases "P c")
      case True with Suc Cons show ?thesis by (simp add: e del: upt_Suc)
    qed (simp add: Cons)
  qed simp
qed

lemma rx_steps_star_char:
  "rx_steps (RStar (RChar P)) (p, s, g) =
     map (\<lambda>k. (p + k, drop k s, g)) (rev [0..<Suc (length (takeWhile P s))])"
  by (simp add: rx_star_char del: upt_Suc)

lemma rx_steps_plus_char:
  "rx_steps (RPlus (RChar P)) (p, s, g) =
     map (\<lambda>k. (p + k, drop k s, g)) (rev [1..<Suc (length (takeWhile P s))])"
proof (cases s)
  case (Cons c s')
  have e: "map (\<lambda>k. (Suc (p + k), drop k s', g)) (rev [0..<Suc m]) =
      map (\<lambda>k. (p + k, drop k (c # s'), g)) (rev [Suc 0..<Suc (Suc m)])" for m
    by (simp add: map_Suc_upt [symmetric] rev_map del: upt_Suc)
  show ?thesis
    by (cases "P c") (simp_all add: RPlus_def Cons rx_star_char e del: upt_Suc)
qed (simp add: RPlus_def)

lemma rx_find_head: "rx_at r p s = Some (p', s', g) \<Longrightarrow> rx_find r p s = Some (p, p', g)"
  by (simp add: rx_find.simps [of r p s])

lemma rx_steps_lit:
  "rx_steps (RLit w) (p, s, g) = (if starts_with w s then [(p + length w, drop (length w) s, g)] else [])"
proof (induction w arbitrary: p s rule: RLit.induct)
  case (2 c)
  then show ?case by (cases s) (auto simp: ROneOf_def starts_with_def)
next
  case (3 c d w)
  then show ?case by (cases s) (auto simp: ROneOf_def starts_with_def)
qed (simp add: starts_with_def)

lemma rx_at_lit: "rx_at (RLit w) p s = (if starts_with w s then Some (p + length w, drop (length w) s, []) else None)"
  by (simp add: rx_at_def rx_steps_lit)

lemma rx_find_None:
  assumes "\<And>k. k \<le> length s \<Longrightarrow> rx_at r (p + k) (drop k s) = None"
  shows "rx_find r p s = None"
  using assms
proof (induction s arbitrary: p)
  case Nil
  from Nil [of 0] show ?case by (simp add: rx_find.simps [of r p])
next
  case (Cons c s)
  have "rx_at r (Suc p + k) (drop k s) = None" if "k \<le> length s" for k
    using Cons.prems [of "Suc k"] that by simp
  then have "rx_find r (Suc p) s = None" by (rule Cons.IH)
  with Cons.prems [of 0] show ?case by (simp add: rx_find.simps [of r p])
qed

lemma str_in_append: "str_in w (s @ w @ t)"
proof (induction s)
  case Nil
  have "starts_with w (w @ t)" by (simp add: starts_with_def)
  moreover have "starts_with w u \<Longrightarrow> str_in w u" for u by (cases u) (auto simp: starts_with_def)
  ultimately show ?case by simp
qed simp

text \<open>A literal with one of some characters behind it.\<close>

lemma rx_searches_lit_oneof:
  assumes "rx_searches (RSeq (RLit w) (ROneOf cs)) s"
  shows "\<exists>c \<in> cs. str_in (w @ [c]) s"
proof (rule ccontr)
  assume no: "\<not> (\<exists>c \<in> cs. str_in (w @ [c]) s)"
  have suffix: "str_in v (drop k t) \<Longrightarrow> str_in v t" for v k t
    by (induction t arbitrary: k) (auto simp: drop_Cons' split: if_splits)
  have "rx_at (RSeq (RLit w) (ROneOf cs)) p (drop k s) = None" for p k
  proof (rule ccontr)
    assume "rx_at (RSeq (RLit w) (ROneOf cs)) p (drop k s) \<noteq> None"
    then obtain c t where ct: "starts_with w (drop k s)" "drop (length w) (drop k s) = c # t" "c \<in> cs"
      by (auto simp: rx_at_def rx_steps_lit ROneOf_def simp del: RLit.simps drop_drop split: list.splits if_splits)
    then have "drop k s = w @ c # t" by (metis append_take_drop_id starts_with_def)
    then have "str_in (w @ [c]) (drop k s)" using str_in_append [of "w @ [c]" "[]" t] by simp
    with no ct(3) suffix show False by blast
  qed
  then have "rx_find (RSeq (RLit w) (ROneOf cs)) 0 s = None" by (intro rx_find_None)
  with assms show False by (simp add: rx_searches_def rx_search_def)
qed

lemma rx_find_lit: "rx_find (RLit w) p s \<noteq> None \<longleftrightarrow> str_in w s"
  by (induction s arbitrary: p) (auto simp: rx_find.simps [of _ p "[]" for p] rx_find.simps [of _ p "c # s" for p c s] rx_at_lit starts_with_def)

lemma rx_searches_lit [simp]: "rx_searches (RLit w) s \<longleftrightarrow> str_in w s"
  using rx_find_lit [of w 0 s] by (simp add: rx_searches_def rx_search_def)

lemma str_in_char: "str_in (c # w) s \<Longrightarrow> c \<in> set s"
  by (induction s) (auto simp: starts_with_def)

lemma rx_sub_lit_end:
  assumes "c \<notin> set s" "w = c # v"
  shows "length (s @ w) < n \<Longrightarrow> rx_sub_loop n (RLit w) t p (s @ w) = s @ t"
  using assms(1)
proof (induction s arbitrary: n p)
  case Nil
  then obtain m where "n = Suc (Suc m)" using assms(2) by (cases n; cases "n - 1") auto
  then show ?case using assms(2) by (simp add: rx_at_lit starts_with_def del: RLit.simps)
next
  case (Cons x s)
  then obtain m where "n = Suc m" by (cases n) auto
  with Cons assms(2) show ?case by (auto simp: rx_at_lit starts_with_def simp del: RLit.simps)
qed


end
