(* ===== verification/Opnds.thy ===== *)
theory Opnds
  imports Py_Regex
begin

text \<open>
  Operands of the grammar (\<open>pysrc/opnds.py\<close>): the record that describes one, the widths that the
  tables of the grammar give it, and the parser of operand specifications such as
  \<open>REG0=XMM_R():r:dq:f32\<close>.  The lemmas show what type the parser gives an operand and that a written
  specification is read back.
\<close>

section \<open>Widths\<close>

record xed_width =
  fixed :: "int option"
  scalable :: "(string, int) dict option"

definition width_from_fixed :: "int \<Rightarrow> xed_width" where
  "width_from_fixed value = \<lparr>fixed = Some value, scalable = None\<rparr>"

definition width_from_widths :: "(int, int) dict \<Rightarrow> xed_width res" where
  "width_from_widths widths =
     (case (map_of widths 16, map_of widths 32, map_of widths 64) of
        (Some w16, Some w32, Some w64) \<Rightarrow>
          Inr (if w16 = w32 \<and> w32 = w64 then width_from_fixed w16
               else \<lparr>fixed = None, scalable = Some [(''eosz16'', w16), (''eosz32'', w32), (''eosz64'', w64)]\<rparr>)
      | _ \<Rightarrow> Inl AssertionError)"

text \<open>The width for an effective operand size.\<close>

definition width_at :: "xed_width \<Rightarrow> string \<Rightarrow> int option" where
  "width_at w eosz =
     (case fixed w of Some v \<Rightarrow> Some v
      | None \<Rightarrow> (case scalable w of None \<Rightarrow> None | Some d \<Rightarrow> map_of d eosz))"

section \<open>Operands\<close>

text \<open>The right-hand side is absent, a string, or a list of one-letter strings.\<close>

datatype opnd_bits = NoBits | BitsStr string | BitsList string

record operand_info =
  oi_name :: string
  oi_type :: string
  oi_bits :: opnd_bits
  oi_rw :: string
  oi_invert :: bool
  oi_lookupfn_name :: "string option"
  oi_lookupfn_name_base :: "string option"
  oi_visibility :: string
  oi_oc2 :: "string option"
  oi_cvt :: "string list"
  oi_xtype :: "string option"
  oi_internal :: bool
  oi_multireg :: int
  oi_inline :: bool
  oi_op_widths :: "xed_width option"
  oi_element_type :: "string option"
  oi_element_width :: "xed_width option"
  oi_bit_positions :: "int list"
  oi_rightmost_bitpos :: int

definition operand_types :: "string list" where
  "operand_types =
     [''reg'', ''imm'', ''imm_const'', ''error'', ''relbr'', ''absbr'', ''ptr'', ''nt_lookup_fn'',
      ''mem'', ''xed_reset'', ''flag'', ''agen'']"

definition strip_ntluf_name :: "string \<Rightarrow> string option \<Rightarrow> string option" where
  "strip_ntluf_name ty lookupfn =
     (if ty = ''nt_lookup_fn''
      then (case lookupfn of
              None \<Rightarrow> None
            | Some s \<Rightarrow>
                if s = [] then Some s
                else
                  let s = rx_sub (RStar (ROneOf (set ''()''))) '''' s;
                      s = rx_sub (RSeqs [RLit ''_S'', ROneOf (set ''RBE'')]) '''' s;
                      s = rx_sub (RSeqs [RLit ''_'', ROneOf (set ''RBNEI''), RStar RDot]) '''' s;
                      s = rx_sub (RSeqs [RLit ''FINAL_'', RStar RDot]) '''' s
                  in Some s)
      else None)"

definition visibility_of :: "string \<Rightarrow> string res" where
  "visibility_of vis =
     (if vis = ''SUPP'' then Inr ''SUPPRESSED''
      else if vis = ''IMPL'' then Inr ''IMPLICIT''
      else if vis = ''EXPL'' then Inr ''EXPLICIT''
      else if vis \<in> {''DEFAULT'', ''EXPLICIT'', ''IMPLICIT'', ''SUPPRESSED'', ''ECOND''} then Inr vis
      else Inl (Die ''Bad visibility qualifier''))"

text \<open>The positional parameters of the constructor are a record of their own.\<close>

record operand_args =
  a_name :: string
  a_type :: string
  a_bits :: opnd_bits
  a_rw :: string
  a_invert :: bool
  a_vis :: string
  a_oc2 :: "string option"
  a_cvt :: "string list"
  a_xtype :: "string option"
  a_lookupfn_name :: "string option"
  a_internal :: bool
  a_multireg :: int

definition operand_info_new :: "operand_args \<Rightarrow> operand_info res" where
  "operand_info_new a =
     (if a_type a \<notin> set operand_types then Inl (Die ''Unexpected type when building operand'')
      else rbind (visibility_of (a_vis a)) (\<lambda>vis.
        Inr \<lparr>oi_name = upper (a_name a), oi_type = a_type a, oi_bits = a_bits a, oi_rw = a_rw a,
             oi_invert = a_invert a, oi_lookupfn_name = a_lookupfn_name a,
             oi_lookupfn_name_base = strip_ntluf_name (a_type a) (a_lookupfn_name a),
             oi_visibility = vis, oi_oc2 = a_oc2 a, oi_cvt = a_cvt a, oi_xtype = a_xtype a,
             oi_internal = a_internal a, oi_multireg = a_multireg a, oi_inline = False,
             oi_op_widths = None, oi_element_type = None, oi_element_width = None,
             oi_bit_positions = [], oi_rightmost_bitpos = 0\<rparr>))"

definition is_ntluf :: "operand_info \<Rightarrow> bool" where
  "is_ntluf op \<longleftrightarrow> oi_type op = ''nt_lookup_fn''"

definition get_cvt :: "operand_info \<Rightarrow> nat \<Rightarrow> string" where
  "get_cvt op i = upper (if i < length (oi_cvt op) then oi_cvt op ! i else ''INVALID'')"

definition get_type_for_emit :: "operand_info \<Rightarrow> string" where
  "get_type_for_emit op =
     (if oi_type op = ''nt_lookup_fn'' \<and> oi_multireg op \<ge> 2
      then upper (oi_type op) @ str_int (oi_multireg op) else upper (oi_type op))"

definition decimal_number_pattern :: regex where
  "decimal_number_pattern = RPlus (RChar is_digit)"

definition non_binary_fixed_number :: "operand_info \<Rightarrow> bool" where
  "non_binary_fixed_number op =
     (case oi_bits op of
        NoBits \<Rightarrow> False
      | BitsList bs \<Rightarrow> length bs = 1 \<and> rx_matches decimal_number_pattern [hd bs]
      | BitsStr s \<Rightarrow> rx_matches decimal_number_pattern s)"

definition all_bits_fixed :: "operand_info \<Rightarrow> bool" where
  "all_bits_fixed op =
     (case oi_bits op of
        NoBits \<Rightarrow> False
      | BitsList bs \<Rightarrow> list_all (\<lambda>b. b = CHR ''1'' \<or> b = CHR ''0'') bs
      | BitsStr bs \<Rightarrow> list_all (\<lambda>b. b = CHR ''1'' \<or> b = CHR ''0'') bs)"

definition set_implicit :: "operand_info \<Rightarrow> operand_info" where
  "set_implicit op = op\<lparr>oi_visibility := ''IMPLICIT''\<rparr>"

definition set_suppressed :: "operand_info \<Rightarrow> operand_info" where
  "set_suppressed op = op\<lparr>oi_visibility := ''SUPPRESSED''\<rparr>"

definition operand_eq :: "operand_info \<Rightarrow> operand_info \<Rightarrow> bool" where
  "operand_eq x y \<longleftrightarrow>
     \<not> (oi_name x \<noteq> oi_name y \<or> oi_type x \<noteq> oi_type y \<or> oi_xtype x \<noteq> oi_xtype y \<or>
        oi_lookupfn_name x \<noteq> oi_lookupfn_name y \<or> oi_invert x \<noteq> oi_invert y \<or> oi_rw x \<noteq> oi_rw y \<or>
        oi_visibility x \<noteq> oi_visibility y \<or> oi_oc2 x \<noteq> oi_oc2 y \<or> oi_cvt x \<noteq> oi_cvt y \<or>
        oi_multireg x \<noteq> oi_multireg y \<or> oi_bits x \<noteq> oi_bits y)"

section \<open>Resolving widths\<close>

text \<open>The tables of the reader that widths come from; an xtype is its data type and bits per element.\<close>

record width_tables =
  extra_widths_reg :: "(string, string) dict"
  extra_widths_nt :: "(string, string) dict"
  extra_widths_imm_const :: "(string, string) dict"
  width_info_dict :: "(string, (string, string) dict) dict"
  xtypes_dict :: "(string, string \<times> string) dict"

text \<open>\<open>s.replace(old, '')\<close> for a non-empty \<open>old\<close>.\<close>

fun remove_all :: "nat \<Rightarrow> string \<Rightarrow> string \<Rightarrow> string" where
  "remove_all 0 old s = s"
| "remove_all (Suc n) old [] = []"
| "remove_all (Suc n) old (c # s) =
     (if starts_with old (c # s) then remove_all n old (drop (length old) (c # s))
      else c # remove_all n old s)"

definition replace_empty :: "string \<Rightarrow> string \<Rightarrow> string" where
  "replace_empty old s = remove_all (length s) old s"

definition default_oc2 :: "width_tables \<Rightarrow> operand_info \<Rightarrow> string option res" where
  "default_oc2 tables op =
     (if oi_type op = ''reg''
      then (case oi_bits op of
              BitsStr bits \<Rightarrow> Inr (map_of (extra_widths_reg tables) (replace_empty ''XED_REG_'' bits))
            | _ \<Rightarrow> Inl AttributeError)
      else if oi_type op = ''nt_lookup_fn''
      then Inr (case oi_lookupfn_name op of
                  None \<Rightarrow> None | Some n \<Rightarrow> map_of (extra_widths_nt tables) n)
      else if oi_type op = ''imm_const'' then Inr (map_of (extra_widths_imm_const tables) (oi_name op))
      else Inr None)"

definition int_widths :: "(string, string) dict \<Rightarrow> (int, int) dict res" where
  "int_widths ws =
     foldM (\<lambda>(k, v) d. rbind (py_int 10 k) (\<lambda>k. rbind (py_int 10 v) (\<lambda>v. Inr (dset k v d)))) ws []"

definition element_of ::
  "width_tables \<Rightarrow> int option \<Rightarrow> xed_width \<Rightarrow> operand_info \<Rightarrow> (string option \<times> xed_width option) res"
where
  "element_of tables element_size op_widths op =
     (case oi_xtype op of
        None \<Rightarrow> Inr (None, None)
      | Some xtype \<Rightarrow>
          if xtype = [] then Inr (None, None)
          else case map_of (xtypes_dict tables) xtype of
            None \<Rightarrow> Inr (None, None)
          | Some (dtype, bits_per_element) \<Rightarrow>
              rbind (py_int 10 bits_per_element) (\<lambda>bpe.
                Inr (Some dtype,
                     Some (if bpe > 0 then width_from_fixed bpe
                           else case element_size of
                             None \<Rightarrow> op_widths
                           | Some es \<Rightarrow> if es \<noteq> 0 then width_from_fixed es else op_widths))))"

text \<open>Whether the widths could be resolved, and the operand.\<close>

definition resolve_widths ::
  "width_tables \<Rightarrow> int option \<Rightarrow> operand_info \<Rightarrow> (bool \<times> operand_info) res" where
  "resolve_widths tables element_size op =
     rbind (case oi_oc2 op of Some oc2 \<Rightarrow> Inr (Some oc2) | None \<Rightarrow> default_oc2 tables op) (\<lambda>oc2.
       case oc2 of
         None \<Rightarrow> Inr (False, op)
       | Some oc2 \<Rightarrow>
           (case map_of (width_info_dict tables) oc2 of
              None \<Rightarrow> Inl AssertionError
            | Some widths_str \<Rightarrow>
                rbind (int_widths widths_str) (\<lambda>w.
                rbind (width_from_widths w) (\<lambda>ow.
                rbind (element_of tables element_size ow op) (\<lambda>(et, ew).
                  Inr (True, op\<lparr>oi_op_widths := Some ow, oi_element_type := et,
                                oi_element_width := ew\<rparr>))))))"

section \<open>Printing\<close>

definition pad_right :: "nat \<Rightarrow> string \<Rightarrow> string" where
  "pad_right n s = s @ replicate (n - length s) CHR '' ''"

definition shown :: "string option \<Rightarrow> string list" where
  "shown x = (case x of None \<Rightarrow> [] | Some s \<Rightarrow> if s = [] then [] else [s])"

definition dump_bits :: "opnd_bits \<Rightarrow> string list" where
  "dump_bits bits =
     (case bits of
        NoBits \<Rightarrow> []
      | BitsList bs \<Rightarrow> if bs = [] then [] else [bs @ '' (L)'']
      | BitsStr s \<Rightarrow> if s = [] then [] else [''['' @ s @ '']''])"

definition opnd_dump_str :: "string \<Rightarrow> operand_info \<Rightarrow> string" where
  "opnd_dump_str pad op =
     join '' ''
       ([pad, pad_right 6 (oi_name op), pad_right 9 (oi_type op)] @ dump_bits (oi_bits op) @
        [oi_rw op, oi_visibility op] @ shown (oi_lookupfn_name op) @ shown (oi_oc2 op) @
        shown (oi_xtype op) @
        map (\<lambda>c. ''TXT='' @ c) (filter (\<lambda>c. c \<noteq> [] \<and> c \<noteq> ''INVALID'') (oi_cvt op)) @
        (if oi_multireg op \<ge> 2 then [''MULTIREG'' @ str_int (oi_multireg op)] else []) @
        (if oi_bit_positions op = [] then []
         else ['' bitpos:  '' @ join '', '' (map str_int (oi_bit_positions op))]) @
        (if oi_invert op then [''invert''] else []))"

section \<open>Parsing\<close>

definition oc2_pattern :: regex where
  "oc2_pattern =
     RSeqs [RBol, RChar is_lower, RStar (RChar (\<lambda>c. is_lower c \<or> is_digit c)), REol]"

definition letters_underscore_pattern :: regex where
  "letters_underscore_pattern = RSeqs [RBol, RPlus (RChar (\<lambda>c. is_lower c \<or> c = CHR ''_'')), REol]"

definition equals_pattern :: regex where
  "equals_pattern =
     RSeqs [RGroup ''lhs'' (RPlus (RNoneOf {CHR ''!''})), RLit ''='', RGroup ''rhs'' (RPlus RDot)]"

definition not_equals_pattern :: regex where
  "not_equals_pattern =
     RSeqs [RGroup ''lhs'' (RPlus (RNoneOf {CHR ''!''})), RLit ''!='', RGroup ''rhs'' (RPlus RDot)]"

definition multireg_pattern :: regex where
  "multireg_pattern =
     RSeqs [RLit ''MULTI'', RGroup ''sd'' (RAlts [RLit ''SOURCE'', RLit ''DEST'', RLit ''SOURCEDEST'']),
            RGroup ''nreg'' (RPlus (RChar is_digit))]"

definition convert_pattern :: regex where
  "convert_pattern = RSeqs [RLit ''TXT='', RGroup ''rhs'' (RPlus (RChar is_name_char))]"

text \<open>The patterns of operands without a right-hand side, in the order in which they are tried.\<close>

definition placeholder_patterns :: "regex list" where
  "placeholder_patterns =
     [RSeq (RLit ''MEM'') (ROneOf (set ''01'')), RSeq (RLit ''IMM'') (ROneOf (set ''0123'')),
      RLit ''AGEN'', RLit ''RELBR'', RLit ''ABSBR'', RLit ''PTR'']"

text \<open>\<open>s.split(':')\<close>\<close>

fun split_on :: "char \<Rightarrow> string \<Rightarrow> string list" where
  "split_on x [] = [[]]"
| "split_on x (c # s) =
     (if c = x then [] # split_on x s
      else case split_on x s of [] \<Rightarrow> [[c]] | w # ws \<Rightarrow> (c # w) # ws)"

definition py_hex :: "int \<Rightarrow> string" where
  "py_hex i = (if i < 0 then ''-'' @ hex_nat (nat (- i)) else hex_nat (nat i))"

text \<open>What the chunks after the first set.\<close>

record chunk_state =
  c_rw :: string
  c_vis :: string
  c_oc2 :: "string option"
  c_xtype :: "string option"
  c_cvt :: "string list"
  c_multireg :: int

definition parse_chunk ::
  "string list option \<Rightarrow> nat \<times> string \<Rightarrow> chunk_state \<Rightarrow> chunk_state res" where
  "parse_chunk xtypes ic st =
     (case ic of (i, c) \<Rightarrow>
        if i = 1 then Inr (st\<lparr>c_rw := c\<rparr>)
        else if (i = 2 \<or> i = 3) \<and> c \<in> {''IMPL'', ''SUPP'', ''EXPL'', ''ECOND''}
        then Inr (st\<lparr>c_vis := c\<rparr>)
        else case rx_match multireg_pattern c of
          Some g \<Rightarrow> rbind (py_int 10 (group ''nreg'' g)) (\<lambda>n.
                      Inr (st\<lparr>c_multireg := n, c_cvt := c_cvt st @ [''MULTIREG'' @ str_int n]\<rparr>))
        | None \<Rightarrow>
        (case rx_match convert_pattern c of
          Some g \<Rightarrow> Inr (st\<lparr>c_cvt := c_cvt st @ [group ''rhs'' g]\<rparr>)
        | None \<Rightarrow>
        if c_oc2 st = None \<and> rx_matches oc2_pattern c then Inr (st\<lparr>c_oc2 := Some c\<rparr>)
        else rbind (if c_oc2 st \<noteq> None
                    then case xtypes of None \<Rightarrow> Inl TypeError | Some xs \<Rightarrow> Inr (c \<in> set xs)
                    else Inr False) (\<lambda>known.
          if known then Inr (st\<lparr>c_xtype := Some c\<rparr>)
          else if rx_matches decimal_number_pattern c then Inl (Die ''Bad number'')
          else Inl (Die ''Bad oc2 pattern''))))"

text \<open>The left part of a specification: name, type, right-hand side, lookup function, inversion.\<close>

record opnd_head =
  h_name :: string
  h_type :: string
  h_rhs :: opnd_bits
  h_lookupfn :: "string option"
  h_invert :: bool
  h_vis :: "string option"

definition head_of :: "string \<Rightarrow> string \<Rightarrow> opnd_bits \<Rightarrow> opnd_head" where
  "head_of name ty rhs =
     \<lparr>h_name = name, h_type = ty, h_rhs = rhs, h_lookupfn = None, h_invert = False, h_vis = None\<rparr>"

definition parse_equals :: "string \<Rightarrow> string \<Rightarrow> opnd_head res" where
  "parse_equals name rhs =
     (if rx_searches (RLit ''()'') rhs
      then Inr ((head_of name ''nt_lookup_fn'' NoBits)\<lparr>h_lookupfn := Some (rx_sub (RLit ''()'') '''' rhs)\<rparr>)
      else if starts_with ''XED_REG_'' rhs then Inr (head_of name ''reg'' (BitsStr rhs))
      else if starts_with ''XED_ERROR_'' rhs then Inr (head_of name ''error'' (BitsStr rhs))
      else if starts_with ''XED_'' rhs then Inr (head_of name ''imm_const'' (BitsStr rhs))
      else if \<not> is_numeric rhs \<and> list_ex is_upper rhs then Inl (Die ''THIS SHOULD NOT HAPPEN'')
      else if rx_matches letters_underscore_pattern rhs
      then Inr (head_of name ''imm'' (BitsList (no_underscores rhs)))
      else rbind (make_numeric rhs) (\<lambda>v. Inr (head_of name ''imm_const'' (BitsStr (py_hex v)))))"

definition parse_not_equals :: "string \<Rightarrow> string \<Rightarrow> opnd_head res" where
  "parse_not_equals name rhs =
     (if starts_with ''XED_REG_'' rhs then Inr ((head_of name ''reg'' (BitsStr rhs))\<lparr>h_invert := True\<rparr>)
      else if list_ex is_upper rhs then Inl (Die ''THIS SHOULD NOT HAPPEN'')
      else if rx_matches letters_underscore_pattern rhs
      then Inl (Die ''Cannot have a not-equals pattern with dont-care letters'')
      else rbind (make_numeric rhs) (\<lambda>v.
        Inr ((head_of name ''imm_const'' (BitsStr (py_hex v)))\<lparr>h_invert := True\<rparr>)))"

definition parse_head :: "string \<Rightarrow> opnd_head res" where
  "parse_head a =
     (case rx_search equals_pattern a of
        Some g \<Rightarrow> parse_equals (group ''lhs'' g) (group ''rhs'' g)
      | None \<Rightarrow>
     (case rx_search not_equals_pattern a of
        Some g \<Rightarrow> parse_not_equals (group ''lhs'' g) (group ''rhs'' g)
      | None \<Rightarrow>
        if list_ex (\<lambda>r. rx_searches r a) placeholder_patterns
        then Inr (head_of a ''imm_const'' (BitsStr ''1''))
        else if rx_searches (RLit ''XED_RESET'') a
        then Inr ((head_of a ''xed_reset'' (BitsStr ''''))\<lparr>h_vis := Some ''SUPP''\<rparr>)
        else if rx_searches (RLit ''()'') a then Inl (Die ''UNBOUND NTLUF!'')
        else Inr (head_of a ''flag'' (BitsStr ''''))))"

text \<open>Empty tables of default types are the same as absent ones.\<close>

definition default_xtype ::
  "(string, string) dict \<Rightarrow> (string, string) dict \<Rightarrow> string option \<Rightarrow> string option \<Rightarrow> string res" where
  "default_xtype default_xtypes extra_nt oc2 lookupfn =
     rbind (case oc2 of
              Some o2 \<Rightarrow>
                if o2 \<noteq> [] \<and> default_xtypes \<noteq> []
                then case map_of default_xtypes (upper o2) of
                       Some x \<Rightarrow> Inr (Some x) | None \<Rightarrow> Inl (Die ''Could not find default type'')
                else Inr None
            | None \<Rightarrow> Inr None) (\<lambda>x1.
     rbind (case (x1, lookupfn) of
              (None, Some fn) \<Rightarrow>
                if fn \<noteq> [] \<and> extra_nt \<noteq> [] \<and> default_xtypes \<noteq> []
                then case map_of extra_nt fn of
                       None \<Rightarrow> Inr None
                     | Some o2 \<Rightarrow>
                         (case map_of default_xtypes (upper o2) of
                            Some x \<Rightarrow> Inr (Some x) | None \<Rightarrow> Inl (Die ''NT oc2 has no default xtype''))
                else Inr None
            | _ \<Rightarrow> Inr x1) (\<lambda>x2.
       Inr (case x2 of Some x \<Rightarrow> x | None \<Rightarrow> ''INVALID'')))"

record parse_tables =
  pt_default_vis :: string
  pt_xtypes :: "string list option"
  pt_default_xtypes :: "(string, string) dict"
  pt_extra_widths_nt :: "(string, string) dict"
  pt_internal :: bool
  pt_skip_encoder_conditions :: bool

definition parse_chunks :: "parse_tables \<Rightarrow> string \<Rightarrow> (string \<times> chunk_state) res" where
  "parse_chunks pt w =
     (let st = \<lparr>c_rw = ''r'', c_vis = pt_default_vis pt, c_oc2 = None, c_xtype = None, c_cvt = [],
                c_multireg = 0\<rparr>
      in case split_on CHR '':'' w of
           [] \<Rightarrow> Inr (w, st)
         | a # cs \<Rightarrow>
             rbind (foldM (parse_chunk (pt_xtypes pt)) (zip [1..<Suc (length cs)] cs) st)
               (\<lambda>st. Inr (a, st)))"

definition parse_one_operand :: "parse_tables \<Rightarrow> string \<Rightarrow> operand_info option res" where
  "parse_one_operand pt w =
     rbind (parse_chunks pt w) (\<lambda>(a, st).
       if pt_skip_encoder_conditions pt \<and> c_vis st = ''ECOND'' then Inr None
       else if CHR ''/'' \<in> set a then Inl (Die ''Bad slash in operand'')
       else rbind (parse_head a) (\<lambda>h.
       rbind (case c_xtype st of
                Some x \<Rightarrow> Inr x
              | None \<Rightarrow> default_xtype (pt_default_xtypes pt) (pt_extra_widths_nt pt) (c_oc2 st)
                          (h_lookupfn h)) (\<lambda>xtype.
       rbind (operand_info_new
                \<lparr>a_name = h_name h, a_type = h_type h, a_bits = h_rhs h, a_rw = c_rw st,
                 a_invert = h_invert h,
                 a_vis = (case h_vis h of Some v \<Rightarrow> v | None \<Rightarrow> c_vis st), a_oc2 = c_oc2 st,
                 a_cvt = c_cvt st, a_xtype = Some xtype, a_lookupfn_name = h_lookupfn h,
                 a_internal = pt_internal pt, a_multireg = c_multireg st\<rparr>) (\<lambda>op.
         Inr (Some op)))))"

section \<open>What the parser makes of a specification\<close>

lemma search_equals:
  assumes "lhs \<noteq> []" "CHR ''!'' \<notin> set lhs" "CHR ''!'' \<notin> set rhs" "rhs \<noteq> []" "CHR ''='' \<notin> set rhs"
    "CHR 0x0A \<notin> set rhs"
  shows "rx_search equals_pattern (lhs @ ''='' @ rhs) = Some [(''lhs'', lhs), (''rhs'', rhs)]"
proof -
  let ?a = "lhs @ ''='' @ rhs" and ?n = "length lhs"
  let ?tail = "RSeq (RLit ''='') (RGroup ''rhs'' (RPlus RDot))"
  have tw: "takeWhile (\<lambda>c. c \<noteq> CHR ''!'') ?a = ?a" using assms by (auto simp: takeWhile_eq_all_conv)
  have dot: "takeWhile (\<lambda>c. c \<noteq> CHR 0x0A) rhs = rhs" using assms by (auto simp: takeWhile_eq_all_conv)
  have none: "rx_steps ?tail (k, drop k ?a, g) = []" if "?n < k" for k g
  proof (cases "drop k ?a")
    case (Cons c s)
    with that have "c \<in> set rhs"
      by (cases k) (auto dest!: in_set_dropD [of c] simp: Suc_diff_le intro: in_set_dropD
          , metis in_set_dropD list.set_intros(1))
    with Cons assms show ?thesis by (auto simp: ROneOf_def)
  qed (simp add: ROneOf_def)
  have len: "length ?a = ?n + Suc (length rhs)" by simp
  have split: "rev [1..<Suc (length ?a)] = rev [Suc ?n..<Suc (length ?a)] @ ?n # rev [1..<?n]"
  proof -
    have "[1..<Suc (length ?a)] = [1..<Suc ?n] @ [Suc ?n..<Suc (length ?a)]"
      unfolding len using upt_add_eq_append [of 1 "Suc ?n" "Suc (length rhs)"] by simp
    moreover have "[1..<Suc ?n] = [1..<?n] @ [?n]" using assms(1) by (cases lhs) auto
    ultimately show ?thesis by simp
  qed
  have hit: "rx_steps ?tail (?n, ''='' @ rhs, g) =
      map (\<lambda>k. (Suc ?n + k, drop k rhs, dset ''rhs'' (take k rhs) g)) (rev [1..<Suc (length rhs)])" for g
    by (simp add: ROneOf_def RDot_def RNoneOf_def rx_steps_plus_char dot o_def del: upt_Suc)
  have steps: "rx_steps equals_pattern (0, ?a, []) =
      concat (map (\<lambda>k. rx_steps ?tail (k, drop k ?a, [(''lhs'', take k ?a)]))
                  (rev [1..<Suc (length ?a)]))"
    by (simp add: equals_pattern_def RNoneOf_def rx_steps_plus_char tw [unfolded append_Cons append_Nil]
        o_def del: upt_Suc length_append)
  have last: "rev [1..<Suc (length rhs)] = length rhs # rev [1..<length rhs]"
    using assms(4) by (cases rhs) auto
  define F where "F k = rx_steps ?tail (k, drop k ?a, [(''lhs'', take k ?a)])" for k
  have e1: "F ?n = (length ?a, [], [(''lhs'', lhs), (''rhs'', rhs)]) #
      map (\<lambda>k. (Suc ?n + k, drop k rhs, dset ''rhs'' (take k rhs) [(''lhs'', lhs)])) (rev [1..<length rhs])"
    using hit [of "[(''lhs'', lhs)]"] unfolding F_def last by simp
  have e2: "concat (map F (rev [Suc ?n..<Suc (length ?a)])) = []"
    using none by (simp add: F_def del: rx_steps.simps upt_Suc)
  have "rx_at equals_pattern 0 ?a = Some (length ?a, [], [(''lhs'', lhs), (''rhs'', rhs)])"
    unfolding rx_at_def steps F_def [symmetric] split map_append concat_append e2 list.map concat.simps
    by (simp only: e1 append_Nil append_Cons list.case)
  then show ?thesis by (simp add: rx_search_def rx_find_head)
qed

lemma split_on_join:
  assumes "ws \<noteq> []" "\<forall>w \<in> set ws. x \<notin> set w"
  shows "split_on x (join [x] ws) = ws"
  using assms
proof (induction ws)
  case (Cons w ws)
  have single: "split_on x w = [w]" if "x \<notin> set w" for w using that by (induction w) auto
  have app: "split_on x (w @ x # t) = w # split_on x t" if "x \<notin> set w" for w t
    using that by (induction w) auto
  show ?case using Cons by (cases ws) (auto simp: single app)
qed simp

lemma oc2_pattern_matches:
  assumes "is_lower c" "list_all (\<lambda>c. is_lower c \<or> is_digit c) s"
  shows "rx_matches oc2_pattern (c # s)"
proof -
  let ?P = "\<lambda>c. is_lower c \<or> is_digit c"
  have tw: "takeWhile ?P s = s" using assms(2) by (auto simp: takeWhile_eq_all_conv list_all_iff)
  have "rev [0..<Suc (length s)] = length s # rev [0..<length s]" by simp
  then have "rx_steps (RStar (RChar ?P)) (Suc 0, s, []) =
      (Suc (length s), [], []) # map (\<lambda>k. (Suc 0 + k, drop k s, [])) (rev [0..<length s])"
    unfolding rx_steps_star_char tw by simp
  then show ?thesis
    by (simp add: oc2_pattern_def rx_matches_def rx_match_def rx_at_def assms(1) del: rx_steps.simps(7))
qed

lemma not_directive:
  assumes "is_lower (hd c)" "c \<noteq> []"
  shows "rx_match multireg_pattern c = None" "rx_match convert_pattern c = None"
proof -
  obtain x s where c: "c = x # s" and x: "is_lower x" using assms by (cases c) auto
  then have "x \<noteq> CHR ''M''" "x \<noteq> CHR ''T''" by (auto simp: is_lower_def)
  then show "rx_match multireg_pattern c = None" "rx_match convert_pattern c = None"
    by (simp_all add: c rx_match_def rx_at_def multireg_pattern_def convert_pattern_def ROneOf_def)
qed

lemma opnd_info_newD:
  assumes "operand_info_new a = Inr op"
  shows "oi_name op = upper (a_name a)" "oi_type op = a_type a" "oi_bits op = a_bits a" "oi_rw op = a_rw a"
    "oi_invert op = a_invert a" "oi_lookupfn_name op = a_lookupfn_name a"
    "visibility_of (a_vis a) = Inr (oi_visibility op)" "oi_oc2 op = a_oc2 a" "oi_cvt op = a_cvt a"
    "oi_xtype op = a_xtype a" "oi_multireg op = a_multireg a"
  using assms by (auto simp: operand_info_new_def rbind_eq_Inr split: if_splits)

definition head_ok :: "opnd_head \<Rightarrow> bool" where
  "head_ok h \<longleftrightarrow>
     h_type h \<in> {''reg'', ''imm'', ''imm_const'', ''error'', ''nt_lookup_fn'', ''xed_reset'', ''flag''} \<and>
     (h_lookupfn h \<noteq> None \<longleftrightarrow> h_type h = ''nt_lookup_fn'') \<and>
     (h_invert h \<longrightarrow> h_type h \<in> {''reg'', ''imm_const''}) \<and>
     (case h_rhs h of NoBits \<Rightarrow> h_type h = ''nt_lookup_fn'' | BitsList bs \<Rightarrow> h_type h = ''imm''
      | BitsStr s \<Rightarrow> h_type h \<notin> {''nt_lookup_fn'', ''imm''})"

lemma parse_head_ok: "parse_head a = Inr h \<Longrightarrow> head_ok h"
  by (auto simp: parse_head_def parse_equals_def parse_not_equals_def head_ok_def head_of_def rbind_eq_Inr
      simp del: RLit.simps split: option.splits if_splits)

text \<open>
  C33: A parsed operand has one of seven types; it names a lookup function exactly when it is a
  nonterminal lookup, its right-hand side is a list of letters exactly when it is an immediate
  capture, only registers and constants can be inverted, and its visibility and xtype are set.
\<close>

theorem parsed_operand_types:
  assumes "parse_one_operand pt w = Inr (Some op)"
  shows "oi_type op \<in> {''reg'', ''imm'', ''imm_const'', ''error'', ''nt_lookup_fn'', ''xed_reset'', ''flag''} \<and>
    (oi_lookupfn_name op \<noteq> None \<longleftrightarrow> oi_type op = ''nt_lookup_fn'') \<and>
    (oi_invert op \<longrightarrow> oi_type op \<in> {''reg'', ''imm_const''}) \<and>
    (case oi_bits op of NoBits \<Rightarrow> oi_type op = ''nt_lookup_fn'' | BitsList bs \<Rightarrow> oi_type op = ''imm''
     | BitsStr s \<Rightarrow> oi_type op \<notin> {''nt_lookup_fn'', ''imm''}) \<and>
    oi_visibility op \<in> {''SUPPRESSED'', ''IMPLICIT'', ''EXPLICIT'', ''DEFAULT'', ''ECOND''} \<and>
    oi_xtype op \<noteq> None"
proof -
  obtain a st h n where h: "parse_head a = Inr h"
    and n: "operand_info_new n = Inr op" "a_type n = h_type h" "a_bits n = h_rhs h"
      "a_lookupfn_name n = h_lookupfn h" "a_invert n = h_invert h" "a_xtype n \<noteq> None"
    using assms by (force simp: parse_one_operand_def rbind_eq_Inr split: if_splits prod.splits)
  have "oi_visibility op \<in> {''SUPPRESSED'', ''IMPLICIT'', ''EXPLICIT'', ''DEFAULT'', ''ECOND''}"
    using opnd_info_newD(7) [OF n(1)] by (auto simp: visibility_of_def split: if_splits)
  with parse_head_ok [OF h] opnd_info_newD [OF n(1)] n(2-) show ?thesis
    unfolding head_ok_def by (cases "h_rhs h") auto
qed

definition sample_tables :: parse_tables where
  "sample_tables =
     \<lparr>pt_default_vis = ''DEFAULT'', pt_xtypes = Some [''f32'', ''i32''], pt_default_xtypes = [(''DQ'', ''i32'')],
      pt_extra_widths_nt = [], pt_internal = False, pt_skip_encoder_conditions = True\<rparr>"

definition sample_operand :: operand_info where
  "sample_operand =
     (case parse_one_operand sample_tables ''REG0=XMM_R():rw:dq'' of
        Inr (Some op) \<Rightarrow> op
      | _ \<Rightarrow> (case parse_one_operand sample_tables ''REG0'' of Inr (Some op) \<Rightarrow> op))"

theorem parsed_operand_types_witness:
  "oi_type sample_operand = ''nt_lookup_fn'' \<and> oi_lookupfn_name sample_operand \<noteq> None \<and>
   \<not> oi_invert sample_operand \<and> oi_xtype sample_operand \<noteq> None"
proof -
  have p: "parse_one_operand sample_tables ''REG0=XMM_R():rw:dq'' = Inr (Some sample_operand)"
    by code_simp
  have "oi_type sample_operand = ''nt_lookup_fn''" by code_simp
  with parsed_operand_types [OF p] show ?thesis by auto
qed

section \<open>Specifications as the data files write them\<close>

text \<open>
  A right-hand side: a register, a lookup function, an error, another enumerator, the letters an
  immediate captures, or a number, with the value its text has.
\<close>

datatype rhs_spec =
  SpecReg string | SpecNt string | SpecError string | SpecEnum string | SpecLetters string
| SpecNum string int

fun rhs_text :: "rhs_spec \<Rightarrow> string" where
  "rhs_text (SpecReg r) = ''XED_REG_'' @ r"
| "rhs_text (SpecNt n) = n @ ''()''"
| "rhs_text (SpecError r) = ''XED_ERROR_'' @ r"
| "rhs_text (SpecEnum r) = ''XED_'' @ r"
| "rhs_text (SpecLetters t) = t"
| "rhs_text (SpecNum t v) = t"

fun rhs_ok :: "rhs_spec \<Rightarrow> bool" where
  "rhs_ok (SpecReg r) = list_all is_name_char r"
| "rhs_ok (SpecNt n) = list_all is_name_char n"
| "rhs_ok (SpecError r) = list_all is_name_char r"
| "rhs_ok (SpecEnum r) =
     (list_all is_name_char r \<and> \<not> starts_with ''REG_'' r \<and> \<not> starts_with ''ERROR_'' r)"
| "rhs_ok (SpecLetters t) = (t \<noteq> [] \<and> list_all (\<lambda>c. is_lower c \<or> c = CHR ''_'') t)"
| "rhs_ok (SpecNum t v) =
     (t \<noteq> [] \<and> is_digit (hd t) \<and> list_all is_name_char t \<and> is_numeric t \<and> make_numeric t = Inr v)"

fun rhs_head :: "string \<Rightarrow> rhs_spec \<Rightarrow> opnd_head" where
  "rhs_head name (SpecReg r) = head_of name ''reg'' (BitsStr (''XED_REG_'' @ r))"
| "rhs_head name (SpecNt n) = (head_of name ''nt_lookup_fn'' NoBits)\<lparr>h_lookupfn := Some n\<rparr>"
| "rhs_head name (SpecError r) = head_of name ''error'' (BitsStr (''XED_ERROR_'' @ r))"
| "rhs_head name (SpecEnum r) = head_of name ''imm_const'' (BitsStr (''XED_'' @ r))"
| "rhs_head name (SpecLetters t) = head_of name ''imm'' (BitsList (no_underscores t))"
| "rhs_head name (SpecNum t v) = head_of name ''imm_const'' (BitsStr (py_hex v))"

text \<open>
  The head of a specification: an assignment, a test that two values differ, the placeholder of a
  memory operand, an immediate, a branch displacement or a pointer, the marker that restarts the
  traversal, or the name of a macro.
\<close>

datatype head_spec =
  SpecEq string rhs_spec | SpecNe string rhs_spec | SpecPlace string | SpecReset | SpecFlag string

definition place_names :: "string list" where
  "place_names = [''MEM0'', ''MEM1'', ''IMM0'', ''IMM1'', ''IMM2'', ''IMM3'', ''AGEN'', ''RELBR'', ''ABSBR'', ''PTR'']"

fun head_text :: "head_spec \<Rightarrow> string" where
  "head_text (SpecEq name r) = name @ ''='' @ rhs_text r"
| "head_text (SpecNe name r) = name @ ''!='' @ rhs_text r"
| "head_text (SpecPlace name) = name"
| "head_text SpecReset = ''XED_RESET''"
| "head_text (SpecFlag name) = name"

fun head_spec_ok :: "head_spec \<Rightarrow> bool" where
  "head_spec_ok (SpecEq name r) = (name \<noteq> [] \<and> list_all is_name_char name \<and> rhs_ok r)"
| "head_spec_ok (SpecNe name r) = (name \<noteq> [] \<and> list_all is_name_char name \<and> rhs_ok r \<and>
     (case r of SpecReg n \<Rightarrow> True | SpecNum t v \<Rightarrow> list_all (\<lambda>c. \<not> is_upper c) t | _ \<Rightarrow> False))"
| "head_spec_ok (SpecPlace name) = (name \<in> set place_names)"
| "head_spec_ok SpecReset = True"
| "head_spec_ok (SpecFlag name) = (list_all is_name_char name \<and> \<not> str_in ''XED_RESET'' name \<and>
     (\<forall>w \<in> set place_names. \<not> str_in w name))"

fun spec_head :: "head_spec \<Rightarrow> opnd_head" where
  "spec_head (SpecEq name r) = rhs_head name r"
| "spec_head (SpecNe name r) = (rhs_head name r)\<lparr>h_invert := True\<rparr>"
| "spec_head (SpecPlace name) = head_of name ''imm_const'' (BitsStr ''1'')"
| "spec_head SpecReset = (head_of ''XED_RESET'' ''xed_reset'' (BitsStr ''''))\<lparr>h_vis := Some ''SUPP''\<rparr>"
| "spec_head (SpecFlag name) = head_of name ''flag'' (BitsStr '''')"

text \<open>
  What may follow the access: a visibility (as the second or third chunk), a multi-register mark, a
  text conversion, one width code, and an xtype behind it.
\<close>

datatype tail_item =
  IVis string | IMulti string string int | ITxt string | IOc2 string | IXtype string

fun item_text :: "tail_item \<Rightarrow> string" where
  "item_text (IVis v) = v"
| "item_text (IMulti sd t n) = ''MULTI'' @ sd @ t"
| "item_text (ITxt t) = ''TXT='' @ t"
| "item_text (IOc2 c) = c"
| "item_text (IXtype x) = x"

definition oc2_word :: "string \<Rightarrow> bool" where
  "oc2_word s \<longleftrightarrow> s \<noteq> [] \<and> is_lower (hd s) \<and> list_all (\<lambda>c. is_lower c \<or> is_digit c) (tl s)"

definition xtype_word :: "string \<Rightarrow> bool" where
  "xtype_word s \<longleftrightarrow> s \<noteq> [] \<and> list_all (\<lambda>c. is_lower c \<or> is_digit c) s"

fun items_ok :: "string list option \<Rightarrow> nat \<Rightarrow> bool \<Rightarrow> tail_item list \<Rightarrow> bool" where
  "items_ok xs i seen [] = True"
| "items_ok xs i seen (it # its) =
     (case it of
        IVis v \<Rightarrow> i \<le> 3 \<and> v \<in> {''IMPL'', ''SUPP'', ''EXPL'', ''ECOND''} \<and> items_ok xs (Suc i) seen its
      | IMulti sd t n \<Rightarrow> sd \<in> {''SOURCE'', ''DEST'', ''SOURCEDEST''} \<and> t \<noteq> [] \<and> list_all is_digit t \<and>
          py_int 10 t = Inr n \<and> items_ok xs (Suc i) seen its
      | ITxt t \<Rightarrow> t \<noteq> [] \<and> list_all is_name_char t \<and> items_ok xs (Suc i) seen its
      | IOc2 c \<Rightarrow> \<not> seen \<and> oc2_word c \<and> items_ok xs (Suc i) True its
      | IXtype x \<Rightarrow> seen \<and> xtype_word x \<and> (\<exists>known. xs = Some known \<and> x \<in> set known) \<and>
          items_ok xs (Suc i) seen its)"

fun item_vis :: "tail_item \<Rightarrow> string option" where
  "item_vis (IVis v) = Some v" | "item_vis it = None"

fun item_oc2 :: "tail_item \<Rightarrow> string option option" where
  "item_oc2 (IOc2 c) = Some (Some c)" | "item_oc2 it = None"

fun item_xtype :: "tail_item \<Rightarrow> string option option" where
  "item_xtype (IXtype x) = Some (Some x)" | "item_xtype it = None"

fun item_multi :: "tail_item \<Rightarrow> int option" where
  "item_multi (IMulti sd t n) = Some n" | "item_multi it = None"

fun item_cvt :: "tail_item \<Rightarrow> string option" where
  "item_cvt (IMulti sd t n) = Some (''MULTIREG'' @ str_int n)"
| "item_cvt (ITxt t) = Some t"
| "item_cvt it = None"

text \<open>The last item of a kind counts, the default where there is none.\<close>

definition given :: "('i \<Rightarrow> 'a option) \<Rightarrow> 'a \<Rightarrow> 'i list \<Rightarrow> 'a" where
  "given f d items = last (d # List.map_filter f items)"

lemma given_simps [simp]:
  "given f d [] = d"
  "given f d (it # its) = given f (case f it of None \<Rightarrow> d | Some v \<Rightarrow> v) its"
  by (auto simp: given_def map_filter_simps split: option.splits)

text \<open>A specification: the head alone, or the head, the access and the items.\<close>

record operand_spec =
  sp_head :: head_spec
  sp_rest :: "(string \<times> tail_item list) option"

definition spec_items :: "operand_spec \<Rightarrow> tail_item list" where
  "spec_items s = (case sp_rest s of None \<Rightarrow> [] | Some (rw, its) \<Rightarrow> its)"

definition spec_text :: "operand_spec \<Rightarrow> string" where
  "spec_text s = join '':'' (head_text (sp_head s) #
     (case sp_rest s of None \<Rightarrow> [] | Some (rw, its) \<Rightarrow> rw # map item_text its))"

definition spec_ok :: "parse_tables \<Rightarrow> operand_spec \<Rightarrow> bool" where
  "spec_ok pt s \<longleftrightarrow> head_spec_ok (sp_head s) \<and>
     (case sp_rest s of None \<Rightarrow> True
      | Some (rw, its) \<Rightarrow> CHR '':'' \<notin> set rw \<and> items_ok (pt_xtypes pt) 2 False its)"

section \<open>A written specification is read back\<close>

lemma name_chars:
  assumes "list_all is_name_char s" "\<not> is_name_char c"
  shows "c \<notin> set s"
  using assms by (auto simp: list_all_iff)

lemmas name_char_defs = is_name_char_def is_alpha_def char_between_def is_digit_def is_lower_def

lemma not_name_chars [simp]:
  "\<not> is_name_char CHR ''!''" "\<not> is_name_char CHR ''=''" "\<not> is_name_char CHR 0x0A"
  "\<not> is_name_char CHR '':''" "\<not> is_name_char CHR ''/''" "\<not> is_name_char CHR ''(''" "\<not> is_name_char CHR '')''"
  by (simp_all add: name_char_defs)

lemma lower_digit_names:
  "is_lower c \<Longrightarrow> is_name_char c" "is_digit c \<Longrightarrow> is_name_char c" "is_name_char CHR ''_''"
  by (auto simp: name_char_defs)

lemma list_all_imp: "list_all P xs \<Longrightarrow> (\<And>x. P x \<Longrightarrow> Q x) \<Longrightarrow> list_all Q xs"
  by (auto simp: list_all_iff)

lemma rhs_text_chars:
  assumes "rhs_ok r" "c \<in> set (rhs_text r)"
  shows "is_name_char c \<or> c = CHR ''('' \<or> c = CHR '')''"
proof -
  have "list_all is_name_char ''XED_REG_ERROR_''" by code_simp
  then show ?thesis
    using assms by (cases r) (auto simp: list_all_iff lower_digit_names)
qed

lemma rhs_text_nonempty: "rhs_ok r \<Longrightarrow> rhs_text r \<noteq> []"
  by (cases r) auto

lemma no_letters_pattern:
  assumes "t \<noteq> []" "is_digit (hd t)"
  shows "\<not> rx_matches letters_underscore_pattern t"
  using assms by (cases t) (auto simp: rx_matches_def rx_match_def rx_at_def letters_underscore_pattern_def
      RPlus_def is_lower_def is_digit_def)

lemma letters_pattern:
  assumes "t \<noteq> []" "list_all (\<lambda>c. is_lower c \<or> c = CHR ''_'') t"
  shows "rx_matches letters_underscore_pattern t"
proof -
  let ?P = "\<lambda>c. is_lower c \<or> c = CHR ''_''"
  have tw: "takeWhile ?P t = t" using assms(2) by (auto simp: takeWhile_eq_all_conv list_all_iff)
  have "rev [1..<Suc (length t)] = length t # rev [1..<length t]" using assms(1) by (cases t) auto
  then have "rx_steps (RPlus (RChar ?P)) (0, t, []) =
      (length t, [], []) # map (\<lambda>k. (0 + k, drop k t, [])) (rev [1..<length t])"
    unfolding rx_steps_plus_char tw by simp
  then show ?thesis
    by (simp add: letters_underscore_pattern_def rx_matches_def rx_match_def rx_at_def del: rx_steps.simps(7))
qed

lemma parse_equals_spec:
  assumes "rhs_ok r"
  shows "parse_equals name (rhs_text r) = Inr (rhs_head name r)"
proof (cases r)
  case (SpecNt n)
  then have "CHR ''('' \<notin> set n" using assms by (simp add: name_chars)
  then have "rx_sub (RLit ''()'') [] (n @ ''()'') = n"
    using rx_sub_lit_end [of "CHR ''(''" n "''()''" "'')''" "Suc (length (n @ ''()''))" "[]" 0]
    by (simp add: rx_sub_def)
  with SpecNt show ?thesis using str_in_append [of "''()''" n "[]"] by (simp add: parse_equals_def del: RLit.simps)
next
  case (SpecLetters t)
  have no: "\<not> str_in ''()'' t" using assms SpecLetters by (auto dest!: str_in_char simp: list_all_iff is_lower_def)
  have "is_lower (hd t) \<or> hd t = CHR ''_''" using assms SpecLetters by (cases t) auto
  then have "hd t \<noteq> CHR ''X''" by (auto simp: is_lower_def)
  then have "\<not> starts_with (CHR ''X'' # w) t" for w using assms SpecLetters by (cases t) (auto simp: starts_with_def)
  moreover have "\<not> list_ex is_upper t"
    using assms SpecLetters by (auto simp: list_all_iff list_ex_iff is_upper_def is_lower_def)
  ultimately show ?thesis
    using no letters_pattern [of t] assms SpecLetters by (simp add: parse_equals_def del: RLit.simps)
next
  case (SpecNum t v)
  have no: "\<not> str_in ''()'' t" using assms SpecNum by (auto dest!: str_in_char simp: name_chars)
  have "hd t \<noteq> CHR ''X''" using assms SpecNum by (auto simp: is_digit_def)
  then have "\<not> starts_with (CHR ''X'' # w) t" for w using assms SpecNum by (cases t) (auto simp: starts_with_def)
  with no show ?thesis
    using no_letters_pattern [of t] assms SpecNum by (simp add: parse_equals_def del: RLit.simps)
qed (use assms in \<open>auto simp: parse_equals_def starts_with_def name_chars simp del: RLit.simps dest!: str_in_char\<close>)

lemma parse_not_equals_spec:
  assumes "head_spec_ok (SpecNe name r)"
  shows "parse_not_equals name (rhs_text r) = Inr ((rhs_head name r)\<lparr>h_invert := True\<rparr>)"
proof (cases r)
  case (SpecNum t v)
  have "hd t \<noteq> CHR ''X''" using assms SpecNum by (auto simp: is_digit_def)
  then have "\<not> starts_with ''XED_REG_'' t" using assms SpecNum by (cases t) (auto simp: starts_with_def)
  moreover have "\<not> list_ex is_upper t" using assms SpecNum by (auto simp: list_all_iff list_ex_iff)
  ultimately show ?thesis
    using no_letters_pattern [of t] assms SpecNum by (simp add: parse_not_equals_def)
qed (use assms in \<open>auto simp: parse_not_equals_def starts_with_def\<close>)

text \<open>A search for two parts around a mark: it fails where no mark follows a part of its own.\<close>

lemma rx_at_binary_None:
  assumes "\<And>k. 1 \<le> k \<Longrightarrow> k \<le> length s \<Longrightarrow> x \<notin> set (take k s) \<Longrightarrow> \<not> starts_with w (drop k s)"
  shows "rx_at (RSeqs [RGroup n (RPlus (RNoneOf {x})), RLit w, q]) p s = None"
proof -
  let ?P = "\<lambda>c. c \<notin> {x}"
  have "rx_steps (RSeq (RLit w) q) (p + k, drop k s, g) = []"
    if k: "k \<in> set (rev [1..<Suc (length (takeWhile ?P s))])" for k g
  proof -
    have le: "k \<le> length (takeWhile ?P s)" "1 \<le> k" using k by auto
    have "set (take k s) \<subseteq> set (takeWhile ?P s)"
      using set_take_subset_set_take [OF le(1), of s] takeWhile_eq_take [of ?P s] by metis
    then have "x \<notin> set (take k s)" by (auto dest: set_takeWhileD)
    moreover have "k \<le> length s" using le(1) length_takeWhile_le [of ?P s] by linarith
    ultimately show ?thesis using assms le(2) by (simp add: rx_steps_lit del: RLit.simps)
  qed
  then have e: "concat (map (\<lambda>k. rx_steps (RSeq (RLit w) q) (p + k, drop k s, dset n (take k s) []))
      (rev [1..<Suc (length (takeWhile ?P s))])) = []"
    by (simp only: concat_eq_Nil_conv set_map ball_simps) blast
  have steps: "rx_steps (RSeqs [RGroup n (RPlus (RNoneOf {x})), RLit w, q]) (p, s, []) =
      concat (map (\<lambda>k. rx_steps (RSeq (RLit w) q) (p + k, drop k s, dset n (take k s) []))
        (rev [1..<Suc (length (takeWhile ?P s))]))"
    by (simp add: RNoneOf_def rx_steps_plus_char o_def del: upt_Suc RLit.simps)
  show ?thesis unfolding rx_at_def steps e list.case ..
qed

lemma search_equals_None:
  assumes "\<And>i. i < length s \<Longrightarrow> s ! i = CHR ''='' \<Longrightarrow> 0 < i \<and> s ! (i - 1) = CHR ''!''"
  shows "rx_search equals_pattern s = None"
proof -
  have "rx_at equals_pattern (0 + m) (drop m s) = None" if m: "m \<le> length s" for m
    unfolding equals_pattern_def
  proof (rule rx_at_binary_None, rule notI)
    fix k assume k: "1 \<le> k" "k \<le> length (drop m s)" "CHR ''!'' \<notin> set (take k (drop m s))"
      and "starts_with ''='' (drop k (drop m s))"
    then have "starts_with ''='' (drop (m + k) s)" by (simp add: add.commute)
    then have "drop (m + k) s \<noteq> [] \<and> hd (drop (m + k) s) = CHR ''=''"
      by (cases "drop (m + k) s") (auto simp: starts_with_def)
    then have e: "m + k < length s" "s ! (m + k) = CHR ''=''" by (auto simp: hd_drop_conv_nth)
    from assms [OF e] have "s ! (m + (k - 1)) = CHR ''!''" using k(1) by simp
    moreover have "k - 1 < length (take k (drop m s))" "take k (drop m s) ! (k - 1) = s ! (m + (k - 1))"
      using k(1,2) by simp_all
    ultimately show False using k(3) nth_mem by metis
  qed
  then have "rx_find equals_pattern 0 s = None" by (rule rx_find_None)
  then show ?thesis by (simp add: rx_search_def)
qed

lemma search_not_equals_None:
  assumes "CHR ''='' \<notin> set s"
  shows "rx_search not_equals_pattern s = None"
proof -
  have "rx_at not_equals_pattern (0 + m) (drop m s) = None" for m
    unfolding not_equals_pattern_def
  proof (rule rx_at_binary_None, rule notI)
    fix k assume "starts_with ''!='' (drop k (drop m s))"
    then have "take 2 (drop k (drop m s)) = ''!=''" by (simp add: starts_with_def numeral_2_eq_2)
    then have "CHR ''='' \<in> set (take 2 (drop k (drop m s)))" by simp
    then show False using assms by (meson in_set_dropD in_set_takeD)
  qed
  then have "rx_find not_equals_pattern 0 s = None" by (rule rx_find_None)
  then show ?thesis by (simp add: rx_search_def)
qed

lemma search_not_equals:
  assumes "lhs \<noteq> []" "CHR ''!'' \<notin> set lhs" "rhs \<noteq> []" "CHR 0x0A \<notin> set rhs"
  shows "rx_search not_equals_pattern (lhs @ ''!='' @ rhs) = Some [(''lhs'', lhs), (''rhs'', rhs)]"
proof -
  let ?a = "lhs @ ''!='' @ rhs" and ?n = "length lhs"
  have tw: "takeWhile (\<lambda>c. c \<noteq> CHR ''!'') ?a = lhs" using assms(2) by (subst takeWhile_append2) auto
  have dot: "takeWhile (\<lambda>c. c \<noteq> CHR 0x0A) rhs = rhs" using assms(4) by (auto simp: takeWhile_eq_all_conv)
  have u: "rev [Suc 0..<Suc (length ws)] = length ws # rev [Suc 0..<length ws]" if "ws \<noteq> []" for ws :: string
    using that by (cases ws) auto
  have "rx_steps (RGroup ''lhs'' (RPlus (RNoneOf {CHR ''!''}))) (0, ?a, []) =
      (?n, ''!='' @ rhs, [(''lhs'', lhs)]) #
      map (\<lambda>k. (k, drop k ?a, [(''lhs'', take k ?a)])) (rev [1..<?n])"
    using tw by (simp add: RNoneOf_def rx_steps_plus_char u [OF assms(1)] o_def del: upt_Suc)
  moreover have "rx_steps (RSeq (RLit ''!='') (RGroup ''rhs'' (RPlus RDot))) (?n, ''!='' @ rhs, [(''lhs'', lhs)]) =
      (?n + 2 + length rhs, [], [(''lhs'', lhs), (''rhs'', rhs)]) #
      map (\<lambda>k. (?n + 2 + k, drop k rhs, dset ''rhs'' (take k rhs) [(''lhs'', lhs)])) (rev [1..<length rhs])"
    by (simp add: rx_steps_lit starts_with_def RDot_def RNoneOf_def rx_steps_plus_char dot
        u [OF assms(3)] o_def del: upt_Suc RLit.simps)
  ultimately have "rx_at not_equals_pattern 0 ?a = Some (?n + 2 + length rhs, [], [(''lhs'', lhs), (''rhs'', rhs)])"
    by (simp add: not_equals_pattern_def rx_at_def del: RLit.simps rx_steps.simps(8))
  then show ?thesis by (simp add: rx_search_def rx_find_head)
qed

lemma parse_head_spec:
  assumes "head_spec_ok h"
  shows "parse_head (head_text h) = Inr (spec_head h)"
proof (cases h)
  case (SpecEq name r)
  then have n: "name \<noteq> []" "list_all is_name_char name" "rhs_ok r" using assms by simp_all
  have "c \<notin> set (rhs_text r)" if "\<not> is_name_char c" "c \<noteq> CHR ''(''" "c \<noteq> CHR '')''" for c
    using rhs_text_chars [OF n(3)] that by blast
  then have "rx_search equals_pattern (name @ ''='' @ rhs_text r) = Some [(''lhs'', name), (''rhs'', rhs_text r)]"
    using n rhs_text_nonempty [OF n(3)] by (intro search_equals) (simp_all add: name_chars)
  then show ?thesis
    using parse_equals_spec [OF n(3)] SpecEq by (simp add: parse_head_def group_def dget_default_def)
next
  case (SpecNe name r)
  then have n: "name \<noteq> []" "list_all is_name_char name" "rhs_ok r" using assms by simp_all
  have safe: "c \<notin> set (rhs_text r)" if "\<not> is_name_char c" "c \<noteq> CHR ''(''" "c \<noteq> CHR '')''" for c
    using rhs_text_chars [OF n(3)] that by blast
  let ?a = "name @ ''!='' @ rhs_text r"
  have "rx_search equals_pattern ?a = None"
  proof (rule search_equals_None)
    fix i assume i: "i < length ?a" "?a ! i = CHR ''=''"
    have "name ! i \<noteq> CHR ''=''" if "i < length name"
      using nth_mem [OF that] n(2) by (auto simp: name_chars)
    then have "length name \<le> i" using i(2) by (auto simp: nth_append split: if_splits)
    moreover have "rhs_text r ! (i - length name - 2) \<noteq> CHR ''=''" if "length name + 2 \<le> i"
    proof -
      have "i - length name - 2 < length (rhs_text r)" using i(1) that by simp
      from nth_mem [OF this] show ?thesis using safe [of "CHR ''=''"] by auto
    qed
    ultimately have "i = Suc (length name)"
      using i(2) by (auto simp: nth_append nth_Cons' numeral_2_eq_2 split: if_splits)
    then show "0 < i \<and> ?a ! (i - 1) = CHR ''!''" by (simp add: nth_append)
  qed
  moreover have "rx_search not_equals_pattern ?a = Some [(''lhs'', name), (''rhs'', rhs_text r)]"
    using n safe rhs_text_nonempty [OF n(3)] by (intro search_not_equals) (simp_all add: name_chars)
  ultimately show ?thesis
    using parse_not_equals_spec [OF assms [unfolded SpecNe]] SpecNe
    by (simp add: parse_head_def group_def dget_default_def)
next
  case (SpecPlace name)
  have "\<forall>name \<in> set place_names. parse_head name = Inr (head_of name ''imm_const'' (BitsStr ''1''))" by code_simp
  with SpecPlace assms show ?thesis by simp
next
  case SpecReset
  have "parse_head ''XED_RESET'' = Inr (spec_head SpecReset)" by code_simp
  with SpecReset show ?thesis by simp
next
  case (SpecFlag name)
  then have n: "list_all is_name_char name" "\<not> str_in ''XED_RESET'' name"
    "\<forall>w \<in> set place_names. \<not> str_in w name" using assms by simp_all
  have "rx_search equals_pattern name = None"
  proof (rule search_equals_None)
    fix i assume "i < length name" "name ! i = CHR ''=''"
    then have "CHR ''='' \<in> set name" by (metis nth_mem)
    then show "0 < i \<and> name ! (i - 1) = CHR ''!''" using n(1) by (simp add: name_chars)
  qed
  moreover have "rx_search not_equals_pattern name = None"
    using n(1) by (intro search_not_equals_None) (simp add: name_chars)
  moreover have "\<not> rx_searches (RSeq (RLit ''MEM'') (ROneOf (set ''01''))) name"
    "\<not> rx_searches (RSeq (RLit ''IMM'') (ROneOf (set ''0123''))) name"
    using n(3) by (auto simp: place_names_def simp del: RLit.simps dest!: rx_searches_lit_oneof)
  moreover have "\<not> str_in ''()'' name" using n(1) by (auto simp: name_chars dest!: str_in_char)
  ultimately show ?thesis
    using n SpecFlag by (simp add: parse_head_def placeholder_patterns_def place_names_def del: RLit.simps)
qed

lemma head_text_chars:
  assumes "head_spec_ok h" and "c = CHR ''/'' \<or> c = CHR '':''"
  shows "c \<notin> set (head_text h)"
proof (cases h)
  case (SpecPlace name)
  have "\<forall>name \<in> set place_names. CHR ''/'' \<notin> set name \<and> CHR '':'' \<notin> set name" by code_simp
  with SpecPlace assms show ?thesis by auto
qed (use assms in \<open>auto simp: name_chars dest: rhs_text_chars\<close>)

section \<open>The chunks behind the access\<close>

lemma oc2_pattern_word:
  assumes "oc2_word s"
  shows "rx_matches oc2_pattern s"
  using assms oc2_pattern_matches by (cases s) (auto simp: oc2_word_def)

lemma oc2_word_word: "oc2_word s \<Longrightarrow> xtype_word s"
  by (cases s) (auto simp: oc2_word_def xtype_word_def list_all_iff)

lemma xtype_word_plain:
  assumes "xtype_word c"
  shows "rx_match multireg_pattern c = None" "rx_match convert_pattern c = None"
    "c \<notin> {''IMPL'', ''SUPP'', ''EXPL'', ''ECOND''}"
proof -
  obtain x s where c: "c = x # s" and "is_lower x \<or> is_digit x" using assms by (cases c) (auto simp: xtype_word_def)
  then have "x \<noteq> CHR ''M''" "x \<noteq> CHR ''T''" "x \<noteq> CHR ''I''" "x \<noteq> CHR ''S''" "x \<noteq> CHR ''E''"
    by (auto simp: is_lower_def is_digit_def)
  then show "rx_match multireg_pattern c = None" "rx_match convert_pattern c = None"
    "c \<notin> {''IMPL'', ''SUPP'', ''EXPL'', ''ECOND''}"
    by (simp_all add: c rx_match_def rx_at_def multireg_pattern_def convert_pattern_def ROneOf_def)
qed

lemma rx_group_plus:
  assumes "t \<noteq> []" "list_all P t"
  shows "rx_steps (RGroup n (RPlus (RChar P))) (p, t, g) =
    (p + length t, [], dset n t g) # map (\<lambda>k. (p + k, drop k t, dset n (take k t) g)) (rev [1..<length t])"
proof -
  have tw: "takeWhile P t = t" using assms(2) by (auto simp: takeWhile_eq_all_conv list_all_iff)
  have "rev [1..<Suc (length t)] = length t # rev [1..<length t]" using assms(1) by (cases t) auto
  then show ?thesis by (simp add: rx_steps_plus_char tw o_def del: upt_Suc)
qed

lemma match_multireg:
  assumes "sd \<in> {''SOURCE'', ''DEST'', ''SOURCEDEST''}" "t \<noteq> []" "list_all is_digit t"
  shows "\<exists>g. rx_match multireg_pattern (''MULTI'' @ sd @ t) = Some g \<and> group ''nreg'' g = t"
proof -
  define T where "T = RGroup ''nreg'' (RPlus (RChar is_digit))"
  have pat: "multireg_pattern = RSeq (RLit ''MULTI'')
      (RSeq (RGroup ''sd'' (RAlt (RLit ''SOURCE'') (RAlt (RLit ''DEST'') (RLit ''SOURCEDEST'')))) T)"
    by (simp add: multireg_pattern_def T_def del: RLit.simps)
  have T: "rx_steps T (p, t, g) = (p + length t, [], dset ''nreg'' t g) #
      map (\<lambda>k. (p + k, drop k t, dset ''nreg'' (take k t) g)) (rev [1..<length t])" for p g
    unfolding T_def by (rule rx_group_plus [OF assms(2,3)])
  have T': "rx_steps T (p, CHR ''D'' # w, g) = []" for p w g
    unfolding T_def by (simp add: rx_steps_plus_char is_digit_def)
  obtain x u where t: "t = x # u" "x \<noteq> CHR ''D''" using assms(2,3) by (cases t) (auto simp: is_digit_def)
  have D: "take 4 t \<noteq> ''DEST''" "take (Suc (Suc (Suc (Suc 0)))) t \<noteq> ''DEST''" using t by (auto simp: eval_nat_numeral)
  note defs = pat rx_match_def rx_at_def rx_steps_lit starts_with_def T T' D group_def dget_default_def
  consider "sd = ''SOURCE''" | "sd = ''DEST''" | "sd = ''SOURCEDEST''" using assms(1) by blast
  then show ?thesis
    by cases (simp_all add: defs del: RLit.simps)
qed

lemma match_convert:
  assumes "t \<noteq> []" "list_all is_name_char t"
  shows "\<exists>g. rx_match convert_pattern (''TXT='' @ t) = Some g \<and> group ''rhs'' g = t"
  by (simp add: convert_pattern_def rx_match_def rx_at_def rx_steps_lit starts_with_def group_def
      dget_default_def rx_group_plus [OF assms] del: RLit.simps rx_steps.simps(8))

lemma parse_items:
  assumes "items_ok xs i seen its" "2 \<le> i" "seen \<longleftrightarrow> c_oc2 st \<noteq> None"
  shows "foldM (parse_chunk xs) (zip [i..<i + length its] (map item_text its)) st =
    Inr \<lparr>c_rw = c_rw st, c_vis = given item_vis (c_vis st) its, c_oc2 = given item_oc2 (c_oc2 st) its,
         c_xtype = given item_xtype (c_xtype st) its, c_cvt = c_cvt st @ List.map_filter item_cvt its,
         c_multireg = given item_multi (c_multireg st) its\<rparr>"
  using assms
proof (induction its arbitrary: i seen st)
  case Nil
  then show ?case by (simp add: map_filter_simps)
next
  case (Cons it its)
  have z: "zip [i..<i + length (it # its)] (map item_text (it # its)) =
      (i, item_text it) # zip [Suc i..<Suc i + length its] (map item_text its)"
    by (simp add: upt_conv_Cons del: upt_Suc)
  show ?case
  proof (cases it)
    case (IVis v)
    have "parse_chunk xs (i, item_text it) st = Inr (st\<lparr>c_vis := v\<rparr>)"
      using Cons.prems(1,2) IVis by (auto simp: parse_chunk_def)
    with Cons.IH [of "Suc i" seen "st\<lparr>c_vis := v\<rparr>"] Cons.prems IVis show ?thesis
      unfolding z by (simp add: map_filter_simps del: upt_Suc)
  next
    case (IMulti sd t n)
    let ?st = "st\<lparr>c_multireg := n, c_cvt := c_cvt st @ [''MULTIREG'' @ str_int n]\<rparr>"
    obtain g where "rx_match multireg_pattern (''MULTI'' @ sd @ t) = Some g" "group ''nreg'' g = t"
      using match_multireg [of sd t] Cons.prems(1) IMulti by auto
    then have "parse_chunk xs (i, item_text it) st = Inr ?st"
      using Cons.prems(1,2) IMulti by (auto simp: parse_chunk_def)
    with Cons.IH [of "Suc i" seen ?st] Cons.prems IMulti show ?thesis
      unfolding z by (simp add: map_filter_simps del: upt_Suc)
  next
    case (ITxt t)
    let ?st = "st\<lparr>c_cvt := c_cvt st @ [t]\<rparr>"
    obtain g where "rx_match convert_pattern (''TXT='' @ t) = Some g" "group ''rhs'' g = t"
      using match_convert [of t] Cons.prems(1) ITxt by auto
    moreover have "rx_match multireg_pattern (''TXT='' @ t) = None"
      by (simp add: rx_match_def rx_at_def multireg_pattern_def ROneOf_def)
    ultimately have "parse_chunk xs (i, item_text it) st = Inr ?st"
      using Cons.prems(2) ITxt by (auto simp: parse_chunk_def)
    with Cons.IH [of "Suc i" seen ?st] Cons.prems ITxt show ?thesis
      unfolding z by (simp add: map_filter_simps del: upt_Suc)
  next
    case (IOc2 c)
    let ?st = "st\<lparr>c_oc2 := Some c\<rparr>"
    have c: "oc2_word c" "\<not> seen" using Cons.prems(1) IOc2 by simp_all
    have "parse_chunk xs (i, item_text it) st = Inr ?st"
      using xtype_word_plain [OF oc2_word_word [OF c(1)]] oc2_pattern_word [OF c(1)] c(2) Cons.prems(2,3) IOc2
      by (auto simp: parse_chunk_def)
    with Cons.IH [of "Suc i" True ?st] Cons.prems IOc2 show ?thesis
      unfolding z by (simp add: map_filter_simps del: upt_Suc)
  next
    case (IXtype x)
    let ?st = "st\<lparr>c_xtype := Some x\<rparr>"
    have x: "xtype_word x" "seen" using Cons.prems(1) IXtype by simp_all
    have "parse_chunk xs (i, item_text it) st = Inr ?st"
      using xtype_word_plain [OF x(1)] x(2) Cons.prems IXtype by (auto simp: parse_chunk_def)
    moreover have "items_ok xs (Suc i) True its" using Cons.prems(1) x(2) IXtype by simp
    ultimately show ?thesis
      using Cons.IH [of "Suc i" True ?st] Cons.prems(2,3) x(2) IXtype
      unfolding z by (simp add: map_filter_simps del: upt_Suc)
  qed
qed

lemma item_text_no_colon:
  assumes "items_ok xs i seen its" "it \<in> set its"
  shows "CHR '':'' \<notin> set (item_text it)"
  using assms
proof (induction its arbitrary: i seen)
  case (Cons x its)
  have colon: "\<not> is_digit CHR '':''" "\<not> is_lower CHR '':''" by (simp_all add: is_digit_def is_lower_def)
  have w: "CHR '':'' \<notin> set c" if "xtype_word c" for c
    using that colon unfolding xtype_word_def list_all_iff by blast
  have d: "CHR '':'' \<notin> set c" if "list_all is_digit c" for c
    using that colon unfolding list_all_iff by blast
  have "list_all (\<lambda>c. CHR '':'' \<notin> set c) [''IMPL'', ''SUPP'', ''EXPL'', ''ECOND'', ''SOURCE'', ''DEST'', ''SOURCEDEST'']"
    by code_simp
  then have v: "CHR '':'' \<notin> set c"
    if "c \<in> set [''IMPL'', ''SUPP'', ''EXPL'', ''ECOND'', ''SOURCE'', ''DEST'', ''SOURCEDEST'']" for c
    using that unfolding list_all_iff by blast
  have "CHR '':'' \<notin> set (item_text x)"
  proof (cases x)
    case (IVis c)
    then show ?thesis using Cons.prems(1) by (intro v) auto
  next
    case (IMulti sd t n)
    then show ?thesis using Cons.prems(1) v [of sd] d [of t] by (simp del: insert_iff) auto
  next
    case (ITxt t)
    then show ?thesis using Cons.prems(1) by (simp add: name_chars)
  next
    case (IOc2 c)
    then show ?thesis using Cons.prems(1) w [OF oc2_word_word] by simp
  next
    case (IXtype c)
    then show ?thesis using Cons.prems(1) w by simp
  qed
  moreover have "\<exists>i seen. items_ok xs i seen its" using Cons.prems(1) by (cases x) (simp_all, blast+)
  ultimately show ?case using Cons.IH Cons.prems(2) by auto
qed simp

text \<open>
  C32: An operand specification is parsed back to the parts it is written from.  Its head is a bare
  operand (memory, immediate, branch displacement, pointer), a macro's name, the marker that restarts
  the traversal, an assignment of a register, lookup function, error, enumerator, letters or number,
  or an inequality with a register or number; behind it come nothing, or the access and any items: the
  visibility as second or third chunk, one width code, an xtype behind it, text conversions and
  multi-register marks.  What is left out gets its default: the access \<open>r\<close>, the parser's visibility,
  the xtype the width code or the lookup function has in the tables.  An operand that is only a
  condition of the encoder is dropped when the parser is told to.
\<close>

theorem operand_specification_round_trip:
  assumes "spec_ok pt s"
    and "visibility_of (case h_vis (spec_head (sp_head s)) of Some v \<Rightarrow> v
           | None \<Rightarrow> given item_vis (pt_default_vis pt) (spec_items s)) = Inr vis"
    and "(case given item_xtype None (spec_items s) of Some x \<Rightarrow> Inr x
           | None \<Rightarrow> default_xtype (pt_default_xtypes pt) (pt_extra_widths_nt pt)
                       (given item_oc2 None (spec_items s)) (h_lookupfn (spec_head (sp_head s)))) = Inr xt"
  shows "if pt_skip_encoder_conditions pt \<and> given item_vis (pt_default_vis pt) (spec_items s) = ''ECOND''
    then parse_one_operand pt (spec_text s) = Inr None
    else \<exists>op. parse_one_operand pt (spec_text s) = Inr (Some op) \<and>
      oi_name op = upper (h_name (spec_head (sp_head s))) \<and> oi_type op = h_type (spec_head (sp_head s)) \<and>
      oi_bits op = h_rhs (spec_head (sp_head s)) \<and> oi_lookupfn_name op = h_lookupfn (spec_head (sp_head s)) \<and>
      oi_invert op = h_invert (spec_head (sp_head s)) \<and>
      oi_rw op = (case sp_rest s of None \<Rightarrow> ''r'' | Some (rw, its) \<Rightarrow> rw) \<and> oi_visibility op = vis \<and>
      oi_oc2 op = given item_oc2 None (spec_items s) \<and> oi_xtype op = Some xt \<and>
      oi_cvt op = List.map_filter item_cvt (spec_items s) \<and>
      oi_multireg op = given item_multi 0 (spec_items s)"
proof -
  let ?h = "head_text (sp_head s)" and ?its = "spec_items s"
  let ?rw = "case sp_rest s of None \<Rightarrow> ''r'' | Some (rw, its) \<Rightarrow> rw"
  let ?st = "\<lparr>c_rw = ?rw, c_vis = given item_vis (pt_default_vis pt) ?its, c_oc2 = given item_oc2 None ?its,
    c_xtype = given item_xtype None ?its, c_cvt = List.map_filter item_cvt ?its,
    c_multireg = given item_multi 0 ?its\<rparr>"
  have h: "head_spec_ok (sp_head s)" using assms(1) by (simp add: spec_ok_def)
  have chunks: "parse_chunks pt (spec_text s) = Inr (?h, ?st)"
  proof (cases "sp_rest s")
    case None
    then have "split_on CHR '':'' (spec_text s) = [?h]"
      using split_on_join [of "[?h]" "CHR '':''"] head_text_chars [OF h] by (simp add: spec_text_def)
    then show ?thesis using None by (simp add: parse_chunks_def spec_items_def map_filter_simps)
  next
    case (Some p)
    obtain rw its where p: "sp_rest s = Some (rw, its)" using Some by (cases p) auto
    then have ok: "CHR '':'' \<notin> set rw" "items_ok (pt_xtypes pt) 2 False its"
      using assms(1) by (simp_all add: spec_ok_def)
    have sp: "split_on CHR '':'' (spec_text s) = ?h # rw # map item_text its"
      unfolding spec_text_def p option.case prod.case
      using ok head_text_chars [OF h] item_text_no_colon [OF ok(2)] by (intro split_on_join) auto
    have z: "zip [1..<Suc (length (rw # map item_text its))] (rw # map item_text its) =
        (1, rw) # zip [2..<2 + length its] (map item_text its)"
      by (simp add: upt_conv_Cons numeral_2_eq_2 del: upt_Suc)
    let ?st1 = "\<lparr>c_rw = rw, c_vis = pt_default_vis pt, c_oc2 = None, c_xtype = None, c_cvt = [], c_multireg = 0\<rparr>"
    have access: "parse_chunk xs (Suc 0, rw) st = Inr (st\<lparr>c_rw := rw\<rparr>)" for xs st
      by (simp add: parse_chunk_def)
    note its = parse_items [OF ok(2) order_refl, of ?st1]
    show ?thesis
      unfolding parse_chunks_def sp Let_def list.case z foldM.simps
      using its p by (simp add: access spec_items_def del: upt_Suc)
  qed
  have slash: "CHR ''/'' \<notin> set ?h" using head_text_chars [OF h] by simp
  have ty: "h_type (spec_head (sp_head s)) \<in> set operand_types"
    using parse_head_ok [OF parse_head_spec [OF h]] by (auto simp: head_ok_def operand_types_def)
  show ?thesis
    unfolding parse_one_operand_def using chunks slash parse_head_spec [OF h] assms(2,3) ty
    by (auto simp: operand_info_new_def split: option.splits)
qed

definition sample_specs :: "operand_spec list" where
  "sample_specs =
     [\<lparr>sp_head = SpecEq ''REG0'' (SpecNt ''XMM_R3''),
       sp_rest = Some (''r'', [IOc2 ''dq'', IXtype ''f32'', ITxt ''SAESTR''])\<rparr>,
      \<lparr>sp_head = SpecPlace ''MEM0'', sp_rest = Some (''rw'', [IVis ''SUPP'', IOc2 ''dq''])\<rparr>]"

theorem operand_specification_round_trip_witness:
  "(\<exists>op. parse_one_operand sample_tables ''REG0=XMM_R3():r:dq:f32:TXT=SAESTR'' = Inr (Some op) \<and>
     oi_lookupfn_name op = Some ''XMM_R3'' \<and> oi_xtype op = Some ''f32'' \<and> oi_cvt op = [''SAESTR'']) \<and>
   (\<exists>op. parse_one_operand sample_tables ''MEM0:rw:SUPP:dq'' = Inr (Some op) \<and>
     oi_type op = ''imm_const'' \<and> oi_rw op = ''rw'' \<and> oi_visibility op = ''SUPPRESSED'' \<and> oi_xtype op = Some ''i32'')"
proof -
  let ?s = "sample_specs ! 0" and ?t = "sample_specs ! 1"
  have written: "spec_text ?s = ''REG0=XMM_R3():r:dq:f32:TXT=SAESTR''" "spec_text ?t = ''MEM0:rw:SUPP:dq''"
    by code_simp+
  have s: "spec_ok sample_tables ?s"
    by (simp add: spec_ok_def sample_specs_def sample_tables_def oc2_word_def xtype_word_def
        name_char_defs)
  have t: "spec_ok sample_tables ?t"
    by (simp add: spec_ok_def sample_specs_def sample_tables_def place_names_def oc2_word_def
        name_char_defs)
  note d = sample_specs_def sample_tables_def spec_items_def head_of_def visibility_of_def default_xtype_def
  have "\<exists>op. parse_one_operand sample_tables (spec_text ?s) = Inr (Some op) \<and>
     oi_lookupfn_name op = Some ''XMM_R3'' \<and> oi_xtype op = Some ''f32'' \<and> oi_cvt op = [''SAESTR'']"
    using operand_specification_round_trip [OF s, of "''DEFAULT''" "''f32''"] by (auto simp: d map_filter_simps)
  moreover have "default_xtype (pt_default_xtypes sample_tables) (pt_extra_widths_nt sample_tables) (Some ''dq'') None = Inr ''i32''"
    by code_simp
  then have "\<exists>op. parse_one_operand sample_tables (spec_text ?t) = Inr (Some op) \<and>
     oi_type op = ''imm_const'' \<and> oi_rw op = ''rw'' \<and> oi_visibility op = ''SUPPRESSED'' \<and> oi_xtype op = Some ''i32''"
    using operand_specification_round_trip [OF t, of "''SUPPRESSED''" "''i32''"] by (auto simp: d map_filter_simps)
  ultimately show ?thesis unfolding written by blast
qed

end
