(* ===== verification/Operand_Storage.thy ===== *)
theory Operand_Storage
  imports Pattern_Bits "HOL-Library.List_Lexorder" "HOL-Library.Char_ord" "HOL-Library.Multiset"
begin

text \<open>
  The operand storage (\<open>pysrc/operand_storage.py\<close>): the fields of a decoded instruction, read from
  a text file, get a storage type each, and the narrow ones are packed as bit fields into 32-bit
  bins by first fit; a getter and a setter are emitted for every field.  The lemmas show that the
  packing is a partition into bins that fit, placed by first fit, and that the getters and setters
  over the emitted struct behave like independent variables for the values that fit.
\<close>

section \<open>Fields\<close>

record operand_field =
  of_name :: string
  aggtype :: string
  ctype :: string
  bitwidth :: int
  default_visibility :: string
  default_initializer :: string
  xprint :: string
  internal_or_public :: string
  dio :: string
  eio :: string
  encoder_input :: bool
  decoder_skip :: bool
  is_enum :: bool
  storage_type :: "string option"
  compressed :: bool

text \<open>The message of the second check formats the wrong field; the check itself is the right one.\<close>

definition operand_field_new ::
  "string list \<Rightarrow> string \<Rightarrow> operand_field res" where
  "operand_field_new wrds initializer =
     (case wrds of
        [name, agg, ct, width, vis, prnt, pub, di, ei] \<Rightarrow>
          rbind (py_int 10 width) (\<lambda>w.
            if ei \<notin> {''EI'', ''EO''}
            then Inl (Die ''Bad Encoder IO value: %s -- need one of {EI,EO}'')
            else if di \<notin> {''DI'', ''DO'', ''DS''}
            then Inl (Die ''Bad decoder IO value: %s -- need one of {DI,DO,DS}'')
            else Inr \<lparr>of_name = name, aggtype = agg, ctype = ct, bitwidth = w,
                      default_visibility = vis, default_initializer = initializer, xprint = prnt,
                      internal_or_public = pub, dio = di, eio = ei,
                      encoder_input = (ei = ''EI''), decoder_skip = (di = ''DS''),
                      is_enum = str_in ''enum'' ct, storage_type = None, compressed = False\<rparr>)
      | _ \<Rightarrow> Inl (Die ''Bad number of tokens on line''))"

definition print_field :: "operand_field \<Rightarrow> bool" where
  "print_field f \<longleftrightarrow> xprint f = ''PRINT''"

type_synonym fields = "(string, operand_field) dict"

text \<open>The comment pattern removes from a \<open>#\<close> to the end of the line, where the string ends.\<close>

fun sub_field_comment :: "string \<Rightarrow> string" where
  "sub_field_comment [] = []"
| "sub_field_comment (c # s) =
     (let r = dropWhile (\<lambda>c. c \<noteq> CHR 0x0A) s
      in if c = CHR ''#'' \<and> r \<in> {[], [CHR 0x0A]} then r else c # sub_field_comment s)"

definition initializer_of :: "string \<Rightarrow> string" where
  "initializer_of ct =
     (if ct = ''xed_reg_enum_t'' then ''XED_REG_INVALID''
      else if ct = ''xed_iclass_enum_t'' then ''XED_ICLASS_INVALID'' else ''0'')"

definition read_field :: "string \<Rightarrow> fields \<Rightarrow> fields res" where
  "read_field line fs =
     (let pline = strip (sub_field_comment line)
      in if pline = '''' then Inr fs
         else case split_words pline of
           [name, agg, ct, width, vis, prnt, pub, di, ei] \<Rightarrow>
             if din name fs then Inl (Die ''Duplicate name in input-fields file.'')
             else if agg \<noteq> ''SCALAR'' then Inl (Die ''type different than SCALAR is not supported'')
             else rbind (operand_field_new [name, agg, ct, width, vis, prnt, pub, di, ei]
                           (initializer_of ct))
                    (\<lambda>f. Inr (dset name f fs))
         | _ \<Rightarrow> Inl (Die ''Bad number of tokens on line''))"

definition read_storage_fields :: "string list \<Rightarrow> fields res" where
  "read_storage_fields lines = foldM read_field lines []"

definition sort_cmp_operands :: "operand_field list \<Rightarrow> operand_field list" where
  "sort_cmp_operands a = sort_key bitwidth (sort_key of_name a)"

section \<open>Widths of enumerations\<close>

definition get_num_elements_in_enum :: "string list \<Rightarrow> nat" where
  "get_num_elements_in_enum values_list =
     (if list_ex (str_in ''LAST'') values_list then length values_list
      else length values_list + 1)"

text \<open>
  \<open>int(ceil(log(n, 2)))\<close>, exact for the counts below \<open>2 ^ 29\<close> (from there on the floating-point
  logarithm can round a power of two up).
\<close>

definition ceil_log2 :: "nat \<Rightarrow> int" where
  "ceil_log2 n = (if n \<le> 1 then 0 else int (Suc (ilog2 (n - 1))))"

type_synonym enums = "(string, string list) dict"

definition gen_max_bits_per_enum :: "enums \<Rightarrow> (string, int) dict" where
  "gen_max_bits_per_enum all_enums =
     dset ''xed_error_enum_t'' 4
       (fold (\<lambda>(enum_name, values_list). dset enum_name
                (ceil_log2 (get_num_elements_in_enum values_list))) all_enums [])"

text \<open>
  The message for a width that is too small is formatted with \<open>% i\<close> from a string, and its values
  are looked up first, so the branch fails with one of Python's own errors.
\<close>

definition fix_width :: "enums \<Rightarrow> (string, int) dict \<Rightarrow> operand_field \<Rightarrow> operand_field res" where
  "fix_width all_enums max_bits_for_enum op =
     (case map_of max_bits_for_enum (ctype op) of
        None \<Rightarrow> Inr op
      | Some needed_bits \<Rightarrow>
          if bitwidth op < needed_bits
          then rbind (dget all_enums (ctype op)) (\<lambda>vals. Inl TypeError)
          else Inr (op\<lparr>bitwidth := needed_bits\<rparr>))"

definition map_fields :: "(operand_field \<Rightarrow> operand_field res) \<Rightarrow> fields \<Rightarrow> fields res" where
  "map_fields g fs = mapM (\<lambda>(n, op). rbind (g op) (\<lambda>op. Inr (n, op))) fs"

definition fix_bit_width_for_enums :: "enums \<Rightarrow> fields \<Rightarrow> fields res" where
  "fix_bit_width_for_enums all_enums =
     map_fields (fix_width all_enums (gen_max_bits_per_enum all_enums))"

definition type_in_storage :: "operand_field \<Rightarrow> operand_field res" where
  "type_in_storage op =
     (let width = bitwidth op
      in if width \<le> 8 then Inr (op\<lparr>storage_type := Some ''xed_uint8_t''\<rparr>)
         else if width \<le> 16 then Inr (op\<lparr>storage_type := Some ''xed_uint16_t''\<rparr>)
         else if width \<le> 32 then Inr (op\<lparr>storage_type := Some ''xed_uint32_t''\<rparr>)
         else if width \<le> 64 then Inr (op\<lparr>storage_type := Some ''xed_uint64_t''\<rparr>)
         else Inl (Die ''unhandled width''))"

definition compute_type_in_storage :: "fields \<Rightarrow> fields res" where
  "compute_type_in_storage = map_fields type_in_storage"

section \<open>Bins\<close>

record operands_bin =
  bin_operands :: "operand_field list"
  bin_size :: int

definition bin_max_size :: int where "bin_max_size = 32"

definition bin_storage_ctype :: string where "bin_storage_ctype = ''xed_uint32_t''"

definition operands_bin_new :: operands_bin where
  "operands_bin_new = \<lparr>bin_operands = [], bin_size = 0\<rparr>"

definition add_operand :: "operand_field \<Rightarrow> operands_bin \<Rightarrow> operands_bin" where
  "add_operand op b =
     b\<lparr>bin_operands := bin_operands b @ [op], bin_size := bin_size b + bitwidth op\<rparr>"

definition operand_fits :: "operand_field \<Rightarrow> operands_bin \<Rightarrow> bool" where
  "operand_fits operand b \<longleftrightarrow> bitwidth operand + bin_size b \<le> bin_max_size"

fun place_operand_in_bin :: "operand_field \<Rightarrow> operands_bin list \<Rightarrow> operands_bin list" where
  "place_operand_in_bin op [] = [add_operand op operands_bin_new]"
| "place_operand_in_bin op (xbin # bins) =
     (if operand_fits op xbin then add_operand op xbin # bins
      else xbin # place_operand_in_bin op bins)"

text \<open>The flag is set on the object the bin holds too.\<close>

definition partition_step :: "operand_field \<Rightarrow> operands_bin list \<Rightarrow> operands_bin list" where
  "partition_step op = place_operand_in_bin (op\<lparr>compressed := True\<rparr>)"

definition partition_to_bins :: "operand_field list \<Rightarrow> operands_bin list" where
  "partition_to_bins ops_sorted = fold partition_step ops_sorted []"

definition is_candidate :: "operand_field \<Rightarrow> bool" where
  "is_candidate op \<longleftrightarrow> bitwidth op \<noteq> 32 \<and> bitwidth op \<noteq> 64"

definition get_candidates_for_compression :: "fields \<Rightarrow> operand_field list" where
  "get_candidates_for_compression fs = filter is_candidate (dvals fs)"

text \<open>The bins, and the fields with the candidates marked.\<close>

definition compress_operands :: "fields \<Rightarrow> operands_bin list \<times> fields" where
  "compress_operands fs =
     (partition_to_bins (sort_cmp_operands (get_candidates_for_compression fs)),
      map (\<lambda>(n, op). (n, if is_candidate op then op\<lparr>compressed := True\<rparr> else op)) fs)"

section \<open>The emitted struct\<close>

record struct_member =
  member_name :: string
  member_ctype :: "string option"
  member_bits :: "int option"

definition plain_member :: "operand_field \<Rightarrow> struct_member" where
  "plain_member op =
     \<lparr>member_name = lower (of_name op), member_ctype = storage_type op, member_bits = None\<rparr>"

definition bit_member :: "operand_field \<Rightarrow> struct_member" where
  "bit_member op =
     \<lparr>member_name = lower (of_name op), member_ctype = Some bin_storage_ctype,
      member_bits = Some (bitwidth op)\<rparr>"

definition emit_members :: "bool \<Rightarrow> fields \<Rightarrow> fields \<times> struct_member list" where
  "emit_members compress fs =
     (if compress
      then (let (bins, fs) = compress_operands fs
            in (fs, map plain_member
                      (sort_cmp_operands (filter (\<lambda>op. \<not> compressed op) (dvals fs))) @
                    concat (map (\<lambda>xbin. map bit_member (bin_operands xbin)) bins)))
      else (fs, map plain_member (sort_cmp_operands (dvals fs))))"

definition emit_storage :: "bool \<Rightarrow> enums \<Rightarrow> fields \<Rightarrow> (fields \<times> struct_member list) res" where
  "emit_storage compress all_enums fs =
     rbind (fix_bit_width_for_enums all_enums fs) (\<lambda>fs.
     rbind (compute_type_in_storage fs) (\<lambda>fs. Inr (emit_members compress fs)))"

section \<open>The emitted accessors\<close>

text \<open>What an accessor's one line of C names: the struct member and the types of its casts.\<close>

record accessor =
  fn_name :: string
  value_type :: string
  cast_type :: "string option"
  accessed :: string

definition get_op_getter_fn :: "string \<Rightarrow> string" where
  "get_op_getter_fn opname = ''xed3_operand'' @ ''_get_'' @ lower opname"

definition get_op_setter_fn :: "string \<Rightarrow> string" where
  "get_op_setter_fn opname = ''xed3_operand'' @ ''_set_'' @ lower opname"

definition gen_op_getter_fo :: "fields \<Rightarrow> string \<Rightarrow> accessor res" where
  "gen_op_getter_fo fs opname =
     rbind (dget fs opname) (\<lambda>f.
       Inr \<lparr>fn_name = get_op_getter_fn opname, value_type = ctype f,
            cast_type = Some (ctype f), accessed = lower opname\<rparr>)"

definition gen_op_setter_fo :: "fields \<Rightarrow> string \<Rightarrow> accessor res" where
  "gen_op_setter_fo fs opname =
     rbind (dget fs opname) (\<lambda>f.
       Inr \<lparr>fn_name = get_op_setter_fn opname, value_type = ctype f,
            cast_type = storage_type f, accessed = lower opname\<rparr>)"

text \<open>The cases of the two generic accessors: the enumerator, the type of the cast, the callee.\<close>

definition generic_cases :: "(string \<Rightarrow> string) \<Rightarrow> fields \<Rightarrow> (string \<times> string \<times> string) list res" where
  "generic_cases fn fs =
     mapM (\<lambda>op. rbind (dget fs op) (\<lambda>f. Inr (''XED_OPERAND_'' @ op, ctype f, fn op)))
       (sort (dkeys fs))"

definition gen_generic_getter :: "fields \<Rightarrow> (string \<times> string \<times> string) list res" where
  "gen_generic_getter = generic_cases get_op_getter_fn"

definition gen_generic_setter :: "fields \<Rightarrow> (string \<times> string \<times> string) list res" where
  "gen_generic_setter = generic_cases get_op_setter_fn"

definition dump_operand_accessors ::
  "fields \<Rightarrow> (accessor list \<times> (string \<times> string \<times> string) list \<times> (string \<times> string \<times> string) list) res" where
  "dump_operand_accessors fs =
     rbind (mapM (\<lambda>opname. rbind (gen_op_getter_fo fs opname) (\<lambda>g.
                            rbind (gen_op_setter_fo fs opname) (\<lambda>s. Inr [g, s]))) (dkeys fs)) (\<lambda>fos.
     rbind (gen_generic_getter fs) (\<lambda>getter.
     rbind (gen_generic_setter fs) (\<lambda>setter. Inr (concat fos, getter, setter))))"

section \<open>The packing\<close>

lemma sort_cmp_operands_mset [simp]: "mset (sort_cmp_operands xs) = mset xs"
  by (simp add: sort_cmp_operands_def)

lemma sort_cmp_operands_set [simp]: "set (sort_cmp_operands xs) = set xs"
  by (simp add: sort_cmp_operands_def)

lemma sort_cmp_operands_sorted: "sorted (map bitwidth (sort_cmp_operands xs))"
  by (simp add: sort_cmp_operands_def)

lemma insort_key_stable:
  assumes "sorted_wrt (\<lambda>p q. f p < f q \<or> f p = f q \<and> R p q) xs" "\<forall>y \<in> set xs. R x y"
    "\<And>p q. R p q \<or> R q p"
  shows "sorted_wrt (\<lambda>p q. f p < (f q :: int) \<or> f p = f q \<and> R p q) (insort_key f x xs)"
  using assms
proof (induction xs)
  case Nil
  then show ?case by simp
next
  case (Cons y ys)
  then show ?case by (auto simp: set_insort_key)
qed

lemma sort_key_stable:
  assumes "sorted_wrt R xs" "\<And>p q. R p q \<or> R q p"
  shows "sorted_wrt (\<lambda>p q. f p < (f q :: int) \<or> f p = f q \<and> R p q) (sort_key f xs)"
  using assms(1)
proof (induction xs)
  case Nil
  then show ?case by simp
next
  case (Cons x xs)
  then show ?case using assms(2) by (auto simp: sort_key_simps intro!: insort_key_stable)
qed

lemma sort_cmp_operands_lex:
  "sorted_wrt (\<lambda>p q. bitwidth p < bitwidth q \<or> bitwidth p = bitwidth q \<and> of_name p \<le> of_name q)
     (sort_cmp_operands xs)"
  unfolding sort_cmp_operands_def
proof (rule sort_key_stable)
  show "sorted_wrt (\<lambda>p q. of_name p \<le> of_name q) (sort_key of_name xs)"
    using sorted_sort_key [of of_name xs] by (simp add: sorted_map)
qed (rule linear)

abbreviation packed :: "operands_bin list \<Rightarrow> operand_field list" where
  "packed bins \<equiv> concat (map bin_operands bins)"

text \<open>The counter of a bin is the sum of its widths, and no bin is empty.\<close>

definition bin_ok :: "operands_bin \<Rightarrow> bool" where
  "bin_ok b \<longleftrightarrow> bin_size b = sum_list (map bitwidth (bin_operands b)) \<and> bin_operands b \<noteq> []"

text \<open>No operand of a later bin fits into an earlier one.\<close>

fun first_fit :: "operands_bin list \<Rightarrow> bool" where
  "first_fit [] = True"
| "first_fit (b # bins) =
     ((\<forall>op \<in> set (packed bins). \<not> operand_fits op b) \<and> first_fit bins)"

lemma place_packed: "mset (packed (place_operand_in_bin op bins)) = add_mset op (mset (packed bins))"
  by (induction op bins rule: place_operand_in_bin.induct)
    (auto simp: add_operand_def operands_bin_new_def)

lemma place_packed_set: "set (packed (place_operand_in_bin op bins)) = insert op (set (packed bins))"
  using arg_cong [OF place_packed [of op bins], of set_mset] by simp

lemma place_bin_ok:
  "\<forall>b \<in> set bins. bin_ok b \<Longrightarrow> \<forall>b \<in> set (place_operand_in_bin op bins). bin_ok b"
  by (induction op bins rule: place_operand_in_bin.induct)
    (auto simp: add_operand_def operands_bin_new_def bin_ok_def)

lemma place_bin_fits:
  assumes "bitwidth op \<le> bin_max_size"
  shows "\<forall>b \<in> set bins. bin_size b \<le> bin_max_size \<Longrightarrow>
         \<forall>b \<in> set (place_operand_in_bin op bins). bin_size b \<le> bin_max_size"
  using assms
  by (induction op bins rule: place_operand_in_bin.induct)
    (auto simp: add_operand_def operands_bin_new_def operand_fits_def)

lemma place_first_fit:
  assumes "0 \<le> bitwidth op"
  shows "first_fit bins \<Longrightarrow> first_fit (place_operand_in_bin op bins)"
  using assms
proof (induction op bins rule: place_operand_in_bin.induct)
  case (1 op)
  then show ?case by (simp add: add_operand_def operands_bin_new_def)
next
  case (2 op xbin bins)
  then show ?case
    by (cases "operand_fits op xbin")
      (fastforce simp: add_operand_def operand_fits_def, simp add: place_packed_set del: set_concat)
qed

definition widths_sorted :: "operands_bin \<Rightarrow> bool" where
  "widths_sorted b \<longleftrightarrow> sorted (map bitwidth (bin_operands b))"

lemma place_widths_sorted:
  assumes "\<forall>p \<in> set (packed bins). bitwidth p \<le> bitwidth op"
  shows "\<forall>b \<in> set bins. widths_sorted b \<Longrightarrow>
         \<forall>b \<in> set (place_operand_in_bin op bins). widths_sorted b"
  using assms
  by (induction op bins rule: place_operand_in_bin.induct)
    (auto simp: add_operand_def operands_bin_new_def widths_sorted_def sorted_append)

abbreviation marked :: "operand_field \<Rightarrow> operand_field" where
  "marked op \<equiv> op\<lparr>compressed := True\<rparr>"

lemma partition_to_bins_snoc:
  "partition_to_bins (ops @ [op]) = place_operand_in_bin (marked op) (partition_to_bins ops)"
  by (simp add: partition_to_bins_def partition_step_def)

lemma partition_to_bins_Nil [simp]: "partition_to_bins [] = []"
  by (simp add: partition_to_bins_def)

lemma partition_packed: "mset (packed (partition_to_bins ops)) = image_mset marked (mset ops)"
  by (induction ops rule: rev_induct) (simp_all add: partition_to_bins_snoc place_packed)

lemma partition_packed_set: "set (packed (partition_to_bins ops)) = marked ` set ops"
  using arg_cong [OF partition_packed [of ops], of set_mset] by simp

lemma partition_bin_ok: "b \<in> set (partition_to_bins ops) \<Longrightarrow> bin_ok b"
  by (induction ops arbitrary: b rule: rev_induct)
    (auto simp: partition_to_bins_snoc dest: place_bin_ok [rule_format, rotated])

lemma partition_bin_fits:
  "\<forall>op \<in> set ops. bitwidth op \<le> bin_max_size \<Longrightarrow>
   \<forall>b \<in> set (partition_to_bins ops). bin_size b \<le> bin_max_size"
proof (induction ops rule: rev_induct)
  case Nil
  then show ?case by simp
next
  case (snoc op ops)
  then show ?case unfolding partition_to_bins_snoc by (intro place_bin_fits) simp_all
qed

lemma partition_first_fit:
  "\<forall>op \<in> set ops. 0 \<le> bitwidth op \<Longrightarrow> first_fit (partition_to_bins ops)"
  by (induction ops rule: rev_induct) (simp_all add: partition_to_bins_snoc place_first_fit)

lemma partition_widths_sorted:
  "sorted (map bitwidth ops) \<Longrightarrow> \<forall>b \<in> set (partition_to_bins ops). widths_sorted b"
proof (induction ops rule: rev_induct)
  case Nil
  then show ?case by simp
next
  case (snoc op ops)
  then have "\<forall>b \<in> set (partition_to_bins ops). widths_sorted b"
    and "\<forall>p \<in> set (packed (partition_to_bins ops)). bitwidth p \<le> bitwidth (marked op)"
    by (simp_all add: sorted_append partition_packed_set del: set_concat)
  then show ?case unfolding partition_to_bins_snoc by (intro place_widths_sorted)
qed

lemma first_fit_nth:
  "first_fit bins \<Longrightarrow> i < j \<Longrightarrow> j < length bins \<Longrightarrow> op \<in> set (bin_operands (bins ! j)) \<Longrightarrow>
   \<not> operand_fits op (bins ! i)"
proof (induction bins arbitrary: i j)
  case Nil
  then show ?case by simp
next
  case (Cons b bins)
  from Cons.prems obtain k where j: "j = Suc k" by (cases j) auto
  show ?case
  proof (cases i)
    case 0
    with Cons.prems j show ?thesis by auto
  next
    case (Suc n)
    with Cons j show ?thesis by simp
  qed
qed

lemma sum_list_nonneg_elem:
  "\<forall>x \<in> set xs. 0 \<le> f x \<Longrightarrow> y \<in> set xs \<Longrightarrow> f y \<le> (sum_list (map f xs) :: int)"
proof (induction xs)
  case Nil
  then show ?case by simp
next
  case (Cons x xs)
  have "0 \<le> sum_list (map f xs)" using Cons.prems(1) by (intro sum_list_nonneg) auto
  with Cons show ?case by auto
qed

lemma two_bins_over_full:
  assumes "\<forall>op \<in> set ops. 0 \<le> bitwidth op" and "i < j" and "j < length (partition_to_bins ops)"
  shows "bin_max_size < bin_size (partition_to_bins ops ! i) + bin_size (partition_to_bins ops ! j)"
proof -
  let ?bins = "partition_to_bins ops"
  have ok: "bin_ok (?bins ! j)" by (rule partition_bin_ok [OF nth_mem [OF assms(3)]])
  then obtain op where op: "op \<in> set (bin_operands (?bins ! j))"
    by (cases "bin_operands (?bins ! j)") (auto simp: bin_ok_def)
  have "set (bin_operands (?bins ! j)) \<subseteq> set (packed ?bins)"
    using nth_mem [OF assms(3)] by auto
  then have "\<forall>p \<in> set (bin_operands (?bins ! j)). 0 \<le> bitwidth p"
    using assms(1) by (auto simp: partition_packed_set simp del: set_concat)
  then have "bitwidth op \<le> bin_size (?bins ! j)"
    using ok op sum_list_nonneg_elem [of "bin_operands (?bins ! j)" bitwidth] by (simp add: bin_ok_def)
  with first_fit_nth [OF partition_first_fit [OF assms(1)] assms(2,3) op]
  show ?thesis by (simp add: operand_fits_def)
qed

text \<open>
  First fit, said of positions: operand \<open>k\<close> of the list goes into bin \<open>a k\<close>.  The load of a bin
  when operand \<open>k\<close> is placed is the width of the earlier operands put into it.
\<close>

definition load :: "operand_field list \<Rightarrow> (nat \<Rightarrow> nat) \<Rightarrow> nat \<Rightarrow> nat \<Rightarrow> int" where
  "load ops a i k = sum_list (map (\<lambda>l. bitwidth (ops ! l)) (filter (\<lambda>l. a l = i) [0..<k]))"

definition first_with_room :: "operand_field list \<Rightarrow> (nat \<Rightarrow> nat) \<Rightarrow> bool" where
  "first_with_room ops a \<longleftrightarrow> (\<forall>k < length ops.
     load ops a (a k) k + bitwidth (ops ! k) \<le> bin_max_size \<and>
     (\<forall>i < a k. bin_max_size < load ops a i k + bitwidth (ops ! k)))"

definition filled_by :: "operand_field list \<Rightarrow> (nat \<Rightarrow> nat) \<Rightarrow> operands_bin list \<Rightarrow> bool" where
  "filled_by ops a bins \<longleftrightarrow> (\<forall>k < length ops. a k < length bins) \<and>
     (\<forall>i < length bins. bin_operands (bins ! i) =
        map (\<lambda>k. marked (ops ! k)) (filter (\<lambda>k. a k = i) [0..<length ops]))"

lemma load_cong:
  assumes "\<And>l. l < k \<Longrightarrow> a' l = a l" and "\<And>l. l < k \<Longrightarrow> ops' ! l = ops ! l"
  shows "load ops' a' i k = load ops a i k"
proof -
  have "filter (\<lambda>l. a' l = i) [0..<k] = filter (\<lambda>l. a l = i) [0..<k]"
    using assms(1) by (intro filter_cong) simp_all
  then show ?thesis using assms(2) unfolding load_def by (intro arg_cong [of _ _ sum_list] map_cong) simp_all
qed

lemma filled_by_load:
  assumes "filled_by ops a bins" "i < length bins" "bin_ok (bins ! i)"
  shows "bin_size (bins ! i) = load ops a i (length ops)"
  using assms by (simp add: filled_by_def bin_ok_def load_def comp_def)

text \<open>The place is the first bin the operand fits into, or a new one behind the last.\<close>

definition fit_index :: "operand_field \<Rightarrow> operands_bin list \<Rightarrow> nat" where
  "fit_index op bins = length (takeWhile (\<lambda>b. \<not> operand_fits op b) bins)"

lemma fit_index_le: "fit_index op bins \<le> length bins"
  by (simp add: fit_index_def length_takeWhile_le)

lemma fit_index_fits: "fit_index op bins < length bins \<Longrightarrow> operand_fits op (bins ! fit_index op bins)"
  unfolding fit_index_def using nth_length_takeWhile by fastforce

lemma fit_index_before: "i < fit_index op bins \<Longrightarrow> \<not> operand_fits op (bins ! i)"
  unfolding fit_index_def by (metis nth_mem set_takeWhileD takeWhile_nth)

lemma place_at:
  "place_operand_in_bin op bins =
     (if fit_index op bins < length bins
      then bins[fit_index op bins := add_operand op (bins ! fit_index op bins)]
      else bins @ [add_operand op operands_bin_new])"
  by (induction op bins rule: place_operand_in_bin.induct) (auto simp: fit_index_def)

lemma partition_places:
  assumes "\<forall>op \<in> set ops. bitwidth op \<le> bin_max_size"
  shows "\<exists>a. first_with_room ops a \<and> filled_by ops a (partition_to_bins ops)"
  using assms
proof (induction ops rule: rev_induct)
  case Nil
  then show ?case by (simp add: first_with_room_def filled_by_def)
next
  case (snoc op ops)
  let ?bins = "partition_to_bins ops" and ?n = "length ops"
  from snoc obtain a where a: "first_with_room ops a" "filled_by ops a ?bins" by auto
  define j where "j = fit_index (marked op) ?bins"
  define b where "b = a(?n := j)"
  have b_last: "b ?n = j" by (simp add: b_def)
  have b: "b l = a l" if "l < ?n" for l using that by (simp add: b_def)
  have ld: "load (ops @ [op]) b i k = load ops a i k" if "k \<le> ?n" for i k
    using that by (intro load_cong) (simp_all add: b nth_append)
  have size: "bin_size (?bins ! i) = load ops a i ?n" if "i < length ?bins" for i
    by (rule filled_by_load [OF a(2) that partition_bin_ok [OF nth_mem [OF that]]])
  have empty: "load ops a (length ?bins) ?n = 0"
  proof -
    have "filter (\<lambda>l. a l = length ?bins) [0..<?n] = []"
      using a(2) by (auto simp: filled_by_def filter_empty_conv)
    then show ?thesis by (simp add: load_def)
  qed
  have room: "load ops a j ?n + bitwidth op \<le> bin_max_size"
  proof (cases "j < length ?bins")
    case True
    then show ?thesis
      using fit_index_fits [of "marked op" ?bins] size [OF True] by (simp add: j_def operand_fits_def)
  next
    case False
    then have "j = length ?bins" using fit_index_le [of "marked op" ?bins] by (simp add: j_def)
    then show ?thesis using empty snoc.prems by simp
  qed
  have full: "bin_max_size < load ops a i ?n + bitwidth op" if "i < j" for i
  proof -
    have "i < length ?bins" using that fit_index_le [of "marked op" ?bins] by (simp add: j_def)
    then show ?thesis
      using fit_index_before [OF that [unfolded j_def]] size by (simp add: operand_fits_def)
  qed
  have "first_with_room (ops @ [op]) b"
    unfolding first_with_room_def
  proof (intro allI impI)
    fix k assume k: "k < length (ops @ [op])"
    show "load (ops @ [op]) b (b k) k + bitwidth ((ops @ [op]) ! k) \<le> bin_max_size \<and>
        (\<forall>i < b k. bin_max_size < load (ops @ [op]) b i k + bitwidth ((ops @ [op]) ! k))"
    proof (cases "k = ?n")
      case True
      then show ?thesis using room full by (simp add: ld b_last)
    next
      case False
      then have "k < ?n" using k by simp
      then show ?thesis using a(1) by (simp add: ld b nth_append first_with_room_def)
    qed
  qed
  moreover have "filled_by (ops @ [op]) b (partition_to_bins (ops @ [op]))"
  proof -
    have f: "map (\<lambda>k. marked ((ops @ [op]) ! k)) (filter (\<lambda>k. b k = i) [0..<length (ops @ [op])]) =
        map (\<lambda>k. marked (ops ! k)) (filter (\<lambda>k. a k = i) [0..<?n]) @ (if i = j then [marked op] else [])" for i
    proof -
      have "filter (\<lambda>k. b k = i) [0..<?n] = filter (\<lambda>k. a k = i) [0..<?n]"
        by (rule filter_cong) (simp_all add: b)
      then show ?thesis by (simp add: b_def nth_append)
    qed
    have none: "filter (\<lambda>k. a k = length ?bins) [0..<?n] = []"
      using a(2) by (auto simp: filled_by_def filter_empty_conv)
    have le: "j \<le> length ?bins" by (simp add: j_def fit_index_le)
    show ?thesis
      unfolding filled_by_def f partition_to_bins_snoc place_at j_def [symmetric]
      using a(2) le none
      by (auto simp: filled_by_def b_def nth_append nth_list_update add_operand_def operands_bin_new_def
          less_Suc_eq intro: less_le_trans)
  qed
  ultimately show ?case by blast
qed

section \<open>The members of the emitted struct\<close>

lemma map_fields_rel:
  "map_fields g fs = Inr fs' \<Longrightarrow>
   list_all2 (\<lambda>p p'. fst p' = fst p \<and> g (snd p) = Inr (snd p')) fs fs'"
  unfolding map_fields_def
  by (induction fs arbitrary: fs') (auto simp: rbind_eq_Inr split: prod.splits)

lemma map_fields_keys: "map_fields g fs = Inr fs' \<Longrightarrow> dkeys fs' = dkeys fs"
  by (drule map_fields_rel, induction rule: list_all2_induct) auto

lemma map_fields_back:
  assumes "map_fields g fs = Inr fs'" and "(n, op') \<in> set fs'"
  obtains op where "(n, op) \<in> set fs" and "g op = Inr op'"
proof -
  have "\<exists>p \<in> set fs. n = fst p \<and> g (snd p) = Inr op'"
    using map_fields_rel [OF assms(1)] assms(2)
    by (induction rule: list_all2_induct) auto
  with that show ?thesis by force
qed

definition storage_bits :: "string option \<Rightarrow> nat" where
  "storage_bits t =
     (if t = Some ''xed_uint8_t'' then 8 else if t = Some ''xed_uint16_t'' then 16
      else if t = Some ''xed_uint32_t'' then 32 else if t = Some ''xed_uint64_t'' then 64 else 0)"

definition member_width :: "struct_member \<Rightarrow> nat" where
  "member_width m =
     (case member_bits m of Some b \<Rightarrow> nat b | None \<Rightarrow> storage_bits (member_ctype m))"

text \<open>
  A struct value maps the member names to unsigned values.  A setter casts its operand to the
  storage type and assigns it to the member, which keeps the low bits of the member's width; a
  getter casts the member to the value type, whose width is given by \<open>cw\<close>.  An accessor of a member
  the struct does not have does not compile, and neither does a bit field that is empty or wider
  than its type.
\<close>

definition compiles :: "struct_member \<Rightarrow> bool" where
  "compiles m \<longleftrightarrow>
     (case member_bits m of None \<Rightarrow> True
      | Some b \<Rightarrow> 0 < b \<and> b \<le> int (storage_bits (member_ctype m)))"

definition has_member :: "struct_member list \<Rightarrow> string \<Rightarrow> struct_member option" where
  "has_member ms n = (if list_all compiles ms then find (\<lambda>m. member_name m = n) ms else None)"

definition c_set ::
  "struct_member list \<Rightarrow> accessor \<Rightarrow> nat \<Rightarrow> (string \<Rightarrow> nat) \<Rightarrow> (string \<Rightarrow> nat) option" where
  "c_set ms a v st =
     (case has_member ms (accessed a) of
        None \<Rightarrow> None
      | Some m \<Rightarrow>
          Some (st(accessed a := take_bit (member_width m) (take_bit (storage_bits (cast_type a)) v))))"

definition c_get ::
  "(string \<Rightarrow> nat) \<Rightarrow> struct_member list \<Rightarrow> accessor \<Rightarrow> (string \<Rightarrow> nat) \<Rightarrow> nat option" where
  "c_get cw ms a st =
     (case has_member ms (accessed a) of
        None \<Rightarrow> None
      | Some m \<Rightarrow> Some (take_bit (cw (value_type a)) (st (accessed a))))"

text \<open>Every field has exactly one member, a plain one or a bit field.\<close>

definition member_of :: "bool \<Rightarrow> operand_field \<Rightarrow> struct_member" where
  "member_of compress op =
     (if compress \<and> is_candidate op then bit_member op else plain_member op)"

lemma bit_member_marked [simp]: "bit_member (marked op) = bit_member op"
  by (simp add: bit_member_def)

lemma filter_map_unchanged:
  assumes "\<forall>x \<in> set xs. P (if Q x then h x else x) \<longleftrightarrow> \<not> Q x"
  shows "filter P (map (\<lambda>x. if Q x then h x else x) xs) = filter (\<lambda>x. \<not> Q x) xs"
  using assms by (induction xs) (auto split: if_splits)

lemma uncompressed_vals:
  assumes "\<forall>op \<in> set (dvals fs). \<not> compressed op"
  shows "filter (\<lambda>op. \<not> compressed op) (dvals (snd (compress_operands fs))) =
         filter (\<lambda>op. \<not> is_candidate op) (dvals fs)"
proof -
  have "dvals (snd (compress_operands fs)) = map (\<lambda>op. if is_candidate op then marked op else op) (dvals fs)"
    by (simp only: compress_operands_def snd_conv map_map comp_def split_beta)
  moreover have "filter (\<lambda>op. \<not> compressed op) \<dots> = filter (\<lambda>op. \<not> is_candidate op) (dvals fs)"
    using assms by (intro filter_map_unchanged) simp
  ultimately show ?thesis by (simp only:)
qed

lemma concat_bins: "concat (map (\<lambda>b. map f (bin_operands b)) bins) = map f (packed bins)"
  by (simp add: map_concat comp_def)

lemma mset_split_image:
  "image_mset f (mset (filter P xs)) + image_mset g (mset (filter (\<lambda>x. \<not> P x) xs)) =
   mset (map (\<lambda>x. if P x then f x else g x) xs)"
  by (induction xs) auto

lemma emit_members_mset:
  assumes "\<forall>op \<in> set (dvals fs). \<not> compressed op"
  shows "mset (snd (emit_members compress fs)) = mset (map (member_of compress) (dvals fs))"
proof (cases compress)
  case False
  then have "member_of compress = plain_member" by (simp add: fun_eq_iff member_of_def)
  with False show ?thesis
    by (simp only: emit_members_def if_False snd_conv mset_map sort_cmp_operands_mset)
next
  case True
  let ?bins = "fst (compress_operands fs)"
  let ?cands = "filter is_candidate (dvals fs)"
  have "mset (concat (map (\<lambda>xbin. map bit_member (bin_operands xbin)) ?bins)) =
        image_mset bit_member (mset (packed ?bins))"
    by (simp only: concat_bins mset_map)
  also have "\<dots> = mset (map bit_member ?cands)"
    by (simp only: compress_operands_def fst_conv partition_packed get_candidates_for_compression_def
        sort_cmp_operands_mset multiset.map_comp comp_def bit_member_marked mset_map)
  finally have "mset (snd (emit_members compress fs)) =
      image_mset bit_member (mset ?cands) +
      image_mset plain_member (mset (filter (\<lambda>op. \<not> is_candidate op) (dvals fs)))"
    using True
    by (simp only: emit_members_def if_True Let_def split_beta snd_conv mset_append mset_map
        uncompressed_vals [OF assms] sort_cmp_operands_mset add.commute)
  also have "\<dots> = mset (map (\<lambda>op. if is_candidate op then bit_member op else plain_member op) (dvals fs))"
    by (rule mset_split_image)
  finally show ?thesis using True by (simp add: member_of_def [abs_def])
qed

text \<open>What every pass keeps of the fields.\<close>

definition fields_ok :: "fields \<Rightarrow> bool" where
  "fields_ok fs \<longleftrightarrow> dict_ok fs \<and> (\<forall>(n, op) \<in> set fs. of_name op = n \<and> \<not> compressed op)"

lemma operand_field_new_Inr:
  assumes "operand_field_new wrds i = Inr f"
  shows "\<not> compressed f" "of_name f = hd wrds" "dio f \<in> {''DI'', ''DO'', ''DS''}"
    "eio f \<in> {''EI'', ''EO''}"
  using assms unfolding operand_field_new_def
  by (auto simp: rbind_eq_Inr simp del: insert_iff split: list.splits if_splits)

lemma read_field_ok:
  assumes "fields_ok fs" and "read_field line fs = Inr fs'"
  shows "fields_ok fs'"
proof -
  consider "fs' = fs"
    | n f w i where "fs' = dset n f fs" "\<not> din n fs" "operand_field_new (n # w) i = Inr f"
    using assms(2) unfolding read_field_def
    by (auto simp: rbind_eq_Inr Let_def split: list.splits if_splits)
  then show ?thesis
  proof cases
    case 1 then show ?thesis using assms(1) by simp
  next
    case 2 then show ?thesis
      using assms(1) operand_field_new_Inr(1,2) [OF 2(3)]
      by (auto simp: fields_ok_def din_iff dset_new dict_ok_def)
  qed
qed

lemma read_storage_fields_ok: "read_storage_fields lines = Inr fs \<Longrightarrow> fields_ok fs"
  unfolding read_storage_fields_def
  by (erule foldM_invariant [where I = fields_ok]) (simp add: fields_ok_def, rule read_field_ok)

lemma map_fields_ok:
  assumes "fields_ok fs" and "map_fields g fs = Inr fs'"
    and "\<And>op op'. g op = Inr op' \<Longrightarrow> of_name op' = of_name op \<and> compressed op' = compressed op"
  shows "fields_ok fs'"
proof -
  have "of_name op' = n \<and> \<not> compressed op'" if mem: "(n, op') \<in> set fs'" for n op'
  proof -
    obtain op where "(n, op) \<in> set fs" "g op = Inr op'" by (rule map_fields_back [OF assms(2) mem])
    then show ?thesis using assms(1,3) by (auto simp: fields_ok_def)
  qed
  then show ?thesis
    using assms(1) map_fields_keys [OF assms(2)] by (auto simp: fields_ok_def dict_ok_def)
qed

lemma fix_width_keeps:
  "fix_width enums bits op = Inr op' \<Longrightarrow> of_name op' = of_name op \<and> compressed op' = compressed op"
  by (auto simp: fix_width_def rbind_eq_Inr split: option.splits if_splits)

lemma type_in_storage_keeps:
  "type_in_storage op = Inr op' \<Longrightarrow> of_name op' = of_name op \<and> compressed op' = compressed op"
  by (auto simp: type_in_storage_def Let_def split: if_splits)

lemma type_in_storage_holds:
  "type_in_storage op = Inr op' \<Longrightarrow> bitwidth op' \<le> int (storage_bits (storage_type op'))"
  by (auto simp: type_in_storage_def storage_bits_def Let_def split: if_splits)

lemma find_distinct:
  "distinct (map f xs) \<Longrightarrow> x \<in> set xs \<Longrightarrow> find (\<lambda>y. f y = f x) xs = Some x"
  by (induction xs) auto

definition mark_candidates :: "bool \<Rightarrow> operand_field \<Rightarrow> operand_field" where
  "mark_candidates compress op = (if compress \<and> is_candidate op then marked op else op)"

lemma emit_members_fields:
  "fst (emit_members compress fs) = map (\<lambda>(n, op). (n, mark_candidates compress op)) fs"
  by (simp add: emit_members_def compress_operands_def mark_candidates_def split_beta Let_def)

lemma mark_candidates_simps [simp]:
  "of_name (mark_candidates c op) = of_name op" "ctype (mark_candidates c op) = ctype op"
  "bitwidth (mark_candidates c op) = bitwidth op"
  "storage_type (mark_candidates c op) = storage_type op"
  by (simp_all add: mark_candidates_def)

lemma is_candidate_mark [simp]: "is_candidate (mark_candidates c op) = is_candidate op"
  by (simp add: is_candidate_def)

lemma emit_storage_Inr:
  assumes "emit_storage compress enums fs0 = Inr (fs, ms)" and "fields_ok fs0"
  obtains fs1 where "fields_ok fs1" "dkeys fs1 = dkeys fs0"
    "fs = map (\<lambda>(n, op). (n, mark_candidates compress op)) fs1"
    "mset ms = mset (map (member_of compress) (dvals fs1))"
    "\<forall>op \<in> set (dvals fs1). bitwidth op \<le> int (storage_bits (storage_type op))"
proof -
  from assms(1) obtain a b where ab: "fix_bit_width_for_enums enums fs0 = Inr a"
    "compute_type_in_storage a = Inr b" "emit_members compress b = (fs, ms)"
    by (auto simp: emit_storage_def rbind_eq_Inr)
  have a: "fields_ok a" "dkeys a = dkeys fs0"
    using ab(1) assms(2) fix_width_keeps
    by (auto simp: fix_bit_width_for_enums_def map_fields_keys intro: map_fields_ok)
  have b: "fields_ok b" "dkeys b = dkeys fs0"
    using ab(2) a type_in_storage_keeps
    by (auto simp: compute_type_in_storage_def map_fields_keys intro: map_fields_ok)
  have "bitwidth op \<le> int (storage_bits (storage_type op))" if op: "op \<in> set (dvals b)" for op
  proof -
    from op obtain n where n: "(n, op) \<in> set b" by auto
    obtain q where "type_in_storage q = Inr op"
      using ab(2) n unfolding compute_type_in_storage_def by (rule map_fields_back)
    then show ?thesis by (rule type_in_storage_holds)
  qed
  moreover have "\<forall>op \<in> set (dvals b). \<not> compressed op" using b(1) by (auto simp: fields_ok_def)
  then have "mset ms = mset (map (member_of compress) (dvals b))"
    using emit_members_mset [of b compress] ab(3) by simp
  moreover have "fs = map (\<lambda>(n, op). (n, mark_candidates compress op)) b"
    using emit_members_fields [of compress b] ab(3) by simp
  ultimately show thesis using b that by blast
qed

section \<open>The width of an enumeration\<close>

lemma ilog2_bounds: "0 < m \<Longrightarrow> 2 ^ ilog2 m \<le> m \<and> m < 2 ^ Suc (ilog2 m)"
proof (induction m rule: ilog2.induct)
  case (1 m)
  show ?case
  proof (cases "m < 2")
    case True
    with 1 show ?thesis by (simp add: ilog2.simps)
  next
    case False
    have s: "ilog2 m = Suc (ilog2 (m div 2))" using False by (simp add: ilog2.simps)
    have "2 ^ ilog2 (m div 2) \<le> m div 2 \<and> m div 2 < 2 ^ Suc (ilog2 (m div 2))"
      using 1 False by simp
    then have "2 * 2 ^ ilog2 (m div 2) \<le> m" and "m < 2 * (2 * 2 ^ ilog2 (m div 2))"
      by (linarith, simp add: less_mult_imp_div_less div_less_iff_less_mult mult.commute)
    then show ?thesis unfolding s by simp
  qed
qed

text \<open>The least number of bits that distinguishes the given number of values.\<close>

lemma ceil_log2_least:
  assumes "0 < n"
  shows "0 \<le> ceil_log2 n" and "n \<le> 2 ^ k \<longleftrightarrow> ceil_log2 n \<le> int k"
proof -
  show "0 \<le> ceil_log2 n" by (simp add: ceil_log2_def)
  show "n \<le> 2 ^ k \<longleftrightarrow> ceil_log2 n \<le> int k"
  proof (cases "n \<le> 1")
    case True
    then have "n \<le> 2 ^ k" using one_le_power [of "2::nat" k] by linarith
    with True show ?thesis by (simp add: ceil_log2_def)
  next
    case False
    then have b: "2 ^ ilog2 (n - 1) \<le> n - 1" "n - 1 < 2 ^ Suc (ilog2 (n - 1))"
      using ilog2_bounds [of "n - 1"] by auto
    have "n \<le> 2 ^ k \<longleftrightarrow> n - 1 < 2 ^ k" using False by linarith
    also have "\<dots> \<longleftrightarrow> ilog2 (n - 1) < k"
    proof
      assume "n - 1 < 2 ^ k"
      then have "(2::nat) ^ ilog2 (n - 1) < 2 ^ k" using b(1) by linarith
      then show "ilog2 (n - 1) < k" by simp
    next
      assume "ilog2 (n - 1) < k"
      then have "(2::nat) ^ Suc (ilog2 (n - 1)) \<le> 2 ^ k" by (intro power_increasing) auto
      with b(2) show "n - 1 < 2 ^ k" by linarith
    qed
    finally show ?thesis using False by (auto simp: ceil_log2_def)
  qed
qed

lemma num_elements_pos: "0 < get_num_elements_in_enum vals"
  by (cases vals) (auto simp: get_num_elements_in_enum_def)

lemma max_bits_lookup:
  assumes "dict_ok enums" and "map_of enums t = Some vals" and "t \<noteq> ''xed_error_enum_t''"
  shows "map_of (gen_max_bits_per_enum enums) t = Some (ceil_log2 (get_num_elements_in_enum vals))"
proof -
  have "map_of (fold (\<lambda>(e, v). dset e (h v)) enums d) t =
        (case map_of enums t of None \<Rightarrow> map_of d t | Some v \<Rightarrow> Some (h v))"
    if "dict_ok enums" for h :: "string list \<Rightarrow> int" and enums :: enums and d
    using that
  proof (induction enums arbitrary: d)
    case Nil
    then show ?case by simp
  next
    case (Cons p enums)
    then show ?case
      by (cases p) (auto simp: dict_ok_def split: option.splits dest: map_of_SomeD intro: rev_image_eqI)
  qed
  from this [OF assms(1)] assms(2,3) show ?thesis by (simp add: gen_max_bits_per_enum_def)
qed

lemma map_of_Inr_back:
  assumes "map_fields g fs = Inr fs'" and "dict_ok fs" and "map_of fs' n = Some op'"
  obtains op where "map_of fs n = Some op" and "g op = Inr op'"
proof -
  have mem: "(n, op') \<in> set fs'" using assms(3) by (rule map_of_SomeD)
  obtain op where "(n, op) \<in> set fs" "g op = Inr op'" by (rule map_fields_back [OF assms(1) mem])
  with assms(2) that show thesis by (simp add: dict_ok_map_of_iff)
qed

section \<open>Properties\<close>

text \<open>
  C17: The bins are those of first fit.  The candidate operands (those whose width is neither 32 nor
  64) are taken by ascending width, and by name where the width is the same; each goes, marked as
  compressed, into the first bin that has room for it when its turn comes, a new one if no other has.
  So, when the candidates are at most 32 bits wide, every candidate is in exactly one bin, every bin is
  non-empty, its counter is the sum of its operands' widths and at most 32, and no two bins could be
  merged.  (The docstring says First Fit Decreasing; the order is the increasing one.)
\<close>

theorem packing_first_fit:
  assumes "\<forall>op \<in> set (dvals fs). is_candidate op \<longrightarrow> 0 \<le> bitwidth op \<and> bitwidth op \<le> 32"
  shows "(\<exists>ops a.
            mset ops = mset (filter is_candidate (dvals fs)) \<and>
            sorted_wrt (\<lambda>p q. bitwidth p < bitwidth q \<or> bitwidth p = bitwidth q \<and> of_name p \<le> of_name q) ops \<and>
            first_with_room ops a \<and> filled_by ops a (fst (compress_operands fs))) \<and>
         mset (concat (map bin_operands (fst (compress_operands fs)))) =
           image_mset (\<lambda>op. op\<lparr>compressed := True\<rparr>) (mset (filter is_candidate (dvals fs))) \<and>
         (\<forall>b \<in> set (fst (compress_operands fs)).
            bin_operands b \<noteq> [] \<and> bin_size b = sum_list (map bitwidth (bin_operands b)) \<and>
            bin_size b \<le> 32 \<and> sorted (map bitwidth (bin_operands b))) \<and>
         (\<forall>j < length (fst (compress_operands fs)). \<forall>i < j.
            32 < bin_size (fst (compress_operands fs) ! i) + bin_size (fst (compress_operands fs) ! j))"
proof -
  let ?ops = "sort_cmp_operands (filter is_candidate (dvals fs))"
  have bins: "fst (compress_operands fs) = partition_to_bins ?ops"
    by (simp add: compress_operands_def get_candidates_for_compression_def)
  have w: "\<forall>op \<in> set ?ops. 0 \<le> bitwidth op" "\<forall>op \<in> set ?ops. bitwidth op \<le> bin_max_size"
    using assms by (auto simp: bin_max_size_def)
  have "mset (packed (partition_to_bins ?ops)) =
      image_mset (\<lambda>op. op\<lparr>compressed := True\<rparr>) (mset (filter is_candidate (dvals fs)))"
    by (simp only: partition_packed sort_cmp_operands_mset)
  moreover have "bin_operands b \<noteq> [] \<and> bin_size b = sum_list (map bitwidth (bin_operands b)) \<and>
      bin_size b \<le> 32 \<and> sorted (map bitwidth (bin_operands b))"
    if "b \<in> set (partition_to_bins ?ops)" for b
    using partition_bin_ok [OF that] partition_bin_fits [OF w(2)] that
      partition_widths_sorted [OF sort_cmp_operands_sorted]
    by (auto simp: bin_ok_def widths_sorted_def bin_max_size_def)
  moreover have "32 < bin_size (partition_to_bins ?ops ! i) + bin_size (partition_to_bins ?ops ! j)"
    if "j < length (partition_to_bins ?ops)" "i < j" for i j
    using two_bins_over_full [OF w(1) that(2,1)] by (simp only: bin_max_size_def)
  moreover obtain a where "first_with_room ?ops a" "filled_by ?ops a (partition_to_bins ?ops)"
    using partition_places [OF w(2)] by blast
  moreover have "mset ?ops = mset (filter is_candidate (dvals fs))" by simp
  ultimately show ?thesis unfolding bins using sort_cmp_operands_lex by blast
qed

definition sample_field_lines :: "string list" where
  "sample_field_lines =
     [''MODE SCALAR xed_bits_t 2 SUPPRESSED NOPRINT INTERNAL DI EI'',
      ''# a comment'',
      ''REG0 SCALAR xed_reg_enum_t 16 SUPPRESSED PRINT PUBLIC DO EI'',
      ''DISP SCALAR xed_int64_t 64 SUPPRESSED NOPRINT INTERNAL DO EI'']"

definition sample_fields :: fields where
  "sample_fields = (case read_storage_fields sample_field_lines of Inr fs \<Rightarrow> fs | Inl e \<Rightarrow> [])"

lemma sample_fields_read: "read_storage_fields sample_field_lines = Inr sample_fields"
  by code_simp

theorem packing_first_fit_witness:
  "(\<exists>ops a. mset ops = mset (filter is_candidate (dvals sample_fields)) \<and>
      first_with_room ops a \<and> filled_by ops a (fst (compress_operands sample_fields))) \<and>
   mset (concat (map bin_operands (fst (compress_operands sample_fields)))) =
     image_mset (\<lambda>op. op\<lparr>compressed := True\<rparr>) (mset (filter is_candidate (dvals sample_fields)))"
proof -
  have "\<forall>op \<in> set (dvals sample_fields). is_candidate op \<longrightarrow> 0 \<le> bitwidth op \<and> bitwidth op \<le> 32"
    by code_simp
  from packing_first_fit [OF this] show ?thesis by blast
qed

text \<open>
  An operand whose type is a known enumeration gets the least width that distinguishes all
  enumerators (counting a final \<open>LAST\<close>), so every enumerator's value fits.
\<close>

lemma enum_width_least:
  assumes "dict_ok fs0" and "dict_ok enums" and "fix_bit_width_for_enums enums fs0 = Inr fs"
    and "map_of fs n = Some op" and "map_of enums (ctype op) = Some vals"
    and "ctype op \<noteq> ''xed_error_enum_t''"
  shows "(\<forall>i < get_num_elements_in_enum vals. i < 2 ^ nat (bitwidth op)) \<and>
         (\<forall>k. get_num_elements_in_enum vals \<le> 2 ^ k \<longrightarrow> nat (bitwidth op) \<le> k)"
proof -
  let ?n = "get_num_elements_in_enum vals"
  obtain op0 where op0: "fix_width enums (gen_max_bits_per_enum enums) op0 = Inr op"
    by (rule map_of_Inr_back [OF assms(3) [unfolded fix_bit_width_for_enums_def] assms(1,4)])
  then have c: "ctype op = ctype op0" by (auto simp: fix_width_def rbind_eq_Inr split: option.splits if_splits)
  then have w: "bitwidth op = ceil_log2 ?n"
    using op0 max_bits_lookup [OF assms(2,5,6)] by (auto simp: fix_width_def rbind_eq_Inr split: if_splits)
  have least: "?n \<le> 2 ^ k \<longleftrightarrow> nat (bitwidth op) \<le> k" for k
    unfolding w nat_le_iff by (rule ceil_log2_least(2) [OF num_elements_pos])
  have "?n \<le> 2 ^ nat (bitwidth op)" unfolding least by (rule order_refl)
  then show ?thesis using least by (auto elim: less_le_trans)
qed

definition sample_enums :: enums where
  "sample_enums = [(''xed_reg_enum_t'', [''XED_REG_INVALID'', ''XED_REG_AL'', ''XED_REG_LAST''])]"

definition sample_fixed :: fields where
  "sample_fixed = (case fix_bit_width_for_enums sample_enums sample_fields of Inr fs \<Rightarrow> fs | _ \<Rightarrow> [])"

definition sample_reg0 :: operand_field where
  "sample_reg0 = the (map_of sample_fixed ''REG0'')"

lemma enum_width_least_witness:
  "(2::nat) < 2 ^ nat (bitwidth sample_reg0) \<and> nat (bitwidth sample_reg0) \<le> 2"
proof -
  have h: "dict_ok sample_fields" "dict_ok sample_enums"
    "fix_bit_width_for_enums sample_enums sample_fields = Inr sample_fixed"
    "map_of sample_fixed ''REG0'' = Some sample_reg0"
    "map_of sample_enums (ctype sample_reg0) = Some (the (map_of sample_enums ''xed_reg_enum_t''))"
    "ctype sample_reg0 \<noteq> ''xed_error_enum_t''"
    by code_simp+
  have n: "get_num_elements_in_enum (the (map_of sample_enums ''xed_reg_enum_t'')) = 3" by code_simp
  note w = enum_width_least [OF h, unfolded n]
  from w have "(2::nat) < 2 ^ nat (bitwidth sample_reg0)" by simp
  moreover from w [THEN conjunct2, rule_format, of 2] have "nat (bitwidth sample_reg0) \<le> 2" by simp
  ultimately show ?thesis by simp
qed

lemma has_member_emitted:
  assumes "list_all compiles ms" and "distinct (map member_name ms)" and "m \<in> set ms"
  shows "has_member ms (member_name m) = Some m"
  using assms by (simp add: has_member_def find_distinct)

lemma member_of_name [simp]: "member_name (member_of c op) = lower (of_name op)"
  by (simp add: member_of_def bit_member_def plain_member_def)

lemma member_of_width:
  "bitwidth op \<le> int (storage_bits (storage_type op)) \<Longrightarrow>
   nat (bitwidth op) \<le> member_width (member_of c op)"
  by (simp add: nat_le_iff member_of_def bit_member_def plain_member_def member_width_def)

lemma member_of_compiles:
  "c \<and> is_candidate op \<longrightarrow> 0 < bitwidth op \<and> bitwidth op \<le> 32 \<Longrightarrow> compiles (member_of c op)"
  by (simp add: member_of_def bit_member_def plain_member_def compiles_def bin_storage_ctype_def storage_bits_def)

lemma take_bit_fits: "v < 2 ^ k \<Longrightarrow> k \<le> w \<Longrightarrow> take_bit w (v :: nat) = v"
  by (intro take_bit_nat_eq_self) (erule less_le_trans, simp)

text \<open>
  C16: Over the struct emitted for the fields of a text, whose names differ in lower case, the
  accessors of the operands are independent variables.  Storing any value and reading it back gives
  the value modulo a power of two: as many bits as the bit field has (the operand's width) when the
  operand is packed, as many as the member's integer type has (not less than the width)
  otherwise, and not more than the operand's C type has.  So a value that fits the operand's
  width comes back unchanged, and no other operand's getter sees a change.
\<close>

theorem accessors_round_trip:
  assumes read: "read_storage_fields lines = Inr fs0" and low: "distinct (map lower (dkeys fs0))"
    and emit: "emit_storage compress enums fs0 = Inr (fs, ms)"
    and bits: "\<forall>op \<in> set (dvals fs). compress \<and> is_candidate op \<longrightarrow> 0 < bitwidth op \<and> bitwidth op \<le> 32"
    and op: "map_of fs n = Some op"
  shows "\<exists>s g st' w. gen_op_setter_fo fs n = Inr s \<and> gen_op_getter_fo fs n = Inr g \<and>
           w = (if compress \<and> is_candidate op then nat (bitwidth op) else storage_bits (storage_type op)) \<and>
           bitwidth op \<le> int w \<and>
           c_set ms s v st = Some st' \<and> c_get cw ms g st' = Some (v mod 2 ^ min (cw (ctype op)) w) \<and>
           (v < 2 ^ nat (bitwidth op) \<and> bitwidth op \<le> int (cw (ctype op)) \<longrightarrow> c_get cw ms g st' = Some v) \<and>
           (\<forall>n' g'. n' \<noteq> n \<longrightarrow> gen_op_getter_fo fs n' = Inr g' \<longrightarrow> c_get cw ms g' st' = c_get cw ms g' st)"
proof -
  obtain fs1 where fs1: "fields_ok fs1" "dkeys fs1 = dkeys fs0"
    and fs: "fs = map (\<lambda>(n, op). (n, mark_candidates compress op)) fs1"
    and ms: "mset ms = mset (map (member_of compress) (dvals fs1))"
    and holds: "\<forall>op \<in> set (dvals fs1). bitwidth op \<le> int (storage_bits (storage_type op))"
    using emit read_storage_fields_ok [OF read] by (rule emit_storage_Inr)
  have set_ms: "set ms = member_of compress ` set (dvals fs1)"
    using arg_cong [OF ms, of set_mset] by (simp only: set_mset_mset set_map)
  have "map (lower \<circ> of_name) (dvals fs1) = map lower (dkeys fs1)"
    using fs1(1) by (auto simp: fields_ok_def split_beta)
  then have "mset (map member_name ms) = mset (map lower (dkeys fs0))"
    using arg_cong [OF ms, of "image_mset member_name"] fs1(2)
    by (simp only: mset_map [symmetric] map_map comp_def member_of_name)
  then have dist: "distinct (map member_name ms)" using low mset_eq_imp_distinct_iff by blast
  have comp: "list_all compiles ms"
    using bits by (auto simp: list_all_iff set_ms fs split_beta intro!: member_of_compiles)
  have nd: "dict_ok fs" using fs1(1) by (simp add: fields_ok_def dict_ok_def fs split_beta comp_def)
  have low_inj: "lower n' \<noteq> lower n" if "n' \<noteq> n" "map_of fs n' = Some op'" for n' op'
  proof
    assume l: "lower n' = lower n"
    have keys: "set (dkeys fs) = set (dkeys fs0)" by (simp only: fs1(2) [symmetric] fs map_map comp_def split_beta fst_conv)
    have "n \<in> set (dkeys fs0)" "n' \<in> set (dkeys fs0)"
      unfolding keys [symmetric] using map_of_SomeD [OF op] map_of_SomeD [OF that(2)] by force+
    with l low that(1) show False by (auto simp: distinct_map inj_on_def)
  qed
  obtain q where q: "(n, q) \<in> set fs1" "op = mark_candidates compress q"
    using map_of_SomeD [OF op] by (auto simp: fs)
  then have "lower (of_name q) = lower n" using fs1(1) by (auto simp: fields_ok_def)
  moreover have "q \<in> set (dvals fs1)" using q(1) by force
  ultimately have m: "has_member ms (lower n) = Some (member_of compress q)"
    using has_member_emitted [OF comp dist, of "member_of compress q"] by (simp add: set_ms)
  define w where "w = (if compress \<and> is_candidate op then nat (bitwidth op) else storage_bits (storage_type op))"
  have types: "ctype op = ctype q" "storage_type op = storage_type q" using q(2) by simp_all
  have q': "bitwidth q \<le> int (storage_bits (storage_type q))"
    using holds \<open>q \<in> set (dvals fs1)\<close> by blast
  have "min (member_width (member_of compress q)) (storage_bits (storage_type q)) = w"
    using q' q(2) by (auto simp: w_def member_of_def member_width_def bit_member_def plain_member_def)
  then have val: "take_bit (cw (ctype q)) (take_bit (member_width (member_of compress q))
      (take_bit (storage_bits (storage_type q)) v)) = v mod 2 ^ min (cw (ctype q)) w"
    by (simp add: take_bit_eq_mod [symmetric])
  have bw: "bitwidth op \<le> int w" using q' q(2) by (simp add: w_def)
  have fits: "v mod 2 ^ min (cw (ctype q)) w = v"
    if "v < 2 ^ nat (bitwidth op)" "bitwidth op \<le> int (cw (ctype op))"
  proof -
    have "nat (bitwidth op) \<le> min (cw (ctype q)) w" using that(2) bw types by (simp add: nat_le_iff)
    from take_bit_fits [OF that(1) this] show ?thesis by (simp add: take_bit_eq_mod)
  qed
  have "\<exists>s g st'. gen_op_setter_fo fs n = Inr s \<and> gen_op_getter_fo fs n = Inr g \<and>
      c_set ms s v st = Some st' \<and> c_get cw ms g st' = Some (v mod 2 ^ min (cw (ctype q)) w) \<and>
      (\<forall>n' g'. n' \<noteq> n \<longrightarrow> gen_op_getter_fo fs n' = Inr g' \<longrightarrow> c_get cw ms g' st' = c_get cw ms g' st)"
    using op m low_inj val types
    by (auto simp: gen_op_setter_fo_def gen_op_getter_fo_def c_set_def c_get_def rbind_eq_Inr
        split: option.splits)
  then obtain s g st' where r: "gen_op_setter_fo fs n = Inr s" "gen_op_getter_fo fs n = Inr g"
    "c_set ms s v st = Some st'" "c_get cw ms g st' = Some (v mod 2 ^ min (cw (ctype op)) w)"
    "\<forall>n' g'. n' \<noteq> n \<longrightarrow> gen_op_getter_fo fs n' = Inr g' \<longrightarrow> c_get cw ms g' st' = c_get cw ms g' st"
    unfolding types by blast
  have "c_get cw ms g st' = Some v"
    if "v < 2 ^ nat (bitwidth op)" "bitwidth op \<le> int (cw (ctype op))"
    using r(4) fits [OF that] types by simp
  then show ?thesis using r bw by (intro exI [of _ s] exI [of _ g] exI [of _ st'] exI [of _ w]) (simp add: w_def)
qed

definition sample_emitted :: "fields \<times> struct_member list" where
  "sample_emitted = (case emit_storage True sample_enums sample_fields of Inr r \<Rightarrow> r | _ \<Rightarrow> ([], []))"

theorem accessors_round_trip_witness:
  "\<exists>s g st'. gen_op_setter_fo (fst sample_emitted) ''REG0'' = Inr s \<and>
     gen_op_getter_fo (fst sample_emitted) ''REG0'' = Inr g \<and>
     c_set (snd sample_emitted) s 7 (\<lambda>_. 0) = Some st' \<and>
     c_get (\<lambda>_. 32) (snd sample_emitted) g st' = Some 3"
proof -
  let ?op = "the (map_of (fst sample_emitted) ''REG0'')"
  have "distinct (map lower (dkeys sample_fields))"
    "emit_storage True sample_enums sample_fields = Inr (fst sample_emitted, snd sample_emitted)"
    "\<forall>op \<in> set (dvals (fst sample_emitted)).
       True \<and> is_candidate op \<longrightarrow> 0 < bitwidth op \<and> bitwidth op \<le> 32"
    "map_of (fst sample_emitted) ''REG0'' = Some ?op"
    by code_simp+
  note r = accessors_round_trip [OF sample_fields_read this, of 7 "\<lambda>_. 0" "\<lambda>_. 32"]
  have "is_candidate ?op" "bitwidth ?op = 2" by code_simp+
  with r show ?thesis by auto
qed

end
