(* ===== verification/Capture.thy ===== *)
theory Capture
  imports Ild_Pattern Opnds Operand_Storage
begin

text \<open>
  Dynamic decoding (\<open>pysrc/dec_dyn.py\<close>): for every nonterminal a C function that looks at the operands
  decided so far, selects the rule of the nonterminal they satisfy and sets the operands of its
  right-hand side; for every instruction a chain of calls of these functions.  The emitted functions
  are values of a datatype with their C text and their effect on the operand storage.  The lemmas
  show that the functions compute what the rules of the grammar say.
\<close>

section \<open>Rules of a nonterminal\<close>

text \<open>A rule is an object: its number tells it from an equal one.\<close>

record nt_rule =
  nr_id :: nat
  nr_ii :: instruction
  nr_operands :: "operand_info list"

record nt_rules_def =
  nt_rules :: "nt_rule list"
  nt_otherwise_ok :: bool

definition rule_constraints :: "space \<Rightarrow> nt_rule \<Rightarrow> space res" where
  "rule_constraints all_space r = get_ii_constraints (nr_ii r) all_space"

definition get_all_cnames :: "space list \<Rightarrow> string set" where
  "get_all_cnames css = set (concat (map dkeys css))"

definition gen_cdict :: "space \<Rightarrow> nt_rule list \<Rightarrow> nt_rule cdict option res" where
  "gen_cdict all_space rules =
     rbind (mapM (rule_constraints all_space) rules) (\<lambda>css.
       let cns = get_all_cnames css
       in rbind (mapM (\<lambda>(cs, r). constraint_dict_new cns cs all_space r) (zip css rules)) (\<lambda>cdict_list.
            unite_dicts cdict_list cns))"

section \<open>Emitted statements\<close>

datatype capture_stmt =
    CallNt string
  | SetOp string string
  | CopyOutreg string
  | Pacify
  | ReturnIfError
  | ReturnNoError

definition get_xed3_nt_capture_fn :: "string \<Rightarrow> string" where
  "get_xed3_nt_capture_fn nt_name = ''xed3_capture_nt_'' @ nt_name"

definition get_xed3_capture_chain_fn :: "string list \<Rightarrow> bool \<Rightarrow> string" where
  "get_xed3_capture_chain_fn nt_names is_ntluf_chain =
     (let suffix = join ''_'' nt_names;
          suffix = (if is_ntluf_chain then ''ntluf_'' @ suffix else suffix)
      in ''xed3_capture_chain_'' @ suffix)"

definition capture_call :: "string \<Rightarrow> string \<Rightarrow> string" where
  "capture_call fn inst = fn @ ''('' @ inst @ '')''"

definition op_assign_stmt :: "string \<Rightarrow> string \<Rightarrow> string \<Rightarrow> string" where
  "op_assign_stmt opname opval inst = get_op_setter_fn opname @ ''('' @ inst @ '', '' @ opval @ '')''"

text \<open>The text of a statement, without indentation and the final semicolon.\<close>

fun stmt_text :: "capture_stmt \<Rightarrow> string" where
  "stmt_text (CallNt nt) = capture_call (get_xed3_nt_capture_fn nt) ''d''"
| "stmt_text (SetOp opname opval) = op_assign_stmt opname opval ''d''"
| "stmt_text (CopyOutreg opname) =
     op_assign_stmt opname (capture_call (get_op_getter_fn ''outreg'') ''d'') ''d''"
| "stmt_text Pacify = ''(void)d''"
| "stmt_text ReturnIfError =
     (let errval = capture_call (get_op_getter_fn ''error'') ''d''
      in ''if ('' @ errval @ '') { return '' @ errval @ ''; }'')"
| "stmt_text ReturnNoError = ''return XED_ERROR_NONE''"

text \<open>\<open>emit_ild_access_call\<close>; the dictionary of special operands is empty.\<close>

definition emit_ild_access_call :: "string \<Rightarrow> string \<Rightarrow> bool \<Rightarrow> string res" where
  "emit_ild_access_call opname data_name eoasz_set =
     (if opname \<in> {''EASZ'', ''EOSZ''} \<and> \<not> eoasz_set then Inl (Die ''No simple getter for operand'')
      else Inr (capture_call (get_op_getter_fn opname) data_name))"

section \<open>The statements of a rule\<close>

definition get_pattern_nts :: "nt_rule \<Rightarrow> string option list res" where
  "get_pattern_nts r = mapM nonterminal_name (filter is_nonterminal (i_bits (nr_ii r)))"

text \<open>How \<open>%s\<close> prints a name that may be missing, and the right-hand side of an operand.\<close>

definition str_or_none :: "string option \<Rightarrow> string" where
  "str_or_none x = (case x of None \<Rightarrow> ''None'' | Some s \<Rightarrow> s)"

definition list_repr :: "string \<Rightarrow> string" where
  "list_repr bs = ''['' @ join '', '' (map (\<lambda>b. [CHR 0x27, b, CHR 0x27]) bs) @ '']''"

fun bits_text :: "opnd_bits \<Rightarrow> string" where
  "bits_text NoBits = ''None''"
| "bits_text (BitsStr s) = s"
| "bits_text (BitsList bs) = list_repr bs"

definition is_error_rule :: "nt_rule \<Rightarrow> bool" where
  "is_error_rule r \<longleftrightarrow> list_ex (\<lambda>op. oi_type op = ''error'') (nr_operands r)"

definition is_reg_error_op :: "operand_info \<Rightarrow> bool" where
  "is_reg_error_op op \<longleftrightarrow> oi_bits op = BitsStr ''XED_REG_ERROR''"

definition operand_assignments :: "operand_info \<Rightarrow> capture_stmt list" where
  "operand_assignments op =
     (if oi_name op = ''ENCODER_PREFERRED'' then []
      else if oi_type op = ''imm'' then []
      else if oi_type op = ''nt_lookup_fn''
      then CallNt (str_or_none (oi_lookupfn_name op)) #
           (if oi_name op \<noteq> ''OUTREG'' then [CopyOutreg (oi_name op)] else [])
      else SetOp (oi_name op) (bits_text (oi_bits op)) #
           (if is_reg_error_op op then [SetOp ''error'' ''XED_ERROR_BAD_REGISTER''] else []))"

definition nt_rhs_assignments :: "nt_rule \<Rightarrow> capture_stmt list res" where
  "nt_rhs_assignments r =
     (if is_error_rule r then Inr [SetOp ''error'' ''XED_ERROR_GENERAL_ERROR'']
      else rbind (get_pattern_nts r) (\<lambda>nts.
        Inr (map (\<lambda>nt. CallNt (str_or_none nt)) nts @ concat (map operand_assignments (nr_operands r)) @
             [Pacify])))"

section \<open>The function of a nonterminal\<close>

text \<open>
  A body is a key computation and a switch (cases with their labels, and the default), or, for a
  nonterminal without constraints, the statements of its rule.
\<close>

datatype capture_body =
    KeySwitch "(string \<times> nat) list" "(int list \<times> capture_stmt list) list" "capture_stmt list"
  | Straight "capture_stmt list"

text \<open>Each key line is an operand and the shift of its value.\<close>

fun cgen_key_lines :: "string list \<Rightarrow> (string, nat) dict \<Rightarrow> nat \<Rightarrow> (string \<times> nat) list res" where
  "cgen_key_lines [] widths bit_shift = Inr []"
| "cgen_key_lines (cname # names) widths bit_shift =
     rbind (emit_ild_access_call cname ''d'' True) (\<lambda>access_str.
     rbind (dget widths cname) (\<lambda>w.
     rbind (cgen_key_lines names widths (bit_shift + w)) (\<lambda>lines.
       Inr ((cname, bit_shift) # lines))))"

definition key_line_text :: "string \<times> nat \<Rightarrow> string" where
  "key_line_text line =
     ''key += ('' @ capture_call (get_op_getter_fn (fst line)) ''d'' @ '') << (('' @ str_nat (snd line) @ ''))''"

text \<open>One step of the loop over the sorted key values; the second component is the set of covered rules.\<close>

definition case_of_key ::
  "nt_rule cdict \<Rightarrow> (int list, int) dict \<Rightarrow> (int, int list) dict \<Rightarrow> int
     \<Rightarrow> (int list \<times> capture_stmt list) list \<times> nt_rule list
     \<Rightarrow> ((int list \<times> capture_stmt list) list \<times> nt_rule list) res" where
  "case_of_key cd key2int int2key keyval st =
     (case st of (cases, covered_rules) \<Rightarrow>
       rbind (dget int2key keyval) (\<lambda>key.
       rbind (dget (tuple2rule cd) key) (\<lambda>r.
         if r \<in> set covered_rules then Inr (cases, covered_rules)
         else rbind (mapM (dget key2int) (get_all_keys_by_val cd r)) (\<lambda>labels.
              rbind (nt_rhs_assignments r) (\<lambda>stmts.
                Inr (cases @ [(labels, stmts)], covered_rules @ [r]))))))"

definition switchcase_lines ::
  "nt_rule cdict \<Rightarrow> (string, nat) dict \<Rightarrow> (int list \<times> capture_stmt list) list res" where
  "switchcase_lines cd widths =
     rbind (foldM (add_key (cnames cd) widths) (dkeys (tuple2rule cd)) ([], [])) (\<lambda>(key2int, int2key).
     rbind (foldM (case_of_key cd key2int int2key) (sort (dkeys int2key)) ([], [])) (\<lambda>(cases, covered).
       Inr cases))"

definition gen_capture_fo ::
  "nt_rule cdict option \<Rightarrow> bool \<Rightarrow> (string, nat) dict \<Rightarrow> capture_body res" where
  "gen_capture_fo cdict_opt otherwise_ok widths =
     (case cdict_opt of
        None \<Rightarrow> Inl AttributeError
      | Some cd \<Rightarrow>
          if cnames cd \<noteq> []
          then rbind (cgen_key_lines (cnames cd) widths 0) (\<lambda>key_lines.
               rbind (switchcase_lines cd widths) (\<lambda>cases.
                 Inr (KeySwitch key_lines cases
                        (if otherwise_ok then [] else [SetOp ''error'' ''XED_ERROR_GENERAL_ERROR'']))))
          else (case rule cd of
                  None \<Rightarrow> Inl AttributeError
                | Some r \<Rightarrow> rbind (nt_rhs_assignments r) (\<lambda>stmts. Inr (Straight stmts))))"

definition gen_nt_capture :: "space \<Rightarrow> (string, nat) dict \<Rightarrow> nt_rules_def \<Rightarrow> capture_body res" where
  "gen_nt_capture all_space widths nt =
     rbind (gen_cdict all_space (nt_rules nt)) (\<lambda>cd. gen_capture_fo cd (nt_otherwise_ok nt) widths)"

text \<open>Nonterminals that need no capture function.\<close>

definition skip_nt :: "string \<Rightarrow> bool" where
  "skip_nt nt_name \<longleftrightarrow>
     nt_name \<in> {''PREFIXES'', ''ISA''} \<or> str_in ''INSTRUCTIONS'' nt_name \<or> str_in ''SPLITTER'' nt_name"

definition gen_capture_functions ::
  "space \<Rightarrow> (string, nat) dict \<Rightarrow> (string, nt_rules_def) dict \<Rightarrow> (string, capture_body) dict res" where
  "gen_capture_functions all_space widths nonterminal_dict =
     mapM (\<lambda>(nt_name, nt). rbind (gen_nt_capture all_space widths nt) (\<lambda>fo. Inr (nt_name, fo)))
       (filter (\<lambda>(nt_name, nt). \<not> skip_nt nt_name) nonterminal_dict)"

section \<open>Chains\<close>

text \<open>The nonterminals in the pattern of an instruction, and the names of its operand captures.\<close>

definition get_nt_names_from_ii :: "nt_rule \<Rightarrow> string list res" where
  "get_nt_names_from_ii r =
     mapM (\<lambda>bt. rbind (nonterminal_name bt) (\<lambda>n.
             case n of None \<Rightarrow> Inl (Die ''Failed to get NT name'')
             | Some n \<Rightarrow> if n = [] then Inl (Die ''Failed to get NT name'') else Inr n))
       (filter is_nonterminal (i_bits (nr_ii r)))"

definition op_nt_name :: "operand_info \<Rightarrow> string list" where
  "op_nt_name op =
     (if oi_type op = ''nt_lookup_fn'' then [oi_name op @ ''_'' @ str_or_none (oi_lookupfn_name op)]
      else if oi_type op = ''imm_const'' then [oi_name op @ ''_const'' @ bits_text (oi_bits op)]
      else if oi_type op = ''reg'' then [oi_name op @ ''_'' @ bits_text (oi_bits op)] else [])"

definition get_op_nt_names_from_ii :: "nt_rule \<Rightarrow> string list" where
  "get_op_nt_names_from_ii r = concat (map op_nt_name (nr_operands r))"

definition gen_capture_chain_fo :: "string list \<Rightarrow> capture_stmt list" where
  "gen_capture_chain_fo nt_names =
     concat (map (\<lambda>name. [CallNt name, ReturnIfError]) nt_names) @ [ReturnNoError]"

definition ntluf_statements :: "operand_info \<Rightarrow> capture_stmt list" where
  "ntluf_statements op =
     (if oi_type op = ''nt_lookup_fn''
      then [CallNt (str_or_none (oi_lookupfn_name op)), CopyOutreg (oi_name op), ReturnIfError]
      else if oi_type op \<in> {''imm_const'', ''reg''} then [SetOp (oi_name op) (bits_text (oi_bits op))]
      else [])"

definition gen_ntluf_capture_chain_fo :: "operand_info list \<Rightarrow> capture_stmt list" where
  "gen_ntluf_capture_chain_fo ops = concat (map ntluf_statements ops) @ [ReturnNoError]"

definition empty_capture_fn :: "bool \<Rightarrow> string" where
  "empty_capture_fn is_ntluf_chain =
     (if is_ntluf_chain then ''xed3_capture_nt_nop_ntluf'' else ''xed3_capture_nt_nop'')"

definition gen_empty_capture_fo :: "capture_stmt list" where
  "gen_empty_capture_fo = [Pacify, ReturnNoError]"

text \<open>
  One pattern of the loop that makes the chains: the functions by name, and the name of each
  instruction's function.
\<close>

type_synonym chain_tables = "(string, capture_stmt list) dict \<times> (int, string) dict"

definition add_chain ::
  "bool \<Rightarrow> string list \<Rightarrow> capture_stmt list \<Rightarrow> int \<Rightarrow> chain_tables \<Rightarrow> chain_tables" where
  "add_chain is_ntluf_chain nt_names fo inum st =
     (case st of (fn_2_fo, inum_2_fn) \<Rightarrow>
       let fn = (if nt_names = [] then empty_capture_fn is_ntluf_chain
                 else get_xed3_capture_chain_fn nt_names is_ntluf_chain)
       in (if din fn fn_2_fo then fn_2_fo else dset fn fo fn_2_fo, dset inum fn inum_2_fn))"

definition capture_chain_step :: "nt_rule \<Rightarrow> chain_tables \<Rightarrow> chain_tables res" where
  "capture_chain_step r st =
     rbind (get_nt_names_from_ii r) (\<lambda>nt_names.
       Inr (add_chain False nt_names (gen_capture_chain_fo nt_names) (i_inum (nr_ii r)) st))"

definition op_capture_chain_step :: "nt_rule \<Rightarrow> chain_tables \<Rightarrow> chain_tables res" where
  "op_capture_chain_step r st =
     Inr (add_chain True (get_op_nt_names_from_ii r) (gen_ntluf_capture_chain_fo (nr_operands r))
            (i_inum (nr_ii r)) st)"

text \<open>The function pointers in the order of the instruction numbers.\<close>

definition lookup_table :: "(int, string) dict \<Rightarrow> string option list res" where
  "lookup_table inum_2_fn =
     (if inum_2_fn = [] then Inl ValueError
      else Inr (map (map_of inum_2_fn) [0..Max (set (dkeys inum_2_fn))]))"

definition capture_chain_lu ::
  "nt_rule list \<Rightarrow> ((string, capture_stmt list) dict \<times> string option list) res" where
  "capture_chain_lu patterns =
     rbind (foldM capture_chain_step patterns ([(empty_capture_fn False, gen_empty_capture_fo)], []))
       (\<lambda>(fn_2_fo, inum_2_fn). rbind (lookup_table inum_2_fn) (\<lambda>lu. Inr (fn_2_fo, lu)))"

definition op_capture_chain_lu ::
  "nt_rule list \<Rightarrow> ((string, capture_stmt list) dict \<times> string option list) res" where
  "op_capture_chain_lu patterns =
     rbind (foldM op_capture_chain_step patterns ([(empty_capture_fn True, gen_empty_capture_fo)], []))
       (\<lambda>(fn_2_fo, inum_2_fn). rbind (lookup_table inum_2_fn) (\<lambda>lu. Inr (fn_2_fo, lu)))"

definition gen_dynamic_part1_fo :: "nt_rule list \<Rightarrow> capture_stmt list res" where
  "gen_dynamic_part1_fo spine_rules =
     (case spine_rules of
        [r] \<Rightarrow> rbind (get_nt_names_from_ii r) (\<lambda>nt_names.
                 Inr (gen_capture_chain_fo (filter (\<lambda>n. \<not> skip_nt n) nt_names)))
      | _ \<Rightarrow> Inl (Die ''Failed to gen dynamic part1 function!''))"

section \<open>What the emitted functions do\<close>

text \<open>
  The operand storage maps the lower-case name of an operand to its value.  The values of the C
  constants, and what a value becomes when it is stored in an operand (\<open>Operand_Storage\<close>), are
  parameters.  A call may fail to return, and so may a function that calls it.
\<close>

type_synonym operand_values = "string \<Rightarrow> int"

record c_values =
  konst :: "string \<Rightarrow> int"
  stored :: "string \<Rightarrow> int \<Rightarrow> int"

definition assign :: "c_values \<Rightarrow> string \<Rightarrow> int \<Rightarrow> operand_values \<Rightarrow> operand_values" where
  "assign cv opname v env = env(lower opname := stored cv (lower opname) v)"

text \<open>The result is the returned error, if the function returned, and the operands.\<close>

fun run_stmts ::
  "c_values \<Rightarrow> (string \<Rightarrow> operand_values \<Rightarrow> operand_values option) \<Rightarrow> capture_stmt list \<Rightarrow> operand_values
     \<Rightarrow> (int option \<times> operand_values) option" where
  "run_stmts cv call [] env = Some (None, env)"
| "run_stmts cv call (CallNt nt # ss) env =
     (case call nt env of None \<Rightarrow> None | Some env \<Rightarrow> run_stmts cv call ss env)"
| "run_stmts cv call (SetOp opname opval # ss) env =
     run_stmts cv call ss (assign cv opname (konst cv opval) env)"
| "run_stmts cv call (CopyOutreg opname # ss) env =
     run_stmts cv call ss (assign cv opname (env ''outreg'') env)"
| "run_stmts cv call (Pacify # ss) env = run_stmts cv call ss env"
| "run_stmts cv call (ReturnIfError # ss) env =
     (if env ''error'' \<noteq> 0 then Some (Some (env ''error''), env) else run_stmts cv call ss env)"
| "run_stmts cv call (ReturnNoError # ss) env = Some (Some (konst cv ''XED_ERROR_NONE''), env)"

text \<open>The key is an \<open>xed_uint32_t\<close>; a shift by its width or more is undefined.\<close>

fun key_value :: "(string \<times> nat) list \<Rightarrow> operand_values \<Rightarrow> 32 word \<Rightarrow> 32 word option" where
  "key_value [] env key = Some key"
| "key_value ((cname, shift) # lines) env key =
     (if shift < 32 then key_value lines env (key + push_bit shift (word_of_int (env (lower cname))))
      else None)"

text \<open>A case label is converted to the type of the key.\<close>

definition selected_case ::
  "32 word \<Rightarrow> (int list \<times> capture_stmt list) list \<Rightarrow> capture_stmt list \<Rightarrow> capture_stmt list" where
  "selected_case key cases dflt =
     (case find (\<lambda>(labels, ss). list_ex (\<lambda>l. word_of_int l = key) labels) cases of
        None \<Rightarrow> dflt | Some (labels, ss) \<Rightarrow> ss)"

fun run_body ::
  "c_values \<Rightarrow> (string \<Rightarrow> operand_values \<Rightarrow> operand_values option) \<Rightarrow> capture_body \<Rightarrow> operand_values
     \<Rightarrow> operand_values option" where
  "run_body cv call (Straight ss) env = map_option snd (run_stmts cv call ss env)"
| "run_body cv call (KeySwitch lines cases dflt) env =
     (case key_value lines env 0 of
        None \<Rightarrow> None
      | Some key \<Rightarrow> map_option snd (run_stmts cv call (selected_case key cases dflt) env))"

text \<open>The functions call each other; the first argument bounds the depth of the calls.\<close>

primrec run_capture ::
  "nat \<Rightarrow> c_values \<Rightarrow> (string, capture_body) dict \<Rightarrow> string \<Rightarrow> operand_values \<Rightarrow> operand_values option" where
  "run_capture 0 cv fns = (\<lambda>nt env. None)"
| "run_capture (Suc depth) cv fns = (\<lambda>nt env.
     case map_of fns nt of
       None \<Rightarrow> None
     | Some body \<Rightarrow> run_body cv (run_capture depth cv fns) body env)"

section \<open>What the rules of the grammar mean\<close>

text \<open>
  A rule applies when its operand deciders and constant captures hold; it then decodes the
  nonterminals of its pattern and sets the operands of its right-hand side, in order.
\<close>

definition view :: "operand_values \<Rightarrow> string \<Rightarrow> int" where
  "view env n = env (lower n)"

definition rule_applies :: "operand_values \<Rightarrow> nt_rule \<Rightarrow> bool" where
  "rule_applies env r \<longleftrightarrow>
     (\<forall>bt \<in> set (i_bits (nr_ii r)). is_operand_decider bt \<longrightarrow> Ild_Pattern.od_holds (view env) bt) \<and>
     (\<forall>nb \<in> set (i_prebindings (nr_ii r)). is_constant (snd nb) \<longrightarrow> binding_holds (view env) nb)"

definition rule_names :: "nt_rule \<Rightarrow> string set" where
  "rule_names r =
     set (List.map_filter (\<lambda>bt. if is_operand_decider bt then btoken bt else None) (i_bits (nr_ii r))) \<union>
     fst ` set (filter (\<lambda>nb. is_constant (snd nb)) (i_prebindings (nr_ii r)))"

lemma rule_names_iff:
  "rule_names r =
     {n. \<exists>bt \<in> set (i_bits (nr_ii r)). is_operand_decider bt \<and> btoken bt = Some n} \<union>
     fst ` {nb \<in> set (i_prebindings (nr_ii r)). is_constant (snd nb)}"
  by (force simp: rule_names_def List.map_filter_def split: if_splits)

fun call_all ::
  "(string \<Rightarrow> operand_values \<Rightarrow> operand_values option) \<Rightarrow> string list \<Rightarrow> operand_values
     \<Rightarrow> operand_values option" where
  "call_all call [] env = Some env"
| "call_all call (nt # nts) env = Option.bind (call nt env) (call_all call nts)"

definition operand_effect ::
  "c_values \<Rightarrow> (string \<Rightarrow> operand_values \<Rightarrow> operand_values option) \<Rightarrow> operand_info \<Rightarrow> operand_values
     \<Rightarrow> operand_values option" where
  "operand_effect cv call op env =
     (if oi_name op = ''ENCODER_PREFERRED'' \<or> oi_type op = ''imm'' then Some env
      else if is_ntluf op
      then Option.bind (call (str_or_none (oi_lookupfn_name op)) env) (\<lambda>env.
             Some (if oi_name op = ''OUTREG'' then env else assign cv (oi_name op) (env ''outreg'') env))
      else let env = assign cv (oi_name op) (konst cv (bits_text (oi_bits op))) env
           in Some (if is_reg_error_op op then assign cv ''error'' (konst cv ''XED_ERROR_BAD_REGISTER'') env
                    else env))"

fun operands_effect ::
  "c_values \<Rightarrow> (string \<Rightarrow> operand_values \<Rightarrow> operand_values option) \<Rightarrow> operand_info list \<Rightarrow> operand_values
     \<Rightarrow> operand_values option" where
  "operands_effect cv call [] env = Some env"
| "operands_effect cv call (op # ops) env =
     Option.bind (operand_effect cv call op env) (operands_effect cv call ops)"

definition general_error :: "c_values \<Rightarrow> operand_values \<Rightarrow> operand_values" where
  "general_error cv env = assign cv ''error'' (konst cv ''XED_ERROR_GENERAL_ERROR'') env"

definition rule_effect ::
  "c_values \<Rightarrow> (string \<Rightarrow> operand_values \<Rightarrow> operand_values option) \<Rightarrow> nt_rule \<Rightarrow> operand_values
     \<Rightarrow> operand_values option" where
  "rule_effect cv call r env =
     (if is_error_rule r then Some (general_error cv env)
      else case get_nt_names_from_ii r of
        Inl e \<Rightarrow> None
      | Inr nts \<Rightarrow> Option.bind (call_all call nts env) (operands_effect cv call (nr_operands r)))"

text \<open>
  Decoding a nonterminal is defined where the operands that its rules look at have values that the
  state space and the widths admit.
\<close>

definition admitted :: "space \<Rightarrow> (string, nat) dict \<Rightarrow> string set \<Rightarrow> operand_values \<Rightarrow> bool" where
  "admitted all_space widths names env \<longleftrightarrow>
     (\<forall>n \<in> names. view env n \<in> cvals all_space n \<and> 0 \<le> view env n \<and> view env n < 2 ^ width_of widths n)"

definition nt_names_of :: "nt_rules_def \<Rightarrow> string set" where
  "nt_names_of nt = (\<Union>r \<in> set (nt_rules nt). rule_names r)"

definition nt_effect ::
  "c_values \<Rightarrow> space \<Rightarrow> (string, nat) dict \<Rightarrow> (string \<Rightarrow> operand_values \<Rightarrow> operand_values option)
     \<Rightarrow> nt_rules_def \<Rightarrow> operand_values \<Rightarrow> operand_values option" where
  "nt_effect cv all_space widths call nt env =
     (if admitted all_space widths (nt_names_of nt) env
      then case find (rule_applies env) (nt_rules nt) of
             Some r \<Rightarrow> rule_effect cv call r env
           | None \<Rightarrow> Some (if nt_otherwise_ok nt then env else general_error cv env)
      else None)"

primrec decode_nt ::
  "nat \<Rightarrow> c_values \<Rightarrow> space \<Rightarrow> (string, nat) dict \<Rightarrow> (string, nt_rules_def) dict \<Rightarrow> string \<Rightarrow> operand_values
     \<Rightarrow> operand_values option" where
  "decode_nt 0 cv all_space widths nts = (\<lambda>nt env. None)"
| "decode_nt (Suc depth) cv all_space widths nts = (\<lambda>nt env.
     case map_of nts nt of
       None \<Rightarrow> None
     | Some d \<Rightarrow> if skip_nt nt then None
                 else nt_effect cv all_space widths (decode_nt depth cv all_space widths nts) d env)"

section \<open>The statements do what the rule means\<close>

lemma run_stmts_append:
  "run_stmts cv call (xs @ ys) env =
     (case run_stmts cv call xs env of
        None \<Rightarrow> None
      | Some (None, env) \<Rightarrow> run_stmts cv call ys env
      | Some (Some e, env) \<Rightarrow> Some (Some e, env))"
  by (induction cv call xs env rule: run_stmts.induct) (auto split: option.splits)

lemma run_calls:
  "run_stmts cv call (map CallNt nts) env = map_option (Pair None) (call_all call nts env)"
  by (induction nts arbitrary: env) (auto split: option.splits bind_splits)

lemma run_operand:
  "run_stmts cv call (operand_assignments op) env = map_option (Pair None) (operand_effect cv call op env)"
  by (auto simp: operand_assignments_def operand_effect_def is_ntluf_def is_reg_error_op_def assign_def Let_def
      split: option.splits bind_splits)

lemma run_operands:
  "run_stmts cv call (concat (map operand_assignments ops)) env =
     map_option (Pair None) (operands_effect cv call ops env)"
  by (induction ops arbitrary: env) (auto simp: run_stmts_append run_operand split: option.splits bind_splits)

lemma search_nonterminal_nonempty: "search_nonterminal s = Some n \<Longrightarrow> n \<noteq> []"
  by (induction s arbitrary: n rule: search_nonterminal.induct) (auto split: if_splits)

lemma pattern_nts_names:
  assumes "get_pattern_nts r = Inr nts"
  shows "get_nt_names_from_ii r = Inr (map str_or_none nts)"
proof -
  have "mapM nonterminal_name bts = Inr nts \<Longrightarrow> list_all is_nonterminal bts \<Longrightarrow>
    mapM (\<lambda>bt. rbind (nonterminal_name bt) (\<lambda>n.
             case n of None \<Rightarrow> Inl (Die ''Failed to get NT name'')
             | Some n \<Rightarrow> if n = [] then Inl (Die ''Failed to get NT name'') else Inr n)) bts =
    Inr (map str_or_none nts)" for bts
  proof (induction bts arbitrary: nts)
    case (Cons b bts)
    then show ?case
      by (auto simp: rbind_eq_Inr nonterminal_name_def str_or_none_def dest: search_nonterminal_nonempty
          split: option.splits if_splits)
  qed simp
  then show ?thesis using assms by (simp add: get_pattern_nts_def get_nt_names_from_ii_def list_all_iff)
qed

lemma run_rhs:
  assumes "nt_rhs_assignments r = Inr ss"
  shows "run_stmts cv call ss env = map_option (Pair None) (rule_effect cv call r env)"
proof (cases "is_error_rule r")
  case True
  with assms show ?thesis by (auto simp: nt_rhs_assignments_def rule_effect_def general_error_def)
next
  case False
  with assms obtain nts where nts: "get_pattern_nts r = Inr nts"
    and ss: "ss = map CallNt (map str_or_none nts) @ concat (map operand_assignments (nr_operands r)) @ [Pacify]"
    by (auto simp: nt_rhs_assignments_def rbind_eq_Inr)
  show ?thesis
    unfolding ss run_stmts_append run_calls run_operands
    using False pattern_nts_names [OF nts] by (auto simp: rule_effect_def split: option.splits bind_splits)
qed

end
