(* ===== verification/Grammar_State.thy ===== *)
theory Grammar_State
  imports Pattern_Bits
begin

text \<open>
  The state macros of the grammar and the values they give to the operand deciders, and the dictionary
  of the nonterminals (\<open>state_info_t\<close>, \<open>read_state_spec\<close>, \<open>compute_state_space\<close> and
  \<open>nonterminal_dict_t\<close> of \<open>pysrc/generator.py\<close>).
\<close>

section \<open>State macros\<close>

record state_info =
  si_name :: string
  list_of_str :: "string list"

text \<open>A formal binary (which has one \<open>0b\<close>, in front) is broken into its bits.\<close>

definition state_word :: "string \<Rightarrow> string list" where
  "state_word x =
     (if formal_binary_match x then map (\<lambda>c. [c]) (no_underscores (drop 2 x)) else [x])"

definition state_info_new :: "string \<Rightarrow> string list \<Rightarrow> state_info" where
  "state_info_new name words = \<lparr>si_name = name, list_of_str = concat (map state_word words)\<rparr>"

definition state_dump_str :: "state_info \<Rightarrow> string" where
  "state_dump_str si = si_name si @ '' '' @ concat (map (\<lambda>w. w @ '' '') (list_of_str si))"

text \<open>The lines of the file; a line of white space only cannot be, its words are looked at.\<close>

definition read_state_line :: "string \<Rightarrow> (string, state_info) dict \<Rightarrow> (string, state_info) dict res" where
  "read_state_line line state_bits =
     (case split_words line of
        [] \<Rightarrow> Inl IndexError
      | tag # spattern \<Rightarrow> Inr (dset tag (state_info_new tag spattern) state_bits))"

definition read_state_spec :: "string list \<Rightarrow> (string, state_info) dict res" where
  "read_state_spec lines = foldM read_state_line (filter blank_line (map no_comments lines)) []"

section \<open>The state space\<close>

text \<open>
  The values of a token are a set; the order in which Python lists it is a parameter that may permute
  the distinct values.
\<close>

definition match_nonterminal :: "string \<Rightarrow> bool" where
  "match_nonterminal w \<longleftrightarrow>
     (case w of [] \<Rightarrow> False | c # s \<Rightarrow> is_upper c \<and> starts_with ''()'' (dropWhile is_word_char s))"

definition state_space_word ::
  "string \<Rightarrow> (string, int list) dict \<Rightarrow> (string, int list) dict res" where
  "state_space_word wrd state_values =
     (case search_restriction wrd of
        Some (token, test, requirement) \<Rightarrow>
          if requirement = ''XED_ERROR_GENERAL_ERROR'' then Inr state_values
          else rbind (make_numeric requirement) (\<lambda>requirement_base10.
                 Inr (dset token (List.insert requirement_base10 (dget_default state_values token []))
                        state_values))
      | None \<Rightarrow>
          if formal_binary_match wrd \<or> match_nonterminal wrd \<or> hex_pattern_match wrd then Inr state_values
          else Inl (Die ''Unhandled state pattern''))"

definition compute_state_space ::
  "(int list \<Rightarrow> int list) \<Rightarrow> (string, state_info) dict \<Rightarrow> (string, int list) dict res" where
  "compute_state_space set_order state_dict =
     rbind (foldM state_space_word (concat (map list_of_str (dvals state_dict))) []) (\<lambda>state_values.
       Inr (map (\<lambda>(k, v). (k, set_order v)) state_values))"

section \<open>Nonterminals\<close>

record nonterminal_info =
  nti_name :: string
  nti_type :: "string option"
  nti_start_node :: "nat option"

definition is_lookup_function :: "nonterminal_info \<Rightarrow> bool" where
  "is_lookup_function n \<longleftrightarrow> nti_type n \<noteq> None"

type_synonym nonterminal_dict = "(string, nonterminal_info) dict"

definition add_to_dict :: "string \<Rightarrow> string option \<Rightarrow> nonterminal_dict \<Rightarrow> nonterminal_dict" where
  "add_to_dict short_nt_name nt_type d =
     dset short_nt_name \<lparr>nti_name = short_nt_name, nti_type = nt_type, nti_start_node = None\<rparr> d"

definition add_graph_node :: "string \<Rightarrow> nat \<Rightarrow> nonterminal_dict \<Rightarrow> nonterminal_dict res" where
  "add_graph_node nt_name node_id d =
     (let d = (if din nt_name d then d else add_to_dict nt_name None d)
      in rbind (dget d nt_name) (\<lambda>n. Inr (dset nt_name (n\<lparr>nti_start_node := Some node_id\<rparr>) d)))"

definition get_node :: "string \<Rightarrow> nonterminal_dict \<Rightarrow> nonterminal_info res" where
  "get_node nt_name d =
     (case map_of d nt_name of Some n \<Rightarrow> Inr n | None \<Rightarrow> Inl (Die ''Did not find nonterminal in the dictionary''))"

definition record_nonterminal :: "string \<Rightarrow> string option \<Rightarrow> nonterminal_dict \<Rightarrow> nonterminal_dict res" where
  "record_nonterminal nt_name nt_type d =
     (if nt_name = [] then Inl (Die ''Bad nonterminal name'')
      else Inr (if din nt_name d then d else add_to_dict nt_name nt_type d))"

section \<open>The values of a token are its requirements\<close>

definition space_values :: "(string, int list) dict \<Rightarrow> string \<Rightarrow> int set" where
  "space_values sp token = set (dget_default sp token [])"

definition required :: "string \<Rightarrow> string \<Rightarrow> int \<Rightarrow> bool" where
  "required wrd token v \<longleftrightarrow>
     (\<exists>test requirement. search_restriction wrd = Some (token, test, requirement) \<and>
        requirement \<noteq> ''XED_ERROR_GENERAL_ERROR'' \<and> make_numeric requirement = Inr v)"

lemma state_space_word_values:
  assumes "state_space_word wrd sp = Inr sp'"
  shows "v \<in> space_values sp' token \<longleftrightarrow> v \<in> space_values sp token \<or> required wrd token v"
  using assms
  by (auto simp: state_space_word_def required_def space_values_def dget_default_def rbind_eq_Inr
      split: option.splits if_splits prod.splits)

lemma state_space_words_values:
  assumes "foldM state_space_word wrds sp = Inr sp'"
  shows "v \<in> space_values sp' token \<longleftrightarrow> v \<in> space_values sp token \<or> (\<exists>w \<in> set wrds. required w token v)"
  using assms
proof (induction wrds arbitrary: sp)
  case (Cons w wrds)
  then obtain sp1 where one: "state_space_word w sp = Inr sp1" and rest: "foldM state_space_word wrds sp1 = Inr sp'"
    by (auto simp: rbind_eq_Inr)
  show ?case using Cons.IH [OF rest] state_space_word_values [OF one] by auto
qed simp

lemma compute_state_space_values:
  assumes "compute_state_space set_order state_dict = Inr sp" and "\<forall>vs. set (set_order vs) = set vs"
  shows "v \<in> space_values sp token \<longleftrightarrow>
    (\<exists>si \<in> set (dvals state_dict). \<exists>w \<in> set (list_of_str si). required w token v)"
proof -
  obtain state_values where f: "foldM state_space_word (concat (map list_of_str (dvals state_dict))) [] = Inr state_values"
    and sp: "sp = map (\<lambda>(k, v). (k, set_order v)) state_values"
    using assms(1) by (auto simp: compute_state_space_def rbind_eq_Inr)
  have "space_values sp token = space_values state_values token"
    using assms(2) by (simp add: sp space_values_def dget_default_def map_of_map split: option.splits)
  then show ?thesis using state_space_words_values [OF f, of v token]
    by (simp add: space_values_def [of "[]"])
qed

end
