(* ===== verification/Capture_Refine.thy ===== *)
theory Capture_Refine
  imports Capture
begin

text \<open>
  The capture functions of \<open>Capture\<close> compute what the rules of the grammar say: the dictionary of a
  nonterminal maps the tuple of the operands to the rule that applies, the switch maps the key of
  the tuple to the statements of that rule, the chain of an instruction runs the nonterminals of its
  pattern, and functions that call functions of a lower rank return.
\<close>

section \<open>The dictionary of a nonterminal\<close>

lemma get_all_cnames_UN: "get_all_cnames css = (\<Union>c \<in> set css. set (dkeys c))"
  by (simp add: get_all_cnames_def)

lemma get_all_cnames_rules:
  assumes "mapM (rule_constraints all_space) rules = Inr css"
  shows "get_all_cnames css = (\<Union>r \<in> set rules. rule_names r)"
proof -
  have "set (dkeys c) = rule_names r" if "rule_constraints all_space r = Inr c" for r c
    using get_ii_constraints_Inr(2) [of "nr_ii r" all_space c] that
    by (force simp: rule_constraints_def rule_names_iff din_dkeys simp del: set_map)
  with assms show ?thesis
  proof (induction rules arbitrary: css)
    case (Cons r rules)
    then obtain c cs where c: "rule_constraints all_space r = Inr c" "css = c # cs"
      and cs: "mapM (rule_constraints all_space) rules = Inr cs"
      by (auto simp: rbind_eq_Inr)
    then have "get_all_cnames css = set (dkeys c) \<union> get_all_cnames cs"
      by (simp add: get_all_cnames_def)
    with Cons.IH [OF cs Cons.prems(2)] Cons.prems(2) [OF c(1)] show ?case by simp
  qed (simp add: get_all_cnames_def)
qed

text \<open>
  The nonterminals whose dictionary is faithful: the tests of one operand in a rule agree, every rule has a
  constraint where one has, all values fit their widths, and the key fits 32 bits.
\<close>

definition nt_captured :: "space \<Rightarrow> (string, nat) dict \<Rightarrow> nt_rules_def \<Rightarrow> bool" where
  "nt_captured all_space widths nt \<longleftrightarrow>
     list_all (\<lambda>r. sources_agree (nr_ii r)) (nt_rules nt) \<and>
     (case mapM (rule_constraints all_space) (nt_rules nt) of
        Inl e \<Rightarrow> False
      | Inr css \<Rightarrow>
          let cns = get_all_cnames css
          in cns = {} \<or>
             list_all (\<lambda>c. space_wf c all_space cns \<and>
               (\<forall>n \<in> cns. \<forall>v \<in> set (dkeys (name_dict c all_space n)). 0 \<le> v \<and> v < 2 ^ width_of widths n)) css \<and>
             (\<forall>n \<in> cns. 0 < width_of widths n) \<and>
             sum_list (map (width_of widths) (sorted_list_of_set cns)) \<le> 32)"

lemma space_wf_set [code]:
  "space_wf sp all_space (set ns) \<longleftrightarrow> ns \<noteq> [] \<and> sp \<noteq> [] \<and> all_space \<noteq> [] \<and>
     list_all (\<lambda>n. dict_ok (name_dict sp all_space n) \<and> name_dict sp all_space n \<noteq> []) ns"
  by (auto simp: space_wf_def list_all_iff)

lemma list_all2_bounded:
  assumes "list_all2 (\<lambda>x n. x \<in> S n) t ns" "\<forall>n \<in> set ns. \<forall>v \<in> S n. 0 \<le> v \<and> v < 2 ^ w n"
  shows "bounded_by t (map w ns)"
  using assms by (induction t ns rule: list_all2_induct) auto

lemma satisfies_sat:
  assumes fin: "finite cns" and names: "set (dkeys c) \<subseteq> cns"
    and legal: "\<forall>n \<in> cns. env n \<in> cvals all_space n"
  shows "satisfies c all_space (sorted_list_of_set cns) (map env (sorted_list_of_set cns)) \<longleftrightarrow> sat env c"
proof -
  have "satisfies c all_space (sorted_list_of_set cns) (map env (sorted_list_of_set cns)) \<longleftrightarrow>
      (\<forall>n \<in> cns. env n \<in> set (dkeys (name_dict c all_space n)))"
    using fin by (simp add: satisfies_def list_all2_map1 list_all2_same)
  also have "\<dots> \<longleftrightarrow> (\<forall>n \<in> cns. din n c \<longrightarrow> env n \<in> cvals c n)"
  proof (intro ball_cong refl)
    fix n assume n: "n \<in> cns"
    show "(env n \<in> set (dkeys (name_dict c all_space n))) = (din n c \<longrightarrow> env n \<in> cvals c n)"
      using legal n by (cases "map_of c n") (simp_all add: name_dict_def din_def dget_default_def del: set_map)
  qed
  also have "\<dots> \<longleftrightarrow> sat env c" using names by (auto simp: sat_def din_dkeys simp del: set_map)
  finally show ?thesis .
qed

lemma gen_cdict_lookup:
  assumes g: "gen_cdict all_space rules = Inr (Some cd)"
    and ok: "nt_captured all_space widths \<lparr>nt_rules = rules, nt_otherwise_ok = ow\<rparr>"
    and ne: "(\<Union>r \<in> set rules. rule_names r) \<noteq> {}"
  shows "dict_ok (tuple2rule cd)" and "set (cnames cd) = (\<Union>r \<in> set rules. rule_names r)"
    and "list_all (\<lambda>n. 0 < width_of widths n) (cnames cd)"
    and "sum_list (map (width_of widths) (cnames cd)) \<le> 32"
    and "\<And>t. t \<in> set (dkeys (tuple2rule cd)) \<Longrightarrow> tuple_fits widths (cnames cd) t"
    and "admitted all_space widths (\<Union>r \<in> set rules. rule_names r) env \<Longrightarrow>
           map_of (tuple2rule cd) (map (view env) (cnames cd)) = find (rule_applies env) rules"
proof -
  obtain css where css: "mapM (rule_constraints all_space) rules = Inr css"
    using g by (auto simp: gen_cdict_def rbind_eq_Inr)
  define cns where "cns = get_all_cnames css"
  have cns: "cns = (\<Union>r \<in> set rules. rule_names r)" by (simp add: cns_def get_all_cnames_rules [OF css])
  have len: "length css = length rules" by (rule mapM_Inr_length [OF css])
  have nth: "rule_constraints all_space (rules ! i) = Inr (css ! i)" if "i < length rules" for i
    using mapM_Inr_nth [OF css that] .
  obtain cds where cds: "mapM (\<lambda>(cs, r). constraint_dict_new cns cs all_space r) (zip css rules) = Inr cds"
    and un: "unite_dicts cds cns = Inr (Some cd)"
    using g css by (auto simp: gen_cdict_def rbind_eq_Inr cns_def Let_def)
  have wf: "\<forall>x \<in> set (zip css rules). space_wf (fst x) all_space cns"
    and fits: "\<And>c n v. c \<in> set css \<Longrightarrow> n \<in> cns \<Longrightarrow> v \<in> set (dkeys (name_dict c all_space n)) \<Longrightarrow>
      0 \<le> v \<and> v < 2 ^ width_of widths n"
    and pos: "\<forall>n \<in> cns. 0 < width_of widths n"
    and sum: "sum_list (map (width_of widths) (sorted_list_of_set cns)) \<le> 32"
    and once: "\<And>r. r \<in> set rules \<Longrightarrow> sources_agree (nr_ii r)"
    using ok ne unfolding cns [symmetric]
    by (auto simp: nt_captured_def css Let_def cns_def [symmetric] list_all_iff simp del: set_map
        dest: set_zip_leftD)
  have fin: "finite cns" by (simp add: cns_def get_all_cnames_def)
  note ex = expand_unite_lookup [OF cds un wf]
  show "dict_ok (tuple2rule cd)" by (rule ex(1))
  show "set (cnames cd) = (\<Union>r \<in> set rules. rule_names r)" using fin by (simp add: ex(2) cns [symmetric])
  show "list_all (\<lambda>n. 0 < width_of widths n) (cnames cd)" using pos fin by (simp add: ex(2) list_all_iff)
  show "sum_list (map (width_of widths) (cnames cd)) \<le> 32" using sum by (simp add: ex(2))
  show "tuple_fits widths (cnames cd) t" if "t \<in> set (dkeys (tuple2rule cd))" for t
  proof -
    from that obtain q where "map_of (tuple2rule cd) t = Some q"
      by (metis map_of_None_keys not_Some_eq)
    then obtain sp where sp: "(sp, q) \<in> set (zip css rules)"
      and s: "satisfies sp all_space (sorted_list_of_set cns) t"
      unfolding ex(3) by blast
    show ?thesis
      using s fits [OF set_zip_leftD [OF sp]] fin unfolding tuple_fits_def ex(2) satisfies_def
      by (intro list_all2_bounded) (auto simp del: set_map)
  qed
  show "map_of (tuple2rule cd) (map (view env) (cnames cd)) = find (rule_applies env) rules"
    if adm: "admitted all_space widths (\<Union>r \<in> set rules. rule_names r) env"
  proof -
    let ?t = "map (view env) (cnames cd)"
    have legal: "\<forall>n \<in> cns. view env n \<in> cvals all_space n"
      using adm by (simp add: admitted_def cns)
    have one: "satisfies (css ! i) all_space (sorted_list_of_set cns) ?t \<longleftrightarrow> rule_applies env (rules ! i)"
      if i: "i < length rules" for i
    proof -
      have r: "rules ! i \<in> set rules" using i by simp
      have c: "get_ii_constraints (nr_ii (rules ! i)) all_space = Inr (css ! i)"
        using nth [OF i] by (simp add: rule_constraints_def)
      have names: "set (dkeys (css ! i)) \<subseteq> cns"
        using i len unfolding cns_def get_all_cnames_UN by (intro UN_upper) simp
      have "rule_names (rules ! i) \<subseteq> cns" using r by (auto simp: cns)
      then have "\<forall>bt \<in> set (i_bits (nr_ii (rules ! i))). \<forall>tok. is_operand_decider bt \<longrightarrow>
          btoken bt = Some tok \<longrightarrow> view env tok \<in> cvals all_space tok"
        using legal unfolding rule_names_iff by blast
      from get_ii_constraints_sat [OF c once [OF r] this] show ?thesis
        using satisfies_sat [OF fin names legal] by (simp add: ex(2) rule_applies_def)
    qed
    have look: "map_of (tuple2rule cd) ?t = Some q \<longleftrightarrow> q \<in> set rules \<and> rule_applies env q" for q
    proof
      assume "map_of (tuple2rule cd) ?t = Some q"
      then obtain i where "i < length rules" "q = rules ! i"
        "satisfies (css ! i) all_space (sorted_list_of_set cns) ?t"
        unfolding ex(3) by (auto simp: set_zip len)
      then show "q \<in> set rules \<and> rule_applies env q" using one by auto
    next
      assume q: "q \<in> set rules \<and> rule_applies env q"
      then obtain i where "i < length rules" "q = rules ! i" by (auto simp: in_set_conv_nth)
      then show "map_of (tuple2rule cd) ?t = Some q"
        unfolding ex(3) using one q len by (force simp: set_zip)
    qed
    show ?thesis
    proof (cases "find (rule_applies env) rules")
      case None
      then show ?thesis using look by (metis find_None_iff not_Some_eq)
    next
      case (Some r)
      then show ?thesis using look by (metis find_Some_iff nth_mem)
    qed
  qed
qed

section \<open>The switch selects the rule\<close>

lemma labels_of_rule:
  assumes "dict_ok (tuple2rule cd)" and "mapM (dget key2int) (get_all_keys_by_val cd r) = Inr labels"
  shows "l \<in> set labels \<longleftrightarrow> (\<exists>t. map_of (tuple2rule cd) t = Some r \<and> map_of key2int t = Some l)"
proof -
  have "mapM (dget key2int) ts = Inr ls \<Longrightarrow> l \<in> set ls \<longleftrightarrow> (\<exists>t \<in> set ts. map_of key2int t = Some l)" for ts ls
    by (induction ts arbitrary: ls) (auto simp: rbind_eq_Inr)
  from this [OF assms(2)] show ?thesis
    using assms(1) by (force simp: get_all_keys_by_val_def dict_ok_map_of_iff)
qed

definition cases_ok ::
  "nt_rule cdict \<Rightarrow> (int list, int) dict \<Rightarrow> (int list \<times> capture_stmt list) list \<Rightarrow> nt_rule list \<Rightarrow> bool" where
  "cases_ok cd key2int cases covered \<longleftrightarrow>
     list_all2 (\<lambda>r c. mapM (dget key2int) (get_all_keys_by_val cd r) = Inr (fst c) \<and>
       nt_rhs_assignments r = Inr (snd c)) covered cases"

lemma cases_ok_rule:
  assumes "cases_ok cd key2int cases covered" "r \<in> set covered"
  obtains labels ss where "(labels, ss) \<in> set cases"
    "mapM (dget key2int) (get_all_keys_by_val cd r) = Inr labels" "nt_rhs_assignments r = Inr ss"
proof -
  have "\<exists>c \<in> set cases. mapM (dget key2int) (get_all_keys_by_val cd r) = Inr (fst c) \<and>
      nt_rhs_assignments r = Inr (snd c)"
    using assms unfolding cases_ok_def by (induction covered cases rule: list_all2_induct) auto
  then show ?thesis using that by force
qed

lemma cases_ok_case:
  assumes "cases_ok cd key2int cases covered" "(labels, ss) \<in> set cases"
  obtains r where "mapM (dget key2int) (get_all_keys_by_val cd r) = Inr labels"
    "nt_rhs_assignments r = Inr ss"
proof -
  have "\<exists>r. mapM (dget key2int) (get_all_keys_by_val cd r) = Inr labels \<and> nt_rhs_assignments r = Inr ss"
    using assms unfolding cases_ok_def by (induction covered cases rule: list_all2_induct) auto
  then show ?thesis using that by force
qed

lemma case_of_key_fold:
  assumes "foldM (case_of_key cd key2int int2key) ks (cases, covered) = Inr (cases', covered')"
    and "cases_ok cd key2int cases covered"
  shows "cases_ok cd key2int cases' covered' \<and> set covered \<subseteq> set covered' \<and>
    (\<forall>k \<in> set ks. \<exists>t r. map_of int2key k = Some t \<and> map_of (tuple2rule cd) t = Some r \<and> r \<in> set covered')"
  using assms
proof (induction ks arbitrary: cases covered)
  case (Cons k ks)
  then obtain cases1 covered1 where one: "case_of_key cd key2int int2key k (cases, covered) = Inr (cases1, covered1)"
    and rest: "foldM (case_of_key cd key2int int2key) ks (cases1, covered1) = Inr (cases', covered')"
    by (auto simp: rbind_eq_Inr)
  have "cases_ok cd key2int cases1 covered1 \<and> set covered \<subseteq> set covered1 \<and>
    (\<exists>t r. map_of int2key k = Some t \<and> map_of (tuple2rule cd) t = Some r \<and> r \<in> set covered1)"
    using one Cons.prems(2)
    by (auto simp: case_of_key_def cases_ok_def rbind_eq_Inr list_all2_appendI split: if_splits)
  with Cons.IH [OF rest] show ?case by auto
qed simp

lemma switch_dispatch:
  assumes s: "switchcase_lines cd widths = Inr cases" and ok: "dict_ok (tuple2rule cd)"
    and hw: "has_widths widths (cnames cd)"
    and fits: "\<And>t. t \<in> set (dkeys (tuple2rule cd)) \<Longrightarrow> tuple_fits widths (cnames cd) t"
    and sum: "sum_list (map (width_of widths) (cnames cd)) \<le> 32"
    and t: "tuple_fits widths (cnames cd) t"
  shows "case map_of (tuple2rule cd) t of
      None \<Rightarrow> selected_case (word_of_int (pack t (map (width_of widths) (cnames cd)))) cases dflt = dflt
    | Some r \<Rightarrow> nt_rhs_assignments r =
        Inr (selected_case (word_of_int (pack t (map (width_of widths) (cnames cd)))) cases dflt)"
proof -
  let ?key = "\<lambda>t. pack t (map (width_of widths) (cnames cd))"
  obtain key2int int2key covered
    where a: "foldM (add_key (cnames cd) widths) (dkeys (tuple2rule cd)) ([], []) = Inr (key2int, int2key)"
    and c: "foldM (case_of_key cd key2int int2key) (sort (dkeys int2key)) ([], []) = Inr (cases, covered)"
    using s by (auto simp: switchcase_lines_def rbind_eq_Inr)
  have inv: "inverse_dicts key2int int2key" and dom: "dkeys key2int = dkeys (tuple2rule cd)"
    and ints: "\<And>t k. map_of key2int t = Some k \<Longrightarrow> tuple2int t (cnames cd) widths = Inr k"
    using add_keys_Inr [OF a] ok by (auto simp: dict_ok_def)
  have key: "map_of key2int u = (if u \<in> set (dkeys (tuple2rule cd)) then Some (?key u) else None)" for u
  proof (cases "map_of key2int u")
    case None
    then show ?thesis using map_of_None_keys [of key2int u] by (simp add: dom)
  next
    case (Some k)
    then have "u \<in> set (dkeys (tuple2rule cd))" using map_of_None_keys [of key2int u] by (simp add: dom)
    then show ?thesis using ints [OF Some] Some tuple2int_fits [OF hw fits] by simp
  qed
  have "cases_ok cd key2int [] []" by (simp add: cases_ok_def)
  note cf = case_of_key_fold [OF c this]
  from cf have cov: "cases_ok cd key2int cases covered" by blast
  have inj: "u = t" if "map_of key2int u = Some l" "(word_of_int l :: 32 word) = word_of_int (?key t)" for u l
  proof -
    have u: "tuple_fits widths (cnames cd) u" and l: "l = ?key u"
      using that(1) fits by (auto simp: key split: if_splits)
    have b: "0 \<le> ?key v \<and> ?key v < 2 ^ 32" if "tuple_fits widths (cnames cd) v" for v
    proof -
      have "?key v < 2 ^ sum_list (map (width_of widths) (cnames cd))" "0 \<le> ?key v"
        using that pack_bounds by (auto simp: tuple_fits_def)
      moreover have "(2::int) ^ sum_list (map (width_of widths) (cnames cd)) \<le> 2 ^ 32"
        using sum by (intro power_increasing) auto
      ultimately show ?thesis by linarith
    qed
    have "l = ?key t"
      using that(2) b [OF u] b [OF t] l by (simp add: word_of_int_eq_iff take_bit_int_eq_self)
    then show ?thesis using l u t pack_inj by (auto simp: tuple_fits_def)
  qed
  let ?P = "\<lambda>(labels, ss). list_ex (\<lambda>l. word_of_int l = (word_of_int (?key t) :: 32 word)) labels"
  show ?thesis
  proof (cases "find ?P cases")
    case None
    have "map_of (tuple2rule cd) t = None"
    proof (rule ccontr)
      assume "map_of (tuple2rule cd) t \<noteq> None"
      then have "map_of key2int t = Some (?key t)" using map_of_None_keys [of "tuple2rule cd" t] by (simp add: key)
      then have m: "map_of int2key (?key t) = Some t" using inv by (simp add: inverse_dicts_def)
      then have "?key t \<in> set (dkeys int2key)" using map_of_None_keys [of int2key "?key t"] by simp
      then obtain r where r: "map_of (tuple2rule cd) t = Some r" "r \<in> set covered" using cf m by force
      then obtain labels ss where ls: "(labels, ss) \<in> set cases"
        "mapM (dget key2int) (get_all_keys_by_val cd r) = Inr labels"
        using cases_ok_rule [OF cov] by blast
      have "?key t \<in> set labels"
        using labels_of_rule [OF ok ls(2), of "?key t"] r \<open>map_of key2int t = Some (?key t)\<close> by blast
      then have "?P (labels, ss)" by (auto simp: list_ex_iff)
      with None ls(1) show False by (force simp: find_None_iff)
    qed
    then show ?thesis using None by (simp add: selected_case_def)
  next
    case (Some x)
    obtain labels ss where x: "x = (labels, ss)" by (cases x)
    from Some have "x \<in> set cases" and "?P x" by (metis find_Some_iff nth_mem)+
    then obtain l where mem: "(labels, ss) \<in> set cases" and l: "l \<in> set labels"
      "(word_of_int l :: 32 word) = word_of_int (?key t)"
      by (auto simp: x list_ex_iff)
    from mem obtain r where r: "mapM (dget key2int) (get_all_keys_by_val cd r) = Inr labels"
      "nt_rhs_assignments r = Inr ss"
      using cases_ok_case [OF cov] by blast
    then obtain u where "map_of (tuple2rule cd) u = Some r" "map_of key2int u = Some l"
      using labels_of_rule [OF ok r(1), of l] l(1) by blast
    then have "map_of (tuple2rule cd) t = Some r" using inj l(2) by blast
    then show ?thesis using Some x r(2) by (simp add: selected_case_def)
  qed
qed

text \<open>The key is the packed tuple of the operands.\<close>

lemma key_lines_value:
  assumes "cgen_key_lines names widths shift = Inr lines"
    and "tuple_fits widths names (map (view env) names)"
    and "list_all (\<lambda>n. 0 < width_of widths n) names" "shift + sum_list (map (width_of widths) names) \<le> 32"
  shows "key_value lines env key =
      Some (key + push_bit shift (word_of_int (pack (map (view env) names) (map (width_of widths) names))))"
    and "has_widths widths names"
  using assms
proof (induction names arbitrary: shift lines key)
  case (Cons n names)
  case 1
  then obtain w rest where w: "map_of widths n = Some w"
    and rest: "cgen_key_lines names widths (shift + w) = Inr rest" and lines: "lines = (n, shift) # rest"
    by (auto simp: rbind_eq_Inr)
  have w': "width_of widths n = w" using w by (simp add: width_of_def dget_default_def)
  have "shift < 32" using 1 by (simp add: w')
  have "key_value rest env (key + push_bit shift (word_of_int (view env n))) =
      Some (key + push_bit shift (word_of_int (view env n)) +
        push_bit (shift + w) (word_of_int (pack (map (view env) names) (map (width_of widths) names))))"
    using 1 by (intro Cons.IH(1) [OF rest]) (auto simp: w' tuple_fits_def)
  then show ?case using \<open>shift < 32\<close>
    by (simp add: lines view_def [of env n] w' push_bit_eq_mult power_add algebra_simps wi_hom_mult [symmetric] wi_hom_add [symmetric])
next
  case (Cons n names)
  case 2
  then obtain w rest where w: "map_of widths n = Some w"
    and rest: "cgen_key_lines names widths (shift + w) = Inr rest"
    by (auto simp: rbind_eq_Inr)
  have "width_of widths n = w" using w by (simp add: width_of_def dget_default_def)
  then have "has_widths widths names"
    using 2 by (intro Cons.IH(2) [OF rest]) (auto simp: tuple_fits_def)
  then show ?case using w by (simp add: has_widths_def din_def)
qed (auto simp: tuple_fits_def has_widths_def)

section \<open>The functions refine the grammar\<close>

text \<open>One family of nonterminal calls does at least what another does.\<close>

definition calls_refine ::
  "(string \<Rightarrow> operand_values \<Rightarrow> operand_values option) \<Rightarrow>
   (string \<Rightarrow> operand_values \<Rightarrow> operand_values option) \<Rightarrow> bool" where
  "calls_refine call call' \<longleftrightarrow> (\<forall>nt env env'. call nt env = Some env' \<longrightarrow> call' nt env = Some env')"

lemma call_all_refine:
  "calls_refine call call' \<Longrightarrow> call_all call nts env = Some env' \<Longrightarrow> call_all call' nts env = Some env'"
  by (induction nts arbitrary: env) (auto simp: calls_refine_def split: bind_splits)

lemma operand_effect_refine:
  "calls_refine call call' \<Longrightarrow> operand_effect cv call op env = Some env' \<Longrightarrow>
     operand_effect cv call' op env = Some env'"
  by (auto simp: calls_refine_def operand_effect_def split: if_splits bind_splits)

lemma operands_effect_refine:
  "calls_refine call call' \<Longrightarrow> operands_effect cv call ops env = Some env' \<Longrightarrow>
     operands_effect cv call' ops env = Some env'"
  by (induction ops arbitrary: env) (auto dest: operand_effect_refine split: bind_splits)

lemma rule_effect_refine:
  assumes "calls_refine call call'" and "rule_effect cv call r env = Some env'"
  shows "rule_effect cv call' r env = Some env'"
proof (cases "is_error_rule r")
  case False
  with assms(2) obtain nts env1 where nts: "get_nt_names_from_ii r = Inr nts"
    and one: "call_all call nts env = Some env1" "operands_effect cv call (nr_operands r) env1 = Some env'"
    by (auto simp: rule_effect_def split: sum.splits bind_splits)
  show ?thesis
    using False nts call_all_refine [OF assms(1) one(1)] operands_effect_refine [OF assms(1) one(2)]
    by (simp add: rule_effect_def)
qed (use assms in \<open>simp add: rule_effect_def\<close>)

lemma run_rhs_refine:
  assumes "nt_rhs_assignments r = Inr ss" "calls_refine call call'" "rule_effect cv call r env = Some env'"
  shows "map_option snd (run_stmts cv call' ss env) = Some env'"
  using rule_effect_refine [OF assms(2,3)] by (simp add: run_rhs [OF assms(1)])

lemma run_default:
  "map_option snd (run_stmts cv call (if ow then [] else [SetOp ''error'' ''XED_ERROR_GENERAL_ERROR'']) env) =
     Some (if ow then env else general_error cv env)"
  by (simp add: general_error_def)

lemma constraint_dict_new_empty:
  "constraint_dict_new {} [] all_space r = Inr ((cdict_names {})\<lparr>all_state_space := all_space, rule := Some r\<rparr>)"
  by (simp add: constraint_dict_new_def cdict_names_def Let_def)

lemma gen_cdict_unconstrained:
  assumes g: "gen_cdict all_space rules = Inr (Some cd)" and e: "(\<Union>r \<in> set rules. rule_names r) = {}"
  shows "cnames cd = []" and "rule cd = Some r \<Longrightarrow> rules = [r]"
    and "r \<in> set rules \<Longrightarrow> rule_applies env r"
proof -
  obtain css where css: "mapM (rule_constraints all_space) rules = Inr css"
    using g by (auto simp: gen_cdict_def rbind_eq_Inr)
  note len = mapM_Inr_length [OF css]
  have cns: "get_all_cnames css = {}" using get_all_cnames_rules [OF css] e by simp
  then have nil: "\<forall>c \<in> set css. c = []" by (auto simp: get_all_cnames_UN)
  then have z: "zip css rules = map (Pair []) rules"
    using len by (intro nth_equalityI) auto
  have "mapM (\<lambda>(cs, r). constraint_dict_new {} cs all_space r) (zip css rules) =
      Inr (map (\<lambda>r. (cdict_names {})\<lparr>all_state_space := all_space, rule := Some r\<rparr>) rules)"
    by (simp add: z mapM_map) (intro mapM_total constraint_dict_new_empty)
  then have un: "unite_dicts (map (\<lambda>r. (cdict_names {})\<lparr>all_state_space := all_space, rule := Some r\<rparr>) rules) {} =
      Inr (Some cd)"
    using g css cns by (simp add: gen_cdict_def Let_def)
  show "cnames cd = []" by (simp add: unite_dicts_cnames [OF un] cdict_names_def)
  show "rules = [r]" if "rule cd = Some r"
    using un that by (auto simp: unite_dicts_def cdict_names_def rbind_eq_Inr split: list.splits)
  show "rule_applies env r" if r: "r \<in> set rules"
  proof -
    from r obtain i where "i < length rules" "r = rules ! i" by (auto simp: in_set_conv_nth)
    then have "get_ii_constraints (nr_ii r) all_space = Inr (css ! i)"
      using mapM_Inr_nth [OF css] by (simp add: rule_constraints_def)
    from get_ii_constraints_Inr(3) [OF this] show ?thesis
      using e r by (force simp: rule_applies_def rule_names_iff)
  qed
qed

lemma capture_body_refine:
  assumes g: "gen_nt_capture all_space widths nt = Inr body" and ok: "nt_captured all_space widths nt"
    and calls: "calls_refine call call'" and eff: "nt_effect cv all_space widths call nt env = Some env'"
  shows "run_body cv call' body env = Some env'"
proof -
  obtain cd where cd: "gen_cdict all_space (nt_rules nt) = Inr (Some cd)"
    and fo: "gen_capture_fo (Some cd) (nt_otherwise_ok nt) widths = Inr body"
  proof -
    from g obtain c where o: "gen_cdict all_space (nt_rules nt) = Inr c"
      "gen_capture_fo c (nt_otherwise_ok nt) widths = Inr body"
      by (auto simp: gen_nt_capture_def rbind_eq_Inr)
    then have "c \<noteq> None" by (cases c) (simp_all add: gen_capture_fo_def)
    with o that show thesis by blast
  qed
  have adm: "admitted all_space widths (nt_names_of nt) env"
    using eff by (simp add: nt_effect_def split: if_splits)
  show ?thesis
  proof (cases "nt_names_of nt = {}")
    case True
    then have e: "(\<Union>r \<in> set (nt_rules nt). rule_names r) = {}" by (simp add: nt_names_of_def)
    note un = gen_cdict_unconstrained [OF cd e]
    obtain r ss where r: "rule cd = Some r" and ss: "nt_rhs_assignments r = Inr ss" and body: "body = Straight ss"
      using fo un(1) by (auto simp: gen_capture_fo_def rbind_eq_Inr split: option.splits)
    have rules: "nt_rules nt = [r]" by (rule un(2) [OF r])
    have "rule_effect cv call r env = Some env'"
      using eff un(3) [of r env] rules adm by (simp add: nt_effect_def)
    then show ?thesis using run_rhs_refine [OF ss calls] by (simp add: body)
  next
    case False
    then have ne: "(\<Union>r \<in> set (nt_rules nt). rule_names r) \<noteq> {}" by (simp add: nt_names_of_def)
    have ok': "nt_captured all_space widths \<lparr>nt_rules = nt_rules nt, nt_otherwise_ok = nt_otherwise_ok nt\<rparr>"
      using ok by (simp add: nt_captured_def)
    note lu = gen_cdict_lookup [OF cd ok' ne]
    have "cnames cd \<noteq> []" using lu(2) ne by auto
    then obtain lines cases dflt where lines: "cgen_key_lines (cnames cd) widths 0 = Inr lines"
      and cases: "switchcase_lines cd widths = Inr cases" and body: "body = KeySwitch lines cases dflt"
      and dflt: "dflt = (if nt_otherwise_ok nt then [] else [SetOp ''error'' ''XED_ERROR_GENERAL_ERROR''])"
      using fo by (auto simp: gen_capture_fo_def rbind_eq_Inr)
    let ?t = "map (view env) (cnames cd)"
    let ?key = "word_of_int (pack ?t (map (width_of widths) (cnames cd))) :: 32 word"
    have b: "bounded_by (map (view env) ns) (map (width_of widths) ns)"
      if "\<forall>n \<in> set ns. 0 \<le> view env n \<and> view env n < 2 ^ width_of widths n" for ns
      using that by (induction ns) auto
    have fits: "tuple_fits widths (cnames cd) ?t"
      unfolding tuple_fits_def using adm lu(2) by (intro b) (auto simp: admitted_def nt_names_of_def)
    have key: "key_value lines env 0 = Some ?key" and hw: "has_widths widths (cnames cd)"
      using key_lines_value [OF lines fits lu(3)] lu(4) by simp_all
    note sw = switch_dispatch [OF cases lu(1) hw lu(5) lu(4) fits, of dflt]
    have "map_of (tuple2rule cd) ?t = find (rule_applies env) (nt_rules nt)"
      using lu(6) adm by (simp add: nt_names_of_def)
    then show ?thesis
      using sw eff adm run_rhs_refine [OF _ calls, of _ _ cv env env'] run_default [of cv call' "nt_otherwise_ok nt" env, folded dflt]
      by (simp add: body key nt_effect_def split: option.splits)
  qed
qed

lemma gen_capture_functions_lookup:
  assumes "gen_capture_functions all_space widths nts = Inr fns" and "map_of nts nt = Some d" "\<not> skip_nt nt"
  shows "\<exists>body. map_of fns nt = Some body \<and> gen_nt_capture all_space widths d = Inr body"
  using assms
proof (induction nts arbitrary: fns)
  case (Cons x nts)
  obtain n e where x: "x = (n, e)" by (cases x)
  show ?case
  proof (cases "skip_nt n")
    case True
    then show ?thesis using Cons x by (auto simp: gen_capture_functions_def split: if_splits)
  next
    case False
    then obtain fo rest where "gen_nt_capture all_space widths e = Inr fo" "fns = (n, fo) # rest"
      "gen_capture_functions all_space widths nts = Inr rest"
      using Cons.prems(1) by (auto simp: gen_capture_functions_def x rbind_eq_Inr)
    then show ?thesis using Cons x by (auto split: if_splits)
  qed
qed simp

lemma capture_functions_refine:
  assumes g: "gen_capture_functions all_space widths nts = Inr fns"
    and ok: "list_all (\<lambda>(name, nt). nt_captured all_space widths nt) nts"
  shows "calls_refine (decode_nt depth cv all_space widths nts) (run_capture depth cv fns)"
proof (induction depth)
  case 0
  then show ?case by (simp add: calls_refine_def)
next
  case (Suc depth)
  show ?case
    unfolding calls_refine_def
  proof (intro allI impI)
    fix nt env env'
    assume "decode_nt (Suc depth) cv all_space widths nts nt env = Some env'"
    then obtain d where d: "map_of nts nt = Some d" "\<not> skip_nt nt"
      and eff: "nt_effect cv all_space widths (decode_nt depth cv all_space widths nts) d env = Some env'"
      by (auto split: option.splits if_splits)
    obtain body where body: "map_of fns nt = Some body" "gen_nt_capture all_space widths d = Inr body"
      using gen_capture_functions_lookup [OF g d] by blast
    have "nt_captured all_space widths d" using ok map_of_SomeD [OF d(1)] by (auto simp: list_all_iff)
    from capture_body_refine [OF body(2) this Suc eff] show "run_capture (Suc depth) cv fns nt env = Some env'"
      by (simp add: body(1))
  qed
qed

section \<open>The chain of an instruction\<close>

text \<open>The nonterminals of a pattern in order, up to the first error.\<close>

fun chain_effect ::
  "c_values \<Rightarrow> (string \<Rightarrow> operand_values \<Rightarrow> operand_values option) \<Rightarrow> string list \<Rightarrow> operand_values
     \<Rightarrow> (int option \<times> operand_values) option" where
  "chain_effect cv call [] env = Some (Some (konst cv ''XED_ERROR_NONE''), env)"
| "chain_effect cv call (nt # nts) env =
     (case call nt env of
        None \<Rightarrow> None
      | Some env \<Rightarrow> if env ''error'' \<noteq> 0 then Some (Some (env ''error''), env) else chain_effect cv call nts env)"

lemma run_chain: "run_stmts cv call (gen_capture_chain_fo nts) env = chain_effect cv call nts env"
  by (induction nts arbitrary: env) (simp_all add: gen_capture_chain_fo_def split: option.splits)

lemma run_empty_chain: "run_stmts cv call gen_empty_capture_fo env = chain_effect cv call [] env"
  by (simp add: gen_empty_capture_fo_def)

lemma capture_fn_names:
  "ns \<noteq> [] \<Longrightarrow> get_xed3_capture_chain_fn ns b \<noteq> empty_capture_fn b'"
  "get_xed3_capture_chain_fn ns b = get_xed3_capture_chain_fn ms b \<longleftrightarrow> join ''_'' ns = join ''_'' ms"
  by (auto simp: get_xed3_capture_chain_fn_def empty_capture_fn_def Let_def)

definition chain_fn :: "bool \<Rightarrow> string list \<Rightarrow> string" where
  "chain_fn b nt_names = (if nt_names = [] then empty_capture_fn b else get_xed3_capture_chain_fn nt_names b)"

text \<open>
  The two chain tables at once: \<open>f\<close> gives the names in the chain of a rule and its statements.
\<close>

definition chain_step ::
  "bool \<Rightarrow> (nt_rule \<Rightarrow> (string list \<times> capture_stmt list) res) \<Rightarrow> nt_rule \<Rightarrow> chain_tables \<Rightarrow> chain_tables res" where
  "chain_step b f r st =
     rbind (f r) (\<lambda>(nt_names, fo). Inr (add_chain b nt_names fo (i_inum (nr_ii r)) st))"

lemma chain_steps:
  "capture_chain_step = chain_step False (\<lambda>r. rbind (get_nt_names_from_ii r) (\<lambda>ns. Inr (ns, gen_capture_chain_fo ns)))"
  "op_capture_chain_step =
     chain_step True (\<lambda>r. Inr (get_op_nt_names_from_ii r, gen_ntluf_capture_chain_fo (nr_operands r)))"
  by (auto simp: fun_eq_iff capture_chain_step_def op_capture_chain_step_def chain_step_def rbind_def
      split: sum.splits)

definition chain_inv ::
  "bool \<Rightarrow> (nt_rule \<Rightarrow> (string list \<times> capture_stmt list) res) \<Rightarrow> nt_rule set \<Rightarrow> chain_tables \<Rightarrow> bool" where
  "chain_inv b f rs st \<longleftrightarrow>
     map_of (fst st) (empty_capture_fn b) = Some gen_empty_capture_fo \<and>
     (\<forall>fn fo. map_of (fst st) fn = Some fo \<longrightarrow> fn = empty_capture_fn b \<or>
       (\<exists>r \<in> rs. \<exists>ns. ns \<noteq> [] \<and> f r = Inr (ns, fo) \<and> fn = chain_fn b ns)) \<and>
     (\<forall>r \<in> rs. \<exists>ns fo. f r = Inr (ns, fo) \<and> map_of (fst st) (chain_fn b ns) \<noteq> None \<and>
        map_of (snd st) (i_inum (nr_ii r)) = Some (chain_fn b ns))"

lemma chain_step_inv:
  assumes "chain_step b f r st = Inr st'" "chain_inv b f rs st"
    and "\<forall>q \<in> rs. i_inum (nr_ii q) = i_inum (nr_ii r) \<longrightarrow> f q = f r"
  shows "chain_inv b f (insert r rs) st'"
proof -
  obtain fn_2_fo inum_2_fn where st: "st = (fn_2_fo, inum_2_fn)" by (cases st)
  obtain ns fo where f: "f r = Inr (ns, fo)"
    and st': "st' = add_chain b ns fo (i_inum (nr_ii r)) (fn_2_fo, inum_2_fn)"
    using assms(1) by (auto simp: chain_step_def rbind_eq_Inr st)
  have e: "st' = (if din (chain_fn b ns) fn_2_fo then fn_2_fo else dset (chain_fn b ns) fo fn_2_fo,
      dset (i_inum (nr_ii r)) (chain_fn b ns) inum_2_fn)"
    by (simp add: st' add_chain_def chain_fn_def Let_def)
  have d: "din (chain_fn b ns) fn_2_fo \<longleftrightarrow> map_of fn_2_fo (chain_fn b ns) \<noteq> None" by (simp add: din_def)
  have ne: "\<not> din (chain_fn b ns) fn_2_fo \<Longrightarrow> ns \<noteq> []"
    using assms(2) by (auto simp: chain_inv_def st din_def chain_fn_def [of b "[]"])
  show ?thesis
    unfolding chain_inv_def
  proof (intro conjI)
    show "map_of (fst st') (empty_capture_fn b) = Some gen_empty_capture_fo"
      using assms(2) d by (auto simp: e chain_inv_def st)
    show "\<forall>fn fo. map_of (fst st') fn = Some fo \<longrightarrow> fn = empty_capture_fn b \<or>
       (\<exists>r \<in> insert r rs. \<exists>ns. ns \<noteq> [] \<and> f r = Inr (ns, fo) \<and> fn = chain_fn b ns)"
    proof (intro allI impI)
      fix fn fo'
      assume m: "map_of (fst st') fn = Some fo'"
      show "fn = empty_capture_fn b \<or> (\<exists>r \<in> insert r rs. \<exists>ns. ns \<noteq> [] \<and> f r = Inr (ns, fo') \<and> fn = chain_fn b ns)"
      proof (cases "map_of fn_2_fo fn = Some fo'")
        case True
        then show ?thesis using assms(2) unfolding chain_inv_def st by auto
      next
        case False
        then have "fn = chain_fn b ns" "fo' = fo" "ns \<noteq> []" using m ne by (auto simp: e split: if_splits)
        then show ?thesis using f by blast
      qed
    qed
    show "\<forall>r \<in> insert r rs. \<exists>ns fo. f r = Inr (ns, fo) \<and> map_of (fst st') (chain_fn b ns) \<noteq> None \<and>
        map_of (snd st') (i_inum (nr_ii r)) = Some (chain_fn b ns)"
    proof
      fix q
      assume q: "q \<in> insert r rs"
      show "\<exists>ns fo. f q = Inr (ns, fo) \<and> map_of (fst st') (chain_fn b ns) \<noteq> None \<and>
        map_of (snd st') (i_inum (nr_ii q)) = Some (chain_fn b ns)"
      proof (cases "i_inum (nr_ii q) = i_inum (nr_ii r)")
        case True
        then have "f q = Inr (ns, fo)" using assms(3) q f by auto
        then show ?thesis using True d by (auto simp: e)
      next
        case False
        then have "q \<in> rs" using q by auto
        with False show ?thesis using assms(2) unfolding chain_inv_def st e by fastforce
      qed
    qed
  qed
qed

lemma chain_table:
  assumes "foldM (chain_step b f) rules st = Inr st'" and "chain_inv b f rs st"
    and "\<forall>q \<in> set rules \<union> rs. \<forall>r \<in> set rules. i_inum (nr_ii q) = i_inum (nr_ii r) \<longrightarrow> f q = f r"
  shows "chain_inv b f (set rules \<union> rs) st'"
  using assms
proof (induction rules arbitrary: st rs)
  case (Cons r rules)
  from Cons.prems(1) obtain st1 where one: "chain_step b f r st = Inr st1"
    and rest: "foldM (chain_step b f) rules st1 = Inr st'"
    by (auto simp: rbind_eq_Inr)
  have same: "\<forall>q \<in> rs. i_inum (nr_ii q) = i_inum (nr_ii r) \<longrightarrow> f q = f r"
    "\<forall>q \<in> set rules \<union> insert r rs. \<forall>r \<in> set rules. i_inum (nr_ii q) = i_inum (nr_ii r) \<longrightarrow> f q = f r"
    using Cons.prems(3) unfolding list.set by blast+
  from Cons.IH [OF rest chain_step_inv [OF one Cons.prems(2) same(1)] same(2)]
  show ?case by simp
qed simp

lemma lookup_table_nth:
  assumes "lookup_table d = Inr lu" and "map_of d k = Some fn" and "0 \<le> k"
  shows "nat k < length lu \<and> lu ! nat k = Some fn"
proof -
  have "k \<in> set (dkeys d)" using assms(2) map_of_None_keys [of d k] by simp
  then have "k \<le> Max (set (dkeys d))" by (intro Max_ge) auto
  with assms show ?thesis by (auto simp: lookup_table_def nth_upto split: if_splits)
qed

text \<open>
  Patterns with one number are copies of one instruction (an instruction with a register in its opcode byte
  has a pattern per register), and two instructions whose chain functions have one name need one function.
\<close>

definition chains_ok :: "(nt_rule \<Rightarrow> (string list \<times> capture_stmt list) res) \<Rightarrow> nt_rule list \<Rightarrow> bool" where
  "chains_ok f patterns \<longleftrightarrow>
     list_all (\<lambda>r. 0 \<le> i_inum (nr_ii r)) patterns \<and>
     list_all (\<lambda>q. list_all (\<lambda>r. i_inum (nr_ii q) = i_inum (nr_ii r) \<longrightarrow> f q = f r) patterns) patterns \<and>
     list_all (\<lambda>r. list_all (\<lambda>q. case (f r, f q) of
        (Inr (ns, fo), Inr (ms, fo')) \<Rightarrow>
          ns \<noteq> [] \<longrightarrow> ms \<noteq> [] \<longrightarrow> join ''_'' ns = join ''_'' ms \<longrightarrow> fo = fo'
      | _ \<Rightarrow> True) patterns) patterns"

lemma chain_lookup:
  assumes t: "foldM (chain_step b f) patterns ([(empty_capture_fn b, gen_empty_capture_fo)], []) = Inr (fns, i2f)"
    and lu: "lookup_table i2f = Inr lu" and ok: "chains_ok f patterns" and r: "r \<in> set patterns"
  shows "\<exists>fn ns fo. nat (i_inum (nr_ii r)) < length lu \<and> lu ! nat (i_inum (nr_ii r)) = Some fn \<and>
    f r = Inr (ns, fo) \<and> map_of fns fn = Some (if ns = [] then gen_empty_capture_fo else fo)"
proof -
  have "chain_inv b f (set patterns \<union> {}) (fns, i2f)"
  proof (rule chain_table [OF t])
    show "chain_inv b f {} ([(empty_capture_fn b, gen_empty_capture_fo)], [])" by (simp add: chain_inv_def)
    show "\<forall>q \<in> set patterns \<union> {}. \<forall>r \<in> set patterns. i_inum (nr_ii q) = i_inum (nr_ii r) \<longrightarrow> f q = f r"
      using ok unfolding chains_ok_def list_all_iff by blast
  qed
  then have inv: "chain_inv b f (set patterns) (fns, i2f)" by simp
  then obtain ns fo where f: "f r = Inr (ns, fo)" and m: "map_of fns (chain_fn b ns) \<noteq> None"
    and i: "map_of i2f (i_inum (nr_ii r)) = Some (chain_fn b ns)"
    using r unfolding chain_inv_def by force
  have "0 \<le> i_inum (nr_ii r)" using ok r by (auto simp: chains_ok_def list_all_iff)
  note l = lookup_table_nth [OF lu i this]
  have "map_of fns (chain_fn b ns) = Some (if ns = [] then gen_empty_capture_fo else fo)"
  proof (cases "ns = []")
    case True
    then show ?thesis using inv by (simp add: chain_inv_def chain_fn_def)
  next
    case False
    obtain fo' where fo': "map_of fns (chain_fn b ns) = Some fo'" using m by blast
    moreover have "chain_fn b ns \<noteq> empty_capture_fn b" using False by (simp add: chain_fn_def capture_fn_names)
    ultimately obtain q ms where q: "q \<in> set patterns" "ms \<noteq> []" "f q = Inr (ms, fo')" "chain_fn b ns = chain_fn b ms"
      using inv unfolding chain_inv_def by (metis fst_conv)
    then have "join ''_'' ns = join ''_'' ms" using False by (simp add: chain_fn_def capture_fn_names)
    then have "fo = fo'" using ok r q f False unfolding chains_ok_def list_all_iff by fastforce
    then show ?thesis using fo' False by simp
  qed
  with l f show ?thesis by blast
qed

section \<open>Properties\<close>

definition sample_decider :: "string \<Rightarrow> string \<Rightarrow> int \<Rightarrow> bit_info" where
  "sample_decider text tok req =
     \<lparr>btype = BOperand, bvalue = text, pbit = 0, btoken = Some tok, btest = Some OdEq, brequirement = Some req\<rparr>"

definition sample_call :: "string \<Rightarrow> bit_info" where
  "sample_call text =
     \<lparr>btype = BNonterminal, bvalue = text, pbit = 0, btoken = None, btest = None, brequirement = None\<rparr>"

definition sample_rule :: "int \<Rightarrow> bit_info list \<Rightarrow> operand_info list \<Rightarrow> nt_rule" where
  "sample_rule n bits ops =
     \<lparr>nr_id = nat n, nr_ii = \<lparr>i_iclass = None, i_pattern = [], i_bits = bits, i_prebindings = [], i_inum = n\<rparr>,
      nr_operands = ops\<rparr>"

definition sample_opnd :: "string \<Rightarrow> string \<Rightarrow> opnd_bits \<Rightarrow> string option \<Rightarrow> operand_info" where
  "sample_opnd nm ty bs lookupfn =
     \<lparr>oi_name = nm, oi_type = ty, oi_bits = bs, oi_rw = ''r'', oi_invert = False, oi_lookupfn_name = lookupfn,
      oi_lookupfn_name_base = None, oi_visibility = ''DEFAULT'', oi_oc2 = None, oi_cvt = [], oi_xtype = None,
      oi_internal = False, oi_multireg = 0, oi_inline = False, oi_op_widths = None, oi_element_type = None,
      oi_element_width = None, oi_bit_positions = [], oi_rightmost_bitpos = 0\<rparr>"

text \<open>
  The nonterminal \<open>R\<close> gives a register for each value of \<open>RM\<close> but 3 when \<open>REXB\<close> is 1, and \<open>B\<close> sets
  \<open>REG0\<close> to what \<open>R\<close> gives.
\<close>

definition sample_nts :: "(string, nt_rules_def) dict" where
  "sample_nts =
     [(''R'', \<lparr>nt_rules =
         [sample_rule 1 [sample_decider ''REXB=0'' ''REXB'' 0]
            [sample_opnd ''OUTREG'' ''reg'' (BitsStr ''XED_REG_EAX'') None],
          sample_rule 2 [sample_decider ''REXB=1'' ''REXB'' 1, sample_decider ''RM=2'' ''RM'' 2]
            [sample_opnd ''OUTREG'' ''reg'' (BitsStr ''XED_REG_R8D'') None]],
         nt_otherwise_ok = False\<rparr>),
      (''B'', \<lparr>nt_rules = [sample_rule 3 [] [sample_opnd ''REG0'' ''nt_lookup_fn'' NoBits (Some ''R'')]],
         nt_otherwise_ok = False\<rparr>)]"

definition sample_all :: space where
  "sample_all = [(''REXB'', [(0, True), (1, True)]), (''RM'', [(0, True), (1, True), (2, True), (3, True)])]"

definition sample_widths :: "(string, nat) dict" where
  "sample_widths = [(''RM'', 3), (''REXB'', 1)]"

definition sample_values :: c_values where
  "sample_values =
     \<lparr>konst = (\<lambda>n. if n = ''XED_REG_EAX'' then 34 else if n = ''XED_REG_R8D'' then 42
        else if n = ''XED_ERROR_GENERAL_ERROR'' then 2 else if n = ''XED_ERROR_BAD_REGISTER'' then 4 else 0),
      stored = (\<lambda>n v. v)\<rparr>"

text \<open>
  C6: Where the generated capture function of a nonterminal is called with operand values that the
  grammar admits, it selects, with its key and switch, the rule whose constraints hold, calls the
  functions of the rule's nonterminals and sets the operands of its right-hand side, and sets an
  error where no rule applies: it computes what the rules of the grammar say.
\<close>

theorem capture_functions_refine_grammar:
  assumes "gen_capture_functions all_space widths nts = Inr fns"
    and "list_all (\<lambda>(name, nt). nt_captured all_space widths nt) nts"
    and "decode_nt depth cv all_space widths nts nt env = Some env'"
  shows "run_capture depth cv fns nt env = Some env'"
  using capture_functions_refine [OF assms(1,2)] assms(3) unfolding calls_refine_def by blast

theorem capture_functions_refine_grammar_witness:
  "\<exists>fns env'. gen_capture_functions sample_all sample_widths sample_nts = Inr fns \<and>
     run_capture 2 sample_values fns ''B'' ((\<lambda>n. 0)(''rexb'' := 1, ''rm'' := 2)) = Some env' \<and> env' ''reg0'' = 42"
proof -
  have "\<not> isl (gen_capture_functions sample_all sample_widths sample_nts)" by code_simp
  then obtain fns where g: "gen_capture_functions sample_all sample_widths sample_nts = Inr fns"
    by (cases "gen_capture_functions sample_all sample_widths sample_nts") auto
  have ok: "list_all (\<lambda>(name, nt). nt_captured sample_all sample_widths nt) sample_nts" by code_simp
  let ?env = "(\<lambda>n. 0)(''rexb'' := 1, ''rm'' := 2) :: operand_values"
  have "map_option (\<lambda>e. e ''reg0'') (decode_nt 2 sample_values sample_all sample_widths sample_nts ''B'' ?env) = Some 42"
    by code_simp
  then obtain env' where d: "decode_nt 2 sample_values sample_all sample_widths sample_nts ''B'' ?env = Some env'"
    and v: "env' ''reg0'' = 42" by auto
  show ?thesis using capture_functions_refine_grammar [OF g ok d] g v by blast
qed

text \<open>
  C13: The function that the capture table holds at the number of an instruction decodes the
  nonterminals of its pattern in order, stops at the first that sets an error and returns it, and
  returns no error after the last.  Patterns with one number must be copies of one instruction, with the same
  nonterminals, as those of an instruction with a register in its opcode byte are; and function names, which
  join the names of the nonterminals, must not coincide for different chains.
\<close>

theorem capture_chain_runs_pattern:
  assumes "capture_chain_lu patterns = Inr (fns, lu)" and "r \<in> set patterns"
    and "chains_ok (\<lambda>r. rbind (get_nt_names_from_ii r) (\<lambda>ns. Inr (ns, gen_capture_chain_fo ns))) patterns"
  shows "\<exists>fn names fo. nat (i_inum (nr_ii r)) < length lu \<and> lu ! nat (i_inum (nr_ii r)) = Some fn \<and>
    get_nt_names_from_ii r = Inr names \<and> map_of fns fn = Some fo \<and>
    run_stmts cv call fo env = chain_effect cv call names env"
proof -
  obtain i2f where t: "foldM capture_chain_step patterns ([(empty_capture_fn False, gen_empty_capture_fo)], []) = Inr (fns, i2f)"
    and lu: "lookup_table i2f = Inr lu"
    using assms(1) by (auto simp: capture_chain_lu_def rbind_eq_Inr)
  obtain fn ns fo where "nat (i_inum (nr_ii r)) < length lu" "lu ! nat (i_inum (nr_ii r)) = Some fn"
    "rbind (get_nt_names_from_ii r) (\<lambda>ns. Inr (ns, gen_capture_chain_fo ns)) = Inr (ns, fo)"
    "map_of fns fn = Some (if ns = [] then gen_empty_capture_fo else fo)"
    using chain_lookup [OF t [unfolded chain_steps] lu assms(3,2)] by blast
  then show ?thesis
    by (auto simp: rbind_eq_Inr run_chain run_empty_chain)
qed

theorem capture_chain_runs_pattern_witness:
  "\<exists>fns lu fn fo. capture_chain_lu
       [sample_rule 1 [sample_call ''MODRM()'', sample_call ''SIB()''] [], sample_rule 0 [] [],
        sample_rule 1 [sample_call ''MODRM()'', sample_call ''SIB()''] []] = Inr (fns, lu) \<and>
     lu ! 1 = Some fn \<and> map_of fns fn = Some fo \<and>
     run_stmts sample_values (\<lambda>nt env. Some (env(''error'' := 3))) fo (\<lambda>n. 0) = Some (Some 3, (\<lambda>n. 0)(''error'' := 3))"
proof -
  let ?r = "sample_rule 1 [sample_call ''MODRM()'', sample_call ''SIB()''] []"
  let ?ps = "[?r, sample_rule 0 [] [], ?r]"
  have "\<not> isl (capture_chain_lu ?ps)" by code_simp
  then obtain fns lu where c: "capture_chain_lu ?ps = Inr (fns, lu)"
    by (cases "capture_chain_lu ?ps") auto
  have ok: "chains_ok (\<lambda>r. rbind (get_nt_names_from_ii r) (\<lambda>ns. Inr (ns, gen_capture_chain_fo ns))) ?ps"
    by code_simp
  have n: "get_nt_names_from_ii ?r = Inr [''MODRM'', ''SIB'']" "nat (i_inum (nr_ii ?r)) = 1" by code_simp+
  have "?r \<in> set ?ps" by simp
  from capture_chain_runs_pattern [OF c this ok, of sample_values "\<lambda>nt env. Some (env(''error'' := 3))" "\<lambda>n. 0"] c n
  show ?thesis by auto
qed

lemma op_chain_runs_operands:
  assumes "op_capture_chain_lu patterns = Inr (fns, lu)" and "r \<in> set patterns"
    and "chains_ok (\<lambda>r. Inr (get_op_nt_names_from_ii r, gen_ntluf_capture_chain_fo (nr_operands r))) patterns"
  shows "\<exists>fn fo. nat (i_inum (nr_ii r)) < length lu \<and> lu ! nat (i_inum (nr_ii r)) = Some fn \<and>
    map_of fns fn = Some fo \<and>
    run_stmts cv call fo env = run_stmts cv call (gen_ntluf_capture_chain_fo (nr_operands r)) env"
proof -
  obtain i2f where t: "foldM op_capture_chain_step patterns ([(empty_capture_fn True, gen_empty_capture_fo)], []) = Inr (fns, i2f)"
    and lu: "lookup_table i2f = Inr lu"
    using assms(1) by (auto simp: op_capture_chain_lu_def rbind_eq_Inr)
  obtain fn ns fo where l: "nat (i_inum (nr_ii r)) < length lu" "lu ! nat (i_inum (nr_ii r)) = Some fn"
    "ns = get_op_nt_names_from_ii r" "fo = gen_ntluf_capture_chain_fo (nr_operands r)"
    "map_of fns fn = Some (if ns = [] then gen_empty_capture_fo else fo)"
    using chain_lookup [OF t [unfolded chain_steps] lu assms(3,2)] by auto
  have "ntluf_statements op = []" if "op_nt_name op = []" for op
    using that by (auto simp: op_nt_name_def ntluf_statements_def split: if_splits)
  then have "ns = [] \<Longrightarrow> gen_ntluf_capture_chain_fo (nr_operands r) = [ReturnNoError]"
    by (auto simp: l(3) get_op_nt_names_from_ii_def gen_ntluf_capture_chain_fo_def)
  with l show ?thesis by (auto simp: gen_empty_capture_fo_def)
qed

section \<open>The functions return\<close>

text \<open>The calls and the shifts in a function.\<close>

fun stmt_calls :: "capture_stmt \<Rightarrow> string list" where
  "stmt_calls (CallNt nt) = [nt]"
| "stmt_calls _ = []"

fun body_stmts :: "capture_body \<Rightarrow> capture_stmt list" where
  "body_stmts (Straight ss) = ss"
| "body_stmts (KeySwitch lines cases dflt) = concat (map snd cases) @ dflt"

fun body_shifts :: "capture_body \<Rightarrow> nat list" where
  "body_shifts (Straight ss) = []"
| "body_shifts (KeySwitch lines cases dflt) = map snd lines"

lemma run_stmts_returns:
  assumes "\<And>nt env. nt \<in> set (concat (map stmt_calls ss)) \<Longrightarrow> \<exists>env'. call nt env = Some env'"
  shows "\<exists>x. run_stmts cv call ss env = Some x"
  using assms
proof (induction ss arbitrary: env)
  case (Cons s ss)
  have rest: "\<exists>x. run_stmts cv call ss env = Some x" for env
    using Cons.prems by (intro Cons.IH) auto
  show ?case
  proof (cases s)
    case (CallNt nt)
    then obtain env1 where "call nt env = Some env1" using Cons.prems [of nt env] by auto
    then show ?thesis using rest CallNt by simp
  qed (use rest in simp_all)
qed simp

lemma key_value_returns: "list_all (\<lambda>s. s < 32) (map snd lines) \<Longrightarrow> \<exists>k. key_value lines env key = Some k"
  by (induction lines env key rule: key_value.induct) auto

lemma selected_case_stmts: "set (selected_case key cases dflt) \<subseteq> set (concat (map snd cases) @ dflt)"
proof (cases "find (\<lambda>(labels, ss). list_ex (\<lambda>l. word_of_int l = key) labels) cases")
  case (Some x)
  then have "x \<in> set cases" by (metis find_Some_iff nth_mem)
  moreover obtain labels ss where "x = (labels, ss)" by (cases x)
  ultimately show ?thesis using Some by (force simp: selected_case_def)
qed (simp add: selected_case_def)

lemma run_body_returns:
  assumes calls: "\<And>nt env. nt \<in> set (concat (map stmt_calls (body_stmts body))) \<Longrightarrow> \<exists>env'. call nt env = Some env'"
    and shifts: "list_all (\<lambda>s. s < 32) (body_shifts body)"
  shows "\<exists>env'. run_body cv call body env = Some env'"
proof (cases body)
  case (Straight ss)
  then show ?thesis using run_stmts_returns [of ss call cv env] calls by fastforce
next
  case (KeySwitch lines cases dflt)
  obtain k where k: "key_value lines env 0 = Some k"
    using key_value_returns [of lines env 0] shifts by (auto simp: KeySwitch)
  have "\<exists>x. run_stmts cv call (selected_case k cases dflt) env = Some x"
  proof (rule run_stmts_returns)
    fix nt env
    assume "nt \<in> set (concat (map stmt_calls (selected_case k cases dflt)))"
    then obtain s where s: "s \<in> set (selected_case k cases dflt)" "nt \<in> set (stmt_calls s)" by auto
    then have "s \<in> set (body_stmts body)" using selected_case_stmts by (auto simp: KeySwitch simp del: set_concat)
    with s have "nt \<in> set (concat (map stmt_calls (body_stmts body)))" by auto
    then show "\<exists>env'. call nt env = Some env'" by (rule calls)
  qed
  then show ?thesis using k by (auto simp: KeySwitch)
qed

text \<open>
  The nonterminals a rule calls: those of its pattern and the lookup functions of its operands.  A grammar
  is ranked when every rule calls only nonterminals that exist, get a function, and have a lower rank.
\<close>

definition rule_calls :: "nt_rule \<Rightarrow> string list" where
  "rule_calls r =
     (if is_error_rule r then []
      else (case get_nt_names_from_ii r of Inl e \<Rightarrow> [] | Inr ns \<Rightarrow> ns) @
        map (\<lambda>op. str_or_none (oi_lookupfn_name op)) (filter is_ntluf (nr_operands r)))"

definition grammar_ranked :: "(string \<Rightarrow> nat) \<Rightarrow> (string, nt_rules_def) dict \<Rightarrow> bool" where
  "grammar_ranked rank nts \<longleftrightarrow>
     list_all (\<lambda>(name, nt). skip_nt name \<or>
       list_all (\<lambda>r. list_all (\<lambda>c. din c nts \<and> \<not> skip_nt c \<and> rank c < rank name) (rule_calls r)) (nt_rules nt)) nts"

text \<open>The key of a nonterminal has 32 bits.\<close>

definition key_fits :: "(string, nat) dict \<Rightarrow> nt_rules_def \<Rightarrow> bool" where
  "key_fits widths nt \<longleftrightarrow>
     (\<forall>n \<in> nt_names_of nt. 0 < width_of widths n) \<and>
     sum_list (map (width_of widths) (sorted_list_of_set (nt_names_of nt))) \<le> 32"

lemma rhs_calls:
  assumes "nt_rhs_assignments r = Inr ss"
  shows "set (concat (map stmt_calls ss)) \<subseteq> set (rule_calls r)"
proof (cases "is_error_rule r")
  case True
  with assms show ?thesis by (auto simp: nt_rhs_assignments_def)
next
  case False
  with assms obtain nts where nts: "get_pattern_nts r = Inr nts"
    and ss: "ss = map (\<lambda>nt. CallNt (str_or_none nt)) nts @ concat (map operand_assignments (nr_operands r)) @ [Pacify]"
    by (auto simp: nt_rhs_assignments_def rbind_eq_Inr)
  have ops: "n \<in> set (map (\<lambda>op. str_or_none (oi_lookupfn_name op)) (filter is_ntluf (nr_operands r)))"
    if "op \<in> set (nr_operands r)" "s \<in> set (operand_assignments op)" "n \<in> set (stmt_calls s)" for op s n
    using that by (force simp: operand_assignments_def is_ntluf_def split: if_splits)
  show ?thesis
    using False pattern_nts_names [OF nts] ops unfolding ss rule_calls_def by auto
qed

lemma key_shifts:
  assumes "cgen_key_lines names widths shift = Inr lines"
    and "\<forall>n \<in> set names. 0 < width_of widths n" "shift + sum_list (map (width_of widths) names) \<le> 32"
  shows "list_all (\<lambda>s. s < 32) (map snd lines)"
  using assms
proof (induction names arbitrary: shift lines)
  case (Cons n names)
  then obtain w rest where w: "map_of widths n = Some w"
    and rest: "cgen_key_lines names widths (shift + w) = Inr rest" and lines: "lines = (n, shift) # rest"
    by (auto simp: rbind_eq_Inr)
  have "width_of widths n = w" using w by (simp add: width_of_def dget_default_def)
  then show ?case using Cons.IH [OF rest] Cons.prems by (simp add: lines)
qed simp

lemma switchcase_rules:
  assumes "switchcase_lines cd widths = Inr cases" and "(labels, ss) \<in> set cases"
  shows "\<exists>t r. map_of (tuple2rule cd) t = Some r \<and> nt_rhs_assignments r = Inr ss"
proof -
  let ?I = "\<lambda>st. \<forall>(labels, ss) \<in> set (fst st). \<exists>t r. map_of (tuple2rule cd) t = Some r \<and> nt_rhs_assignments r = Inr ss"
  obtain key2int int2key covered
    where c: "foldM (case_of_key cd key2int int2key) (sort (dkeys int2key)) ([], []) = Inr (cases, covered)"
    using assms(1) by (auto simp: switchcase_lines_def rbind_eq_Inr)
  have "?I (cases, covered)"
  proof (rule foldM_invariant [OF c])
    fix k s t
    assume "?I s" "case_of_key cd key2int int2key k s = Inr t"
    then show "?I t"
      by (cases s) (force simp: case_of_key_def rbind_eq_Inr split: if_splits)
  qed simp
  with assms(2) show ?thesis by auto
qed

text \<open>The statements of a capture function are those of rules of its nonterminal.\<close>

lemma capture_fo_calls:
  assumes g: "gen_nt_capture all_space widths nt = Inr body" and k: "key_fits widths nt"
  shows "list_all (\<lambda>s. s < 32) (body_shifts body)"
    and "c \<in> set (concat (map stmt_calls (body_stmts body))) \<Longrightarrow> \<exists>r \<in> set (nt_rules nt). c \<in> set (rule_calls r)"
proof -
  obtain cd where cd: "gen_cdict all_space (nt_rules nt) = Inr (Some cd)"
    and fo: "gen_capture_fo (Some cd) (nt_otherwise_ok nt) widths = Inr body"
  proof -
    from g obtain d where o: "gen_cdict all_space (nt_rules nt) = Inr d"
      "gen_capture_fo d (nt_otherwise_ok nt) widths = Inr body"
      by (auto simp: gen_nt_capture_def rbind_eq_Inr)
    then have "d \<noteq> None" by (cases d) (simp_all add: gen_capture_fo_def)
    with o that show thesis by blast
  qed
  obtain css where css: "mapM (rule_constraints all_space) (nt_rules nt) = Inr css"
    using cd by (auto simp: gen_cdict_def rbind_eq_Inr)
  have cns: "get_all_cnames css = nt_names_of nt" by (simp add: get_all_cnames_rules [OF css] nt_names_of_def)
  obtain cds where cds: "mapM (\<lambda>(cs, r). constraint_dict_new (nt_names_of nt) cs all_space r) (zip css (nt_rules nt)) = Inr cds"
    and un: "unite_dicts cds (nt_names_of nt) = Inr (Some cd)"
    using cd css by (auto simp: gen_cdict_def rbind_eq_Inr Let_def cns)
  have one: "cnames d = sorted_list_of_set (nt_names_of nt) \<and> values_in (set (nt_rules nt)) (tuple2rule d)"
    if d: "d \<in> set cds" for d
  proof -
    obtain i where i: "i < length cds" "d = cds ! i" using d by (metis in_set_conv_nth)
    then have len: "i < length (zip css (nt_rules nt))" using mapM_Inr_length [OF cds] by simp
    then have new: "constraint_dict_new (nt_names_of nt) (css ! i) all_space (nt_rules nt ! i) = Inr d"
      using mapM_Inr_nth [OF cds len] i by simp
    have "nt_rules nt ! i \<in> set (nt_rules nt)" using len by simp
    then have "values_in (set (nt_rules nt)) (tuple2rule d)"
      using constraint_dict_new_values [OF new] by (auto simp: values_in_def split: if_splits)
    with constraint_dict_new_cnames [OF new] show ?thesis by blast
  qed
  have names: "cnames cd = sorted_list_of_set (nt_names_of nt)" using unite_dicts_cnames [OF un] one by blast
  have vals: "values_in (set (nt_rules nt)) (tuple2rule cd)" using unite_dicts_values [OF un] one by blast
  have fin: "finite (nt_names_of nt)" using cns by (simp add: get_all_cnames_def flip: cns)
  show "list_all (\<lambda>s. s < 32) (body_shifts body)"
    using fo k fin key_shifts [of "cnames cd" widths 0]
    by (auto simp: gen_capture_fo_def rbind_eq_Inr names key_fits_def split: if_splits option.splits)
  show "\<exists>r \<in> set (nt_rules nt). c \<in> set (rule_calls r)" if c: "c \<in> set (concat (map stmt_calls (body_stmts body)))"
  proof (cases "cnames cd = []")
    case True
    then have "(\<Union>r \<in> set (nt_rules nt). rule_names r) = {}" using names fin by (simp add: nt_names_of_def)
    note un = gen_cdict_unconstrained(2) [OF cd this]
    obtain r ss where r: "rule cd = Some r" "nt_rhs_assignments r = Inr ss" "body = Straight ss"
      using fo True by (auto simp: gen_capture_fo_def rbind_eq_Inr split: option.splits)
    then show ?thesis using un [OF r(1)] rhs_calls [OF r(2)] c by auto
  next
    case False
    then obtain lines cases where cases: "switchcase_lines cd widths = Inr cases"
      and body: "body = KeySwitch lines cases
        (if nt_otherwise_ok nt then [] else [SetOp ''error'' ''XED_ERROR_GENERAL_ERROR''])"
      using fo by (auto simp: gen_capture_fo_def rbind_eq_Inr)
    then have "\<exists>x \<in> set cases. c \<in> set (concat (map stmt_calls (snd x)))" using c by (fastforce split: if_splits)
    then obtain labels ss where ls: "(labels, ss) \<in> set cases" and c': "c \<in> set (concat (map stmt_calls ss))"
      by (metis prod.collapse)
    obtain t r where r: "map_of (tuple2rule cd) t = Some r" "nt_rhs_assignments r = Inr ss"
      using switchcase_rules [OF cases ls] by blast
    then have "r \<in> set (nt_rules nt)" using vals by (simp add: values_in_def)
    moreover have "c \<in> set (rule_calls r)" by (rule subsetD [OF rhs_calls [OF r(2)] c'])
    ultimately show ?thesis ..
  qed
qed

lemma gen_capture_functions_body:
  assumes "gen_capture_functions all_space widths nts = Inr fns" and "(name, body) \<in> set fns"
  shows "\<exists>d. (name, d) \<in> set nts \<and> \<not> skip_nt name \<and> gen_nt_capture all_space widths d = Inr body"
proof -
  let ?nts = "filter (\<lambda>(nt_name, nt). \<not> skip_nt nt_name) nts"
  have m: "mapM (\<lambda>(nt_name, nt). rbind (gen_nt_capture all_space widths nt) (\<lambda>fo. Inr (nt_name, fo))) ?nts = Inr fns"
    using assms(1) by (simp add: gen_capture_functions_def)
  obtain i where i: "i < length ?nts" "fns ! i = (name, body)"
    using assms(2) mapM_Inr_length [OF m] by (metis in_set_conv_nth)
  obtain n d where nd: "?nts ! i = (n, d)" by (cases "?nts ! i")
  have "(n, d) \<in> set ?nts" using i(1) nd by (metis nth_mem)
  then show ?thesis using mapM_Inr_nth [OF m i(1)] i(2) nd by (auto simp: rbind_eq_Inr)
qed

text \<open>
  C12: the generated capture functions return.  In a grammar whose nonterminals are ranked (a rule calls
  only nonterminals of a lower rank) and whose keys have 32 bits, a call of the function generated for a
  nonterminal returns within one level of calls more than the rank of the nonterminal, on every operand
  storage, whether or not a rule applies to it.
\<close>

theorem capture_functions_return:
  assumes g: "gen_capture_functions all_space widths nts = Inr fns"
    and rank: "grammar_ranked rank nts" and keys: "list_all (\<lambda>(name, nt). key_fits widths nt) nts"
    and "din nt nts" "\<not> skip_nt nt" "rank nt < depth"
  shows "\<exists>env'. run_capture depth cv fns nt env = Some env'"
  using assms(4-6)
proof (induction depth arbitrary: nt env)
  case (Suc depth)
  then obtain d where "map_of nts nt = Some d" by (auto simp: din_def)
  then obtain body where b: "map_of fns nt = Some body"
    using gen_capture_functions_lookup [OF g _ Suc.prems(2)] by blast
  obtain e where e: "(nt, e) \<in> set nts" "gen_nt_capture all_space widths e = Inr body"
    using gen_capture_functions_body [OF g map_of_SomeD [OF b]] by blast
  have k: "key_fits widths e" using keys e(1) by (auto simp: list_all_iff)
  have c: "din m nts \<and> \<not> skip_nt m \<and> rank m < depth"
    if m: "m \<in> set (concat (map stmt_calls (body_stmts body)))" for m
  proof -
    obtain r where "r \<in> set (nt_rules e)" "m \<in> set (rule_calls r)" using capture_fo_calls(2) [OF e(2) k m] by blast
    then have "din m nts \<and> \<not> skip_nt m \<and> rank m < rank nt"
      using rank e(1) Suc.prems(2) unfolding grammar_ranked_def list_all_iff by fastforce
    then show ?thesis using Suc.prems(3) by simp
  qed
  have "\<exists>env'. run_body cv (run_capture depth cv fns) body env = Some env'"
  proof (rule run_body_returns [OF _ capture_fo_calls(1) [OF e(2) k]])
    fix m env
    assume "m \<in> set (concat (map stmt_calls (body_stmts body)))"
    then show "\<exists>env'. run_capture depth cv fns m env = Some env'" using Suc.IH c by blast
  qed
  then show ?case using b by simp
qed simp

theorem capture_functions_return_witness:
  "\<exists>fns. gen_capture_functions sample_all sample_widths sample_nts = Inr fns \<and>
     (\<exists>env'. run_capture 2 sample_values fns ''B'' (\<lambda>n. 7) = Some env')"
proof -
  let ?rank = "\<lambda>n. if n = ''B'' then 1 else (0::nat)"
  have "\<not> isl (gen_capture_functions sample_all sample_widths sample_nts)" by code_simp
  then obtain fns where g: "gen_capture_functions sample_all sample_widths sample_nts = Inr fns"
    by (cases "gen_capture_functions sample_all sample_widths sample_nts") auto
  have r: "grammar_ranked ?rank sample_nts" "list_all (\<lambda>(name, nt). key_fits sample_widths nt) sample_nts"
    "din ''B'' sample_nts" "\<not> skip_nt ''B''" by code_simp+
  show ?thesis using capture_functions_return [OF g r, of 2 sample_values "\<lambda>n. 7"] g by auto
qed

end
