(* ===== verification/Ild_Lookup_Exact.thy ===== *)
theory Ild_Lookup_Exact
  imports Ild_Lookup Capture_Refine
begin

text \<open>
  What the lookup functions of \<open>Ild_Lookup\<close> return: the rows of a rule are the values of the operands
  at which its deciders hold, the dictionary of a nonterminal gives the value of its last rule that
  holds, a sequence overrides the rows of its first nonterminal, and the array made from them is
  filled and read at exactly these rows.
\<close>

section \<open>The rows of a rule\<close>

definition agrees :: "(string \<Rightarrow> int) \<Rightarrow> index_row \<Rightarrow> bool" where
  "agrees env r \<longleftrightarrow> (\<forall>(k, v) \<in> set r. env k = v)"

definition rule_holds :: "(string \<Rightarrow> int) \<Rightarrow> nt_rule \<Rightarrow> bool" where
  "rule_holds env r \<longleftrightarrow> (\<forall>bt \<in> set (i_bits (nr_ii r)). is_operand_decider bt \<longrightarrow> od_holds env bt)"

text \<open>The values that an indices entry lets through, and the deciders of a rule as such entries.\<close>

definition entry_of :: "(string, int list) dict \<Rightarrow> bit_info \<Rightarrow> int entry" where
  "entry_of sp bt =
     (if btest bt = Some OdEq then Scalar (the (brequirement bt))
      else Sublist (filter (\<lambda>x. x \<noteq> the (brequirement bt)) (the (map_of sp (the (btoken bt))))))"

lemma index_bit_Inr:
  assumes "index_bit sp bt d = Inr d'"
  shows "d' = (if is_operand_decider bt then dset (the (btoken bt)) (entry_of sp bt) d else d)"
    and "is_operand_decider bt \<Longrightarrow> btoken bt \<noteq> None \<and> btest bt \<noteq> None \<and> brequirement bt \<noteq> None"
    and "is_operand_decider bt \<Longrightarrow> btest bt = Some OdNe \<Longrightarrow> din (the (btoken bt)) sp"
  using assms
  by (auto simp: index_bit_def entry_of_def rbind_eq_Inr din_def split: if_splits option.splits od_test.splits)

lemma index_bits_Inr:
  assumes "foldM (index_bit sp) bits d = Inr d'"
    and "distinct (map (\<lambda>bt. the (btoken bt)) (filter is_operand_decider bits))" and "dict_ok d"
    and "set (map (\<lambda>bt. the (btoken bt)) (filter is_operand_decider bits)) \<inter> set (dkeys d) = {}"
  shows "d' = d @ map (\<lambda>bt. (the (btoken bt), entry_of sp bt)) (filter is_operand_decider bits)"
  using assms
proof (induction bits arbitrary: d)
  case (Cons bt bits)
  then obtain d1 where one: "index_bit sp bt d = Inr d1" and rest: "foldM (index_bit sp) bits d1 = Inr d'"
    by (auto simp: rbind_eq_Inr)
  show ?case
  proof (cases "is_operand_decider bt")
    case True
    then have d1: "d1 = d @ [(the (btoken bt), entry_of sp bt)]"
      using index_bit_Inr(1) [OF one] Cons.prems(4) by (simp add: dset_new)
    have "d' = d1 @ map (\<lambda>bt. (the (btoken bt), entry_of sp bt)) (filter is_operand_decider bits)"
      using Cons.prems True by (intro Cons.IH [OF rest]) (auto simp: d1 dict_ok_def)
    then show ?thesis using True by (simp add: d1)
  next
    case False
    then show ?thesis using Cons.IH [OF rest] Cons.prems index_bit_Inr(1) [OF one] by simp
  qed
qed simp

lemma index_bits_full:
  assumes "foldM (index_bit sp) bits d = Inr d'" "bt \<in> set bits" "is_operand_decider bt"
  shows "btoken bt \<noteq> None \<and> btest bt \<noteq> None \<and> brequirement bt \<noteq> None \<and>
    (btest bt = Some OdNe \<longrightarrow> din (the (btoken bt)) sp)"
  using assms
proof (induction bits arbitrary: d)
  case (Cons b bits)
  then obtain d1 where one: "index_bit sp b d = Inr d1" and rest: "foldM (index_bit sp) bits d1 = Inr d'"
    by (auto simp: rbind_eq_Inr)
  show ?case using Cons.IH [OF rest] Cons.prems index_bit_Inr(2,3) [OF one] by auto
qed simp

lemma dict_ok_append: "dict_ok (d @ e) \<longleftrightarrow> dict_ok d \<and> dict_ok e \<and> set (dkeys d) \<inter> set (dkeys e) = {}"
  by (auto simp: dict_ok_def)

definition sublists :: "space \<Rightarrow> (string, int entry) dict" where
  "sublists sp = map (\<lambda>(k, vs). (k, Sublist (dkeys vs))) sp"

lemma dkeys_sublists [simp]: "dkeys (sublists sp) = dkeys sp"
  by (auto simp: sublists_def)

lemma set_sublists: "(k, e) \<in> set (sublists sp) \<longleftrightarrow> (\<exists>vs. (k, vs) \<in> set sp \<and> e = Sublist (dkeys vs))"
  by (auto simp: sublists_def)

lemma sublists_simps [simp]: "sublists [] = []" "sublists ((k, vs) # sp) = (k, Sublist (dkeys vs)) # sublists sp"
  by (simp_all add: sublists_def)

lemma add_missing_eq:
  assumes "dict_ok d" "dict_ok argnames"
  shows "fold add_missing_index argnames d =
    d @ sublists (filter (\<lambda>(k, vs). \<not> din k d) argnames)"
  using assms
proof (induction argnames arbitrary: d)
  case (Cons a argnames)
  obtain k vs where a: "a = (k, vs)" by (cases a)
  have ok: "dict_ok argnames" using Cons.prems(2) by (simp add: dict_ok_def)
  show ?case
  proof (cases "din k d")
    case True
    then show ?thesis using Cons.IH [OF Cons.prems(1) ok] by (simp add: a add_missing_index_def)
  next
    case False
    then have d: "add_missing_index a d = d @ [(k, Sublist (dkeys vs))]"
      by (simp add: a add_missing_index_def dset_new din_iff)
    have "dict_ok (d @ [(k, Sublist (dkeys vs))])" using Cons.prems(1) False by (auto simp: dict_ok_def din_def map_of_eq_None_iff)
    note ih = Cons.IH [OF this ok]
    have "filter (\<lambda>(j, vs'). \<not> din j (d @ [(k, Sublist (dkeys vs))])) argnames = filter (\<lambda>(j, vs'). \<not> din j d) argnames"
      using Cons.prems(2) by (intro filter_cong) (force simp: a din_iff dict_ok_def)+
    with ih False show ?thesis unfolding a [symmetric] by (simp add: d) (simp add: a)
  qed
qed simp

lemma zip_agrees:
  "length vs = length ks \<Longrightarrow> agrees env (zip ks vs) \<longleftrightarrow> vs = map env ks"
  by (induction vs ks rule: list_induct2) (auto simp: agrees_def)

lemma choice_rows:
  "vs \<in> set (product_lists (map choices (dvals d))) \<Longrightarrow> (k, v) \<in> set (zip (dkeys d) vs) \<Longrightarrow>
     \<exists>e. (k, e) \<in> set d \<and> v \<in> set (choices e)"
proof (induction d arbitrary: vs)
  case (Cons a d)
  then obtain w ws where ws: "vs = w # ws" "w \<in> set (choices (snd a))" "ws \<in> set (product_lists (map choices (dvals d)))"
    by (auto simp: product_lists_set list_all2_Cons2)
  with Cons.prems(2) Cons.IH [OF ws(3)] show ?case by (cases a) auto
qed simp

lemma choice_env:
  "map env (dkeys d) \<in> set (product_lists (map choices (dvals d))) \<longleftrightarrow>
     (\<forall>(k, e) \<in> set d. env k \<in> set (choices e))"
  by (induction d) (auto simp: product_lists_set)

lemma choice_agrees:
  "(\<exists>row \<in> set (map (zip (dkeys d)) (product_lists (map choices (dvals d)))). agrees env row) \<longleftrightarrow>
     (\<forall>(k, e) \<in> set d. env k \<in> set (choices e))"
proof -
  have "agrees env (zip (dkeys d) vs) \<longleftrightarrow> vs = map env (dkeys d)"
    if "vs \<in> set (product_lists (map choices (dvals d)))" for vs
    using that by (intro zip_agrees) (auto simp: product_lists_set dest: list_all2_lengthD)
  then show ?thesis unfolding choice_env [symmetric] by auto
qed

text \<open>The state space has the values of the deciders, and the operands have admitted values.\<close>

definition env_admitted :: "(string, int list) dict \<Rightarrow> space \<Rightarrow> (string \<Rightarrow> int) \<Rightarrow> bool" where
  "env_admitted sp argnames env \<longleftrightarrow>
     list_all (\<lambda>(k, vs). env k \<in> set (dkeys vs)) argnames \<and> list_all (\<lambda>(k, vs). env k \<in> set vs) sp"

definition decider_tokens :: "nt_rule \<Rightarrow> string list" where
  "decider_tokens r = map (\<lambda>bt. the (btoken bt)) (filter is_operand_decider (i_bits (nr_ii r)))"

definition own_entries :: "(string, int list) dict \<Rightarrow> nt_rule \<Rightarrow> (string, int entry) dict" where
  "own_entries sp r =
     map (\<lambda>bt. (the (btoken bt), entry_of sp bt)) (filter is_operand_decider (i_bits (nr_ii r)))"

lemma dkeys_own [simp]: "dkeys (own_entries sp r) = decider_tokens r"
  by (simp add: own_entries_def decider_tokens_def)

lemma set_own: "(k, e) \<in> set (own_entries sp r) \<longleftrightarrow>
    (\<exists>bt \<in> set (i_bits (nr_ii r)). is_operand_decider bt \<and> the (btoken bt) = k \<and> e = entry_of sp bt)"
  by (auto simp: own_entries_def)

lemma rule_rows:
  assumes g: "generate_lookup_function_indices (i_bits (nr_ii r)) sp argnames = Inr rows"
    and once: "distinct (decider_tokens r)" and ok: "dict_ok argnames"
  shows "\<forall>row \<in> set rows. dict_ok row \<and> set (dkeys row) = set (decider_tokens r) \<union> set (dkeys argnames) \<and>
      (\<forall>(k, v) \<in> set row. (\<exists>bt \<in> set (i_bits (nr_ii r)). is_operand_decider bt \<and> the (btoken bt) = k \<and>
         v \<in> set (choices (entry_of sp bt))) \<or> (k \<notin> set (decider_tokens r) \<and> v \<in> cvals argnames k))"
    and "env_admitted sp argnames env \<Longrightarrow> (\<exists>row \<in> set rows. agrees env row) \<longleftrightarrow> rule_holds env r"
proof -
  let ?bits = "i_bits (nr_ii r)" and ?own = "own_entries sp r"
  let ?rest = "filter (\<lambda>(k, vs). \<not> din k ?own) argnames"
  let ?d = "?own @ sublists ?rest"
  obtain d where d: "foldM (index_bit sp) ?bits [] = Inr d"
    and f: "flatten_dict (fold add_missing_index argnames d) = Inr rows"
    using g by (auto simp: generate_lookup_function_indices_def rbind_eq_Inr)
  have own: "d = ?own" using index_bits_Inr [OF d] once by (simp add: decider_tokens_def own_entries_def)
  have okown: "dict_ok ?own" using once by (simp add: dict_ok_def del: set_map)
  have all: "fold add_missing_index argnames d = ?d" unfolding own by (rule add_missing_eq [OF okown ok])
  have dinown: "din k ?own \<longleftrightarrow> k \<in> set (decider_tokens r)" for k by (simp add: din_dkeys del: set_map)
  have okd: "dict_ok ?d"
  proof -
    have "dict_ok ?rest" using ok by (simp add: dict_ok_def distinct_map inj_on_def)
    then have "dict_ok (sublists ?rest)" by (simp add: dict_ok_def)
    moreover have "set (dkeys ?own) \<inter> set (dkeys (sublists ?rest)) = {}"
      unfolding dkeys_sublists dkeys_own dinown by auto
    ultimately show ?thesis using okown by (simp only: dict_ok_append simp_thms)
  qed
  have rows: "rows = map (zip (dkeys ?d)) (product_lists (map choices (dvals ?d)))"
    using f flatten_dict_eq [OF okd] unfolding all by simp
  have len: "length vs = length ?d" if "vs \<in> set (product_lists (map choices (dvals ?d)))" for vs
    using that by (auto simp: product_lists_set dest: list_all2_lengthD)
  have kd: "set (dkeys ?d) = set (decider_tokens r) \<union> set (dkeys argnames)"
    unfolding map_append set_append dkeys_sublists dkeys_own dinown by auto
  have tok: "(\<exists>bt \<in> set ?bits. is_operand_decider bt \<and> the (btoken bt) = k \<and> e = entry_of sp bt) \<or>
      (k \<notin> set (decider_tokens r) \<and> (\<exists>vs. (k, vs) \<in> set argnames \<and> e = Sublist (dkeys vs)))"
    if "(k, e) \<in> set ?d" for k e
    using that unfolding set_append Un_iff set_own set_sublists dinown by auto
  show "\<forall>row \<in> set rows. dict_ok row \<and> set (dkeys row) = set (decider_tokens r) \<union> set (dkeys argnames) \<and>
      (\<forall>(k, v) \<in> set row. (\<exists>bt \<in> set (i_bits (nr_ii r)). is_operand_decider bt \<and> the (btoken bt) = k \<and>
         v \<in> set (choices (entry_of sp bt))) \<or> (k \<notin> set (decider_tokens r) \<and> v \<in> cvals argnames k))"
  proof
    fix row
    assume "row \<in> set rows"
    then obtain vs where vs: "vs \<in> set (product_lists (map choices (dvals ?d)))" and row: "row = zip (dkeys ?d) vs"
      unfolding rows by auto
    have k: "dkeys row = dkeys ?d" using len [OF vs] unfolding row by (intro map_fst_zip) (simp only: length_map)
    have v: "(\<exists>bt \<in> set ?bits. is_operand_decider bt \<and> the (btoken bt) = k \<and> v \<in> set (choices (entry_of sp bt))) \<or>
        (k \<notin> set (decider_tokens r) \<and> v \<in> cvals argnames k)" if "(k, v) \<in> set row" for k v
    proof -
      obtain e where e: "(k, e) \<in> set ?d" "v \<in> set (choices e)" using choice_rows [OF vs] \<open>(k, v) \<in> set row\<close> row by blast
      have "cvals argnames k = set (dkeys ws)" if "(k, ws) \<in> set argnames" for ws
        using that dict_ok_map_of_iff [OF ok, of k ws] by (simp add: dget_default_def)
      with tok [OF e(1)] e(2) show ?thesis by (auto simp del: set_map)
    qed
    show "dict_ok row \<and> set (dkeys row) = set (decider_tokens r) \<union> set (dkeys argnames) \<and>
      (\<forall>(k, v) \<in> set row. (\<exists>bt \<in> set (i_bits (nr_ii r)). is_operand_decider bt \<and> the (btoken bt) = k \<and>
         v \<in> set (choices (entry_of sp bt))) \<or> (k \<notin> set (decider_tokens r) \<and> v \<in> cvals argnames k))"
    proof (intro conjI)
      show "dict_ok row" using okd unfolding dict_ok_def k .
      show "set (dkeys row) = set (decider_tokens r) \<union> set (dkeys argnames)" unfolding k by (rule kd)
    qed (use v in blast)
  qed
  show "(\<exists>row \<in> set rows. agrees env row) \<longleftrightarrow> rule_holds env r" if adm: "env_admitted sp argnames env"
  proof -
    have "(\<exists>row \<in> set rows. agrees env row) \<longleftrightarrow> (\<forall>(k, e) \<in> set ?d. env k \<in> set (choices e))"
      unfolding rows by (rule choice_agrees)
    also have "\<dots> \<longleftrightarrow> (\<forall>(k, e) \<in> set ?own. env k \<in> set (choices e))"
      unfolding set_append using adm
      by (fastforce simp: set_sublists env_admitted_def list_all_iff simp del: set_map)
    also have "\<dots> \<longleftrightarrow> rule_holds env r"
    proof -
      have "env (the (btoken bt)) \<in> set (choices (entry_of sp bt)) \<longleftrightarrow> od_holds env bt"
        if bt: "bt \<in> set ?bits" "is_operand_decider bt" for bt
      proof -
        note ib = index_bits_full [OF d bt]
        have "btest bt = Some OdNe \<Longrightarrow> env (the (btoken bt)) \<in> set (the (map_of sp (the (btoken bt))))"
          using ib adm by (fastforce simp: din_def env_admitted_def list_all_iff dest: map_of_SomeD)
        then show ?thesis using ib
          by (cases "the (btest bt)") (auto simp: entry_of_def od_holds_def split: option.splits od_test.splits)
      qed
      moreover have "(\<forall>(k, e) \<in> set ?own. env k \<in> set (choices e)) \<longleftrightarrow>
          (\<forall>bt \<in> set ?bits. is_operand_decider bt \<longrightarrow> env (the (btoken bt)) \<in> set (choices (entry_of sp bt)))"
        by (auto simp: own_entries_def)
      ultimately show ?thesis unfolding rule_holds_def by blast
    qed
    finally show ?thesis .
  qed
qed

section \<open>The mapping of a nonterminal\<close>

text \<open>The value a rule binds, and the value of the last rule that holds.\<close>

definition rule_output :: "lookup_ctx \<Rightarrow> string \<Rightarrow> nt_rule \<Rightarrow> string option res" where
  "rule_output agi target_opname r =
     (case find (\<lambda>op. is_target_op agi op target_opname) (nr_operands r) of
        None \<Rightarrow> Inr None
      | Some op \<Rightarrow> rbind (expand_target_op agi target_opname op) (\<lambda>op.
          rbind (row_output op) (\<lambda>v. Inr (Some v))))"

definition last_binding :: "lookup_ctx \<Rightarrow> string \<Rightarrow> (string \<Rightarrow> int) \<Rightarrow> nt_rule list \<Rightarrow> string option" where
  "last_binding agi target_opname env rules =
     first_some (\<lambda>r. if rule_holds env r
                     then (case rule_output agi target_opname r of Inl e \<Rightarrow> None | Inr v \<Rightarrow> v) else None)
       (rev rules)"

lemma first_some_append:
  "first_some f (xs @ ys) = (case first_some f xs of None \<Rightarrow> first_some f ys | Some v \<Rightarrow> Some v)"
  by (induction xs) (auto split: option.splits)

lemma last_binding_append:
  "last_binding agi t env (xs @ ys) =
     (case last_binding agi t env ys of None \<Rightarrow> last_binding agi t env xs | Some v \<Rightarrow> Some v)"
  by (simp add: last_binding_def first_some_append split: option.split)

lemma lookup_row_Inr:
  assumes "lookup_row agi t argnames r vals = Inr vals'"
  shows "(rule_output agi t r = Inr None \<and> vals' = vals) \<or>
    (\<exists>v rows. rule_output agi t r = Inr (Some v) \<and> vals' = vals @ [(rows, v)] \<and>
      generate_lookup_function_indices (i_bits (nr_ii r)) (lc_state_space agi) argnames = Inr rows)"
  using assms by (auto simp: lookup_row_def rule_output_def rbind_eq_Inr split: option.splits)

lemma flat_append: "flat (xs @ ys) = flat xs @ flat ys"
  by (simp add: flat_def)

lemma flat_entry: "flat [(rows, v)] = map (\<lambda>r. (r, v)) rows"
  by (simp add: flat_def)

lemma last_value_const:
  "last_value P (map (\<lambda>r. (r, v)) rows) = (if \<exists>r \<in> set rows. P r then Some v else None)"
  by (induction rows rule: rev_induct) auto

lemma lookup_rows_value:
  assumes "foldM (lookup_row agi t argnames) rules vals = Inr vals'"
    and ok: "dict_ok argnames" and once: "\<forall>r \<in> set rules. distinct (decider_tokens r)"
    and adm: "env_admitted (lc_state_space agi) argnames env"
  shows "last_value (agrees env) (flat vals') =
    (case last_binding agi t env rules of None \<Rightarrow> last_value (agrees env) (flat vals) | Some v \<Rightarrow> Some v)"
  using assms(1) once
proof (induction rules arbitrary: vals)
  case Nil
  then show ?case by (simp add: last_binding_def)
next
  case (Cons r rules)
  then obtain vals1 where one: "lookup_row agi t argnames r vals = Inr vals1"
    and rest: "foldM (lookup_row agi t argnames) rules vals1 = Inr vals'"
    by (auto simp: rbind_eq_Inr)
  have "last_value (agrees env) (flat vals1) =
      (case last_binding agi t env [r] of None \<Rightarrow> last_value (agrees env) (flat vals) | Some v \<Rightarrow> Some v)"
    using lookup_row_Inr [OF one]
  proof (elim disjE exE conjE)
    fix v rows
    assume o: "rule_output agi t r = Inr (Some v)" and v: "vals1 = vals @ [(rows, v)]"
      and g: "generate_lookup_function_indices (i_bits (nr_ii r)) (lc_state_space agi) argnames = Inr rows"
    have "(\<exists>row \<in> set rows. agrees env row) \<longleftrightarrow> rule_holds env r"
      using rule_rows(2) [OF g _ ok adm] Cons.prems(2) by simp
    then have "last_value (agrees env) (map (\<lambda>r. (r, v)) rows) = (if rule_holds env r then Some v else None)"
      by (simp add: last_value_const)
    then show ?thesis
      by (simp add: v flat_append flat_entry last_value_append last_binding_def o)
  qed (simp add: last_binding_def)
  moreover have "last_binding agi t env (r # rules) =
      (case last_binding agi t env rules of None \<Rightarrow> last_binding agi t env [r] | Some v \<Rightarrow> Some v)"
    using last_binding_append [of agi t env "[r]" rules] by simp
  ultimately show ?case using Cons.IH [OF rest] Cons.prems(2) by (simp split: option.splits)
qed

lemma gen_lookup_dict_value:
  assumes "gen_lookup_dict agi nt t argnames = Inr d" and "dict_ok argnames"
    and "env_admitted (lc_state_space agi) argnames env"
  shows "\<exists>gi. map_of (lc_generators agi) nt = Some gi \<and>
    ((\<forall>r \<in> set (nt_rules gi). distinct (decider_tokens r)) \<longrightarrow>
       last_value (agrees env) (flat d) = last_binding agi t env (nt_rules gi))"
proof -
  from assms(1) obtain gi where gi: "map_of (lc_generators agi) nt = Some gi"
    and f: "foldM (lookup_row agi t argnames) (nt_rules gi) [] = Inr d"
    by (auto simp: gen_lookup_dict_def rbind_eq_Inr)
  then show ?thesis
    using lookup_rows_value [OF f assms(2) _ assms(3)] by (auto simp: flat_def split: option.splits)
qed

section \<open>The mapping of a sequence\<close>

definition seq_rules :: "lookup_ctx \<Rightarrow> string list \<Rightarrow> nt_rule list" where
  "seq_rules agi nts =
     concat (map (\<lambda>nt. case map_of (lc_generators agi) nt of None \<Rightarrow> [] | Some gi \<Rightarrow> nt_rules gi) nts)"

lemma gen_lookup_dicts_value:
  assumes "gen_lookup_dicts agi nts t argnames = Inr (Some ds)" and "dict_ok argnames"
    and "env_admitted (lc_state_space agi) argnames env"
    and "\<forall>r \<in> set (seq_rules agi nts). distinct (decider_tokens r)"
  shows "last_value (agrees env) (concat (map flat ds)) = last_binding agi t env (seq_rules agi nts)"
  using assms(1,4)
proof (induction nts arbitrary: ds)
  case Nil
  then show ?case by (simp add: seq_rules_def last_binding_def)
next
  case (Cons nt nts)
  then obtain d ds' where d: "gen_lookup_dict agi nt t argnames = Inr d"
    and ds': "gen_lookup_dicts agi nts t argnames = Inr (Some ds')" and ds: "ds = d # ds'"
    by (auto simp: rbind_eq_Inr split: if_splits)
  obtain gi where gi: "map_of (lc_generators agi) nt = Some gi"
    and v: "(\<forall>r \<in> set (nt_rules gi). distinct (decider_tokens r)) \<longrightarrow>
       last_value (agrees env) (flat d) = last_binding agi t env (nt_rules gi)"
    using gen_lookup_dict_value [OF d assms(2,3)] by blast
  have s: "seq_rules agi (nt # nts) = nt_rules gi @ seq_rules agi nts" by (simp add: seq_rules_def gi)
  show ?case
    using Cons.IH [OF ds'] Cons.prems(2) v by (simp add: ds s last_value_append last_binding_append split: option.split)
qed

text \<open>A row of the base that agrees with the operands is overridden by the rows that agree with them.\<close>

lemma row_match_agrees:
  "row_match r row = Inr b \<Longrightarrow> agrees env r \<Longrightarrow> agrees env row \<Longrightarrow> row_holds r row"
proof (induction r row rule: row_match.induct)
  case (2 r opn val row)
  from 2 obtain v where v: "map_of r opn = Some v" by (auto split: option.splits)
  then have "v = env opn" using 2(3) by (auto simp: agrees_def dest: map_of_SomeD)
  moreover have "val = env opn" "agrees env row" using 2(4) by (auto simp: agrees_def)
  ultimately show ?case using 2 v by (simp add: row_holds_def)
qed (simp add: row_holds_def)

lemma row_holds_agrees: "row_holds r row \<Longrightarrow> agrees env r \<Longrightarrow> agrees env row"
  by (fastforce simp: row_holds_def agrees_def dest: map_of_SomeD)

lemma rebind_last_value:
  assumes "\<forall>(row, v) \<in> set ovs. \<exists>b. row_match r row = Inr b" and "agrees env r"
  shows "rebind r ovs v = (case last_value (agrees env) ovs of None \<Rightarrow> v | Some x \<Rightarrow> x)"
  using assms(1)
proof (induction ovs rule: rev_induct)
  case (snoc e ovs)
  obtain row x where e: "e = (row, x)" by (cases e)
  have "row_holds r row \<longleftrightarrow> agrees env row"
    using snoc.prems row_match_agrees [OF _ assms(2)] row_holds_agrees [OF _ assms(2)] by (auto simp: e)
  then show ?case using snoc by (simp add: e rebind_append) (simp add: rebind_def)
qed (simp add: rebind_def)

lemma override_row_matches:
  "override_row row value m = Inr m' \<Longrightarrow> (r, v) \<in> set (flat m) \<Longrightarrow> \<exists>b. row_match r row = Inr b"
proof -
  have "mapM (\<lambda>(base_row, base_value). rbind (row_match base_row row) (\<lambda>is_match.
           Inr ([base_row], if is_match then value else base_value))) xs = Inr m' \<Longrightarrow>
      (r, v) \<in> set xs \<Longrightarrow> \<exists>b. row_match r row = Inr b" for xs m'
    by (induction xs arbitrary: m') (auto simp: rbind_eq_Inr)
  then show "override_row row value m = Inr m' \<Longrightarrow> (r, v) \<in> set (flat m) \<Longrightarrow> \<exists>b. row_match r row = Inr b"
    unfolding override_row_def by blast
qed

lemma override_mapping_matches:
  assumes "override_mapping m ov = Inr m'" "r \<in> fst ` set (flat m)" "(row, v) \<in> set (flat ov)"
  shows "\<exists>b. row_match r row = Inr b"
proof -
  have "foldM (\<lambda>(row, value) m. override_row row value m) ovs m = Inr m' \<Longrightarrow> r \<in> fst ` set (flat m) \<Longrightarrow>
      (row, v) \<in> set ovs \<Longrightarrow> \<exists>b. row_match r row = Inr b" for ovs m
  proof (induction ovs arbitrary: m)
    case (Cons e ovs)
    obtain row1 v1 where e: "e = (row1, v1)" by (cases e)
    from Cons.prems(1) obtain m1 where one: "override_row row1 v1 m = Inr m1"
      and rest: "foldM (\<lambda>(row, value) m. override_row row value m) ovs m1 = Inr m'"
      by (auto simp: e rbind_eq_Inr)
    have "r \<in> fst ` set (flat m1)" using override_row_flat [OF one] Cons.prems(2) by force
    with Cons.IH [OF rest] Cons.prems(2,3) override_row_matches [OF one] show ?case by (auto simp: e)
  qed simp
  with assms show ?thesis unfolding override_mapping_def by blast
qed

lemma combine_matches:
  assumes "combine_mapping_seq m ovs = Inr (Some m')" "r \<in> fst ` set (flat m)" "(row, v) \<in> set (concat (map flat ovs))"
  shows "\<exists>b. row_match r row = Inr b"
  using assms
proof (induction ovs arbitrary: m)
  case (Cons ov ovs)
  then obtain m1 where one: "override_mapping m ov = Inr m1" and rest: "combine_mapping_seq m1 ovs = Inr (Some m')"
    by (auto simp: rbind_eq_Inr split: if_splits)
  have "r \<in> fst ` set (flat m1)" using override_mapping_flat [OF one] Cons.prems(2) by force
  with Cons.IH [OF rest] Cons.prems(3) override_mapping_matches [OF one Cons.prems(2)] show ?case by auto
qed simp

lemma combined_value:
  assumes c: "combine_mapping_seq m ovs = Inr (Some m')" and base: "last_value (agrees env) (flat m) \<noteq> None"
  shows "last_value (agrees env) (flat m') = last_value (agrees env) (flat m @ concat (map flat ovs))"
proof -
  let ?ovs = "concat (map flat ovs)"
  have "\<forall>(r, v) \<in> set xs. agrees env r \<longrightarrow> (\<forall>v. rebind r ?ovs v = (case last_value (agrees env) ?ovs of None \<Rightarrow> v | Some x \<Rightarrow> x)) \<Longrightarrow>
      last_value (agrees env) (map (\<lambda>(r, v). (r, rebind r ?ovs v)) xs) =
        map_option (\<lambda>v. case last_value (agrees env) ?ovs of None \<Rightarrow> v | Some x \<Rightarrow> x) (last_value (agrees env) xs)" for xs
    by (induction xs rule: rev_induct) (auto split: prod.splits option.splits)
  moreover have "\<forall>(r, v) \<in> set (flat m). agrees env r \<longrightarrow>
      (\<forall>v. rebind r ?ovs v = (case last_value (agrees env) ?ovs of None \<Rightarrow> v | Some x \<Rightarrow> x))"
    using combine_matches [OF c] rebind_last_value by (force simp del: set_concat)
  ultimately have "last_value (agrees env) (flat m') =
      map_option (\<lambda>v. case last_value (agrees env) ?ovs of None \<Rightarrow> v | Some x \<Rightarrow> x) (last_value (agrees env) (flat m))"
    using combine_mapping_seq_flat [OF c] by simp
  then show ?thesis using base by (auto simp: last_value_append split: option.splits)
qed

section \<open>The basis\<close>

lemma dict_ok_set_val: "dict_ok sp \<Longrightarrow> dict_ok (set_val n v sp)"
  by (simp add: set_val_def)

lemma dict_ok_set_vals: "dict_ok sp \<Longrightarrow> dict_ok (set_vals n vs sp)"
  unfolding set_vals_def by (induction vs arbitrary: sp) (auto simp: dict_ok_set_val)

lemma cvals_space_of: "cvals (space_of sp) tok = set (dget_default sp tok [])"
proof -
  have "map_of (space_of sp) tok = map_option (map (\<lambda>v. (v, True))) (map_of sp tok)"
    by (induction sp) (auto simp: space_of_def)
  then show ?thesis by (cases "map_of sp tok") (simp_all add: dget_default_def image_image)
qed

lemma basis_decider_Inr:
  assumes "basis_decider sp bt arg = Inr arg'"
  shows "dict_ok arg \<Longrightarrow> dict_ok arg'"
    and "din tok arg \<Longrightarrow> din tok arg'" and "cvals arg tok \<subseteq> cvals arg' tok"
    and "is_operand_decider bt \<Longrightarrow> din (the (btoken bt)) arg' \<and> set (choices (entry_of sp bt)) \<subseteq> cvals arg' (the (btoken bt))"
proof -
  have a: "add_op_decider (space_of sp) bt arg = Inr arg'"
    and d: "is_operand_decider bt \<Longrightarrow> btest bt = Some OdNe \<Longrightarrow> din (the (btoken bt)) sp"
    using assms by (auto simp: basis_decider_def split: if_splits)
  show "dict_ok arg \<Longrightarrow> dict_ok arg'"
    using a by (auto simp: add_op_decider_def Let_def dict_ok_set_val dict_ok_set_vals
        split: if_splits option.splits od_test.splits)
  note add_op_decider_Inr [OF a]
  then show "din tok arg \<Longrightarrow> din tok arg'" and "cvals arg tok \<subseteq> cvals arg' tok" by blast+
  show "din (the (btoken bt)) arg' \<and> set (choices (entry_of sp bt)) \<subseteq> cvals arg' (the (btoken bt))"
    if od: "is_operand_decider bt"
  proof -
    obtain t where t: "btoken bt = Some t" using add_op_decider_Inr(3) [OF a od] by blast
    have "od_admits (space_of sp) bt t v" if v: "v \<in> set (choices (entry_of sp bt))" for v
    proof (cases "btest bt = Some OdEq")
      case True
      then show ?thesis using v od t add_op_decider_Inr(3) [OF a od] by (auto simp: od_admits_def entry_of_def)
    next
      case False
      then have ne: "btest bt = Some OdNe" using add_op_decider_Inr(3) [OF a od] by (metis not_Some_eq od_test.exhaust)
      then obtain vs where vs: "map_of sp t = Some vs" using d [OF od] t by (auto simp: din_def)
      have "v \<in> cvals (space_of sp) t" using v ne vs t unfolding cvals_space_of by (simp add: entry_of_def dget_default_def)
      then show ?thesis
        using v ne od t add_op_decider_Inr(3) [OF a od] by (auto simp: od_admits_def entry_of_def)
    qed
    then show ?thesis using add_op_decider_Inr(1,2) [OF a] od t by auto
  qed
qed

lemma basis_bits_Inr:
  assumes "foldM (basis_decider sp) bits arg = Inr arg'"
  shows "(dict_ok arg \<longrightarrow> dict_ok arg') \<and> (\<forall>tok. din tok arg \<longrightarrow> din tok arg') \<and> (\<forall>tok. cvals arg tok \<subseteq> cvals arg' tok) \<and>
    (\<forall>bt \<in> set bits. is_operand_decider bt \<longrightarrow>
       din (the (btoken bt)) arg' \<and> set (choices (entry_of sp bt)) \<subseteq> cvals arg' (the (btoken bt)))"
  using assms
proof (induction bits arbitrary: arg)
  case (Cons bt bits)
  then obtain arg1 where one: "basis_decider sp bt arg = Inr arg1" and rest: "foldM (basis_decider sp) bits arg1 = Inr arg'"
    by (auto simp: rbind_eq_Inr)
  note b = basis_decider_Inr [OF one] and ih = Cons.IH [OF rest]
  show ?case
  proof (intro conjI allI ballI impI)
    show "dict_ok arg'" if "dict_ok arg" using b(1) ih that by blast
    show "din tok arg'" if "din tok arg" for tok using b(2) ih that by blast
    show "cvals arg tok \<subseteq> cvals arg' tok" for tok using b(3) ih by blast
    fix c
    assume c: "c \<in> set (bt # bits)" "is_operand_decider c"
    show "din (the (btoken c)) arg'" using b(4) ih c by auto
    show "set (choices (entry_of sp c)) \<subseteq> cvals arg' (the (btoken c))"
    proof (cases "c = bt")
      case True
      then have "set (choices (entry_of sp c)) \<subseteq> cvals arg1 (the (btoken c))" using b(4) c by blast
      also have "\<dots> \<subseteq> cvals arg' (the (btoken c))" using ih by blast
      finally show ?thesis .
    next
      case False
      then show ?thesis using ih c by auto
    qed
  qed
qed simp

lemma basis_Inr:
  assumes "generate_lookup_function_basis gi sp = Inr argnames"
  shows "dict_ok argnames" and "r \<in> set (nt_rules gi) \<Longrightarrow> bt \<in> set (i_bits (nr_ii r)) \<Longrightarrow> is_operand_decider bt \<Longrightarrow>
    din (the (btoken bt)) argnames \<and> set (choices (entry_of sp bt)) \<subseteq> cvals argnames (the (btoken bt))"
proof -
  have all: "foldM (\<lambda>r. foldM (basis_decider sp) (i_bits (nr_ii r))) rules arg = Inr arg' \<Longrightarrow>
      (dict_ok arg \<longrightarrow> dict_ok arg') \<and> (\<forall>tok. din tok arg \<longrightarrow> din tok arg') \<and> (\<forall>tok. cvals arg tok \<subseteq> cvals arg' tok) \<and>
      (\<forall>r \<in> set rules. \<forall>bt \<in> set (i_bits (nr_ii r)). is_operand_decider bt \<longrightarrow>
        din (the (btoken bt)) arg' \<and> set (choices (entry_of sp bt)) \<subseteq> cvals arg' (the (btoken bt)))" for rules arg arg'
  proof (induction rules arbitrary: arg)
    case (Cons q rules)
    then obtain arg1 where one: "foldM (basis_decider sp) (i_bits (nr_ii q)) arg = Inr arg1"
      and rest: "foldM (\<lambda>r. foldM (basis_decider sp) (i_bits (nr_ii r))) rules arg1 = Inr arg'"
      by (auto simp: rbind_eq_Inr)
    note b = basis_bits_Inr [OF one] and ih = Cons.IH [OF rest]
    have sub: "cvals arg1 tok \<subseteq> cvals arg' tok" for tok using ih by blast
    show ?case
    proof (intro conjI allI ballI impI)
      show "dict_ok arg'" if "dict_ok arg" using b ih that by blast
      show "din tok arg'" if "din tok arg" for tok using b ih that by blast
      show "cvals arg tok \<subseteq> cvals arg' tok" for tok using b sub by (meson subset_trans)
      fix p c
      assume p: "p \<in> set (q # rules)" "c \<in> set (i_bits (nr_ii p))" "is_operand_decider c"
      show "din (the (btoken c)) arg'" using b ih p by auto
      show "set (choices (entry_of sp c)) \<subseteq> cvals arg' (the (btoken c))"
      proof (cases "p = q")
        case True
        then have "set (choices (entry_of sp c)) \<subseteq> cvals arg1 (the (btoken c))" using b p by blast
        then show ?thesis using sub by blast
      next
        case False
        then show ?thesis using ih p by auto
      qed
    qed
  qed simp
  note all = all [OF assms [unfolded generate_lookup_function_basis_def]]
  show "dict_ok argnames" using all by simp
  show "r \<in> set (nt_rules gi) \<Longrightarrow> bt \<in> set (i_bits (nr_ii r)) \<Longrightarrow> is_operand_decider bt \<Longrightarrow>
    din (the (btoken bt)) argnames \<and> set (choices (entry_of sp bt)) \<subseteq> cvals argnames (the (btoken bt))"
    using all by blast
qed

text \<open>Complete rows over the basis.\<close>

definition row_ok :: "space \<Rightarrow> index_row \<Rightarrow> bool" where
  "row_ok argnames row \<longleftrightarrow> dict_ok row \<and> set (dkeys row) = set (dkeys argnames) \<and>
     (\<forall>(k, v) \<in> set row. v \<in> cvals argnames k)"

lemma basis_rows:
  assumes b: "generate_lookup_function_basis gi (lc_state_space agi) = Inr argnames"
    and g: "gen_lookup_dict agi nt t argnames = Inr d" and gi: "map_of (lc_generators agi) nt = Some gi"
    and once: "\<forall>r \<in> set (nt_rules gi). distinct (decider_tokens r)"
  shows "\<forall>e \<in> set (flat d). row_ok argnames (fst e)"
proof -
  note ok = basis_Inr [OF b]
  have "foldM (lookup_row agi t argnames) rules vals = Inr vals' \<Longrightarrow> set rules \<subseteq> set (nt_rules gi) \<Longrightarrow>
      \<forall>e \<in> set (flat vals). row_ok argnames (fst e) \<Longrightarrow> \<forall>e \<in> set (flat vals'). row_ok argnames (fst e)" for rules vals vals'
  proof (induction rules arbitrary: vals)
    case (Cons r rules)
    then obtain vals1 where one: "lookup_row agi t argnames r vals = Inr vals1"
      and rest: "foldM (lookup_row agi t argnames) rules vals1 = Inr vals'"
      by (auto simp: rbind_eq_Inr)
    have r: "r \<in> set (nt_rules gi)" using Cons.prems(2) by simp
    have "\<forall>e \<in> set (flat vals1). row_ok argnames (fst e)"
      using lookup_row_Inr [OF one]
    proof (elim disjE exE conjE)
      fix v rows
      assume v: "vals1 = vals @ [(rows, v)]"
        and g: "generate_lookup_function_indices (i_bits (nr_ii r)) (lc_state_space agi) argnames = Inr rows"
      have toks: "set (decider_tokens r) \<subseteq> set (dkeys argnames)"
        using ok(2) [OF r] by (auto simp: decider_tokens_def din_iff)
      have "row_ok argnames row" if "row \<in> set rows" for row
      proof -
        have "distinct (decider_tokens r)" using once r by blast
        note rr = bspec [OF rule_rows(1) [OF g this ok(1)] that]
        have "v \<in> cvals argnames k" if "(k, v) \<in> set row" for k v
        proof -
          have "(\<exists>bt \<in> set (i_bits (nr_ii r)). is_operand_decider bt \<and> the (btoken bt) = k \<and>
             v \<in> set (choices (entry_of (lc_state_space agi) bt))) \<or> v \<in> cvals argnames k"
            using rr that by (auto simp del: set_map)
          then show ?thesis
          proof (elim disjE bexE conjE)
            fix bt
            assume "bt \<in> set (i_bits (nr_ii r))" "is_operand_decider bt" "the (btoken bt) = k"
              "v \<in> set (choices (entry_of (lc_state_space agi) bt))"
            then show ?thesis using ok(2) [OF r] by blast
          qed
        qed
        then have "\<forall>(k, v) \<in> set row. v \<in> cvals argnames k" by blast
        moreover have "set (dkeys row) = set (dkeys argnames)" using rr toks by blast
        ultimately show ?thesis using rr unfolding row_ok_def by blast
      qed
      then show ?thesis using Cons.prems(3) by (auto simp: v flat_append flat_entry)
    qed (use Cons.prems(3) in simp)
    with Cons.IH [OF rest] Cons.prems(2) show ?case by simp
  qed simp
  moreover have "foldM (lookup_row agi t argnames) (nt_rules gi) [] = Inr d"
    using g gi by (auto simp: gen_lookup_dict_def rbind_eq_Inr)
  ultimately show ?thesis by (auto simp: flat_def)
qed

section \<open>The array\<close>

lemma add_rows_eq: "add_rows m a = a\<lparr>ag_values := ag_values a @ flat m\<rparr>"
proof -
  have "fold (\<lambda>(row, v) a. add_value row v a) xs a = a\<lparr>ag_values := ag_values a @ xs\<rparr>" for xs and a :: array_gen
    by (induction xs arbitrary: a) (auto simp: add_value_def)
  then show ?thesis by (simp add: add_rows_def)
qed

definition dim_of :: "string \<times> int \<times> int \<times> string \<Rightarrow> string \<times> value_dict \<Rightarrow> bool" where
  "dim_of r nv \<longleftrightarrow> (case r of (ty, lo, hi, argname) \<Rightarrow>
     argname = fst nv \<and> snd nv \<noteq> [] \<and> lo = Min (set (dkeys (snd nv))) \<and> hi = Max (set (dkeys (snd nv))) + 1)"

lemma add_dims_Inr:
  assumes "add_dims agi argnames a = Inr a'"
  shows "\<exists>rs. a' = a\<lparr>ag_ranges := ag_ranges a @ rs\<rparr> \<and> list_all2 dim_of rs argnames"
  using assms
proof (induction argnames arbitrary: a)
  case Nil
  then show ?case by (simp add: add_dims_def)
next
  case (Cons nv argnames)
  obtain od vs where nv: "nv = (od, vs)" by (cases nv)
  with Cons.prems obtain ty where vs: "vs \<noteq> []" and rest: "add_dims agi argnames
      (add_dimension ty (Min (set (dkeys vs))) (Max (set (dkeys vs)) + 1) od a) = Inr a'"
    by (auto simp: add_dims_def rbind_eq_Inr split: if_splits)
  from Cons.IH [OF rest] obtain rs where rs: "a' = a\<lparr>ag_ranges := (ag_ranges a @
      [(ty, Min (set (dkeys vs)), Max (set (dkeys vs)) + 1, od)]) @ rs\<rparr>" "list_all2 dim_of rs argnames"
    by (auto simp: add_dimension_def)
  moreover have "dim_of (ty, Min (set (dkeys vs)), Max (set (dkeys vs)) + 1, od) nv"
    using vs by (simp add: nv dim_of_def)
  ultimately show ?case
    by (intro exI [of _ "(ty, Min (set (dkeys vs)), Max (set (dkeys vs)) + 1, od) # rs"])
      (simp add: nv del: set_map)
qed

lemma dim_names: "list_all2 dim_of rs argnames \<Longrightarrow> map range_name rs = dkeys argnames"
  by (induction rs argnames rule: list_all2_induct) (auto simp: dim_of_def range_name_def)

definition basis_nonneg :: "space \<Rightarrow> bool" where
  "basis_nonneg argnames \<longleftrightarrow> list_all (\<lambda>(k, vs). list_all (\<lambda>v. 0 \<le> v) (dkeys vs)) argnames"

lemma array_of_rows_ok:
  assumes dims: "list_all2 dim_of rs argnames" and ok: "dict_ok argnames" and nn: "basis_nonneg argnames"
    and rows: "\<forall>e \<in> set vals. row_ok argnames (fst e)" and ne: "vals \<noteq> []"
    and a: "ag_ranges a = rs" "ag_values a = vals"
  shows "array_ok a" and "get_arg_names a = dkeys argnames"
proof -
  show n: "get_arg_names a = dkeys argnames" using dim_names [OF dims] a(1) by (simp add: get_arg_names_def)
  have "0 \<le> lo \<and> list_all (\<lambda>(d, v). case map_of d argname of Some x \<Rightarrow> lo \<le> x \<and> x < hi | None \<Rightarrow> True) vals \<and>
      list_ex (\<lambda>(d, v). din argname d) vals" if r: "(ty, lo, hi, argname) \<in> set rs" for ty lo hi argname
  proof -
    obtain i where i: "i < length rs" "rs ! i = (ty, lo, hi, argname)" using r by (auto simp: in_set_conv_nth)
    obtain vs where vs: "argnames ! i = (argname, vs)" and "vs \<noteq> []"
      and lo: "lo = Min (set (dkeys vs))" and hi: "hi = Max (set (dkeys vs)) + 1"
      using list_all2_nthD [OF dims i(1)] i(2) by (cases "argnames ! i") (auto simp: dim_of_def)
    have m: "(argname, vs) \<in> set argnames"
      using i(1) list_all2_lengthD [OF dims] vs by (metis nth_mem)
    have cv: "cvals argnames argname = set (dkeys vs)"
      using dict_ok_map_of_iff [OF ok, of argname vs] m by (simp add: dget_default_def)
    have fin: "finite (set (dkeys vs))" "set (dkeys vs) \<noteq> {}" using \<open>vs \<noteq> []\<close> by auto
    have "0 \<le> lo"
      unfolding lo using nn m Min_in [OF fin] by (fastforce simp: basis_nonneg_def list_all_iff)
    moreover have "list_all (\<lambda>(d, v). case map_of d argname of Some x \<Rightarrow> lo \<le> x \<and> x < hi | None \<Rightarrow> True) vals"
    proof -
      have "lo \<le> x \<and> x < hi" if e: "(d, v) \<in> set vals" "map_of d argname = Some x" for d v x
      proof -
        have "(argname, x) \<in> set d" using e(2) by (rule map_of_SomeD)
        then have "x \<in> set (dkeys vs)" using rows e(1) cv by (fastforce simp: row_ok_def simp del: set_map)
        then have "lo \<le> x" "x \<le> Max (set (dkeys vs))" unfolding lo using fin by (auto intro: Min_le Max_ge)
        then show ?thesis by (simp add: hi)
      qed
      then show ?thesis by (auto simp: list_all_iff split: option.splits)
    qed
    moreover have "list_ex (\<lambda>(d, v). din argname d) vals"
    proof -
      obtain e where e: "e \<in> set vals" using ne by (cases vals) auto
      have "argname \<in> set (dkeys (fst e))" using rows e m by (force simp: row_ok_def)
      then show ?thesis using e by (cases e) (force simp: list_ex_iff din_dkeys)
    qed
    ultimately show ?thesis by blast
  qed
  note bounds = this
  have "list_all (\<lambda>(ty, lo, hi, argname). 0 \<le> lo \<and>
       list_all (\<lambda>(d, v). case map_of d argname of Some x \<Rightarrow> lo \<le> x \<and> x < hi | None \<Rightarrow> True) vals \<and>
       list_ex (\<lambda>(d, v). din argname d) vals) rs"
    unfolding list_all_iff [of _ rs]
  proof
    fix r
    assume r: "r \<in> set rs"
    obtain ty lo hi argname where e: "r = (ty, lo, hi, argname)" by (cases r)
    show "case r of (ty, lo, hi, argname) \<Rightarrow> 0 \<le> lo \<and>
       list_all (\<lambda>(d, v). case map_of d argname of Some x \<Rightarrow> lo \<le> x \<and> x < hi | None \<Rightarrow> True) vals \<and>
       list_ex (\<lambda>(d, v). din argname d) vals"
      using bounds [OF r [unfolded e]] unfolding e by simp
  qed
  then show "array_ok a"
    unfolding array_ok_def n a using ok by (simp add: dict_ok_def)
qed

text \<open>An array made from complete rows returns the value of the last row that agrees with the operands.\<close>

lemma lookup_array_value:
  assumes g: "gen_lookup_array agi nt_seq m opname argnames optype flevel = Inr (a, body)"
    and ok: "dict_ok argnames" and nn: "basis_nonneg argnames"
    and rows: "\<forall>e \<in> set (flat m). row_ok argnames (fst e)"
    and env: "list_all (\<lambda>(k, vs). env k \<in> set (dkeys vs)) argnames"
    and v: "last_value (agrees env) (flat m) = Some v"
  shows "\<exists>lines mem. emit_initialization a = Inr lines \<and> run_init (ag_ranges a) lines (\<lambda>idx. None) = Some mem \<and>
    run_lookup body mem (map env (get_arg_names a)) = Some (Some v)"
proof -
  obtain lu_arr init_fn lu_fn where names: "gen_lu_names nt_seq opname flevel = (lu_arr, init_fn, lu_fn)"
    by (cases "gen_lu_names nt_seq opname flevel")
  obtain ty const a0 where c: "is_constant_mapping m = Inr const"
    and d: "add_dims agi (if const then [] else argnames) (array_new lu_arr ty (Some opname)) = Inr a0"
    and a: "a = add_rows (if const then [([[]], snd (hd m))] else m) a0"
    and body: "body = gen_lookup_function True True a"
    using g by (auto simp: gen_lookup_array_def names rbind_eq_Inr Let_def)
  obtain e where e: "e \<in> set (flat m)" "agrees env (fst e)" "snd e = v"
    using last_value_mem [OF v] by blast
  show ?thesis
  proof (cases const)
    case True
    obtain rows where m: "(rows, v) \<in> set m" using e by (auto simp: flat_def)
    have same: "snd (hd m) = v"
      using c True m by (cases m) (auto simp: is_constant_mapping_def list_all_iff)
    have "a0 = array_new lu_arr ty (Some opname)" using d True by (simp add: add_dims_def)
    then have a': "a = \<lparr>ag_name = lu_arr, ag_type = ty, ag_target_op = Some opname, ag_ranges = [], ag_values = [([], v)]\<rparr>"
      using a True same by (simp add: add_rows_eq flat_entry array_new_def)
    show ?thesis
      by (simp add: body a' gen_lookup_function_def is_const_lookup_fun_def get_dimension_num_def emit_initialization_def
          get_arg_names_def Let_def expand_values.simps missed_one_def missing_key_def expand_pass_def expand_entry_def in_dims_def)
  next
    case False
    obtain rs where a0: "a0 = (array_new lu_arr ty (Some opname))\<lparr>ag_ranges := rs\<rparr>" and dims: "list_all2 dim_of rs argnames"
      using add_dims_Inr [OF d] False by (auto simp: array_new_def)
    have ar: "ag_ranges a = rs" "ag_values a = flat m"
      using a False by (simp_all add: add_rows_eq a0 array_new_def)
    have ne: "flat m \<noteq> []" using e(1) by auto
    note aok = array_of_rows_ok [OF dims ok nn rows ne ar]
    have present: "\<forall>k \<in> set (get_arg_names a). env k \<in> present k (ag_values a)"
    proof
      fix k
      assume "k \<in> set (get_arg_names a)"
      then have "k \<in> set (dkeys (fst e))" using rows e(1) aok(2) by (auto simp: row_ok_def simp del: set_map)
      then obtain x where x: "map_of (fst e) k = Some x" using map_of_None_keys [of "fst e" k] by blast
      then have "x = env k" using e(2) by (auto simp: agrees_def dest: map_of_SomeD)
      then show "env k \<in> present k (ag_values a)" using x e(1) by (auto simp: present_def ar)
    qed
    have "covers (dkeys argnames) S env (fst f) \<longleftrightarrow> agrees env (fst f)" if f: "f \<in> set (flat m)" for S f
    proof -
      have r: "dict_ok (fst f)" "set (dkeys (fst f)) = set (dkeys argnames)" using rows f by (auto simp: row_ok_def simp del: set_map)
      have "(case map_of (fst f) k of Some x \<Rightarrow> x = env k | None \<Rightarrow> env k \<in> S k) \<longleftrightarrow> (\<forall>x. (k, x) \<in> set (fst f) \<longrightarrow> env k = x)"
        if "k \<in> set (dkeys argnames)" for k
      proof -
        have "k \<in> set (dkeys (fst f))" using that r(2) by (simp only:)
        then obtain x where x: "map_of (fst f) k = Some x" using map_of_None_keys [of "fst f" k] by blast
        have "(k, y) \<in> set (fst f) \<longleftrightarrow> y = x" for y
          unfolding dict_ok_map_of_iff [OF r(1), symmetric] x by blast
        then show ?thesis using x by auto
      qed
      then have "covers (dkeys argnames) S env (fst f) \<longleftrightarrow>
          (\<forall>k \<in> set (dkeys argnames). \<forall>x. (k, x) \<in> set (fst f) \<longrightarrow> env k = x)"
        by (simp add: covers_def)
      moreover have "k \<in> set (dkeys argnames)" if "(k, x) \<in> set (fst f)" for k x
        using that r(2) by force
      ultimately show ?thesis unfolding agrees_def by fast
    qed
    then have cov: "last_value (covers (get_arg_names a) S env) (flat m) = last_value (agrees env) (flat m)" for S
      unfolding aok(2) last_value_def by (metis (mono_tags, lifting) find_cong set_rev)
    have body': "run_lookup (gen_lookup_function True False a) mem args = Some (Some v) \<Longrightarrow>
        run_lookup body mem args = Some (Some v)" for mem args
    proof -
      assume r: "run_lookup (gen_lookup_function True False a) mem args = Some (Some v)"
      show "run_lookup body mem args = Some (Some v)"
      proof (cases "is_const_lookup_fun a \<and> length (flat m) = 1")
        case True
        then have "flat m = [e]" using e(1) by (cases "flat m") auto
        then show ?thesis using True e(3) by (simp add: body gen_lookup_function_def ar)
      next
        case False
        then have "body = gen_lookup_function True False a"
          by (auto simp: body gen_lookup_function_def ar)
        with r show ?thesis by simp
      qed
    qed
    show ?thesis
      using array_lookup_value [OF aok(1) present, of True] body' v by (auto simp: cov ar)
  qed
qed

section \<open>The lookup function of a sequence of nonterminals\<close>

text \<open>
  The operands have values of the basis and of the state space, values are not negative, and no rule
  decides twice on an operand.
\<close>

definition seq_admits :: "lookup_ctx \<Rightarrow> string list \<Rightarrow> (string \<Rightarrow> int) \<Rightarrow> bool" where
  "seq_admits agi nts env \<longleftrightarrow>
     list_all (\<lambda>r. distinct (decider_tokens r)) (seq_rules agi nts) \<and>
     (case nts of [] \<Rightarrow> False
      | nt0 # _ \<Rightarrow>
          (case map_of (lc_generators agi) nt0 of None \<Rightarrow> False
           | Some gi \<Rightarrow>
               (case generate_lookup_function_basis gi (lc_state_space agi) of Inl _ \<Rightarrow> False
                | Inr argnames \<Rightarrow> basis_nonneg argnames \<and> env_admitted (lc_state_space agi) argnames env)))"

lemma combine_keeps_rows:
  assumes "combine_mapping_seq m ovs = Inr (Some m')"
  shows "fst ` set (flat m') = fst ` set (flat m)"
  using combine_mapping_seq_flat [OF assms] by force

lemma nt_seq_lookup_value:
  assumes g: "gen_nt_seq_lookup agi nts target ty = Inr (Some (a, body))"
    and adm: "seq_admits agi nts env"
    and base: "last_binding agi target env (seq_rules agi [hd nts]) \<noteq> None"
  shows "\<exists>lines mem. emit_initialization a = Inr lines \<and>
    run_init (ag_ranges a) lines (\<lambda>idx. None) = Some mem \<and>
    run_lookup body mem (map env (get_arg_names a)) = Some (last_binding agi target env (seq_rules agi nts))"
proof -
  obtain nt0 rest where nts: "nts = nt0 # rest" using g by (cases nts) (auto simp: gen_nt_seq_lookup_def)
  obtain gi argnames ds comb where gi: "map_of (lc_generators agi) nt0 = Some gi"
    and b: "generate_lookup_function_basis gi (lc_state_space agi) = Inr argnames"
    and ds: "gen_lookup_dicts agi nts target argnames = Inr (Some ds)"
    and comb: "combine_mapping_seq (hd ds) (tl ds) = Inr (Some comb)"
    and arr: "gen_lookup_array agi nts comb target argnames ty [] = Inr (a, body)"
    using g by (auto simp: gen_nt_seq_lookup_def nts rbind_eq_Inr split: option.splits if_splits)
  have once: "\<forall>r \<in> set (seq_rules agi nts). distinct (decider_tokens r)"
    and nn: "basis_nonneg argnames" and env: "env_admitted (lc_state_space agi) argnames env"
    using adm gi b by (auto simp: seq_admits_def nts list_all_iff)
  have ok: "dict_ok argnames" using basis_Inr(1) [OF b] .
  obtain d ds' where d: "gen_lookup_dict agi nt0 target argnames = Inr d" and dsd: "ds = d # ds'"
    using ds by (auto simp: nts rbind_eq_Inr split: if_splits)
  have once0: "\<forall>r \<in> set (nt_rules gi). distinct (decider_tokens r)"
    using once gi by (auto simp: nts seq_rules_def)
  have rows: "\<forall>e \<in> set (flat comb). row_ok argnames (fst e)"
  proof
    fix e
    assume "e \<in> set (flat comb)"
    then have "fst e \<in> fst ` set (flat d)" using combine_keeps_rows [OF comb] by (auto simp: dsd)
    then show "row_ok argnames (fst e)" using basis_rows [OF b d gi once0] by auto
  qed
  have bv: "last_value (agrees env) (flat d) = last_binding agi target env (nt_rules gi)"
    using gen_lookup_dict_value [OF d ok env] gi once0 by auto
  have "last_value (agrees env) (flat d) \<noteq> None" using base gi by (simp add: bv nts seq_rules_def)
  from combined_value [OF _ this] comb
  have cv: "last_value (agrees env) (flat comb) = last_value (agrees env) (concat (map flat ds))"
    by (simp add: dsd)
  have v: "last_value (agrees env) (flat comb) = last_binding agi target env (seq_rules agi nts)"
    unfolding cv by (rule gen_lookup_dicts_value [OF ds ok env once])
  have "last_binding agi target env (seq_rules agi nts) \<noteq> None"
    using base by (auto simp: nts seq_rules_def last_binding_append split: option.splits)
  then obtain x where x: "last_binding agi target env (seq_rules agi nts) = Some x" by blast
  have "list_all (\<lambda>(k, vs). env k \<in> set (dkeys vs)) argnames" using env by (simp add: env_admitted_def)
  from lookup_array_value [OF arr ok nn rows this v [unfolded x]] show ?thesis by (simp add: x)
qed

text \<open>
  C7: The lookup function emitted for a sequence of nonterminals returns, for operands the tables
  admit, what the sequence binds to the target: the value of the last rule, over all the
  nonterminals in order, whose deciders hold and that binds the target.
\<close>

theorem nt_seq_lookup_binding:
  assumes "gen_nt_seq_lookup agi nts target ty = Inr (Some (a, body))" and "seq_admits agi nts env"
    and "last_binding agi target env (seq_rules agi [hd nts]) \<noteq> None"
  shows "\<exists>lines mem. emit_initialization a = Inr lines \<and>
    run_init (ag_ranges a) lines (\<lambda>idx. None) = Some mem \<and>
    run_lookup body mem (map env (get_arg_names a)) = Some (last_binding agi target env (seq_rules agi nts))"
  by (rule nt_seq_lookup_value [OF assms])

text \<open>
  The operand-size nonterminals of a cut-down grammar: \<open>OSZ_NONTERM\<close> gives 16 or 32 bits by the prefix
  and the mode, and \<open>DF64\<close>, after it, 64 bits in mode 2.
\<close>

definition sample_lookup_ctx :: lookup_ctx where
  "sample_lookup_ctx =
     \<lparr>lc_state_bits = [],
      lc_state_space = [(''OSZ'', [0, 1]), (''MODE'', [0, 1, 2])],
      lc_generators =
        [(''OSZ_NONTERM'', \<lparr>nt_rules =
            [sample_rule 1 [sample_decider ''MODE=0'' ''MODE'' 0, sample_decider ''OSZ=0'' ''OSZ'' 0]
               [sample_opnd ''EOSZ'' ''imm_const'' (BitsStr ''1'') None],
             sample_rule 2 [sample_decider ''MODE=0'' ''MODE'' 0, sample_decider ''OSZ=1'' ''OSZ'' 1]
               [sample_opnd ''EOSZ'' ''imm_const'' (BitsStr ''2'') None],
             sample_rule 3 [\<lparr>btype = BOperand, bvalue = ''MODE!=0'', pbit = 0, btoken = Some ''MODE'',
                              btest = Some OdNe, brequirement = Some 0\<rparr>]
               [sample_opnd ''EOSZ'' ''imm_const'' (BitsStr ''2'') None]], nt_otherwise_ok = False\<rparr>),
         (''DF64'', \<lparr>nt_rules =
            [sample_rule 4 [sample_decider ''MODE=2'' ''MODE'' 2]
               [sample_opnd ''EOSZ'' ''imm_const'' (BitsStr ''3'') None],
             sample_rule 5 [sample_decider ''MODE=0'' ''MODE'' 0] []], nt_otherwise_ok = False\<rparr>)],
      lc_ctype = [(''OSZ'', ''xed_bits_t''), (''MODE'', ''xed_bits_t''), (''EOSZ'', ''xed_bits_t'')]\<rparr>"

theorem nt_seq_lookup_binding_witness:
  "\<exists>a body lines mem. gen_nt_seq_lookup sample_lookup_ctx [''OSZ_NONTERM'', ''DF64''] ''EOSZ'' None = Inr (Some (a, body)) \<and>
     emit_initialization a = Inr lines \<and> run_init (ag_ranges a) lines (\<lambda>idx. None) = Some mem \<and>
     run_lookup body mem (map (\<lambda>k. if k = ''MODE'' then 2 else 0) (get_arg_names a)) = Some (Some ''3'')"
proof -
  let ?nts = "[''OSZ_NONTERM'', ''DF64'']" and ?env = "\<lambda>k. if k = ''MODE'' then 2 else (0::int)"
  let ?g = "gen_nt_seq_lookup sample_lookup_ctx ?nts ''EOSZ'' None"
  have "case ?g of Inr (Some _) \<Rightarrow> True | _ \<Rightarrow> False" by code_simp
  then obtain a body where g: "?g = Inr (Some (a, body))" by (auto split: sum.splits option.splits)
  have adm: "seq_admits sample_lookup_ctx ?nts ?env" by code_simp
  have base: "last_binding sample_lookup_ctx ''EOSZ'' ?env (seq_rules sample_lookup_ctx [hd ?nts]) = Some ''2''" by code_simp
  have all: "last_binding sample_lookup_ctx ''EOSZ'' ?env (seq_rules sample_lookup_ctx ?nts) = Some ''3''" by code_simp
  show ?thesis using nt_seq_lookup_binding [OF g adm] base g unfolding all by auto
qed

end
