(* ===== verification/Codegen.thy ===== *)
theory Codegen
  imports Genutil
begin

text \<open>
  Emitted files and functions (\<open>pysrc/codegen.py\<close>): a file emitter collects lines between the banner
  with its include files and the end, a function object collects the lines of a body, and a list of
  functions is spread over numbered files.  Text read from disk (the legal header), the year and the
  path join of the build library are parameters.
\<close>

section \<open>Strings\<close>

function py_replace :: "string \<Rightarrow> string \<Rightarrow> string \<Rightarrow> string" where
  "py_replace old new [] = []"
| "py_replace old new (c # s) =
     (if old \<noteq> [] \<and> starts_with old (c # s) then new @ py_replace old new (drop (length old) (c # s))
      else c # py_replace old new s)"
  by pat_completeness auto
termination by (relation "measure (\<lambda>(old, new, s). length s)") auto

definition newline :: char where
  "newline = CHR 0x0A"

section \<open>File emitters\<close>

text \<open>
  The lines of a closed emitter are those of the file that was written; adding to a closed emitter
  fails, since \<open>close\<close> deletes the attribute.
\<close>

record file_emitter =
  fe_file_name :: string
  fe_namespace :: "string option"
  fe_shell_file :: bool
  fe_lines :: "string list"
  fe_closed :: bool
  fe_is_header :: bool
  fe_headers :: "string list"
  fe_system_headers :: "string list"
  fe_misc_header :: "string list"

text \<open>\<open>re.compile(r'.[hH]$').search\<close>: the dot stands for any character.\<close>

definition header_file_name :: "string \<Rightarrow> bool" where
  "header_file_name s =
     (let t = (if s \<noteq> [] \<and> List.last s = newline then butlast s else s)
      in 2 \<le> length t \<and> List.last t \<in> {CHR ''h'', CHR ''H''} \<and> t ! (length t - 2) \<noteq> newline)"

definition file_emitter_new :: "string \<Rightarrow> bool \<Rightarrow> string option \<Rightarrow> file_emitter" where
  "file_emitter_new file_name shell_file namespace =
     \<lparr>fe_file_name = file_name, fe_namespace = namespace, fe_shell_file = shell_file, fe_lines = [],
      fe_closed = False, fe_is_header = header_file_name file_name, fe_headers = [],
      fe_system_headers = [], fe_misc_header = []\<rparr>"

definition xed_file_emitter_new :: "string \<Rightarrow> bool \<Rightarrow> string option \<Rightarrow> bool \<Rightarrow> file_emitter" where
  "xed_file_emitter_new file_name shell_file namespace is_private =
     (let fe = file_emitter_new file_name shell_file namespace
      in if is_private then fe\<lparr>fe_headers := fe_headers fe @ [''xed-internal-header.h'']\<rparr> else fe)"

definition add_header :: "string list \<Rightarrow> file_emitter \<Rightarrow> file_emitter" where
  "add_header h fe = fe\<lparr>fe_headers := fe_headers fe @ h\<rparr>"

definition add_system_header :: "string list \<Rightarrow> file_emitter \<Rightarrow> file_emitter" where
  "add_system_header h fe = fe\<lparr>fe_system_headers := fe_system_headers fe @ h\<rparr>"

definition add_misc_header :: "string list \<Rightarrow> file_emitter \<Rightarrow> file_emitter" where
  "add_misc_header h fe = fe\<lparr>fe_misc_header := fe_misc_header fe @ h\<rparr>"

definition replace_headers :: "string list \<Rightarrow> file_emitter \<Rightarrow> file_emitter" where
  "replace_headers h fe = fe\<lparr>fe_headers := h\<rparr>"

definition writelines :: "string list \<Rightarrow> file_emitter \<Rightarrow> file_emitter res" where
  "writelines ls fe =
     (if fe_closed fe then Inl AttributeError else Inr (fe\<lparr>fe_lines := fe_lines fe @ ls\<rparr>))"

definition count_lines :: "file_emitter \<Rightarrow> nat" where
  "count_lines fe = length (fe_lines fe)"

definition code_line :: "string \<Rightarrow> string" where
  "code_line s = s @ [newline]"

definition dox :: "string \<Rightarrow> file_emitter \<Rightarrow> string" where
  "dox s fe = code_line ((if fe_shell_file fe then ''# '' else ''/// '') @ s)"

definition cmt :: "string \<Rightarrow> file_emitter \<Rightarrow> string" where
  "cmt s fe = code_line ((if fe_shell_file fe then ''# '' else ''// '') @ s)"

definition guard_name :: "string \<Rightarrow> string" where
  "guard_name file_name =
     upper (map (\<lambda>c. if c \<in> {CHR ''.'', CHR ''/'', CHR ''-''} then CHR ''_'' else c) file_name)"

definition emit_header_guard_start :: "file_emitter \<Rightarrow> string list" where
  "emit_header_guard_start fe =
     [code_line (''#if !defined('' @ guard_name (fe_file_name fe) @ '')''),
      code_line (''# define '' @ guard_name (fe_file_name fe))]"

definition emit_header_guard_end :: "string list" where
  "emit_header_guard_end = [code_line ''#endif'']"

definition emit_banner :: "bool \<Rightarrow> file_emitter \<Rightarrow> string list" where
  "emit_banner full_header fe =
     (if full_header
      then [dox (''@file '' @ fe_file_name fe) fe, [newline],
            cmt ''This file was automatically generated.'' fe, cmt ''Do not edit this file.'' fe, [newline]]
      else []) @
     (if fe_is_header fe then emit_header_guard_start fe else [])"

definition user_headers_emit :: "file_emitter \<Rightarrow> string list" where
  "user_headers_emit fe = map (\<lambda>h. code_line (''#include '' @ [CHR 0x22] @ h @ [CHR 0x22])) (fe_headers fe)"

definition system_headers_emit :: "file_emitter \<Rightarrow> string list" where
  "system_headers_emit fe = map (\<lambda>h. code_line (''#include <'' @ h @ ''>'')) (fe_system_headers fe)"

definition misc_headers_emit :: "file_emitter \<Rightarrow> string list" where
  "misc_headers_emit fe = map code_line (fe_misc_header fe)"

definition namespace_start :: "file_emitter \<Rightarrow> string list" where
  "namespace_start fe =
     (case fe_namespace fe of
        None \<Rightarrow> [] | Some n \<Rightarrow> if n = [] then [] else [code_line (''namespace '' @ n @ '' {'')])"

definition namespace_end :: "file_emitter \<Rightarrow> string list" where
  "namespace_end fe =
     (case fe_namespace fe of
        None \<Rightarrow> [] | Some n \<Rightarrow> if n = [] then [] else [code_line ''} // namespace''])"

definition includes_emit :: "file_emitter \<Rightarrow> string list" where
  "includes_emit fe =
     (if fe_shell_file fe then []
      else system_headers_emit fe @ user_headers_emit fe @ misc_headers_emit fe @ namespace_start fe)"

definition start_lines :: "bool \<Rightarrow> file_emitter \<Rightarrow> string list" where
  "start_lines full_header fe = emit_banner full_header fe @ includes_emit fe"

text \<open>The legal header, as a comment of the kind of file.\<close>

definition ip_header :: "string list \<Rightarrow> bool \<Rightarrow> string list" where
  "ip_header ls shell_type =
     (if shell_type
      then [code_line ''#BEGIN_LEGAL''] @ map (\<lambda>line. ''#'' @ line) ls @ [code_line ''#END_LEGAL'']
      else [code_line ''/*BEGIN_LEGAL''] @ ls @ [code_line ''END_LEGAL */''])"

record legal =
  legal_lines :: "string list"
  legal_year :: string

definition legal_emit :: "legal \<Rightarrow> file_emitter \<Rightarrow> string list" where
  "legal_emit lg fe =
     map (py_replace ''<CURRENT_YEAR>'' (legal_year lg)) (ip_header (legal_lines lg) (fe_shell_file fe))"

definition xed_start_lines :: "legal \<Rightarrow> bool \<Rightarrow> file_emitter \<Rightarrow> string list" where
  "xed_start_lines lg full_header fe =
     emit_banner full_header fe @ legal_emit lg fe @ includes_emit fe"

definition xed_start :: "legal \<Rightarrow> bool \<Rightarrow> file_emitter \<Rightarrow> file_emitter res" where
  "xed_start lg full_header fe = writelines (xed_start_lines lg full_header fe) fe"

definition end_lines :: "file_emitter \<Rightarrow> string list" where
  "end_lines fe =
     (if fe_shell_file fe then [] else namespace_end fe) @
     (if fe_is_header fe then emit_header_guard_end else [])"

text \<open>Closing twice only prints a message.\<close>

definition close :: "file_emitter \<Rightarrow> file_emitter" where
  "close fe =
     (if fe_closed fe then fe
      else fe\<lparr>fe_lines := fe_lines fe @ end_lines fe, fe_closed := True\<rparr>)"

section \<open>Function objects\<close>

record function_object =
  function_name :: string
  doxgroup :: "string option"
  return_type :: string
  is_static :: bool
  is_inline :: bool
  dll_export :: bool
  fo_body :: "string list"
  fo_args :: "(string \<times> string option) list"
  const_member :: bool
  ref_return :: bool
  force_no_inline :: bool

definition function_object_new :: "string \<Rightarrow> string \<Rightarrow> bool \<Rightarrow> bool \<Rightarrow> function_object" where
  "function_object_new name ty static inline =
     \<lparr>function_name = name, doxgroup = None, return_type = ty, is_static = static, is_inline = inline,
      dll_export = False, fo_body = [], fo_args = [], const_member = False, ref_return = False,
      force_no_inline = False\<rparr>"

definition set_function_name :: "string \<Rightarrow> function_object \<Rightarrow> function_object" where
  "set_function_name fname fo = fo\<lparr>function_name := fname\<rparr>"

definition fo_lines :: "function_object \<Rightarrow> nat" where
  "fo_lines fo = length (fo_body fo)"

definition add_arg :: "string \<Rightarrow> string option \<Rightarrow> function_object \<Rightarrow> function_object" where
  "add_arg arg arg_type fo = fo\<lparr>fo_args := fo_args fo @ [(arg, arg_type)]\<rparr>"

definition add_comment :: "string \<Rightarrow> function_object \<Rightarrow> function_object" where
  "add_comment s fo = fo\<lparr>fo_body := fo_body fo @ [''/* '' @ s @ '' */'']\<rparr>"

definition comment_text :: "string option \<Rightarrow> string" where
  "comment_text comment =
     (case comment of None \<Rightarrow> [] | Some c \<Rightarrow> if c = [] then [] else '' // '' @ c @ '' '')"

definition add_code :: "string \<Rightarrow> string option \<Rightarrow> function_object \<Rightarrow> function_object" where
  "add_code line comment fo = fo\<lparr>fo_body := fo_body fo @ [line @ comment_text comment]\<rparr>"

definition add_code_eol :: "string \<Rightarrow> string option \<Rightarrow> function_object \<Rightarrow> function_object" where
  "add_code_eol line comment fo = fo\<lparr>fo_body := fo_body fo @ [line @ '';'' @ comment_text comment]\<rparr>"

definition add_lines :: "string list \<Rightarrow> function_object \<Rightarrow> function_object" where
  "add_lines ls fo = fo\<lparr>fo_body := fo_body fo @ ls\<rparr>"

definition arg_text :: "string \<times> string option \<Rightarrow> string" where
  "arg_text a =
     (case a of
        (arg, None) \<Rightarrow> arg
      | (arg, Some ty) \<Rightarrow> if ty = [] then arg else arg @ '' /*'' @ ty @ ''*/'')"

definition emit_header_internal :: "string \<Rightarrow> bool \<Rightarrow> function_object \<Rightarrow> string" where
  "emit_header_internal class_qualifier emit_group fo =
     (case doxgroup fo of
        Some g \<Rightarrow> if emit_group \<and> g \<noteq> [] then code_line (''/// @ingroup '' @ g) else []
      | None \<Rightarrow> []) @
     (if is_static fo then ''static '' else []) @
     (if is_inline fo then ''XED_INLINE '' else []) @
     (if force_no_inline fo then ''XED_NOINLINE '' else []) @
     (if dll_export fo then ''XED_DLL_EXPORT '' else []) @
     return_type fo @ (if ref_return fo then ''&'' else []) @ '' '' @
     class_qualifier @ function_name fo @ ''('' @
     (if fo_args fo = [] then ''void'' else join '', '' (map arg_text (fo_args fo))) @ '')'' @
     (if const_member fo then '' const'' else [])"

definition emit_decl :: "function_object \<Rightarrow> string" where
  "emit_decl fo = emit_header_internal [] True fo @ '';'' @ [newline]"

definition emit :: "string \<Rightarrow> function_object \<Rightarrow> string" where
  "emit class_qualifier fo =
     code_line (emit_header_internal class_qualifier False fo) @ code_line ''{'' @
     concat (map (\<lambda>bline. ''   '' @ code_line bline) (fo_body fo)) @ code_line ''}''"

definition emitted_lines :: "function_object \<Rightarrow> string list" where
  "emitted_lines fo =
     map code_line ([emit_header_internal [] False fo, ''{''] @ fo_body fo @ [''}''])"

definition emit_file_emitter :: "function_object \<Rightarrow> file_emitter \<Rightarrow> file_emitter res" where
  "emit_file_emitter fo fe = writelines (emitted_lines fo) fe"

definition emit_body :: "function_object \<Rightarrow> string" where
  "emit_body fo = join [newline] (map (\<lambda>bline. bline @ '';'') (fo_body fo))"

section \<open>Call sequences and switches\<close>

definition function_call_sequence :: "string \<Rightarrow> string list \<Rightarrow> function_object" where
  "function_call_sequence fname lst =
     fold (\<lambda>fn. add_code_eol (fn @ ''()'') None) lst (function_object_new fname ''void'' False False)"

definition function_call_sequence_conditional :: "string \<Rightarrow> string list \<Rightarrow> string \<Rightarrow> function_object" where
  "function_call_sequence_conditional fname lst subroutine_arg =
     (let fo = add_code_eol ''xed_bool_t okay'' None (function_object_new fname ''xed_bool_t'' False False);
          args = ''('' @ subroutine_arg @ '')''
      in add_code_eol ''return 1'' None
           (fold (\<lambda>fn fo. add_code_eol ''if (!okay) return 0'' None
                     (add_code_eol (''okay = '' @ fn @ args) None fo)) lst fo))"

text \<open>A switch generator is its padding; the function object is passed on.\<close>

definition switch_line :: "string \<Rightarrow> string \<Rightarrow> function_object \<Rightarrow> function_object" where
  "switch_line pad s = add_code (pad @ s) None"

definition switch_new :: "string \<Rightarrow> string \<Rightarrow> function_object \<Rightarrow> function_object" where
  "switch_new pad var_name = switch_line pad (''switch('' @ var_name @ '') {'')"

definition switch_inner :: "string \<Rightarrow> string \<Rightarrow> function_object \<Rightarrow> function_object" where
  "switch_inner pad s = switch_line pad (''   '' @ s)"

definition switch_clause :: "string \<Rightarrow> string \<Rightarrow> string list \<Rightarrow> bool \<Rightarrow> function_object \<Rightarrow> function_object" where
  "switch_clause pad label clines do_break fo =
     (let fo = fold (switch_inner pad) clines (switch_line pad label fo)
      in if do_break then switch_inner pad ''break;'' fo else fo)"

definition add_case :: "string \<Rightarrow> string \<Rightarrow> string list \<Rightarrow> bool \<Rightarrow> function_object \<Rightarrow> function_object" where
  "add_case pad case_name = switch_clause pad (''case '' @ case_name @ '':'')"

definition add_default :: "string \<Rightarrow> string list \<Rightarrow> bool \<Rightarrow> function_object \<Rightarrow> function_object" where
  "add_default pad = switch_clause pad ''default:''"

definition switch_finish :: "string \<Rightarrow> function_object \<Rightarrow> function_object" where
  "switch_finish pad = switch_line pad ''}''"

section \<open>Lists of functions\<close>

definition dump_flist_2_header ::
  "legal \<Rightarrow> file_emitter \<Rightarrow> function_object list \<Rightarrow> string list \<Rightarrow> bool \<Rightarrow> bool \<Rightarrow> file_emitter res" where
  "dump_flist_2_header lg h_file funcs headers emit_headers emit_bodies =
     rbind (xed_start lg True (add_header headers h_file)) (\<lambda>fe.
     rbind (if emit_headers then writelines (map (\<lambda>fo. code_line (emit_decl fo)) funcs) fe else Inr fe) (\<lambda>fe.
     rbind (if emit_bodies then foldM emit_file_emitter funcs fe else Inr fe) (\<lambda>fe.
       Inr (close fe))))"

text \<open>The settings of \<open>emit_function_list\<close>; the join of the build library is a parameter.\<close>

record emit_options =
  eo_prefix :: string
  eo_namespace :: "string option"
  eo_other_headers :: "string list"
  eo_max_lines :: nat
  eo_private_header :: bool
  eo_public_headers :: "string list"
  eo_join :: "string \<Rightarrow> string \<Rightarrow> string"
  eo_legal :: legal

definition list_header_name :: "emit_options \<Rightarrow> string" where
  "list_header_name eo = eo_prefix eo @ ''.h''"

definition companion_header :: "emit_options \<Rightarrow> string" where
  "companion_header eo =
     (if eo_private_header eo then list_header_name eo else eo_join eo ''xed'' (list_header_name eo))"

definition numbered_file_name :: "emit_options \<Rightarrow> nat \<Rightarrow> string" where
  "numbered_file_name eo n = eo_prefix eo @ ''-'' @ str_nat n @ ''.c''"

definition numbered_emitter :: "emit_options \<Rightarrow> nat \<Rightarrow> file_emitter" where
  "numbered_emitter eo n =
     add_header (companion_header eo # eo_other_headers eo)
       (xed_file_emitter_new (numbered_file_name eo n) False (eo_namespace eo) True)"

definition header_emitter :: "emit_options \<Rightarrow> file_emitter" where
  "header_emitter eo =
     add_header (eo_public_headers eo)
       (xed_file_emitter_new (list_header_name eo) False (eo_namespace eo) (eo_private_header eo))"

text \<open>The state of the loop: the header, the closed files, and the open file with the number of the next one.\<close>

record emit_state =
  es_header :: file_emitter
  es_files :: "file_emitter list"
  es_open :: "file_emitter option"
  es_number :: nat

definition open_file :: "emit_options \<Rightarrow> function_object \<Rightarrow> emit_state \<Rightarrow> emit_state res" where
  "open_file eo func st =
     (let is_full = (case es_open st of
                       None \<Rightarrow> True | Some fe \<Rightarrow> eo_max_lines eo \<le> count_lines fe + fo_lines func)
      in if is_full
         then rbind (xed_start (eo_legal eo) True (numbered_emitter eo (es_number st))) (\<lambda>fe.
                Inr (st\<lparr>es_files := es_files st @ (case es_open st of None \<Rightarrow> [] | Some old \<Rightarrow> [close old]),
                        es_open := Some fe, es_number := es_number st + 1\<rparr>))
         else Inr st)"

definition emit_one_function :: "emit_options \<Rightarrow> function_object \<Rightarrow> emit_state \<Rightarrow> emit_state res" where
  "emit_one_function eo func st =
     rbind (writelines [emit_decl func] (es_header st)) (\<lambda>h.
     rbind (open_file eo func (st\<lparr>es_header := h\<rparr>)) (\<lambda>st.
       case es_open st of
         None \<Rightarrow> Inl AttributeError
       | Some fe \<Rightarrow> rbind (emit_file_emitter func fe) (\<lambda>fe. Inr (st\<lparr>es_open := Some fe\<rparr>))))"

text \<open>Without functions there is no open file to close.\<close>

definition emit_function_list ::
  "emit_options \<Rightarrow> function_object list \<Rightarrow> (file_emitter \<times> file_emitter list) res" where
  "emit_function_list eo func_list =
     rbind (xed_start (eo_legal eo) True (header_emitter eo)) (\<lambda>h.
     rbind (foldM (emit_one_function eo) func_list
              \<lparr>es_header = h, es_files = [], es_open = None, es_number = 0\<rparr>) (\<lambda>st.
       case es_open st of
         None \<Rightarrow> Inl AttributeError
       | Some fe \<Rightarrow> Inr (close (es_header st), es_files st @ [close fe])))"

section \<open>The files of a list of functions\<close>

text \<open>The numbered file \<open>n\<close> with the functions \<open>part\<close>, still open.\<close>

definition file_of :: "emit_options \<Rightarrow> nat \<Rightarrow> function_object list \<Rightarrow> file_emitter" where
  "file_of eo n part =
     (numbered_emitter eo n)\<lparr>fe_lines :=
        xed_start_lines (eo_legal eo) True (numbered_emitter eo n) @ concat (map emitted_lines part)\<rparr>"

definition header_of :: "emit_options \<Rightarrow> function_object list \<Rightarrow> file_emitter" where
  "header_of eo funcs =
     (header_emitter eo)\<lparr>fe_lines :=
        xed_start_lines (eo_legal eo) True (header_emitter eo) @ map emit_decl funcs\<rparr>"

definition state_of :: "emit_options \<Rightarrow> function_object list list \<Rightarrow> function_object list \<Rightarrow> emit_state" where
  "state_of eo ps p =
     \<lparr>es_header = header_of eo (concat ps @ p),
      es_files = map (\<lambda>i. close (file_of eo i (ps ! i))) [0..<length ps],
      es_open = Some (file_of eo (length ps) p), es_number = length ps + 1\<rparr>"

definition part_fits :: "emit_options \<Rightarrow> nat \<Rightarrow> function_object list \<Rightarrow> bool" where
  "part_fits eo n part \<longleftrightarrow> part \<noteq> [] \<and> (2 \<le> length part \<longrightarrow> count_lines (file_of eo n part) \<le> eo_max_lines eo + 2)"

lemma fresh_emitter [simp]:
  "fe_closed (numbered_emitter eo n) = False" "fe_lines (numbered_emitter eo n) = []"
  "fe_closed (header_emitter eo) = False" "fe_lines (header_emitter eo) = []"
  by (simp_all add: numbered_emitter_def header_emitter_def xed_file_emitter_new_def add_header_def
      file_emitter_new_def Let_def)

lemma writelines_file [simp]:
  "writelines ls (file_of eo n part) = Inr ((file_of eo n part)\<lparr>fe_lines := fe_lines (file_of eo n part) @ ls\<rparr>)"
  "writelines ls (header_of eo part) = Inr ((header_of eo part)\<lparr>fe_lines := fe_lines (header_of eo part) @ ls\<rparr>)"
  by (simp_all add: writelines_def file_of_def header_of_def)

lemma file_of_add:
  "(file_of eo n part)\<lparr>fe_lines := fe_lines (file_of eo n part) @ emitted_lines f\<rparr> = file_of eo n (part @ [f])"
  "(header_of eo part)\<lparr>fe_lines := fe_lines (header_of eo part) @ [emit_decl f]\<rparr> = header_of eo (part @ [f])"
  by (simp_all add: file_of_def header_of_def)

lemma xed_start_new:
  "xed_start (eo_legal eo) True (numbered_emitter eo n) = Inr (file_of eo n [])"
  "xed_start (eo_legal eo) True (header_emitter eo) = Inr (header_of eo [])"
  by (simp_all add: xed_start_def writelines_def file_of_def header_of_def)

lemma count_file_add: "count_lines (file_of eo n (part @ [f])) = count_lines (file_of eo n part) + fo_lines f + 3"
  by (simp add: count_lines_def file_of_def emitted_lines_def fo_lines_def)

text \<open>No part but the last had room for the first function of the next part.\<close>

definition parts_full :: "emit_options \<Rightarrow> function_object list list \<Rightarrow> bool" where
  "parts_full eo parts \<longleftrightarrow>
     (\<forall>i. Suc i < length parts \<longrightarrow>
       eo_max_lines eo \<le> count_lines (file_of eo i (parts ! i)) + fo_lines (hd (parts ! Suc i)))"

lemma parts_full_append:
  "parts_full eo (ps @ [p]) \<Longrightarrow> eo_max_lines eo \<le> count_lines (file_of eo (length ps) p) + fo_lines f \<Longrightarrow>
    parts_full eo (ps @ [p] @ [[f]])"
  by (auto simp: parts_full_def nth_append less_Suc_eq)

lemma parts_full_extend: "p \<noteq> [] \<Longrightarrow> parts_full eo (ps @ [p]) \<Longrightarrow> parts_full eo (ps @ [p @ [f]])"
  by (auto simp: parts_full_def nth_append less_Suc_eq)

text \<open>A function is added to the open file, or begins the next one.\<close>

lemma emit_one_function_state:
  "emit_one_function eo f (state_of eo ps p) =
     Inr (if eo_max_lines eo \<le> count_lines (file_of eo (length ps) p) + fo_lines f
          then state_of eo (ps @ [p]) [f] else state_of eo ps (p @ [f]))"
proof (cases "eo_max_lines eo \<le> count_lines (file_of eo (length ps) p) + fo_lines f")
  case True
  have "map (\<lambda>i. close (file_of eo i (ps ! i))) [0..<length ps] @ [close (file_of eo (length ps) p)] =
      map (\<lambda>i. close (file_of eo i ((ps @ [p]) ! i))) [0..<length (ps @ [p])]"
    by (simp add: nth_append)
  with True show ?thesis
    using file_of_add(1) [of eo "Suc (length ps)" "[]" f]
    by (simp add: emit_one_function_def state_of_def open_file_def rbind_def xed_start_new file_of_add emit_file_emitter_def)
next
  case False
  then show ?thesis
    by (simp add: emit_one_function_def state_of_def open_file_def rbind_def file_of_add emit_file_emitter_def)
qed

lemma emit_first_function:
  "emit_one_function eo f \<lparr>es_header = header_of eo [], es_files = [], es_open = None, es_number = 0\<rparr> =
     Inr (state_of eo [] [f])"
  using file_of_add(1) [of eo 0 "[]" f]
  by (simp add: emit_one_function_def state_of_def open_file_def rbind_def xed_start_new file_of_add emit_file_emitter_def)

lemma emit_functions_state:
  assumes "\<forall>i < length ps. part_fits eo i (ps ! i)" "part_fits eo (length ps) p" "parts_full eo (ps @ [p])"
  shows "\<exists>ps' p'. foldM (emit_one_function eo) fs (state_of eo ps p) = Inr (state_of eo ps' p') \<and>
    concat ps' @ p' = concat ps @ p @ fs \<and>
    (\<forall>i < length ps'. part_fits eo i (ps' ! i)) \<and> part_fits eo (length ps') p' \<and> parts_full eo (ps' @ [p'])"
  using assms
proof (induction fs arbitrary: ps p)
  case Nil
  then show ?case by (intro exI [of _ ps] exI [of _ p]) simp
next
  case (Cons f fs)
  show ?case
  proof (cases "eo_max_lines eo \<le> count_lines (file_of eo (length ps) p) + fo_lines f")
    case True
    have "\<forall>i < length (ps @ [p]). part_fits eo i ((ps @ [p]) ! i)"
      using Cons.prems by (auto simp: nth_append less_Suc_eq)
    from Cons.IH [OF this, of "[f]"] parts_full_append [OF Cons.prems(3) True] True show ?thesis
      by (simp add: emit_one_function_state rbind_def part_fits_def)
  next
    case False
    then have "part_fits eo (length ps) (p @ [f])" by (simp add: part_fits_def count_file_add)
    moreover have "p \<noteq> []" using Cons.prems(2) by (simp add: part_fits_def)
    ultimately show ?thesis using Cons.IH [OF Cons.prems(1) _ parts_full_extend [OF _ Cons.prems(3)]] False
      by (simp add: emit_one_function_state rbind_def)
  qed
qed

lemma count_close: "count_lines (close (file_of eo n part)) \<le> count_lines (file_of eo n part) + 1"
proof -
  have "\<not> fe_is_header (numbered_emitter eo n)"
    by (simp add: numbered_emitter_def xed_file_emitter_new_def add_header_def file_emitter_new_def Let_def
        numbered_file_name_def header_file_name_def newline_def)
  then have "\<not> fe_is_header (file_of eo n part)" by (simp add: file_of_def)
  then show ?thesis
    by (auto simp: count_lines_def close_def end_lines_def namespace_end_def split: option.splits)
qed

text \<open>
  C11: Emitting a list of functions always returns when there is one: the numbered files hold the
  functions in order, each between the start and the end of its file and at least one per file.  The limit
  is approximate: a file with two or more functions has at most three lines more than it (a function alone
  in its file may be longer), and a file is only ended when its lines and the body of the next function
  reach the limit.  The header declares every function.
\<close>

theorem function_list_files:
  assumes "funcs \<noteq> []"
  shows "\<exists>parts files. emit_function_list eo funcs = Inr (close (header_of eo funcs), files) \<and>
    concat parts = funcs \<and> length files = length parts \<and>
    (\<forall>i < length parts. parts ! i \<noteq> [] \<and> files ! i = close (file_of eo i (parts ! i)) \<and>
       (2 \<le> length (parts ! i) \<longrightarrow> count_lines (files ! i) \<le> eo_max_lines eo + 3)) \<and>
    (\<forall>i. Suc i < length parts \<longrightarrow>
       eo_max_lines eo \<le> count_lines (file_of eo i (parts ! i)) + fo_lines (hd (parts ! Suc i)))"
proof -
  obtain f fs where funcs: "funcs = f # fs" using assms by (cases funcs) auto
  have "part_fits eo (length []) [f]" by (simp add: part_fits_def)
  moreover have "parts_full eo ([] @ [[f]])" by (simp add: parts_full_def)
  ultimately obtain ps p
    where run: "foldM (emit_one_function eo) fs (state_of eo [] [f]) = Inr (state_of eo ps p)"
      and c: "concat ps @ p = f # fs"
      and fits: "\<forall>i < length ps. part_fits eo i (ps ! i)" "part_fits eo (length ps) p"
      and full: "parts_full eo (ps @ [p])"
    using emit_functions_state [of "[]" eo "[f]" fs] by auto
  let ?parts = "ps @ [p]" and ?files = "map (\<lambda>i. close (file_of eo i ((ps @ [p]) ! i))) [0..<length ps + 1]"
  have files: "?files = map (\<lambda>i. close (file_of eo i (ps ! i))) [0..<length ps] @ [close (file_of eo (length ps) p)]"
    by (simp add: nth_append)
  have "foldM (emit_one_function eo) funcs
      \<lparr>es_header = header_of eo [], es_files = [], es_open = None, es_number = 0\<rparr> = Inr (state_of eo ps p)"
    by (simp add: funcs emit_first_function run rbind_def)
  then have "emit_function_list eo funcs = Inr (close (header_of eo funcs), ?files)"
    unfolding files by (simp add: emit_function_list_def xed_start_new rbind_def state_of_def c funcs)
  moreover have "part_fits eo i (?parts ! i)" if "i < length ?parts" for i
    using fits that by (auto simp: nth_append less_Suc_eq)
  then have "?parts ! i \<noteq> [] \<and> ?files ! i = close (file_of eo i (?parts ! i)) \<and>
      (2 \<le> length (?parts ! i) \<longrightarrow> count_lines (?files ! i) \<le> eo_max_lines eo + 3)" if "i < length ?parts" for i
    using that count_close [of eo i "?parts ! i"] by (fastforce simp: part_fits_def simp del: upt_Suc)
  moreover have "concat ?parts = funcs" "length ?files = length ?parts" using c funcs by simp_all
  ultimately show ?thesis using full unfolding parts_full_def by blast
qed

definition sample_options :: emit_options where
  "sample_options =
     \<lparr>eo_prefix = ''xed-enc2'', eo_namespace = None, eo_other_headers = [], eo_max_lines = 20,
      eo_private_header = False, eo_public_headers = [], eo_join = (\<lambda>a b. a @ ''/'' @ b),
      eo_legal = \<lparr>legal_lines = [], legal_year = ''2024''\<rparr>\<rparr>"

definition sample_functions :: "function_object list" where
  "sample_functions =
     [function_call_sequence ''init_a'' [''a0'', ''a1''], function_call_sequence ''init_b'' [''b0''],
      function_call_sequence ''init_c'' [''c0'', ''c1'', ''c2'']]"

theorem function_list_files_witness:
  "\<exists>files. emit_function_list sample_options sample_functions =
     Inr (close (header_of sample_options sample_functions), files) \<and> length files = 2 \<and>
     files ! 0 = close (file_of sample_options 0 (take 2 sample_functions))"
proof -
  have ne: "sample_functions \<noteq> []" by code_simp
  obtain parts files where e: "emit_function_list sample_options sample_functions =
      Inr (close (header_of sample_options sample_functions), files)"
    using function_list_files [OF ne, of sample_options] by blast
  have "case emit_function_list sample_options sample_functions of Inl _ \<Rightarrow> False | Inr (h, files) \<Rightarrow>
      length files = 2 \<and> files ! 0 = close (file_of sample_options 0 (take 2 sample_functions))"
    by code_simp
  then show ?thesis using e by simp
qed

end
