(* ===== verification/Ild_Getters.thy ===== *)
theory Ild_Getters
  imports Ild_Lookup Codegen Operand_Storage
begin

text \<open>
  The functions that set the width of an immediate or a displacement (\<open>pysrc/ild_codegen.py\<close>,
  \<open>ild_imm.py\<close>, \<open>ild_disp.py\<close>, \<open>ild_eosz.py\<close>, \<open>ild_easz.py\<close>).  Level 3 is the lookup function of a
  nonterminal, level 2 calls it with the operand size it needs, level 1 chooses the level-2 function
  of a map and opcode, by an operand when the instructions of the opcode disagree.
\<close>

section \<open>Names and calls\<close>

definition get_derived_op_getter_fn :: "string list \<Rightarrow> string \<Rightarrow> string" where
  "get_derived_op_getter_fn op_nts opname = get_lufn op_nts opname [] @ ''_getter''"

definition get_l2_fn ::
  "string list \<Rightarrow> string \<Rightarrow> string list \<Rightarrow> string option \<Rightarrow> string \<Rightarrow> bool \<Rightarrow> string res" where
  "get_l2_fn target_nt_names target_opname arg_nts arg_name empty_seq_name is_const =
     (if length target_nt_names = 0 then Inr empty_seq_name
      else if 1 < length target_nt_names then Inl (Die ''Cannot generate L2 function name'')
      else rbind (if is_const then Inr ''CONST''
                  else case arg_name of
                         None \<Rightarrow> Inl TypeError
                       | Some a \<Rightarrow> Inr (join ''_'' (arg_nts @ [a]))) (\<lambda>arg_suffix.
             Inr (get_lufn target_nt_names target_opname [] @ ''_'' @ arg_suffix @ ''_l2'')))"

section \<open>Level-2 functions\<close>

definition eol :: "string \<Rightarrow> function_object \<Rightarrow> function_object" where
  "eol line = add_code_eol line None"

definition stmts :: "(function_object \<Rightarrow> function_object) list \<Rightarrow> function_object \<Rightarrow> function_object" where
  "stmts fs fo = fold (\<lambda>f. f) fs fo"

definition op_function :: "string \<Rightarrow> string \<Rightarrow> string \<Rightarrow> function_object" where
  "op_function name ty arg = add_arg arg None (function_object_new name ty True True)"

definition gen_const_l2_function :: "string \<Rightarrow> string \<Rightarrow> string \<Rightarrow> function_object res" where
  "gen_const_l2_function nt_name target_opname ild_t_member =
     rbind (get_l2_fn [nt_name] target_opname [] None [] True) (\<lambda>l2_fn.
       let l3_fn = get_lufn [nt_name] target_opname ''l3'';
           temp_var = ''_'' @ ild_t_member
       in Inr (stmts
            [eol (''xed_bits_t '' @ temp_var),
             eol (temp_var @ '' = (xed_bits_t)'' @ l3_fn @ ''()''),
             eol (get_op_setter_fn ild_t_member @ ''(x, '' @ temp_var @ '')'')]
            (op_function l2_fn ''void'' ''xed_decoded_inst_t* x'')))"

definition param_name :: "string \<times> int \<times> int \<times> string \<Rightarrow> string" where
  "param_name r = ''_'' @ lower (range_name r)"

definition declare_params :: "array_gen \<Rightarrow> function_object \<Rightarrow> function_object" where
  "declare_params a fo = fold (\<lambda>r. eol (''xed_bits_t '' @ param_name r)) (ag_ranges a) fo"

definition read_params :: "array_gen \<Rightarrow> function_object \<Rightarrow> function_object res" where
  "read_params a fo =
     foldM (\<lambda>r fo. rbind (emit_ild_access_call (range_name r) ''x'' False) (\<lambda>access_call.
         Inr (eol (param_name r @ '' = (xed_bits_t)'' @ access_call) fo))) (ag_ranges a) fo"

definition call_text :: "string \<Rightarrow> array_gen \<Rightarrow> string" where
  "call_text lu_fn a = lu_fn @ ''('' @ join '', '' (map param_name (ag_ranges a)) @ '')''"

definition gen_derived_operand_getter ::
  "lookup_ctx \<Rightarrow> string \<Rightarrow> array_gen \<Rightarrow> string list \<Rightarrow> function_object res" where
  "gen_derived_operand_getter agi opname op_arr op_nt_names =
     rbind (dget (lc_ctype agi) opname) (\<lambda>ty.
     rbind (read_params op_arr (declare_params op_arr
              (op_function (get_derived_op_getter_fn op_nt_names opname) ty ''const xed_decoded_inst_t* x'')))
       (\<lambda>fo. Inr (eol (''return '' @ call_text (get_lufn op_nt_names opname []) op_arr) fo)))"

text \<open>The array of an argument is made for a sequence without a level, so that is its lookup function.\<close>

definition gen_scalable_l2_function ::
  "lookup_ctx \<Rightarrow> string \<Rightarrow> string \<Rightarrow> string \<Rightarrow> array_gen \<Rightarrow> string list \<Rightarrow> function_object res" where
  "gen_scalable_l2_function agi nt_name target_opname ild_t_member arg_arr arg_nt_names =
     (case ag_target_op arg_arr of
        None \<Rightarrow> Inl TypeError
      | Some arg_name \<Rightarrow>
          rbind (get_l2_fn [nt_name] target_opname arg_nt_names (Some arg_name) [] False) (\<lambda>l2_fn.
          rbind (dget (lc_ctype agi) arg_name) (\<lambda>arg_type.
            let l3_fn = get_lufn [nt_name] target_opname ''l3'';
                arg_var = ''_'' @ lower arg_name; temp_var = ''_'' @ ild_t_member
            in rbind (read_params arg_arr (declare_params arg_arr
                      (stmts [eol (arg_type @ '' '' @ arg_var), eol (''xed_bits_t '' @ temp_var)]
                        (op_function l2_fn ''void'' ''xed_decoded_inst_t* x'')))) (\<lambda>fo.
                 Inr (stmts
                   [eol (arg_var @ '' = '' @ call_text (get_lufn arg_nt_names arg_name []) arg_arr),
                    eol (temp_var @ '' = (xed_bits_t)'' @ l3_fn @ ''('' @ arg_var @ '')''),
                    eol (get_op_setter_fn ild_t_member @ ''(x, '' @ temp_var @ '')'')] fo)))))"

text \<open>The items of a dictionary in the order of its keys.\<close>

definition sorted_items :: "('k::linorder, 'v) dict \<Rightarrow> ('k \<times> 'v) list" where
  "sorted_items d = sort_key fst d"

definition gen_l2_func_list ::
  "lookup_ctx \<Rightarrow> (string, array_gen) dict \<Rightarrow> (string list, array_gen) dict \<Rightarrow> string
     \<Rightarrow> function_object list res" where
  "gen_l2_func_list agi target_nt_dict arg_nt_dict ild_t_member =
     rbind (mapM (\<lambda>(nt_name, a).
         case ag_target_op a of
           None \<Rightarrow> Inl TypeError
         | Some target_opname \<Rightarrow>
             if is_const_lookup_fun a
             then rbind (gen_const_l2_function nt_name target_opname ild_t_member) (\<lambda>fo. Inr [fo])
             else mapM (\<lambda>(arg_nt_seq, arg_arr).
                      gen_scalable_l2_function agi nt_name target_opname ild_t_member arg_arr arg_nt_seq)
                    (sorted_items arg_nt_dict))
       (sorted_items target_nt_dict)) (\<lambda>fs. Inr (concat fs))"

definition is_constant_l2_func :: "string list \<Rightarrow> (string, array_gen) dict \<Rightarrow> bool res" where
  "is_constant_l2_func nt_seq nt_dict =
     (case nt_seq of
        [] \<Rightarrow> Inr True
      | [nt] \<Rightarrow> rbind (dget nt_dict nt) (\<lambda>nt_arr. Inr (is_const_lookup_fun nt_arr))
      | _ \<Rightarrow> Inl (Die ''Unexpected NT SEQ while determining constness of a l3 function''))"

section \<open>Dispatching on an operand\<close>

text \<open>If statements over intervals of values, or a switch over the values.\<close>

datatype dispatch =
    IntervalDispatch "(int list \<times> string) list"
  | SwitchDispatch "(int \<times> string) list"

definition interval_step ::
  "(int, string) dict \<Rightarrow> int \<Rightarrow> int list \<times> (int list, string) dict
     \<Rightarrow> (int list \<times> (int list, string) dict) res" where
  "interval_step fun_dict key st =
     (case st of (cur_int, int_dict) \<Rightarrow>
       rbind (dget fun_dict key) (\<lambda>f.
       rbind (dget fun_dict (key - 1)) (\<lambda>g.
         if f = g then Inr (cur_int @ [key], int_dict)
         else Inr ([key], dset cur_int g int_dict))))"

definition gen_intervals_dict :: "(int, string) dict \<Rightarrow> (int list, string) dict res" where
  "gen_intervals_dict fun_dict =
     (case sort (dkeys fun_dict) of
        [] \<Rightarrow> Inl IndexError
      | k # ks \<Rightarrow>
          rbind (foldM (interval_step fun_dict) ks ([k], [])) (\<lambda>(cur_int, int_dict).
          rbind (dget fun_dict (List.last (k # ks))) (\<lambda>f. Inr (dset cur_int f int_dict))))"

definition interval_cond :: "int list \<Rightarrow> string \<Rightarrow> string" where
  "interval_cond interval var =
     (let lo = hd interval; hi = List.last interval
      in if lo = 0 \<and> hi \<noteq> 0 then ''('' @ var @ '' <= '' @ str_int hi @ '')''
         else if lo \<noteq> hi
           then ''(('' @ str_int lo @ '' <= '' @ var @ '') && ('' @ var @ '' <= '' @ str_int hi @ ''))''
         else ''('' @ str_int lo @ '' == '' @ var @ '')'')"

definition add_int_dict_dispatching ::
  "(int list \<times> string) list \<Rightarrow> string \<Rightarrow> string \<Rightarrow> function_object \<Rightarrow> function_object" where
  "add_int_dict_dispatching int_dict var data_name fo =
     snd (fold (\<lambda>(interval, f) (starter, fo).
         (''else if'',
          stmts [add_code (starter @ interval_cond interval var @ '' {'') None,
                 eol (f @ ''('' @ data_name @ '')''), eol ''return'', add_code ''}'' None] fo))
       int_dict (''if'', fo))"

definition add_switch_dispatching ::
  "(int \<times> string) list \<Rightarrow> string \<Rightarrow> string \<Rightarrow> function_object \<Rightarrow> function_object" where
  "add_switch_dispatching fun_dict var data_name fo =
     stmts
       [add_code (''switch('' @ var @ '') {'') None,
        fold (\<lambda>(key, f). stmts [add_code (''case '' @ str_int key @ '':'') None,
                 eol (f @ ''('' @ data_name @ '')''), eol ''break'']) fun_dict,
        add_code ''/*We should only get here for #UDs and those have no defined architectural length*/'' None,
        eol ''default: '', add_code ''}'' None] fo"

fun add_dispatching :: "dispatch \<Rightarrow> string \<Rightarrow> string \<Rightarrow> function_object \<Rightarrow> function_object" where
  "add_dispatching (IntervalDispatch d) = add_int_dict_dispatching d"
| "add_dispatching (SwitchDispatch d) = add_switch_dispatching d"

text \<open>The function that the emitted statements call, for a value of the operand.\<close>

definition interval_holds :: "int list \<Rightarrow> int \<Rightarrow> bool" where
  "interval_holds interval v \<longleftrightarrow>
     (let lo = hd interval; hi = List.last interval
      in if lo = 0 \<and> hi \<noteq> 0 then v \<le> hi else if lo \<noteq> hi then lo \<le> v \<and> v \<le> hi else lo = v)"

fun run_dispatch :: "dispatch \<Rightarrow> int \<Rightarrow> string option" where
  "run_dispatch (IntervalDispatch d) v =
     map_option snd (find (\<lambda>e. interval_holds (fst e) v) d)"
| "run_dispatch (SwitchDispatch d) v = map_of d v"

section \<open>Level-1 functions\<close>

text \<open>
  A level-1 function with the operand it reads and how it dispatches.  The functions of an opcode
  are found for the values of the operand; a value whose instructions disagree gives up.  The tests
  for a conflict answer yes or no here, never \<open>None\<close>.
\<close>

record l1_function =
  l1_fo :: function_object
  l1_operand :: string
  l1_dispatch :: dispatch

fun gen_fun_dict ::
  "(ild_info list \<Rightarrow> bool res) \<Rightarrow> (ild_info \<Rightarrow> string res) \<Rightarrow> (int \<Rightarrow> ild_info list) \<Rightarrow> int list
     \<Rightarrow> (int, string) dict \<Rightarrow> (int, string) dict option res" where
  "gen_fun_dict is_conflict_fun gen_l2_fn_fun select [] fun_dict = Inr (Some fun_dict)"
| "gen_fun_dict is_conflict_fun gen_l2_fn_fun select (v # vs) fun_dict =
     (let infos = select v
      in if infos = [] then gen_fun_dict is_conflict_fun gen_l2_fn_fun select vs fun_dict
         else rbind (is_conflict_fun infos) (\<lambda>is_conflict.
                if is_conflict then Inr None
                else rbind (gen_l2_fn_fun (hd infos)) (\<lambda>l2_fn.
                       if l2_fn = [] then Inr None
                       else gen_fun_dict is_conflict_fun gen_l2_fn_fun select vs (dset v l2_fn fun_dict))))"

definition infos_of_reg :: "ild_info list \<Rightarrow> int \<Rightarrow> ild_info list" where
  "infos_of_reg info_list reg = filter (\<lambda>info. nfo_ext_opcode info = Some reg) info_list"

definition infos_of_mode :: "ild_info list \<Rightarrow> int \<Rightarrow> ild_info list" where
  "infos_of_mode info_list m = filter (\<lambda>info. m \<in> set (nfo_mode info)) info_list"

definition reg_values :: "int list" where
  "reg_values = map int [0..<8]"

definition gen_byreg_fun_dict ::
  "(ild_info list \<Rightarrow> bool res) \<Rightarrow> (ild_info \<Rightarrow> string res) \<Rightarrow> ild_info list
     \<Rightarrow> (int, string) dict option res" where
  "gen_byreg_fun_dict is_conflict_fun gen_l2_fn_fun info_list =
     gen_fun_dict is_conflict_fun gen_l2_fn_fun (infos_of_reg info_list) reg_values []"

definition gen_bymode_fun_dict ::
  "(ild_info list \<Rightarrow> bool res) \<Rightarrow> (ild_info \<Rightarrow> string res) \<Rightarrow> int list \<Rightarrow> ild_info list
     \<Rightarrow> (int, string) dict option res" where
  "gen_bymode_fun_dict is_conflict_fun gen_l2_fn_fun machine_modes info_list =
     gen_fun_dict is_conflict_fun gen_l2_fn_fun (infos_of_mode info_list) machine_modes []"

text \<open>The required value of \<open>REX2\<close>; an info without one, or a value without infos, gives up.\<close>

definition rex2_value :: "ild_info \<Rightarrow> int option" where
  "rex2_value info =
     (if ''rex2_refining_prefix'' \<in> set (nfo_ptrn_wrds info) then Some 1
      else if ''norex2_prefix'' \<in> set (nfo_ptrn_wrds info) then Some 0 else None)"

definition infos_of_rex2 :: "ild_info list \<Rightarrow> int \<Rightarrow> ild_info list" where
  "infos_of_rex2 info_list v = filter (\<lambda>info. rex2_value info = Some v) info_list"

definition gen_byrex2_fun_dict ::
  "(ild_info list \<Rightarrow> bool res) \<Rightarrow> (ild_info \<Rightarrow> string res) \<Rightarrow> ild_info list
     \<Rightarrow> (int, string) dict option res" where
  "gen_byrex2_fun_dict is_conflict_fun gen_l2_fn_fun info_list =
     (if list_ex (\<lambda>info. rex2_value info = None) info_list then Inr None
      else if infos_of_rex2 info_list 0 = [] then Inr None
      else rbind (gen_fun_dict is_conflict_fun gen_l2_fn_fun (infos_of_rex2 info_list) [0] []) (\<lambda>d.
             case d of
               None \<Rightarrow> Inr None
             | Some d \<Rightarrow>
                 if infos_of_rex2 info_list 1 = [] then Inr None
                 else gen_fun_dict is_conflict_fun gen_l2_fn_fun (infos_of_rex2 info_list) [1] d))"

definition l1_name :: "string \<Rightarrow> string \<Rightarrow> ild_info list \<Rightarrow> string" where
  "l1_name resolution fn_suffix info_list =
     snd (snd (gen_lu_names [resolution] fn_suffix [])) @
     ''_map'' @ nfo_map (hd info_list) @ ''_op'' @ nfo_opcode (hd info_list) @ ''_l1''"

definition dispatch_of :: "nat \<Rightarrow> (int, string) dict \<Rightarrow> dispatch res" where
  "dispatch_of values fun_dict =
     (if length fun_dict = values
      then rbind (gen_intervals_dict fun_dict) (\<lambda>d. Inr (IntervalDispatch d))
      else Inr (SwitchDispatch fun_dict))"

definition gen_l1_byreg_resolution_function ::
  "(ild_info list \<Rightarrow> bool res) \<Rightarrow> (ild_info \<Rightarrow> string res) \<Rightarrow> string \<Rightarrow> ild_info list
     \<Rightarrow> l1_function option res" where
  "gen_l1_byreg_resolution_function is_conflict_fun gen_l2_fn_fun fn_suffix info_list =
     (if length info_list < 1 then Inr None
      else rbind (gen_byreg_fun_dict is_conflict_fun gen_l2_fn_fun info_list) (\<lambda>fun_dict.
        case fun_dict of
          None \<Rightarrow> Inr None
        | Some fun_dict \<Rightarrow>
            if fun_dict = [] then Inr None
            else rbind (dispatch_of 8 fun_dict) (\<lambda>dispatch.
                 rbind (emit_ild_access_call ''REG'' ''x'' False) (\<lambda>access_call.
                   Inr (Some \<lparr>l1_fo =
                          stmts [eol ''xed_uint8_t _reg'', eol (''_reg = '' @ access_call),
                                 add_dispatching dispatch ''_reg'' ''x'']
                            (op_function (l1_name ''RESOLVE_BYREG'' fn_suffix info_list) ''void'' ''xed_decoded_inst_t* x''),
                        l1_operand = ''REG'', l1_dispatch = dispatch\<rparr>)))))"

definition gen_l1_bymode_resolution_function ::
  "lookup_ctx \<Rightarrow> (ild_info list \<Rightarrow> bool res) \<Rightarrow> (ild_info \<Rightarrow> string res) \<Rightarrow> string \<Rightarrow> ild_info list
     \<Rightarrow> l1_function option res" where
  "gen_l1_bymode_resolution_function agi is_conflict_fun gen_l2_fn_fun fn_suffix info_list =
     (if length info_list < 1 then Inr None
      else rbind (dget (lc_state_space agi) ''MODE'') (\<lambda>machine_modes.
        rbind (gen_bymode_fun_dict is_conflict_fun gen_l2_fn_fun machine_modes info_list) (\<lambda>fun_dict.
        case fun_dict of
          None \<Rightarrow> Inr None
        | Some fun_dict \<Rightarrow>
            if fun_dict = [] then Inr None
            else rbind (dispatch_of (length machine_modes) fun_dict) (\<lambda>dispatch.
                 rbind (emit_ild_access_call ''MODE'' ''x'' False) (\<lambda>access_call.
                   Inr (Some \<lparr>l1_fo =
                          stmts [eol ''xed_bits_t _mode'', eol (''_mode = (xed_bits_t)'' @ access_call),
                                 add_dispatching dispatch ''_mode'' ''x'']
                            (op_function (l1_name ''RESOLVE_BYMODE'' fn_suffix info_list) ''void'' ''xed_decoded_inst_t* x''),
                        l1_operand = ''MODE'', l1_dispatch = dispatch\<rparr>))))))"

definition gen_l1_byrex2_resolution_function ::
  "(ild_info list \<Rightarrow> bool res) \<Rightarrow> (ild_info \<Rightarrow> string res) \<Rightarrow> string \<Rightarrow> ild_info list
     \<Rightarrow> l1_function option res" where
  "gen_l1_byrex2_resolution_function is_conflict_fun gen_l2_fn_fun fn_suffix info_list =
     (if length info_list = 0 then Inr None
      else rbind (gen_byrex2_fun_dict is_conflict_fun gen_l2_fn_fun info_list) (\<lambda>fun_dict.
        case fun_dict of
          None \<Rightarrow> Inr None
        | Some fun_dict \<Rightarrow>
            if fun_dict = [] \<or> list_ex (\<lambda>f. f = []) (dvals fun_dict) then Inr None
            else rbind (emit_ild_access_call ''REX2'' ''x'' False) (\<lambda>access_call.
                   Inr (Some \<lparr>l1_fo =
                          stmts [eol ''xed_bits_t _rex2'', eol (''_rex2 = (xed_bits_t)'' @ access_call),
                                 add_dispatching (SwitchDispatch fun_dict) ''_rex2'' ''x'']
                            (op_function (l1_name ''RESOLVE_BYREX2'' fn_suffix info_list) ''void'' ''xed_decoded_inst_t* x''),
                        l1_operand = ''REX2'', l1_dispatch = SwitchDispatch fun_dict\<rparr>))))"

section \<open>Intervals of values\<close>

definition consec :: "int list \<Rightarrow> bool" where
  "consec i \<longleftrightarrow> i \<noteq> [] \<and> i = [hd i .. List.last i]"

lemma consec_set: "consec i \<Longrightarrow> v \<in> set i \<longleftrightarrow> hd i \<le> v \<and> v \<le> List.last i"
  unfolding consec_def by (metis atLeastAtMost_iff set_upto)

lemma consec_add: "consec i \<Longrightarrow> consec (i @ [List.last i + 1])"
proof -
  assume c: "consec i"
  then have "hd i \<le> List.last i" using consec_set [OF c, of "hd i"] by (auto simp: consec_def)
  then have "[hd i .. List.last i + 1] = [hd i .. List.last i] @ [List.last i + 1]" by (simp add: upto_rec2)
  with c show ?thesis by (auto simp: consec_def)
qed

lemma consec_one: "consec [k]"
  by (simp add: consec_def)

lemma interval_holds_iff: "consec i \<Longrightarrow> 0 \<le> v \<Longrightarrow> interval_holds i v \<longleftrightarrow> v \<in> set i"
  by (auto simp: interval_holds_def consec_set Let_def)

definition intervals_of :: "(int, string) dict \<Rightarrow> (int list, string) dict \<Rightarrow> bool" where
  "intervals_of d int_dict \<longleftrightarrow>
     (\<forall>e \<in> set int_dict. consec (fst e) \<and> (\<forall>v \<in> set (fst e). map_of d v = Some (snd e)))"

definition covered :: "(int list, string) dict \<Rightarrow> int set" where
  "covered int_dict = (\<Union>i \<in> set (dkeys int_dict). set i)"

lemma intervals_of_dset:
  assumes "intervals_of d int_dict" "consec i" "\<forall>v \<in> set i. map_of d v = Some f"
  shows "intervals_of d (dset i f int_dict)" and "covered (dset i f int_dict) = covered int_dict \<union> set i"
proof -
  have "e \<in> set int_dict \<or> e = (i, f)" if "e \<in> set (dset i f int_dict)" for e
    using that by (induction int_dict) (auto split: if_splits)
  then show "intervals_of d (dset i f int_dict)" using assms unfolding intervals_of_def by fastforce
  show "covered (dset i f int_dict) = covered int_dict \<union> set i"
    by (auto simp: covered_def dkeys_dset_set simp del: set_map)
qed

lemma run_intervals:
  assumes i: "intervals_of d int_dict" and c: "covered int_dict = set (dkeys d)" and v: "0 \<le> v"
  shows "run_dispatch (IntervalDispatch int_dict) v = map_of d v"
proof (cases "find (\<lambda>e. interval_holds (fst e) v) int_dict")
  case None
  then have "v \<notin> covered int_dict"
    using i v by (fastforce simp: covered_def intervals_of_def find_None_iff interval_holds_iff)
  then have "map_of d v = None" by (simp add: c map_of_eq_None_iff)
  with None show ?thesis by simp
next
  case (Some e)
  then have "e \<in> set int_dict" "interval_holds (fst e) v" by (auto simp: find_Some_iff)
  with i v have "map_of d v = Some (snd e)" by (auto simp: intervals_of_def interval_holds_iff)
  with Some show ?thesis by simp
qed

lemma interval_step_Inr:
  "interval_step d k (cur, int_dict) = Inr st \<Longrightarrow>
     \<exists>f g. map_of d k = Some f \<and> map_of d (k - 1) = Some g \<and>
       st = (if f = g then (cur @ [k], int_dict) else ([k], dset cur g int_dict))"
  by (cases "map_of d k"; cases "map_of d (k - 1)"; cases "map_of d k = map_of d (k - 1)")
    (simp_all add: interval_step_def rbind_def dget_def)

lemma interval_steps:
  assumes "foldM (interval_step d) ks (cur, int_dict) = Inr (cur', int_dict')"
    and "sorted_wrt (<) (seen @ ks)" "set (seen @ ks) = set (dkeys d)" "seen \<noteq> []"
    and "consec cur" "List.last cur = List.last seen" "\<forall>v \<in> set cur. map_of d v = map_of d (List.last cur)"
    and "intervals_of d int_dict" "covered int_dict \<union> set cur = set seen"
  shows "consec cur' \<and> List.last cur' = List.last (seen @ ks) \<and> (\<forall>v \<in> set cur'. map_of d v = map_of d (List.last cur')) \<and>
    intervals_of d int_dict' \<and> covered int_dict' \<union> set cur' = set (dkeys d)"
  using assms
proof (induction ks arbitrary: cur int_dict seen)
  case Nil
  then show ?case by simp
next
  case (Cons k ks)
  let ?j = "List.last seen"
  from Cons.prems(1) obtain st where one: "interval_step d k (cur, int_dict) = Inr st"
    and rest: "foldM (interval_step d) ks st = Inr (cur', int_dict')"
    by (auto simp: rbind_eq_Inr)
  from interval_step_Inr [OF one] obtain f g where f: "map_of d k = Some f" and g: "map_of d (k - 1) = Some g"
    and st: "st = (if f = g then (cur @ [k], int_dict) else ([k], dset cur g int_dict))" by blast
  have "k - 1 \<in> set (seen @ k # ks)" using g Cons.prems(3) by (metis map_of_None_keys option.discI)
  then have "k - 1 \<in> set seen" using Cons.prems(2) by (fastforce simp: sorted_wrt_append)
  moreover have "?j \<in> set seen" "v \<le> ?j" if "v \<in> set seen" for v
  proof -
    show "?j \<in> set seen" using Cons.prems(4) by simp
    have "sorted_wrt (<) seen" using Cons.prems(2) by (simp add: sorted_wrt_append)
    with that show "v \<le> ?j"
      by (cases seen rule: rev_cases) (auto simp: sorted_wrt_append)
  qed
  moreover have "?j < k" using Cons.prems(2,4) by (simp add: sorted_wrt_append)
  ultimately have j: "?j = k - 1" by force
  have sw: "sorted_wrt (<) ((seen @ [k]) @ ks)" "set ((seen @ [k]) @ ks) = set (dkeys d)"
    using Cons.prems(2,3) by simp_all
  show ?case
  proof (cases "f = g")
    case True
    have "consec (cur @ [k])" using consec_add [OF Cons.prems(5)] by (simp add: Cons.prems(6) j)
    moreover have "\<forall>v \<in> set (cur @ [k]). map_of d v = map_of d (List.last (cur @ [k]))"
      using Cons.prems(6,7) True f g j by simp
    ultimately show ?thesis
      using Cons.IH [of "cur @ [k]" int_dict "seen @ [k]", OF _ sw] rest Cons.prems(8,9) True st by (simp add: Un_assoc)
  next
    case False
    have cg: "\<forall>v \<in> set cur. map_of d v = Some g" using Cons.prems(6,7) g j by simp
    note id = intervals_of_dset [OF Cons.prems(8,5) cg]
    show ?thesis
      using Cons.IH [of "[k]" "dset cur g int_dict" "seen @ [k]", OF _ sw] rest id Cons.prems(9) False st
      by (simp add: consec_one)
  qed
qed

lemma intervals_dict_run:
  assumes g: "gen_intervals_dict d = Inr i" and ok: "dict_ok d" and v: "0 \<le> v"
  shows "run_dispatch (IntervalDispatch i) v = map_of d v"
proof -
  obtain k ks cur int_dict f where ks: "sort (dkeys d) = k # ks"
    and run: "foldM (interval_step d) ks ([k], []) = Inr (cur, int_dict)"
    and f: "map_of d (List.last (k # ks)) = Some f" and i: "i = dset cur f int_dict"
    using g by (auto simp: gen_intervals_dict_def rbind_eq_Inr split: list.splits prod.splits)
  have sw: "sorted_wrt (<) ([k] @ ks)"
    using ok sorted_sort [of "dkeys d"] distinct_sort [of "\<lambda>x. x" "dkeys d"] unfolding ks
    by (auto simp: dict_ok_def less_le strict_sorted_iff)
  have keys: "set ([k] @ ks) = set (dkeys d)" using ks by (metis append_Cons append_Nil set_sort)
  from interval_steps [OF run sw keys, simplified]
  have c: "consec cur \<and> List.last cur = List.last (k # ks) \<and> (\<forall>v \<in> set cur. map_of d v = map_of d (List.last cur)) \<and>
    intervals_of d int_dict \<and> covered int_dict \<union> set cur = set (dkeys d)"
    by (simp add: consec_one intervals_of_def covered_def)
  then have cf: "\<forall>v \<in> set cur. map_of d v = Some f" using f by metis
  have "intervals_of d i" "covered i = set (dkeys d)"
    using intervals_of_dset [of d int_dict cur f] c cf by (auto simp: i simp del: set_map)
  from run_intervals [OF this v] show ?thesis .
qed

end
