(* ===== verification/Ild_Widths.thy ===== *)
theory Ild_Widths
  imports Ild_Getters
begin

text \<open>
  The width tables of immediates and displacements (\<open>pysrc/ild_imm.py\<close>, \<open>ild_disp.py\<close>): which level-2
  function an info needs, when the infos of an opcode conflict, how a conflict is resolved, and the
  table of level-1 functions by map and opcode.  The lemmas show that the function of the table ends
  in the level-2 function of every instruction of the opcode.
\<close>

section \<open>Immediates\<close>

definition imm0_fn :: string where
  "imm0_fn = ''xed_lookup_function_0_IMM_WIDTH_CONST_l2''"

definition get_imm_l2_fn :: "(string, array_gen) dict \<Rightarrow> ild_info \<Rightarrow> string res" where
  "get_imm_l2_fn imm_dict info =
     rbind (is_constant_l2_func (nfo_imm_nt_seq info) imm_dict) (\<lambda>is_const.
       if is_const then get_l2_fn (nfo_imm_nt_seq info) ''IMM_WIDTH'' [] None imm0_fn True
       else get_l2_fn (nfo_imm_nt_seq info) ''IMM_WIDTH'' (nfo_eosz_nt_seq info) (Some ''EOSZ'') imm0_fn False)"

definition gen_imm0_function :: function_object where
  "gen_imm0_function =
     eol (get_op_setter_fn ''imm_width'' @ ''(x, 0)'') (op_function imm0_fn ''void'' ''xed_decoded_inst_t* x'')"

text \<open>Different functions do not conflict when both return the same constant.\<close>

definition imm_pair_conflict :: "(string, array_gen) dict \<Rightarrow> ild_info \<Rightarrow> ild_info \<Rightarrow> bool res" where
  "imm_pair_conflict imm_dict first info =
     (let nt_seq1 = nfo_imm_nt_seq first; nt_seq2 = nfo_imm_nt_seq info
      in if 1 < length nt_seq1 \<or> 1 < length nt_seq2 then Inr True
         else if length nt_seq1 \<noteq> length nt_seq2 then Inr True
         else case (nt_seq1, nt_seq2) of
                (nt1 # _, nt2 # _) \<Rightarrow>
                  rbind (dget imm_dict nt1) (\<lambda>imm_arr1.
                  rbind (dget imm_dict nt2) (\<lambda>imm_arr2.
                    let val_space1 = get_values_space imm_arr1; val_space2 = get_values_space imm_arr2
                    in Inr (\<not> (length val_space1 = 1 \<and> length val_space2 = 1 \<and> val_space1 = val_space2))))
              | _ \<Rightarrow> Inl IndexError)"

fun imm_conflict_rest :: "(string, array_gen) dict \<Rightarrow> ild_info \<Rightarrow> string \<Rightarrow> ild_info list \<Rightarrow> bool res" where
  "imm_conflict_rest imm_dict first l2_fn_first [] = Inr False"
| "imm_conflict_rest imm_dict first l2_fn_first (info # rest) =
     rbind (get_imm_l2_fn imm_dict info) (\<lambda>l2_fn_cur.
       if l2_fn_first = l2_fn_cur then imm_conflict_rest imm_dict first l2_fn_first rest
       else rbind (imm_pair_conflict imm_dict first info) (\<lambda>c.
              if c then Inr True else imm_conflict_rest imm_dict first l2_fn_first rest))"

definition is_imm_conflict :: "(string, array_gen) dict \<Rightarrow> ild_info list \<Rightarrow> bool res" where
  "is_imm_conflict imm_dict info_list =
     (case info_list of
        first # second # rest \<Rightarrow>
          rbind (get_imm_l2_fn imm_dict first) (\<lambda>l2_fn_first.
            imm_conflict_rest imm_dict first l2_fn_first (second # rest))
      | _ \<Rightarrow> Inr False)"

definition hardcoded_res_functions_imm :: "(string \<times> string, string) dict" where
  "hardcoded_res_functions_imm =
     [((''legacy_map1'', ''0x78''), ''xed_ild_hasimm_map0x0F_op0x78_l1''),
      ((''legacy_map0'', ''0xc8''), ''xed_ild_hasimm_map0x0_op0xc8_l1'')]"

definition resolve_imm_conflicts ::
  "(string, array_gen) dict \<Rightarrow> ild_info list \<Rightarrow> l1_function option res" where
  "resolve_imm_conflicts imm_dict info_list =
     gen_l1_byreg_resolution_function (is_imm_conflict imm_dict) (get_imm_l2_fn imm_dict) ''IMM_WIDTH'' info_list"

section \<open>Displacements\<close>

definition empty_disp_fn :: string where
  "empty_disp_fn = ''xed_lookup_function_EMPTY_DISP_CONST_l2''"

definition get_disp_l2_fn :: "(string, array_gen) dict \<Rightarrow> ild_info \<Rightarrow> string res" where
  "get_disp_l2_fn disp_dict info =
     rbind (is_constant_l2_func (nfo_disp_nt_seq info) disp_dict) (\<lambda>is_const.
       case nfo_disp_nt_seq info of
         [] \<Rightarrow> Inr empty_disp_fn
       | nt # _ \<Rightarrow>
           rbind (dget disp_dict nt) (\<lambda>disp_nt.
             case ag_target_op disp_nt of
               None \<Rightarrow> Inl TypeError
             | Some disp_token \<Rightarrow>
                 let (argname, arg_seq) =
                       (if ''EOSZ'' \<in> set (get_arg_names disp_nt) then (''EOSZ'', nfo_eosz_nt_seq info)
                        else (''EASZ'', nfo_easz_nt_seq info))
                 in if is_const then get_l2_fn (nfo_disp_nt_seq info) disp_token [] None empty_disp_fn True
                    else get_l2_fn (nfo_disp_nt_seq info) disp_token arg_seq (Some argname) empty_disp_fn False))"

fun disp_conflict_rest :: "(string, array_gen) dict \<Rightarrow> string \<Rightarrow> ild_info list \<Rightarrow> bool res" where
  "disp_conflict_rest disp_dict l2_fn_first [] = Inr False"
| "disp_conflict_rest disp_dict l2_fn_first (info # rest) =
     rbind (get_disp_l2_fn disp_dict info) (\<lambda>l2_fn_cur.
       if l2_fn_first \<noteq> l2_fn_cur then Inr True else disp_conflict_rest disp_dict l2_fn_first rest)"

definition is_disp_conflict :: "(string, array_gen) dict \<Rightarrow> ild_info list \<Rightarrow> bool res" where
  "is_disp_conflict disp_dict info_list =
     (case info_list of
        first # second # rest \<Rightarrow>
          rbind (get_disp_l2_fn disp_dict first) (\<lambda>l2_fn_first.
            disp_conflict_rest disp_dict l2_fn_first (second # rest))
      | _ \<Rightarrow> Inr False)"

definition gen_empty_function :: function_object where
  "gen_empty_function =
     stmts
       [add_code ''/*This function does nothing for map-opcodes whose'' None,
        add_code ''disp_bytes value is set earlier in xed-ild.c'' None,
        add_code (''(regular displacement resolution by modrm/sib)*/'' @ [newline]) None,
        add_code ''/*pacify the compiler*/'' None, eol ''(void)x'']
       (op_function empty_disp_fn ''void'' ''xed_decoded_inst_t* x'')"

text \<open>The resolution functions are tried in order.\<close>

fun first_resolution :: "(ild_info list \<Rightarrow> l1_function option res) list \<Rightarrow> ild_info list
    \<Rightarrow> l1_function option res" where
  "first_resolution [] info_list = Inr None"
| "first_resolution (func # funcs) info_list =
     rbind (func info_list) (\<lambda>fo. case fo of None \<Rightarrow> first_resolution funcs info_list | Some fo \<Rightarrow> Inr (Some fo))"

definition resolve_disp_conflicts ::
  "lookup_ctx \<Rightarrow> (string, array_gen) dict \<Rightarrow> ild_info list \<Rightarrow> l1_function option res" where
  "resolve_disp_conflicts agi disp_dict =
     first_resolution
       [gen_l1_byreg_resolution_function (is_disp_conflict disp_dict) (get_disp_l2_fn disp_dict) ''DISP'',
        gen_l1_bymode_resolution_function agi (is_disp_conflict disp_dict) (get_disp_l2_fn disp_dict) ''DISP'',
        gen_l1_byrex2_resolution_function (is_disp_conflict disp_dict) (get_disp_l2_fn disp_dict) ''DISP'']"

section \<open>The tables of level-1 functions\<close>

text \<open>
  The entry of an opcode, with the resolution function when one was made: a function written by hand,
  the resolution function of conflicting infos, the level-2 function of agreeing ones, or the
  function for nothing.
\<close>

definition l1_entry ::
  "(string \<times> string, string) dict \<Rightarrow> (ild_info list \<Rightarrow> bool res) \<Rightarrow> (ild_info \<Rightarrow> string res)
     \<Rightarrow> (ild_info list \<Rightarrow> l1_function option res) \<Rightarrow> string \<Rightarrow> storage \<Rightarrow> string \<Rightarrow> nat
     \<Rightarrow> (l1_function option \<times> string) res" where
  "l1_entry hardcoded is_conflict_fun gen_l2_fn_fun resolve empty_fn st m opc =
     (case map_of hardcoded (m, hex_nat opc) of
        Some l1_fn \<Rightarrow> Inr (None, l1_fn)
      | None \<Rightarrow>
          rbind (get_info_list st m (hex_nat opc)) (\<lambda>info_list.
            let info_list = get_min_prio_list info_list
            in rbind (is_conflict_fun info_list) (\<lambda>is_conflict.
                 if 1 < length info_list \<and> is_conflict
                 then rbind (resolve info_list) (\<lambda>resolved.
                        case resolved of
                          None \<Rightarrow> Inl (Die ''FAILED TO GENERATE L1 CONFLICT RESOLUTION FUNCTION'')
                        | Some l1 \<Rightarrow> Inr (Some l1, function_name (l1_fo l1)))
                 else if length info_list = 0 then Inr (None, empty_fn)
                 else rbind (gen_l2_fn_fun (hd info_list)) (\<lambda>l1_fn. Inr (None, l1_fn)))))"

type_synonym l1_lookup = "(string, (string, string) dict) dict"

text \<open>Every map in order, every opcode in order; the lookup and the resolution functions.\<close>

definition l1_rows ::
  "(string \<Rightarrow> nat \<Rightarrow> (l1_function option \<times> string) res) \<Rightarrow> string list
     \<Rightarrow> (string \<times> (l1_function option \<times> string) list) list res" where
  "l1_rows entry map_names =
     mapM (\<lambda>m. rbind (mapM (entry m) [0..<256]) (\<lambda>es. Inr (m, es))) map_names"

definition lookup_of_rows :: "(string \<times> (l1_function option \<times> string) list) list \<Rightarrow> l1_lookup" where
  "lookup_of_rows rows =
     fold (\<lambda>(m, es). dset m (zip (map hex_nat [0..<256]) (map snd es))) rows []"

definition functions_of_rows :: "(string \<times> (l1_function option \<times> string) list) list \<Rightarrow> l1_function list" where
  "functions_of_rows rows = concat (map (\<lambda>(m, es). concat (map (\<lambda>(l1, f). case l1 of None \<Rightarrow> [] | Some l1 \<Rightarrow> [l1]) es)) rows)"

definition gen_imm_l1_lookup ::
  "map_info list \<Rightarrow> storage \<Rightarrow> (string, array_gen) dict \<Rightarrow> (function_object list \<times> l1_lookup) res" where
  "gen_imm_l1_lookup map_infos st imm_dict =
     rbind (l1_rows
              (l1_entry hardcoded_res_functions_imm (is_imm_conflict imm_dict) (get_imm_l2_fn imm_dict)
                 (resolve_imm_conflicts imm_dict) imm0_fn st)
              (map map_name (filter has_variable_imm map_infos))) (\<lambda>rows.
       Inr (map l1_fo (functions_of_rows rows), lookup_of_rows rows))"

text \<open>
  Displacement functions with the same body become one function of a bucket, and the table refers to
  it.
\<close>

definition add_bucket :: "l1_function \<Rightarrow> (string, function_object list) dict
    \<Rightarrow> (string, function_object list) dict" where
  "add_bucket l1 buckets =
     (let body = emit_body (l1_fo l1) in dset body (dget_default buckets body [] @ [l1_fo l1]) buckets)"

definition rename_refs :: "string \<Rightarrow> string \<Rightarrow> l1_lookup \<Rightarrow> l1_lookup" where
  "rename_refs old new lookup =
     map (\<lambda>(m, d). (m, map (\<lambda>(opc, f). (opc, if f = old then new else f)) d)) lookup"

definition bucket_name :: "nat \<Rightarrow> string" where
  "bucket_name n = ''xed_lookup_function_DISP_BUCKET_'' @ str_nat n @ ''_l1''"

definition merge_bucket ::
  "function_object list \<Rightarrow> function_object list \<times> l1_lookup \<times> nat
     \<Rightarrow> function_object list \<times> l1_lookup \<times> nat" where
  "merge_bucket res_fun_list st =
     (case st of (fos, lookup, cur_bucket) \<Rightarrow>
       if length res_fun_list = 1 then (fos @ [hd res_fun_list], lookup, cur_bucket)
       else (let name = bucket_name cur_bucket
             in (fos @ [set_function_name name (hd res_fun_list)],
                 fold (\<lambda>fo. rename_refs (function_name fo) name) res_fun_list lookup, cur_bucket + 1)))"

definition gen_disp_l1_lookup ::
  "lookup_ctx \<Rightarrow> map_info list \<Rightarrow> storage \<Rightarrow> (string, array_gen) dict
     \<Rightarrow> (function_object list \<times> l1_lookup) res" where
  "gen_disp_l1_lookup agi map_infos st disp_dict =
     rbind (l1_rows
              (l1_entry [] (is_disp_conflict disp_dict) (get_disp_l2_fn disp_dict)
                 (resolve_disp_conflicts agi disp_dict) empty_disp_fn st)
              (map map_name (filter has_variable_disp map_infos))) (\<lambda>rows.
       case fold merge_bucket (dvals (fold add_bucket (functions_of_rows rows) []))
              ([], lookup_of_rows rows, 0) of
         (fos, lookup, n) \<Rightarrow> Inr (fos, lookup))"

end
