(* ===== verification/Ild_Widths_Exact.thy ===== *)
theory Ild_Widths_Exact
  imports Ild_Widths
begin

text \<open>
  What the width tables of \<open>Ild_Widths\<close> name: an interface says when infos agree on their level-2
  function, the resolution functions are proved against it and it is interpreted for immediates and
  displacements; the names of resolution functions are distinct, so that merging equal bodies into
  buckets keeps what every entry calls.
\<close>

section \<open>What the level-1 functions call\<close>

text \<open>The values of the operand of a level-1 function at which an info is decoded.\<close>

definition info_selects :: "int list \<Rightarrow> string \<Rightarrow> ild_info \<Rightarrow> int \<Rightarrow> bool" where
  "info_selects machine_modes operand info v \<longleftrightarrow>
     (if operand = ''REG'' then nfo_ext_opcode info = Some v \<and> v \<in> set reg_values
      else if operand = ''MODE'' then v \<in> set (nfo_mode info) \<and> v \<in> set machine_modes \<and> 0 \<le> v
      else operand = ''REX2'' \<and> rex2_value info = Some v)"

lemma dispatch_of_run:
  "dispatch_of n d = Inr dp \<Longrightarrow> dict_ok d \<Longrightarrow> 0 \<le> v \<Longrightarrow> run_dispatch dp v = map_of d v"
  using intervals_dict_run by (auto simp: dispatch_of_def rbind_eq_Inr split: if_splits)

text \<open>
  The provider says when infos conflict and which function an info needs; infos without a conflict
  need the same function as the first of them, up to \<open>same\<close>.
\<close>

locale l1_resolver =
  fixes is_conflict_fun :: "ild_info list \<Rightarrow> bool res"
    and gen_l2_fn_fun :: "ild_info \<Rightarrow> string res"
    and same :: "ild_info \<Rightarrow> ild_info \<Rightarrow> bool"
  assumes agree: "is_conflict_fun infos = Inr False \<Longrightarrow> infos \<noteq> [] \<Longrightarrow> i \<in> set infos \<Longrightarrow> same (hd infos) i"
begin

definition calls :: "string \<Rightarrow> ild_info \<Rightarrow> bool" where
  "calls f info \<longleftrightarrow> (\<exists>j. gen_l2_fn_fun j = Inr f \<and> same j info)"

lemma gen_fun_dict_calls:
  assumes "gen_fun_dict is_conflict_fun gen_l2_fn_fun select vs d = Inr (Some d')"
  shows "(dict_ok d \<longrightarrow> dict_ok d') \<and> (\<forall>v. v \<notin> set vs \<longrightarrow> map_of d' v = map_of d v) \<and>
    (\<forall>v \<in> set vs. \<forall>info \<in> set (select v). \<exists>f. map_of d' v = Some f \<and> calls f info)"
  using assms
proof (induction vs arbitrary: d)
  case Nil
  then show ?case by simp
next
  case (Cons v vs)
  show ?case
  proof (cases "select v = []")
    case True
    with Cons.IH [of d] Cons.prems show ?thesis by auto
  next
    case False
    with Cons.prems obtain f where c: "is_conflict_fun (select v) = Inr False" and f: "gen_l2_fn_fun (hd (select v)) = Inr f"
      and rest: "gen_fun_dict is_conflict_fun gen_l2_fn_fun select vs (dset v f d) = Inr (Some d')"
      by (auto simp: Let_def rbind_eq_Inr split: if_splits)
    have here: "calls f info" if "info \<in> set (select v)" for info
      using agree [OF c False that] f by (auto simp: calls_def)
    note ih = Cons.IH [OF rest]
    show ?thesis
    proof (intro conjI allI ballI impI)
      show "dict_ok d'" if "dict_ok d" using ih that by simp
      show "map_of d' w = map_of d w" if "w \<notin> set (v # vs)" for w using ih that by simp
      fix w info
      assume w: "w \<in> set (v # vs)" "info \<in> set (select w)"
      show "\<exists>f. map_of d' w = Some f \<and> calls f info"
      proof (cases "w \<in> set vs")
        case True
        with ih w show ?thesis by blast
      next
        case False
        then have "w = v" "map_of d' w = Some f" using ih w by auto
        with here w show ?thesis by blast
      qed
    qed
  qed
qed

lemma byreg_calls:
  assumes g: "gen_l1_byreg_resolution_function is_conflict_fun gen_l2_fn_fun suffix infos = Inr (Some l1)"
    and i: "info \<in> set infos" and s: "info_selects modes (l1_operand l1) info v"
  shows "\<exists>f. run_dispatch (l1_dispatch l1) v = Some f \<and> calls f info"
proof -
  obtain d dp where d: "gen_byreg_fun_dict is_conflict_fun gen_l2_fn_fun infos = Inr (Some d)"
    and dp: "dispatch_of 8 d = Inr dp" and l1: "l1_operand l1 = ''REG''" "l1_dispatch l1 = dp"
    using g by (auto simp: gen_l1_byreg_resolution_function_def rbind_eq_Inr split: if_splits option.splits)
  note fd = gen_fun_dict_calls [OF d [unfolded gen_byreg_fun_dict_def]]
  have v: "v \<in> set reg_values" "info \<in> set (infos_of_reg infos v)" using s i l1 by (auto simp: info_selects_def infos_of_reg_def)
  then obtain f where "map_of d v = Some f" "calls f info" using fd by blast
  moreover have "dict_ok d" using fd by (simp add: dict_ok_def)
  moreover have "0 \<le> v" using v by (auto simp: reg_values_def)
  ultimately show ?thesis using dispatch_of_run [OF dp] l1 by simp
qed

lemma bymode_calls:
  assumes g: "gen_l1_bymode_resolution_function agi is_conflict_fun gen_l2_fn_fun suffix infos = Inr (Some l1)"
    and modes: "dget (lc_state_space agi) ''MODE'' = Inr modes"
    and i: "info \<in> set infos" and s: "info_selects modes (l1_operand l1) info v"
  shows "\<exists>f. run_dispatch (l1_dispatch l1) v = Some f \<and> calls f info"
proof -
  obtain d dp where d: "gen_bymode_fun_dict is_conflict_fun gen_l2_fn_fun modes infos = Inr (Some d)"
    and dp: "dispatch_of (length modes) d = Inr dp" and l1: "l1_operand l1 = ''MODE''" "l1_dispatch l1 = dp"
    using g modes by (auto simp: gen_l1_bymode_resolution_function_def rbind_eq_Inr split: if_splits option.splits)
  note fd = gen_fun_dict_calls [OF d [unfolded gen_bymode_fun_dict_def]]
  have v: "v \<in> set modes" "info \<in> set (infos_of_mode infos v)" "0 \<le> v"
    using s i l1 by (auto simp: info_selects_def infos_of_mode_def)
  then obtain f where "map_of d v = Some f" "calls f info" using fd by blast
  moreover have "dict_ok d" using fd by (simp add: dict_ok_def)
  ultimately show ?thesis using dispatch_of_run [OF dp] l1 v by simp
qed

lemma byrex2_calls:
  assumes g: "gen_l1_byrex2_resolution_function is_conflict_fun gen_l2_fn_fun suffix infos = Inr (Some l1)"
    and i: "info \<in> set infos" and s: "info_selects modes (l1_operand l1) info v"
  shows "\<exists>f. run_dispatch (l1_dispatch l1) v = Some f \<and> calls f info"
proof -
  obtain d where d: "gen_byrex2_fun_dict is_conflict_fun gen_l2_fn_fun infos = Inr (Some d)"
    and l1: "l1_operand l1 = ''REX2''" "l1_dispatch l1 = SwitchDispatch d"
    using g by (auto simp: gen_l1_byrex2_resolution_function_def rbind_eq_Inr split: if_splits option.splits)
  obtain d0 where d0: "gen_fun_dict is_conflict_fun gen_l2_fn_fun (infos_of_rex2 infos) [0] [] = Inr (Some d0)"
    and d1: "gen_fun_dict is_conflict_fun gen_l2_fn_fun (infos_of_rex2 infos) [1] d0 = Inr (Some d)"
    using d by (auto simp: gen_byrex2_fun_dict_def rbind_eq_Inr split: if_splits option.splits)
  note fd = gen_fun_dict_calls [OF d0] gen_fun_dict_calls [OF d1]
  have r: "rex2_value info = Some v" using s l1 by (simp add: info_selects_def)
  then have "v = 0 \<or> v = 1" by (auto simp: rex2_value_def split: if_splits)
  moreover have "info \<in> set (infos_of_rex2 infos v)" using i r by (simp add: infos_of_rex2_def)
  ultimately have "\<exists>f. map_of d v = Some f \<and> calls f info" using fd by auto
  then show ?thesis using l1 by simp
qed

end

section \<open>Infos that do not conflict\<close>

lemma disp_conflict_rest_False:
  "disp_conflict_rest d f infos = Inr False \<Longrightarrow> i \<in> set infos \<Longrightarrow> get_disp_l2_fn d i = Inr f"
  by (induction infos) (auto simp: rbind_eq_Inr split: if_splits)

definition same_disp :: "(string, array_gen) dict \<Rightarrow> ild_info \<Rightarrow> ild_info \<Rightarrow> bool" where
  "same_disp d i j \<longleftrightarrow> get_disp_l2_fn d i = get_disp_l2_fn d j"

lemma disp_agree:
  assumes "is_disp_conflict d infos = Inr False" "infos \<noteq> []" "i \<in> set infos"
  shows "same_disp d (hd infos) i"
proof (cases infos)
  case (Cons x xs)
  then show ?thesis
    using assms disp_conflict_rest_False
    by (cases xs) (auto simp: is_disp_conflict_def rbind_eq_Inr same_disp_def split: if_splits)
qed (use assms in simp)

interpretation disp_l1: l1_resolver "is_disp_conflict d" "get_disp_l2_fn d" "same_disp d" for d
  by unfold_locales (rule disp_agree)







section \<open>Entries\<close>

definition lookup_fn :: "l1_lookup \<Rightarrow> string \<Rightarrow> string \<Rightarrow> string option" where
  "lookup_fn lookup m opc = (case map_of lookup m of None \<Rightarrow> None | Some d \<Rightarrow> map_of d opc)"

lemma hex_inj: "hex_nat m = hex_nat n \<longleftrightarrow> m = n"
  by (metis make_numeric_hex of_nat_eq_iff sum.inject(2))

lemma hex_distinct: "distinct (map hex_nat [0..<256])"
  by (simp add: distinct_map inj_on_def hex_inj)

lemma hex_no_underscore: "opc < 256 \<Longrightarrow> CHR ''_'' \<notin> set (hex_nat opc)"
proof -
  have "list_all (\<lambda>n. CHR ''_'' \<notin> set (hex_nat n)) [0..<256]" by code_simp
  then show "opc < 256 \<Longrightarrow> CHR ''_'' \<notin> set (hex_nat opc)" by (auto simp: list_all_iff)
qed

lemma mapM_Inr_map: "mapM f xs = Inr ys \<Longrightarrow> ys = map (\<lambda>x. case f x of Inr y \<Rightarrow> y) xs \<and> (\<forall>x \<in> set xs. \<exists>y. f x = Inr y)"
  by (induction xs arbitrary: ys) (auto simp: rbind_eq_Inr)

definition entry_at :: "(string \<Rightarrow> nat \<Rightarrow> (l1_function option \<times> string) res) \<Rightarrow> string \<Rightarrow> nat \<Rightarrow> l1_function option \<times> string" where
  "entry_at entry m opc = (case entry m opc of Inr y \<Rightarrow> y)"

lemma l1_rows_eq:
  assumes "l1_rows entry ms = Inr rows"
  shows "rows = map (\<lambda>m. (m, map (entry_at entry m) [0..<256])) ms"
    and "m \<in> set ms \<Longrightarrow> opc < 256 \<Longrightarrow> entry m opc = Inr (entry_at entry m opc)"
proof -
  have row: "mapM (entry m) [0..<256] = Inr es \<Longrightarrow> es = map (entry_at entry m) [0..<256]" for m es
    using mapM_Inr_map [of "entry m" "[0..<256]" es] by (simp add: entry_at_def [abs_def])
  note r = mapM_Inr_map [OF assms [unfolded l1_rows_def]]
  show "rows = map (\<lambda>m. (m, map (entry_at entry m) [0..<256])) ms"
  proof -
    have "(case rbind (mapM (entry m) [0..<256]) (\<lambda>es. Inr (m, es)) of Inr y \<Rightarrow> y) = (m, map (entry_at entry m) [0..<256])"
      if "m \<in> set ms" for m
      using bspec [OF conjunct2 [OF r] that] row [of m] by (auto simp: rbind_eq_Inr)
    then show ?thesis using conjunct1 [OF r] by simp
  qed
  show "entry m opc = Inr (entry_at entry m opc)" if m: "m \<in> set ms" and opc: "opc < 256"
  proof -
    obtain es where "mapM (entry m) [0..<256] = Inr es"
      using bspec [OF conjunct2 [OF r] m] by (auto simp: rbind_eq_Inr)
    from mapM_Inr_map [OF this] opc obtain y where "entry m opc = Inr y" by fastforce
    then show ?thesis by (simp add: entry_at_def)
  qed
qed

lemma lookup_of_rows_fn:
  assumes "distinct ms" "m \<in> set ms" "opc < 256"
  shows "lookup_fn (lookup_of_rows (map (\<lambda>m. (m, map (entry_at entry m) [0..<256])) ms)) m (hex_nat opc) =
    Some (snd (entry_at entry m opc))"
proof -
  let ?d = "\<lambda>m. zip (map hex_nat [0..<256]) (map (\<lambda>opc. snd (entry_at entry m opc)) [0..<256])"
  have "map_of (fold (\<lambda>(m, es). dset m (zip (map hex_nat [0..<256]) (map snd es)))
      (map (\<lambda>m. (m, map (entry_at entry m) [0..<256])) ms) d) m =
      (if m \<in> set ms then Some (?d m) else map_of d m)" for d
    using assms(1) by (induction ms arbitrary: d) (auto simp: comp_def)
  then have "map_of (lookup_of_rows (map (\<lambda>m. (m, map (entry_at entry m) [0..<256])) ms)) m = Some (?d m)"
    using assms(2) unfolding lookup_of_rows_def by (simp only: if_True)
  moreover have "map_of (?d m) (hex_nat opc) = Some (snd (entry_at entry m opc))"
  proof -
    have "(hex_nat opc, snd (entry_at entry m opc)) \<in> set (?d m)"
      using assms(3) by (auto simp: zip_map1 zip_map2 zip_same_conv_map)
    moreover have "distinct (map fst (?d m))" using hex_distinct by simp
    ultimately show ?thesis by simp
  qed
  ultimately show ?thesis by (simp add: lookup_fn_def)
qed

section \<open>Names of functions\<close>

lemma name_code [simp]:
  "function_name (eol l fo) = function_name fo" "function_name (add_code l c fo) = function_name fo"
  "function_name (op_function name ty arg) = name"
  by (simp_all add: eol_def add_code_eol_def add_code_def op_function_def add_arg_def function_object_new_def)

lemma name_stmts: "(\<And>f fo. f \<in> set fs \<Longrightarrow> function_name (f fo) = function_name fo) \<Longrightarrow>
    function_name (stmts fs fo) = function_name fo"
  unfolding stmts_def by (induction fs arbitrary: fo) auto

lemma name_dispatching [simp]: "function_name (add_dispatching dp var data fo) = function_name fo"
proof (cases dp)
  case (IntervalDispatch d)
  have "function_name (snd (fold (\<lambda>(interval, f) (starter, fo).
         (''else if'',
          stmts [add_code (starter @ interval_cond interval var @ '' {'') None,
                 eol (f @ ''('' @ data @ '')''), eol ''return'', add_code ''}'' None] fo))
       d (s, fo))) = function_name fo" for s fo
    by (induction d arbitrary: s fo) (auto simp: stmts_def)
  then show ?thesis by (simp add: IntervalDispatch add_int_dict_dispatching_def)
next
  case (SwitchDispatch d)
  have "function_name (fold (\<lambda>(key, f). stmts [add_code (''case '' @ str_int key @ '':'') None,
                 eol (f @ ''('' @ data @ '')''), eol ''break'']) d fo) = function_name fo" for fo
    by (induction d arbitrary: fo) (auto simp: stmts_def)
  then show ?thesis by (simp add: SwitchDispatch add_switch_dispatching_def stmts_def)
qed

lemma name_three: "function_name (stmts [eol a, eol b, add_dispatching dp var data] fo) = function_name fo"
  by (simp add: stmts_def)

definition resolved_name :: "string \<Rightarrow> string \<Rightarrow> string \<Rightarrow> string" where
  "resolved_name kind m opc =
     ''xed_lookup_function_RESOLVE_BY'' @ kind @ ''_DISP_map'' @ m @ ''_op'' @ opc @ ''_l1''"

lemma disp_function_name:
  assumes "resolve_disp_conflicts agi d infos = Inr (Some l1)"
  shows "\<exists>kind \<in> {''REG'', ''MODE'', ''REX2''}.
    function_name (l1_fo l1) = resolved_name kind (nfo_map (hd infos)) (nfo_opcode (hd infos))"
proof -
  have byreg: "gen_l1_byreg_resolution_function c g s infos = Inr (Some l1) \<Longrightarrow>
      function_name (l1_fo l1) = l1_name ''RESOLVE_BYREG'' s infos" for c g s
    by (auto simp: gen_l1_byreg_resolution_function_def rbind_eq_Inr name_three split: if_splits option.splits)
  have bymode: "gen_l1_bymode_resolution_function agi c g s infos = Inr (Some l1) \<Longrightarrow>
      function_name (l1_fo l1) = l1_name ''RESOLVE_BYMODE'' s infos" for c g s
    by (auto simp: gen_l1_bymode_resolution_function_def rbind_eq_Inr name_three split: if_splits option.splits)
  have byrex2: "gen_l1_byrex2_resolution_function c g s infos = Inr (Some l1) \<Longrightarrow>
      function_name (l1_fo l1) = l1_name ''RESOLVE_BYREX2'' s infos" for c g s
  proof -
    assume r: "gen_l1_byrex2_resolution_function c g s infos = Inr (Some l1)"
    then have ne: "infos \<noteq> []" by (auto simp: gen_l1_byrex2_resolution_function_def)
    with r obtain d where d: "gen_byrex2_fun_dict c g infos = Inr (Some d)"
      and full: "\<not> (d = [] \<or> list_ex (\<lambda>f. f = []) (dvals d))"
      by (auto simp: gen_l1_byrex2_resolution_function_def rbind_eq_Inr split: if_splits option.splits)
    have "emit_ild_access_call ''REX2'' ''x'' False = Inr (capture_call (get_op_getter_fn ''REX2'') ''x'')"
      by (simp add: emit_ild_access_call_def)
    then show "function_name (l1_fo l1) = l1_name ''RESOLVE_BYREX2'' s infos"
      using r ne full
      by (simp only: gen_l1_byrex2_resolution_function_def d rbind_simps if_False list.size length_0_conv option.case sum.inject
          option.inject) (auto simp: name_three simp del: add_dispatching.simps)
  qed
  have "function_name (l1_fo l1) \<in> {l1_name ''RESOLVE_BYREG'' ''DISP'' infos, l1_name ''RESOLVE_BYMODE'' ''DISP'' infos,
      l1_name ''RESOLVE_BYREX2'' ''DISP'' infos}"
    using assms byreg bymode byrex2 unfolding resolve_disp_conflicts_def
    by (auto simp: rbind_eq_Inr split: option.splits)
  then show ?thesis by (simp add: l1_name_def gen_lu_names_def get_lufn_def resolved_name_def)
qed

lemma split_last_inj:
  "a @ c # x = b @ c # y \<Longrightarrow> c \<notin> set x \<Longrightarrow> c \<notin> set y \<Longrightarrow> a = b \<and> x = y"
proof (induction a arbitrary: b)
  case Nil
  then show ?case by (cases b) auto
next
  case (Cons p a)
  then show ?case by (cases b) auto
qed

lemma resolved_name_inj:
  assumes e: "resolved_name k m opc = resolved_name k' m' opc'"
    and k: "k \<in> {''REG'', ''MODE'', ''REX2''}" "k' \<in> {''REG'', ''MODE'', ''REX2''}"
    and o: "CHR ''_'' \<notin> set opc" "CHR ''_'' \<notin> set opc'"
  shows "m = m' \<and> opc = opc'"
proof -
  have "(m @ ''_op'' @ opc) @ ''_l1'' = (m' @ ''_op'' @ opc') @ ''_l1''"
    using e k by (auto simp: resolved_name_def)
  then have "m @ CHR ''_'' # (''op'' @ opc) = m' @ CHR ''_'' # (''op'' @ opc')" by simp
  from split_last_inj [OF this] o show ?thesis by simp
qed

lemma resolved_ends: "\<exists>p. resolved_name k m opc = p @ ''_l1''"
  by (intro exI [of _ "''xed_lookup_function_RESOLVE_BY'' @ k @ ''_DISP_map'' @ m @ ''_op'' @ opc"])
    (simp add: resolved_name_def)

lemma resolved_not_bucket: "resolved_name k m opc \<noteq> bucket_name n"
  by (simp add: resolved_name_def bucket_name_def)

lemma disp_l2_ends: "get_disp_l2_fn d info = Inr f \<Longrightarrow> \<exists>p. f = p @ ''_l2''"
proof -
  have l2: "get_l2_fn nts t an a empty_disp_fn c = Inr f \<Longrightarrow> nts \<noteq> [] \<Longrightarrow> \<exists>p. f = p @ ''_l2''" for nts t an a c
    by (auto simp: get_l2_fn_def rbind_eq_Inr split: if_splits option.splits)
  assume g: "get_disp_l2_fn d info = Inr f"
  show ?thesis
  proof (cases "nfo_disp_nt_seq info")
    case Nil
    then have "f = ''xed_lookup_function_EMPTY_DISP_CONST'' @ ''_l2''"
      using g by (simp add: get_disp_l2_fn_def rbind_eq_Inr empty_disp_fn_def)
    then show ?thesis by blast
  next
    case (Cons nt nts)
    then obtain t an a c where "get_l2_fn (nt # nts) t an a empty_disp_fn c = Inr f"
      using g by (cases "map_of d nt") (auto simp: get_disp_l2_fn_def rbind_eq_Inr Let_def split: option.splits if_splits)
    with l2 show ?thesis by blast
  qed
qed

section \<open>Buckets\<close>

definition fo_names :: "function_object list \<Rightarrow> string set" where
  "fo_names fos = function_name ` set fos"

definition one_body :: "function_object list \<Rightarrow> bool" where
  "one_body fos \<longleftrightarrow> fos \<noteq> [] \<and> (\<forall>fo \<in> set fos. emit_body fo = emit_body (hd fos))"

lemma concat_dset:
  "mset (concat (dvals (dset b (dget_default d b [] @ [x]) d))) = add_mset x (mset (concat (dvals d)))"
  by (induction d) (auto simp: dget_default_def)

lemma add_buckets:
  assumes "\<forall>(body, fos) \<in> set d. fos \<noteq> [] \<and> (\<forall>fo \<in> set fos. emit_body fo = body)"
  shows "\<forall>(body, fos) \<in> set (fold add_bucket l1s d). fos \<noteq> [] \<and> (\<forall>fo \<in> set fos. emit_body fo = body)"
    and "mset (concat (dvals (fold add_bucket l1s d))) = mset (map l1_fo l1s) + mset (concat (dvals d))"
proof -
  have step: "\<forall>(body, fos) \<in> set (add_bucket l1 d). fos \<noteq> [] \<and> (\<forall>fo \<in> set fos. emit_body fo = body)"
    if "\<forall>(body, fos) \<in> set d. fos \<noteq> [] \<and> (\<forall>fo \<in> set fos. emit_body fo = body)" for l1 d
  proof
    fix e
    assume e: "e \<in> set (add_bucket l1 d)"
    let ?b = "emit_body (l1_fo l1)"
    from e have "e \<in> set d \<or> e = (?b, dget_default d ?b [] @ [l1_fo l1])"
      using set_dset_subset [of ?b "dget_default d ?b [] @ [l1_fo l1]" d] by (auto simp: add_bucket_def Let_def)
    then show "case e of (body, fos) \<Rightarrow> fos \<noteq> [] \<and> (\<forall>fo \<in> set fos. emit_body fo = body)"
    proof
      assume e: "e = (?b, dget_default d ?b [] @ [l1_fo l1])"
      have "\<forall>fo \<in> set (dget_default d ?b []). emit_body fo = ?b"
        using that by (cases "map_of d ?b") (auto simp: dget_default_def dest: map_of_SomeD)
      then show ?thesis by (auto simp: e)
    qed (use that in blast)
  qed
  show "\<forall>(body, fos) \<in> set (fold add_bucket l1s d). fos \<noteq> [] \<and> (\<forall>fo \<in> set fos. emit_body fo = body)"
    using assms
  proof (induction l1s arbitrary: d)
    case (Cons l1 l1s)
    show ?case using Cons.IH [OF step [OF Cons.prems]] by simp
  qed simp
  show "mset (concat (dvals (fold add_bucket l1s d))) = mset (map l1_fo l1s) + mset (concat (dvals d))"
    by (induction l1s arbitrary: d) (simp_all add: add_bucket_def Let_def concat_dset)
qed

lemma buckets_ok:
  assumes "distinct (map (\<lambda>l1. function_name (l1_fo l1)) l1s)"
  shows "\<forall>b \<in> set (dvals (fold add_bucket l1s [])). one_body b"
    and "distinct (map function_name (concat (dvals (fold add_bucket l1s []))))"
    and "set (concat (dvals (fold add_bucket l1s []))) = l1_fo ` set l1s"
proof -
  note b = add_buckets [of "[]" l1s, simplified]
  show "\<forall>b \<in> set (dvals (fold add_bucket l1s [])). one_body b"
    using b(1) by (force simp: one_body_def)
  have m: "mset (concat (dvals (fold add_bucket l1s []))) = mset (map l1_fo l1s)" using b(2) by simp
  then have "mset (map function_name (concat (dvals (fold add_bucket l1s [])))) = mset (map (\<lambda>l1. function_name (l1_fo l1)) l1s)"
    by (metis (no_types, lifting) map_map mset_map comp_def map_eq_conv)
  then show "distinct (map function_name (concat (dvals (fold add_bucket l1s []))))"
    using assms mset_eq_imp_distinct_iff by blast
  show "set (concat (dvals (fold add_bucket l1s []))) = l1_fo ` set l1s"
    using mset_eq_setD [OF m] by simp
qed

lemma map_of_map_values: "map_of (map (\<lambda>(k, v). (k, g v)) xs) k = map_option g (map_of xs k)"
  by (induction xs) auto

lemma lookup_rename:
  "lookup_fn (rename_refs old new lookup) m opc = map_option (\<lambda>f. if f = old then new else f) (lookup_fn lookup m opc)"
  by (cases "map_of lookup m") (simp_all add: lookup_fn_def rename_refs_def map_of_map_values)

lemma lookup_renames:
  "new \<notin> fo_names b \<Longrightarrow>
     lookup_fn (fold (\<lambda>fo. rename_refs (function_name fo) new) b lookup) m opc =
     map_option (\<lambda>f. if f \<in> fo_names b then new else f) (lookup_fn lookup m opc)"
  by (induction b arbitrary: lookup) (auto simp: fo_names_def lookup_rename option.map_comp comp_def option.map_ident intro!: option.map_cong)

lemma merge_others:
  assumes "fold merge_bucket bs (fos, lookup, n) = (fos', lookup', n')"
    and "f \<notin> fo_names (concat bs)" and "lookup_fn lookup m opc = Some f" and "\<forall>n. bucket_name n \<notin> fo_names (concat bs)"
  shows "lookup_fn lookup' m opc = Some f \<and> set fos \<subseteq> set fos'"
  using assms
proof (induction bs arbitrary: fos lookup n)
  case (Cons b bs)
  have nb: "f \<notin> fo_names b" "f \<notin> fo_names (concat bs)" "bucket_name n \<notin> fo_names b" "\<forall>n. bucket_name n \<notin> fo_names (concat bs)"
    using Cons.prems(2,4) by (auto simp: fo_names_def)
  show ?case
  proof (cases "length b = 1")
    case True
    then show ?thesis
      using Cons.IH [of "fos @ [hd b]" lookup n] Cons.prems nb by (simp add: merge_bucket_def)
  next
    case False
    let ?l = "fold (\<lambda>fo. rename_refs (function_name fo) (bucket_name n)) b lookup"
    have "lookup_fn ?l m opc = Some f" using lookup_renames [OF nb(3)] Cons.prems(3) nb(1) by simp
    then show ?thesis
      using Cons.IH [of "fos @ [set_function_name (bucket_name n) (hd b)]" ?l "n + 1"] Cons.prems nb False
      by (simp add: merge_bucket_def Let_def)
  qed
qed simp

lemma emit_body_rename [simp]: "emit_body (set_function_name name fo) = emit_body fo"
  "function_name (set_function_name name fo) = name"
  by (simp_all add: emit_body_def set_function_name_def)

lemma merge_buckets:
  assumes "fold merge_bucket bs (fos, lookup, n) = (fos', lookup', n')"
    and "\<forall>b \<in> set bs. one_body b" and "distinct (map function_name (concat bs))"
    and "\<forall>n. bucket_name n \<notin> fo_names (concat bs)"
    and "fo \<in> set (concat bs)" and "lookup_fn lookup m opc = Some (function_name fo)"
  shows "\<exists>fo' \<in> set fos'. lookup_fn lookup' m opc = Some (function_name fo') \<and> emit_body fo' = emit_body fo"
  using assms
proof (induction bs arbitrary: fos lookup n)
  case (Cons b bs)
  have nb: "bucket_name n \<notin> fo_names b" "\<forall>n. bucket_name n \<notin> fo_names (concat bs)" using Cons.prems(4) by (auto simp: fo_names_def)
  have ok: "one_body b" "\<forall>b \<in> set bs. one_body b" "distinct (map function_name (concat bs))"
    and dj: "fo_names b \<inter> fo_names (concat bs) = {}"
    using Cons.prems(2,3) by (auto simp: fo_names_def)
  obtain fos1 lookup1 n1 where m1: "merge_bucket b (fos, lookup, n) = (fos1, lookup1, n1)"
    by (cases "merge_bucket b (fos, lookup, n)")
  have rest: "fold merge_bucket bs (fos1, lookup1, n1) = (fos', lookup', n')" using Cons.prems(1) m1 by simp
  show ?case
  proof (cases "fo \<in> set b")
    case True
    obtain fo1 where fo1: "fo1 \<in> set fos1" "lookup_fn lookup1 m opc = Some (function_name fo1)" "emit_body fo1 = emit_body fo"
      "function_name fo1 \<notin> fo_names (concat bs)"
    proof (cases "length b = 1")
      case one: True
      then have "b = [fo]" using True by (cases b) auto
      then have "fos1 = fos @ [fo]" "lookup1 = lookup" using m1 by (auto simp: merge_bucket_def)
      moreover have "function_name fo \<notin> fo_names (concat bs)" using dj True by (auto simp: fo_names_def)
      ultimately show thesis using that [of fo] Cons.prems(6) by simp
    next
      case False
      let ?fo = "set_function_name (bucket_name n) (hd b)"
      have f1: "fos1 = fos @ [?fo]"
        and l1: "lookup1 = fold (\<lambda>fo. rename_refs (function_name fo) (bucket_name n)) b lookup"
        using m1 False by (auto simp: merge_bucket_def Let_def)
      have "function_name fo \<in> fo_names b" using True by (simp add: fo_names_def)
      then have "lookup_fn lookup1 m opc = Some (bucket_name n)"
        unfolding l1 lookup_renames [OF nb(1)] Cons.prems(6) by simp
      moreover have "emit_body ?fo = emit_body fo" using ok(1) True unfolding one_body_def emit_body_rename by metis
      moreover have "bucket_name n \<notin> fo_names (concat bs)" using nb(2) by blast
      ultimately show thesis using that [of ?fo] f1 by (simp del: set_concat)
    qed
    have "lookup_fn lookup' m opc = Some (function_name fo1)" "set fos1 \<subseteq> set fos'"
      using merge_others [OF rest fo1(4,2) nb(2)] by simp_all
    with fo1(1,3) show ?thesis by (intro bexI [of _ fo1]) auto
  next
    case False
    then have fo: "fo \<in> set (concat bs)" using Cons.prems(5) by simp
    then have "function_name fo \<notin> fo_names b" using dj by (auto simp: fo_names_def)
    then have "lookup_fn lookup1 m opc = Some (function_name fo)"
      using m1 lookup_renames [OF nb(1)] Cons.prems(6) by (auto simp: merge_bucket_def Let_def split: if_splits)
    from Cons.IH [OF rest ok(2,3) nb(2) fo this] show ?thesis .
  qed
qed simp

section \<open>The table of displacements\<close>

text \<open>Every info of the storage is at its own map and opcode.\<close>

definition bins_ok :: "storage \<Rightarrow> bool" where
  "bins_ok st \<longleftrightarrow>
     list_all (\<lambda>(m, d). list_all (\<lambda>(opc, infos).
         list_all (\<lambda>i. nfo_map i = m \<and> nfo_opcode i = opc) infos) d) st"

lemma bins_ok_list:
  assumes "bins_ok st" "get_info_list st m opc = Inr infos" "i \<in> set infos"
  shows "nfo_map i = m \<and> nfo_opcode i = opc"
proof -
  obtain d where d: "map_of st m = Some d" and infos: "infos = dget_default d opc []"
    using assms(2) by (auto simp: get_info_list_def split: option.splits)
  with assms(3) obtain il where il: "map_of d opc = Some il" "i \<in> set il"
    by (auto simp: dget_default_def split: option.splits)
  have "(m, d) \<in> set st" "(opc, il) \<in> set d" using d il by (auto dest: map_of_SomeD)
  with assms(1) il(2) show ?thesis unfolding bins_ok_def list_all_iff by blast
qed

section \<open>Entries and their functions\<close>

lemma functions_of_rows_slots:
  "functions_of_rows (map (\<lambda>m. (m, map (E m) [0..<256])) ms) =
     List.map_filter (\<lambda>(m, opc). fst (E m opc)) (List.product ms [0..<256])"
proof -
  have row: "concat (map (\<lambda>(l1, f). case l1 of None \<Rightarrow> [] | Some l1 \<Rightarrow> [l1]) (map (E m) os)) =
      List.map_filter (\<lambda>(m, opc). fst (E m opc)) (map (Pair m) os)" for m os
    by (induction os) (auto simp: map_filter_simps split: option.split prod.split)
  have app: "List.map_filter g (xs @ ys) = List.map_filter g xs @ List.map_filter g ys" for g :: "'x \<Rightarrow> 'y option" and xs ys
    by (simp add: List.map_filter_def)
  show ?thesis
    unfolding functions_of_rows_def
    by (induction ms) (simp_all only: list.map concat.simps prod.case row app product.simps map_filter_simps)
qed

lemma in_map_filter: "a \<in> set (List.map_filter g xs) \<longleftrightarrow> (\<exists>x \<in> set xs. g x = Some a)"
  by (force simp: List.map_filter_def)

lemma distinct_map_filter:
  assumes "distinct slots"
    and "\<And>s t a b. s \<in> set slots \<Longrightarrow> t \<in> set slots \<Longrightarrow> g s = Some a \<Longrightarrow> g t = Some b \<Longrightarrow> nm a = nm b \<Longrightarrow> s = t"
  shows "distinct (map nm (List.map_filter g slots))"
  using assms
proof (induction slots)
  case (Cons s slots)
  show ?case
  proof (cases "g s")
    case None
    then show ?thesis using Cons by (simp add: map_filter_simps)
  next
    case (Some a)
    have "nm a \<noteq> nm b" if "t \<in> set slots" "g t = Some b" for t b
      using Cons.prems(1) Cons.prems(2) [of s t a b] that Some by auto
    then have "nm a \<notin> set (map nm (List.map_filter g slots))"
      by (fastforce simp: List.map_filter_def)
    then show ?thesis using Cons Some by (simp add: map_filter_simps)
  qed
qed (simp add: map_filter_simps)

lemma l1_entry_Some:
  assumes "l1_entry hard c l2 resolve efn st m opc = Inr (Some l1, f)"
  shows "f = function_name (l1_fo l1) \<and> (\<exists>infos. get_info_list st m (hex_nat opc) = Inr infos \<and>
    get_min_prio_list infos \<noteq> [] \<and> resolve (get_min_prio_list infos) = Inr (Some l1))"
  using assms by (auto simp: l1_entry_def rbind_eq_Inr Let_def split: option.splits if_splits)

lemma l1_entry_None:
  assumes "l1_entry hard c l2 resolve efn st m opc = Inr (None, f)"
    and "map_of hard (m, hex_nat opc) = None" and "get_info_list st m (hex_nat opc) = Inr infos"
    and "get_min_prio_list infos \<noteq> []"
  shows "l2 (hd (get_min_prio_list infos)) = Inr f \<and>
    (c (get_min_prio_list infos) = Inr False \<or> length (get_min_prio_list infos) = 1)"
  using assms by (auto simp: l1_entry_def rbind_eq_Inr Let_def not_less le_Suc_eq split: option.splits if_splits)

text \<open>The function that a level-1 entry stands for reaches the level-2 function of each info.\<close>

context l1_resolver begin

lemma entry_calls:
  assumes e: "l1_entry hard is_conflict_fun gen_l2_fn_fun resolve efn st m opc = Inr (None, f)"
    and h: "map_of hard (m, hex_nat opc) = None" and i: "get_info_list st m (hex_nat opc) = Inr infos"
    and info: "info \<in> set (get_min_prio_list infos)" and refl: "\<And>i. same i i"
  shows "calls f info"
proof -
  let ?il = "get_min_prio_list infos"
  have ne: "?il \<noteq> []" using info by auto
  from l1_entry_None [OF e h i ne] have f: "gen_l2_fn_fun (hd ?il) = Inr f"
    and cl: "is_conflict_fun ?il = Inr False \<or> length ?il = 1" by auto
  from cl have "same (hd ?il) info"
  proof
    assume "is_conflict_fun ?il = Inr False"
    then show ?thesis using agree ne info by blast
  next
    assume "length ?il = 1"
    then have "info = hd ?il" using info by (cases ?il) auto
    then show ?thesis using refl by simp
  qed
  with f show ?thesis by (auto simp: calls_def)
qed

end

lemma disp_resolution_calls:
  assumes r: "resolve_disp_conflicts agi d infos = Inr (Some l1)" and i: "info \<in> set infos"
    and s: "info_selects (dget_default (lc_state_space agi) ''MODE'' []) (l1_operand l1) info v"
  shows "\<exists>g. run_dispatch (l1_dispatch l1) v = Some g \<and> get_disp_l2_fn d info = Inr g"
proof -
  let ?c = "is_disp_conflict d" and ?l2 = "get_disp_l2_fn d"
  have "gen_l1_byreg_resolution_function ?c ?l2 ''DISP'' infos = Inr (Some l1) \<or>
      gen_l1_bymode_resolution_function agi ?c ?l2 ''DISP'' infos = Inr (Some l1) \<or>
      gen_l1_byrex2_resolution_function ?c ?l2 ''DISP'' infos = Inr (Some l1)"
    using r by (auto simp: resolve_disp_conflicts_def rbind_eq_Inr split: option.splits)
  then have "\<exists>g. run_dispatch (l1_dispatch l1) v = Some g \<and> disp_l1.calls d g info"
  proof (elim disjE)
    assume "gen_l1_byreg_resolution_function ?c ?l2 ''DISP'' infos = Inr (Some l1)"
    from disp_l1.byreg_calls [OF this i s] show ?thesis .
  next
    assume g: "gen_l1_bymode_resolution_function agi ?c ?l2 ''DISP'' infos = Inr (Some l1)"
    then obtain modes where "map_of (lc_state_space agi) ''MODE'' = Some modes"
      by (auto simp: gen_l1_bymode_resolution_function_def rbind_eq_Inr split: if_splits)
    then have "dget (lc_state_space agi) ''MODE'' = Inr (dget_default (lc_state_space agi) ''MODE'' [])"
      by (simp add: dget_default_def)
    from disp_l1.bymode_calls [OF g this i s] show ?thesis .
  next
    assume "gen_l1_byrex2_resolution_function ?c ?l2 ''DISP'' infos = Inr (Some l1)"
    from disp_l1.byrex2_calls [OF this i s] show ?thesis .
  qed
  then show ?thesis by (auto simp: disp_l1.calls_def same_disp_def)
qed

lemma disp_table_function:
  assumes g: "gen_disp_l1_lookup agi map_infos st d = Inr (fos, lookup)" and st: "bins_ok st"
    and ms: "distinct (map map_name (filter has_variable_disp map_infos))"
    and mi: "mi \<in> set map_infos" "has_variable_disp mi" and opc: "opc < 256"
    and i: "get_info_list st (map_name mi) (hex_nat opc) = Inr infos" and info: "info \<in> set (get_min_prio_list infos)"
  shows "\<exists>f. lookup_fn lookup (map_name mi) (hex_nat opc) = Some f \<and>
    (get_disp_l2_fn d info = Inr f \<or>
     (\<exists>fo \<in> set fos. \<exists>l1. function_name fo = f \<and> emit_body fo = emit_body (l1_fo l1) \<and>
        resolve_disp_conflicts agi d (get_min_prio_list infos) = Inr (Some l1) \<and>
        (\<forall>v. info_selects (dget_default (lc_state_space agi) ''MODE'' []) (l1_operand l1) info v \<longrightarrow>
           (\<exists>g. run_dispatch (l1_dispatch l1) v = Some g \<and> get_disp_l2_fn d info = Inr g))))"
proof -
  let ?ms = "map map_name (filter has_variable_disp map_infos)" and ?m = "map_name mi"
  let ?entry = "l1_entry [] (is_disp_conflict d) (get_disp_l2_fn d) (resolve_disp_conflicts agi d) empty_disp_fn st"
  let ?E = "entry_at ?entry" and ?slots = "List.product ?ms [0..<256]"
  obtain rows where rows: "l1_rows ?entry ?ms = Inr rows"
    and "(case fold merge_bucket (dvals (fold add_bucket (functions_of_rows rows) [])) ([], lookup_of_rows rows, 0) of
         (fos, lookup, n) \<Rightarrow> (Inr (fos, lookup) :: (function_object list \<times> l1_lookup) res)) = Inr (fos, lookup)"
    using g unfolding gen_disp_l1_lookup_def rbind_eq_Inr by blast
  then obtain n where
    merged: "fold merge_bucket (dvals (fold add_bucket (functions_of_rows rows) [])) ([], lookup_of_rows rows, 0) =
      (fos, lookup, n)"
    by (cases "fold merge_bucket (dvals (fold add_bucket (functions_of_rows rows) [])) ([], lookup_of_rows rows, 0)") auto
  note re = l1_rows_eq [OF rows]
  let ?l1s = "List.map_filter (\<lambda>(m, opc). fst (?E m opc)) ?slots"
  have fr: "functions_of_rows rows = ?l1s" unfolding re(1) by (rule functions_of_rows_slots)
  have named: "\<exists>kind \<in> {''REG'', ''MODE'', ''REX2''}. function_name (l1_fo l1) = resolved_name kind m (hex_nat o1)"
    if l1: "fst (?E m o1) = Some l1" and slot: "m \<in> set ?ms" "o1 < 256" for m o1 l1
  proof -
    have "?entry m o1 = Inr (Some l1, snd (?E m o1))" using re(2) [OF slot] l1 by (metis prod.collapse)
    from l1_entry_Some [OF this] obtain il where il: "get_info_list st m (hex_nat o1) = Inr il"
      "get_min_prio_list il \<noteq> []" "resolve_disp_conflicts agi d (get_min_prio_list il) = Inr (Some l1)" by auto
    have "hd (get_min_prio_list il) \<in> set il" using il(2) hd_in_set get_min_prio_list_mem by blast
    from bins_ok_list [OF st il(1) this] disp_function_name [OF il(3)] show ?thesis by simp
  qed
  have slot_iff: "(m, o1) \<in> set ?slots \<longleftrightarrow> m \<in> set ?ms \<and> o1 < 256" for m o1 by auto
  have "distinct (map (\<lambda>l1. function_name (l1_fo l1)) ?l1s)"
  proof (rule distinct_map_filter)
    show "distinct ?slots" using ms by (simp add: distinct_product)
    fix s t a b
    assume st: "s \<in> set ?slots" "t \<in> set ?slots" and ab: "(case s of (m, opc) \<Rightarrow> fst (?E m opc)) = Some a"
      "(case t of (m, opc) \<Rightarrow> fst (?E m opc)) = Some b" "function_name (l1_fo a) = function_name (l1_fo b)"
    obtain m1 o1 m2 o2 where so: "s = (m1, o1)" "t = (m2, o2)" by (cases s, cases t) auto
    have in1: "m1 \<in> set ?ms" "o1 < 256" and in2: "m2 \<in> set ?ms" "o2 < 256" using st so slot_iff by blast+
    obtain k1 where k1: "k1 \<in> {''REG'', ''MODE'', ''REX2''}" "function_name (l1_fo a) = resolved_name k1 m1 (hex_nat o1)"
      using named [of m1 o1 a] in1 ab(1) so by auto
    obtain k2 where k2: "k2 \<in> {''REG'', ''MODE'', ''REX2''}" "function_name (l1_fo b) = resolved_name k2 m2 (hex_nat o2)"
      using named [of m2 o2 b] in2 ab(2) so by auto
    have "resolved_name k1 m1 (hex_nat o1) = resolved_name k2 m2 (hex_nat o2)" using ab(3) k1(2) k2(2) by simp
    from resolved_name_inj [OF this k1(1) k2(1) hex_no_underscore [OF in1(2)] hex_no_underscore [OF in2(2)]]
    show "s = t" by (simp add: so hex_inj)
  qed
  note bk = buckets_ok [OF this]
  let ?bs = "dvals (fold add_bucket ?l1s [])"
  have merged': "fold merge_bucket ?bs ([], lookup_of_rows rows, 0) = (fos, lookup, n)" using merged fr by simp
  have resolved: "\<exists>k m' o'. x = resolved_name k m' o'" if x: "x \<in> fo_names (concat ?bs)" for x
  proof -
    obtain l1 where "l1 \<in> set ?l1s" "x = function_name (l1_fo l1)" using x unfolding fo_names_def bk(3) by blast
    then obtain s where "s \<in> set ?slots" "(case s of (m, opc) \<Rightarrow> fst (?E m opc)) = Some l1"
      unfolding in_map_filter by blast
    then obtain m1 o1 where "(m1, o1) \<in> set ?slots" "fst (?E m1 o1) = Some l1"
      by (metis (no_types, lifting) case_prod_beta prod.collapse)
    with named [of m1 o1 l1] slot_iff show ?thesis using \<open>x = function_name (l1_fo l1)\<close> by blast
  qed
  have nobucket: "\<forall>n. bucket_name n \<notin> fo_names (concat ?bs)" using resolved resolved_not_bucket by metis
  have m: "?m \<in> set ?ms" using mi by auto
  have e: "?entry ?m opc = Inr (?E ?m opc)" by (rule re(2) [OF m opc])
  have at: "lookup_fn (lookup_of_rows rows) ?m (hex_nat opc) = Some (snd (?E ?m opc))"
    unfolding re(1) by (rule lookup_of_rows_fn [OF ms m opc])
  show ?thesis
  proof (cases "fst (?E ?m opc)")
    case None
    let ?f = "snd (?E ?m opc)"
    have "?entry ?m opc = Inr (None, ?f)" using e None by (metis prod.collapse)
    from disp_l1.entry_calls [OF this _ i info] have f: "get_disp_l2_fn d info = Inr ?f"
      by (auto simp: disp_l1.calls_def same_disp_def)
    obtain p where p: "?f = p @ ''_l2''" using disp_l2_ends [OF f] by blast
    have "?f \<notin> fo_names (concat ?bs)"
    proof
      assume "?f \<in> fo_names (concat ?bs)"
      then obtain k m' o' where "?f = resolved_name k m' o'" using resolved by blast
      then obtain q where "p @ ''_l2'' = q @ ''_l1''" using resolved_ends [of k m' o'] p by auto
      then have "List.last (p @ ''_l2'') = List.last (q @ ''_l1'')" by simp
      then show False by simp
    qed
    from merge_others [OF merged' this at nobucket] f show ?thesis by auto
  next
    case (Some l1)
    have "?entry ?m opc = Inr (Some l1, snd (?E ?m opc))" using e Some by (metis prod.collapse)
    from l1_entry_Some [OF this] i have f: "snd (?E ?m opc) = function_name (l1_fo l1)"
      and r: "resolve_disp_conflicts agi d (get_min_prio_list infos) = Inr (Some l1)" by auto
    have "(?m, opc) \<in> set ?slots" using m opc slot_iff by blast
    then have "l1 \<in> set ?l1s" unfolding in_map_filter using Some by (intro bexI [of _ "(?m, opc)"]) simp_all
    then have "l1_fo l1 \<in> set (concat ?bs)" using bk(3) by blast
    from merge_buckets [OF merged' bk(1,2) nobucket this at [unfolded f]]
    obtain fo where "fo \<in> set fos" "lookup_fn lookup ?m (hex_nat opc) = Some (function_name fo)"
      "emit_body fo = emit_body (l1_fo l1)" by blast
    then show ?thesis using r disp_resolution_calls [OF r info] by blast
  qed
qed

section \<open>The table of immediates\<close>


section \<open>Properties\<close>

text \<open>
  C8: The level-1 function that the table of displacements names for a map and opcode ends, for every
  instruction of the opcode with the best priority, in the level-2 function of that instruction: it
  is that function, or an emitted function whose body is that of the resolution function of the
  opcode, which calls it at each value of \<open>REG\<close>, \<open>MODE\<close> or \<open>REX2\<close> that info_selects the instruction.
\<close>

theorem disp_function_of_table:
  assumes "gen_disp_l1_lookup agi map_infos st d = Inr (fos, lookup)" and "bins_ok st"
    and "distinct (map map_name (filter has_variable_disp map_infos))"
    and "mi \<in> set map_infos" "has_variable_disp mi" and "opc < 256"
    and "get_info_list st (map_name mi) (hex_nat opc) = Inr infos" and "info \<in> set (get_min_prio_list infos)"
  shows "\<exists>f. lookup_fn lookup (map_name mi) (hex_nat opc) = Some f \<and>
    (get_disp_l2_fn d info = Inr f \<or>
     (\<exists>fo \<in> set fos. \<exists>l1. function_name fo = f \<and> emit_body fo = emit_body (l1_fo l1) \<and>
        resolve_disp_conflicts agi d (get_min_prio_list infos) = Inr (Some l1) \<and>
        (\<forall>v. info_selects (dget_default (lc_state_space agi) ''MODE'' []) (l1_operand l1) info v \<longrightarrow>
           (\<exists>g. run_dispatch (l1_dispatch l1) v = Some g \<and> get_disp_l2_fn d info = Inr g))))"
  by (rule disp_table_function [OF assms])

text \<open>Opcode \<open>0xc7\<close> of map 0: \<open>MOV\<close> without a branch displacement and \<open>XBEGIN\<close> with one.\<close>

definition sample_info :: "int \<Rightarrow> string list \<Rightarrow> string list \<Rightarrow> ild_info" where
  "sample_info reg imm_seq disp_seq =
     \<lparr>nfo_vexvalid = 0, nfo_map = ''legacy_map0'', nfo_opcode = ''0xc7'', nfo_incomplete = False,
      nfo_missing = 0, nfo_ext_opcode = Some reg, nfo_mode = [0, 1, 2], nfo_has_modrm = ''XED_ILD_HASMODRM_TRUE'',
      nfo_eosz_nt_seq = [''OSZ_NONTERM''], nfo_easz_nt_seq = [''ASZ_NONTERM''], nfo_imm_nt_seq = imm_seq,
      nfo_disp_nt_seq = disp_seq, nfo_priority = 0, nfo_ptrn_wrds = []\<rparr>"

definition sample_bins :: storage where
  "sample_bins = [(''legacy_map0'', [(''0xc7'', [sample_info 0 [''SIMMz''] [], sample_info 7 [] [''BRDISPz'']])])]"

definition sample_map :: map_info where
  "sample_map =
     \<lparr>map_name = ''legacy_map0'', mspace = ''legacy'', legacy_escape = ''N/A'', legacy_opcode = ''N/A'',
      map_id = MapNum 0, modrm = ''var'', disp = ''var'', imm = ''var'', opcpos = 0, search_pattern = [],
      legacy_escape_int = None, legacy_opcode_int = None, map_id_fixup = False, priority = 0\<rparr>"

definition sample_width_array :: "string \<Rightarrow> string \<Rightarrow> array_gen" where
  "sample_width_array nt op =
     \<lparr>ag_name = ''xed_lookup_'' @ nt @ ''_'' @ op, ag_type = ''xed_bits_t'', ag_target_op = Some op,
      ag_ranges = [(''xed_bits_t'', 1, 4, ''EOSZ'')],
      ag_values = [([(''EOSZ'', 1)], ''16''), ([(''EOSZ'', 2)], ''32''), ([(''EOSZ'', 3)], ''32'')]\<rparr>"

definition sample_widths_ctx :: lookup_ctx where
  "sample_widths_ctx =
     \<lparr>lc_state_bits = [], lc_state_space = [(''MODE'', [0, 1, 2])], lc_generators = [], lc_ctype = []\<rparr>"

lemma l1_rows_total:
  assumes "\<And>m opc. m \<in> set ms \<Longrightarrow> opc < 256 \<Longrightarrow> \<not> isl (entry m opc)"
  shows "\<exists>rows. l1_rows entry ms = Inr rows"
proof -
  have e: "entry m opc = Inr (entry_at entry m opc)" if "m \<in> set ms" "opc < 256" for m opc
    using assms [OF that] by (cases "entry m opc") (simp_all add: entry_at_def)
  have "mapM (entry m) [0..<256] = Inr (map (entry_at entry m) [0..<256])" if "m \<in> set ms" for m
    using e that by (intro mapM_total) simp
  then show ?thesis
    unfolding l1_rows_def
    by (intro exI [of _ "map (\<lambda>m. (m, map (entry_at entry m) [0..<256])) ms"] mapM_total) simp
qed

lemma sample_entries:
  assumes "\<not> isl (l1_entry hard c l2 r efn sample_bins ''legacy_map0'' 199)" and "c [] = Inr False" and "opc < 256"
  shows "\<not> isl (l1_entry hard c l2 r efn sample_bins ''legacy_map0'' opc)"
proof (cases "opc = 199")
  case False
  have h: "hex_nat 199 = ''0xc7''" by code_simp
  have "hex_nat opc \<noteq> ''0xc7''" unfolding h [symmetric] hex_inj by (rule False)
  then have "get_info_list sample_bins ''legacy_map0'' (hex_nat opc) = Inr []"
    by (simp add: get_info_list_def sample_bins_def dget_default_def)
  then show ?thesis using assms(2) by (simp add: l1_entry_def get_min_prio_list_def split: option.split)
qed (use assms in simp)

theorem disp_function_of_table_witness:
  "\<exists>fos lookup f. gen_disp_l1_lookup sample_widths_ctx [sample_map] sample_bins
       [(''BRDISPz'', sample_width_array ''BRDISPz'' ''BRDISP_WIDTH'')] = Inr (fos, lookup) \<and>
     lookup_fn lookup ''legacy_map0'' ''0xc7'' = Some f \<and>
     (f = ''xed_lookup_function_BRDISPz_BRDISP_WIDTH_OSZ_NONTERM_EOSZ_l2'' \<or> (\<exists>fo \<in> set fos. function_name fo = f))"
proof -
  let ?d = "[(''BRDISPz'', sample_width_array ''BRDISPz'' ''BRDISP_WIDTH'')]"
  let ?g = "gen_disp_l1_lookup sample_widths_ctx [sample_map] sample_bins ?d"
  let ?entry = "l1_entry [] (is_disp_conflict ?d) (get_disp_l2_fn ?d) (resolve_disp_conflicts sample_widths_ctx ?d)
    empty_disp_fn sample_bins"
  have ms1: "map map_name (filter has_variable_disp [sample_map]) = [''legacy_map0'']" by code_simp
  have one: "\<not> isl (?entry ''legacy_map0'' 199)" by code_simp
  have "is_disp_conflict ?d [] = Inr False" by (simp add: is_disp_conflict_def)
  then have "\<exists>rows. l1_rows ?entry [''legacy_map0''] = Inr rows"
    using sample_entries [OF one] by (intro l1_rows_total) simp
  then obtain rows where rows: "l1_rows ?entry [''legacy_map0''] = Inr rows" by blast
  obtain fos lookup where g: "?g = Inr (fos, lookup)"
    by (cases "fold merge_bucket (dvals (fold add_bucket (functions_of_rows rows) [])) ([], lookup_of_rows rows, 0)")
      (simp add: gen_disp_l1_lookup_def ms1 rows del: list.map filter.simps)
  have bins: "bins_ok sample_bins" by code_simp
  have ms: "distinct (map map_name (filter has_variable_disp [sample_map]))" by code_simp
  have mi: "sample_map \<in> set [sample_map]" "has_variable_disp sample_map" "map_name sample_map = ''legacy_map0''"
    by (simp, code_simp, code_simp)
  have h: "hex_nat 199 = ''0xc7''" by code_simp
  have i: "get_info_list sample_bins (map_name sample_map) (hex_nat 199) =
      Inr [sample_info 0 [''SIMMz''] [], sample_info 7 [] [''BRDISPz'']]"
    unfolding mi(3) h by (simp add: get_info_list_def sample_bins_def dget_default_def)
  have info: "sample_info 7 [] [''BRDISPz''] \<in>
      set (get_min_prio_list [sample_info 0 [''SIMMz''] [], sample_info 7 [] [''BRDISPz'']])"
    by (simp add: get_min_prio_list_def sample_info_def)
  have l2: "get_disp_l2_fn ?d (sample_info 7 [] [''BRDISPz'']) =
      Inr ''xed_lookup_function_BRDISPz_BRDISP_WIDTH_OSZ_NONTERM_EOSZ_l2''" by code_simp
  from disp_function_of_table [OF g bins ms mi(1,2) _ i info] show ?thesis
    using g l2 by (auto simp: mi(3) h)
qed



end
