(* ===== verification/Hash_Functions.thy ===== *)
theory Hash_Functions
  imports Tuple_Key
begin

text \<open>
  The three families of hash functions (\<open>pysrc/xedhash.py\<close>, \<open>hashfks.py\<close>, \<open>hashlin.py\<close>,
  \<open>hashmul.py\<close>): their Python \<open>apply\<close>, the C expression each emits, and the searches that pick
  one for a set of keys.  A class is a record and its methods are functions of the record.

  The interface every class promises the table generator is the locale \<open>hash_fun\<close>: on the
  keys it accepts, \<open>apply\<close> is an index of the table, and the emitted C expression evaluated on
  a 64-bit key is that index.  An emitted expression is a value of \<open>cexpr\<close>; \<open>show_cexpr\<close> is the
  text the code emits for it and \<open>eval_cexpr\<close> its meaning on an \<open>xed_uint64_t\<close> key.
\<close>

section \<open>Emitted expressions\<close>

text \<open>
  One constructor per expression shape.  In all of them one operand is an \<open>xed_uint64_t\<close>, so C
  computes modulo \<open>2 ^ 64\<close>; \<open>t.s.lo32\<close> and \<open>u.s.hi32\<close> are the 32-bit halves of an
  \<open>xed_union64_t\<close>.
\<close>

datatype cexpr =
    CZero
  | CZeroParen
  | CMulMod int int
  | CMulModMod int int int
  | CSubConst int
  | CMulShift int nat
  | CMulMulHi int int

fun show_cexpr :: "string \<Rightarrow> cexpr \<Rightarrow> string" where
  "show_cexpr key CZero = ''0''"
| "show_cexpr key CZeroParen = ''(0)''"
| "show_cexpr key (CMulMod k p) =
     ''('' @ str_int k @ ''*'' @ key @ '' % '' @ str_int p @ '')''"
| "show_cexpr key (CMulModMod k p m) =
     ''(('' @ str_int k @ ''*'' @ key @ '' % '' @ str_int p @ '') % '' @ str_int m @ '')''"
| "show_cexpr key (CSubConst k) = key @ '' - '' @ str_int k"
| "show_cexpr key (CMulShift g lg) =
     ''(t.u64 = '' @ str_int g @ ''  * '' @ key @ '',  t.s.lo32 >> (32-'' @ str_nat lg @ ''))''"
| "show_cexpr key (CMulMulHi g n) =
     ''(t.u64 = '' @ str_int g @ ''  * '' @ key @ '', u.u64 = t.s.lo32 * '' @ str_int n
       @ ''ULL, u.s.hi32)''"

definition lo32 :: "64 word \<Rightarrow> 64 word" where
  "lo32 w = take_bit 32 w"

definition hi32 :: "64 word \<Rightarrow> 64 word" where
  "hi32 w = drop_bit 32 w"

fun eval_cexpr :: "cexpr \<Rightarrow> 64 word \<Rightarrow> 64 word" where
  "eval_cexpr CZero key = 0"
| "eval_cexpr CZeroParen key = 0"
| "eval_cexpr (CMulMod k p) key = (word_of_int k * key) mod word_of_int p"
| "eval_cexpr (CMulModMod k p m) key =
     ((word_of_int k * key) mod word_of_int p) mod word_of_int m"
| "eval_cexpr (CSubConst k) key = key - word_of_int k"
| "eval_cexpr (CMulShift g lg) key = drop_bit (32 - lg) (lo32 (word_of_int g * key))"
| "eval_cexpr (CMulMulHi g n) key = hi32 (lo32 (word_of_int g * key) * word_of_int n)"

section \<open>The interface of a hash function\<close>

locale hash_fun =
  fixes happly :: "'h \<Rightarrow> int \<Rightarrow> int"
    and hsize :: "'h \<Rightarrow> int"
    and hexpr :: "'h \<Rightarrow> cexpr"
    and hok :: "'h \<Rightarrow> int \<Rightarrow> bool"
  assumes happly_range: "hok h x \<Longrightarrow> 0 \<le> happly h x \<and> happly h x < hsize h"
    and hexpr_happly: "hok h x \<Longrightarrow> uint (eval_cexpr (hexpr h) (word_of_int x)) = happly h x"
begin

lemma happly_index: "hok h x \<Longrightarrow> nat (happly h x) < nat (hsize h)"
  using happly_range by fastforce

lemma unat_hexpr: "hok h x \<Longrightarrow> unat (eval_cexpr (hexpr h) (word_of_int x)) = nat (happly h x)"
  by (simp add: unat_eq_nat_uint hexpr_happly)

end

section \<open>\<open>xedhash.py\<close>: perfection and distribution\<close>

text \<open>
  \<open>is_perfect\<close> returns the set of buckets, or \<open>None\<close> at the first collision.  Its callers test
  the result's truth value, so the empty set counts as failure.
\<close>

fun is_perfect_loop :: "int list \<Rightarrow> (int \<Rightarrow> int) \<Rightarrow> int set \<Rightarrow> int set option" where
  "is_perfect_loop [] hash_f bucket = Some bucket"
| "is_perfect_loop (x # keylist) hash_f bucket =
     (let hash_val = hash_f x
      in if hash_val \<in> bucket then None
         else is_perfect_loop keylist hash_f (insert hash_val bucket))"

definition is_perfect :: "int list \<Rightarrow> (int \<Rightarrow> int) \<Rightarrow> int set option" where
  "is_perfect keylist hash_f = is_perfect_loop keylist hash_f {}"

definition truthy :: "int set option \<Rightarrow> bool" where
  "truthy r = (case r of None \<Rightarrow> False | Some b \<Rightarrow> b \<noteq> {})"

lemma is_perfect_loop_Some_iff:
  "is_perfect_loop xs f b = Some r \<longleftrightarrow>
     distinct (map f xs) \<and> f ` set xs \<inter> b = {} \<and> r = b \<union> f ` set xs"
  by (induction xs arbitrary: b) (auto simp: Let_def)

lemma is_perfect_Some_iff:
  "is_perfect xs f = Some r \<longleftrightarrow> distinct (map f xs) \<and> r = f ` set xs"
  by (simp add: is_perfect_def is_perfect_loop_Some_iff)

lemma truthy_is_perfect:
  "truthy (is_perfect xs f) \<longleftrightarrow> xs \<noteq> [] \<and> distinct (map f xs)"
  by (auto simp: truthy_def is_perfect_Some_iff split: option.splits)
     (metis is_perfect_Some_iff option.distinct(1))

definition measure_bucket_max :: "(int, 'a list) dict \<Rightarrow> nat \<Rightarrow> bool" where
  "measure_bucket_max table maxbin = list_all (\<lambda>(k, vl). length vl < maxbin) table"

fun add_to_buckets :: "(int \<Rightarrow> int) \<Rightarrow> ('a \<times> int) list \<Rightarrow> (int, 'a list) dict \<Rightarrow> (int, 'a list) dict"
where
  "add_to_buckets hash_f [] table = table"
| "add_to_buckets hash_f ((t, x) # items) table =
     (let hash_val = hash_f x
      in add_to_buckets hash_f items
           (dset hash_val (dget_default table hash_val [] @ [t]) table))"

definition is_well_distributed :: "('a \<times> int) list \<Rightarrow> (int \<Rightarrow> int) \<Rightarrow> nat \<Rightarrow> bool" where
  "is_well_distributed keylist hash_f maxbin =
     measure_bucket_max (add_to_buckets hash_f keylist []) maxbin"

text \<open>What the buckets hold: the tuples of each hash value, in the order of the dictionary.\<close>

lemma add_to_buckets_ok: "dict_ok table \<Longrightarrow> dict_ok (add_to_buckets f items table)"
  by (induction f items table rule: add_to_buckets.induct) (auto simp: Let_def)

lemma add_to_buckets_get:
  "dget_default (add_to_buckets f items table) h [] =
     dget_default table h [] @ map fst (filter (\<lambda>(t, x). f x = h) items)"
  by (induction f items table rule: add_to_buckets.induct)
     (auto simp: Let_def dget_default_def split: option.splits)

lemma add_to_buckets_keys:
  "fst ` set (add_to_buckets f items table) = fst ` set table \<union> f ` snd ` set items"
  by (induction f items table rule: add_to_buckets.induct)
     (auto simp: Let_def dom_map_of_conv_image_fst [symmetric] dom_update)

definition bucket_of :: "(int \<Rightarrow> int) \<Rightarrow> ('a \<times> int) list \<Rightarrow> int \<Rightarrow> 'a list" where
  "bucket_of f items h = map fst (filter (\<lambda>(t, x). f x = h) items)"

lemma is_well_distributed_iff:
  assumes "0 < maxbin"
  shows "is_well_distributed items f maxbin \<longleftrightarrow> (\<forall>h. length (bucket_of f items h) < maxbin)"
proof -
  let ?T = "add_to_buckets f items []"
  have ok: "dict_ok ?T" by (simp add: add_to_buckets_ok)
  have get: "dget_default ?T h [] = bucket_of f items h" for h
    by (simp add: add_to_buckets_get bucket_of_def)
  have "measure_bucket_max ?T maxbin \<longleftrightarrow> (\<forall>h vl. map_of ?T h = Some vl \<longrightarrow> length vl < maxbin)"
    using ok by (auto simp: measure_bucket_max_def list_all_iff dict_ok_map_of_iff)
  also have "\<dots> \<longleftrightarrow> (\<forall>h. length (dget_default ?T h []) < maxbin)"
    using assms by (fastforce simp: dget_default_def split: option.splits)
  finally show ?thesis by (simp add: get is_well_distributed_def)
qed

section \<open>\<open>hashfks.py\<close>: \<open>((k x) mod p) mod m\<close>\<close>

record hash_fun_fks =
  fks_k :: int
  fks_p :: int
  fks_m :: int

definition fks_new :: "int \<Rightarrow> int \<Rightarrow> int \<Rightarrow> hash_fun_fks" where
  "fks_new k p m = \<lparr>fks_k = k, fks_p = p, fks_m = (if p < m then p else m)\<rparr>"

definition fks_get_table_size :: "hash_fun_fks \<Rightarrow> int" where
  "fks_get_table_size h = fks_m h"

definition fks_apply :: "hash_fun_fks \<Rightarrow> int \<Rightarrow> int" where
  "fks_apply h x = ((fks_k h * x) mod fks_p h) mod fks_m h"

definition fks_cexpr :: "hash_fun_fks \<Rightarrow> cexpr" where
  "fks_cexpr h =
     (if fks_m h = 1 then CZeroParen
      else if fks_p h = fks_m h then CMulMod (fks_k h) (fks_p h)
      else CMulModMod (fks_k h) (fks_p h) (fks_m h))"

definition fks_emit_cexpr :: "hash_fun_fks \<Rightarrow> string \<Rightarrow> string" where
  "fks_emit_cexpr h key_str = show_cexpr key_str (fks_cexpr h)"

definition fks_primes :: "int list" where
  "fks_primes =
    [2, 3, 5, 7, 11, 13, 17, 19, 23, 29, 31, 37, 41, 43, 47, 53, 59, 61, 67, 71,
     73, 79, 83, 89, 97, 101, 103, 107, 109, 113,
     127, 131, 137, 139, 149, 151, 157, 163, 167, 173,
     179, 181, 191, 193, 197, 199, 211, 223, 227, 229,
     233, 239, 241, 251, 257, 263, 269, 271, 277, 281,
     283, 293, 307, 311, 313, 317, 331, 337, 347, 349,
     353, 359, 367, 373, 379, 383, 389, 397, 401, 409,
     419, 421, 431, 433, 439, 443, 449, 457, 461, 463,
     467, 479, 487, 491, 499, 503, 509, 521, 523, 541,
     547, 557, 563, 569, 571, 577, 587, 593, 599, 601,
     607, 613, 617, 619, 631, 641, 643, 647, 653, 659,
     661, 673, 677, 683, 691, 701, 709, 719, 727, 733,
     739, 743, 751, 757, 761, 769, 773, 787, 797, 809,
     811, 821, 823, 827, 829, 839, 853, 857, 859, 863,
     877, 881, 883, 887, 907, 911, 919, 929, 937, 941]"

definition max_k :: nat where
  "max_k = 32"

definition l1_bucket_max :: nat where
  "l1_bucket_max = 8"

definition get_l1_mlist :: "nat \<Rightarrow> int list" where
  "get_l1_mlist n =
     (if n = 1 then [1]
      else if n \<le> l1_bucket_max then [int n, 2 * int n, int n * int n]
      else [int n, 2 * int n])"

text \<open>The triple loop over table sizes, primes and multipliers, left at the first success.\<close>

definition fks_search :: "(hash_fun_fks \<Rightarrow> bool) \<Rightarrow> int list \<Rightarrow> hash_fun_fks option" where
  "fks_search good mlist =
     first_some (\<lambda>m. first_some (\<lambda>p. first_some (\<lambda>k.
        let hash_f = fks_new (int k) p m in if good hash_f then Some hash_f else None)
          [3..<max_k]) fks_primes) mlist"

definition find_fks_perfect :: "int list \<Rightarrow> hash_fun_fks option" where
  "find_fks_perfect keylist =
     fks_search (\<lambda>h. truthy (is_perfect keylist (fks_apply h))) (get_l1_mlist (length keylist))"

definition find_fks_well_distributed :: "('a \<times> int) list \<Rightarrow> hash_fun_fks option" where
  "find_fks_well_distributed keylist =
     fks_search (\<lambda>h. is_well_distributed keylist (fks_apply h) l1_bucket_max)
       (get_l1_mlist (length keylist))"

text \<open>
  \<open>apply\<close> divides by \<open>p\<close> and \<open>m\<close>.  \<open>p\<close> is a prime of the list and \<open>m\<close> is positive for every
  non-empty key list, which is what \<open>fks_wf\<close> records.
\<close>

definition fks_wf :: "hash_fun_fks \<Rightarrow> bool" where
  "fks_wf h \<longleftrightarrow> 3 \<le> fks_k h \<and> fks_k h < 32 \<and> 2 \<le> fks_p h \<and> fks_p h \<le> 941 \<and>
     1 \<le> fks_m h \<and> fks_m h \<le> fks_p h"

definition fks_ok :: "hash_fun_fks \<Rightarrow> int \<Rightarrow> bool" where
  "fks_ok h x \<longleftrightarrow> fks_wf h \<and> 0 \<le> x \<and> fks_k h * x < 2 ^ 64"

lemma fks_primes_range: "p \<in> set fks_primes \<Longrightarrow> 2 \<le> p \<and> p \<le> 941"
  by (auto simp: fks_primes_def)

lemma get_l1_mlist_pos: "0 < n \<Longrightarrow> m \<in> set (get_l1_mlist n) \<Longrightarrow> 1 \<le> m"
  by (auto simp: get_l1_mlist_def int_one_le_iff_zero_less zero_less_mult_iff split: if_splits)

lemma fks_searchD:
  assumes "fks_search good mlist = Some h"
  obtains k p m where "h = fks_new (int k) p m" "good h" "3 \<le> k" "k < max_k"
    "p \<in> set fks_primes" "m \<in> set mlist"
proof -
  from assms obtain m p k where "m \<in> set mlist" "p \<in> set fks_primes" "k \<in> set [3..<max_k]"
    and "(let hash_f = fks_new (int k) p m in if good hash_f then Some hash_f else None) = Some h"
    by (auto simp: fks_search_def dest!: first_some_SomeD)
  then show thesis by (intro that) (auto simp: Let_def split: if_splits)
qed

lemma fks_search_wf:
  assumes "fks_search good (get_l1_mlist n) = Some h" and "0 < n"
  shows "fks_wf h"
  using assms(1)
proof (rule fks_searchD)
  fix k p m
  assume h: "h = fks_new (int k) p m" and k: "3 \<le> k" "k < max_k"
    and p: "p \<in> set fks_primes" and m: "m \<in> set (get_l1_mlist n)"
  from fks_primes_range [OF p] get_l1_mlist_pos [OF assms(2) m] k
  show "fks_wf h" by (auto simp: fks_wf_def h fks_new_def max_k_def)
qed

lemma find_fks_perfectD:
  assumes "find_fks_perfect keys = Some h"
  shows "fks_wf h" and "distinct (map (fks_apply h) keys)" and "keys \<noteq> []"
proof -
  from assms have "truthy (is_perfect keys (fks_apply h))"
    unfolding find_fks_perfect_def by (rule fks_searchD) simp
  then show "distinct (map (fks_apply h) keys)" and ne: "keys \<noteq> []"
    by (simp_all add: truthy_is_perfect)
  from assms ne show "fks_wf h"
    unfolding find_fks_perfect_def by (intro fks_search_wf) auto
qed

lemma find_fks_well_distributedD:
  assumes "find_fks_well_distributed items = Some h" and "items \<noteq> []"
  shows "fks_wf h" and "\<forall>v. length (bucket_of (fks_apply h) items v) < l1_bucket_max"
proof -
  from assms(1) have "is_well_distributed items (fks_apply h) l1_bucket_max"
    unfolding find_fks_well_distributed_def by (rule fks_searchD) simp
  then show "\<forall>v. length (bucket_of (fks_apply h) items v) < l1_bucket_max"
    by (simp add: is_well_distributed_iff l1_bucket_max_def)
  from assms show "fks_wf h"
    unfolding find_fks_well_distributed_def by (intro fks_search_wf) auto
qed

lemma fks_apply_range:
  "fks_wf h \<Longrightarrow> 0 \<le> fks_apply h x \<and> fks_apply h x < fks_get_table_size h"
  by (simp add: fks_wf_def fks_apply_def fks_get_table_size_def)

lemma uint_word64_small: "0 \<le> a \<Longrightarrow> a < 2 ^ 64 \<Longrightarrow> uint (word_of_int a :: 64 word) = a"
  by (simp add: uint_word_of_int take_bit_int_eq_self)

lemma fks_cexpr_correct:
  assumes "fks_ok h x"
  shows "uint (eval_cexpr (fks_cexpr h) (word_of_int x)) = fks_apply h x"
proof -
  from assms have wf: "2 \<le> fks_p h" "fks_p h \<le> 941" "1 \<le> fks_m h" "fks_m h \<le> fks_p h"
    and kx: "0 \<le> fks_k h * x" "fks_k h * x < 2 ^ 64"
    by (auto simp: fks_ok_def fks_wf_def)
  have u: "uint (word_of_int (fks_k h) * word_of_int x :: 64 word) = fks_k h * x"
    unfolding wi_hom_mult by (rule uint_word64_small [OF kx])
  have p: "uint (word_of_int (fks_p h) :: 64 word) = fks_p h"
    "uint (word_of_int (fks_m h) :: 64 word) = fks_m h"
    using wf by (simp_all add: uint_word64_small)
  consider "fks_m h = 1" | "fks_m h \<noteq> 1" "fks_p h = fks_m h" | "fks_m h \<noteq> 1" "fks_p h \<noteq> fks_m h"
    by blast
  then show ?thesis
  proof cases
    case 1
    then show ?thesis by (simp add: fks_cexpr_def fks_apply_def)
  next
    case 2
    then show ?thesis by (simp only: fks_cexpr_def fks_apply_def if_False if_True refl
          eval_cexpr.simps uint_mod u p mod_mod_trivial)
  next
    case 3
    then show ?thesis by (simp only: fks_cexpr_def fks_apply_def if_False
          eval_cexpr.simps uint_mod u p)
  qed
qed

interpretation fks: hash_fun fks_apply fks_get_table_size fks_cexpr fks_ok
proof unfold_locales
  fix h x
  assume "fks_ok h x"
  then show "0 \<le> fks_apply h x \<and> fks_apply h x < fks_get_table_size h"
    by (intro fks_apply_range) (simp add: fks_ok_def)
next
  fix h x
  assume "fks_ok h x"
  then show "uint (eval_cexpr (fks_cexpr h) (word_of_int x)) = fks_apply h x"
    by (rule fks_cexpr_correct)
qed

section \<open>\<open>hashlin.py\<close>: \<open>x - k\<close>\<close>

record linear_func =
  lin_k :: int
  lin_max_key :: int
  lin_m :: int

definition linear_new :: "int \<Rightarrow> int \<Rightarrow> linear_func" where
  "linear_new k max_key =
     \<lparr>lin_k = k, lin_max_key = max_key - k, lin_m = (max_key - k) + 1\<rparr>"

definition linear_get_table_size :: "linear_func \<Rightarrow> int" where
  "linear_get_table_size h = lin_m h"

definition linear_apply :: "linear_func \<Rightarrow> int \<Rightarrow> int" where
  "linear_apply h x = x - lin_k h"

definition linear_cexpr :: "linear_func \<Rightarrow> cexpr" where
  "linear_cexpr h = CSubConst (lin_k h)"

definition linear_emit_cexpr :: "linear_func \<Rightarrow> string \<Rightarrow> string" where
  "linear_emit_cexpr h key_str = show_cexpr key_str (linear_cexpr h)"

text \<open>
  The sparsity test \<open>nelem * (1.0 + 0.2) < nslots\<close> compares a double with an integer; the
  product is exact or rounds to the exact value whenever that is an integer, so over the sizes
  of these tables it is the comparison of rationals written here.  \<open>min\<close> and \<open>max\<close> of an empty
  list raise \<open>ValueError\<close>.
\<close>

definition get_linear_hash_function :: "int list \<Rightarrow> linear_func option res" where
  "get_linear_hash_function keylist =
     (if keylist = [] then Inl ValueError
      else let min_key = Min (set keylist); max_key = Max (set keylist);
               nelem = int (length keylist); nslots = max_key - min_key + 1
           in if nslots > nelem \<and> 12 * nelem < 10 * nslots then Inr None
              else Inr (Some (linear_new min_key max_key)))"

definition linear_ok :: "linear_func \<Rightarrow> int \<Rightarrow> bool" where
  "linear_ok h x \<longleftrightarrow> 0 \<le> lin_k h \<and> lin_m h = lin_max_key h + 1 \<and>
     lin_k h \<le> x \<and> x \<le> lin_k h + lin_max_key h \<and> x < 2 ^ 64"

lemma linear_cexpr_correct:
  assumes "0 \<le> lin_k h" "0 \<le> x" "x < 2 ^ 64"
  shows "uint (eval_cexpr (linear_cexpr h) (word_of_int x)) = (x - lin_k h) mod 2 ^ 64"
  unfolding linear_cexpr_def eval_cexpr.simps wi_hom_sub uint_word_of_int
  by (simp add: take_bit_eq_mod)

interpretation linear: hash_fun linear_apply linear_get_table_size linear_cexpr linear_ok
proof unfold_locales
  fix h x
  assume ok: "linear_ok h x"
  then show "0 \<le> linear_apply h x \<and> linear_apply h x < linear_get_table_size h"
    by (auto simp: linear_ok_def linear_apply_def linear_get_table_size_def)
  from ok have x: "0 \<le> lin_k h" "0 \<le> x" "x < 2 ^ 64" "0 \<le> x - lin_k h"
    by (simp_all add: linear_ok_def)
  then have "(x - lin_k h) mod 2 ^ 64 = x - lin_k h"
    by (intro mod_pos_pos_trivial) linarith+
  with x show "uint (eval_cexpr (linear_cexpr h) (word_of_int x)) = linear_apply h x"
    by (simp only: linear_cexpr_correct linear_apply_def)
qed

lemma linear_inj: "distinct keys \<Longrightarrow> distinct (map (linear_apply h) keys)"
  by (auto simp: distinct_map linear_apply_def inj_on_def)

section \<open>\<open>hashmul.py\<close>: multiplication by the golden ratio\<close>

definition golden_ratio_recip2to32 :: int where
  "golden_ratio_recip2to32 = 2654435769"

record hashmul =
  mul_table_size :: int
  mul_pow2 :: bool
  mul_ilog2_table_size :: int

text \<open>
  \<open>int(math.log(n, 2))\<close> is the floor of the logarithm at every power of two below \<open>2 ^ 64\<close>; elsewhere the
  following test rejects whatever the rounding produced.  \<open>math.log\<close> of a number that is not
  positive raises \<open>ValueError\<close>.
\<close>

definition power_of_2 :: "int \<Rightarrow> (bool \<times> int) res" where
  "power_of_2 table_size =
     (if table_size \<le> 0 then Inl ValueError
      else let i = ilog2 (nat table_size)
           in if 2 ^ i = table_size then Inr (True, int i) else Inr (False, -1))"

definition hashmul_new :: "int \<Rightarrow> hashmul res" where
  "hashmul_new table_size =
     rbind (power_of_2 table_size) (\<lambda>(pow2, lg).
       Inr \<lparr>mul_table_size = table_size, mul_pow2 = pow2, mul_ilog2_table_size = lg\<rparr>)"

definition mul_get_table_size :: "hashmul \<Rightarrow> int" where
  "mul_get_table_size h = mul_table_size h"

definition mul_apply :: "hashmul \<Rightarrow> int \<Rightarrow> int" where
  "mul_apply h k =
     (let q = golden_ratio_recip2to32 * k;
          fraction = q AND (push_bit 32 1 - 1);
          r = fraction * mul_table_size h
      in drop_bit 32 r)"

definition mul_apply_pow2 :: "hashmul \<Rightarrow> int \<Rightarrow> int" where
  "mul_apply_pow2 h k =
     (let q = golden_ratio_recip2to32 * k;
          fraction = q AND (push_bit 32 1 - 1)
      in drop_bit (nat (32 - mul_ilog2_table_size h)) fraction)"

fun mul_is_perfect_loop :: "hashmul \<Rightarrow> int list \<Rightarrow> int set \<Rightarrow> bool" where
  "mul_is_perfect_loop h [] values = True"
| "mul_is_perfect_loop h (k # key_list) values =
     (let v = mul_apply h k
      in if v \<in> values then False else mul_is_perfect_loop h key_list (insert v values))"

definition mul_is_perfect :: "hashmul \<Rightarrow> int list \<Rightarrow> bool" where
  "mul_is_perfect h key_list = mul_is_perfect_loop h key_list {}"

definition mul_cexpr :: "hashmul \<Rightarrow> cexpr" where
  "mul_cexpr h =
     (if mul_pow2 h then CMulShift golden_ratio_recip2to32 (nat (mul_ilog2_table_size h))
      else CMulMulHi golden_ratio_recip2to32 (mul_table_size h))"

definition mul_emit_cexpr :: "hashmul \<Rightarrow> string \<Rightarrow> string" where
  "mul_emit_cexpr h key_str = show_cexpr key_str (mul_cexpr h)"

definition mul_emit_cvar_decl :: "hashmul \<Rightarrow> string" where
  "mul_emit_cvar_decl h = (if mul_pow2 h then ''xed_union64_t t'' else ''xed_union64_t t, u'')"


definition mul_wf :: "hashmul \<Rightarrow> bool" where
  "mul_wf h \<longleftrightarrow> 1 < mul_table_size h \<and> mul_table_size h < 2 ^ 32 \<and>
     (mul_pow2 h \<longrightarrow> 0 \<le> mul_ilog2_table_size h \<and>
        2 ^ nat (mul_ilog2_table_size h) = mul_table_size h)"

definition mul_ok :: "hashmul \<Rightarrow> int \<Rightarrow> bool" where
  "mul_ok h x \<longleftrightarrow> mul_wf h \<and> 0 \<le> x"

lemma hashmul_new_size: "hashmul_new n = Inr h \<Longrightarrow> mul_table_size h = n"
  by (auto simp: hashmul_new_def rbind_eq_Inr)

lemma hashmul_new_wf:
  assumes "hashmul_new n = Inr h" "1 < n" "n < 2 ^ 32"
  shows "mul_wf h"
  using assms
  by (auto simp: hashmul_new_def power_of_2_def mul_wf_def Let_def rbind_eq_Inr split: if_splits)

lemma hashmul_new_total: "0 < n \<Longrightarrow> \<exists>h. hashmul_new n = Inr h"
  by (auto simp: hashmul_new_def power_of_2_def Let_def)

definition mul_fraction :: "int \<Rightarrow> int" where
  "mul_fraction k = (golden_ratio_recip2to32 * k) mod 2 ^ 32"

lemma mask32: "(a::int) AND (push_bit 32 1 - 1) = a mod 2 ^ 32"
proof -
  have "push_bit 32 1 - 1 = (mask 32 :: int)" by (simp add: mask_eq_exp_minus_1 push_bit_eq_mult)
  then show ?thesis by (simp only: flip: take_bit_eq_mask take_bit_eq_mod)
qed

lemma mul_apply_eq: "mul_apply h k = (mul_fraction k * mul_table_size h) div 2 ^ 32"
  unfolding mul_apply_def mask32 Let_def mul_fraction_def drop_bit_eq_div ..

lemma mul_fraction_range: "0 \<le> mul_fraction k \<and> mul_fraction k < 2 ^ 32"
  by (simp add: mul_fraction_def)

lemma mul_apply_range:
  assumes "0 < mul_table_size h"
  shows "0 \<le> mul_apply h k \<and> mul_apply h k < mul_get_table_size h"
proof
  show "0 \<le> mul_apply h k"
    using assms mul_fraction_range [of k]
    by (simp add: mul_apply_eq pos_imp_zdiv_nonneg_iff)
  have "mul_fraction k * mul_table_size h < 2 ^ 32 * mul_table_size h"
    using assms mul_fraction_range [of k] by (intro mult_strict_right_mono) auto
  then show "mul_apply h k < mul_get_table_size h"
    by (simp add: mul_apply_eq mul_get_table_size_def int_div_less_iff_mult)
qed

lemma mul_apply_pow2_eq:
  assumes "mul_wf h" "mul_pow2 h"
  shows "mul_apply_pow2 h k = mul_apply h k"
proof -
  define lg where "lg = nat (mul_ilog2_table_size h)"
  from assms have n: "mul_table_size h = 2 ^ lg" "mul_table_size h < 2 ^ 32"
    and lg0: "0 \<le> mul_ilog2_table_size h"
    by (auto simp: mul_wf_def lg_def)
  then have lg: "lg < 32" by (metis power_less_imp_less_exp one_less_numeral_iff semiring_norm(76))
  have "nat (32 - mul_ilog2_table_size h) = 32 - lg"
    using lg0 by (simp add: lg_def nat_diff_distrib)
  moreover have "(2::int) ^ 32 = 2 ^ (32 - lg) * 2 ^ lg"
    using lg by (simp flip: power_add)
  ultimately show ?thesis
    unfolding mul_apply_eq mul_apply_pow2_def mask32 Let_def mul_fraction_def [symmetric]
    by (simp add: drop_bit_eq_div n(1) del: power_numeral)
qed

lemma mul_cexpr_correct:
  assumes "mul_ok h x"
  shows "uint (eval_cexpr (mul_cexpr h) (word_of_int x)) = mul_apply h x"
proof -
  let ?G = "golden_ratio_recip2to32"
  from assms have wf: "mul_wf h" by (simp add: mul_ok_def)
  then have n: "1 < mul_table_size h" "mul_table_size h < 2 ^ 32" by (auto simp: mul_wf_def)
  have lo: "uint (lo32 (word_of_int ?G * word_of_int x)) = mul_fraction x"
    unfolding lo32_def wi_hom_mult unsigned_take_bit_eq uint_word_of_int mul_fraction_def
    by (simp only: len_of_numeral_defs flip: take_bit_eq_mod) (simp add: take_bit_take_bit)
  have fr: "take_bit 64 (mul_fraction x) = mul_fraction x"
    using mul_fraction_range [of x] by (simp add: take_bit_int_eq_self)
  show ?thesis
  proof (cases "mul_pow2 h")
    case True
    have lg0: "0 \<le> mul_ilog2_table_size h" using wf True by (simp add: mul_wf_def)
    then have "nat (32 - mul_ilog2_table_size h) = 32 - nat (mul_ilog2_table_size h)"
      by (simp add: nat_diff_distrib)
    then have "uint (eval_cexpr (mul_cexpr h) (word_of_int x)) = mul_apply_pow2 h x"
      unfolding mul_apply_pow2_def mask32 Let_def mul_fraction_def [symmetric]
      by (simp add: mul_cexpr_def True unsigned_drop_bit_eq lo fr)
    then show ?thesis by (simp add: mul_apply_pow2_eq [OF wf True])
  next
    case False
    have r: "0 \<le> mul_fraction x * mul_table_size h"
      using n mul_fraction_range [of x] by simp
    have "mul_fraction x * mul_table_size h < 2 ^ 32 * 2 ^ 32"
      using n mul_fraction_range [of x] by (intro mult_strict_mono) auto
    then have r64: "mul_fraction x * mul_table_size h < 2 ^ 64"
      by (simp flip: power_add)
    have "uint (word_of_int (mul_table_size h) :: 64 word) = mul_table_size h"
      using n by (intro uint_word64_small) auto
    then have "uint (lo32 (word_of_int ?G * word_of_int x) * word_of_int (mul_table_size h)) =
        mul_fraction x * mul_table_size h"
      unfolding uint_word_ariths lo using r r64 by simp
    then show ?thesis
      by (simp add: mul_cexpr_def False hi32_def mul_apply_eq drop_bit_eq_div uint_div)
  qed
qed

interpretation mul: hash_fun mul_apply mul_get_table_size mul_cexpr mul_ok
proof unfold_locales
  fix h x
  assume "mul_ok h x"
  then have "0 < mul_table_size h" by (simp add: mul_ok_def mul_wf_def)
  then show "0 \<le> mul_apply h x \<and> mul_apply h x < mul_get_table_size h" by (rule mul_apply_range)
next
  fix h x
  assume "mul_ok h x"
  then show "uint (eval_cexpr (mul_cexpr h) (word_of_int x)) = mul_apply h x"
    by (rule mul_cexpr_correct)
qed

lemma mul_is_perfect_loop_iff:
  "mul_is_perfect_loop h ks vs \<longleftrightarrow>
     distinct (map (mul_apply h) ks) \<and> mul_apply h ` set ks \<inter> vs = {}"
  by (induction ks arbitrary: vs) (auto simp: Let_def)

lemma mul_is_perfect_iff: "mul_is_perfect h ks \<longleftrightarrow> distinct (map (mul_apply h) ks)"
  by (simp add: mul_is_perfect_def mul_is_perfect_loop_iff)

text \<open>
  \<open>find_perfect\<close> of \<open>hashmul.py\<close> loops over the sizes \<open>n .. 2n - 1\<close> but builds every candidate
  with \<open>n\<close>: the loop variable is not used, so only one table size is ever tried.
\<close>

fun find_perfect_loop :: "int \<Rightarrow> nat list \<Rightarrow> int list \<Rightarrow> hashmul option res" where
  "find_perfect_loop n [] keylist = Inr None"
| "find_perfect_loop n (m # ms) keylist =
     rbind (hashmul_new n) (\<lambda>f.
       if mul_is_perfect f keylist then Inr (Some f) else find_perfect_loop n ms keylist)"

definition find_perfect :: "int list \<Rightarrow> hashmul option res" where
  "find_perfect keylist =
     (let n = length keylist in find_perfect_loop (int n) [n..<2 * n] keylist)"

lemma find_perfect_eq:
  "find_perfect keys =
     (if keys = [] then Inr None
      else rbind (hashmul_new (int (length keys))) (\<lambda>f.
        Inr (if mul_is_perfect f keys then Some f else None)))"
proof (cases "keys = []")
  case True
  then show ?thesis by (simp add: find_perfect_def)
next
  case False
  let ?n = "int (length keys)"
  from False obtain f where f: "hashmul_new ?n = Inr f" using hashmul_new_total [of ?n] by auto
  have "find_perfect_loop ?n ms keys = Inr (if ms \<noteq> [] \<and> mul_is_perfect f keys then Some f else None)" for ms
    by (induction ms) (simp_all add: f)
  then show ?thesis using False f by (simp add: find_perfect_def)
qed

lemma fks_wf_ok: "fks_wf h \<Longrightarrow> 0 \<le> x \<Longrightarrow> x < 2 ^ 32 \<Longrightarrow> fks_ok h x"
proof -
  assume h: "fks_wf h" and x: "0 \<le> x" "x < 2 ^ 32"
  then have "fks_k h * x \<le> 32 * 2 ^ 32" by (intro mult_mono) (simp_all add: fks_wf_def)
  with h x show ?thesis by (simp add: fks_ok_def)
qed

section \<open>The searches and the emitted code\<close>

text \<open>
  C36: when the search for a perfect FKS hash succeeds, no two keys collide, and on every 32-bit
  value the hash is an index of the table and the C expression emitted for it computes the same
  index in 64-bit arithmetic.
\<close>

theorem fks_hash_emitted:
  assumes "find_fks_perfect keys = Some h" and "0 \<le> x" "x < 2 ^ 32"
  shows "distinct (map (fks_apply h) keys) \<and> 0 \<le> fks_apply h x \<and> fks_apply h x < fks_get_table_size h \<and>
    uint (eval_cexpr (fks_cexpr h) (word_of_int x)) = fks_apply h x"
  using find_fks_perfectD [OF assms(1)] fks.happly_range fks.hexpr_happly fks_wf_ok [OF _ assms(2,3)] by blast

theorem fks_hash_emitted_witness:
  "\<exists>h. find_fks_perfect [7, 12] = Some h \<and> distinct (map (fks_apply h) [7, 12]) \<and>
    uint (eval_cexpr (fks_cexpr h) 12) = fks_apply h 12"
proof -
  have f: "find_fks_perfect [7, 12] = Some \<lparr>fks_k = 3, fks_p = 2, fks_m = 2\<rparr>" by code_simp
  from fks_hash_emitted [OF f, of 12] f show ?thesis by auto
qed

text \<open>
  A multiplicative hash of any table size between 2 and \<open>2 ^ 32 - 1\<close> maps every key into the
  table; the emitted C, with its 32-bit halves of a 64-bit union, computes the same index, and for
  powers of two the shift that replaces the multiplication is the same function.
\<close>

lemma mul_hash_emitted:
  assumes "hashmul_new n = Inr h" and "1 < n" "n < 2 ^ 32" and "0 \<le> x"
  shows "0 \<le> mul_apply h x \<and> mul_apply h x < n \<and>
    uint (eval_cexpr (mul_cexpr h) (word_of_int x)) = mul_apply h x \<and>
    (mul_pow2 h \<longrightarrow> mul_apply_pow2 h x = mul_apply h x)"
proof -
  have wf: "mul_wf h" by (rule hashmul_new_wf [OF assms(1-3)])
  then have ok: "mul_ok h x" using assms(4) by (simp add: mul_ok_def)
  show ?thesis
    using mul.happly_range [OF ok] mul.hexpr_happly [OF ok] mul_apply_pow2_eq [OF wf] hashmul_new_size [OF assms(1)]
    by (auto simp: mul_get_table_size_def)
qed

lemma mul_hash_emitted_witness:
  "\<exists>h. hashmul_new 16 = Inr h \<and> mul_pow2 h \<and> mul_apply h 77 < 16 \<and> mul_apply_pow2 h 77 = mul_apply h 77 \<and>
    uint (eval_cexpr (mul_cexpr h) 77) = mul_apply h 77"
proof -
  have f: "hashmul_new 16 = Inr \<lparr>mul_table_size = 16, mul_pow2 = True, mul_ilog2_table_size = 4\<rparr>" by code_simp
  from mul_hash_emitted [OF f, of 77] f show ?thesis by auto
qed

text \<open>
  \<open>find_perfect\<close> decides one thing only: whether the table whose size is the number of keys is
  collision free for the keys.  It answers for every list of keys, and the larger sizes its loop
  names are never tried, since the loop variable is not used.
\<close>

lemma find_perfect_tries_one_size:
  "find_perfect keys =
     (if keys = [] then Inr None
      else rbind (hashmul_new (int (length keys))) (\<lambda>f.
        Inr (if distinct (map (mul_apply f) keys) then Some f else None)))"
  by (simp add: find_perfect_eq mul_is_perfect_iff)

end
