(* ===== verification/Phash.thy ===== *)
theory Phash
  imports Cdict Hash_Functions
begin

text \<open>
  Perfect hash tables (\<open>pysrc/ild_phash.py\<close>): the choice of a hash function for a constraint
  dictionary, the one- and two-level tables, and the C lookup functions they are emitted as.  A
  lookup function takes the key (the packed operand values) and returns the rule, or takes its
  default action (no rule).
\<close>

section \<open>Hash function objects\<close>

datatype hash_obj =
    HFks hash_fun_fks
  | HLinear linear_func
  | HMul hashmul
  | HTrivial

fun h_apply :: "hash_obj \<Rightarrow> int \<Rightarrow> int" where
  "h_apply (HFks h) x = fks_apply h x"
| "h_apply (HLinear h) x = linear_apply h x"
| "h_apply (HMul h) x = mul_apply h x"
| "h_apply HTrivial x = 0"

fun h_get_table_size :: "hash_obj \<Rightarrow> int" where
  "h_get_table_size (HFks h) = fks_get_table_size h"
| "h_get_table_size (HLinear h) = linear_get_table_size h"
| "h_get_table_size (HMul h) = mul_get_table_size h"
| "h_get_table_size HTrivial = 1"

fun h_cexpr :: "hash_obj \<Rightarrow> cexpr" where
  "h_cexpr (HFks h) = fks_cexpr h"
| "h_cexpr (HLinear h) = linear_cexpr h"
| "h_cexpr (HMul h) = mul_cexpr h"
| "h_cexpr HTrivial = CZero"

fun need_hash_index_validation :: "hash_obj \<Rightarrow> bool" where
  "need_hash_index_validation (HFks h) = True"
| "need_hash_index_validation (HLinear h) = False"
| "need_hash_index_validation (HMul h) = True"
| "need_hash_index_validation HTrivial = False"

text \<open>
  The test \<open>add_key_validation\<close> emits: the stored key against the key, or the index against the last
  one.  The trivial function has none (its lookup is a constant).
\<close>

datatype validation = CheckKey | CheckEq int | CheckLe int

fun add_key_validation :: "hash_obj \<Rightarrow> validation option" where
  "add_key_validation (HFks h) = Some CheckKey"
| "add_key_validation (HLinear h) =
     Some (if lin_max_key h = 0 then CheckEq (lin_max_key h) else CheckLe (lin_max_key h))"
| "add_key_validation (HMul h) = Some CheckKey"
| "add_key_validation HTrivial = None"

fun h_ok :: "hash_obj \<Rightarrow> int \<Rightarrow> bool" where
  "h_ok (HFks h) x = fks_ok h x"
| "h_ok (HLinear h) x = linear_ok h x"
| "h_ok (HMul h) x = mul_ok h x"
| "h_ok HTrivial x = True"

interpretation hobj: hash_fun h_apply h_get_table_size h_cexpr h_ok
proof unfold_locales
  fix h x
  assume "h_ok h x"
  then show "0 \<le> h_apply h x \<and> h_apply h x < h_get_table_size h"
    by (cases h) (use fks.happly_range linear.happly_range mul.happly_range in auto)
next
  fix h x
  assume "h_ok h x"
  then show "uint (eval_cexpr (h_cexpr h) (word_of_int x)) = h_apply h x"
    by (cases h) (simp_all add: fks.hexpr_happly linear.hexpr_happly mul.hexpr_happly)
qed

section \<open>One-level tables\<close>

record 'r l1_phash =
  l1_cdict :: "'r cdict"
  l1_hash :: hash_obj
  l1_x2hx :: "(int, int) dict"
  l1_hx2x :: "(int, int) dict"

definition l1_add :: "hash_obj \<Rightarrow> int \<Rightarrow> (int, int) dict \<times> (int, int) dict
    \<Rightarrow> ((int, int) dict \<times> (int, int) dict) res" where
  "l1_add h x st =
     (case st of (x2hx, hx2x) \<Rightarrow>
       let hash_val = h_apply h x
       in if hash_val \<in> set (dvals x2hx) then Inl (Die ''l1_phash_t: function is not perfect!'')
          else Inr (dset x hash_val x2hx, dset hash_val x hx2x))"

definition l1_phash_new :: "'r cdict \<Rightarrow> hash_obj \<Rightarrow> 'r l1_phash res" where
  "l1_phash_new cd h =
     rbind (foldM (l1_add h) (dvals (t2int cd)) ([], [])) (\<lambda>(x2hx, hx2x).
       Inr \<lparr>l1_cdict = cd, l1_hash = h, l1_x2hx = x2hx, l1_hx2x = hx2x\<rparr>)"

definition l1_is_minimal :: "'r l1_phash \<Rightarrow> bool" where
  "l1_is_minimal ph \<longleftrightarrow> h_get_table_size (l1_hash ph) = int (length (tuple2rule (l1_cdict ph)))"

section \<open>The choice of a one-level function\<close>

definition zero_constraints :: "'r cdict \<Rightarrow> bool" where
  "zero_constraints cd \<longleftrightarrow> (if length (cnames cd) = 0 then True else False)"

definition is_linear :: "int list \<Rightarrow> bool res" where
  "is_linear ks =
     (if ks = [] then Inl ValueError
      else Inr (Max (set ks) - Min (set ks) + 1 = int (length ks)))"

text \<open>\<open>hashlin\<close> may decline (\<open>None\<close>), in which case \<open>l1_phash_t\<close> fails on it.\<close>

definition linear_l1 :: "'r cdict \<Rightarrow> 'r l1_phash res" where
  "linear_l1 cd =
     rbind (get_linear_hash_function (dkeys (int2tuple cd))) (\<lambda>h.
       case h of None \<Rightarrow> Inl TypeError | Some h \<Rightarrow> l1_phash_new cd (HLinear h))"

definition find_l1_phash_fks :: "'r cdict \<Rightarrow> 'r l1_phash option res" where
  "find_l1_phash_fks cd =
     (case find_fks_perfect (dvals (t2int cd)) of
        None \<Rightarrow> Inr None
      | Some h \<Rightarrow> rbind (l1_phash_new cd (HFks h)) (\<lambda>ph. Inr (Some ph)))"

text \<open>
  \<open>int(math.ceil((1 + x/10.0)*n))\<close>: the double \<open>1 + x/10.0\<close> is \<open>mantissa x / 2 ^ 52\<close>, and the product
  is rounded to 53 bits, ties to even.
\<close>

definition mantissas :: "nat list" where
  "mantissas = [4503599627370496, 4953959590107546, 5404319552844595, 5854679515581645,
     6305039478318694, 6755399441055744, 7205759403792794, 7656119366529843, 8106479329266893,
     8556839292003942, 9007199254740992]"

definition round53 :: "nat \<Rightarrow> nat" where
  "round53 a =
     (let s = ilog2 a + 1 - 53; q = a div 2 ^ s; r = a mod 2 ^ s
      in if s = 0 then a
         else (if 2 ^ (s - 1) < r \<or> r = 2 ^ (s - 1) \<and> odd q then q + 1 else q) * 2 ^ s)"

definition candidate_length :: "nat \<Rightarrow> nat \<Rightarrow> nat" where
  "candidate_length n m = (round53 (m * n) + (2 ^ 52 - 1)) div 2 ^ 52"

definition find_candidate_lengths_mul :: "nat \<Rightarrow> nat list" where
  "find_candidate_lengths_mul n =
     sorted_list_of_set (set (filter (\<lambda>a. 1 < a) (map (candidate_length n) mantissas)))"

fun find_mul :: "(hashmul \<Rightarrow> bool) \<Rightarrow> nat list \<Rightarrow> hashmul option res" where
  "find_mul good [] = Inr None"
| "find_mul good (p # ps) =
     rbind (hashmul_new (int p)) (\<lambda>h. if good h then Inr (Some h) else find_mul good ps)"

definition find_l1_phash_mul :: "'r cdict \<Rightarrow> 'r l1_phash option res" where
  "find_l1_phash_mul cd =
     rbind (find_mul (\<lambda>h. mul_is_perfect h (dvals (t2int cd))) (find_candidate_lengths_mul (length (t2int cd))))
       (\<lambda>h. case h of None \<Rightarrow> Inr None
              | Some h \<Rightarrow> rbind (l1_phash_new cd (HMul h)) (\<lambda>ph. Inr (Some ph)))"

definition or_else :: "'a option res \<Rightarrow> 'a option res \<Rightarrow> 'a option res" where
  "or_else a b = rbind a (\<lambda>r. case r of Some x \<Rightarrow> Inr (Some x) | None \<Rightarrow> b)"

definition linear_if_sequential :: "'r cdict \<Rightarrow> 'r l1_phash option res" where
  "linear_if_sequential cd =
     rbind (is_linear (dkeys (int2tuple cd))) (\<lambda>l.
       if l then rbind (linear_l1 cd) (\<lambda>ph. Inr (Some ph)) else Inr None)"

definition gen_hash_one_level :: "'r cdict \<Rightarrow> 'r l1_phash option res" where
  "gen_hash_one_level cd =
     (if zero_constraints cd then rbind (l1_phash_new cd HTrivial) (\<lambda>ph. Inr (Some ph))
      else or_else (linear_if_sequential cd) (or_else (find_l1_phash_mul cd) (find_l1_phash_fks cd)))"

section \<open>Two-level tables\<close>

record 'r l2_phash =
  l2_cdict :: "'r cdict"
  l2_hash :: hash_obj
  l2_x2hx :: "(int, int) dict"
  l2_hx2x :: "(int, int) dict"
  l2_hx2phash :: "(int, 'r l1_phash) dict"

type_synonym buckets = "(int, int list list) dict \<times> (int, int) dict \<times> (int, int) dict"

definition l2_add :: "hash_obj \<Rightarrow> int list \<times> int \<Rightarrow> buckets \<Rightarrow> buckets res" where
  "l2_add h tx st =
     (case tx of (t, x) \<Rightarrow> case st of (hx2tuples, x2hx, hx2x) \<Rightarrow>
       let hx = h_apply h x; ts = dget_default hx2tuples hx []
       in if l1_bucket_max \<le> length ts then Inl (Die ''l2_phash_t: function does not distribute well!'')
          else Inr (dset hx (ts @ [t]) hx2tuples, dset x hx x2hx, dset hx x hx2x))"

definition sub_phash :: "'r cdict \<Rightarrow> 'r l1_phash res" where
  "sub_phash cd =
     rbind (or_else (linear_if_sequential cd) (or_else (find_l1_phash_mul cd) (find_l1_phash_fks cd))) (\<lambda>ph.
       case ph of None \<Rightarrow> Inl (Die ''Failed to find l1 phash'') | Some ph \<Rightarrow> Inr ph)"

definition l2_sub :: "'r cdict \<Rightarrow> int \<times> int list list \<Rightarrow> (int \<times> 'r l1_phash) res" where
  "l2_sub cd ht =
     rbind (filter_tuples cd (snd ht)) (\<lambda>new_cdict.
     rbind (sub_phash new_cdict) (\<lambda>ph. Inr (fst ht, ph)))"

definition l2_phash_new :: "'r cdict \<Rightarrow> hash_obj \<Rightarrow> 'r l2_phash res" where
  "l2_phash_new cd h =
     rbind (foldM (l2_add h) (t2int cd) ([], [], [])) (\<lambda>(hx2tuples, x2hx, hx2x).
     rbind (mapM (l2_sub cd) hx2tuples) (\<lambda>subs.
       Inr \<lparr>l2_cdict = cd, l2_hash = h, l2_x2hx = x2hx, l2_hx2x = hx2x, l2_hx2phash = subs\<rparr>))"

definition find_l2_hash_mul :: "'r cdict \<Rightarrow> hashmul option res" where
  "find_l2_hash_mul cd =
     find_mul (\<lambda>h. is_well_distributed (t2int cd) (mul_apply h) l1_bucket_max)
       (find_candidate_lengths_mul (length (t2int cd)))"

definition find_l2_phash :: "'r cdict \<Rightarrow> 'r l2_phash option res" where
  "find_l2_phash cd =
     rbind (find_l2_hash_mul cd) (\<lambda>h.
       case h of
         Some h \<Rightarrow> rbind (l2_phash_new cd (HMul h)) (\<lambda>ph. Inr (Some ph))
       | None \<Rightarrow>
           (case find_fks_well_distributed (t2int cd) of
              Some h \<Rightarrow> rbind (l2_phash_new cd (HFks h)) (\<lambda>ph. Inr (Some ph))
            | None \<Rightarrow> Inr None))"

datatype 'r phash = OneLevel "'r l1_phash" | TwoLevel "'r l2_phash"

definition gen_hash :: "'r cdict \<Rightarrow> 'r phash option res" where
  "gen_hash cd =
     rbind (gen_hash_one_level cd) (\<lambda>ph.
       case ph of
         Some ph \<Rightarrow> Inr (Some (OneLevel ph))
       | None \<Rightarrow> rbind (find_l2_phash cd) (\<lambda>ph.
           case ph of None \<Rightarrow> Inr None | Some ph \<Rightarrow> Inr (Some (TwoLevel ph))))"

definition phash_get_size :: "'r phash \<Rightarrow> int" where
  "phash_get_size ph =
     (case ph of
        OneLevel p \<Rightarrow> h_get_table_size (l1_hash p)
      | TwoLevel p \<Rightarrow> h_get_table_size (l2_hash p) +
          sum_list (map (\<lambda>q. h_get_table_size (l1_hash q)) (dvals (l2_hx2phash p))))"

section \<open>The emitted lookup functions\<close>

text \<open>
  An entry is a stored key (an \<open>xed_uint32_t\<close>, present when the index needs validation) and the action
  of the rule; an empty slot holds 0 and the action of no rule.
\<close>

datatype 'r find_one =
    FindTrivial 'r
  | FindOne cexpr validation "(int \<times> 'r option) list"

definition lu_entry :: "'r l1_phash \<Rightarrow> int \<Rightarrow> (int \<times> 'r option) res" where
  "lu_entry ph hx =
     (case map_of (l1_hx2x ph) hx of
        None \<Rightarrow> Inr (0, None)
      | Some x \<Rightarrow> rbind (dget (int2tuple (l1_cdict ph)) x) (\<lambda>t.
          rbind (dget (tuple2rule (l1_cdict ph)) t) (\<lambda>r. Inr (take_bit 32 x, Some r))))"

definition add_lu_table :: "'r l1_phash \<Rightarrow> (int \<times> 'r option) list res" where
  "add_lu_table ph = mapM (lu_entry ph) [0..h_get_table_size (l1_hash ph) - 1]"

definition gen_find_one :: "'r l1_phash \<Rightarrow> 'r find_one res" where
  "gen_find_one ph =
     (case add_key_validation (l1_hash ph) of
        None \<Rightarrow> (case rule (l1_cdict ph) of None \<Rightarrow> Inl TypeError | Some r \<Rightarrow> Inr (FindTrivial r))
      | Some v \<Rightarrow> rbind (add_lu_table ph) (\<lambda>entries.
          Inr (FindOne (h_cexpr (l1_hash ph)) v entries)))"

text \<open>
  What the C function computes on an \<open>xed_uint64_t\<close> key: \<open>None\<close> is undefined behaviour (an index outside
  the table), \<open>Some None\<close> the default action.
\<close>

definition slot :: "'a list \<Rightarrow> int \<Rightarrow> 'a option" where
  "slot xs i = (if 0 \<le> i \<and> i < int (length xs) then Some (xs ! nat i) else None)"

fun exec_find_one :: "'r find_one \<Rightarrow> 64 word \<Rightarrow> 'r option option" where
  "exec_find_one (FindTrivial r) key = Some (Some r)"
| "exec_find_one (FindOne e CheckKey entries) key =
     (case slot entries (uint (eval_cexpr e key)) of
        None \<Rightarrow> None
      | Some (k, r) \<Rightarrow> if k = uint key then Some r else Some None)"
| "exec_find_one (FindOne e (CheckEq m) entries) key =
     (let hidx = uint (eval_cexpr e key)
      in if hidx = m then map_option snd (slot entries hidx) else Some None)"
| "exec_find_one (FindOne e (CheckLe m) entries) key =
     (let hidx = uint (eval_cexpr e key)
      in if hidx \<le> m then map_option snd (slot entries hidx) else Some None)"

datatype 'r find_fn = OneFn "'r find_one" | TwoFn cexpr "'r find_one option list"

definition gen_find_sub :: "int \<times> 'r l1_phash \<Rightarrow> (int \<times> 'r find_one) res" where
  "gen_find_sub hp =
     rbind (gen_find_one (snd hp)) (\<lambda>f.
       case f of
         FindTrivial r \<Rightarrow> Inl (Die ''L2 hash cannot have trivial operand lu fn'')
       | FindOne e v entries \<Rightarrow> Inr (fst hp, f))"

definition gen_find_two :: "'r l2_phash \<Rightarrow> 'r find_fn res" where
  "gen_find_two ph =
     rbind (mapM gen_find_sub (l2_hx2phash ph)) (\<lambda>fs.
       Inr (TwoFn (h_cexpr (l2_hash ph))
              (map (map_of fs) [0..h_get_table_size (l2_hash ph) - 1])))"

definition gen_find_fos :: "'r phash \<Rightarrow> 'r find_fn res" where
  "gen_find_fos ph =
     (case ph of
        OneLevel p \<Rightarrow> rbind (gen_find_one p) (\<lambda>f. Inr (OneFn f))
      | TwoLevel p \<Rightarrow> gen_find_two p)"

fun exec_find :: "'r find_fn \<Rightarrow> 64 word \<Rightarrow> 'r option option" where
  "exec_find (OneFn f) key = exec_find_one f key"
| "exec_find (TwoFn e fs) key =
     (case slot fs (uint (eval_cexpr e key)) of
        None \<Rightarrow> None
      | Some None \<Rightarrow> Some None
      | Some (Some f) \<Rightarrow> exec_find_one f key)"

section \<open>What a dictionary answers for a key\<close>

definition key_lookup :: "'r cdict \<Rightarrow> int \<Rightarrow> 'r option" where
  "key_lookup cd x = (case map_of (int2tuple cd) x of None \<Rightarrow> None | Some t \<Rightarrow> map_of (tuple2rule cd) t)"

text \<open>Keys fit the 32-bit field of an entry, and there are few of them.\<close>

definition keys32 :: "'r cdict \<Rightarrow> bool" where
  "keys32 cd \<longleftrightarrow> (\<forall>k \<in> set (dvals (t2int cd)). 0 \<le> k \<and> k < 2 ^ 32) \<and> length (t2int cd) < 2 ^ 28"

lemma keys_ok_inverse: "keys_ok cd \<Longrightarrow> map_of (t2int cd) t = Some k \<longleftrightarrow> map_of (int2tuple cd) k = Some t"
  by (simp add: keys_ok_def inverse_dicts_def)

lemma keys_ok_dicts: "keys_ok cd \<Longrightarrow> dict_ok (t2int cd) \<and> dict_ok (int2tuple cd) \<and> dict_ok (tuple2rule cd)"
  by (simp add: keys_ok_def inverse_dicts_def)

lemma keys_ok_vals:
  assumes "keys_ok cd"
  shows "x \<in> set (dvals (t2int cd)) \<longleftrightarrow> (\<exists>t. map_of (int2tuple cd) x = Some t)"
    and "distinct (dvals (t2int cd))"
    and "set (dkeys (int2tuple cd)) = set (dvals (t2int cd))"
proof -
  from keys_ok_dicts [OF assms] have ok: "dict_ok (t2int cd)" "dict_ok (int2tuple cd)" by simp_all
  have mem: "(t, x) \<in> set (t2int cd) \<longleftrightarrow> map_of (int2tuple cd) x = Some t" for t x
    using keys_ok_inverse [OF assms, of t x] ok by (simp add: dict_ok_map_of_iff)
  show v: "x \<in> set (dvals (t2int cd)) \<longleftrightarrow> (\<exists>t. map_of (int2tuple cd) x = Some t)" for x
    using mem by force
  have "inj_on snd (set (t2int cd))"
    using mem by (intro inj_onI) (metis option.inject prod.collapse)
  moreover have "distinct (t2int cd)" using ok(1) by (simp add: dict_ok_def distinct_map)
  ultimately show "distinct (dvals (t2int cd))" by (simp add: distinct_map)
  show "set (dkeys (int2tuple cd)) = set (dvals (t2int cd))"
    using v map_of_None_keys [of "int2tuple cd"] by blast
qed

lemma keys_ok_rule:
  assumes "keys_ok cd" "map_of (int2tuple cd) x = Some t"
  shows "\<exists>r. map_of (tuple2rule cd) t = Some r"
proof -
  have "map_of (t2int cd) t = Some x" using assms by (simp add: keys_ok_inverse)
  then have "t \<in> set (dkeys (t2int cd))" using map_of_None_keys [of "t2int cd" t] by simp
  then have "t \<in> set (dkeys (tuple2rule cd))" using assms(1) by (simp add: keys_ok_def)
  then show ?thesis using map_of_None_keys [of "tuple2rule cd" t] by simp
qed

section \<open>Building a one-level table\<close>

lemma l1_add_Inr:
  "l1_add h x (a, b) = Inr (a', b') \<longleftrightarrow>
     h_apply h x \<notin> set (dvals a) \<and> a' = dset x (h_apply h x) a \<and> b' = dset (h_apply h x) x b"
  by (auto simp: l1_add_def Let_def)

lemma l1_fold:
  assumes "foldM (l1_add h) xs (a, b) = Inr (a', b')" "distinct xs" "set xs \<inter> set (dkeys a) = {}"
  shows "distinct (map (h_apply h) xs) \<and> h_apply h ` set xs \<inter> set (dvals a) = {} \<and>
    (\<forall>hx x. map_of b' hx = Some x \<longleftrightarrow> x \<in> set xs \<and> h_apply h x = hx \<or>
       hx \<notin> h_apply h ` set xs \<and> map_of b hx = Some x)"
  using assms
proof (induction xs arbitrary: a b)
  case Nil
  then show ?case by simp
next
  case (Cons y xs)
  let ?hy = "h_apply h y"
  from Cons.prems(1) have new: "?hy \<notin> set (dvals a)"
    and rest: "foldM (l1_add h) xs (dset y ?hy a, dset ?hy y b) = Inr (a', b')"
    by (auto simp: rbind_eq_Inr l1_add_Inr)
  have y: "y \<notin> set (dkeys a)" using Cons.prems(3) by simp
  then have a1: "dset y ?hy a = a @ [(y, ?hy)]" by (intro dset_new) simp
  have disj: "set xs \<inter> set (dkeys (dset y ?hy a)) = {}" using Cons.prems unfolding a1 by auto
  have "distinct xs" using Cons.prems(2) by simp
  note IH = Cons.IH [OF rest this disj]
  have d: "?hy \<notin> h_apply h ` set xs" using IH unfolding a1 by auto
  have "map_of b' hx = Some x \<longleftrightarrow> x \<in> set (y # xs) \<and> h_apply h x = hx \<or>
       hx \<notin> h_apply h ` set (y # xs) \<and> map_of b hx = Some x" for hx x
  proof -
    have "map_of b' hx = Some x \<longleftrightarrow> x \<in> set xs \<and> h_apply h x = hx \<or>
       hx \<notin> h_apply h ` set xs \<and> map_of (dset ?hy y b) hx = Some x" using IH by blast
    then show ?thesis using d by (auto split: if_splits)
  qed
  then show ?case using IH d new unfolding a1 by auto
qed

lemma l1_phash_new_Inr:
  assumes "l1_phash_new cd h = Inr ph" and "keys_ok cd"
  shows "l1_cdict ph = cd" and "l1_hash ph = h"
    and "distinct (map (h_apply h) (dvals (t2int cd)))"
    and "map_of (l1_hx2x ph) hx = Some x \<longleftrightarrow> x \<in> set (dvals (t2int cd)) \<and> h_apply h x = hx"
proof -
  from assms(1) obtain a b where f: "foldM (l1_add h) (dvals (t2int cd)) ([], []) = Inr (a, b)"
    and ph: "ph = \<lparr>l1_cdict = cd, l1_hash = h, l1_x2hx = a, l1_hx2x = b\<rparr>"
    by (auto simp: l1_phash_new_def rbind_eq_Inr)
  show "l1_cdict ph = cd" "l1_hash ph = h" by (simp_all add: ph)
  have "distinct (dvals (t2int cd))" by (rule keys_ok_vals(2) [OF assms(2)])
  from l1_fold [OF f this] show "distinct (map (h_apply h) (dvals (t2int cd)))"
    and "map_of (l1_hx2x ph) hx = Some x \<longleftrightarrow> x \<in> set (dvals (t2int cd)) \<and> h_apply h x = hx"
    by (simp_all add: ph)
qed

section \<open>The one-level lookup\<close>

text \<open>The hash objects the generator picks, with respect to the keys they are picked for.\<close>

fun hash_fits :: "hash_obj \<Rightarrow> int set \<Rightarrow> bool" where
  "hash_fits (HFks h) ks = fks_wf h"
| "hash_fits (HMul h) ks = mul_wf h"
| "hash_fits (HLinear h) ks =
     (0 \<le> lin_k h \<and> 0 \<le> lin_max_key h \<and> lin_m h = lin_max_key h + 1 \<and>
      lin_k h + lin_max_key h < 2 ^ 32 \<and> ks \<subseteq> {lin_k h .. lin_k h + lin_max_key h})"
| "hash_fits HTrivial ks = False"

definition l1_ok :: "'r l1_phash \<Rightarrow> bool" where
  "l1_ok ph \<longleftrightarrow> keys_ok (l1_cdict ph) \<and> keys32 (l1_cdict ph) \<and>
     hash_fits (l1_hash ph) (set (dvals (t2int (l1_cdict ph)))) \<and>
     (\<forall>hx x. map_of (l1_hx2x ph) hx = Some x \<longleftrightarrow>
        x \<in> set (dvals (t2int (l1_cdict ph))) \<and> h_apply (l1_hash ph) x = hx)"

lemma l1_phash_new_ok:
  assumes "l1_phash_new cd h = Inr ph" "keys_ok cd" "keys32 cd" "hash_fits h (set (dvals (t2int cd)))"
  shows "l1_ok ph" and "l1_cdict ph = cd"
  using l1_phash_new_Inr [OF assms(1,2)] assms by (simp_all add: l1_ok_def)

lemma add_lu_table_nth:
  assumes t: "add_lu_table ph = Inr entries" and i: "0 \<le> i" "i < h_get_table_size (l1_hash ph)"
  shows "slot entries i = Some (entries ! nat i)" and "lu_entry ph i = Inr (entries ! nat i)"
proof -
  have m: "mapM (lu_entry ph) [0..h_get_table_size (l1_hash ph) - 1] = Inr entries"
    using t by (simp add: add_lu_table_def)
  have len: "int (length entries) = h_get_table_size (l1_hash ph)"
    using mapM_Inr_length [OF m] i by simp
  then show "slot entries i = Some (entries ! nat i)" using i by (simp add: slot_def)
  have "nat i < length [0..h_get_table_size (l1_hash ph) - 1]" using i by simp
  from mapM_Inr_nth [OF m this] show "lu_entry ph i = Inr (entries ! nat i)"
    using i by simp
qed

lemma lu_entry_eq:
  assumes "l1_ok ph" "lu_entry ph hx = Inr e"
  shows "e = (case map_of (l1_hx2x ph) hx of None \<Rightarrow> (0, None) | Some x \<Rightarrow> (x, key_lookup (l1_cdict ph) x))"
    and "map_of (l1_hx2x ph) hx = Some x \<Longrightarrow> \<exists>r. key_lookup (l1_cdict ph) x = Some r"
proof -
  have t: "take_bit 32 x = x" if "map_of (l1_hx2x ph) hx = Some x" for x
  proof -
    have "x \<in> set (dvals (t2int (l1_cdict ph)))" using assms(1) that by (simp add: l1_ok_def)
    then have "0 \<le> x" "x < 2 ^ 32" using assms(1) by (auto simp: l1_ok_def keys32_def)
    then show ?thesis by (simp add: take_bit_int_eq_self)
  qed
  show "e = (case map_of (l1_hx2x ph) hx of None \<Rightarrow> (0, None) | Some x \<Rightarrow> (x, key_lookup (l1_cdict ph) x))"
    using assms(2) t
    by (auto simp: lu_entry_def key_lookup_def rbind_eq_Inr split: option.splits)
  show "map_of (l1_hx2x ph) hx = Some x \<Longrightarrow> \<exists>r. key_lookup (l1_cdict ph) x = Some r"
    using assms(2) by (auto simp: lu_entry_def key_lookup_def rbind_eq_Inr)
qed

lemma uint_key: "0 \<le> x \<Longrightarrow> x < 2 ^ 32 \<Longrightarrow> uint (word_of_int x :: 64 word) = x"
  by (rule uint_word64_small) simp_all

lemma key_lookup_None: "keys_ok cd \<Longrightarrow> x \<notin> set (dvals (t2int cd)) \<Longrightarrow> key_lookup cd x = None"
  using keys_ok_vals(1) [of cd x] by (auto simp: key_lookup_def split: option.splits)

lemma exec_check_key:
  assumes ok: "l1_ok ph" and x: "0 \<le> x" "x < 2 ^ 32" and h: "h_ok (l1_hash ph) x"
    and t: "add_lu_table ph = Inr entries"
  shows "exec_find_one (FindOne (h_cexpr (l1_hash ph)) CheckKey entries) (word_of_int x) =
    Some (key_lookup (l1_cdict ph) x)"
proof -
  let ?i = "h_apply (l1_hash ph) x" and ?cd = "l1_cdict ph"
  have i: "0 \<le> ?i" "?i < h_get_table_size (l1_hash ph)" using hobj.happly_range [OF h] by simp_all
  note e = add_lu_table_nth [OF t i]
  note el = lu_entry_eq [OF ok e(2)]
  have idx: "uint (eval_cexpr (h_cexpr (l1_hash ph)) (word_of_int x)) = ?i" by (rule hobj.hexpr_happly [OF h])
  have keys: "keys_ok ?cd" using ok by (simp add: l1_ok_def)
  show ?thesis
  proof (cases "x \<in> set (dvals (t2int ?cd))")
    case True
    then have "map_of (l1_hx2x ph) ?i = Some x" using ok by (simp add: l1_ok_def)
    then show ?thesis using e(1) el(1) idx uint_key [OF x] by simp
  next
    case False
    then have n: "key_lookup ?cd x = None" by (rule key_lookup_None [OF keys])
    have "map_of (l1_hx2x ph) ?i \<noteq> Some x" using ok False by (simp add: l1_ok_def)
    then show ?thesis using e(1) el(1) idx uint_key [OF x] n by (auto split: option.splits)
  qed
qed

lemma exec_linear:
  assumes ok: "l1_ok ph" and l: "l1_hash ph = HLinear h" and x: "0 \<le> x" "x < 2 ^ 32"
    and t: "add_lu_table ph = Inr entries" and v: "add_key_validation (HLinear h) = Some v"
  shows "exec_find_one (FindOne (linear_cexpr h) v entries) (word_of_int x) =
    Some (key_lookup (l1_cdict ph) x)"
proof -
  let ?cd = "l1_cdict ph" and ?k = "lin_k h" and ?m = "lin_max_key h"
  have fits: "0 \<le> ?k" "0 \<le> ?m" "lin_m h = ?m + 1" "?k + ?m < 2 ^ 32"
    "set (dvals (t2int ?cd)) \<subseteq> {?k .. ?k + ?m}"
    using ok l by (simp_all add: l1_ok_def)
  have keys: "keys_ok ?cd" using ok by (simp add: l1_ok_def)
  have idx: "uint (eval_cexpr (linear_cexpr h) (word_of_int x)) = (x - ?k) mod 2 ^ 64"
    using x fits(1) by (intro linear_cexpr_correct) simp_all
  show ?thesis
  proof (cases "?k \<le> x \<and> x \<le> ?k + ?m")
    case True
    then have i: "(x - ?k) mod 2 ^ 64 = x - ?k" using x fits by (intro mod_pos_pos_trivial) auto
    have r: "0 \<le> x - ?k" "x - ?k < h_get_table_size (l1_hash ph)"
      using True fits by (simp_all add: l linear_get_table_size_def)
    note e = add_lu_table_nth [OF t r]
    have "snd (entries ! nat (x - ?k)) = key_lookup ?cd x"
    proof (cases "x \<in> set (dvals (t2int ?cd))")
      case True
      then have "map_of (l1_hx2x ph) (x - ?k) = Some x" using ok l by (simp add: l1_ok_def linear_apply_def)
      then show ?thesis using lu_entry_eq(1) [OF ok e(2)] by simp
    next
      case False
      then have "map_of (l1_hx2x ph) (x - ?k) = None"
        using ok l by (cases "map_of (l1_hx2x ph) (x - ?k)") (auto simp: l1_ok_def linear_apply_def)
      then show ?thesis using lu_entry_eq(1) [OF ok e(2)] key_lookup_None [OF keys False] by simp
    qed
    moreover have "x - ?k = ?m \<or> ?m \<noteq> 0" using True by linarith
    ultimately show ?thesis using idx i e(1) v True by (auto simp: Let_def split: if_splits)
  next
    case False
    have big: "?m < (x - ?k) mod 2 ^ 64"
    proof (cases "?k \<le> x")
      case True
      then have "(x - ?k) mod 2 ^ 64 = x - ?k" using x fits by (intro mod_pos_pos_trivial) auto
      with True False show ?thesis by simp
    next
      case lt: False
      have "(x - ?k) mod 2 ^ 64 = (x - ?k + 2 ^ 64) mod 2 ^ 64" by simp
      also have "\<dots> = x - ?k + 2 ^ 64" using lt x fits by (intro mod_pos_pos_trivial) auto
      finally show ?thesis using x fits by simp
    qed
    have "x \<notin> set (dvals (t2int ?cd))" using fits(5) False by auto
    then have "key_lookup ?cd x = None" by (rule key_lookup_None [OF keys])
    then show ?thesis using idx big v by (auto simp: Let_def split: if_splits)
  qed
qed

lemma exec_find_one_lookup:
  assumes ok: "l1_ok ph" and f: "gen_find_one ph = Inr f" and x: "0 \<le> x" "x < 2 ^ 32"
  shows "exec_find_one f (word_of_int x) = Some (key_lookup (l1_cdict ph) x)"
proof (cases "l1_hash ph")
  case (HFks h)
  with ok have wf: "fks_wf h" by (simp add: l1_ok_def)
  then have "fks_k h * x < 32 * 2 ^ 32"
    using x by (intro mult_strict_mono) (auto simp: fks_wf_def)
  then have "h_ok (l1_hash ph) x" using wf x by (simp add: HFks fks_ok_def)
  then show ?thesis
    using f exec_check_key [OF ok x] by (auto simp: gen_find_one_def HFks rbind_eq_Inr)
next
  case (HMul h)
  with ok x have "h_ok (l1_hash ph) x" by (simp add: l1_ok_def mul_ok_def)
  then show ?thesis
    using f exec_check_key [OF ok x] by (auto simp: gen_find_one_def HMul rbind_eq_Inr)
next
  case (HLinear h)
  obtain v where v: "add_key_validation (HLinear h) = Some v" by simp
  with f obtain entries where "add_lu_table ph = Inr entries" "f = FindOne (linear_cexpr h) v entries"
    by (auto simp: gen_find_one_def HLinear rbind_eq_Inr)
  with exec_linear [OF ok HLinear x _ v] show ?thesis by simp
next
  case HTrivial
  with ok show ?thesis by (simp add: l1_ok_def)
qed

section \<open>Table sizes\<close>

lemma pow2_ilog2_le: "0 < n \<Longrightarrow> 2 ^ ilog2 n \<le> n"
proof (induction n rule: ilog2.induct)
  case (1 n)
  show ?case
  proof (cases "n < 2")
    case True
    with 1(2) show ?thesis by (simp add: ilog2.simps [of n])
  next
    case False
    then have "2 ^ ilog2 (n div 2) \<le> n div 2" using 1 by simp
    then have "2 * 2 ^ ilog2 (n div 2) \<le> 2 * (n div 2)" by (rule mult_le_mono2)
    also have "\<dots> \<le> n" by simp
    finally show ?thesis using False by (simp add: ilog2.simps [of n])
  qed
qed

lemma round53_le: "round53 a \<le> 2 * a"
proof (cases "ilog2 a + 1 - 53 = 0")
  case True
  then show ?thesis by (simp add: round53_def Let_def)
next
  case False
  define s where "s = ilog2 a + 1 - 53"
  have a: "0 < a" using False by (cases a) (auto simp: ilog2.simps [of 0])
  have "(2::nat) ^ s \<le> 2 ^ ilog2 a" unfolding s_def by (intro power_increasing) auto
  then have s: "2 ^ s \<le> a" using pow2_ilog2_le [OF a] by linarith
  have "round53 a = (if 2 ^ (s - 1) < a mod 2 ^ s \<or> a mod 2 ^ s = 2 ^ (s - 1) \<and> odd (a div 2 ^ s)
      then a div 2 ^ s + 1 else a div 2 ^ s) * 2 ^ s"
    using False unfolding round53_def Let_def s_def [symmetric] by simp
  then have "round53 a \<le> (a div 2 ^ s + 1) * 2 ^ s" by simp
  also have "\<dots> = (a div 2 ^ s) * 2 ^ s + 2 ^ s" by simp
  also have "\<dots> \<le> a + a" using s by (intro add_mono) simp_all
  finally show ?thesis by simp
qed

lemma candidate_length_bound:
  assumes "m \<in> set mantissas" "n < 2 ^ 28"
  shows "candidate_length n m < 2 ^ 32"
proof -
  have "m \<le> 2 ^ 53" using assms(1) by (auto simp: mantissas_def)
  then have "m * n \<le> 2 ^ 53 * 2 ^ 28" using assms(2) by (intro mult_le_mono) auto
  then have "round53 (m * n) + (2 ^ 52 - 1) \<le> 2 * (2 ^ 53 * 2 ^ 28) + (2 ^ 52 - 1)"
    using round53_le [of "m * n"] by simp
  then have "candidate_length n m \<le> (2 * (2 ^ 53 * 2 ^ 28) + (2 ^ 52 - 1)) div 2 ^ 52"
    unfolding candidate_length_def by (rule div_le_mono)
  then show ?thesis by simp
qed

lemma candidate_lengths: "p \<in> set (find_candidate_lengths_mul n) \<Longrightarrow> n < 2 ^ 28 \<Longrightarrow> 1 < p \<and> p < 2 ^ 32"
  using candidate_length_bound by (auto simp: find_candidate_lengths_mul_def)

lemma find_mul_Some:
  assumes "find_mul good ps = Inr (Some h)" "\<forall>p \<in> set ps. 1 < p \<and> p < 2 ^ 32"
  shows "mul_wf h \<and> good h"
  using assms
proof (induction ps)
  case Nil
  then show ?case by simp
next
  case (Cons p ps)
  then obtain h1 where h1: "hashmul_new (int p) = Inr h1"
    and r: "(if good h1 then Inr (Some h1) else find_mul good ps) = Inr (Some h)"
    by (auto simp: rbind_eq_Inr)
  have "mul_wf h1" using Cons.prems(2) by (intro hashmul_new_wf [OF h1]) auto
  then show ?case using r Cons by (auto split: if_splits)
qed

section \<open>Every table the generator builds is right\<close>

lemma or_else_Some:
  "or_else a b = Inr (Some x) \<longleftrightarrow> a = Inr (Some x) \<or> (a = Inr None \<and> b = Inr (Some x))"
  by (auto simp: or_else_def rbind_eq_Inr split: option.splits)

lemma linear_if_sequential_ok:
  assumes "linear_if_sequential cd = Inr (Some ph)" "keys_ok cd" "keys32 cd"
  shows "l1_ok ph \<and> l1_cdict ph = cd"
proof -
  let ?ks = "dkeys (int2tuple cd)"
  from assms(1) obtain h where h: "get_linear_hash_function ?ks = Inr (Some h)"
    and ph: "l1_phash_new cd (HLinear h) = Inr ph"
    by (auto simp: linear_if_sequential_def linear_l1_def rbind_eq_Inr split: if_splits option.splits)
  from h have ne: "?ks \<noteq> []" and hd: "h = linear_new (Min (set ?ks)) (Max (set ?ks))"
    by (auto simp: get_linear_hash_function_def Let_def split: if_splits)
  have k: "set ?ks = set (dvals (t2int cd))" by (rule keys_ok_vals(3) [OF assms(2)])
  have mm: "Min (set ?ks) \<in> set ?ks" "Max (set ?ks) \<in> set ?ks"
    using ne by (intro Min_in Max_in; simp)+
  then have "0 \<le> Min (set ?ks)" "Max (set ?ks) < 2 ^ 32"
    using assms(3) unfolding k keys32_def by blast+
  moreover have "Min (set ?ks) \<le> Max (set ?ks)" using mm by (intro Min_le) simp_all
  moreover have "set (dvals (t2int cd)) \<subseteq> {Min (set ?ks) .. Max (set ?ks)}"
    unfolding k [symmetric] by (auto simp del: set_map)
  ultimately have "hash_fits (HLinear h) (set (dvals (t2int cd)))"
    by (simp add: hd linear_new_def)
  with l1_phash_new_ok [OF ph assms(2,3)] show ?thesis by blast
qed

lemma find_l1_phash_mul_ok:
  assumes "find_l1_phash_mul cd = Inr (Some ph)" "keys_ok cd" "keys32 cd"
  shows "l1_ok ph \<and> l1_cdict ph = cd"
proof -
  from assms(1) obtain h where
    h: "find_mul (\<lambda>h. mul_is_perfect h (dvals (t2int cd))) (find_candidate_lengths_mul (length (t2int cd))) = Inr (Some h)"
    and ph: "l1_phash_new cd (HMul h) = Inr ph"
    by (auto simp: find_l1_phash_mul_def rbind_eq_Inr split: option.splits)
  have "mul_wf h"
    using find_mul_Some [OF h] candidate_lengths assms(3) by (auto simp: keys32_def)
  with l1_phash_new_ok [OF ph assms(2,3)] show ?thesis by simp
qed

lemma find_l1_phash_fks_ok:
  assumes "find_l1_phash_fks cd = Inr (Some ph)" "keys_ok cd" "keys32 cd"
  shows "l1_ok ph \<and> l1_cdict ph = cd"
proof -
  from assms(1) obtain h where h: "find_fks_perfect (dvals (t2int cd)) = Some h"
    and ph: "l1_phash_new cd (HFks h) = Inr ph"
    by (auto simp: find_l1_phash_fks_def rbind_eq_Inr split: option.splits)
  from find_fks_perfectD(1) [OF h] l1_phash_new_ok [OF ph assms(2,3)] show ?thesis by simp
qed

lemmas l1_choice_ok = linear_if_sequential_ok find_l1_phash_mul_ok find_l1_phash_fks_ok

lemma gen_hash_one_level_ok:
  assumes "gen_hash_one_level cd = Inr (Some ph)" "keys_ok cd" "keys32 cd" "cnames cd \<noteq> []"
  shows "l1_ok ph \<and> l1_cdict ph = cd"
  using assms l1_choice_ok [OF _ assms(2,3)]
  by (auto simp: gen_hash_one_level_def zero_constraints_def or_else_Some)

lemma sub_phash_ok:
  assumes "sub_phash cd = Inr ph" "keys_ok cd" "keys32 cd"
  shows "l1_ok ph \<and> l1_cdict ph = cd"
proof -
  from assms(1) have "or_else (linear_if_sequential cd) (or_else (find_l1_phash_mul cd) (find_l1_phash_fks cd))
      = Inr (Some ph)"
    by (auto simp: sub_phash_def rbind_eq_Inr split: option.splits)
  then show ?thesis using l1_choice_ok [OF _ assms(2,3)] by (auto simp: or_else_Some)
qed

section \<open>The two-level lookup\<close>

lemma l2_fold_buckets:
  "foldM (l2_add h) items (b, x2, h2) = Inr (b', x2', h2') \<Longrightarrow> b' = add_to_buckets (h_apply h) items b"
proof (induction items arbitrary: b x2 h2)
  case Nil
  then show ?case by simp
next
  case (Cons tx items)
  obtain t x where tx: "tx = (t, x)" by (cases tx)
  from Cons.prems have "foldM (l2_add h) items
      (dset (h_apply h x) (dget_default b (h_apply h x) [] @ [t]) b, dset x (h_apply h x) x2, dset (h_apply h x) x h2)
        = Inr (b', x2', h2')"
    by (auto simp: tx rbind_eq_Inr l2_add_def [of h "(t, x)"] Let_def split: if_splits)
  from Cons.IH [OF this] show ?case by (simp add: tx Let_def)
qed

definition bucket_ok :: "'r cdict \<Rightarrow> int list list \<Rightarrow> 'r l1_phash \<Rightarrow> bool" where
  "bucket_ok cd ts ph \<longleftrightarrow> l1_ok ph \<and>
     (\<forall>t \<in> set ts. \<forall>k. map_of (t2int cd) t = Some k \<longrightarrow> key_lookup (l1_cdict ph) k = key_lookup cd k) \<and>
     (\<forall>k. key_lookup cd k = None \<longrightarrow> key_lookup (l1_cdict ph) k = None)"

lemma key_lookup_tuple:
  "keys_ok cd \<Longrightarrow> map_of (t2int cd) t = Some k \<Longrightarrow> key_lookup cd k = map_of (tuple2rule cd) t"
  by (simp add: key_lookup_def keys_ok_inverse)

lemma key_lookup_Some:
  assumes "keys_ok cd" "key_lookup cd k = Some r"
  obtains t where "map_of (t2int cd) t = Some k" "map_of (tuple2rule cd) t = Some r"
  using assms keys_ok_inverse [OF assms(1)] by (auto simp: key_lookup_def split: option.splits)

lemma l2_sub_ok:
  assumes s: "l2_sub cd (hx, ts) = Inr sub" and ok: "keys_ok cd" "keys32 cd"
    and ts: "distinct ts" "set ts \<subseteq> set (dkeys (t2int cd))" "length ts \<le> length (t2int cd)"
  shows "fst sub = hx \<and> bucket_ok cd ts (snd sub)"
proof -
  from s obtain ncd ph where f: "filter_tuples cd ts = Inr ncd" and p: "sub_phash ncd = Inr ph"
    and sub: "sub = (hx, ph)"
    by (auto simp: l2_sub_def rbind_eq_Inr)
  have sub_t2r: "set ts \<subseteq> set (dkeys (tuple2rule cd))" using ts(2) ok(1) by (simp add: keys_ok_def)
  from filter_tuples_keys_ok [OF ok(1) ts(1) sub_t2r] f
  have ncd: "keys_ok ncd" "dkeys (t2int ncd) = ts"
    "\<forall>t \<in> set ts. map_of (tuple2rule ncd) t = map_of (tuple2rule cd) t \<and> map_of (t2int ncd) t = map_of (t2int cd) t"
    by auto
  have mem: "map_of (t2int ncd) t = Some k \<longleftrightarrow> t \<in> set ts \<and> map_of (t2int cd) t = Some k" for t k
    using ncd(2,3) map_of_None_keys [of "t2int ncd" t] by (cases "t \<in> set ts") auto
  have "k \<in> set (dvals (t2int cd))" if "k \<in> set (dvals (t2int ncd))" for k
  proof -
    from that keys_ok_vals(1) [OF ncd(1)] obtain t where "map_of (t2int ncd) t = Some k"
      using keys_ok_inverse [OF ncd(1)] by blast
    then have "map_of (int2tuple cd) k = Some t" using mem keys_ok_inverse [OF ok(1)] by blast
    then show ?thesis using keys_ok_vals(1) [OF ok(1)] by blast
  qed
  moreover have "length (t2int ncd) = length ts" using ncd(2) by (metis length_map)
  ultimately have k32: "keys32 ncd"
    using ok(2) ts(3) unfolding keys32_def by (auto simp del: set_map)
  from sub_phash_ok [OF p ncd(1) k32] have ph: "l1_ok ph" "l1_cdict ph = ncd" by simp_all
  have "key_lookup ncd k = key_lookup cd k" if "t \<in> set ts" "map_of (t2int cd) t = Some k" for t k
    using that mem [of t k] ncd(3) key_lookup_tuple [OF ok(1), of t k] key_lookup_tuple [OF ncd(1), of t k]
    by simp
  moreover have "key_lookup ncd k = None" if "key_lookup cd k = None" for k
  proof (rule ccontr)
    assume "key_lookup ncd k \<noteq> None"
    then obtain r where "key_lookup ncd k = Some r" by blast
    then obtain t where t: "map_of (t2int ncd) t = Some k" "map_of (tuple2rule ncd) t = Some r"
      using key_lookup_Some [OF ncd(1)] by blast
    then have "map_of (t2int cd) t = Some k" "map_of (tuple2rule cd) t = Some r"
      using mem [of t k] ncd(3) by auto
    then show False using that key_lookup_tuple [OF ok(1)] by simp
  qed
  ultimately show ?thesis by (simp add: sub bucket_ok_def ph)
qed

definition l2_ok :: "'r l2_phash \<Rightarrow> bool" where
  "l2_ok ph \<longleftrightarrow> keys_ok (l2_cdict ph) \<and> keys32 (l2_cdict ph) \<and>
     ((\<exists>h. l2_hash ph = HFks h \<and> fks_wf h) \<or> (\<exists>h. l2_hash ph = HMul h \<and> mul_wf h)) \<and>
     set (dkeys (l2_hx2phash ph)) = h_apply (l2_hash ph) ` set (dvals (t2int (l2_cdict ph))) \<and>
     (\<forall>hx p. map_of (l2_hx2phash ph) hx = Some p \<longrightarrow>
        bucket_ok (l2_cdict ph) (bucket_of (h_apply (l2_hash ph)) (t2int (l2_cdict ph)) hx) p)"

lemma l2_phash_new_ok:
  assumes n: "l2_phash_new cd h = Inr ph" and ok: "keys_ok cd" "keys32 cd"
    and h: "(\<exists>f. h = HFks f \<and> fks_wf f) \<or> (\<exists>m. h = HMul m \<and> mul_wf m)"
  shows "l2_ok ph" and "l2_cdict ph = cd"
proof -
  from n obtain b x2 h2 subs where f: "foldM (l2_add h) (t2int cd) ([], [], []) = Inr (b, x2, h2)"
    and m: "mapM (l2_sub cd) b = Inr subs"
    and ph: "ph = \<lparr>l2_cdict = cd, l2_hash = h, l2_x2hx = x2, l2_hx2x = h2, l2_hx2phash = subs\<rparr>"
    by (auto simp: l2_phash_new_def rbind_eq_Inr)
  show "l2_cdict ph = cd" by (simp add: ph)
  have b: "b = add_to_buckets (h_apply h) (t2int cd) []" by (rule l2_fold_buckets [OF f])
  have bok: "dict_ok b" by (simp add: b add_to_buckets_ok)
  have bget: "dget_default b hx [] = bucket_of (h_apply h) (t2int cd) hx" for hx
    by (simp add: b add_to_buckets_get bucket_of_def)
  have bkeys: "set (dkeys b) = h_apply h ` set (dvals (t2int cd))"
    using add_to_buckets_keys [of "h_apply h" "t2int cd" "[]"] by (simp add: b)
  have dist: "distinct (dkeys (t2int cd))" using keys_ok_dicts [OF ok(1)] by (simp add: dict_ok_def)
  have bucket: "distinct (bucket_of (h_apply h) (t2int cd) hx)"
    "set (bucket_of (h_apply h) (t2int cd) hx) \<subseteq> set (dkeys (t2int cd))"
    "length (bucket_of (h_apply h) (t2int cd) hx) \<le> length (t2int cd)" for hx
    using dist by (auto simp: bucket_of_def distinct_map_filter)
  have subs: "length subs = length b" by (rule mapM_Inr_length [OF m])
  have sub: "fst (subs ! i) = fst (b ! i) \<and>
      bucket_ok cd (bucket_of (h_apply h) (t2int cd) (fst (b ! i))) (snd (subs ! i))" if "i < length b" for i
  proof -
    obtain hx ts where bi: "b ! i = (hx, ts)" by (cases "b ! i")
    then have "(hx, ts) \<in> set b" using that by (metis nth_mem)
    then have "map_of b hx = Some ts" using bok by (simp add: dict_ok_map_of_iff)
    then have ts: "ts = bucket_of (h_apply h) (t2int cd) hx"
      using bget [of hx] by (simp add: dget_default_def)
    have "l2_sub cd (hx, ts) = Inr (subs ! i)" using mapM_Inr_nth [OF m that] bi by simp
    from l2_sub_ok [OF this ok] bucket [of hx] show ?thesis by (simp add: bi ts)
  qed
  have keys: "dkeys subs = dkeys b"
    using sub subs by (intro nth_equalityI) simp_all
  have "bucket_ok cd (bucket_of (h_apply h) (t2int cd) hx) p" if "map_of subs hx = Some p" for hx p
  proof -
    have "(hx, p) \<in> set subs" using that by (rule map_of_SomeD)
    then obtain i where "i < length subs" "subs ! i = (hx, p)" by (auto simp: in_set_conv_nth)
    then show ?thesis using sub [of i] subs by simp
  qed
  then show "l2_ok ph" using ok h keys bkeys by (simp add: l2_ok_def ph)
qed

lemma find_l2_phash_ok:
  assumes "find_l2_phash cd = Inr (Some ph)" "keys_ok cd" "keys32 cd" "t2int cd \<noteq> []"
  shows "l2_ok ph \<and> l2_cdict ph = cd"
proof -
  from assms(1) consider (mul) h where "find_l2_hash_mul cd = Inr (Some h)" "l2_phash_new cd (HMul h) = Inr ph"
    | (fks) h where "find_fks_well_distributed (t2int cd) = Some h" "l2_phash_new cd (HFks h) = Inr ph"
    by (auto simp: find_l2_phash_def rbind_eq_Inr split: option.splits)
  then show ?thesis
  proof cases
    case mul
    then have "mul_wf h"
      using find_mul_Some [OF mul(1) [unfolded find_l2_hash_mul_def]] candidate_lengths assms(3)
      by (auto simp: keys32_def)
    with l2_phash_new_ok [OF mul(2) assms(2,3)] show ?thesis by simp
  next
    case fks
    have "fks_wf h" by (rule find_fks_well_distributedD(1) [OF fks(1) assms(4)])
    with l2_phash_new_ok [OF fks(2) assms(2,3)] show ?thesis by simp
  qed
qed

lemma gen_find_sub_Inr:
  assumes "gen_find_sub a = Inr b"
  shows "fst b = fst a \<and> gen_find_one (snd a) = Inr (snd b)"
proof -
  from assms obtain f where "gen_find_one (snd a) = Inr f"
    "(case f of FindTrivial r \<Rightarrow> Inl (Die ''L2 hash cannot have trivial operand lu fn'')
      | FindOne e v entries \<Rightarrow> Inr (fst a, f)) = Inr b"
    unfolding gen_find_sub_def by (elim rbind_eq_InrE)
  then show ?thesis by (cases f) auto
qed

lemma map_of_parallel:
  "list_all2 (\<lambda>a b. fst a = fst b \<and> R (snd a) (snd b)) ps fs \<Longrightarrow> map_of fs k = Some v \<Longrightarrow>
     \<exists>p. map_of ps k = Some p \<and> R p v"
  by (induction rule: list_all2_induct) (auto split: if_splits)

lemma exec_find_two_lookup:
  assumes ok: "l2_ok ph" and f: "gen_find_two ph = Inr f" and x: "0 \<le> x" "x < 2 ^ 32"
  shows "exec_find f (word_of_int x) = Some (key_lookup (l2_cdict ph) x)"
proof -
  let ?h = "l2_hash ph" and ?cd = "l2_cdict ph"
  from f obtain fs where m: "mapM gen_find_sub (l2_hx2phash ph) = Inr fs"
    and ff: "f = TwoFn (h_cexpr ?h) (map (map_of fs) [0..h_get_table_size ?h - 1])"
    by (auto simp: gen_find_two_def rbind_eq_Inr)
  have hok: "h_ok ?h x"
  proof -
    have "(\<exists>h. ?h = HFks h \<and> fks_wf h) \<or> (\<exists>h. ?h = HMul h \<and> mul_wf h)" using ok by (simp add: l2_ok_def)
    then show ?thesis
    proof (elim disjE exE conjE)
      fix h assume h: "?h = HFks h" "fks_wf h"
      then have "fks_k h * x < 32 * 2 ^ 32"
        using x by (intro mult_strict_mono) (auto simp: fks_wf_def)
      then show ?thesis using h x by (simp add: fks_ok_def)
    next
      fix h assume "?h = HMul h" "mul_wf h"
      then show ?thesis using x by (simp add: mul_ok_def)
    qed
  qed
  let ?i = "h_apply ?h x"
  have i: "0 \<le> ?i" "?i < h_get_table_size ?h" using hobj.happly_range [OF hok] by simp_all
  have idx: "uint (eval_cexpr (h_cexpr ?h) (word_of_int x)) = ?i" by (rule hobj.hexpr_happly [OF hok])
  have slot: "slot (map (map_of fs) [0..h_get_table_size ?h - 1]) ?i = Some (map_of fs ?i)"
    using i by (simp add: slot_def)
  have keys: "keys_ok ?cd" using ok by (simp add: l2_ok_def)
  have len: "length fs = length (l2_hx2phash ph)" by (rule mapM_Inr_length [OF m])
  have g: "fst (fs ! j) = fst (l2_hx2phash ph ! j) \<and>
      gen_find_one (snd (l2_hx2phash ph ! j)) = Inr (snd (fs ! j))" if "j < length fs" for j
    using mapM_Inr_nth [OF m, of j] that len
    by (intro gen_find_sub_Inr) simp
  have dk: "dkeys fs = dkeys (l2_hx2phash ph)" using g len by (intro nth_equalityI) simp_all
  show ?thesis
  proof (cases "map_of fs ?i")
    case None
    then have "?i \<notin> set (dkeys (l2_hx2phash ph))" unfolding dk [symmetric] by (simp add: map_of_eq_None_iff)
    then have "x \<notin> set (dvals (t2int ?cd))" using ok by (auto simp: l2_ok_def)
    then have "key_lookup ?cd x = None" by (rule key_lookup_None [OF keys])
    then show ?thesis using None slot idx by (simp add: ff)
  next
    case (Some fn)
    have "list_all2 (\<lambda>a b. fst a = fst b \<and> gen_find_one (snd a) = Inr (snd b)) (l2_hx2phash ph) fs"
      using g len by (auto simp: list_all2_conv_all_nth)
    then obtain p where p: "map_of (l2_hx2phash ph) ?i = Some p" "gen_find_one p = Inr fn"
      using map_of_parallel [OF _ Some, of "\<lambda>p f. gen_find_one p = Inr f"] by blast
    let ?ts = "bucket_of (h_apply ?h) (t2int ?cd) ?i"
    have b: "bucket_ok ?cd ?ts p" using ok p(1) by (simp add: l2_ok_def)
    then have "exec_find_one fn (word_of_int x) = Some (key_lookup (l1_cdict p) x)"
      by (intro exec_find_one_lookup [OF _ p(2) x]) (simp add: bucket_ok_def)
    moreover have "key_lookup (l1_cdict p) x = key_lookup ?cd x"
    proof (cases "key_lookup ?cd x")
      case None
      with b show ?thesis by (simp add: bucket_ok_def)
    next
      case (Some r)
      obtain t where t: "map_of (t2int ?cd) t = Some x" using key_lookup_Some [OF keys Some] by blast
      then have "(t, x) \<in> set (t2int ?cd)" by (rule map_of_SomeD)
      then have "t \<in> set ?ts" by (force simp: bucket_of_def)
      with b t show ?thesis by (simp add: bucket_ok_def)
    qed
    ultimately show ?thesis using Some slot idx by (simp add: ff)
  qed
qed

section \<open>The generated table answers as the dictionary\<close>

text \<open>
  For every 32-bit key, whichever hash was found, the emitted function has defined behaviour and
  returns the rule of the tuple with that key, or takes the default action.
\<close>

lemma gen_hash_lookup:
  assumes g: "gen_hash cd = Inr (Some ph)" and f: "gen_find_fos ph = Inr f"
    and ok: "keys_ok cd" "keys32 cd" "t2int cd \<noteq> []" "cnames cd \<noteq> []"
    and x: "0 \<le> x" "x < 2 ^ 32"
  shows "exec_find f (word_of_int x) = Some (key_lookup cd x)"
proof -
  from g consider p where "gen_hash_one_level cd = Inr (Some p)" "ph = OneLevel p"
    | p where "find_l2_phash cd = Inr (Some p)" "ph = TwoLevel p"
    by (auto simp: gen_hash_def rbind_eq_Inr split: option.splits)
  then show ?thesis
  proof cases
    case 1
    from gen_hash_one_level_ok [OF 1(1) ok(1,2,4)] have p: "l1_ok p" "l1_cdict p = cd" by simp_all
    from f 1(2) obtain fn where "gen_find_one p = Inr fn" "f = OneFn fn"
      by (auto simp: gen_find_fos_def rbind_eq_Inr)
    with exec_find_one_lookup [OF p(1) _ x, of fn] p(2) show ?thesis by simp
  next
    case 2
    from find_l2_phash_ok [OF 2(1) ok(1-3)] have p: "l2_ok p" "l2_cdict p = cd" by simp_all
    from f 2(2) have "gen_find_two p = Inr f" by (simp add: gen_find_fos_def)
    with exec_find_two_lookup [OF p(1) _ x, of f] p(2) show ?thesis by simp
  qed
qed

text \<open>In terms of tuples: the packed key of a tuple that fits its fields finds the rule of the tuple.\<close>

lemma key_lookup_fits:
  assumes ok: "keys_ok cd" and w: "has_widths (op_widths cd) (cnames cd)"
    and fits: "\<forall>t \<in> set (dkeys (tuple2rule cd)). tuple_fits (op_widths cd) (cnames cd) t"
    and t: "tuple_fits (op_widths cd) (cnames cd) t" "tuple2int t (cnames cd) (op_widths cd) = Inr x"
  shows "key_lookup cd x = map_of (tuple2rule cd) t"
proof (cases "t \<in> set (dkeys (t2int cd))")
  case True
  then obtain k where k: "map_of (t2int cd) t = Some k"
    using map_of_None_keys [of "t2int cd" t] by auto
  then have "k = x" using ok t(2) by (auto simp: keys_ok_def)
  with key_lookup_tuple [OF ok k] show ?thesis by simp
next
  case False
  then have "map_of (tuple2rule cd) t = None"
    using ok map_of_None_keys [of "tuple2rule cd" t] by (auto simp: keys_ok_def)
  moreover have "key_lookup cd x = None"
  proof (rule ccontr)
    assume "key_lookup cd x \<noteq> None"
    then obtain r where "key_lookup cd x = Some r" by blast
    then obtain u where u: "map_of (t2int cd) u = Some x" "map_of (tuple2rule cd) u = Some r"
      using key_lookup_Some [OF ok] by blast
    then have "tuple2int u (cnames cd) (op_widths cd) = Inr x" using ok by (simp add: keys_ok_def)
    moreover have "tuple_fits (op_widths cd) (cnames cd) u"
      using fits u(2) map_of_None_keys [of "tuple2rule cd" u] by (simp del: set_map)
    ultimately have "u = t" using t tuple2int_inj [OF w] by metis
    then show False using False u(1) map_of_None_keys [of "t2int cd" u] by simp
  qed
  ultimately show ?thesis by simp
qed

section \<open>The generated lookup\<close>

text \<open>
  C2: whatever hash the generator settles on for a dictionary (none, linear, multiplicative, FKS,
  one or two levels), the C function emitted for it returns, for every 32-bit key, the rule of the
  dictionary under that key, and takes the default action for every key the dictionary lacks; it never
  reads outside its table.
\<close>

theorem generated_lookup_exact:
  assumes "gen_hash cd = Inr (Some ph)" and "gen_find_fos ph = Inr f"
    and "keys_ok cd" "keys32 cd" "t2int cd \<noteq> []" "cnames cd \<noteq> []" and "0 \<le> x" "x < 2 ^ 32"
  shows "exec_find f (word_of_int x) = Some
    (case map_of (int2tuple cd) x of None \<Rightarrow> None | Some t \<Rightarrow> map_of (tuple2rule cd) t)"
  using gen_hash_lookup [OF assms] by (simp add: key_lookup_def)

definition sample_cdict :: "int cdict" where
  "sample_cdict =
     \<lparr>cnames = [''REG''], state_space = [], all_state_space = [], rule = None,
      tuple2rule = [([2], 100), ([3], 200), ([4], 300)], t2int = [([2], 2), ([3], 3), ([4], 4)],
      int2tuple = [(2, [2]), (3, [3]), (4, [4])], op_widths = [(''REG'', 5)]\<rparr>"

lemma sample_cdict_ok: "keys_ok sample_cdict \<and> keys32 sample_cdict"
  by (auto simp: keys_ok_def keys32_def inverse_dicts_def dict_ok_def sample_cdict_def tuple2int_def dget_def)

theorem generated_lookup_exact_witness:
  "\<exists>ph f. gen_hash sample_cdict = Inr (Some ph) \<and> gen_find_fos ph = Inr f \<and>
     exec_find f 4 = Some (Some 300) \<and> exec_find f 7 = Some None"
proof -
  let ?ph = "\<lparr>l1_cdict = sample_cdict, l1_hash = HLinear (linear_new 2 4),
      l1_x2hx = [(2, 0), (3, 1), (4, 2)], l1_hx2x = [(0, 2), (1, 3), (2, 4)]\<rparr>"
  let ?f = "OneFn (FindOne (CSubConst 2) (CheckLe 2) [(2, Some (100 :: int)), (3, Some 200), (4, Some 300)])"
  have "linear_if_sequential sample_cdict = Inr (Some ?ph)" by code_simp
  then have g1: "gen_hash sample_cdict = Inr (Some (OneLevel ?ph))"
    by (simp add: gen_hash_def gen_hash_one_level_def or_else_def zero_constraints_def) (simp add: sample_cdict_def)
  have g2: "gen_find_fos (OneLevel ?ph) = Inr ?f" by code_simp
  note g = g1 g2
  have s: "t2int sample_cdict \<noteq> []" "cnames sample_cdict \<noteq> []" by (simp_all add: sample_cdict_def)
  note lk = generated_lookup_exact [OF g sample_cdict_ok [THEN conjunct1] sample_cdict_ok [THEN conjunct2] s]
  have "exec_find ?f 4 = Some (Some 300)" "exec_find ?f 7 = Some None"
    using lk [of 4] lk [of 7] by (simp_all add: sample_cdict_def)
  with g show ?thesis by blast
qed

end
