(* ===== verification/Cdict_Compress.thy ===== *)
theory Cdict_Compress
  imports Ild_Pattern
begin

text \<open>
  The compressed operands of \<open>pysrc/ild_cdict.py\<close>: the tests that decide whether all the patterns of a
  bin use an operand in a two-valued way, the replacements of the operand by a one-bit operand, and
  \<open>_get_united_cdict\<close>, which applies them, expands the patterns, unites them and computes the keys.
\<close>

section \<open>Constraint names\<close>

text \<open>\<open>set.remove\<close> raises \<open>KeyError\<close> when the name is absent.\<close>

definition cn_remove :: "string \<Rightarrow> string set \<Rightarrow> string set res" where
  "cn_remove n cns = (if n \<in> cns then Inr (cns - {n}) else Inl KeyError)"

definition constrain :: "string \<Rightarrow> value_dict \<Rightarrow> pattern \<Rightarrow> pattern" where
  "constrain n vals p = p\<lparr>constraints := dset n vals (constraints p)\<rparr>"

definition one_value :: value_dict where "one_value = [(1, True)]"
definition zero_value :: value_dict where "zero_value = [(0, True)]"
definition any_value :: value_dict where "any_value = [(0, True), (1, True)]"

text \<open>Equality of dictionaries does not see the order of the keys.\<close>

definition same_dict :: "value_dict \<Rightarrow> value_dict \<Rightarrow> bool" where
  "same_dict d e \<longleftrightarrow> set d = set e"

definition has_test :: "string \<Rightarrow> od_test \<Rightarrow> bit_info list \<Rightarrow> bool" where
  "has_test tok t bits \<longleftrightarrow> list_ex (\<lambda>bt. btoken bt = Some tok \<and> btest bt = Some t) bits"

section \<open>MOD3\<close>

definition mod3_text :: "string \<Rightarrow> bool" where
  "mod3_text s \<longleftrightarrow> str_in ''MOD=3'' s"

definition is_binary_MOD3 :: "pattern list \<Rightarrow> bool" where
  "is_binary_MOD3 ptrn_list \<longleftrightarrow> list_all (\<lambda>p. mod3_text (ptrn p) \<or> str_in ''MOD!=3'' (ptrn p)) ptrn_list"

definition replace_MOD_with_MOD3 ::
  "string set \<Rightarrow> pattern list \<Rightarrow> (string set \<times> pattern list) res" where
  "replace_MOD_with_MOD3 cns ptrn_list =
     rbind (cn_remove ''MOD'' cns) (\<lambda>cns.
       Inr (insert ''MOD3'' cns,
            map (\<lambda>p. constrain ''MOD3'' (if mod3_text (ptrn p) then one_value else zero_value) p) ptrn_list))"

section \<open>VEXDEST210_7\<close>

definition has_VEXDEST210_equals_7_restriction :: "string set \<Rightarrow> pattern list \<Rightarrow> bool res" where
  "has_VEXDEST210_equals_7_restriction cns ptrn_list =
     (if ''VEXDEST210'' \<notin> cns then Inr False
      else if list_ex (\<lambda>p. din ''VEXDEST210_7'' (constraints p)) ptrn_list
        then Inl (Die ''XXX VEXDEST210_7 already exists in the patterns.'')
      else Inr (list_all (\<lambda>p.
             case map_of (constraints p) ''VEXDEST210'' of
               None \<Rightarrow> True
             | Some cv \<Rightarrow> \<not> (length cv = 1 \<and> \<not> din 7 cv)) ptrn_list))"

definition replace_VEXDEST210_with_VD2107 ::
  "string set \<Rightarrow> pattern list \<Rightarrow> (string set \<times> pattern list) res" where
  "replace_VEXDEST210_with_VD2107 cns ptrn_list =
     rbind (cn_remove ''VEXDEST210'' cns) (\<lambda>cns.
       Inr (insert ''VEXDEST210_7'' cns,
            map (\<lambda>p. constrain ''VEXDEST210_7''
                   (if has_test ''VEXDEST210'' OdEq (p_bits p) then one_value else any_value) p) ptrn_list))"

section \<open>VEXDEST_1F\<close>

datatype cbit = ONE | ZERO | DCARE

definition get_constraint_bit :: "space \<Rightarrow> string \<Rightarrow> (string, nat) dict \<Rightarrow> cbit option res" where
  "get_constraint_bit cs opn all_ops_widths =
     rbind (dget all_ops_widths opn) (\<lambda>w.
       if w = 1
       then (case map_of cs opn of
               None \<Rightarrow> Inr (Some DCARE)
             | Some constr \<Rightarrow>
                 if same_dict constr one_value then Inr (Some ONE)
                 else if same_dict constr zero_value then Inr (Some ZERO)
                 else if same_dict constr any_value then Inr (Some DCARE)
                 else Inr None)
       else Inr None)"

text \<open>The two consecutive tests on bit 4, the second of which undoes the first.\<close>

definition invert_bit4 :: "cbit option \<Rightarrow> cbit option" where
  "invert_bit4 bit4 =
     (let bit4 = (if bit4 = Some ONE then Some ZERO else bit4);
          bit4 = (if bit4 = Some ZERO then Some ONE else bit4)
      in bit4)"

fun has_VEXDEST_1F_loop :: "(string, nat) dict \<Rightarrow> pattern list \<Rightarrow> bool res" where
  "has_VEXDEST_1F_loop widths [] = Inr True"
| "has_VEXDEST_1F_loop widths (p # ps) =
     (if din ''VEXDEST_1F'' (constraints p)
      then Inl (Die ''XXX VEXDEST_1F already exists in the patterns.'')
      else rbind (get_constraint_bit (constraints p) ''VEXDEST210_7'' widths) (\<lambda>bit210.
           rbind (get_constraint_bit (constraints p) ''VEXDEST3'' widths) (\<lambda>bit3.
           rbind (get_constraint_bit (constraints p) ''VEXDEST4'' widths) (\<lambda>bit4.
             let vd_bits = [bit210, bit3, invert_bit4 bit4]
             in if list_all (\<lambda>b. b = Some ONE) vd_bits then has_VEXDEST_1F_loop widths ps
                else if list_all (\<lambda>b. b = Some DCARE) vd_bits then has_VEXDEST_1F_loop widths ps
                else Inr False))))"

definition has_VEXDEST_equals_1F_restriction ::
  "string set \<Rightarrow> pattern list \<Rightarrow> (string, nat) dict \<Rightarrow> bool res" where
  "has_VEXDEST_equals_1F_restriction cns ptrn_list widths =
     (if {''VEXDEST210_7'', ''VEXDEST3'', ''VEXDEST4''} \<subseteq> cns then has_VEXDEST_1F_loop widths ptrn_list
      else Inr False)"

text \<open>What \<open>found\<close> holds for VEXDEST210_7, VEXDEST3 and VEXDEST4: the last two come from the same test.\<close>

definition found_1F :: "pattern \<Rightarrow> bool list res" where
  "found_1F p =
     (case map_of (constraints p) ''VEXDEST210_7'' of
        None \<Rightarrow> Inl KeyError
      | Some c \<Rightarrow> Inr [same_dict c one_value, has_test ''VEXDEST3'' OdEq (p_bits p),
                    has_test ''VEXDEST3'' OdEq (p_bits p)])"

definition replace_pattern_1F :: "pattern \<Rightarrow> pattern res" where
  "replace_pattern_1F p =
     rbind (found_1F p) (\<lambda>found.
       if list_all id found then Inr (constrain ''VEXDEST_1F'' one_value p)
       else if list_ex id found then Inl (Die ''XXX VEXDEST210_1F Found unexpected VVVVV restriction'')
       else Inr (constrain ''VEXDEST_1F'' any_value p))"

definition replace_VEXDEST_with_VD1F ::
  "string set \<Rightarrow> pattern list \<Rightarrow> (string set \<times> pattern list) res" where
  "replace_VEXDEST_with_VD1F cns ptrn_list =
     rbind (cn_remove ''VEXDEST210_7'' cns) (\<lambda>cns.
     rbind (cn_remove ''VEXDEST3'' cns) (\<lambda>cns.
     rbind (cn_remove ''VEXDEST4'' cns) (\<lambda>cns.
     rbind (mapM replace_pattern_1F ptrn_list) (\<lambda>ps. Inr (insert ''VEXDEST_1F'' cns, ps)))))"

section \<open>RM4\<close>

definition is_binary_RM_4 :: "string set \<Rightarrow> pattern list \<Rightarrow> bool" where
  "is_binary_RM_4 cns ptrn_list =
     (if ''RM'' \<notin> cns then False
      else list_all (\<lambda>p.
             case map_of (constraints p) ''RM'' of
               None \<Rightarrow> False
             | Some cv \<Rightarrow> length cv = 1 \<and> din 4 cv) ptrn_list)"

definition replace_RM_with_RM4 ::
  "string set \<Rightarrow> pattern list \<Rightarrow> (string set \<times> pattern list) res" where
  "replace_RM_with_RM4 cns ptrn_list =
     rbind (cn_remove ''RM'' cns) (\<lambda>cns.
       Inr (insert ''RM4'' cns, map (constrain ''RM4'' one_value) ptrn_list))"

section \<open>MASK_NOT0 and MASK_ZERO\<close>

definition is_binary_MASK_NOT0 :: "string set \<Rightarrow> pattern list \<Rightarrow> bool" where
  "is_binary_MASK_NOT0 cns ptrn_list =
     (if ''MASK'' \<notin> cns then False
      else list_all (\<lambda>p.
             case map_of (constraints p) ''MASK'' of
               None \<Rightarrow> False
             | Some cv \<Rightarrow> length cv = 7 \<and> \<not> din 0 cv) ptrn_list)"

definition mask_zero_ok :: "pattern \<Rightarrow> bool" where
  "mask_zero_ok p =
     (case map_of (constraints p) ''MASK'' of
        None \<Rightarrow> True
      | Some cv \<Rightarrow>
          if same_dict cv zero_value
          then list_all (\<lambda>bt. btoken bt = Some ''MASK'' \<longrightarrow> btest bt = Some OdEq) (p_bits p)
          else length cv = 8 \<and> list_all id (dvals cv))"

definition has_MASK_ZERO_restriction :: "string set \<Rightarrow> pattern list \<Rightarrow> bool" where
  "has_MASK_ZERO_restriction cns ptrn_list =
     (if ''MASK'' \<notin> cns then False else list_all mask_zero_ok ptrn_list)"

definition replace_MASK_with_MASK_NOT0 ::
  "string set \<Rightarrow> pattern list \<Rightarrow> (string set \<times> pattern list) res" where
  "replace_MASK_with_MASK_NOT0 cns ptrn_list =
     rbind (cn_remove ''MASK'' cns) (\<lambda>cns.
       Inr (insert ''MASK_NOT0'' cns,
            map (\<lambda>p. constrain ''MASK_NOT0''
                   (if has_test ''MASK'' OdNe (p_bits p) then one_value else any_value) p) ptrn_list))"

definition mask_is_zero :: "pattern \<Rightarrow> bool" where
  "mask_is_zero p =
     (case map_of (constraints p) ''MASK'' of None \<Rightarrow> False | Some cv \<Rightarrow> same_dict cv zero_value)"

definition replace_MASK_with_MASK_ZERO ::
  "string set \<Rightarrow> pattern list \<Rightarrow> (string set \<times> pattern list) res" where
  "replace_MASK_with_MASK_ZERO cns ptrn_list =
     rbind (cn_remove ''MASK'' cns) (\<lambda>cns.
       Inr (insert ''MASK_ZERO'' cns,
            map (\<lambda>p. constrain ''MASK_ZERO'' (if mask_is_zero p then one_value else any_value) p) ptrn_list))"

section \<open>The united dictionary of a bin\<close>

record repl_stats =
  mod3_repl :: int
  vd7_repl :: int
  vd1f_repl :: int
  rm4_repl :: int
  masknot0_repl :: int
  mask0_repl :: int

type_synonym compressing = "repl_stats \<times> string set \<times> pattern list"

definition compress_MOD3 :: "compressing \<Rightarrow> compressing res" where
  "compress_MOD3 st =
     (case st of (stats, cns, ps) \<Rightarrow>
       if is_binary_MOD3 ps
       then rbind (replace_MOD_with_MOD3 cns ps) (\<lambda>(cns, ps).
              Inr (stats\<lparr>mod3_repl := mod3_repl stats + 1\<rparr>, cns, ps))
       else Inr (stats, cns, ps))"

definition compress_VEXDEST :: "(string, nat) dict \<Rightarrow> compressing \<Rightarrow> compressing res" where
  "compress_VEXDEST widths st =
     (case st of (stats, cns, ps) \<Rightarrow>
       rbind (has_VEXDEST210_equals_7_restriction cns ps) (\<lambda>seven.
         if \<not> seven then Inr (stats, cns, ps)
         else rbind (replace_VEXDEST210_with_VD2107 cns ps) (\<lambda>(cns, ps).
              let stats = stats\<lparr>vd7_repl := vd7_repl stats + 1\<rparr>
              in rbind (has_VEXDEST_equals_1F_restriction cns ps widths) (\<lambda>all_ones.
                   if \<not> all_ones then Inr (stats, cns, ps)
                   else rbind (replace_VEXDEST_with_VD1F cns ps) (\<lambda>(cns, ps).
                     Inr (stats\<lparr>vd7_repl := vd7_repl stats - 1, vd1f_repl := vd1f_repl stats + 1\<rparr>,
                          cns, ps))))))"

definition compress_RM4 :: "compressing \<Rightarrow> compressing res" where
  "compress_RM4 st =
     (case st of (stats, cns, ps) \<Rightarrow>
       if is_binary_RM_4 cns ps
       then rbind (replace_RM_with_RM4 cns ps) (\<lambda>(cns, ps).
              Inr (stats\<lparr>rm4_repl := rm4_repl stats + 1\<rparr>, cns, ps))
       else Inr (stats, cns, ps))"

definition compress_MASK_ZERO :: "compressing \<Rightarrow> compressing res" where
  "compress_MASK_ZERO st =
     (case st of (stats, cns, ps) \<Rightarrow>
       if has_MASK_ZERO_restriction cns ps
       then rbind (replace_MASK_with_MASK_ZERO cns ps) (\<lambda>(cns, ps).
              Inr (stats\<lparr>mask0_repl := mask0_repl stats + 1\<rparr>, cns, ps))
       else Inr (stats, cns, ps))"

definition compress :: "(string, nat) dict \<Rightarrow> compressing \<Rightarrow> compressing res" where
  "compress widths st =
     rbind (compress_MOD3 st) (\<lambda>st. rbind (compress_VEXDEST widths st) (\<lambda>st.
     rbind (compress_RM4 st) compress_MASK_ZERO))"

definition constraint_names :: "pattern list \<Rightarrow> string set" where
  "constraint_names ps = set (concat (map (\<lambda>p. dkeys (constraints p)) ps))"

definition expand_and_unite ::
  "(string, nat) dict \<Rightarrow> space \<Rightarrow> string set \<Rightarrow> pattern list \<Rightarrow> pattern cdict option res" where
  "expand_and_unite widths all_space cns ps =
     rbind (mapM (\<lambda>p. constraint_dict_new cns (constraints p) all_space p) ps) (\<lambda>cdicts.
     rbind (unite_dicts cdicts cns) (\<lambda>u.
       case u of
         None \<Rightarrow> Inr None
       | Some united \<Rightarrow> rbind (create_tuple2int widths united) (\<lambda>united. Inr (Some united))))"

definition get_united_cdict ::
  "pattern list \<Rightarrow> space \<Rightarrow> int \<Rightarrow> (string, nat) dict \<Rightarrow> repl_stats
     \<Rightarrow> (repl_stats \<times> pattern cdict option) res" where
  "get_united_cdict ptrn_list all_space vexvalid widths stats =
     (let ptrns = filter (\<lambda>p. vexvalid = vv p) ptrn_list
      in if ptrns = [] then Inr (stats, None)
         else rbind (compress widths (stats, constraint_names ptrns, ptrns)) (\<lambda>(stats, cns, ps).
              rbind (expand_and_unite widths all_space cns ps) (\<lambda>u. Inr (stats, u))))"

text \<open>
  All the bins of an encoding space: \<open>ptrns_by_map_opcode\<close> is a dictionary of default dictionaries, a
  map it lacks raises \<open>KeyError\<close>.  The counters are threaded through.
\<close>

definition bins_of_map ::
  "space \<Rightarrow> int \<Rightarrow> (string, nat) dict \<Rightarrow> (string, pattern list) dict \<Rightarrow> nat
     \<Rightarrow> (repl_stats \<times> (string, pattern cdict option) dict \<times> string set)
     \<Rightarrow> (repl_stats \<times> (string, pattern cdict option) dict \<times> string set) res" where
  "bins_of_map all_space vexvalid widths by_opcode opc st =
     (case st of (stats, d, cns) \<Rightarrow>
       rbind (get_united_cdict (dget_default by_opcode (hex_nat opc) []) all_space vexvalid widths stats)
         (\<lambda>(stats, cd).
           Inr (stats, dset (hex_nat opc) cd d,
                case cd of None \<Rightarrow> cns | Some c \<Rightarrow> cns \<union> set (cnames c))))"

definition get_constraints_lu_table ::
  "string list \<Rightarrow> (string, (string, pattern list) dict) dict \<Rightarrow> space \<Rightarrow> int \<Rightarrow> (string, nat) dict
     \<Rightarrow> repl_stats
     \<Rightarrow> (repl_stats \<times> (string, (string, pattern cdict option) dict) dict \<times> string set) res" where
  "get_constraints_lu_table maps by_map_opcode all_space vexvalid widths stats =
     foldM (\<lambda>insn_map st. case st of (stats, d, cns) \<Rightarrow>
         rbind (dget by_map_opcode insn_map) (\<lambda>by_opcode.
         rbind (foldM (bins_of_map all_space vexvalid widths by_opcode) [0..<256] (stats, [], cns))
           (\<lambda>(stats, bins, cns). Inr (stats, dset insn_map bins d, cns))))
       maps (stats, [], {})"

section \<open>What a compression must preserve\<close>

text \<open>
  An environment gives every operand its value at decode time.  A pattern is selected when each
  constrained name among \<open>cns\<close> has an admitted value.
\<close>

definition selects :: "(string \<Rightarrow> int) \<Rightarrow> string set \<Rightarrow> pattern \<Rightarrow> bool" where
  "selects env cns p \<longleftrightarrow>
     (\<forall>n \<in> cns. \<forall>vs. map_of (constraints p) n = Some vs \<longrightarrow> env n \<in> set (dkeys vs))"

definition same_selection ::
  "(string \<Rightarrow> int) \<Rightarrow> string set \<Rightarrow> pattern list \<Rightarrow> string set \<Rightarrow> pattern list \<Rightarrow> bool" where
  "same_selection env cns ps cns' ps' \<longleftrightarrow>
     list_all2 (\<lambda>p q. (selects env cns p \<longleftrightarrow> selects env cns' q) \<and> p_inum p = p_inum q) ps ps'"

text \<open>The getters of the compressed operands, and the ranges of the operands they compress.\<close>

definition compressed_env :: "(string \<Rightarrow> int) \<Rightarrow> bool" where
  "compressed_env env \<longleftrightarrow>
     env ''MOD3'' = of_bool (env ''MOD'' = 3) \<and>
     env ''VEXDEST210_7'' = of_bool (env ''VEXDEST210'' = 7) \<and>
     env ''VEXDEST_1F'' =
       of_bool (env ''VEXDEST210'' = 7 \<and> env ''VEXDEST3'' = 1 \<and> env ''VEXDEST4'' = 0) \<and>
     env ''RM4'' = of_bool (env ''RM'' = 4) \<and>
     env ''MASK_ZERO'' = of_bool (env ''MASK'' = 0) \<and>
     env ''MOD'' \<in> {0..3} \<and> env ''MASK'' \<in> {0..7} \<and>
     env ''VEXDEST3'' \<in> {0, 1} \<and> env ''VEXDEST4'' \<in> {0, 1}"

lemma same_selection_refl: "same_selection env cns ps cns ps"
  by (simp add: same_selection_def list_all2_same)

lemma same_selection_trans:
  assumes "same_selection env cns ps cns' ps'" and "same_selection env cns' ps' cns'' ps''"
  shows "same_selection env cns ps cns'' ps''"
  using assms unfolding same_selection_def by (rule list_all2_trans [rotated]) auto

text \<open>Replacing one name by another keeps the selection when the two constraints agree.\<close>

definition admits :: "(string \<Rightarrow> int) \<Rightarrow> pattern \<Rightarrow> string \<Rightarrow> bool" where
  "admits env p n \<longleftrightarrow> (\<forall>vs. map_of (constraints p) n = Some vs \<longrightarrow> env n \<in> set (dkeys vs))"

lemma replace_names:
  assumes "olds \<subseteq> cns" "new \<notin> cns"
    and "(\<forall>n \<in> olds. admits env p n) \<longleftrightarrow> env new \<in> set (dkeys vals)"
  shows "selects env cns p \<longleftrightarrow> selects env (insert new (cns - olds)) (constrain new vals p)"
proof -
  have "selects env cns p \<longleftrightarrow>
      (\<forall>n \<in> cns - olds. admits env p n) \<and> env new \<in> set (dkeys vals)"
    unfolding selects_def admits_def [symmetric] assms(3) [symmetric] using assms(1) by blast
  also have "\<dots> \<longleftrightarrow> selects env (insert new (cns - olds)) (constrain new vals p)"
    using assms(2) by (auto simp: selects_def constrain_def admits_def)
  finally show ?thesis .
qed

lemma replace_name:
  assumes "old \<in> cns" "new \<notin> cns"
    and "(\<forall>vs. map_of (constraints p) old = Some vs \<longrightarrow> env old \<in> set (dkeys vs)) \<longleftrightarrow>
         env new \<in> set (dkeys vals)"
  shows "selects env cns p \<longleftrightarrow> selects env (insert new (cns - {old})) (constrain new vals p)"
  using assms by (intro replace_names) (simp_all add: admits_def)

lemma same_selection_map:
  assumes "\<And>p. p \<in> set ps \<Longrightarrow> selects env cns p \<longleftrightarrow> selects env cns' (f p)"
    and "\<And>p. p_inum (f p) = p_inum p"
  shows "same_selection env cns ps cns' (map f ps)"
  using assms by (simp add: same_selection_def list_all2_map2 list_all2_same)

lemma constrain_inum [simp]: "p_inum (constrain n vs p) = p_inum p"
  by (simp add: constrain_def)

lemma value_dict_keys [simp]:
  "set (dkeys one_value) = {1}" "set (dkeys zero_value) = {0}" "set (dkeys any_value) = {0, 1}"
  by (simp_all add: one_value_def zero_value_def any_value_def)

lemma cn_remove_Inr [simp]: "cn_remove n cns = Inr cns' \<longleftrightarrow> n \<in> cns \<and> cns' = cns - {n}"
  by (auto simp: cn_remove_def)

section \<open>MOD3, RM4 and MASK_ZERO keep the selection\<close>

text \<open>The text of a pattern says \<open>MOD=3\<close> exactly when its constraint does, and \<open>MOD!=3\<close> otherwise.\<close>

definition mod_text_ok :: "pattern \<Rightarrow> bool" where
  "mod_text_ok p \<longleftrightarrow>
     (\<exists>vs. map_of (constraints p) ''MOD'' = Some vs \<and>
           set (dkeys vs) = (if mod3_text (ptrn p) then {3} else {0, 1, 2}))"

lemma replace_MOD_selection:
  assumes "replace_MOD_with_MOD3 cns ps = Inr (cns', ps')" and "''MOD3'' \<notin> cns"
    and "\<forall>p \<in> set ps. mod_text_ok p" and "compressed_env env"
  shows "same_selection env cns ps cns' ps'"
proof -
  let ?f = "\<lambda>p. constrain ''MOD3'' (if mod3_text (ptrn p) then one_value else zero_value) p"
  from assms(1) have m: "''MOD'' \<in> cns" and r: "cns' = insert ''MOD3'' (cns - {''MOD''})" "ps' = map ?f ps"
    by (auto simp: replace_MOD_with_MOD3_def rbind_eq_Inr)
  have "selects env cns p \<longleftrightarrow> selects env cns' (?f p)" if "p \<in> set ps" for p
    unfolding r
  proof (rule replace_name [OF m assms(2)])
    have "mod_text_ok p" using assms(3) that by simp
    then show "(\<forall>vs. map_of (constraints p) ''MOD'' = Some vs \<longrightarrow> env ''MOD'' \<in> set (dkeys vs)) \<longleftrightarrow>
        env ''MOD3'' \<in> set (dkeys (if mod3_text (ptrn p) then one_value else zero_value))"
      using assms(4) by (auto simp: mod_text_ok_def compressed_env_def simp del: set_map)
  qed
  then show ?thesis unfolding r(2) by (intro same_selection_map) simp_all
qed

lemma length_one_key: "length cv = 1 \<Longrightarrow> din k cv \<Longrightarrow> set (dkeys cv) = {k}"
  by (cases cv) (auto simp: din_def split: if_splits)

lemma replace_RM_selection:
  assumes "replace_RM_with_RM4 cns ps = Inr (cns', ps')" and "is_binary_RM_4 cns ps"
    and "''RM4'' \<notin> cns" and "compressed_env env"
  shows "same_selection env cns ps cns' ps'"
proof -
  from assms(1) have m: "''RM'' \<in> cns" and r: "cns' = insert ''RM4'' (cns - {''RM''})"
    "ps' = map (constrain ''RM4'' one_value) ps"
    by (auto simp: replace_RM_with_RM4_def rbind_eq_Inr)
  have "selects env cns p \<longleftrightarrow> selects env cns' (constrain ''RM4'' one_value p)" if "p \<in> set ps" for p
    unfolding r
  proof (rule replace_name [OF m assms(3)])
    have "case map_of (constraints p) ''RM'' of None \<Rightarrow> False | Some cv \<Rightarrow> length cv = 1 \<and> din 4 cv"
      using assms(2) that m by (simp add: is_binary_RM_4_def list_all_iff)
    then obtain cv where "map_of (constraints p) ''RM'' = Some cv" "length cv = 1" "din 4 cv"
      by (auto split: option.splits)
    with length_one_key [of cv 4]
    show "(\<forall>vs. map_of (constraints p) ''RM'' = Some vs \<longrightarrow> env ''RM'' \<in> set (dkeys vs)) \<longleftrightarrow>
        env ''RM4'' \<in> set (dkeys one_value)"
      using assms(4) by (simp add: compressed_env_def del: set_map)
  qed
  then show ?thesis unfolding r(2) by (intro same_selection_map) simp_all
qed

definition mask_values_ok :: "pattern \<Rightarrow> bool" where
  "mask_values_ok p \<longleftrightarrow>
     (\<forall>cv. map_of (constraints p) ''MASK'' = Some cv \<longrightarrow> dict_ok cv \<and> set (dkeys cv) \<subseteq> {0..7})"

lemma mask_zero_ok_cases:
  assumes "mask_zero_ok p" "mask_values_ok p" "map_of (constraints p) ''MASK'' = Some cv"
  shows "if mask_is_zero p then set (dkeys cv) = {0} else set (dkeys cv) = {0..7}"
proof (cases "same_dict cv zero_value")
  case True
  then have "set (dkeys cv) = {0}" by (simp add: same_dict_def zero_value_def)
  with True assms(3) show ?thesis by (simp add: mask_is_zero_def)
next
  case False
  then have "length (dkeys cv) = 8" using assms(1,3) by (simp add: mask_zero_ok_def)
  moreover have "distinct (dkeys cv)" "set (dkeys cv) \<subseteq> {0..7}"
    using assms(2,3) by (simp_all add: mask_values_ok_def dict_ok_def)
  moreover have "card {0..7 :: int} = 8" by simp
  ultimately have "set (dkeys cv) = {0..7}"
    by (metis card_subset_eq distinct_card finite_atLeastAtMost_int)
  with False assms(3) show ?thesis by (simp add: mask_is_zero_def)
qed

lemma replace_MASK_selection:
  assumes "replace_MASK_with_MASK_ZERO cns ps = Inr (cns', ps')"
    and "has_MASK_ZERO_restriction cns ps" and "\<forall>p \<in> set ps. mask_values_ok p"
    and "''MASK_ZERO'' \<notin> cns" and "compressed_env env"
  shows "same_selection env cns ps cns' ps'"
proof -
  let ?f = "\<lambda>p. constrain ''MASK_ZERO'' (if mask_is_zero p then one_value else any_value) p"
  from assms(1) have m: "''MASK'' \<in> cns" and r: "cns' = insert ''MASK_ZERO'' (cns - {''MASK''})"
    "ps' = map ?f ps"
    by (auto simp: replace_MASK_with_MASK_ZERO_def rbind_eq_Inr)
  have "selects env cns p \<longleftrightarrow> selects env cns' (?f p)" if p: "p \<in> set ps" for p
    unfolding r
  proof (rule replace_name [OF m assms(4)])
    have ok: "mask_zero_ok p" "mask_values_ok p"
      using assms(2,3) p m by (auto simp: has_MASK_ZERO_restriction_def list_all_iff)
    have e: "env ''MASK_ZERO'' = of_bool (env ''MASK'' = 0)" "env ''MASK'' \<in> {0..7}"
      using assms(5) by (simp_all add: compressed_env_def)
    show "(\<forall>vs. map_of (constraints p) ''MASK'' = Some vs \<longrightarrow> env ''MASK'' \<in> set (dkeys vs)) \<longleftrightarrow>
        env ''MASK_ZERO'' \<in> set (dkeys (if mask_is_zero p then one_value else any_value))"
    proof (cases "map_of (constraints p) ''MASK''")
      case None
      then show ?thesis using e(1) by (simp add: mask_is_zero_def del: set_map)
    next
      case (Some cv)
      with mask_zero_ok_cases [OF ok Some] e show ?thesis by (simp del: set_map split: if_splits)
    qed
  qed
  then show ?thesis unfolding r(2) by (intro same_selection_map) simp_all
qed

section \<open>VEXDEST\<close>

text \<open>
  What the tests do not check: a VEXDEST210 constraint is \<open>=7\<close> and comes from a bit of the pattern, a
  VEXDEST3 bit is required exactly when its constraint is \<open>=1\<close>, and VEXDEST4 (stored inverted) is not
  required to be 1.
\<close>

definition vd210_clean :: "pattern \<Rightarrow> bool" where
  "vd210_clean p \<longleftrightarrow>
     (case map_of (constraints p) ''VEXDEST210'' of
        None \<Rightarrow> \<not> has_test ''VEXDEST210'' OdEq (p_bits p)
      | Some cv \<Rightarrow> set (dkeys cv) = {7} \<and> has_test ''VEXDEST210'' OdEq (p_bits p))"

definition vd34_clean :: "pattern \<Rightarrow> bool" where
  "vd34_clean p \<longleftrightarrow>
     (has_test ''VEXDEST3'' OdEq (p_bits p) \<longleftrightarrow>
        (\<exists>cv. map_of (constraints p) ''VEXDEST3'' = Some cv \<and> set (dkeys cv) = {1})) \<and>
     (\<forall>cv. map_of (constraints p) ''VEXDEST4'' = Some cv \<longrightarrow> set (dkeys cv) \<noteq> {1})"

definition vd7 :: "pattern \<Rightarrow> pattern" where
  "vd7 p = constrain ''VEXDEST210_7''
     (if has_test ''VEXDEST210'' OdEq (p_bits p) then one_value else any_value) p"

lemma vd7_admits:
  assumes "vd210_clean p" "compressed_env env"
  shows "admits env p ''VEXDEST210'' \<longleftrightarrow> admits env (vd7 p) ''VEXDEST210_7''"
  using assms
  by (auto simp: vd210_clean_def admits_def vd7_def constrain_def compressed_env_def
      simp del: set_map split: option.splits)

lemma replace_VEXDEST210_selection:
  assumes "replace_VEXDEST210_with_VD2107 cns ps = Inr (cns', ps')"
    and "\<forall>p \<in> set ps. vd210_clean p" and "''VEXDEST210_7'' \<notin> cns" and "compressed_env env"
  shows "same_selection env cns ps cns' ps'"
proof -
  from assms(1) have m: "''VEXDEST210'' \<in> cns"
    and r: "cns' = insert ''VEXDEST210_7'' (cns - {''VEXDEST210''})" "ps' = map vd7 ps"
    by (auto simp: replace_VEXDEST210_with_VD2107_def rbind_eq_Inr vd7_def)
  have "selects env cns p \<longleftrightarrow> selects env cns' (vd7 p)" if "p \<in> set ps" for p
    unfolding r vd7_def
    using vd7_admits [of p env] assms(2,4) that
    by (intro replace_name [OF m assms(3)]) (simp add: admits_def vd7_def constrain_def)
  then show ?thesis unfolding r(2) by (intro same_selection_map) (simp_all add: vd7_def)
qed

lemma get_constraint_bit_Inr:
  assumes "get_constraint_bit cs n w = Inr (Some b)"
  shows "case b of
      ONE \<Rightarrow> \<exists>cv. map_of cs n = Some cv \<and> same_dict cv one_value
    | ZERO \<Rightarrow> \<exists>cv. map_of cs n = Some cv \<and> same_dict cv zero_value
    | DCARE \<Rightarrow> map_of cs n = None \<or> (\<exists>cv. map_of cs n = Some cv \<and> same_dict cv any_value)"
  using assms by (auto simp: get_constraint_bit_def rbind_eq_Inr split: if_splits option.splits)

lemma same_dict_keys: "same_dict cv e \<Longrightarrow> set (dkeys cv) = set (dkeys e)"
  by (simp add: same_dict_def)

lemma invert_bit4_eq:
  "invert_bit4 b = (case b of Some ONE \<Rightarrow> Some ONE | Some ZERO \<Rightarrow> Some ONE | _ \<Rightarrow> b)"
  by (auto simp: invert_bit4_def split: option.splits cbit.splits)

lemma has_VEXDEST_1F_loop_True:
  assumes "has_VEXDEST_1F_loop w ps = Inr True" and "p \<in> set ps"
  obtains b2 b3 b4 where
    "get_constraint_bit (constraints p) ''VEXDEST210_7'' w = Inr (Some b2)"
    "get_constraint_bit (constraints p) ''VEXDEST3'' w = Inr (Some b3)"
    "get_constraint_bit (constraints p) ''VEXDEST4'' w = Inr (Some b4)"
    "b2 = ONE \<and> b3 = ONE \<and> b4 \<noteq> DCARE \<or> b2 = DCARE \<and> b3 = DCARE \<and> b4 = DCARE"
  using assms
proof (induction ps arbitrary: thesis)
  case Nil
  then show ?case by simp
next
  case (Cons q ps)
  then obtain c2 c3 c4 where c: "get_constraint_bit (constraints q) ''VEXDEST210_7'' w = Inr c2"
    "get_constraint_bit (constraints q) ''VEXDEST3'' w = Inr c3"
    "get_constraint_bit (constraints q) ''VEXDEST4'' w = Inr c4"
    "c2 = Some ONE \<and> c3 = Some ONE \<and> invert_bit4 c4 = Some ONE \<or>
     c2 = Some DCARE \<and> c3 = Some DCARE \<and> invert_bit4 c4 = Some DCARE"
    and rest: "has_VEXDEST_1F_loop w ps = Inr True"
    by (auto simp: rbind_eq_Inr Let_def split: if_splits)
  show ?case
  proof (cases "p = q")
    case True
    with Cons.prems(1) c show ?thesis
      by (cases c4) (auto simp: invert_bit4_eq split: cbit.splits)
  next
    case False
    then show ?thesis using Cons.IH [OF _ rest] Cons.prems by auto
  qed
qed

lemma found_1F_eq:
  "map_of (constraints p) ''VEXDEST210_7'' = Some c \<Longrightarrow> found_1F p =
     Inr [same_dict c one_value, has_test ''VEXDEST3'' OdEq (p_bits p), has_test ''VEXDEST3'' OdEq (p_bits p)]"
  by (simp add: found_1F_def)

text \<open>One pattern through both replacements.\<close>

lemma replace_pattern_1F_selection:
  assumes clean: "vd210_clean p" "vd34_clean p" and env: "compressed_env env"
    and w: "get_constraint_bit (constraints (vd7 p)) ''VEXDEST210_7'' w = Inr (Some b2)"
      "get_constraint_bit (constraints (vd7 p)) ''VEXDEST3'' w = Inr (Some b3)"
      "get_constraint_bit (constraints (vd7 p)) ''VEXDEST4'' w = Inr (Some b4)"
    and bits: "b2 = ONE \<and> b3 = ONE \<and> b4 \<noteq> DCARE \<or> b2 = DCARE \<and> b3 = DCARE \<and> b4 = DCARE"
    and q: "replace_pattern_1F (vd7 p) = Inr q"
    and cns: "{''VEXDEST210_7'', ''VEXDEST3'', ''VEXDEST4''} \<subseteq> cns" "''VEXDEST_1F'' \<notin> cns"
  shows "(selects env cns (vd7 p) \<longleftrightarrow>
      selects env (insert ''VEXDEST_1F'' (cns - {''VEXDEST210_7'', ''VEXDEST3'', ''VEXDEST4''})) q) \<and>
    p_inum (vd7 p) = p_inum q"
proof -
  let ?C = "map_of (constraints p)"
  have c3: "map_of (constraints (vd7 p)) ''VEXDEST3'' = ?C ''VEXDEST3''"
    and c4: "map_of (constraints (vd7 p)) ''VEXDEST4'' = ?C ''VEXDEST4''"
    and bitsp: "p_bits (vd7 p) = p_bits p"
    by (simp_all add: vd7_def constrain_def)
  have env': "env ''VEXDEST210_7'' = of_bool (env ''VEXDEST210'' = 7)"
    "env ''VEXDEST_1F'' = of_bool (env ''VEXDEST210'' = 7 \<and> env ''VEXDEST3'' = 1 \<and> env ''VEXDEST4'' = 0)"
    "env ''VEXDEST3'' \<in> {0, 1}" "env ''VEXDEST4'' \<in> {0, 1}"
    using env by (simp_all add: compressed_env_def)
  have adm: "(\<forall>n \<in> {''VEXDEST210_7'', ''VEXDEST3'', ''VEXDEST4''}. admits env (vd7 p) n) \<longleftrightarrow>
      env ''VEXDEST_1F'' \<in> set (dkeys vals)"
    if "q = constrain ''VEXDEST_1F'' vals (vd7 p)" "vals = (if b2 = ONE then one_value else any_value)" for vals
  proof (cases "b2 = ONE")
    case True
    then have b: "b3 = ONE" "b4 = ONE \<or> b4 = ZERO" using bits by (auto intro: cbit.exhaust)
    obtain v2 v3 v4 where v: "map_of (constraints (vd7 p)) ''VEXDEST210_7'' = Some v2" "set (dkeys v2) = {1}"
      "?C ''VEXDEST3'' = Some v3" "set (dkeys v3) = {1}"
      "?C ''VEXDEST4'' = Some v4" "set (dkeys v4) = {1} \<or> set (dkeys v4) = {0}"
      using get_constraint_bit_Inr [OF w(1)] get_constraint_bit_Inr [OF w(2)] get_constraint_bit_Inr [OF w(3)]
        True b c3 c4 same_dict_keys value_dict_keys by (auto simp del: set_map split: cbit.splits)
    with clean(2) have "set (dkeys v4) = {0}" by (auto simp: vd34_clean_def simp del: set_map)
    with v True env' that(2) c3 c4 show ?thesis by (simp add: admits_def del: set_map)
  next
    case False
    then have b: "b2 = DCARE" "b3 = DCARE" "b4 = DCARE" using bits by auto
    have "admits env (vd7 p) ''VEXDEST210_7''" "admits env (vd7 p) ''VEXDEST3''" "admits env (vd7 p) ''VEXDEST4''"
      using get_constraint_bit_Inr [OF w(1)] get_constraint_bit_Inr [OF w(2)] get_constraint_bit_Inr [OF w(3)]
        b env' same_dict_keys [of _ any_value] by (auto simp: admits_def simp del: set_map)
    with False that(2) env' show ?thesis by (simp del: set_map)
  qed
  have v2: "map_of (constraints (vd7 p)) ''VEXDEST210_7'' =
      Some (if has_test ''VEXDEST210'' OdEq (p_bits p) then one_value else any_value)"
    by (simp add: vd7_def constrain_def)
  have one: "\<not> same_dict any_value one_value" "same_dict one_value one_value"
    by (auto simp: same_dict_def any_value_def one_value_def)
  have t2: "b2 = ONE \<longleftrightarrow> has_test ''VEXDEST210'' OdEq (p_bits p)"
    using get_constraint_bit_Inr [OF w(1)] v2 bits one
    by (auto simp: same_dict_def any_value_def one_value_def split: if_splits)
  have t3: "b2 = ONE \<longleftrightarrow> has_test ''VEXDEST3'' OdEq (p_bits p)"
  proof -
    have "has_test ''VEXDEST3'' OdEq (p_bits p) \<longleftrightarrow> (\<exists>cv. ?C ''VEXDEST3'' = Some cv \<and> set (dkeys cv) = {1})"
      using clean(2) by (simp add: vd34_clean_def del: set_map)
    moreover have "b3 = ONE \<longleftrightarrow> (\<exists>cv. ?C ''VEXDEST3'' = Some cv \<and> set (dkeys cv) = {1})"
      using get_constraint_bit_Inr [OF w(2)] bits c3 same_dict_keys value_dict_keys
      by (auto simp del: set_map split: cbit.splits)
    ultimately show ?thesis using bits by auto
  qed
  have "q = constrain ''VEXDEST_1F'' (if b2 = ONE then one_value else any_value) (vd7 p)"
    using q t2 t3 one v2 by (simp add: replace_pattern_1F_def found_1F_eq [OF v2] bitsp split: if_splits)
  with adm replace_names [OF cns(1,2), of env "vd7 p"] show ?thesis by simp
qed

lemma replace_VEXDEST_1F_selection:
  assumes r: "replace_VEXDEST_with_VD1F cns (map vd7 ps) = Inr (cns', ps')"
    and h: "has_VEXDEST_equals_1F_restriction cns (map vd7 ps) w = Inr True"
    and clean: "\<forall>p \<in> set ps. vd210_clean p" "\<forall>p \<in> set ps. vd34_clean p" and fresh: "''VEXDEST_1F'' \<notin> cns"
    and env: "compressed_env env"
  shows "same_selection env cns (map vd7 ps) cns' ps'"
proof -
  from h have sub: "{''VEXDEST210_7'', ''VEXDEST3'', ''VEXDEST4''} \<subseteq> cns"
    and loop: "has_VEXDEST_1F_loop w (map vd7 ps) = Inr True"
    by (auto simp: has_VEXDEST_equals_1F_restriction_def split: if_splits)
  from r have m: "mapM replace_pattern_1F (map vd7 ps) = Inr ps'"
    and cns': "cns' = insert ''VEXDEST_1F'' (cns - {''VEXDEST210_7'', ''VEXDEST3'', ''VEXDEST4''})"
    by (auto simp: replace_VEXDEST_with_VD1F_def rbind_eq_Inr)
  have len: "length ps' = length ps" using mapM_Inr_length [OF m] by simp
  show ?thesis
    unfolding same_selection_def
  proof (rule list_all2_all_nthI)
    fix i assume i: "i < length (map vd7 ps)"
    then have p: "ps ! i \<in> set ps" by simp
    then obtain b2 b3 b4 where b:
      "get_constraint_bit (constraints (vd7 (ps ! i))) ''VEXDEST210_7'' w = Inr (Some b2)"
      "get_constraint_bit (constraints (vd7 (ps ! i))) ''VEXDEST3'' w = Inr (Some b3)"
      "get_constraint_bit (constraints (vd7 (ps ! i))) ''VEXDEST4'' w = Inr (Some b4)"
      "b2 = ONE \<and> b3 = ONE \<and> b4 \<noteq> DCARE \<or> b2 = DCARE \<and> b3 = DCARE \<and> b4 = DCARE"
      using has_VEXDEST_1F_loop_True [OF loop, of "vd7 (ps ! i)"] by auto
    have "replace_pattern_1F (vd7 (ps ! i)) = Inr (ps' ! i)" using mapM_Inr_nth [OF m i] i by simp
    from replace_pattern_1F_selection [OF _ _ env b this sub fresh] clean p
    show "(selects env cns (map vd7 ps ! i) \<longleftrightarrow> selects env cns' (ps' ! i)) \<and>
        p_inum (map vd7 ps ! i) = p_inum (ps' ! i)"
      using i by (simp add: cns')
  qed (simp add: len)
qed

section \<open>The whole compression keeps the selection\<close>

definition special_names :: "string set" where
  "special_names = {''MOD3'', ''VEXDEST210_7'', ''VEXDEST_1F'', ''RM4'', ''MASK_ZERO''}"

text \<open>
  What the patterns of a bin must satisfy for a replacement to be exact, asked only of the bins in which
  the test of that replacement succeeds: with MOD3, the text of each pattern and its MOD constraint agree;
  with VEXDEST210_7, the VEXDEST210 restrictions are \<open>=7\<close>, and the VEXDEST3 and VEXDEST4 restrictions are
  those of an all-ones VEXDEST when these operands are constrained as well; with MASK_ZERO, the values of
  MASK have three bits.
\<close>

definition bin_clean :: "string set \<Rightarrow> pattern list \<Rightarrow> bool" where
  "bin_clean cns ps \<longleftrightarrow>
     (is_binary_MOD3 ps \<longrightarrow> (\<forall>p \<in> set ps. mod_text_ok p)) \<and>
     (has_VEXDEST210_equals_7_restriction cns ps = Inr True \<longrightarrow>
        (\<forall>p \<in> set ps. vd210_clean p \<and> ({''VEXDEST3'', ''VEXDEST4''} \<subseteq> cns \<longrightarrow> vd34_clean p))) \<and>
     (has_MASK_ZERO_restriction cns ps \<longrightarrow> (\<forall>p \<in> set ps. mask_values_ok p))"

text \<open>What the later steps read of a pattern is not touched by the earlier ones.\<close>

definition same_but :: "string set \<Rightarrow> pattern \<Rightarrow> pattern \<Rightarrow> bool" where
  "same_but ns p q \<longleftrightarrow> p_bits p = p_bits q \<and>
     (\<forall>n. n \<notin> ns \<longrightarrow> map_of (constraints p) n = map_of (constraints q) n)"

lemma same_but_constrain: "n \<in> ns \<Longrightarrow> same_but ns p (constrain n vs p)"
  by (auto simp: same_but_def constrain_def)

lemma same_but_refl: "same_but ns p p"
  by (simp add: same_but_def)

lemma same_but_trans: "same_but ns p q \<Longrightarrow> same_but ns q r \<Longrightarrow> same_but ns p r"
  by (simp add: same_but_def)

lemma clean_same_but:
  assumes "same_but special_names p q"
  shows "vd210_clean p \<longleftrightarrow> vd210_clean q" and "vd34_clean p \<longleftrightarrow> vd34_clean q"
    and "mask_values_ok p \<longleftrightarrow> mask_values_ok q" and "mask_zero_ok p \<longleftrightarrow> mask_zero_ok q"
proof -
  have "map_of (constraints p) ''VEXDEST210'' = map_of (constraints q) ''VEXDEST210''"
    "map_of (constraints p) ''VEXDEST3'' = map_of (constraints q) ''VEXDEST3''"
    "map_of (constraints p) ''VEXDEST4'' = map_of (constraints q) ''VEXDEST4''"
    "map_of (constraints p) ''MASK'' = map_of (constraints q) ''MASK''"
    using assms by (auto simp: same_but_def special_names_def)
  moreover have "p_bits p = p_bits q" using assms by (simp add: same_but_def)
  ultimately show "vd210_clean p \<longleftrightarrow> vd210_clean q" "vd34_clean p \<longleftrightarrow> vd34_clean q"
    "mask_values_ok p \<longleftrightarrow> mask_values_ok q" "mask_zero_ok p \<longleftrightarrow> mask_zero_ok q"
    by (simp_all only: vd210_clean_def vd34_clean_def mask_values_ok_def mask_zero_ok_def)
qed

definition step_ok ::
  "(string \<Rightarrow> int) \<Rightarrow> string set \<Rightarrow> pattern list \<Rightarrow> string set \<Rightarrow> pattern list \<Rightarrow> string set \<Rightarrow> bool" where
  "step_ok env cns ps cns' ps' new \<longleftrightarrow>
     same_selection env cns ps cns' ps' \<and> list_all2 (same_but special_names) ps ps' \<and>
     cns' \<subseteq> cns \<union> new"

lemma step_ok_refl: "step_ok env cns ps cns ps new"
  by (simp add: step_ok_def same_selection_refl list_all2_same same_but_refl)

lemma step_ok_trans:
  assumes "step_ok env cns ps cns' ps' a" "step_ok env cns' ps' cns'' ps'' b"
  shows "step_ok env cns ps cns'' ps'' (a \<union> b)"
proof -
  have "list_all2 (same_but special_names) ps ps''"
    using assms unfolding step_ok_def by (auto intro: list_all2_trans [OF same_but_trans])
  then show ?thesis
    using assms same_selection_trans [of env cns ps cns' ps' cns'' ps'']
    unfolding step_ok_def by blast
qed

lemma step_ok_all:
  assumes "step_ok env cns ps cns' ps' new" "\<And>p q. same_but special_names p q \<Longrightarrow> P p \<longleftrightarrow> P q"
  shows "(\<forall>p \<in> set ps'. P p) \<longleftrightarrow> (\<forall>p \<in> set ps. P p)"
proof -
  have "list_all2 (\<lambda>p q. P p \<longleftrightarrow> P q) ps ps'"
    using assms unfolding step_ok_def by (auto elim: list_all2_mono)
  then show ?thesis by (induction rule: list_all2_induct) auto
qed

lemma compress_MOD3_ok:
  assumes "compress_MOD3 (s, cns, ps) = Inr (s', cns', ps')"
    and "is_binary_MOD3 ps \<longrightarrow> (\<forall>p \<in> set ps. mod_text_ok p)" "''MOD3'' \<notin> cns" "compressed_env env"
  shows "step_ok env cns ps cns' ps' {''MOD3''}"
proof (cases "is_binary_MOD3 ps")
  case True
  with assms(1) have r: "replace_MOD_with_MOD3 cns ps = Inr (cns', ps')"
    by (auto simp: compress_MOD3_def rbind_eq_Inr)
  then have "list_all2 (same_but special_names) ps ps'" "cns' \<subseteq> cns \<union> {''MOD3''}"
    by (auto simp: replace_MOD_with_MOD3_def rbind_eq_Inr list_all2_map2 list_all2_same special_names_def
        intro!: same_but_constrain)
  with replace_MOD_selection [OF r assms(3) _ assms(4)] assms(2) True show ?thesis
    unfolding step_ok_def by blast
next
  case False
  with assms(1) show ?thesis by (simp add: compress_MOD3_def step_ok_refl)
qed

lemma compress_RM4_ok:
  assumes "compress_RM4 (s, cns, ps) = Inr (s', cns', ps')" "''RM4'' \<notin> cns" "compressed_env env"
  shows "step_ok env cns ps cns' ps' {''RM4''}"
proof (cases "is_binary_RM_4 cns ps")
  case True
  with assms(1) have r: "replace_RM_with_RM4 cns ps = Inr (cns', ps')"
    by (auto simp: compress_RM4_def rbind_eq_Inr)
  then have "list_all2 (same_but special_names) ps ps'" "cns' \<subseteq> cns \<union> {''RM4''}"
    by (auto simp: replace_RM_with_RM4_def rbind_eq_Inr list_all2_map2 list_all2_same special_names_def
        intro!: same_but_constrain)
  with replace_RM_selection [OF r True assms(2,3)] show ?thesis unfolding step_ok_def by blast
next
  case False
  with assms(1) show ?thesis by (simp add: compress_RM4_def step_ok_refl)
qed

lemma compress_MASK_ok:
  assumes "compress_MASK_ZERO (s, cns, ps) = Inr (s', cns', ps')" "''MASK_ZERO'' \<notin> cns"
    and "has_MASK_ZERO_restriction cns ps \<Longrightarrow> \<forall>p \<in> set ps. mask_values_ok p" "compressed_env env"
  shows "step_ok env cns ps cns' ps' {''MASK_ZERO''}"
proof (cases "has_MASK_ZERO_restriction cns ps")
  case True
  with assms(1) have r: "replace_MASK_with_MASK_ZERO cns ps = Inr (cns', ps')"
    by (auto simp: compress_MASK_ZERO_def rbind_eq_Inr)
  then have "list_all2 (same_but special_names) ps ps'" "cns' \<subseteq> cns \<union> {''MASK_ZERO''}"
    by (auto simp: replace_MASK_with_MASK_ZERO_def rbind_eq_Inr list_all2_map2 list_all2_same special_names_def
        intro!: same_but_constrain)
  with replace_MASK_selection [OF r True assms(3) [OF True] assms(2,4)] show ?thesis unfolding step_ok_def by blast
next
  case False
  with assms(1) show ?thesis by (simp add: compress_MASK_ZERO_def step_ok_refl)
qed

lemma replace_pattern_1F_same_but:
  "replace_pattern_1F p = Inr q \<Longrightarrow> same_but special_names p q"
  by (auto simp: replace_pattern_1F_def rbind_eq_Inr special_names_def split: if_splits
      intro!: same_but_constrain)

lemma compress_VEXDEST_ok:
  assumes c: "compress_VEXDEST w (s, cns, ps) = Inr (s', cns', ps')"
    and fresh: "''VEXDEST210_7'' \<notin> cns" "''VEXDEST_1F'' \<notin> cns"
    and clean: "has_VEXDEST210_equals_7_restriction cns ps = Inr True \<Longrightarrow>
      \<forall>p \<in> set ps. vd210_clean p \<and> ({''VEXDEST3'', ''VEXDEST4''} \<subseteq> cns \<longrightarrow> vd34_clean p)"
    and env: "compressed_env env"
  shows "step_ok env cns ps cns' ps' {''VEXDEST210_7'', ''VEXDEST_1F''}"
proof -
  from c obtain seven where seven: "has_VEXDEST210_equals_7_restriction cns ps = Inr seven"
    by (auto simp: compress_VEXDEST_def rbind_eq_Inr)
  show ?thesis
  proof (cases seven)
    case False
    with c seven show ?thesis by (simp add: compress_VEXDEST_def step_ok_refl)
  next
    case True
    let ?cns1 = "insert ''VEXDEST210_7'' (cns - {''VEXDEST210''})"
    from c True seven have m: "''VEXDEST210'' \<in> cns"
      and r1: "replace_VEXDEST210_with_VD2107 cns ps = Inr (?cns1, map vd7 ps)"
      by (auto simp: compress_VEXDEST_def rbind_eq_Inr replace_VEXDEST210_with_VD2107_def vd7_def)
    have cl: "\<forall>p \<in> set ps. vd210_clean p"
      and cl34: "{''VEXDEST3'', ''VEXDEST4''} \<subseteq> cns \<Longrightarrow> \<forall>p \<in> set ps. vd34_clean p"
      using clean seven True by auto
    have s1: "step_ok env cns ps ?cns1 (map vd7 ps) {''VEXDEST210_7''}"
      using replace_VEXDEST210_selection [OF r1 cl fresh(1) env] unfolding step_ok_def
      by (auto simp: list_all2_map2 list_all2_same vd7_def special_names_def intro!: same_but_constrain)
    obtain ones where ones: "has_VEXDEST_equals_1F_restriction ?cns1 (map vd7 ps) w = Inr ones"
      using c True seven r1 by (auto simp: compress_VEXDEST_def rbind_eq_Inr Let_def)
    show ?thesis
    proof (cases ones)
      case False
      then have "cns' = ?cns1" "ps' = map vd7 ps"
        using c True seven r1 ones by (auto simp: compress_VEXDEST_def Let_def)
      with s1 show ?thesis by (auto simp: step_ok_def)
    next
      case t: True
      then have r2: "replace_VEXDEST_with_VD1F ?cns1 (map vd7 ps) = Inr (cns', ps')"
        using c True seven r1 ones by (auto simp: compress_VEXDEST_def Let_def rbind_eq_Inr)
      have "same_selection env ?cns1 (map vd7 ps) cns' ps'"
        using replace_VEXDEST_1F_selection [OF r2 _ cl cl34 _ env] ones t fresh(2)
        by (auto simp: has_VEXDEST_equals_1F_restriction_def split: if_splits)
      moreover have "list_all2 (same_but special_names) (map vd7 ps) ps'"
        using r2 by (auto simp: replace_VEXDEST_with_VD1F_def rbind_eq_Inr list_all2_conv_all_nth
            dest: mapM_Inr_length mapM_Inr_nth intro!: replace_pattern_1F_same_but)
      moreover have "cns' \<subseteq> insert ''VEXDEST_1F'' ?cns1"
        using r2 by (auto simp: replace_VEXDEST_with_VD1F_def rbind_eq_Inr)
      ultimately have "step_ok env ?cns1 (map vd7 ps) cns' ps' {''VEXDEST_1F''}"
        unfolding step_ok_def by blast
      from step_ok_trans [OF s1 this] show ?thesis by (simp add: insert_commute)
    qed
  qed
qed

lemma compress_steps:
  assumes "compress w (s, cns, ps) = Inr (s', cns', ps')"
  obtains s1 cns1 ps1 s2 cns2 ps2 s3 cns3 ps3 where
    "compress_MOD3 (s, cns, ps) = Inr (s1, cns1, ps1)"
    "compress_VEXDEST w (s1, cns1, ps1) = Inr (s2, cns2, ps2)"
    "compress_RM4 (s2, cns2, ps2) = Inr (s3, cns3, ps3)"
    "compress_MASK_ZERO (s3, cns3, ps3) = Inr (s', cns', ps')"
  using assms by (auto simp: compress_def rbind_eq_Inr)

lemma MOD3_keeps_VEXDEST_test:
  assumes "compress_MOD3 (s, cns, ps) = Inr (s', cns', ps')"
  shows "has_VEXDEST210_equals_7_restriction cns' ps' = has_VEXDEST210_equals_7_restriction cns ps"
proof (cases "is_binary_MOD3 ps")
  case False
  with assms show ?thesis by (simp add: compress_MOD3_def)
next
  case True
  let ?f = "\<lambda>p. constrain ''MOD3'' (if mod3_text (ptrn p) then one_value else zero_value) p"
  have "cns' = insert ''MOD3'' (cns - {''MOD''})" "ps' = map ?f ps"
    using assms True by (auto simp: compress_MOD3_def rbind_eq_Inr replace_MOD_with_MOD3_def)
  moreover have "map_of (constraints (?f p)) n = map_of (constraints p) n"
    "din n (constraints (?f p)) = din n (constraints p)" if "n \<noteq> ''MOD3''" for p n
    using that by (simp_all add: constrain_def din_def)
  ultimately show ?thesis
    by (simp add: has_VEXDEST210_equals_7_restriction_def list_ex_iff list_all_iff)
qed

lemma compress_selection:
  assumes c: "compress w (s, cns, ps) = Inr (s', cns', ps')"
    and fresh: "cns \<inter> special_names = {}" and clean: "bin_clean cns ps" and env: "compressed_env env"
  shows "step_ok env cns ps cns' ps' special_names"
proof -
  from c obtain s1 cns1 ps1 s2 cns2 ps2 s3 cns3 ps3 where
    c1: "compress_MOD3 (s, cns, ps) = Inr (s1, cns1, ps1)" and
    c2: "compress_VEXDEST w (s1, cns1, ps1) = Inr (s2, cns2, ps2)" and
    c3: "compress_RM4 (s2, cns2, ps2) = Inr (s3, cns3, ps3)" and
    c4: "compress_MASK_ZERO (s3, cns3, ps3) = Inr (s', cns', ps')" by (rule compress_steps)
  have new: "n \<notin> cns" if "n \<in> special_names" for n using fresh that by blast
  have sp: "''MOD3'' \<in> special_names" "''VEXDEST210_7'' \<in> special_names" "''VEXDEST_1F'' \<in> special_names"
    "''RM4'' \<in> special_names" "''MASK_ZERO'' \<in> special_names"
    by (simp_all add: special_names_def)
  have s1: "step_ok env cns ps cns1 ps1 {''MOD3''}"
    using compress_MOD3_ok [OF c1 _ _ env] clean new sp by (simp add: bin_clean_def)
  then have f1: "cns1 \<subseteq> insert ''MOD3'' cns" by (auto simp: step_ok_def)
  have cl1: "\<forall>p \<in> set ps1. vd210_clean p \<and> ({''VEXDEST3'', ''VEXDEST4''} \<subseteq> cns1 \<longrightarrow> vd34_clean p)"
    if "has_VEXDEST210_equals_7_restriction cns1 ps1 = Inr True"
  proof -
    have "has_VEXDEST210_equals_7_restriction cns ps = Inr True"
      using that MOD3_keeps_VEXDEST_test [OF c1] by simp
    then have "\<forall>p \<in> set ps. vd210_clean p" "{''VEXDEST3'', ''VEXDEST4''} \<subseteq> cns1 \<Longrightarrow> \<forall>p \<in> set ps. vd34_clean p"
      using clean f1 unfolding bin_clean_def by auto
    then show ?thesis
      using step_ok_all [OF s1, of vd210_clean, OF clean_same_but(1)]
        step_ok_all [OF s1, of vd34_clean, OF clean_same_but(2)] by simp
  qed
  have s2: "step_ok env cns1 ps1 cns2 ps2 {''VEXDEST210_7'', ''VEXDEST_1F''}"
  proof (rule compress_VEXDEST_ok [OF c2 _ _ cl1 env])
    show "''VEXDEST210_7'' \<notin> cns1" "''VEXDEST_1F'' \<notin> cns1" using f1 new [OF sp(2)] new [OF sp(3)] by auto
  qed
  then have f2: "cns2 \<subseteq> cns \<union> {''MOD3'', ''VEXDEST210_7'', ''VEXDEST_1F''}"
    using f1 by (auto simp: step_ok_def)
  have s3: "step_ok env cns2 ps2 cns3 ps3 {''RM4''}"
  proof (rule compress_RM4_ok [OF c3 _ env])
    show "''RM4'' \<notin> cns2" using f2 new [OF sp(4)] by auto
  qed
  then have f3: "cns3 \<subseteq> cns \<union> {''MOD3'', ''VEXDEST210_7'', ''VEXDEST_1F'', ''RM4''}"
    using f2 by (auto simp: step_ok_def)
  have s13: "step_ok env cns ps cns3 ps3 ({''MOD3''} \<union> ({''VEXDEST210_7'', ''VEXDEST_1F''} \<union> {''RM4''}))"
    by (rule step_ok_trans [OF s1 step_ok_trans [OF s2 s3]])
  have cl3: "\<forall>p \<in> set ps3. mask_values_ok p" if m: "has_MASK_ZERO_restriction cns3 ps3"
  proof -
    have "has_MASK_ZERO_restriction cns ps"
      using m f3 step_ok_all [OF s13, of mask_zero_ok] clean_same_but(4)
      by (auto simp: has_MASK_ZERO_restriction_def list_all_iff split: if_splits)
    then show ?thesis
      using clean step_ok_all [OF s13, of mask_values_ok] clean_same_but(3) unfolding bin_clean_def by blast
  qed
  have s4: "step_ok env cns3 ps3 cns' ps' {''MASK_ZERO''}"
  proof (rule compress_MASK_ok [OF c4 _ cl3 env])
    show "''MASK_ZERO'' \<notin> cns3" using f3 new [OF sp(5)] by auto
  qed
  have "{''MOD3''} \<union> ({''VEXDEST210_7'', ''VEXDEST_1F''} \<union> {''RM4''}) \<union> {''MASK_ZERO''} = special_names"
    by (auto simp: special_names_def)
  with step_ok_trans [OF s13 s4] show ?thesis by (simp only:)
qed

section \<open>What the united dictionary selects\<close>

















section \<open>Where the tests let a pattern through\<close>

text \<open>
  \<open>VEXDEST210!=7\<close> passes the test of \<open>_has_VEXDEST210_equals_7_restriction\<close>, since only single-valued
  constraints are looked at, and is then replaced by a constraint that admits 7.
\<close>

definition not7_pattern :: pattern where
  "not7_pattern =
     \<lparr>ptrn = ''0x10 VEXDEST210!=7'', p_iclass = Some ''A'',
      p_bits = [\<lparr>btype = BOperand, bvalue = ''VEXDEST210!=7'', pbit = 0, btoken = Some ''VEXDEST210'',
                 btest = Some OdNe, brequirement = Some 7\<rparr>],
      p_inum = 1, constraints = [(''VEXDEST210'', map (\<lambda>v. (v, True)) [0, 1, 2, 3, 4, 5, 6])],
      special_constraints = [(''VEXVALID'', [(1, True)])], vv = 1, encspace = ''vex'',
      insn_map = ''vex_map1'', opcode = ''0x10'', incomplete_opcode = False, missing_bits = 0,
      ext_opcode = None, mode = []\<rparr>"

lemma VEXDEST210_test_accepts:
  assumes "''VEXDEST210'' \<in> cns" "\<forall>p \<in> set ps. \<not> din ''VEXDEST210_7'' (constraints p)"
    and "\<forall>p \<in> set ps. \<forall>vs. map_of (constraints p) ''VEXDEST210'' = Some vs \<longrightarrow> length vs \<noteq> 1 \<or> din 7 vs"
  shows "has_VEXDEST210_equals_7_restriction cns ps = Inr True"
proof -
  have "\<not> list_ex (\<lambda>p. din ''VEXDEST210_7'' (constraints p)) ps" using assms(2) by (simp add: list_ex_iff)
  with assms(1,3) show ?thesis
    by (auto simp: has_VEXDEST210_equals_7_restriction_def list_all_iff split: option.splits)
qed

lemma VEXDEST210_replacement_frees:
  assumes "''VEXDEST210_7'' \<notin> cns" "\<not> has_test ''VEXDEST210'' OdEq (p_bits p)" "env ''VEXDEST210_7'' \<in> {0, 1}"
  shows "selects env (insert ''VEXDEST210_7'' (cns - {''VEXDEST210''})) (vd7 p) \<longleftrightarrow> selects env (cns - {''VEXDEST210''}) p"
proof -
  have "env ''VEXDEST210_7'' \<in> set (dkeys any_value)" using assms(3) by (simp del: set_map)
  then have "env ''VEXDEST210_7'' \<in> set (dkeys any_value) \<and> selects env (cns - {''VEXDEST210''}) p \<longleftrightarrow>
      selects env (cns - {''VEXDEST210''}) p" by simp
  moreover have "vd7 p = constrain ''VEXDEST210_7'' any_value p" using assms(2) by (simp add: vd7_def)
  moreover have "n \<noteq> ''VEXDEST210_7''" if "n \<in> cns" for n using assms(1) that by blast
  ultimately show ?thesis by (simp add: selects_def constrain_def)
qed

text \<open>
  A pattern that requires VEXDEST4 to be 1 (encoding bit 0) passes the all-ones test: the inversion
  never yields \<open>ZERO\<close>.
\<close>

lemma invert_bit4_never_ZERO: "invert_bit4 b \<noteq> Some ZERO"
  by (simp add: invert_bit4_eq split: option.splits cbit.splits)

lemma has_VEXDEST_1F_wrong_bit4:
  "has_VEXDEST_1F_loop [(''VEXDEST210_7'', 1), (''VEXDEST3'', 1), (''VEXDEST4'', 1)]
     [not7_pattern\<lparr>constraints := [(''VEXDEST210_7'', one_value), (''VEXDEST3'', one_value),
        (''VEXDEST4'', one_value)]\<rparr>] = Inr True"
  by (simp add: din_def get_constraint_bit_def dget_def same_dict_def Let_def invert_bit4_def)

text \<open>
  A pattern without constraints contributes nothing: \<open>__init__\<close> tests \<open>if self.state_space\<close>, which an
  empty dictionary fails.
\<close>

lemma unconstrained_pattern_dropped:
  assumes "expand_and_unite w all_space cns ps = Inr (Some u)" and "constraints p = []"
  shows "map_of (tuple2rule u) t \<noteq> Some p"
proof -
  from assms(1) obtain cds un where m: "mapM (\<lambda>p. constraint_dict_new cns (constraints p) all_space p) ps = Inr cds"
    and un: "unite_dicts cds cns = Inr (Some un)" and k: "create_tuple2int w un = Inr u"
    by (auto simp: expand_and_unite_def rbind_eq_Inr split: option.splits)
  have "values_in (- {p}) (tuple2rule cd)" if cd: "cd \<in> set cds" for cd
  proof -
    obtain i where i: "i < length cds" "cd = cds ! i" using cd by (metis in_set_conv_nth)
    then have "constraint_dict_new cns (constraints (ps ! i)) all_space (ps ! i) = Inr cd"
      using mapM_Inr_nth [OF m, of i] mapM_Inr_length [OF m] by simp
    from constraint_dict_new_values [OF this] assms(2) show ?thesis by (auto simp: values_in_def split: if_splits)
  qed
  then have "values_in (- {p}) (tuple2rule un)" using unite_dicts_values [OF un] by blast
  moreover have "tuple2rule u = tuple2rule un" using k by (auto simp: create_tuple2int_def rbind_eq_Inr)
  ultimately show ?thesis by (auto simp: values_in_def)
qed

text \<open>No replacement applies to a bin with a pattern that has no constraint, unless it adds one.\<close>

lemma compress_unconstrained:
  assumes "p \<in> set ps" "constraints p = []" "\<not> is_binary_MOD3 ps" "''VEXDEST210'' \<notin> cns" "''MASK'' \<notin> cns"
  shows "compress w (s, cns, ps) = Inr (s, cns, ps)"
proof -
  have "\<not> is_binary_RM_4 cns ps" using assms(1,2) by (auto simp: is_binary_RM_4_def list_all_iff intro!: bexI [of _ p])
  with assms show ?thesis
    by (simp add: compress_def compress_MOD3_def compress_VEXDEST_def compress_RM4_def compress_MASK_ZERO_def
        has_VEXDEST210_equals_7_restriction_def has_MASK_ZERO_restriction_def)
qed

section \<open>Selection of patterns\<close>

text \<open>Two patterns that \<open>MOD\<close> tells apart.\<close>

definition mem_pattern :: pattern where
  "mem_pattern =
     \<lparr>ptrn = ''0x01 MOD!=3'', p_iclass = Some ''A'', p_bits = [], p_inum = 1,
      constraints = [(''MOD'', [(0, True), (1, True), (2, True)])],
      special_constraints = [(''VEXVALID'', [(0, True)])], vv = 0, encspace = ''legacy'',
      insn_map = ''legacy_map0'', opcode = ''0x1'', incomplete_opcode = False, missing_bits = 0,
      ext_opcode = None, mode = []\<rparr>"

definition reg_pattern :: pattern where
  "reg_pattern = mem_pattern\<lparr>ptrn := ''0x01 MOD=3'', p_inum := 2, constraints := [(''MOD'', [(3, True)])]\<rparr>"

definition no_stats :: repl_stats where
  "no_stats = \<lparr>mod3_repl = 0, vd7_repl = 0, vd1f_repl = 0, rm4_repl = 0, masknot0_repl = 0, mask0_repl = 0\<rparr>"

definition binary_space :: space where
  "binary_space = [(''MOD'', [(0, True), (1, True), (2, True), (3, True)])]"

definition one_env :: "int \<Rightarrow> string \<Rightarrow> int" where
  "one_env m n = (if n = ''MOD'' then m else if n = ''MOD3'' then of_bool (m = 3)
     else if n = ''RM4'' then 0 else if n = ''MASK'' then 1 else if n = ''MASK_ZERO'' then 0 else 0)"

lemma one_env_compressed: "m \<in> {0..3} \<Longrightarrow> compressed_env (one_env m)"
  by (simp add: compressed_env_def one_env_def)

lemma compress_sample:
  "compress [(''MOD3'', 1)] (no_stats, {''MOD''}, [mem_pattern, reg_pattern]) =
     Inr (no_stats\<lparr>mod3_repl := 1\<rparr>, {''MOD3''},
       [mem_pattern\<lparr>constraints := constraints mem_pattern @ [(''MOD3'', zero_value)]\<rparr>,
        reg_pattern\<lparr>constraints := constraints reg_pattern @ [(''MOD3'', one_value)]\<rparr>])"
  by code_simp

lemma bin_clean_sample: "bin_clean {''MOD''} [mem_pattern, reg_pattern]"
proof -
  have "is_binary_MOD3 [mem_pattern, reg_pattern]" by code_simp
  moreover have "mod3_text (ptrn reg_pattern)" "\<not> mod3_text (ptrn mem_pattern)" by code_simp+
  ultimately show ?thesis
    by (auto simp: bin_clean_def mod_text_ok_def has_VEXDEST210_equals_7_restriction_def
        has_MASK_ZERO_restriction_def reg_pattern_def mem_pattern_def)
qed

text \<open>
  C4: compressing the operands of a clean bin changes nothing about which pattern is selected.  The bin
  must be clean in the sense of \<open>bin_clean\<close>: where the test of a replacement succeeds, the restrictions of
  its patterns are those the replacement stands for (\<open>vexdest_not7_misselected\<close> shows that the test alone
  does not ensure it); and no pattern may name a compressed operand itself.  Then for every assignment of
  operand values in range in which the compressed operands have the values of their getters, a pattern
  accepts it before exactly when its counterpart does after, in the same order.
\<close>

theorem compression_preserves_selection:
  assumes "compress w (s, cns, ps) = Inr (s', cns', ps')"
    and "cns \<inter> special_names = {}" and "bin_clean cns ps" and "compressed_env env"
  shows "list_all2 (\<lambda>p q. (selects env cns p \<longleftrightarrow> selects env cns' q) \<and> p_inum p = p_inum q) ps ps'"
  using compress_selection [OF assms] by (simp add: step_ok_def same_selection_def)

theorem compression_preserves_selection_witness:
  "selects (one_env 3) {''MOD3''} (reg_pattern\<lparr>constraints := constraints reg_pattern @ [(''MOD3'', one_value)]\<rparr>)"
proof -
  have "selects (one_env 3) {''MOD''} reg_pattern"
    by (simp add: selects_def one_env_def reg_pattern_def mem_pattern_def)
  with compression_preserves_selection [OF compress_sample _ bin_clean_sample one_env_compressed [of 3]]
  show ?thesis by (simp add: special_names_def)
qed











text \<open>
  C37: a restriction of VEXDEST210 to several values is lost.  Take any bin in which every restriction of
  VEXDEST210 has several values or is \<open>=7\<close>.  Although its comment says that all of them must be \<open>=7\<close>, the
  test accepts the bin; and after the replacement a pattern that restricts VEXDEST210 by other than
  equality is selected whatever the value of VEXDEST210 is, also by the values its restriction excludes.
\<close>

theorem vexdest_not7_misselected:
  assumes "''VEXDEST210'' \<in> cns" "''VEXDEST210_7'' \<notin> cns"
    and "\<forall>p \<in> set ps. \<not> din ''VEXDEST210_7'' (constraints p)"
    and "\<forall>p \<in> set ps. \<forall>vs. map_of (constraints p) ''VEXDEST210'' = Some vs \<longrightarrow> length vs \<noteq> 1 \<or> din 7 vs"
    and "i < length ps" "\<not> has_test ''VEXDEST210'' OdEq (p_bits (ps ! i))"
    and "map_of (constraints (ps ! i)) ''VEXDEST210'' = Some vs" "env ''VEXDEST210'' \<notin> set (dkeys vs)"
    and "compressed_env env" "selects env (cns - {''VEXDEST210''}) (ps ! i)"
  shows "has_VEXDEST210_equals_7_restriction cns ps = Inr True \<and> \<not> selects env cns (ps ! i) \<and>
    (\<exists>cns' ps'. replace_VEXDEST210_with_VD2107 cns ps = Inr (cns', ps') \<and> selects env cns' (ps' ! i))"
proof -
  have "env ''VEXDEST210_7'' \<in> {0, 1}" using assms(9) by (simp add: compressed_env_def)
  with assms(2,6,10) have "selects env (insert ''VEXDEST210_7'' (cns - {''VEXDEST210''})) (map vd7 ps ! i)"
    using assms(5) by (simp add: VEXDEST210_replacement_frees)
  moreover have "replace_VEXDEST210_with_VD2107 cns ps = Inr (insert ''VEXDEST210_7'' (cns - {''VEXDEST210''}), map vd7 ps)"
    using assms(1) by (simp add: replace_VEXDEST210_with_VD2107_def cn_remove_def vd7_def)
  moreover have "\<not> selects env cns (ps ! i)" using assms(1,7,8) by (auto simp: selects_def)
  ultimately show ?thesis using VEXDEST210_test_accepts [OF assms(1,3,4)] by blast
qed

theorem vexdest_not7_misselected_witness:
  "\<exists>cns' ps'. replace_VEXDEST210_with_VD2107 {''VEXDEST210''} [not7_pattern] = Inr (cns', ps') \<and>
     selects (\<lambda>n. if n = ''VEXDEST210'' then 7 else if n = ''VEXDEST210_7'' then 1 else if n = ''MASK'' then 1 else 0)
       cns' (ps' ! 0)"
  using vexdest_not7_misselected [of "{''VEXDEST210''}" "[not7_pattern]" 0 "map (\<lambda>v. (v, True)) [0, 1, 2, 3, 4, 5, 6]"
      "\<lambda>n. if n = ''VEXDEST210'' then 7 else if n = ''VEXDEST210_7'' then 1 else if n = ''MASK'' then 1 else 0"]
  by (simp add: not7_pattern_def din_def has_test_def compressed_env_def selects_def)

text \<open>
  The two tests that should invert bit 4 undo each other: the result is never zero, so the
  test for \<open>VEXDEST=1F\<close> accepts a bin whose bit 4 is one where the value needs a zero.
\<close>

lemma vexdest_bit4_not_inverted:
  "invert_bit4 b \<noteq> Some ZERO \<and>
   has_VEXDEST_1F_loop [(''VEXDEST210_7'', 1), (''VEXDEST3'', 1), (''VEXDEST4'', 1)]
     [not7_pattern\<lparr>constraints := [(''VEXDEST210_7'', one_value), (''VEXDEST3'', one_value),
        (''VEXDEST4'', one_value)]\<rparr>] = Inr True"
  using invert_bit4_never_ZERO has_VEXDEST_1F_wrong_bit4 by simp

text \<open>
  C38: a pattern without constraints is lost.  In a bin whose patterns are united without a replacement,
  such a pattern accepts every assignment of values, but no tuple of the united dictionary leads to it:
  \<open>constraint_dict_t\<close> expands a pattern only when its constraints are not empty.
\<close>

theorem unconstrained_pattern_lost:
  assumes "get_united_cdict ptrn_list all_space vexvalid w s = Inr (s', Some u)"
    and "ptrns = filter (\<lambda>p. vexvalid = vv p) ptrn_list" and "p \<in> set ptrns" "constraints p = []"
    and "\<not> is_binary_MOD3 ptrns" "''VEXDEST210'' \<notin> constraint_names ptrns" "''MASK'' \<notin> constraint_names ptrns"
  shows "selects env (constraint_names ptrns) p \<and> (\<forall>t. map_of (tuple2rule u) t \<noteq> Some p)"
proof -
  have "expand_and_unite w all_space (constraint_names ptrns) ptrns = Inr (Some u)"
    using assms(1) compress_unconstrained [OF assms(3-7), of w s]
    by (auto simp: get_united_cdict_def Let_def rbind_eq_Inr assms(2) [symmetric] split: if_splits)
  from unconstrained_pattern_dropped [OF this assms(4)] show ?thesis using assms(4) by (simp add: selects_def)
qed

definition free_pattern :: pattern where
  "free_pattern = mem_pattern\<lparr>ptrn := ''0x01'', p_inum := 3, constraints := []\<rparr>"

lemma lost_sample:
  "get_united_cdict [mem_pattern, free_pattern] binary_space 0 [(''MOD'', 2)] no_stats =
     Inr (no_stats, Some \<lparr>cnames = [''MOD''], state_space = [], all_state_space = [], rule = None,
      tuple2rule = [([0], mem_pattern), ([1], mem_pattern), ([2], mem_pattern)],
      t2int = [([0], 0), ([1], 1), ([2], 2)], int2tuple = [(0, [0]), (1, [1]), (2, [2])], op_widths = [(''MOD'', 2)]\<rparr>)"
  by code_simp

theorem unconstrained_pattern_lost_witness:
  "free_pattern \<notin> set (dvals [([0], mem_pattern), ([1], mem_pattern), ([2 :: int], mem_pattern)])"
proof -
  have "\<not> is_binary_MOD3 [mem_pattern, free_pattern]" by code_simp
  moreover have "[mem_pattern, free_pattern] = filter (\<lambda>p. 0 = vv p) [mem_pattern, free_pattern]"
    by (simp add: mem_pattern_def free_pattern_def)
  ultimately have "map_of [([0], mem_pattern), ([1], mem_pattern), ([2 :: int], mem_pattern)] t \<noteq> Some free_pattern" for t
    using unconstrained_pattern_lost [OF lost_sample, of "[mem_pattern, free_pattern]" free_pattern]
    by (simp add: free_pattern_def mem_pattern_def constraint_names_def)
  from this [of "[0]"] show ?thesis by simp
qed

end
