(* ===== verification/Chip_Model.thy ===== *)
theory Chip_Model
  imports Pattern_Bits "HOL-Library.List_Lexorder" "HOL-Library.Char_ord"
begin

text \<open>
  The chip model (\<open>pysrc/chipmodel.py\<close>): which isa sets every chip has.  A chip's line lists isa
  sets and the operators \<open>ALL_OF(chip)\<close>, \<open>COMMON_SUBSET(chip,chip)\<close> and \<open>NOT(isa set)\<close>; the
  expansion replaces the operators in place, chip by chip, and the result becomes one bit vector
  per chip.  The lemmas relate the expansion to an inductive definition of what the lines mean,
  and the bits to the expansion.
\<close>

section \<open>Reading the lines\<close>

text \<open>\<open>re.sub('#.*', '', line)\<close>; a dot does not match a newline.\<close>

function sub_comment :: "string \<Rightarrow> string" where
  "sub_comment [] = []"
| "sub_comment (c # s) =
     (if c = CHR ''#'' then sub_comment (dropWhile (\<lambda>c. c \<noteq> CHR 0x0A) s) else c # sub_comment s)"
  by pat_completeness auto
termination
  by (relation "measure length") (auto intro: le_less_trans [OF length_dropWhile_le])

definition filter_comments :: "string list \<Rightarrow> string list" where
  "filter_comments lines = filter (\<lambda>t. t \<noteq> []) (map (\<lambda>line. strip (sub_comment line)) lines)"

type_synonym chips = "(string, string list) dict"

definition uniquify_list :: "string list \<Rightarrow> string list" where
  "uniquify_list l = dkeys (fold (\<lambda>a d. dset a True d) l [])"

definition split_colon :: "string \<Rightarrow> (string \<times> string) option" where
  "split_colon line =
     (case dropWhile (\<lambda>c. c \<noteq> CHR '':'') line of
        [] \<Rightarrow> None
      | _ # r \<Rightarrow> if CHR '':'' \<in> set r then None
                 else Some (takeWhile (\<lambda>c. c \<noteq> CHR '':'') line, r))"

definition parse_line :: "string \<Rightarrow> string list \<times> chips \<Rightarrow> (string list \<times> chips) res" where
  "parse_line line st =
     (case st of (chips, d) \<Rightarrow>
        if CHR '':'' \<notin> set line then Inl (Die ''missing colon in line'')
        else case split_colon line of
               None \<Rightarrow> Inl (Die ''Bad line'')
             | Some (chip, extensions) \<Rightarrow>
                 let chip = strip chip; chips = chips @ [chip]; extensions = split_words extensions
                 in if din chip d then Inl (Die ''Duplicate definition'')
                    else if chip = ''ALL'' then Inl (Die ''Cannot define a chip named ALL'')
                    else Inr (chips, dset chip extensions d))"

definition parse_lines :: "string list \<Rightarrow> (string list \<times> chips) res" where
  "parse_lines lines = foldM parse_line lines ([], [])"

section \<open>The operators\<close>

text \<open>A name, closed by the given character; the rest follows it.\<close>

definition match_name :: "char \<Rightarrow> string \<Rightarrow> (string \<times> string) option" where
  "match_name close s =
     (let name = takeWhile is_word_char s
      in case dropWhile is_word_char s of
           [] \<Rightarrow> None
         | c # r \<Rightarrow> if c = close \<and> name \<noteq> [] then Some (name, r) else None)"

definition match_all_of :: "string \<Rightarrow> string option" where
  "match_all_of ext =
     (if starts_with ''ALL_OF('' ext then map_option fst (match_name CHR '')'' (drop 7 ext)) else None)"

definition match_not :: "string \<Rightarrow> string option" where
  "match_not ext =
     (if starts_with ''NOT('' ext then map_option fst (match_name CHR '')'' (drop 4 ext)) else None)"

definition match_common_subset :: "string \<Rightarrow> (string \<times> string) option" where
  "match_common_subset ext =
     (if starts_with ''COMMON_SUBSET('' ext
      then (case match_name CHR '','' (drop 14 ext) of
              None \<Rightarrow> None
            | Some (chip1, r) \<Rightarrow> map_option (\<lambda>m. (chip1, fst m)) (match_name CHR '')'' r))
      else None)"

definition conventional :: "string \<Rightarrow> bool" where
  "conventional ext \<longleftrightarrow>
     \<not> (match_all_of ext \<noteq> None \<or> match_common_subset ext \<noteq> None \<or> match_not ext \<noteq> None)"

section \<open>Expansion\<close>

text \<open>
  One step of the first and of the second loop of \<open>expand_chip\<close>, over the recursive call.  The order
  of \<open>list(set)\<close> is Python's own: \<open>set_order\<close> is a parameter.
\<close>

definition all_of_step ::
  "(string \<Rightarrow> chips \<Rightarrow> chips res) \<Rightarrow> string \<Rightarrow> chips \<times> string list \<Rightarrow> (chips \<times> string list) res" where
  "all_of_step expand ext st =
     (case st of (d, new_ext) \<Rightarrow>
        case match_all_of ext of
          None \<Rightarrow> Inr (d, new_ext)
        | Some sub_chip \<Rightarrow>
            rbind (expand sub_chip d) (\<lambda>d.
              rbind (dget d sub_chip) (\<lambda>exts. Inr (d, new_ext @ exts))))"

definition common_subset_step ::
  "(string set \<Rightarrow> string list) \<Rightarrow> (string \<Rightarrow> chips \<Rightarrow> chips res) \<Rightarrow> string
     \<Rightarrow> chips \<times> string list \<Rightarrow> (chips \<times> string list) res" where
  "common_subset_step set_order expand ext st =
     (case st of (d, new_ext) \<Rightarrow>
        case match_common_subset ext of
          None \<Rightarrow> Inr (d, new_ext)
        | Some (sub_chip1, sub_chip2) \<Rightarrow>
            rbind (expand sub_chip1 d) (\<lambda>d.
            rbind (expand sub_chip2 d) (\<lambda>d.
            rbind (dget d sub_chip1) (\<lambda>exts1.
            rbind (dget d sub_chip2) (\<lambda>exts2.
              Inr (d, new_ext @ set_order (set exts1 \<inter> set exts2)))))))"

definition not_step :: "string \<Rightarrow> string list \<Rightarrow> string list" where
  "not_step ext new_ext =
     (case match_not ext of None \<Rightarrow> new_ext | Some e \<Rightarrow> filter (\<lambda>x. x \<noteq> e) new_ext)"

text \<open>The first argument bounds the depth of the recursion, as Python's limit does.\<close>

primrec expand_chip ::
  "nat \<Rightarrow> (string set \<Rightarrow> string list) \<Rightarrow> string \<Rightarrow> chips \<Rightarrow> chips res" where
  "expand_chip 0 = (\<lambda>set_order chip d. Inl RecursionError)"
| "expand_chip (Suc limit) = (\<lambda>set_order chip d.
     rbind (dget d chip) (\<lambda>exts.
     rbind (foldM (all_of_step (expand_chip limit set_order)) exts (d, [])) (\<lambda>(d, new_ext).
     rbind (dget d chip) (\<lambda>exts.
     rbind (foldM (common_subset_step set_order (expand_chip limit set_order)) exts (d, new_ext))
       (\<lambda>(d, new_ext).
     rbind (dget d chip) (\<lambda>exts.
       let new_ext = fold not_step exts new_ext;
           new_ext = new_ext @ filter conventional exts
       in Inr (dset chip (uniquify_list new_ext) d)))))))"

definition recursive_expand :: "nat \<Rightarrow> (string set \<Rightarrow> string list) \<Rightarrow> chips \<Rightarrow> chips res" where
  "recursive_expand limit set_order d = foldM (expand_chip limit set_order) (dkeys d) d"

section \<open>What a chip model means\<close>

text \<open>
  The isa sets of a chip: the ones its line names, and those of the chips it refers to unless the
  line takes them out.
\<close>

inductive supports :: "chips \<Rightarrow> string \<Rightarrow> string \<Rightarrow> bool" for d where
  own: "map_of d chip = Some exts \<Longrightarrow> e \<in> set exts \<Longrightarrow> conventional e \<Longrightarrow> supports d chip e"
| all_of: "map_of d chip = Some exts \<Longrightarrow> x \<in> set exts \<Longrightarrow> match_all_of x = Some sub \<Longrightarrow>
     supports d sub e \<Longrightarrow> Some e \<notin> match_not ` set exts \<Longrightarrow> supports d chip e"
| common: "map_of d chip = Some exts \<Longrightarrow> x \<in> set exts \<Longrightarrow> match_common_subset x = Some (sub1, sub2) \<Longrightarrow>
     supports d sub1 e \<Longrightarrow> supports d sub2 e \<Longrightarrow> Some e \<notin> match_not ` set exts \<Longrightarrow> supports d chip e"

inductive_cases supportsE: "supports d chip e"

definition refs :: "string list \<Rightarrow> string set" where
  "refs exts = {sub. \<exists>x \<in> set exts. match_all_of x = Some sub \<or>
     (\<exists>other. match_common_subset x = Some (sub, other) \<or> match_common_subset x = Some (other, sub))}"

text \<open>Every chip a line refers to is defined, and the references have no cycle.\<close>

definition hierarchy :: "(string \<Rightarrow> nat) \<Rightarrow> chips \<Rightarrow> bool" where
  "hierarchy rank d \<longleftrightarrow> dict_ok d \<and>
     (\<forall>chip exts. map_of d chip = Some exts \<longrightarrow>
        (\<forall>sub \<in> refs exts. din sub d \<and> rank sub < rank chip))"

lemma set_uniquify_list [simp]: "set (uniquify_list l) = set l"
proof -
  have "fst ` set (fold (\<lambda>a d. dset a True d) l d) = fst ` set d \<union> set l" for d
  proof (induction l arbitrary: d)
    case (Cons a l)
    have "fst ` set (dset a True d) = set (dkeys (dset a True d))" by simp
    also have "\<dots> = insert a (fst ` set d)" unfolding dkeys_dset by auto
    finally show ?case by (simp add: Cons.IH)
  qed simp
  then show ?thesis by (simp add: uniquify_list_def)
qed

lemma distinct_uniquify_list [simp]: "distinct (uniquify_list l)"
proof -
  have "dict_ok d \<Longrightarrow> dict_ok (fold (\<lambda>a d. dset a True d) l d)" for d
    by (induction l arbitrary: d) simp_all
  from this [of "[]"] show ?thesis by (simp add: uniquify_list_def dict_ok_def)
qed

lemma set_not_steps:
  "set (fold not_step exts ne) = {e \<in> set ne. Some e \<notin> match_not ` set exts}"
  by (induction exts arbitrary: ne) (auto simp: not_step_def image_iff split: option.splits)

lemma supports_conventional: "supports d chip e \<Longrightarrow> conventional e"
  by (induction rule: supports.induct)

section \<open>The expansion computes the meaning\<close>

text \<open>\<open>d\<close> is a stage in the expansion of \<open>d0\<close>: every entry is the line or already expanded.\<close>

definition expanded :: "chips \<Rightarrow> chips \<Rightarrow> string \<Rightarrow> bool" where
  "expanded d0 d chip \<longleftrightarrow>
     (\<exists>es. map_of d chip = Some es \<and> distinct es \<and> set es = {e. supports d0 chip e})"

definition stage :: "chips \<Rightarrow> chips \<Rightarrow> bool" where
  "stage d0 d \<longleftrightarrow> dkeys d = dkeys d0 \<and>
     (\<forall>chip exts. map_of d0 chip = Some exts \<longrightarrow> map_of d chip = Some exts \<or> expanded d0 d chip)"

definition later :: "(string \<Rightarrow> nat) \<Rightarrow> nat \<Rightarrow> chips \<Rightarrow> chips \<Rightarrow> chips \<Rightarrow> bool" where
  "later rank k d0 d d' \<longleftrightarrow> stage d0 d' \<and> (\<forall>c. expanded d0 d c \<longrightarrow> expanded d0 d' c) \<and>
     (\<forall>c. k \<le> rank c \<longrightarrow> map_of d' c = map_of d c)"

lemma later_refl: "stage d0 d \<Longrightarrow> later rank k d0 d d"
  by (simp add: later_def)

lemma later_trans: "later rank k d0 d d' \<Longrightarrow> later rank k d0 d' d'' \<Longrightarrow> later rank k d0 d d''"
  by (simp add: later_def)

lemma later_mono: "later rank k d0 d d' \<Longrightarrow> k \<le> k' \<Longrightarrow> later rank k' d0 d d'"
  by (auto simp: later_def)

lemma stage_refl: "stage d d"
  by (simp add: stage_def)

lemma stage_din: "stage d0 d \<Longrightarrow> din c d \<longleftrightarrow> din c d0"
  by (simp add: stage_def din_dkeys del: set_map)

text \<open>A recursive call expands any chip below the rank \<open>k\<close>.\<close>

definition expands_below :: "(string \<Rightarrow> nat) \<Rightarrow> nat \<Rightarrow> chips \<Rightarrow> (string \<Rightarrow> chips \<Rightarrow> chips res) \<Rightarrow> bool" where
  "expands_below rank k d0 expand \<longleftrightarrow>
     (\<forall>sub d. stage d0 d \<longrightarrow> din sub d0 \<longrightarrow> rank sub < k \<longrightarrow>
        (\<exists>d'. expand sub d = Inr d' \<and> later rank k d0 d d' \<and> expanded d0 d' sub))"

lemma step_loop:
  assumes "\<And>x d ne. x \<in> set xs \<Longrightarrow> stage d0 d \<Longrightarrow>
      \<exists>d' ne'. step x (d, ne) = Inr (d', ne') \<and> later rank k d0 d d' \<and> set ne' = set ne \<union> A x"
    and "stage d0 d"
  shows "\<exists>d' ne'. foldM step xs (d, ne) = Inr (d', ne') \<and> later rank k d0 d d' \<and>
      set ne' = set ne \<union> \<Union> (A ` set xs)"
  using assms
proof (induction xs arbitrary: d ne)
  case Nil
  then show ?case by (simp add: later_refl)
next
  case (Cons x xs)
  from Cons.prems(1) [of x d ne] Cons.prems(2) obtain d1 ne1 where
    1: "step x (d, ne) = Inr (d1, ne1)" "later rank k d0 d d1" "set ne1 = set ne \<union> A x" by auto
  have "stage d0 d1" using 1(2) by (simp add: later_def)
  from Cons.IH [OF _ this, of ne1] Cons.prems(1) obtain d2 ne2 where
    2: "foldM step xs (d1, ne1) = Inr (d2, ne2)" "later rank k d0 d1 d2"
      "set ne2 = set ne1 \<union> \<Union> (A ` set xs)" by auto
  show ?case using 1 2 later_trans [OF 1(2) 2(2)] by auto
qed

text \<open>What the three operators and the plain names of a line give together.\<close>

definition all_of_gives :: "chips \<Rightarrow> string \<Rightarrow> string set" where
  "all_of_gives d x = {e. \<exists>sub. match_all_of x = Some sub \<and> supports d sub e}"

definition common_gives :: "chips \<Rightarrow> string \<Rightarrow> string set" where
  "common_gives d x =
     {e. \<exists>s1 s2. match_common_subset x = Some (s1, s2) \<and> supports d s1 e \<and> supports d s2 e}"

lemma all_of_step_ok:
  assumes ex: "expands_below rank k d0 expand" and st: "stage d0 d"
    and sub: "\<And>sub. match_all_of x = Some sub \<Longrightarrow> din sub d0 \<and> rank sub < k"
  shows "\<exists>d' ne'. all_of_step expand x (d, ne) = Inr (d', ne') \<and> later rank k d0 d d' \<and>
      set ne' = set ne \<union> all_of_gives d0 x"
proof (cases "match_all_of x")
  case None
  then show ?thesis using st by (simp add: all_of_step_def all_of_gives_def later_refl)
next
  case (Some sub)
  from sub [OF Some] ex st obtain d' where
    d': "expand sub d = Inr d'" "later rank k d0 d d'" "expanded d0 d' sub"
    by (auto simp: expands_below_def)
  from d'(3) obtain es where "map_of d' sub = Some es" "set es = {e. supports d0 sub e}"
    by (auto simp: expanded_def)
  then show ?thesis using Some d' by (auto simp: all_of_step_def all_of_gives_def dget_def)
qed

lemma common_subset_step_ok:
  assumes ex: "expands_below rank k d0 expand" and st: "stage d0 d"
    and ord: "\<And>A. finite A \<Longrightarrow> set (set_order A) = A"
    and sub: "\<And>s1 s2. match_common_subset x = Some (s1, s2) \<Longrightarrow>
        din s1 d0 \<and> rank s1 < k \<and> din s2 d0 \<and> rank s2 < k"
  shows "\<exists>d' ne'. common_subset_step set_order expand x (d, ne) = Inr (d', ne') \<and> later rank k d0 d d' \<and>
      set ne' = set ne \<union> common_gives d0 x"
proof (cases "match_common_subset x")
  case None
  then show ?thesis using st by (simp add: common_subset_step_def common_gives_def later_refl)
next
  case (Some s)
  obtain s1 s2 where s: "s = (s1, s2)" by (cases s)
  note sub = sub [OF Some [unfolded s]]
  from sub ex st obtain d1 where
    1: "expand s1 d = Inr d1" "later rank k d0 d d1" "expanded d0 d1 s1" by (auto simp: expands_below_def)
  then have "stage d0 d1" by (simp add: later_def)
  with sub ex obtain d2 where
    2: "expand s2 d1 = Inr d2" "later rank k d0 d1 d2" "expanded d0 d2 s2" by (auto simp: expands_below_def)
  have "expanded d0 d2 s1" using 1(3) 2(2) by (simp add: later_def)
  then obtain es1 where e1: "map_of d2 s1 = Some es1" "set es1 = {e. supports d0 s1 e}"
    by (auto simp: expanded_def)
  from 2(3) obtain es2 where e2: "map_of d2 s2 = Some es2" "set es2 = {e. supports d0 s2 e}"
    by (auto simp: expanded_def)
  have so: "set (set_order (set es1 \<inter> set es2)) = set es1 \<inter> set es2" by (rule ord) simp
  have run: "common_subset_step set_order expand x (d, ne) = Inr (d2, ne @ set_order (set es1 \<inter> set es2))"
    using Some s 1(1) 2(1) e1(1) e2(1) by (simp add: common_subset_step_def dget_def)
  show ?thesis
    using run so e1(2) e2(2) Some s later_trans [OF 1(2) 2(2)] by (auto simp: common_gives_def)
qed

definition line_meaning :: "chips \<Rightarrow> string list \<Rightarrow> string set" where
  "line_meaning d exts =
     ((\<Union>x \<in> set exts. all_of_gives d x) \<union> (\<Union>x \<in> set exts. common_gives d x))
       \<inter> {e. Some e \<notin> match_not ` set exts} \<union> {e \<in> set exts. conventional e}"

lemma line_meaning_line:
  assumes "map_of d chip = Some exts"
  shows "line_meaning d exts = {e. supports d chip e}"
proof (intro set_eqI)
  fix e
  show "e \<in> line_meaning d exts \<longleftrightarrow> e \<in> {e. supports d chip e}"
  proof
    assume "e \<in> line_meaning d exts"
    then consider (a) x sub where "x \<in> set exts" "match_all_of x = Some sub" "supports d sub e"
        "Some e \<notin> match_not ` set exts"
      | (c) x s1 s2 where "x \<in> set exts" "match_common_subset x = Some (s1, s2)" "supports d s1 e"
        "supports d s2 e" "Some e \<notin> match_not ` set exts"
      | (o) "e \<in> set exts" "conventional e"
      unfolding line_meaning_def all_of_gives_def common_gives_def by blast
    then show "e \<in> {e. supports d chip e}"
      using assms by cases (simp_all add: supports.own supports.all_of supports.common)
  next
    assume "e \<in> {e. supports d chip e}"
    then have "supports d chip e" by simp
    then show "e \<in> line_meaning d exts"
    proof cases
      case (own exts')
      then show ?thesis using assms by (simp add: line_meaning_def)
    next
      case (all_of exts' x sub)
      then show ?thesis using assms by (auto simp: line_meaning_def all_of_gives_def)
    next
      case (common exts' x sub1 sub2)
      then show ?thesis using assms by (auto simp: line_meaning_def common_gives_def)
    qed
  qed
qed

lemma line_meaning_conventional:
  assumes "\<forall>e \<in> set exts. conventional e"
  shows "line_meaning d exts = set exts"
  using assms by (auto simp: line_meaning_def conventional_def all_of_gives_def common_gives_def)

lemma expand_body_ok:
  assumes ex: "expands_below rank k d0 (expand_chip limit set_order)" and st: "stage d0 d"
    and ord: "\<And>A. finite A \<Longrightarrow> set (set_order A) = A"
    and es: "map_of d chip = Some es" and chip: "rank chip = k"
    and sub: "\<forall>sub \<in> refs es. din sub d0 \<and> rank sub < k"
    and meaning: "line_meaning d0 es = {e. supports d0 chip e}"
  shows "\<exists>d'. expand_chip (Suc limit) set_order chip d = Inr d' \<and> later rank (Suc k) d0 d d' \<and>
    expanded d0 d' chip"
proof -
  let ?E = "expand_chip limit set_order"
  have "\<exists>d' ne'. foldM (all_of_step ?E) es (d, []) = Inr (d', ne') \<and> later rank k d0 d d' \<and>
      set ne' = set [] \<union> (\<Union>x \<in> set es. all_of_gives d0 x)"
    by (rule step_loop [OF all_of_step_ok [OF ex]]) (use sub st in \<open>auto simp: refs_def\<close>)
  then obtain d1 ne1 where 1: "foldM (all_of_step ?E) es (d, []) = Inr (d1, ne1)" "later rank k d0 d d1"
    "set ne1 = (\<Union>x \<in> set es. all_of_gives d0 x)" by auto
  have "\<exists>d' ne'. foldM (common_subset_step set_order ?E) es (d1, ne1) = Inr (d', ne') \<and>
      later rank k d0 d1 d' \<and> set ne' = set ne1 \<union> (\<Union>x \<in> set es. common_gives d0 x)"
    by (rule step_loop [OF common_subset_step_ok [OF ex]]) (use sub 1(2) ord in \<open>auto simp: refs_def later_def\<close>)
  then obtain d2 ne2 where 2: "foldM (common_subset_step set_order ?E) es (d1, ne1) = Inr (d2, ne2)"
    "later rank k d0 d1 d2" "set ne2 = set ne1 \<union> (\<Union>x \<in> set es. common_gives d0 x)" by blast
  let ?new = "uniquify_list (fold not_step es ne2 @ filter conventional es)"
  let ?d' = "dset chip ?new d2"
  have l2: "later rank k d0 d d2" by (rule later_trans [OF 1(2) 2(2)])
  have e1: "map_of d1 chip = Some es" "map_of d2 chip = Some es"
    using 1(2) l2 chip es by (simp_all add: later_def)
  have run: "expand_chip (Suc limit) set_order chip d = Inr ?d'"
    using es e1 1(1) 2(1) by (simp add: dget_def Let_def)
  have "set ?new = line_meaning d0 es"
    unfolding line_meaning_def by (auto simp: set_not_steps 2(3) 1(3))
  then have fin: "expanded d0 ?d' chip" by (simp add: expanded_def meaning)
  have "dkeys ?d' = dkeys d2" using e1(2) by (auto simp: dkeys_dset dest: map_of_SomeD intro: rev_image_eqI)
  then have st': "stage d0 ?d'" using l2 fin by (auto simp: stage_def later_def expanded_def)
  have "expanded d0 ?d' c" if "expanded d0 d c" for c
    using that l2 fin by (cases "c = chip") (auto simp: later_def expanded_def)
  then have "later rank (Suc k) d0 d ?d'" using st' l2 chip by (auto simp: later_def)
  with run fin show ?thesis by blast
qed

lemma expand_chip_ok:
  assumes h: "hierarchy rank d0" and ord: "\<And>A. finite A \<Longrightarrow> set (set_order A) = A"
  shows "stage d0 d \<Longrightarrow> din chip d0 \<Longrightarrow> rank chip < limit \<Longrightarrow>
    \<exists>d'. expand_chip limit set_order chip d = Inr d' \<and> later rank (Suc (rank chip)) d0 d d' \<and>
      expanded d0 d' chip"
proof (induction limit arbitrary: chip d)
  case 0
  then show ?case by simp
next
  case (Suc limit)
  have ex: "expands_below rank (rank chip) d0 (expand_chip limit set_order)"
    unfolding expands_below_def
  proof (intro allI impI)
    fix sub d assume "stage d0 d" "din sub d0" "rank sub < rank chip"
    with Suc.IH [of d sub] Suc.prems(3) later_mono [of rank "Suc (rank sub)" d0 _ _ "rank chip"]
    show "\<exists>d'. expand_chip limit set_order sub d = Inr d' \<and> later rank (rank chip) d0 d d' \<and>
        expanded d0 d' sub" by (metis Suc_leI less_Suc_eq_le less_le_trans)
  qed
  from Suc.prems(2) obtain exts where exts: "map_of d0 chip = Some exts" by (auto simp: din_def)
  have "map_of d chip = Some exts \<or> expanded d0 d chip" using Suc.prems(1) exts by (simp add: stage_def)
  then obtain es where es: "map_of d chip = Some es" "\<forall>sub \<in> refs es. din sub d0 \<and> rank sub < rank chip"
      "line_meaning d0 es = {e. supports d0 chip e}"
  proof
    assume "map_of d chip = Some exts"
    then show ?thesis using that exts h line_meaning_line by (auto simp: hierarchy_def)
  next
    assume "expanded d0 d chip"
    then obtain es where es: "map_of d chip = Some es" "set es = {e. supports d0 chip e}"
      by (auto simp: expanded_def)
    then have c: "\<forall>e \<in> set es. conventional e" by (simp add: supports_conventional)
    then have "refs es = {}" by (auto simp: refs_def conventional_def)
    with es line_meaning_conventional [OF c] that show ?thesis by simp
  qed
  show ?case by (rule expand_body_ok [OF ex Suc.prems(1) ord es(1) refl es(2,3)])
qed

lemma recursive_expand_ok:
  assumes h: "hierarchy rank d" and ord: "\<And>A. finite A \<Longrightarrow> set (set_order A) = A"
    and limit: "\<forall>chip \<in> set (dkeys d). rank chip < limit"
  shows "\<exists>d'. recursive_expand limit set_order d = Inr d' \<and> dkeys d' = dkeys d \<and>
    (\<forall>chip \<in> set (dkeys d). expanded d d' chip)"
proof -
  have "\<exists>d'. foldM (expand_chip limit set_order) cs d1 = Inr d' \<and> stage d d' \<and>
      (\<forall>c. expanded d d1 c \<or> c \<in> set cs \<longrightarrow> expanded d d' c)"
    if "stage d d1" "set cs \<subseteq> set (dkeys d)" for cs d1
    using that
  proof (induction cs arbitrary: d1)
    case Nil
    then show ?case by simp
  next
    case (Cons c cs)
    then have "din c d" "rank c < limit" using limit by (auto simp: din_dkeys)
    from expand_chip_ok [OF h ord Cons.prems(1) this] obtain d2 where
      2: "expand_chip limit set_order c d1 = Inr d2" "later rank (Suc (rank c)) d d1 d2" "expanded d d2 c"
      by blast
    have "stage d d2" using 2(2) by (simp add: later_def)
    from Cons.IH [OF this] Cons.prems(2) obtain d3 where
      "foldM (expand_chip limit set_order) cs d2 = Inr d3" "stage d d3"
      "\<forall>x. expanded d d2 x \<or> x \<in> set cs \<longrightarrow> expanded d d3 x" by auto
    with 2 show ?case by (auto simp: later_def)
  qed
  from this [OF stage_refl, of "dkeys d"] show ?thesis
    by (auto simp: recursive_expand_def stage_def)
qed

section \<open>Cyclic references\<close>

text \<open>
  Every chip a line refers to is defined.  Along an expansion this is kept: the lines that replace
  others refer to no chips but those referred to before.
\<close>

definition refs_defined :: "chips \<Rightarrow> bool" where
  "refs_defined d \<longleftrightarrow> (\<forall>chip exts. map_of d chip = Some exts \<longrightarrow> (\<forall>sub \<in> refs exts. din sub d))"

text \<open>Every chip of the set refers to a chip of the set.\<close>

definition cyclic_refs :: "chips \<Rightarrow> string set \<Rightarrow> bool" where
  "cyclic_refs d S \<longleftrightarrow> (\<forall>chip \<in> S. \<exists>exts. map_of d chip = Some exts \<and> refs exts \<inter> S \<noteq> {})"

text \<open>A later stage keeps the chips, the lines of the cycle and the references defined.\<close>

definition keeps_cycle :: "string set \<Rightarrow> chips \<Rightarrow> chips \<Rightarrow> bool" where
  "keeps_cycle S d d' \<longleftrightarrow> dkeys d' = dkeys d \<and> refs_defined d' \<and> (\<forall>c \<in> S. map_of d' c = map_of d c)"

lemma keeps_cycle_refl: "refs_defined d \<Longrightarrow> keeps_cycle S d d"
  by (simp add: keeps_cycle_def)

lemma keeps_cycle_trans: "keeps_cycle S d d' \<Longrightarrow> keeps_cycle S d' d'' \<Longrightarrow> keeps_cycle S d d''"
  by (simp add: keeps_cycle_def)

lemma keeps_cycle_din: "keeps_cycle S d d' \<Longrightarrow> din c d' \<longleftrightarrow> din c d"
  by (simp add: keeps_cycle_def din_dkeys del: set_map)

lemma keeps_cycle_cyclic: "keeps_cycle S d d' \<Longrightarrow> cyclic_refs d S \<Longrightarrow> cyclic_refs d' S"
  by (simp add: keeps_cycle_def cyclic_refs_def)

lemma refs_mono: "set xs \<subseteq> set ys \<Longrightarrow> refs xs \<subseteq> refs ys"
  unfolding refs_def by blast

text \<open>
  A run either exhausts the recursion or, when it did not have to expand a chip of the cycle,
  succeeds and keeps the cycle.
\<close>

definition avoids :: "string set \<Rightarrow> (string \<Rightarrow> chips \<Rightarrow> chips res) \<Rightarrow> bool" where
  "avoids S expand \<longleftrightarrow> (\<forall>sub d. refs_defined d \<longrightarrow> cyclic_refs d S \<longrightarrow> din sub d \<longrightarrow>
     expand sub d = Inl RecursionError \<or>
     sub \<notin> S \<and> (\<exists>d'. expand sub d = Inr d' \<and> keeps_cycle S d d'))"

lemma avoidsE:
  assumes "avoids S expand" "refs_defined d" "cyclic_refs d S" "din sub d"
  obtains "expand sub d = Inl RecursionError"
  | d' where "sub \<notin> S" "expand sub d = Inr d'" "keeps_cycle S d d'"
  using assms by (auto simp: avoids_def)

definition defined_refs_in :: "chips \<Rightarrow> string list \<Rightarrow> bool" where
  "defined_refs_in d exts \<longleftrightarrow> (\<forall>sub \<in> refs exts. din sub d)"

lemma refs_append [simp]: "refs (xs @ ys) = refs xs \<union> refs ys"
  by (auto simp: refs_def)

lemma all_of_step_cycle:
  assumes ex: "avoids S expand" and d: "refs_defined d" "cyclic_refs d S"
    and sub: "\<And>sub. match_all_of x = Some sub \<Longrightarrow> din sub d" and ne: "defined_refs_in d ne"
  shows "all_of_step expand x (d, ne) = Inl RecursionError \<or>
    (\<forall>sub. match_all_of x = Some sub \<longrightarrow> sub \<notin> S) \<and>
    (\<exists>d' ne'. all_of_step expand x (d, ne) = Inr (d', ne') \<and> keeps_cycle S d d' \<and> defined_refs_in d' ne')"
proof (cases "match_all_of x")
  case None
  then show ?thesis using d(1) ne by (simp add: all_of_step_def keeps_cycle_refl)
next
  case (Some sub)
  from ex d sub [OF Some] show ?thesis
  proof (cases rule: avoidsE)
    case 1
    then show ?thesis using Some by (simp add: all_of_step_def)
  next
    case (2 d')
    from sub [OF Some] 2(3) have "din sub d'" by (simp add: keeps_cycle_din)
    then obtain es where es: "map_of d' sub = Some es" by (auto simp: din_def)
    have "defined_refs_in d' ne" using ne 2(3) by (simp add: defined_refs_in_def keeps_cycle_din)
    moreover have "defined_refs_in d' es"
      using 2(3) es by (simp add: keeps_cycle_def refs_defined_def defined_refs_in_def)
    ultimately have "defined_refs_in d' (ne @ es)" by (auto simp: defined_refs_in_def)
    then show ?thesis using Some 2 es by (simp add: all_of_step_def dget_def)
  qed
qed

lemma common_subset_step_cycle:
  assumes ex: "avoids S expand" and d: "refs_defined d" "cyclic_refs d S"
    and ord: "\<And>A. finite A \<Longrightarrow> set (set_order A) = A"
    and sub: "\<And>s1 s2. match_common_subset x = Some (s1, s2) \<Longrightarrow> din s1 d \<and> din s2 d"
    and ne: "defined_refs_in d ne"
  shows "common_subset_step set_order expand x (d, ne) = Inl RecursionError \<or>
    (\<forall>s1 s2. match_common_subset x = Some (s1, s2) \<longrightarrow> s1 \<notin> S \<and> s2 \<notin> S) \<and>
    (\<exists>d' ne'. common_subset_step set_order expand x (d, ne) = Inr (d', ne') \<and> keeps_cycle S d d' \<and>
       defined_refs_in d' ne')"
proof (cases "match_common_subset x")
  case None
  then show ?thesis using d(1) ne by (simp add: common_subset_step_def keeps_cycle_refl)
next
  case (Some s)
  obtain s1 s2 where s: "match_common_subset x = Some (s1, s2)" using Some by (cases s) auto
  from sub [OF s] have din: "din s1 d" "din s2 d" by simp_all
  from ex d din(1) show ?thesis
  proof (cases rule: avoidsE)
    case 1
    then show ?thesis using s by (simp add: common_subset_step_def)
  next
    case (2 d1)
    note one = this
    have "refs_defined d1" "cyclic_refs d1 S" "din s2 d1"
      using one(3) keeps_cycle_cyclic [OF one(3) d(2)] din by (simp_all add: keeps_cycle_din) (simp add: keeps_cycle_def)
    with ex show ?thesis
    proof (cases rule: avoidsE)
      case 1
      then show ?thesis using s one by (simp add: common_subset_step_def)
    next
      case (2 d2)
      have k: "keeps_cycle S d d2" by (rule keeps_cycle_trans [OF one(3) 2(3)])
      from din k have "din s1 d2" "din s2 d2" by (simp_all add: keeps_cycle_din)
      then obtain e1 e2 where e: "map_of d2 s1 = Some e1" "map_of d2 s2 = Some e2" by (auto simp: din_def)
      let ?ys = "set_order (set e1 \<inter> set e2)"
      have "set ?ys = set e1 \<inter> set e2" by (rule ord) simp
      then have "refs ?ys \<subseteq> refs e1" by (intro refs_mono) simp
      moreover have "defined_refs_in d2 e1"
        using k e(1) by (simp add: keeps_cycle_def refs_defined_def defined_refs_in_def)
      moreover have "defined_refs_in d2 ne" using ne k by (simp add: defined_refs_in_def keeps_cycle_din)
      ultimately have "defined_refs_in d2 (ne @ ?ys)" by (auto simp: defined_refs_in_def)
      then show ?thesis using s one 2 k e by (simp add: common_subset_step_def dget_def)
    qed
  qed
qed

text \<open>A loop of such steps: it fails, or no entry was one (\<open>Q\<close>) that has to.\<close>

lemma cycle_loop:
  assumes "\<And>x d ne. x \<in> set xs \<Longrightarrow> keeps_cycle S d0 d \<Longrightarrow> defined_refs_in d ne \<Longrightarrow>
      step x (d, ne) = Inl RecursionError \<or> Q x \<and>
      (\<exists>d' ne'. step x (d, ne) = Inr (d', ne') \<and> keeps_cycle S d d' \<and> defined_refs_in d' ne')"
    and "keeps_cycle S d0 d" and "defined_refs_in d ne"
  shows "foldM step xs (d, ne) = Inl RecursionError \<or> (\<forall>x \<in> set xs. Q x) \<and>
      (\<exists>d' ne'. foldM step xs (d, ne) = Inr (d', ne') \<and> keeps_cycle S d0 d' \<and> defined_refs_in d' ne')"
  using assms
proof (induction xs arbitrary: d ne)
  case Nil
  then show ?case by simp
next
  case (Cons x xs)
  from Cons.prems(1) [of x d ne] Cons.prems(2,3) consider "step x (d, ne) = Inl RecursionError"
    | d1 ne1 where "Q x" "step x (d, ne) = Inr (d1, ne1)" "keeps_cycle S d d1" "defined_refs_in d1 ne1"
    by auto
  then show ?case
  proof cases
    case 1
    then show ?thesis by simp
  next
    case 2
    have "keeps_cycle S d0 d1" by (rule keeps_cycle_trans [OF Cons.prems(2) 2(3)])
    from Cons.IH [OF _ this 2(4)] Cons.prems(1) 2 show ?thesis by auto
  qed
qed

lemma keeps_cycle_new_line:
  assumes k: "keeps_cycle S d d'" and chip: "chip \<notin> S" "din chip d'" and ne: "defined_refs_in d' ne"
  shows "keeps_cycle S d (dset chip (uniquify_list (fold not_step exts ne @ filter conventional exts)) d')"
proof -
  let ?new = "uniquify_list (fold not_step exts ne @ filter conventional exts)"
  have keys: "dkeys (dset chip ?new d') = dkeys d'" using chip(2) unfolding dkeys_dset din_iff by simp
  have "refs ?new \<subseteq> refs (ne @ filter conventional exts)"
    by (intro refs_mono) (auto simp: set_not_steps)
  moreover have "refs (filter conventional exts) = {}" by (auto simp: refs_def conventional_def)
  ultimately have "refs ?new \<subseteq> refs ne" unfolding refs_append by blast
  then have "\<forall>sub \<in> refs ?new. din sub d'" using ne by (auto simp: defined_refs_in_def)
  moreover have "din c (dset chip ?new d') \<longleftrightarrow> din c d'" for c
    using chip(2) by (auto simp: din_def)
  ultimately show ?thesis using k chip(1) keys by (auto simp: keeps_cycle_def refs_defined_def)
qed

lemma expand_chip_cycle:
  assumes ord: "\<And>A. finite A \<Longrightarrow> set (set_order A) = A"
  shows "avoids S (expand_chip limit set_order)"
proof (induction limit)
  case 0
  then show ?case by (simp add: avoids_def)
next
  case (Suc limit)
  let ?E = "expand_chip limit set_order"
  have "expand_chip (Suc limit) set_order chip d = Inl RecursionError \<or>
      chip \<notin> S \<and> (\<exists>d'. expand_chip (Suc limit) set_order chip d = Inr d' \<and> keeps_cycle S d d')"
    if d: "refs_defined d" "cyclic_refs d S" "din chip d" for chip d
  proof -
    have st: "refs_defined d'" "cyclic_refs d' S" "din c d' \<longleftrightarrow> din c d" if "keeps_cycle S d d'" for d' c
      using that d(2) keeps_cycle_cyclic [OF that] by (simp_all add: keeps_cycle_din) (simp add: keeps_cycle_def)
    from d(3) obtain es where es: "map_of d chip = Some es" by (auto simp: din_def)
    have sub: "\<forall>sub \<in> refs es. din sub d" using d(1) es by (simp add: refs_defined_def)
    have "foldM (all_of_step ?E) es (d, []) = Inl RecursionError \<or>
        (\<forall>x \<in> set es. \<forall>sub. match_all_of x = Some sub \<longrightarrow> sub \<notin> S) \<and>
        (\<exists>d' ne'. foldM (all_of_step ?E) es (d, []) = Inr (d', ne') \<and> keeps_cycle S d d' \<and> defined_refs_in d' ne')"
    proof (rule cycle_loop)
      fix x d' ne assume x: "x \<in> set es" "keeps_cycle S d d'" "defined_refs_in d' ne"
      have "din sub d'" if "match_all_of x = Some sub" for sub
        using that x(1,2) sub by (auto simp: refs_def keeps_cycle_din)
      from all_of_step_cycle [OF Suc.IH st(1,2) [OF x(2)] this x(3)]
      show "all_of_step ?E x (d', ne) = Inl RecursionError \<or>
          (\<forall>sub. match_all_of x = Some sub \<longrightarrow> sub \<notin> S) \<and>
          (\<exists>d'' ne'. all_of_step ?E x (d', ne) = Inr (d'', ne') \<and> keeps_cycle S d' d'' \<and>
             defined_refs_in d'' ne')" by blast
    qed (use d(1) in \<open>simp_all add: keeps_cycle_refl defined_refs_in_def refs_def\<close>)
    then consider "foldM (all_of_step ?E) es (d, []) = Inl RecursionError"
      | d1 ne1 where "\<forall>x \<in> set es. \<forall>sub. match_all_of x = Some sub \<longrightarrow> sub \<notin> S"
        "foldM (all_of_step ?E) es (d, []) = Inr (d1, ne1)" "keeps_cycle S d d1" "defined_refs_in d1 ne1"
      by blast
    then show ?thesis
    proof cases
      case 1
      then show ?thesis using es by (simp add: dget_def)
    next
      case 2
      note one = this
      from one(3) have "din chip d1" using d(3) by (simp add: keeps_cycle_din)
      then obtain es1 where es1: "map_of d1 chip = Some es1" by (auto simp: din_def)
      have sub1: "\<forall>sub \<in> refs es1. din sub d1" using st(1) [OF one(3)] es1 by (simp add: refs_defined_def)
      have "foldM (common_subset_step set_order ?E) es1 (d1, ne1) = Inl RecursionError \<or>
          (\<forall>x \<in> set es1. \<forall>s1 s2. match_common_subset x = Some (s1, s2) \<longrightarrow> s1 \<notin> S \<and> s2 \<notin> S) \<and>
          (\<exists>d' ne'. foldM (common_subset_step set_order ?E) es1 (d1, ne1) = Inr (d', ne') \<and>
             keeps_cycle S d1 d' \<and> defined_refs_in d' ne')"
      proof (rule cycle_loop)
        fix x d' ne assume x: "x \<in> set es1" "keeps_cycle S d1 d'" "defined_refs_in d' ne"
        have k: "keeps_cycle S d d'" by (rule keeps_cycle_trans [OF one(3) x(2)])
        have "din s1 d' \<and> din s2 d'" if "match_common_subset x = Some (s1, s2)" for s1 s2
          using that x(1,2) sub1 by (auto simp: refs_def keeps_cycle_din)
        from common_subset_step_cycle [OF Suc.IH st(1) [OF k] st(2) [OF k] ord this x(3)]
        show "common_subset_step set_order ?E x (d', ne) = Inl RecursionError \<or>
            (\<forall>s1 s2. match_common_subset x = Some (s1, s2) \<longrightarrow> s1 \<notin> S \<and> s2 \<notin> S) \<and>
            (\<exists>d'' ne'. common_subset_step set_order ?E x (d', ne) = Inr (d'', ne') \<and>
               keeps_cycle S d' d'' \<and> defined_refs_in d'' ne')" by blast
      qed (use one st(1) in \<open>simp_all add: keeps_cycle_refl\<close>)
      then consider "foldM (common_subset_step set_order ?E) es1 (d1, ne1) = Inl RecursionError"
        | d2 ne2 where "\<forall>x \<in> set es1. \<forall>s1 s2. match_common_subset x = Some (s1, s2) \<longrightarrow> s1 \<notin> S \<and> s2 \<notin> S"
          "foldM (common_subset_step set_order ?E) es1 (d1, ne1) = Inr (d2, ne2)"
          "keeps_cycle S d1 d2" "defined_refs_in d2 ne2"
        by blast
      then show ?thesis
      proof cases
        case 1
        then show ?thesis using es es1 one(2) by (simp add: dget_def)
      next
        case 2
        have k: "keeps_cycle S d d2" by (rule keeps_cycle_trans [OF one(3) 2(3)])
        then have "din chip d2" using d(3) by (simp add: keeps_cycle_din)
        then obtain es2 where es2: "map_of d2 chip = Some es2" by (auto simp: din_def)
        have "chip \<notin> S"
        proof
          assume c: "chip \<in> S"
          then have "es1 = es" using one(3) es es1 by (simp add: keeps_cycle_def)
          moreover obtain sub where "sub \<in> refs es" "sub \<in> S"
            using c d(2) es by (fastforce simp: cyclic_refs_def)
          ultimately show False using one(1) 2(1) by (auto simp: refs_def)
        qed
        moreover have "expand_chip (Suc limit) set_order chip d =
            Inr (dset chip (uniquify_list (fold not_step es2 ne2 @ filter conventional es2)) d2)"
          using es es1 es2 one(2) 2(2) by (simp add: dget_def)
        moreover have "keeps_cycle S d (dset chip (uniquify_list (fold not_step es2 ne2 @ filter conventional es2)) d2)"
          by (rule keeps_cycle_new_line [OF k \<open>chip \<notin> S\<close> \<open>din chip d2\<close> 2(4)])
        ultimately show ?thesis by blast
      qed
    qed
  qed
  then show ?case by (simp add: avoids_def)
qed

lemma expand_chips_cycle:
  assumes av: "avoids S expand" and S: "chip \<in> S"
  shows "keeps_cycle S d0 d \<Longrightarrow> cyclic_refs d0 S \<Longrightarrow> chip \<in> set cs \<Longrightarrow> set cs \<subseteq> set (dkeys d0) \<Longrightarrow>
    foldM expand cs d = Inl RecursionError"
proof (induction cs arbitrary: d)
  case Nil
  then show ?case by simp
next
  case (Cons c cs)
  have "refs_defined d" "cyclic_refs d S" "din c d"
    using Cons.prems keeps_cycle_cyclic [OF Cons.prems(1,2)]
    by (auto simp: keeps_cycle_def din_dkeys simp del: set_map)
  with av show ?case
  proof (cases rule: avoidsE)
    case 1
    then show ?thesis by simp
  next
    case (2 d')
    then have "chip \<in> set cs" using S Cons.prems(3) by auto
    with Cons.IH [OF keeps_cycle_trans [OF Cons.prems(1) 2(3)] Cons.prems(2)] Cons.prems(4) 2(2)
    show ?thesis by simp
  qed
qed

section \<open>The isa sets and the checks against the instructions\<close>

definition add_all_chip :: "chips \<Rightarrow> chips \<times> string list" where
  "add_all_chip d =
     (let isa_set = sort (remdups (map (map upper_char) (concat (dvals d))))
      in (dset ''ALL'' isa_set d, ''INVALID'' # isa_set))"

definition check_in_chip_hierarchy_not_instructions :: "string list \<Rightarrow> string list \<Rightarrow> string list" where
  "check_in_chip_hierarchy_not_instructions isaset_ch isaset_inst =
     filter (\<lambda>v. v \<noteq> ''INVALID'' \<and> v \<notin> set isaset_inst) isaset_ch"

definition check_in_instructions_not_chip_hierarchy :: "string list \<Rightarrow> string list \<Rightarrow> string list" where
  "check_in_instructions_not_chip_hierarchy isaset_ch isaset_inst =
     filter (\<lambda>v. v \<noteq> ''INVALID'' \<and> v \<notin> set isaset_ch) isaset_inst"

definition get_chip_supports_feature_dict :: "string \<Rightarrow> chips \<Rightarrow> (string, string) dict" where
  "get_chip_supports_feature_dict feature chip2isa =
     map (\<lambda>(c, fs). (c, if list_ex (str_in feature) fs then ''1'' else ''0'')) chip2isa"

text \<open>Isa sets of instructions no chip has: an error, or added to the chips \<open>ALL\<close> and \<open>FUTURE\<close>.\<close>

definition place_orphans ::
  "bool \<Rightarrow> string list \<Rightarrow> chips \<times> string list \<Rightarrow> (chips \<times> string list) res" where
  "place_orphans add_orphans_to_future missing2 st =
     (case st of (d, isa_set) \<Rightarrow>
        if missing2 = [] then Inr (d, isa_set)
        else if add_orphans_to_future
        then rbind (dget d ''ALL'') (\<lambda>all.
               let d = dset ''ALL'' (all @ missing2) d;
                   d = (case map_of d ''FUTURE'' of
                          None \<Rightarrow> d
                        | Some fs \<Rightarrow> dset ''FUTURE'' (fs @ missing2) d)
               in Inr (d, isa_set @ missing2))
        else Inl (Die ''These need to be part of some chip''))"

section \<open>The feature vectors\<close>

fun feature_index :: "string list \<Rightarrow> string \<Rightarrow> nat res" where
  "feature_index [] f = Inl (Die ''Did not find isa set in list'')"
| "feature_index (x # all_features) f =
     (if x = f then Inr 0 else rbind (feature_index all_features f) (\<lambda>i. Inr (Suc i)))"

text \<open>A term \<open>(one<<(XED_ISA_SET_f-off))\<close> of an emitted expression is the pair of \<open>f\<close> and \<open>off\<close>.\<close>

type_synonym term_list = "(string \<times> nat) list"

definition append_term :: "nat \<Rightarrow> string \<Rightarrow> term_list list \<Rightarrow> term_list list" where
  "append_term k f s = s[k := s ! k @ [(f, 64 * k)]]"

definition feature_step :: "string list \<Rightarrow> string \<Rightarrow> term_list list \<Rightarrow> term_list list res" where
  "feature_step isa_set f s =
     rbind (feature_index isa_set f) (\<lambda>index.
       if index < 64 then Inr (append_term 0 f s)
       else if index < 128 then Inr (append_term 1 f s)
       else if index < 192 then Inr (append_term 2 f s)
       else if index < 256 then Inr (append_term 3 f s)
       else if index < 320 then Inr (append_term 4 f s)
       else if index < 384 then Inr (append_term 5 f s)
       else if index < 448 then Inr (append_term 6 f s)
       else Inl (Die ''Feature index >= 448''))"

definition chip_vector :: "string list \<Rightarrow> string list \<Rightarrow> term_list list res" where
  "chip_vector isa_set features = foldM (feature_step isa_set) features (replicate 7 [])"

text \<open>
  The value C gives the expression: \<open>0\<close> or-ed with the terms.  \<open>XED_ISA_SET_f\<close> is the position of
  \<open>f\<close> in the list the enumeration is printed from.
\<close>

fun eval_terms :: "string list \<Rightarrow> term_list \<Rightarrow> 64 word" where
  "eval_terms isa_set [] = 0"
| "eval_terms isa_set ((f, off) # ts) =
     (case feature_index isa_set f of
        Inl _ \<Rightarrow> 0
      | Inr v \<Rightarrow> push_bit (v - off) 1) OR eval_terms isa_set ts"

definition chip_tables ::
  "nat \<Rightarrow> (string set \<Rightarrow> string list) \<Rightarrow> bool \<Rightarrow> string list \<Rightarrow> string list
     \<Rightarrow> (string list \<times> string list \<times> (string, term_list list) dict) res" where
  "chip_tables limit set_order add_orphans_to_future isaset_inst lines =
     rbind (parse_lines (process_continuations (filter_comments lines))) (\<lambda>(chips, d).
     rbind (recursive_expand limit set_order d) (\<lambda>d.
       let chips = chips @ [''ALL'']; (d, isa_set) = add_all_chip d;
           missing2 = check_in_instructions_not_chip_hierarchy isa_set isaset_inst
       in rbind (place_orphans add_orphans_to_future missing2 (d, isa_set)) (\<lambda>(d, isa_set).
          rbind (mapM (\<lambda>c. rbind (dget d c) (\<lambda>fs.
                   rbind (chip_vector isa_set fs) (\<lambda>v. Inr (c, v)))) chips) (\<lambda>vectors.
          Inr (chips, isa_set, vectors)))))"

lemma feature_index_Inr:
  "feature_index isa_set f = Inr i \<Longrightarrow> i < length isa_set \<and> isa_set ! i = f"
  by (induction isa_set arbitrary: i) (auto simp: rbind_eq_Inr split: if_splits)

lemma feature_index_total: "f \<in> set isa_set \<Longrightarrow> \<exists>i. feature_index isa_set f = Inr i"
  by (induction isa_set) auto

lemma feature_step_Inr:
  assumes "feature_step isa_set f s = Inr s'"
  obtains i where "feature_index isa_set f = Inr i" "i < 448" "s' = append_term (i div 64) f s"
proof -
  from assms obtain i where i: "feature_index isa_set f = Inr i"
    by (auto simp: feature_step_def rbind_eq_Inr)
  have d: "i div 64 = k" if "64 * k \<le> i" "i < 64 * k + 64" for k
    using that by (intro div_nat_eqI) simp_all
  have "i < 448 \<and> s' = append_term (i div 64) f s"
    using assms i d [of 0] d [of 1] d [of 2] d [of 3] d [of 4] d [of 5] d [of 6]
    by (simp add: feature_step_def split: if_splits)
  with i that show ?thesis by blast
qed

text \<open>The terms of the words of a vector, each in the word of its index.\<close>

lemma chip_vector_terms:
  assumes "foldM (feature_step isa_set) features s = Inr s'" and "length s = 7"
  shows "length s' = 7 \<and> (\<forall>k < 7. set (s' ! k) = set (s ! k) \<union>
    {(f, 64 * k) | f. f \<in> set features \<and> (\<exists>i. feature_index isa_set f = Inr i \<and> i div 64 = k)})"
  using assms
proof (induction features arbitrary: s)
  case Nil
  then show ?case by auto
next
  case (Cons f features)
  from Cons.prems(1) obtain s1 where s1: "feature_step isa_set f s = Inr s1"
    "foldM (feature_step isa_set) features s1 = Inr s'" by (auto simp: rbind_eq_Inr)
  from s1(1) obtain i where i: "feature_index isa_set f = Inr i" "i < 448"
    "s1 = append_term (i div 64) f s" by (rule feature_step_Inr)
  have lt: "i div 64 < 7" using i(2) by simp
  have len: "length s1 = 7" by (simp add: i(3) append_term_def Cons.prems(2))
  have "set (s1 ! k) = set (s ! k) \<union> (if k = i div 64 then {(f, 64 * k)} else {})" if "k < 7" for k
    using lt that Cons.prems(2) by (simp add: i(3) append_term_def nth_list_update)
  then show ?case using Cons.IH [OF s1(2) len] i(1) by auto
qed

lemma bit_eval_terms:
  "bit (eval_terms isa_set ts) j \<longleftrightarrow> j < 64 \<and>
     (\<exists>(f, off) \<in> set ts. \<exists>i. feature_index isa_set f = Inr i \<and> i - off = j)"
proof (induction ts)
  case Nil
  show ?case by simp
next
  case (Cons t ts)
  obtain f off where t: "t = (f, off)" by (cases t)
  have "bit (push_bit n (1 :: 64 word)) j \<longleftrightarrow> j < 64 \<and> n = j" for n
    by (auto simp: bit_simps not_less)
  then show ?case by (auto simp: t bit_or_iff Cons.IH split: sum.splits)
qed

lemma chip_vector_bit:
  assumes v: "chip_vector isa_set features = Inr v" and i: "feature_index isa_set f = Inr i"
    and lt: "i < 448"
  shows "bit (eval_terms isa_set (v ! (i div 64))) (i mod 64) \<longleftrightarrow> f \<in> set features"
proof -
  let ?k = "i div 64"
  have k: "?k < 7" using lt by simp
  note terms = chip_vector_terms [OF v [unfolded chip_vector_def], simplified]
  have s: "set (v ! ?k) =
      {(g, 64 * ?k) | g. g \<in> set features \<and> (\<exists>n. feature_index isa_set g = Inr n \<and> n div 64 = ?k)}"
    using terms k by simp
  have eq: "n = i" if "n div 64 = ?k" "n - 64 * ?k = i mod 64" for n
  proof -
    have "n = 64 * (n div 64) + n mod 64" by simp
    moreover have "n - 64 * (n div 64) = n mod 64" by (rule minus_mult_div_eq_mod)
    ultimately show ?thesis using that by (metis mult_div_mod_eq)
  qed
  have "(\<exists>(g, off) \<in> set (v ! ?k). \<exists>n. feature_index isa_set g = Inr n \<and> n - off = i mod 64) \<longleftrightarrow>
      f \<in> set features"
  proof
    assume "\<exists>(g, off) \<in> set (v ! ?k). \<exists>n. feature_index isa_set g = Inr n \<and> n - off = i mod 64"
    then obtain g n where "g \<in> set features" "feature_index isa_set g = Inr n" "n div 64 = ?k"
      "n - 64 * ?k = i mod 64" unfolding s by auto
    then show "f \<in> set features" using eq feature_index_Inr i by metis
  next
    assume "f \<in> set features"
    then have "(f, 64 * ?k) \<in> set (v ! ?k)" unfolding s using i by blast
    moreover have "i - 64 * ?k = i mod 64" by (rule minus_mult_div_eq_mod)
    ultimately show "\<exists>(g, off) \<in> set (v ! ?k). \<exists>n. feature_index isa_set g = Inr n \<and> n - off = i mod 64"
      using i by blast
  qed
  then show ?thesis by (simp add: bit_eval_terms)
qed

text \<open>The parsed lines: one entry per chip, and none is named \<open>ALL\<close>.\<close>

lemma parse_lines_Inr:
  assumes "parse_lines lines = Inr (chips, d)"
  shows "dict_ok d" and "set chips = set (dkeys d)" and "''ALL'' \<notin> set chips"
proof -
  have "(\<lambda>(chips, d). dict_ok d \<and> set chips = fst ` set d \<and> ''ALL'' \<notin> set chips) (chips, d)"
  proof (rule foldM_invariant [OF assms [unfolded parse_lines_def]])
    show "case ([], []) of (chips, d) \<Rightarrow> dict_ok d \<and> set chips = fst ` set d \<and> ''ALL'' \<notin> set chips" by simp
  next
    fix l and s t :: "string list \<times> chips"
    assume s: "case s of (chips, d) \<Rightarrow> dict_ok d \<and> set chips = fst ` set d \<and> ''ALL'' \<notin> set chips"
      and l: "parse_line l s = Inr t"
    obtain cs d1 where s1: "s = (cs, d1)" by (cases s)
    from l obtain c es where t: "t = (cs @ [c], dset c es d1)" "c \<noteq> ''ALL''" "\<not> din c d1"
      by (auto simp: parse_line_def s1 Let_def split: if_splits option.splits)
    then have "dset c es d1 = d1 @ [(c, es)]" by (simp add: dset_new din_iff)
    then show "case t of (chips, d) \<Rightarrow> dict_ok d \<and> set chips = fst ` set d \<and> ''ALL'' \<notin> set chips"
      using s s1 t by (auto simp: dict_ok_def din_iff)
  qed
  then show "dict_ok d" "set chips = set (dkeys d)" "''ALL'' \<notin> set chips" by auto
qed

lemma chip_tables_supports:
  assumes run: "chip_tables limit set_order False isaset_inst lines = Inr (names, isa_set, vectors)"
    and parsed: "parse_lines (process_continuations (filter_comments lines)) = Inr (chips, d)"
    and h: "hierarchy rank d" and ord: "\<And>A. finite A \<Longrightarrow> set (set_order A) = A"
    and limit: "\<forall>chip \<in> set chips. rank chip < limit"
    and chip: "chip \<in> set chips" and f: "feature_index isa_set f = Inr i" and lt: "i < 448"
  shows "\<exists>v. map_of vectors chip = Some v \<and>
    (bit (eval_terms isa_set (v ! (i div 64))) (i mod 64) \<longleftrightarrow> supports d chip f)"
proof -
  note p = parse_lines_Inr [OF parsed]
  from recursive_expand_ok [OF h ord] limit p(2) obtain d' where
    d': "recursive_expand limit set_order d = Inr d'" "\<forall>c \<in> set chips. expanded d d' c" by metis
  obtain da isa where a: "add_all_chip d' = (da, isa)" by (cases "add_all_chip d'")
  let ?row = "\<lambda>isa da c. rbind (dget da c) (\<lambda>fs. rbind (chip_vector isa fs) (\<lambda>v. Inr (c, v)))"
  from run parsed d'(1) a obtain da2 where
    o: "place_orphans False (check_in_instructions_not_chip_hierarchy isa isaset_inst) (da, isa) = Inr (da2, isa_set)"
    and m: "mapM (?row isa_set da2) (chips @ [''ALL'']) = Inr vectors"
    by (auto simp: chip_tables_def Let_def rbind_eq_Inr)
  from o have o: "da2 = da" "isa_set = isa" by (auto simp: place_orphans_def split: if_splits)
  have da: "map_of da c = map_of d' c" if "c \<in> set chips" for c
    using a p(3) that by (auto simp: add_all_chip_def Let_def)
  have rows: "(\<forall>c \<in> set cs. \<exists>v. (c, v) \<in> set vs) \<and>
      (\<forall>(c, v) \<in> set vs. \<exists>fs. map_of da2 c = Some fs \<and> chip_vector isa_set fs = Inr v)"
    if "mapM (?row isa_set da2) cs = Inr vs" for cs vs
    using that
  proof (induction cs arbitrary: vs)
    case (Cons c cs)
    then show ?case by (clarsimp simp: rbind_eq_Inr) blast
  qed simp
  from rows [OF m] chip obtain v0 where "(chip, v0) \<in> set vectors" by auto
  then obtain v where v: "map_of vectors chip = Some v" by (metis weak_map_of_SomeI)
  then have "(chip, v) \<in> set vectors" by (rule map_of_SomeD)
  with rows [OF m] obtain fs where fs: "map_of da2 chip = Some fs" "chip_vector isa_set fs = Inr v" by auto
  have "expanded d d' chip" using d'(2) chip by blast
  with fs(1) o da [OF chip] have "set fs = {e. supports d chip e}" by (auto simp: expanded_def)
  with chip_vector_bit [OF fs(2) f lt] v show ?thesis by simp
qed

section \<open>The chips and their isa sets\<close>

text \<open>
  C27: expanding a chip model without cyclic references replaces every chip's line by exactly the isa
  sets the chip supports: its own, and those of the chips it includes or intersects except the ones it
  takes out; the recursion ends within the length of the longest chain of references, whatever order
  the sets are listed in.
\<close>

theorem chip_expansion_exact:
  assumes "hierarchy rank d" and "\<forall>A. finite A \<longrightarrow> set (set_order A) = A"
    and "\<forall>chip \<in> set (dkeys d). rank chip < limit"
  shows "\<exists>d'. recursive_expand limit set_order d = Inr d' \<and> dkeys d' = dkeys d \<and>
    (\<forall>chip \<in> set (dkeys d). \<exists>es. map_of d' chip = Some es \<and> distinct es \<and> set es = {e. supports d chip e})"
  using recursive_expand_ok [OF assms(1) _ assms(3), of set_order] assms(2) by (simp add: expanded_def)

definition sample_chips :: chips where
  "sample_chips = [(''B'', [''ALL_OF(A)'', ''NOT(SSE)'', ''AVX'']), (''A'', [''X86'', ''SSE''])]"

definition sample_rank :: "string \<Rightarrow> nat" where
  "sample_rank chip = (if chip = ''B'' then 1 else 0)"

lemma sample_matches:
  "match_all_of ''ALL_OF(A)'' = Some ''A''" "match_common_subset ''ALL_OF(A)'' = None" "match_not ''ALL_OF(A)'' = None"
  "match_all_of ''NOT(SSE)'' = None" "match_common_subset ''NOT(SSE)'' = None" "match_not ''NOT(SSE)'' = Some ''SSE''"
  "match_all_of ''AVX'' = None" "match_common_subset ''AVX'' = None" "match_not ''AVX'' = None"
  "match_all_of ''X86'' = None" "match_common_subset ''X86'' = None" "match_not ''X86'' = None"
  "match_all_of ''SSE'' = None" "match_common_subset ''SSE'' = None" "match_not ''SSE'' = None"
  by code_simp+

lemma sample_hierarchy: "hierarchy sample_rank sample_chips"
  by (auto simp: hierarchy_def dict_ok_def sample_chips_def refs_def sample_matches din_def sample_rank_def
      split: if_splits)

theorem chip_expansion_exact_witness:
  "\<exists>d es. recursive_expand 2 sorted_list_of_set sample_chips = Inr d \<and> map_of d ''B'' = Some es \<and>
     ''X86'' \<in> set es"
proof -
  have "supports sample_chips ''A'' ''X86''"
    by (rule supports.own [where exts = "[''X86'', ''SSE'']"]) (simp_all add: sample_chips_def conventional_def sample_matches)
  then have "supports sample_chips ''B'' ''X86''"
    by (rule supports.all_of [where exts = "[''ALL_OF(A)'', ''NOT(SSE)'', ''AVX'']" and x = "''ALL_OF(A)''", rotated 3])
      (simp_all add: sample_chips_def sample_matches)
  moreover have "\<forall>chip \<in> set (dkeys sample_chips). sample_rank chip < 2" by (simp add: sample_chips_def sample_rank_def)
  moreover have "''B'' \<in> set (dkeys sample_chips)" by (simp add: sample_chips_def)
  ultimately show ?thesis
    using chip_expansion_exact [OF sample_hierarchy, of sorted_list_of_set 2] by auto
qed

text \<open>
  C26: in the tables of a chip model, the bit of an isa set in the vector of a chip, as the emitted C
  expressions evaluate, is set exactly when the chip supports the isa set by its line in the file.
\<close>

theorem chip_feature_bits:
  assumes "chip_tables limit set_order False isaset_inst lines = Inr (names, isa_set, vectors)"
    and "parse_lines (process_continuations (filter_comments lines)) = Inr (chips, d)"
    and "hierarchy rank d" and "\<forall>A. finite A \<longrightarrow> set (set_order A) = A"
    and "\<forall>chip \<in> set chips. rank chip < limit"
    and "chip \<in> set chips" and "feature_index isa_set f = Inr i" and "i < 448"
  shows "\<exists>v. map_of vectors chip = Some v \<and>
    (bit (eval_terms isa_set (v ! (i div 64))) (i mod 64) \<longleftrightarrow> supports d chip f)"
  by (rule chip_tables_supports [OF assms(1-3) _ assms(5-8)]) (use assms(4) in simp)

lemma sample_chip_tables:
  "chip_tables 2 sorted_list_of_set False [''AVX'']
     [''B: ALL_OF(A) NOT(SSE) AVX # the newer one'', ''A : X86 SSE''] =
   Inr ([''B'', ''A'', ''ALL''], [''INVALID'', ''AVX'', ''SSE'', ''X86''],
     [(''B'', [[(''X86'', 0), (''AVX'', 0)], [], [], [], [], [], []]),
      (''A'', [[(''X86'', 0), (''SSE'', 0)], [], [], [], [], [], []]),
      (''ALL'', [[(''AVX'', 0), (''SSE'', 0), (''X86'', 0)], [], [], [], [], [], []])])"
  by code_simp

theorem chip_feature_bits_witness:
  "supports sample_chips ''B'' ''X86'' \<and> \<not> supports sample_chips ''B'' ''SSE''"
proof -
  have p: "parse_lines (process_continuations (filter_comments
      [''B: ALL_OF(A) NOT(SSE) AVX # the newer one'', ''A : X86 SSE''])) = Inr ([''B'', ''A''], sample_chips)"
    by code_simp
  have r: "\<forall>chip \<in> set [''B'', ''A'']. sample_rank chip < 2" by (simp add: sample_rank_def)
  note bits = chip_feature_bits [OF sample_chip_tables p sample_hierarchy _ r, of "''B''"]
  have "feature_index [''INVALID'', ''AVX'', ''SSE'', ''X86''] ''X86'' = Inr 3"
    "feature_index [''INVALID'', ''AVX'', ''SSE'', ''X86''] ''SSE'' = Inr 2"
    "bit (eval_terms [''INVALID'', ''AVX'', ''SSE'', ''X86''] [(''X86'', 0), (''AVX'', 0)]) 3"
    "\<not> bit (eval_terms [''INVALID'', ''AVX'', ''SSE'', ''X86''] [(''X86'', 0), (''AVX'', 0)]) 2"
    by (simp_all add: bit_eval_terms)
  with bits [of "''X86''" 3] bits [of "''SSE''" 2] show ?thesis by simp
qed

text \<open>
  C39: When the references of a chip file have a cycle (every chip of a non-empty set refers, by
  \<open>ALL_OF\<close> or \<open>COMMON_SUBSET\<close> and at any place of its line, to a chip of the set) and every chip
  referred to is defined, the expansion of a chip of the cycle exhausts every bound on the recursion,
  and with it the expansion of the whole file; no other error comes first.
\<close>

theorem chip_self_reference_fails:
  assumes "refs_defined d" and "cyclic_refs d S" and "chip \<in> S"
    and "\<And>A. finite A \<Longrightarrow> set (set_order A) = A"
  shows "expand_chip limit set_order chip d = Inl RecursionError \<and>
    recursive_expand limit set_order d = Inl RecursionError"
proof -
  note av = expand_chip_cycle [OF assms(4), of S limit]
  have c: "din chip d" using assms(2,3) by (auto simp: cyclic_refs_def din_def)
  from avoidsE [OF av assms(1,2) c] assms(3) have "expand_chip limit set_order chip d = Inl RecursionError" by blast
  moreover have "chip \<in> set (dkeys d)" using c by (simp add: din_dkeys del: set_map)
  then have "recursive_expand limit set_order d = Inl RecursionError"
    unfolding recursive_expand_def
    using expand_chips_cycle [OF av assms(3) keeps_cycle_refl [OF assms(1)] assms(2)] by blast
  ultimately show ?thesis ..
qed

definition cyclic_chips :: chips where
  "cyclic_chips =
     [(''X'', [''SSE'']), (''A'', [''X86'', ''ALL_OF(X)'', ''ALL_OF(B)'']), (''B'', [''COMMON_SUBSET(X,A)''])]"

lemma cyclic_matches:
  "match_all_of ''ALL_OF(X)'' = Some ''X''" "match_common_subset ''ALL_OF(X)'' = None"
  "match_all_of ''ALL_OF(B)'' = Some ''B''" "match_common_subset ''ALL_OF(B)'' = None"
  "match_all_of ''COMMON_SUBSET(X,A)'' = None" "match_common_subset ''COMMON_SUBSET(X,A)'' = Some (''X'', ''A'')"
  by code_simp+

theorem chip_self_reference_fails_witness:
  "expand_chip 1000 sorted_list_of_set ''A'' cyclic_chips = Inl RecursionError \<and>
   recursive_expand 1000 sorted_list_of_set cyclic_chips = Inl RecursionError"
proof (rule chip_self_reference_fails)
  show "refs_defined cyclic_chips"
    by (auto simp: refs_defined_def refs_def cyclic_chips_def cyclic_matches sample_matches din_def split: if_splits)
  show "cyclic_refs cyclic_chips {''A'', ''B''}"
    by (auto simp: cyclic_refs_def refs_def cyclic_chips_def cyclic_matches sample_matches)
qed simp_all

end
