(* ===== verification/Decode_Graph.thy ===== *)
theory Decode_Graph
  imports Operand_Storage
begin

text \<open>
  The decode graph of a nonterminal (\<open>build_graph\<close> and its callees in \<open>pysrc/generator.py\<close>): the
  patterns of the nonterminal's instructions are partitioned recursively, on literal bits, on the
  values of operand deciders and on nonterminals, until every leaf holds one instruction.  Patterns
  are rearranged in place when operand deciders collide.  The lemmas show that an input accepted
  by an instruction's pattern leads to the leaf of exactly that instruction, so that a graph that
  could be built has unambiguous patterns, that building needs a bounded recursion depth unless
  the instruction list is empty, and that merging nodes does not change where an input leads.
\<close>

section \<open>The graph\<close>

text \<open>
  A node's token is the name of the nonterminal (root), a bit string, \<open>-\<close> (after a nonterminal),
  \<open>other\<close>, or a required value.  Instructions are named by their index; their patterns, which the
  construction changes in place, are in the state, with the counter of the node class.
\<close>

datatype edge = ENum int | EStr string

record graph_node =
  node_id :: nat
  node_token :: edge
  node_instructions :: "nat list"
  bitpos_mod8 :: nat
  decider_bits :: nat
  skipped_bits :: nat
  node_nonterminal :: "bit_info option"
  node_decider :: "bit_info option"
  back_split_pos :: "nat option"
  otherwise_ok :: bool
  trimmed_values :: "int list option"
  child_od_key_values :: "int list option"

datatype gtree = GNode (node_of: graph_node) (kids: "(edge \<times> gtree) list")

type_synonym patterns = "nat \<Rightarrow> bit_info list"

record graph_state =
  pats :: patterns
  global_node_num :: nat

text \<open>The value sets of the operand deciders, and the operand storage for those that have none.\<close>

record grammar =
  state_space :: "(string, int list) dict"
  storage_dict :: fields

text \<open>The position is given modulo 8.\<close>

definition graph_node_new :: "edge \<Rightarrow> nat \<Rightarrow> graph_state \<Rightarrow> graph_node \<times> graph_state" where
  "graph_node_new token bitpos st =
     (\<lparr>node_id = global_node_num st, node_token = token, node_instructions = [],
       bitpos_mod8 = bitpos mod 8, decider_bits = 0, skipped_bits = 0, node_nonterminal = None,
       node_decider = None, back_split_pos = None, otherwise_ok = False, trimmed_values = None,
       child_od_key_values = None\<rparr>,
      st\<lparr>global_node_num := Suc (global_node_num st)\<rparr>)"

text \<open>An operand decider always has a token and a requirement (\<^const>\<open>bit_info_new\<close>).\<close>

definition token_of :: "bit_info \<Rightarrow> string" where
  "token_of b = (case btoken b of Some t \<Rightarrow> t | None \<Rightarrow> '''')"

definition requirement_of :: "bit_info \<Rightarrow> int" where
  "requirement_of b = (case brequirement b of Some r \<Rightarrow> r | None \<Rightarrow> 0)"

definition bit_at :: "patterns \<Rightarrow> nat \<Rightarrow> nat \<Rightarrow> bit_info res" where
  "bit_at p pos i = (if pos < length (p i) then Inr (p i ! pos) else Inl IndexError)"

definition leaf :: "gtree \<Rightarrow> bool" where
  "leaf t \<longleftrightarrow> length (kids t) = 0"

definition node_is_nonterminal :: "graph_node \<Rightarrow> bool" where
  "node_is_nonterminal n \<longleftrightarrow> node_nonterminal n \<noteq> None"

definition node_is_operand_decider :: "graph_node \<Rightarrow> bool" where
  "node_is_operand_decider n \<longleftrightarrow> node_decider n \<noteq> None"

fun value_test_loop :: "edge list \<Rightarrow> bool \<Rightarrow> edge option \<Rightarrow> (bool \<times> edge option)" where
  "value_test_loop [] found_other found_value =
     (if found_value \<noteq> None \<and> found_other then (True, found_value) else (False, None))"
| "value_test_loop (k # ks) found_other found_value =
     (if k = EStr ''other'' \<and> \<not> found_other then value_test_loop ks True found_value
      else if found_value = None then value_test_loop ks found_other (Some k)
      else (False, None))"

definition value_test_node :: "gtree \<Rightarrow> bool \<times> edge option" where
  "value_test_node t =
     (if node_is_operand_decider (node_of t) \<and> length (kids t) = 2
      then value_test_loop (dkeys (kids t)) False None else (False, None))"

section \<open>Looking at one position\<close>

text \<open>1: all patterns have ended; 0: none has; -1: some have.\<close>

definition at_end_of_instructions :: "patterns \<Rightarrow> nat list \<Rightarrow> nat \<Rightarrow> int" where
  "at_end_of_instructions p ilist pos =
     (let finished = list_ex (\<lambda>i. length (p i) \<le> pos) ilist;
          notdone = list_ex (\<lambda>i. pos < length (p i)) ilist
      in if finished then (if notdone then -1 else 1) else 0)"

fun all_same_decider_loop ::
  "patterns \<Rightarrow> nat \<Rightarrow> nat list \<Rightarrow> bit_info option \<Rightarrow> bit_info option" where
  "all_same_decider_loop p pos [] last_od = last_od"
| "all_same_decider_loop p pos (i # ilist) last_od =
     (if length (p i) \<le> pos then None
      else if is_operand_decider (p i ! pos)
      then (case last_od of
              None \<Rightarrow> all_same_decider_loop p pos ilist (Some (p i ! pos))
            | Some l \<Rightarrow> if btoken l \<noteq> btoken (p i ! pos) then None
                         else all_same_decider_loop p pos ilist (Some l))
      else None)"

definition all_same_operand_decider :: "patterns \<Rightarrow> nat list \<Rightarrow> nat \<Rightarrow> bit_info option" where
  "all_same_operand_decider p ilist pos = all_same_decider_loop p pos ilist None"

fun all_same_nt_loop ::
  "patterns \<Rightarrow> nat \<Rightarrow> nat list \<Rightarrow> bit_info option \<Rightarrow> bit_info option" where
  "all_same_nt_loop p pos [] last_nt = last_nt"
| "all_same_nt_loop p pos (i # ilist) last_nt =
     (if length (p i) \<le> pos then None
      else if is_nonterminal (p i ! pos)
      then (case last_nt of
              None \<Rightarrow> all_same_nt_loop p pos ilist (Some (p i ! pos))
            | Some l \<Rightarrow> if \<not> bit_info_eq l (Some (p i ! pos)) then None
                         else all_same_nt_loop p pos ilist (Some l))
      else None)"

definition all_same_nonterminal :: "patterns \<Rightarrow> nat list \<Rightarrow> nat \<Rightarrow> bit_info option" where
  "all_same_nonterminal p ilist pos = all_same_nt_loop p pos ilist None"

definition some_funky_spot :: "patterns \<Rightarrow> nat list \<Rightarrow> nat \<Rightarrow> bool" where
  "some_funky_spot p ilist pos =
     list_ex (\<lambda>i. pos < length (p i) \<and>
                (is_nonterminal (p i ! pos) \<or> is_operand_decider (p i ! pos))) ilist"

text \<open>The result is (ones, zeros, others).\<close>

fun partition_nodes ::
  "patterns \<Rightarrow> nat list \<Rightarrow> nat \<Rightarrow> (nat list \<times> nat list \<times> nat list) res" where
  "partition_nodes p [] pos = Inr ([], [], [])"
| "partition_nodes p (i # ilist) pos =
     rbind (bit_at p pos i) (\<lambda>b.
     rbind (partition_nodes p ilist pos) (\<lambda>(ones, zeros, others).
       Inr (if bvalue b = ''0'' then (ones, i # zeros, others)
            else if bvalue b = ''1'' then (i # ones, zeros, others)
            else (ones, zeros, i # others))))"

fun no_dont_cares :: "patterns \<Rightarrow> nat list \<Rightarrow> nat \<Rightarrow> bool res" where
  "no_dont_cares p [] pos = Inr True"
| "no_dont_cares p (i # ilist) pos =
     rbind (bit_at p pos i) (\<lambda>b.
       if is_dont_care b then Inr False else no_dont_cares p ilist pos)"

fun count_bits :: "patterns \<Rightarrow> nat list \<Rightarrow> nat \<Rightarrow> (nat \<times> nat) res" where
  "count_bits p [] pos = Inr (0, 0)"
| "count_bits p (i # ilist) pos =
     rbind (bit_at p pos i) (\<lambda>b.
     rbind (count_bits p ilist pos) (\<lambda>(zeros, ones).
       Inr (if bvalue b = ''0'' then (Suc zeros, ones)
            else if bvalue b = ''1'' then (zeros, Suc ones) else (zeros, ones))))"

definition some_different :: "patterns \<Rightarrow> nat list \<Rightarrow> nat \<Rightarrow> bool res" where
  "some_different p ilist pos =
     rbind (count_bits p ilist pos) (\<lambda>(zeros, ones). Inr (0 < zeros \<and> 0 < ones))"

fun scan_backwards_for_distinguishing_bit :: "patterns \<Rightarrow> nat list \<Rightarrow> nat \<Rightarrow> nat option res" where
  "scan_backwards_for_distinguishing_bit p ilist 0 = Inr None"
| "scan_backwards_for_distinguishing_bit p ilist (Suc b) =
     rbind (no_dont_cares p ilist b) (\<lambda>c.
     rbind (if c then some_different p ilist b else Inr False) (\<lambda>d.
       if d then Inr (Some b) else scan_backwards_for_distinguishing_bit p ilist b))"

text \<open>A slice never fails; the caller has a non-empty list.\<close>

definition convert_splitpos_to_bit_index :: "patterns \<Rightarrow> nat list \<Rightarrow> nat \<Rightarrow> nat res" where
  "convert_splitpos_to_bit_index p ilist splitpos =
     (case ilist of
        [] \<Rightarrow> Inl IndexError
      | i # _ \<Rightarrow> Inr (length (filter (\<lambda>b. \<not> is_operand_decider b) (take splitpos (p i)))))"

section \<open>Rearranging operand deciders\<close>

text \<open>The last match after the position is moved.\<close>

definition move_candidate_od_to_front ::
  "nat \<Rightarrow> string option \<Rightarrow> bit_info list \<Rightarrow> bit_info list option" where
  "move_candidate_od_to_front pos candidate_od bs =
     (case filter (\<lambda>k. is_operand_decider (bs ! k) \<and> btoken (bs ! k) = candidate_od)
             [Suc pos..<length bs] of
        [] \<Rightarrow> None
      | k # ks \<Rightarrow>
          let badpos = last (k # ks); rest = take badpos bs @ drop (Suc badpos) bs
          in Some (take pos rest @ (bs ! badpos) # drop pos rest))"

definition renumber_one_ipattern :: "bit_info list \<Rightarrow> bit_info list" where
  "renumber_one_ipattern bs = map (\<lambda>(k, b). b\<lparr>pbit := int k\<rparr>) (zip [0..<length bs] bs)"

definition renumber_bitpos :: "nat list \<Rightarrow> patterns \<Rightarrow> patterns" where
  "renumber_bitpos ilist p = fold (\<lambda>i p. p(i := renumber_one_ipattern (p i))) ilist p"

definition is_repleaceable :: "nat \<Rightarrow> bit_info list \<Rightarrow> bool" where
  "is_repleaceable pos bs =
     (if pos = 0 \<or> is_operand_decider (bs ! pos) \<or> is_nonterminal (bs ! pos) then True
      else if bit_info_eq (bs ! pos) (Some (bs ! (pos - 1))) then False
      else if is_one_or_zero (bs ! pos) \<and> is_one_or_zero (bs ! (pos - 1)) then False
      else True)"

definition add_candidate :: "bit_info \<Rightarrow> string option list \<Rightarrow> string option list" where
  "add_candidate b cs =
     (if is_operand_decider b \<and> btoken b \<notin> set cs then cs @ [btoken b] else cs)"

fun candidate_ods ::
  "patterns \<Rightarrow> nat \<Rightarrow> nat list \<Rightarrow> string option list \<Rightarrow> string option list option" where
  "candidate_ods p pos [] cs = Some cs"
| "candidate_ods p pos (i # ilist) cs =
     (if length (p i) \<le> pos then None
      else candidate_ods p pos ilist (fold add_candidate (drop pos (p i)) cs))"

text \<open>Whether the attempt with one candidate failed, and the patterns it leaves.\<close>

fun rearrange_with :: "string option \<Rightarrow> nat \<Rightarrow> nat list \<Rightarrow> patterns \<Rightarrow> bool \<times> patterns" where
  "rearrange_with candidate_od pos [] p = (False, p)"
| "rearrange_with candidate_od pos (i # ilist) p =
     (if is_operand_decider (p i ! pos) \<and> candidate_od = btoken (p i ! pos)
      then rearrange_with candidate_od pos ilist p
      else if is_repleaceable pos (p i)
      then (case move_candidate_od_to_front pos candidate_od (p i) of
              Some bs \<Rightarrow> rearrange_with candidate_od pos ilist (p(i := bs))
            | None \<Rightarrow> (True, p))
      else rearrange_with candidate_od pos ilist p)"

fun rearrange_attempts :: "string option list \<Rightarrow> nat \<Rightarrow> nat list \<Rightarrow> patterns \<Rightarrow> bool \<times> patterns" where
  "rearrange_attempts [] pos ilist p = (True, p)"
| "rearrange_attempts (c # cs) pos ilist p =
     (case rearrange_with c pos ilist p of
        (retry, p) \<Rightarrow> if retry then rearrange_attempts cs pos ilist p else (False, p))"

fun same_od_now :: "patterns \<Rightarrow> nat \<Rightarrow> nat list \<Rightarrow> string option \<Rightarrow> bool" where
  "same_od_now p pos [] candidate_od = True"
| "same_od_now p pos (i # ilist) candidate_od =
     (if is_operand_decider (p i ! pos)
      then (if candidate_od = None then same_od_now p pos ilist (btoken (p i ! pos))
            else if candidate_od \<noteq> btoken (p i ! pos) then False
            else same_od_now p pos ilist candidate_od)
      else False)"

definition rearrange_at_conflict :: "nat list \<Rightarrow> nat \<Rightarrow> patterns \<Rightarrow> bool \<times> patterns" where
  "rearrange_at_conflict ilist pos p =
     (case candidate_ods p pos ilist [] of
        None \<Rightarrow> (False, p)
      | Some [] \<Rightarrow> (False, p)
      | Some (c # cs) \<Rightarrow>
          (case rearrange_attempts (c # cs) pos ilist p of
             (retry, p) \<Rightarrow>
               if retry then (False, p)
               else if same_od_now p pos ilist None then (True, renumber_bitpos ilist p)
               else (False, p)))"

section \<open>Partitioning by operand deciders\<close>

text \<open>
  A part is a list of instructions, or, under \<open>other\<close>, a list of pairs of the values left by a
  not-equals decider and its instruction.
\<close>

datatype part_entry = Plain nat | Trimmed "int list" nat

type_synonym parts = "(edge, part_entry list) dict"

fun entry_instruction :: "part_entry \<Rightarrow> nat" where
  "entry_instruction (Plain i) = i"
| "entry_instruction (Trimmed tv i) = i"

fun collect_required_values ::
  "patterns \<Rightarrow> nat list \<Rightarrow> nat \<Rightarrow> int list \<Rightarrow> int list res" where
  "collect_required_values p [] pos d = Inr d"
| "collect_required_values p (i # ilist) pos d =
     rbind (bit_at p pos i) (\<lambda>b.
       if \<not> is_operand_decider b then Inl (Die ''Died looking for an operand decider'')
       else collect_required_values p ilist pos
              (if btest b = Some OdEq \<and> requirement_of b \<notin> set d then d @ [requirement_of b] else d))"

text \<open>
  All values of a token.  For an enumeration that is not in the state space the variable that is
  to hold them is never set; a negative shift and a missing operand end in the handler.
\<close>

definition od_values :: "grammar \<Rightarrow> string \<Rightarrow> int list res" where
  "od_values g token =
     (case map_of (state_space g) token of
        Some vs \<Rightarrow> Inr vs
      | None \<Rightarrow>
          (case map_of (storage_dict g) token of
             None \<Rightarrow> Inl (Die ''could not find token in state space dictionary'')
           | Some osf \<Rightarrow>
               if str_in ''enum'' (ctype osf) then Inl UnboundLocalError
               else if bitwidth osf < 0
               then Inl (Die ''could not find token in state space dictionary'')
               else Inr (map int [0..<2 ^ nat (bitwidth osf)])))"

definition add_part :: "edge \<Rightarrow> part_entry \<Rightarrow> parts \<Rightarrow> parts" where
  "add_part k x d = dset k (dget_default d k [] @ [x]) d"

definition trim :: "bit_info \<Rightarrow> int list \<Rightarrow> int list" where
  "trim b vs = filter (\<lambda>x. x \<noteq> requirement_of b) vs"

definition partition_one ::
  "grammar \<Rightarrow> patterns \<Rightarrow> nat \<Rightarrow> string option \<Rightarrow> nat \<Rightarrow> parts \<times> (int, bool) dict
     \<Rightarrow> (parts \<times> (int, bool) dict) res" where
  "partition_one g p pos token i st =
     (case st of (d, all_values) \<Rightarrow>
        rbind (bit_at p pos i) (\<lambda>b.
          if \<not> is_operand_decider b then Inl (Die ''THIS DOES NOT HAPPEN'')
          else if btoken b \<noteq> token then Inl (Die ''Mixed partitionings of operand_deciders'')
          else if btest b = Some OdEq
          then Inr (add_part (ENum (requirement_of b)) (Plain i) d,
                    dset (requirement_of b) True all_values)
          else if btest b = Some OdNe
          then rbind (od_values g (token_of b)) (\<lambda>vs.
                 if trim b vs = []
                 then Inl (Die ''We had a not-equals requirement but did not have any other values'')
                 else Inr (add_part (EStr ''other'') (Trimmed (trim b vs) i) d,
                           fold (\<lambda>a. dset a True) vs all_values))
          else Inr (d, all_values)))"

definition partition_by_required_values ::
  "grammar \<Rightarrow> patterns \<Rightarrow> nat list \<Rightarrow> nat \<Rightarrow> string option \<Rightarrow> (parts \<times> int list) res" where
  "partition_by_required_values g p ilist pos token =
     rbind (foldM (partition_one g p pos token) ilist ([], [])) (\<lambda>(d, all_values).
       Inr (d, dkeys all_values))"

text \<open>
  The scan for differing \<open>other\<close> conditions: whether it found one, the set of values of the first
  one, and the keys of the scalar parts.
\<close>

fun scan_trimmed :: "part_entry list \<Rightarrow> int set option \<Rightarrow> bool \<times> int set option" where
  "scan_trimmed [] previous = (False, previous)"
| "scan_trimmed (Plain i # r) previous = scan_trimmed r previous"
| "scan_trimmed (Trimmed tv i # r) previous =
     (let prev = (case previous of None \<Rightarrow> set tv | Some q \<Rightarrow> q)
      in if set tv \<noteq> prev then (True, Some prev) else scan_trimmed r (Some prev))"

definition is_tuple_part :: "part_entry list \<Rightarrow> bool" where
  "is_tuple_part part = (case part of Trimmed tv i # r \<Rightarrow> True | _ \<Rightarrow> False)"

fun splatter_scan ::
  "parts \<Rightarrow> bool \<Rightarrow> int set option \<Rightarrow> edge set \<Rightarrow> bool \<times> int set option \<times> edge set" where
  "splatter_scan [] need previous scalars = (need, previous, scalars)"
| "splatter_scan ((k, part) # parts) need previous scalars =
     (if is_tuple_part part
      then (case scan_trimmed part previous of
              (differ, previous) \<Rightarrow> splatter_scan parts (need \<or> differ) previous scalars)
      else splatter_scan parts need previous (insert k scalars))"

definition need_to_splatter :: "parts \<Rightarrow> bool" where
  "need_to_splatter parts =
     (case splatter_scan parts False None {} of
        (need, previous, scalars) \<Rightarrow>
          need \<or> (case previous of None \<Rightarrow> False | Some q \<Rightarrow> scalars \<inter> ENum ` q \<noteq> {}))"

definition extend_part :: "edge \<Rightarrow> part_entry list \<Rightarrow> parts \<Rightarrow> parts" where
  "extend_part k xs d = dset k (dget_default d k [] @ xs) d"

fun splatter_entry :: "part_entry \<Rightarrow> parts \<Rightarrow> parts" where
  "splatter_entry (Trimmed tv i) d = fold (\<lambda>v. extend_part (ENum v) [Plain i]) tv d"
| "splatter_entry (Plain i) d = d"

definition splatter_part :: "edge \<times> part_entry list \<Rightarrow> parts \<Rightarrow> parts" where
  "splatter_part kp d =
     (case kp of (k, part) \<Rightarrow>
        if is_tuple_part part then fold splatter_entry part d else extend_part k part d)"

definition splatter :: "parts \<Rightarrow> parts" where
  "splatter parts = fold splatter_part parts []"

section \<open>Building\<close>

type_synonym builder = "nat \<Rightarrow> nat \<Rightarrow> graph_node \<Rightarrow> graph_state \<Rightarrow> (gtree \<times> graph_state) res"

text \<open>
  The recursive call is a parameter \<open>build\<close> of the cases; its first argument is the position after
  the increment at the beginning of \<open>build_sub_graph\<close>, its second the number of skipped bits.
\<close>

fun build_children ::
  "(graph_node \<Rightarrow> graph_state \<Rightarrow> (gtree \<times> graph_state) res) \<Rightarrow> (edge \<times> graph_node) list
     \<Rightarrow> graph_state \<Rightarrow> ((edge \<times> gtree) list \<times> graph_state) res" where
  "build_children build [] st = Inr ([], st)"
| "build_children build ((k, n) # ns) st =
     rbind (build n st) (\<lambda>(t, st).
     rbind (build_children build ns st) (\<lambda>(ts, st). Inr ((k, t) # ts, st)))"

text \<open>A child on a bit or after a nonterminal: made, given its instructions, and built.\<close>

definition bit_child ::
  "(graph_node \<Rightarrow> graph_state \<Rightarrow> (gtree \<times> graph_state) res) \<Rightarrow> nat \<Rightarrow> edge \<Rightarrow> nat list
     \<Rightarrow> graph_state \<Rightarrow> (gtree \<times> graph_state) res" where
  "bit_child build bitpos token ilist st =
     (case graph_node_new token bitpos st of
        (n, st) \<Rightarrow> build (n\<lparr>node_instructions := ilist\<rparr>) st)"

fun bit_children ::
  "(graph_node \<Rightarrow> graph_state \<Rightarrow> (gtree \<times> graph_state) res) \<Rightarrow> nat \<Rightarrow> (edge \<times> nat list) list
     \<Rightarrow> graph_state \<Rightarrow> ((edge \<times> gtree) list \<times> graph_state) res" where
  "bit_children build bitpos [] st = Inr ([], st)"
| "bit_children build bitpos ((k, ilist) # ks) st =
     rbind (bit_child build bitpos k ilist st) (\<lambda>(t, st).
     rbind (bit_children build bitpos ks st) (\<lambda>(ts, st). Inr ((k, t) # ts, st)))"

text \<open>The position before \<open>pos\<close>, modulo 8, is that of \<open>pos + 7\<close>.\<close>

definition back_split_graph ::
  "builder \<Rightarrow> graph_node \<Rightarrow> nat \<Rightarrow> nat \<Rightarrow> nat \<Rightarrow> graph_state \<Rightarrow> (gtree \<times> graph_state) res" where
  "back_split_graph build node pos skipped splitpos st =
     rbind (partition_nodes (pats st) (node_instructions node) splitpos) (\<lambda>(ones, zeros, others).
       if others \<noteq> [] then Inl (Die ''We encountered some junk on a back-split'')
       else if zeros = [] then Inl (Die ''We did not have any zeros in the back-split partition'')
       else if ones = [] then Inl (Die ''We did not have any ones in the back-split partition'')
       else rbind (convert_splitpos_to_bit_index (pats st) (node_instructions node) splitpos) (\<lambda>r.
            rbind (bit_children (build pos 0) (pos + 7) [(EStr ''0'', zeros), (EStr ''1'', ones)] st)
              (\<lambda>(ts, st). Inr (GNode (node\<lparr>skipped_bits := skipped, decider_bits := 1,
                                      back_split_pos := Some r\<rparr>) ts, st))))"

definition back_split ::
  "builder \<Rightarrow> graph_node \<Rightarrow> nat \<Rightarrow> nat \<Rightarrow> string \<Rightarrow> graph_state \<Rightarrow> (gtree \<times> graph_state) res" where
  "back_split build node pos skipped msg st =
     rbind (scan_backwards_for_distinguishing_bit (pats st) (node_instructions node) pos) (\<lambda>r.
       case r of None \<Rightarrow> Inl (Die msg)
       | Some splitpos \<Rightarrow> back_split_graph build node pos skipped splitpos st)"

definition fill_node :: "graph_node \<Rightarrow> part_entry list \<Rightarrow> graph_node" where
  "fill_node n part =
     fold (\<lambda>x n. case x of
             Plain i \<Rightarrow> n\<lparr>node_instructions := node_instructions n @ [i]\<rparr>
           | Trimmed tv i \<Rightarrow> n\<lparr>trimmed_values := Some tv,
                               node_instructions := node_instructions n @ [i]\<rparr>) part n"

fun make_od_children ::
  "nat \<Rightarrow> parts \<Rightarrow> graph_state \<Rightarrow> ((edge \<times> graph_node) list \<times> graph_state) res" where
  "make_od_children pos [] st = Inr ([], st)"
| "make_od_children pos ((k, part) # parts) st =
     (case graph_node_new k pos st of
        (n, st) \<Rightarrow>
          if \<not> is_tuple_part part \<and> k = EStr ''XED'' then Inl (Die ''Bad operand decider'')
          else rbind (make_od_children pos parts st) (\<lambda>(ns, st). Inr ((k, fill_node n part) # ns, st)))"

definition decider_branch ::
  "grammar \<Rightarrow> builder \<Rightarrow> graph_node \<Rightarrow> nat \<Rightarrow> nat \<Rightarrow> bit_info \<Rightarrow> graph_state
     \<Rightarrow> (gtree \<times> graph_state) res" where
  "decider_branch g build node pos skipped od st =
     rbind (collect_required_values (pats st) (node_instructions node) pos []) (\<lambda>required_values.
     rbind (partition_by_required_values g (pats st) (node_instructions node) pos (btoken od))
       (\<lambda>(parts, values).
     rbind (make_od_children pos (if need_to_splatter parts then splatter parts else parts) st)
       (\<lambda>(ns, st).
     rbind (build_children (build (Suc pos) 0) ns st) (\<lambda>(ts, st).
       Inr (GNode (node\<lparr>node_decider := Some od, skipped_bits := skipped,
                        child_od_key_values := Some values\<rparr>) ts, st)))))"

definition nonterminal_branch ::
  "builder \<Rightarrow> graph_node \<Rightarrow> nat \<Rightarrow> nat \<Rightarrow> bit_info \<Rightarrow> graph_state \<Rightarrow> (gtree \<times> graph_state) res" where
  "nonterminal_branch build node pos skipped nt st =
     rbind (bit_children (build (Suc pos) 0) pos [(EStr ''-'', node_instructions node)] st) (\<lambda>(ts, st).
       Inr (GNode (node\<lparr>node_nonterminal := Some nt, skipped_bits := skipped\<rparr>) ts, st))"

text \<open>After the splitting loop: the bit itself, unless some pattern does not care.\<close>

definition bit_branch ::
  "builder \<Rightarrow> graph_node \<Rightarrow> nat \<Rightarrow> nat \<Rightarrow> graph_state \<Rightarrow> (gtree \<times> graph_state) res" where
  "bit_branch build node pos skipped st =
     rbind (partition_nodes (pats st) (node_instructions node) pos) (\<lambda>(ones, zeros, others).
       if others \<noteq> [] then build (Suc pos) (Suc skipped) node st
       else
         let ks = (if ones \<noteq> [] \<and> zeros = [] then [(EStr ''1'', ones)]
                   else if ones = [] \<and> zeros \<noteq> [] then [(EStr ''0'', zeros)]
                   else [(EStr ''0'', zeros), (EStr ''1'', ones)])
         in rbind (bit_children (build (Suc pos) 0) pos ks st) (\<lambda>(ts, st).
              Inr (GNode (node\<lparr>skipped_bits := skipped, decider_bits := 1\<rparr>) ts, st)))"

text \<open>The splitting loop; the first argument is the number of iterations left of the two allowed.\<close>

fun split_loop ::
  "nat \<Rightarrow> grammar \<Rightarrow> builder \<Rightarrow> graph_node \<Rightarrow> nat \<Rightarrow> nat \<Rightarrow> graph_state \<Rightarrow> (gtree \<times> graph_state) res"
where
  "split_loop 0 g build node pos skipped st =
     Inl (Die ''We should not be trying to resplit things more than once'')"
| "split_loop (Suc n) g build node pos skipped st =
     (let ilist = node_instructions node
      in case all_same_operand_decider (pats st) ilist pos of
           Some od \<Rightarrow> decider_branch g build node pos skipped od st
         | None \<Rightarrow>
             (case all_same_nonterminal (pats st) ilist pos of
                Some nt \<Rightarrow> nonterminal_branch build node pos skipped nt st
              | None \<Rightarrow>
                  rbind (partition_nodes (pats st) ilist pos) (\<lambda>split.
                    if some_funky_spot (pats st) ilist pos
                    then (case rearrange_at_conflict ilist pos (pats st) of
                            (ok, p) \<Rightarrow>
                              if ok then split_loop n g build node pos skipped (st\<lparr>pats := p\<rparr>)
                              else back_split build node pos skipped
                                     ''Look-ahead error - only some are nonterminal at next bit position''
                                     (st\<lparr>pats := p\<rparr>))
                    else bit_branch build node pos skipped st)))"

definition build_sub_graph_step :: "grammar \<Rightarrow> builder \<Rightarrow> builder" where
  "build_sub_graph_step g build pos skipped node st =
     (let ilist = node_instructions node;
          at_end = at_end_of_instructions (pats st) ilist pos
      in if at_end = 1
         then (if length ilist > 1
               then back_split build node pos skipped
                      ''BUILD ERROR: more than one leaf when ran out of bits.'' st
               else Inr (GNode (node\<lparr>skipped_bits := skipped\<rparr>) [], st))
         else if at_end = -1
         then back_split build node pos skipped ''Back-split failed to solve ending problem'' st
         else split_loop 2 g build node pos skipped st)"

text \<open>The first argument bounds the depth of the recursion, as Python's limit does.\<close>

primrec build_sub_graph :: "nat \<Rightarrow> grammar \<Rightarrow> builder" where
  "build_sub_graph 0 g = (\<lambda>pos skipped node st. Inl RecursionError)"
| "build_sub_graph (Suc limit) g = build_sub_graph_step g (build_sub_graph limit g)"

definition build_graph ::
  "nat \<Rightarrow> grammar \<Rightarrow> string \<Rightarrow> nat list \<Rightarrow> graph_state \<Rightarrow> (gtree \<times> graph_state) res" where
  "build_graph limit g nt_name ilist st =
     (case graph_node_new (EStr nt_name) 0 st of
        (n, st) \<Rightarrow> build_sub_graph limit g 0 0 (n\<lparr>node_instructions := ilist\<rparr>) st)"

section \<open>What a graph decides\<close>

text \<open>
  An input gives every operand a value and every element of a pattern that is not an operand
  decider a bit (the one at a nonterminal is not looked at).  A pattern accepts it if its deciders
  hold and its literal bits agree; a not-equals decider needs one of the operand's other values.
\<close>

definition od_holds :: "grammar \<Rightarrow> (string \<Rightarrow> int) \<Rightarrow> bit_info \<Rightarrow> bool" where
  "od_holds g env b \<longleftrightarrow>
     (if btest b = Some OdEq then env (token_of b) = requirement_of b
      else (case od_values g (token_of b) of
              Inl e \<Rightarrow> False | Inr vs \<Rightarrow> env (token_of b) \<in> set (trim b vs)))"

abbreviation real_bits :: "bit_info list \<Rightarrow> bit_info list" where
  "real_bits \<equiv> filter (\<lambda>b. \<not> is_operand_decider b)"

definition bit_agrees :: "bit_info \<Rightarrow> bool \<Rightarrow> bool" where
  "bit_agrees b x \<longleftrightarrow> (bvalue b = ''0'' \<longrightarrow> \<not> x) \<and> (bvalue b = ''1'' \<longrightarrow> x)"

fun bits_agree :: "(nat \<Rightarrow> bool) \<Rightarrow> nat \<Rightarrow> bit_info list \<Rightarrow> bool" where
  "bits_agree inp r [] = True"
| "bits_agree inp r (b # bs) = (bit_agrees b (inp r) \<and> bits_agree inp (Suc r) bs)"

definition accepts :: "grammar \<Rightarrow> (string \<Rightarrow> int) \<Rightarrow> (nat \<Rightarrow> bool) \<Rightarrow> bit_info list \<Rightarrow> bool" where
  "accepts g env inp bs \<longleftrightarrow>
     list_all (\<lambda>b. is_operand_decider b \<longrightarrow> od_holds g env b) bs \<and> bits_agree inp 0 (real_bits bs)"

text \<open>
  The walk an input takes: past the skipped bits, then by the operand's value (or \<open>other\<close>), past
  the nonterminal, or by the next \<open>decider_bits\<close> bits, the first of which is an earlier one at a
  back-split.
\<close>

definition bit_char :: "bool \<Rightarrow> char" where
  "bit_char x = (if x then CHR ''1'' else CHR ''0'')"

definition od_key :: "int \<Rightarrow> edge list \<Rightarrow> edge" where
  "od_key v keys = (if ENum v \<in> set keys then ENum v else EStr ''other'')"

definition walk_edge ::
  "(string \<Rightarrow> int) \<Rightarrow> (nat \<Rightarrow> bool) \<Rightarrow> graph_node \<Rightarrow> edge list \<Rightarrow> nat \<Rightarrow> edge \<times> nat" where
  "walk_edge env inp n keys r =
     (case node_decider n of
        Some od \<Rightarrow> (od_key (env (token_of od)) keys, r)
      | None \<Rightarrow> (case node_nonterminal n of
                   Some nt \<Rightarrow> (EStr ''-'', Suc r)
                 | None \<Rightarrow> (case back_split_pos n of
                     Some b \<Rightarrow> (EStr (bit_char (inp b) # map (bit_char \<circ> inp) [r..<r + decider_bits n - 1]),
                               r + decider_bits n - 1)
                   | None \<Rightarrow> (EStr (map (bit_char \<circ> inp) [r..<r + decider_bits n]), r + decider_bits n))))"

lemma kid_size [termination_simp]:
  "map_of ks k = Some t \<Longrightarrow> size t < Suc (size_list (\<lambda>x. Suc (size (snd x))) ks)"
  by (induction ks) (auto split: if_splits)

fun walk :: "(string \<Rightarrow> int) \<Rightarrow> (nat \<Rightarrow> bool) \<Rightarrow> gtree \<Rightarrow> nat \<Rightarrow> nat list option" where
  "walk env inp (GNode n ks) r =
     (if ks = [] then Some (node_instructions n)
      else (case walk_edge env inp n (dkeys ks) (r + skipped_bits n) of
              (k, r) \<Rightarrow> (case map_of ks k of None \<Rightarrow> None | Some t \<Rightarrow> walk env inp t r)))"

declare walk.simps [simp del]

section \<open>Rearrangement keeps what a pattern accepts\<close>

text \<open>
  Up to the position numbers, the elements stay the same, the part before the position is
  untouched, and the elements that are not operand deciders keep their order.
\<close>

definition strip_pbit :: "bit_info \<Rightarrow> bit_info" where
  "strip_pbit b = b\<lparr>pbit := 0\<rparr>"

lemma strip_pbit_sel [simp]:
  "btype (strip_pbit b) = btype b" "bvalue (strip_pbit b) = bvalue b"
  "btoken (strip_pbit b) = btoken b" "btest (strip_pbit b) = btest b"
  "brequirement (strip_pbit b) = brequirement b" "strip_pbit (b\<lparr>pbit := k\<rparr>) = strip_pbit b"
  by (simp_all add: strip_pbit_def)

lemma strip_pbit_ops [simp]:
  "is_operand_decider (strip_pbit b) = is_operand_decider b"
  "token_of (strip_pbit b) = token_of b" "requirement_of (strip_pbit b) = requirement_of b"
  "bit_agrees (strip_pbit b) x = bit_agrees b x"
  by (simp_all add: is_operand_decider_def token_of_def requirement_of_def bit_agrees_def)

lemma strip_pbit_trim [simp]: "trim (strip_pbit b) = trim b"
  by (simp add: trim_def fun_eq_iff)

lemma strip_pbit_holds [simp]: "od_holds g env (strip_pbit b) = od_holds g env b"
  by (simp add: od_holds_def split: sum.split)

definition same_from :: "nat \<Rightarrow> bit_info list \<Rightarrow> bit_info list \<Rightarrow> bool" where
  "same_from pos bs bs' \<longleftrightarrow>
     mset (map strip_pbit bs') = mset (map strip_pbit bs) \<and>
     map strip_pbit (take pos bs') = map strip_pbit (take pos bs) \<and>
     map strip_pbit (real_bits bs') = map strip_pbit (real_bits bs)"

lemma same_from_refl [simp]: "same_from pos bs bs"
  by (simp add: same_from_def)

lemma same_from_trans: "same_from pos a b \<Longrightarrow> same_from pos b c \<Longrightarrow> same_from pos a c"
  by (simp add: same_from_def)

lemma same_from_mono: "same_from pos a b \<Longrightarrow> pos' \<le> pos \<Longrightarrow> same_from pos' a b"
  unfolding same_from_def by (metis min.absorb1 take_map take_take)

lemma same_from_length: "same_from pos a b \<Longrightarrow> length b = length a"
  unfolding same_from_def by (metis mset_eq_length length_map)

lemma bits_agree_strip: "bits_agree inp r (map strip_pbit bs) = bits_agree inp r bs"
  by (induction bs arbitrary: r) simp_all

lemma same_from_accepts:
  assumes "same_from pos a b"
  shows "accepts g env inp b \<longleftrightarrow> accepts g env inp a"
proof -
  let ?P = "\<lambda>b. is_operand_decider b \<longrightarrow> od_holds g env b"
  have all: "list_all ?P xs \<longleftrightarrow> (\<forall>x \<in> set (map strip_pbit xs). ?P x)" for xs
    by (simp add: list_all_iff)
  have "set (map strip_pbit b) = set (map strip_pbit a)"
    using assms unfolding same_from_def by (metis set_mset_mset)
  then have "list_all ?P b \<longleftrightarrow> list_all ?P a" unfolding all by (simp only:)
  moreover have "bits_agree inp 0 (real_bits b) \<longleftrightarrow> bits_agree inp 0 (real_bits a)"
    using assms bits_agree_strip [of inp 0 "real_bits a"] bits_agree_strip [of inp 0 "real_bits b"]
    by (simp add: same_from_def)
  ultimately show ?thesis by (simp add: accepts_def)
qed

lemma move_same_from:
  assumes "move_candidate_od_to_front pos c bs = Some bs'"
  shows "same_from pos bs bs'"
proof -
  let ?ks = "filter (\<lambda>k. is_operand_decider (bs ! k) \<and> btoken (bs ! k) = c) [Suc pos..<length bs]"
  from assms have ne: "?ks \<noteq> []" by (auto simp: move_candidate_od_to_front_def)
  then have mem: "last ?ks \<in> set ?ks" by (rule last_in_set)
  define k where "k = last ?ks"
  with mem have k: "pos < k" "k < length bs" "is_operand_decider (bs ! k)" by auto
  have bs': "bs' = take pos bs @ bs ! k # drop pos (take k bs @ drop (Suc k) bs)"
    using assms ne k by (cases ?ks) (auto simp: move_candidate_od_to_front_def k_def min_def Let_def)
  also have "\<dots> = take pos bs @ bs ! k # (drop pos (take k bs) @ drop (Suc k) bs)"
    using k by simp
  finally have bs': "bs' = take pos bs @ bs ! k # drop pos (take k bs) @ drop (Suc k) bs" by simp
  have "take k bs = take pos bs @ drop pos (take k bs)"
    using k append_take_drop_id [of pos "take k bs"] by (simp add: min_def)
  then have bs: "bs = take pos bs @ drop pos (take k bs) @ bs ! k # drop (Suc k) bs"
    using id_take_nth_drop [OF k(2)] by (metis append.assoc)
  have "mset bs' = mset bs" by (subst bs, subst bs') simp
  moreover have "take pos bs' = take pos bs" using k by (simp add: bs')
  moreover have "real_bits bs' = real_bits bs" by (subst bs, subst bs') (simp add: k(3))
  ultimately show ?thesis by (simp add: same_from_def)
qed

lemma renumber_one_strip: "map strip_pbit (renumber_one_ipattern bs) = map strip_pbit bs"
  by (rule nth_equalityI) (simp_all add: renumber_one_ipattern_def)


lemma same_fromI:
  assumes "map strip_pbit bs' = map strip_pbit bs"
  shows "same_from pos bs bs'"
proof -
  have "map strip_pbit (real_bits xs) = real_bits (map strip_pbit xs)" for xs
    by (simp add: filter_map comp_def)
  with assms show ?thesis by (simp only: same_from_def take_map [symmetric])
qed

text \<open>The same for all patterns of the state.\<close>

definition stores_same :: "nat \<Rightarrow> patterns \<Rightarrow> patterns \<Rightarrow> bool" where
  "stores_same pos p p' \<longleftrightarrow> (\<forall>i. same_from pos (p i) (p' i))"

lemma stores_same_refl [simp]: "stores_same pos p p"
  by (simp add: stores_same_def)

lemma stores_same_trans [trans]:
  "stores_same pos p q \<Longrightarrow> stores_same pos q r \<Longrightarrow> stores_same pos p r"
  unfolding stores_same_def by (blast intro: same_from_trans)

lemma stores_same_mono: "stores_same pos p q \<Longrightarrow> pos' \<le> pos \<Longrightarrow> stores_same pos' p q"
  unfolding stores_same_def by (blast intro: same_from_mono)

lemma stores_same_length: "stores_same pos p q \<Longrightarrow> length (q i) = length (p i)"
  by (rule same_from_length [of pos]) (simp add: stores_same_def)

lemma stores_same_upd: "same_from pos (p i) bs \<Longrightarrow> stores_same pos p (p(i := bs))"
  by (simp add: stores_same_def)

lemma rearrange_with_same:
  "rearrange_with c pos ilist p = (b, p') \<Longrightarrow> stores_same pos p p'"
proof (induction c pos ilist p rule: rearrange_with.induct)
  case (1 c pos p)
  then show ?case by simp
next
  case (2 c pos i ilist p)
  then show ?case
    by (auto simp del: fun_upd_apply split: if_splits option.splits
        intro: stores_same_trans [OF stores_same_upd [OF move_same_from]])
qed

lemma rearrange_attempts_same:
  "rearrange_attempts cs pos ilist p = (b, p') \<Longrightarrow> stores_same pos p p'"
  by (induction cs arbitrary: p)
    (auto split: prod.splits if_splits dest!: rearrange_with_same intro: stores_same_trans)

lemma renumber_bitpos_same: "stores_same pos p (renumber_bitpos ilist p)"
proof (induction ilist arbitrary: p)
  case Nil
  then show ?case by (simp add: renumber_bitpos_def)
next
  case (Cons i ilist)
  have "stores_same pos p (p(i := renumber_one_ipattern (p i)))"
    by (intro stores_same_upd same_fromI renumber_one_strip)
  from stores_same_trans [OF this Cons] show ?case
    by (simp add: renumber_bitpos_def del: fun_upd_apply)
qed

lemma rearrange_at_conflict_same:
  "rearrange_at_conflict ilist pos p = (b, p') \<Longrightarrow> stores_same pos p p'"
  by (auto simp: rearrange_at_conflict_def simp del: rearrange_attempts.simps
      split: option.splits list.splits prod.splits if_splits
      dest!: rearrange_attempts_same intro: stores_same_trans renumber_bitpos_same)

section \<open>The parts of a decider node\<close>

text \<open>
  For instructions with deciders of one token at the position, the parts are exactly what the
  deciders ask for.
\<close>

definition entry_ok :: "grammar \<Rightarrow> patterns \<Rightarrow> nat \<Rightarrow> edge \<Rightarrow> part_entry \<Rightarrow> bool" where
  "entry_ok g p pos k x \<longleftrightarrow>
     (case x of
        Plain i \<Rightarrow> btest (p i ! pos) = Some OdEq \<and> k = ENum (requirement_of (p i ! pos))
      | Trimmed tv i \<Rightarrow>
          btest (p i ! pos) = Some OdNe \<and> k = EStr ''other'' \<and>
          (\<exists>vs. od_values g (token_of (p i ! pos)) = Inr vs \<and> tv = trim (p i ! pos) vs))"

definition parts_ok :: "grammar \<Rightarrow> patterns \<Rightarrow> nat \<Rightarrow> nat set \<Rightarrow> parts \<Rightarrow> bool" where
  "parts_ok g p pos I d \<longleftrightarrow>
     dict_ok d \<and>
     (\<forall>(k, part) \<in> set d. part \<noteq> [] \<and> (\<forall>x \<in> set part. entry_ok g p pos k x \<and> entry_instruction x \<in> I)) \<and>
     (\<forall>i \<in> I. \<exists>k part. map_of d k = Some part \<and> i \<in> entry_instruction ` set part)"

lemma parts_okD:
  assumes "parts_ok g p pos I d"
  shows "dict_ok d"
    and "map_of d k = Some part \<Longrightarrow> part \<noteq> []"
    and "map_of d k = Some part \<Longrightarrow> x \<in> set part \<Longrightarrow> entry_ok g p pos k x \<and> entry_instruction x \<in> I"
    and "i \<in> I \<Longrightarrow> \<exists>k part. map_of d k = Some part \<and> i \<in> entry_instruction ` set part"
  using assms by (auto simp: parts_ok_def dest!: map_of_SomeD)

lemma parts_ok_add:
  assumes ok: "parts_ok g p pos I d" and new: "entry_ok g p pos k x" "entry_instruction x = i"
  shows "parts_ok g p pos (insert i I) (add_part k x d)"
proof -
  have m: "map_of (add_part k x d) = (map_of d)(k \<mapsto> dget_default d k [] @ [x])"
    by (simp add: add_part_def)
  have dk: "dict_ok (add_part k x d)" using parts_okD(1) [OF ok] by (simp add: add_part_def)
  have "part \<noteq> [] \<and> (\<forall>y \<in> set part. entry_ok g p pos k' y \<and> entry_instruction y \<in> insert i I)"
    if "(k', part) \<in> set (add_part k x d)" for k' part
  proof (cases "k' = k")
    case True
    with that dk m have "part = dget_default d k [] @ [x]" by (simp flip: dict_ok_map_of_iff)
    with True new parts_okD(3) [OF ok, of k] show ?thesis
      by (auto simp: dget_default_def split: option.splits)
  next
    case False
    with that dk m have "map_of d k' = Some part" by (simp flip: dict_ok_map_of_iff)
    with parts_okD(2,3) [OF ok] show ?thesis by blast
  qed
  moreover have "\<exists>k' part. map_of (add_part k x d) k' = Some part \<and> j \<in> entry_instruction ` set part"
    if "j \<in> insert i I" for j
  proof (cases "j = i")
    case True
    then show ?thesis using new(2) by (intro exI [of _ k]) (simp add: m)
  next
    case False
    with that parts_okD(4) [OF ok] obtain k' part where
      "map_of d k' = Some part" "j \<in> entry_instruction ` set part" by blast
    then show ?thesis
      by (cases "k' = k") (auto simp: m dget_default_def intro!: exI [of _ k'])
  qed
  ultimately show ?thesis using dk by (auto simp: parts_ok_def)
qed

lemma partition_by_required_values_ok:
  assumes "partition_by_required_values g p ilist pos token = Inr (d, vals)"
    and "\<forall>i \<in> set ilist. btest (p i ! pos) \<noteq> None"
  shows "parts_ok g p pos (set ilist) d"
proof -
  have step: "parts_ok g p pos (insert i I) d'"
    if one: "partition_one g p pos token i (d, vs) = Inr (d', vs')"
      and ok: "parts_ok g p pos I d" and some: "btest (p i ! pos) \<noteq> None"
    for i I d and vs :: "(int, bool) dict" and d' and vs' :: "(int, bool) dict"
  proof -
    have ot: "t = OdEq \<or> t = OdNe" for t by (cases t) auto
    consider "d' = add_part (ENum (requirement_of (p i ! pos))) (Plain i) d" "btest (p i ! pos) = Some OdEq"
      | ws where "d' = add_part (EStr ''other'') (Trimmed (trim (p i ! pos) ws) i) d"
          "od_values g (token_of (p i ! pos)) = Inr ws" "btest (p i ! pos) = Some OdNe"
      using one some ot
      by (auto simp: partition_one_def rbind_eq_Inr bit_at_def split: if_splits)
    then show ?thesis
      by cases (auto intro!: parts_ok_add ok simp: entry_ok_def)
  qed
  have "parts_ok g p pos (I \<union> set ilist) d'"
    if "foldM (partition_one g p pos token) ilist (d, vs) = Inr (d', vs')" "parts_ok g p pos I d"
      "\<forall>i \<in> set ilist. btest (p i ! pos) \<noteq> None" for I d vs d' vs'
    using that
  proof (induction ilist arbitrary: I d vs)
    case Nil
    then show ?case by simp
  next
    case (Cons i ilist)
    from Cons.prems(1) obtain d1 vs1 where
      one: "partition_one g p pos token i (d, vs) = Inr (d1, vs1)" and
      rest: "foldM (partition_one g p pos token) ilist (d1, vs1) = Inr (d', vs')"
      by (auto simp: rbind_eq_Inr)
    have "parts_ok g p pos (insert i I \<union> set ilist) d'"
      using Cons.prems by (intro Cons.IH [OF rest] step [OF one]) auto
    then show ?case by simp
  qed
  note fold = this
  obtain vs where "foldM (partition_one g p pos token) ilist ([], []) = Inr (d, vs)"
    using assms(1) by (auto simp: partition_by_required_values_def rbind_eq_Inr)
  moreover have "parts_ok g p pos {} []" by (simp add: parts_ok_def)
  ultimately show ?thesis using fold assms(2) by fastforce
qed

lemma is_tuple_part_iff:
  assumes "part \<noteq> []" and "\<forall>x \<in> set part. entry_ok g p pos k x"
  shows "is_tuple_part part \<longleftrightarrow> k = EStr ''other''"
  using assms by (cases part) (auto simp: is_tuple_part_def entry_ok_def split: part_entry.splits)

lemma scan_trimmed_False:
  "scan_trimmed part previous = (False, prev') \<Longrightarrow>
   (\<forall>tv i. Trimmed tv i \<in> set part \<longrightarrow> prev' = Some (set tv)) \<and>
   (previous \<noteq> None \<longrightarrow> prev' = previous)"
  by (induction part previous rule: scan_trimmed.induct)
    (auto simp: Let_def split: if_splits option.splits)

lemma splatter_scan_False:
  "splatter_scan parts need previous scalars = (False, prev', scalars') \<Longrightarrow>
   \<not> need \<and> (previous \<noteq> None \<longrightarrow> prev' = previous) \<and> scalars \<subseteq> scalars' \<and>
   (\<forall>k part. (k, part) \<in> set parts \<longrightarrow>
      (is_tuple_part part \<longrightarrow> (\<forall>tv i. Trimmed tv i \<in> set part \<longrightarrow> prev' = Some (set tv))) \<and>
      (\<not> is_tuple_part part \<longrightarrow> k \<in> scalars'))"
proof (induction parts need previous scalars rule: splatter_scan.induct)
  case (1 need previous scalars)
  then show ?case by simp
next
  case (2 k part parts need previous scalars)
  show ?case
  proof (cases "is_tuple_part part")
    case True
    obtain differ q where q: "scan_trimmed part previous = (differ, q)" by (cases "scan_trimmed part previous")
    have IH: "\<not> (need \<or> differ) \<and> (q \<noteq> None \<longrightarrow> prev' = q) \<and> scalars \<subseteq> scalars' \<and>
        (\<forall>k part. (k, part) \<in> set parts \<longrightarrow>
          (is_tuple_part part \<longrightarrow> (\<forall>tv i. Trimmed tv i \<in> set part \<longrightarrow> prev' = Some (set tv))) \<and>
          (\<not> is_tuple_part part \<longrightarrow> k \<in> scalars'))"
      by (rule 2(1) [OF True q [symmetric]]) (use 2(3) True q in simp)
    then have "scan_trimmed part previous = (False, q)" using q by simp
    from scan_trimmed_False [OF this] IH True show ?thesis by auto
  next
    case False
    with 2 show ?thesis by auto
  qed
qed

text \<open>Without splattering, no value of a not-equals decider has a part of its own.\<close>

lemma other_not_scalar:
  assumes ok: "parts_ok g p pos I d" and need: "\<not> need_to_splatter d"
    and o: "map_of d (EStr ''other'') = Some part" "Trimmed tv i \<in> set part" "v \<in> set tv"
  shows "ENum v \<notin> set (dkeys d)"
proof
  assume "ENum v \<in> set (dkeys d)"
  then obtain part' where part': "map_of d (ENum v) = Some part'"
    by (metis map_of_eq_None_iff not_None_eq list.set_map)
  obtain prev scalars where scan: "splatter_scan d False None {} = (False, prev, scalars)"
    and none: "case prev of None \<Rightarrow> True | Some q \<Rightarrow> scalars \<inter> ENum ` q = {}"
    using need by (auto simp: need_to_splatter_def split: prod.splits option.splits)
  have "is_tuple_part part" "\<not> is_tuple_part part'"
    using is_tuple_part_iff [of part g p pos "EStr ''other''"] is_tuple_part_iff [of part' g p pos "ENum v"]
      parts_okD(2,3) [OF ok o(1)] parts_okD(2,3) [OF ok part'] by auto
  then have "prev = Some (set tv)" "ENum v \<in> scalars"
    using splatter_scan_False [OF scan] map_of_SomeD [OF o(1)] map_of_SomeD [OF part'] o(2) by blast+
  with none o(3) show False by auto
qed

lemma fold_adds:
  assumes "\<And>x d. x \<in> set xs \<Longrightarrow>
      set (dget_default (f x d) k []) = set (dget_default d k []) \<union> C x"
  shows "set (dget_default (fold f xs d) k []) = set (dget_default d k []) \<union> (\<Union>x \<in> set xs. C x)"
  using assms
proof (induction xs arbitrary: d)
  case Nil
  then show ?case by simp
next
  case (Cons x xs)
  then show ?case by (simp add: Un_assoc)
qed

lemma extend_part_set:
  "set (dget_default (extend_part k xs d) k' []) =
   set (dget_default d k' []) \<union> (if k = k' then set xs else {})"
  by (auto simp: extend_part_def dget_default_def)

definition entry_adds :: "part_entry \<Rightarrow> edge \<Rightarrow> part_entry set" where
  "entry_adds x k = (case x of Plain i \<Rightarrow> {} | Trimmed tv i \<Rightarrow> if k \<in> ENum ` set tv then {Plain i} else {})"

lemma splatter_entry_set:
  "set (dget_default (splatter_entry x d) k []) = set (dget_default d k []) \<union> entry_adds x k"
proof (cases x)
  case (Plain i)
  then show ?thesis by (simp add: entry_adds_def)
next
  case (Trimmed tv i)
  have "set (dget_default (fold (\<lambda>v. extend_part (ENum v) [Plain i]) tv d) k []) =
        set (dget_default d k []) \<union> (\<Union>v \<in> set tv. if ENum v = k then {Plain i} else {})"
    by (rule fold_adds) (simp add: extend_part_set)
  with Trimmed show ?thesis by (auto simp: entry_adds_def split: if_splits)
qed

definition part_adds :: "edge \<times> part_entry list \<Rightarrow> edge \<Rightarrow> part_entry set" where
  "part_adds kp k =
     (if is_tuple_part (snd kp) then (\<Union>x \<in> set (snd kp). entry_adds x k)
      else if fst kp = k then set (snd kp) else {})"

lemma splatter_part_set:
  "set (dget_default (splatter_part kp d) k []) = set (dget_default d k []) \<union> part_adds kp k"
  by (cases kp)
    (simp add: splatter_part_def part_adds_def extend_part_set fold_adds [OF splatter_entry_set])

lemma splatter_set: "set (dget_default (splatter parts) k []) = (\<Union>kp \<in> set parts. part_adds kp k)"
  unfolding splatter_def by (simp add: fold_adds [OF splatter_part_set])

text \<open>No part becomes empty.\<close>

definition parts_nonempty :: "parts \<Rightarrow> bool" where
  "parts_nonempty d \<longleftrightarrow> dict_ok d \<and> (\<forall>(k, part) \<in> set d. part \<noteq> [])"

lemma extend_part_nonempty: "parts_nonempty d \<Longrightarrow> xs \<noteq> [] \<Longrightarrow> parts_nonempty (extend_part k xs d)"
  using set_dset_subset [of k "dget_default d k [] @ xs" d]
  by (auto simp: parts_nonempty_def extend_part_def)

lemma fold_pred: "P d \<Longrightarrow> (\<And>x d. x \<in> set xs \<Longrightarrow> P d \<Longrightarrow> P (f x d)) \<Longrightarrow> P (fold f xs d)"
  by (induction xs arbitrary: d) auto

lemma splatter_nonempty:
  assumes "\<forall>(k, part) \<in> set parts. part \<noteq> []"
  shows "parts_nonempty (splatter parts)"
proof -
  have entry: "parts_nonempty (splatter_entry x d)" if "parts_nonempty d" for x d
  proof (cases x)
    case (Plain i)
    with that show ?thesis by simp
  next
    case (Trimmed tv i)
    have "parts_nonempty (fold (\<lambda>v. extend_part (ENum v) [Plain i]) tv d)"
      using that by (rule fold_pred) (rule extend_part_nonempty, assumption, simp)
    with Trimmed show ?thesis by simp
  qed
  have "parts_nonempty (splatter_part kp d)" if "kp \<in> set parts" "parts_nonempty d" for kp d
  proof (cases "is_tuple_part (snd kp)")
    case True
    have "parts_nonempty (fold splatter_entry (snd kp) d)"
      using that(2) by (rule fold_pred) (rule entry)
    with True show ?thesis by (simp add: splatter_part_def split_beta)
  next
    case False
    moreover have "snd kp \<noteq> []" using assms that(1) by auto
    ultimately show ?thesis
      using that(2) by (simp add: splatter_part_def split_beta extend_part_nonempty)
  qed
  note part = this
  have "parts_nonempty []" by (simp add: parts_nonempty_def)
  then show ?thesis unfolding splatter_def by (rule fold_pred) (rule part)
qed

text \<open>The parts the children are made of.\<close>

abbreviation final_parts :: "parts \<Rightarrow> parts" where
  "final_parts d \<equiv> (if need_to_splatter d then splatter d else d)"

lemma final_parts_instructions:
  assumes ok: "parts_ok g p pos I d" and k: "map_of (final_parts d) k = Some part"
  shows "part \<noteq> []" and "entry_instruction ` set part \<subseteq> I"
proof -
  have ne: "\<forall>(k, part) \<in> set d. part \<noteq> []" using ok by (auto simp: parts_ok_def)
  show "part \<noteq> []"
    using k splatter_nonempty [OF ne] parts_okD(2) [OF ok, of k]
    by (auto simp: parts_nonempty_def dest!: map_of_SomeD split: if_splits)
  show "entry_instruction ` set part \<subseteq> I"
  proof (cases "need_to_splatter d")
    case False
    with k parts_okD(3) [OF ok, of k part] show ?thesis by auto
  next
    case True
    then have "set part = (\<Union>kp \<in> set d. part_adds kp k)"
      using k splatter_set [of d k] by (simp add: dget_default_def)
    moreover have "entry_instruction ` entry_adds x k \<subseteq> {entry_instruction x}" for x
      by (cases x) (auto simp: entry_adds_def)
    then have "entry_instruction ` part_adds kp k \<subseteq> entry_instruction ` set (snd kp)" for kp
      unfolding part_adds_def by (simp add: image_UN) blast
    moreover have "entry_instruction ` set (snd kp) \<subseteq> I" if "kp \<in> set d" for kp
      using that ok by (auto simp: parts_ok_def split_beta)
    ultimately show ?thesis by blast
  qed
qed

lemma final_parts_dict_ok: "parts_ok g p pos I d \<Longrightarrow> dict_ok (final_parts d)"
  using splatter_nonempty [of d] by (auto simp: parts_ok_def parts_nonempty_def)

lemma dkeys_iff: "k \<in> set (dkeys d) \<longleftrightarrow> (\<exists>x. map_of d k = Some x)"
  by (metis map_of_eq_None_iff not_None_eq list.set_map)

lemma in_dget_defaultE:
  assumes "x \<in> set (dget_default d k [])"
  obtains part where "map_of d k = Some part" and "x \<in> set part"
  using assms that by (cases "map_of d k") (auto simp: dget_default_def)

lemma final_parts_select:
  assumes ok: "parts_ok g p pos I d" and i: "i \<in> I" "od_holds g env (p i ! pos)"
    and v: "v = env (token_of (p i ! pos))"
  shows "\<exists>part. map_of (final_parts d) (od_key v (dkeys (final_parts d))) = Some part \<and>
                i \<in> entry_instruction ` set part"
proof -
  obtain k part x where k: "map_of d k = Some part" "x \<in> set part" "entry_instruction x = i"
    using parts_okD(4) [OF ok i(1)] by blast
  have x: "entry_ok g p pos k x" using parts_okD(3) [OF ok k(1,2)] by simp
  have tup: "is_tuple_part part \<longleftrightarrow> k = EStr ''other''"
    using is_tuple_part_iff parts_okD(2,3) [OF ok k(1)] by blast
  show ?thesis
  proof (cases x)
    case (Plain j)
    then have kv: "k = ENum v" "btest (p i ! pos) = Some OdEq" "x = Plain i"
      using x k(3) i(2) v by (auto simp: entry_ok_def od_holds_def)
    show ?thesis
    proof (cases "need_to_splatter d")
      case False
      have "ENum v \<in> set (dkeys d)" using k(1) kv(1) by (subst dkeys_iff) blast
      with False k kv(1) show ?thesis by (auto simp: od_key_def simp del: set_map)
    next
      case True
      have "part_adds (k, part) (ENum v) \<subseteq> set (dget_default (splatter d) (ENum v) [])"
        unfolding splatter_set using map_of_SomeD [OF k(1)] by blast
      moreover have "x \<in> part_adds (k, part) (ENum v)" using tup kv k(2) by (simp add: part_adds_def)
      ultimately have "x \<in> set (dget_default (splatter d) (ENum v) [])" by blast
      then obtain part' where p': "map_of (splatter d) (ENum v) = Some part'" "x \<in> set part'"
        by (rule in_dget_defaultE)
      moreover have "ENum v \<in> set (dkeys (splatter d))" using p'(1) by (subst dkeys_iff) blast
      ultimately show ?thesis using True k(3) by (auto simp: od_key_def simp del: set_map)
    qed
  next
    case (Trimmed tv j)
    then have kv: "k = EStr ''other''" "x = Trimmed tv i" "v \<in> set tv"
      using x k(3) i(2) v by (auto simp: entry_ok_def od_holds_def)
    show ?thesis
    proof (cases "need_to_splatter d")
      case False
      have "ENum v \<notin> set (dkeys d)"
        using other_not_scalar [OF ok False] k(1,2) kv by blast
      with False k kv(1) show ?thesis by (auto simp: od_key_def simp del: set_map)
    next
      case True
      have "part_adds (k, part) (ENum v) \<subseteq> set (dget_default (splatter d) (ENum v) [])"
        unfolding splatter_set using map_of_SomeD [OF k(1)] by blast
      moreover have "Plain i \<in> part_adds (k, part) (ENum v)"
        using tup kv k(2) by (force simp: part_adds_def entry_adds_def)
      ultimately have "Plain i \<in> set (dget_default (splatter d) (ENum v) [])" by blast
      then obtain part' where p': "map_of (splatter d) (ENum v) = Some part'" "Plain i \<in> set part'"
        by (rule in_dget_defaultE)
      moreover have "ENum v \<in> set (dkeys (splatter d))" using p'(1) by (subst dkeys_iff) blast
      ultimately show ?thesis using True by (force simp: od_key_def simp del: set_map)
    qed
  qed
qed

section \<open>Successful construction as a relation\<close>

text \<open>
  What a successful call has done, without the node counter: one rule per way \<open>build_sub_graph\<close>
  finishes a node or goes on with it.
\<close>

definition fresh :: "graph_node \<Rightarrow> bool" where
  "fresh n \<longleftrightarrow> node_decider n = None \<and> node_nonterminal n = None \<and> back_split_pos n = None \<and>
     decider_bits n = 0"

inductive builds ::
    "grammar \<Rightarrow> nat \<Rightarrow> nat \<Rightarrow> graph_node \<Rightarrow> patterns \<Rightarrow> gtree \<Rightarrow> patterns \<Rightarrow> bool"
  and builds_kids ::
    "grammar \<Rightarrow> nat \<Rightarrow> (edge \<times> nat list) list \<Rightarrow> patterns \<Rightarrow> (edge \<times> gtree) list \<Rightarrow> patterns \<Rightarrow> bool"
  for g :: grammar
where
  leaf_node: "length (node_instructions node) \<le> 1 \<Longrightarrow>
     builds g pos k node p (GNode (node\<lparr>skipped_bits := k\<rparr>) []) p"
| rearranged: "stores_same pos p q \<Longrightarrow> builds g pos k node q t p' \<Longrightarrow> builds g pos k node p t p'"
| skip_bit: "\<not> some_funky_spot p (node_instructions node) pos \<Longrightarrow>
     \<forall>i \<in> set (node_instructions node). pos < length (p i) \<Longrightarrow>
     builds g (Suc pos) (Suc k) node p t p' \<Longrightarrow> builds g pos k node p t p'"
| back_split_node: "partition_nodes p (node_instructions node) sp = Inr (ones, zeros, []) \<Longrightarrow>
     sp < pos \<Longrightarrow> convert_splitpos_to_bit_index p (node_instructions node) sp = Inr r \<Longrightarrow>
     builds_kids g pos [(EStr ''0'', zeros), (EStr ''1'', ones)] p ts p' \<Longrightarrow>
     builds g pos k node p
       (GNode (node\<lparr>skipped_bits := k, decider_bits := 1, back_split_pos := Some r\<rparr>) ts) p'"
| bit_node: "partition_nodes p (node_instructions node) pos = Inr (ones, zeros, []) \<Longrightarrow>
     \<not> some_funky_spot p (node_instructions node) pos \<Longrightarrow>
     ks \<in> {[(EStr ''0'', zeros), (EStr ''1'', ones)], [(EStr ''1'', ones)], [(EStr ''0'', zeros)]} \<Longrightarrow>
     (zeros \<noteq> [] \<longrightarrow> (EStr ''0'', zeros) \<in> set ks) \<Longrightarrow> (ones \<noteq> [] \<longrightarrow> (EStr ''1'', ones) \<in> set ks) \<Longrightarrow>
     builds_kids g (Suc pos) ks p ts p' \<Longrightarrow>
     builds g pos k node p (GNode (node\<lparr>skipped_bits := k, decider_bits := 1\<rparr>) ts) p'"
| nt_node: "all_same_nonterminal p (node_instructions node) pos = Some nt \<Longrightarrow>
     builds_kids g (Suc pos) [(EStr ''-'', node_instructions node)] p ts p' \<Longrightarrow>
     builds g pos k node p (GNode (node\<lparr>node_nonterminal := Some nt, skipped_bits := k\<rparr>) ts) p'"
| od_node: "all_same_operand_decider p (node_instructions node) pos = Some od \<Longrightarrow>
     partition_by_required_values g p (node_instructions node) pos (btoken od) = Inr (parts, values) \<Longrightarrow>
     builds_kids g (Suc pos)
       (map (\<lambda>(key, part). (key, map entry_instruction part)) (final_parts parts)) p ts p' \<Longrightarrow>
     builds g pos k node p
       (GNode (node\<lparr>node_decider := Some od, skipped_bits := k, child_od_key_values := Some values\<rparr>) ts) p'"
| no_kids: "builds_kids g pos [] p [] p"
| a_kid: "node_instructions n = ilist \<Longrightarrow> fresh n \<Longrightarrow> builds g pos 0 n p t q \<Longrightarrow> builds_kids g pos ks q ts p' \<Longrightarrow>
     builds_kids g pos ((key, ilist) # ks) p ((key, t) # ts) p'"

definition sound_builder :: "grammar \<Rightarrow> builder \<Rightarrow> bool" where
  "sound_builder g build \<longleftrightarrow>
     (\<forall>pos k node st t st'.
        build pos k node st = Inr (t, st') \<longrightarrow> builds g pos k node (pats st) t (pats st'))"

lemma sound_builderD:
  "sound_builder g build \<Longrightarrow> build pos k node st = Inr (t, st') \<Longrightarrow>
   builds g pos k node (pats st) t (pats st')"
  by (simp add: sound_builder_def)

lemma graph_node_new_sel [simp]:
  "pats (snd (graph_node_new token pos st)) = pats st"
  "node_instructions (fst (graph_node_new token pos st)) = []"
  "decider_bits (fst (graph_node_new token pos st)) = 0"
  by (simp_all add: graph_node_new_def)

lemma bit_children_builds:
  assumes "sound_builder g build"
  shows "bit_children (build pos 0) bitpos ks st = Inr (ts, st') \<Longrightarrow>
         builds_kids g pos ks (pats st) ts (pats st')"
proof (induction ks arbitrary: st ts)
  case Nil
  then show ?case by (simp add: no_kids)
next
  case (Cons ki ks)
  obtain key ilist where ki: "ki = (key, ilist)" by (cases ki)
  obtain n st1 where n: "graph_node_new key bitpos st = (n, st1)" by (cases "graph_node_new key bitpos st")
  have st1: "pats st1 = pats st" using n graph_node_new_sel(1) [of key bitpos st] by simp
  from Cons.prems obtain t st2 ts' where
    t: "build pos 0 (n\<lparr>node_instructions := ilist\<rparr>) st1 = Inr (t, st2)" and
    ts: "bit_children (build pos 0) bitpos ks st2 = Inr (ts', st')" "ts = (key, t) # ts'"
    by (auto simp: ki bit_child_def n rbind_eq_Inr)
  show ?case
    unfolding ki ts(2)
    by (rule a_kid [OF _ _ sound_builderD [OF assms t, unfolded st1] Cons.IH [OF ts(1)]])
      (use n in \<open>auto simp: graph_node_new_def fresh_def\<close>)
qed

lemma fill_node_instructions:
  "node_instructions (fill_node n part) = node_instructions n @ map entry_instruction part"
  unfolding fill_node_def by (induction part arbitrary: n) (auto split: part_entry.splits)

lemma fill_node_fresh: "fresh n \<Longrightarrow> fresh (fill_node n part)"
  unfolding fill_node_def by (induction part arbitrary: n) (auto simp: fresh_def split: part_entry.splits)

lemma make_od_children_Inr:
  "make_od_children pos parts st = Inr (ns, st') \<Longrightarrow>
   pats st' = pats st \<and> (\<forall>(key, n) \<in> set ns. fresh n) \<and>
   map (\<lambda>(key, n). (key, node_instructions n)) ns = map (\<lambda>(key, part). (key, map entry_instruction part)) parts"
proof (induction pos parts st arbitrary: ns st' rule: make_od_children.induct)
  case (1 pos st)
  then show ?case by simp
next
  case (2 pos key part parts st)
  obtain n st1 where n: "graph_node_new key pos st = (n, st1)" by (cases "graph_node_new key pos st")
  have st1: "pats st1 = pats st" "node_instructions n = []" and fresh: "fresh n"
    using n by (auto simp: graph_node_new_def fresh_def)
  from 2(2) obtain ns' where
    ns: "make_od_children pos parts st1 = Inr (ns', st')" "ns = (key, fill_node n part) # ns'"
    and x: "\<not> (\<not> is_tuple_part part \<and> key = EStr ''XED'')"
    by (auto simp: n rbind_eq_Inr split: if_splits)
  from 2(1) [OF n [symmetric] x ns(1)] ns(2) show ?case
    by (simp add: st1 fill_node_instructions fill_node_fresh [OF fresh])
qed

lemma build_children_builds:
  assumes "sound_builder g build"
  shows "build_children (build pos 0) ns st = Inr (ts, st') \<Longrightarrow> \<forall>(key, n) \<in> set ns. fresh n \<Longrightarrow>
         builds_kids g pos (map (\<lambda>(key, n). (key, node_instructions n)) ns) (pats st) ts (pats st')"
proof (induction ns arbitrary: st ts)
  case Nil
  then show ?case by (simp add: no_kids)
next
  case (Cons kn ns)
  obtain key n where kn: "kn = (key, n)" by (cases kn)
  from Cons.prems obtain t st2 ts' where
    t: "build pos 0 n st = Inr (t, st2)" and
    ts: "build_children (build pos 0) ns st2 = Inr (ts', st')" "ts = (key, t) # ts'"
    by (auto simp: kn rbind_eq_Inr)
  show ?case
    unfolding kn ts(2)
    using sound_builderD [OF assms t] Cons.IH [OF ts(1)] Cons.prems(2) by (auto simp: kn intro: a_kid)
qed

lemma scan_backwards_less:
  "scan_backwards_for_distinguishing_bit p ilist pos = Inr (Some b) \<Longrightarrow> b < pos"
  by (induction pos) (auto simp: rbind_eq_Inr split: if_splits)

lemma back_split_builds:
  assumes "sound_builder g build" and "back_split build node pos k msg st = Inr (t, st')"
  shows "builds g pos k node (pats st) t (pats st')"
proof -
  from assms(2) obtain sp ones zeros r ts where
    scan: "scan_backwards_for_distinguishing_bit (pats st) (node_instructions node) pos = Inr (Some sp)" and
    part: "partition_nodes (pats st) (node_instructions node) sp = Inr (ones, zeros, [])" and
    conv: "convert_splitpos_to_bit_index (pats st) (node_instructions node) sp = Inr r" and
    kids: "bit_children (build pos 0) (pos + 7) [(EStr ''0'', zeros), (EStr ''1'', ones)] st = Inr (ts, st')" and
    t: "t = GNode (node\<lparr>skipped_bits := k, decider_bits := 1, back_split_pos := Some r\<rparr>) ts"
    unfolding back_split_def back_split_graph_def
    by (auto simp: rbind_eq_Inr simp del: bit_children.simps split: option.splits if_splits)
  show ?thesis
    unfolding t
    by (rule back_split_node [OF part scan_backwards_less [OF scan] conv
          bit_children_builds [OF assms(1) kids]])
qed

lemma decider_branch_builds:
  assumes "sound_builder g build" and "decider_branch g build node pos k od st = Inr (t, st')"
    and same: "all_same_operand_decider (pats st) (node_instructions node) pos = Some od"
  shows "builds g pos k node (pats st) t (pats st')"
proof -
  from assms(2) obtain parts vals ns st1 ts where
    part: "partition_by_required_values g (pats st) (node_instructions node) pos (btoken od) = Inr (parts, vals)" and
    ns: "make_od_children pos (final_parts parts) st = Inr (ns, st1)" and
    ts: "build_children (build (Suc pos) 0) ns st1 = Inr (ts, st')" and
    t: "t = GNode (node\<lparr>node_decider := Some od, skipped_bits := k, child_od_key_values := Some vals\<rparr>) ts"
    unfolding decider_branch_def by (auto simp: rbind_eq_Inr)
  from build_children_builds [OF assms(1) ts] make_od_children_Inr [OF ns]
  have kids: "builds_kids g (Suc pos)
      (map (\<lambda>(key, part). (key, map entry_instruction part)) (final_parts parts)) (pats st) ts (pats st')"
    by simp
  show ?thesis unfolding t by (rule od_node [OF same part kids])
qed

lemma bit_branch_builds:
  assumes sound: "sound_builder g build" and b: "bit_branch build node pos k st = Inr (t, st')"
    and funky: "\<not> some_funky_spot (pats st) (node_instructions node) pos"
    and len: "\<forall>i \<in> set (node_instructions node). pos < length (pats st i)"
  shows "builds g pos k node (pats st) t (pats st')"
proof -
  obtain ones zeros others where
    part: "partition_nodes (pats st) (node_instructions node) pos = Inr (ones, zeros, others)"
    using b by (auto simp: bit_branch_def rbind_eq_Inr)
  show ?thesis
  proof (cases "others = []")
    case False
    then have "build (Suc pos) (Suc k) node st = Inr (t, st')" using b by (simp add: bit_branch_def part)
    from skip_bit [OF funky len sound_builderD [OF sound this]] show ?thesis .
  next
    case True
    define ks where "ks = (if ones \<noteq> [] \<and> zeros = [] then [(EStr ''1'', ones)]
                   else if ones = [] \<and> zeros \<noteq> [] then [(EStr ''0'', zeros)]
                   else [(EStr ''0'', zeros), (EStr ''1'', ones)])"
    from b obtain ts where kids: "bit_children (build (Suc pos) 0) pos ks st = Inr (ts, st')"
      and t: "t = GNode (node\<lparr>skipped_bits := k, decider_bits := 1\<rparr>) ts"
      unfolding bit_branch_def part by (auto simp: True rbind_eq_Inr Let_def simp flip: ks_def)
    show ?thesis
      unfolding t
      by (rule bit_node [OF part [unfolded True] funky _ _ _ bit_children_builds [OF sound kids]])
        (auto simp: ks_def)
  qed
qed

lemma split_loop_builds:
  assumes sound: "sound_builder g build"
  shows "split_loop n g build node pos k st = Inr (t, st') \<Longrightarrow>
         \<forall>i \<in> set (node_instructions node). pos < length (pats st i) \<Longrightarrow>
         builds g pos k node (pats st) t (pats st')"
proof (induction n arbitrary: st)
  case 0
  then show ?case by simp
next
  case (Suc n)
  let ?I = "node_instructions node"
  show ?case
  proof (cases "all_same_operand_decider (pats st) ?I pos")
    case (Some od)
    with Suc.prems(1) show ?thesis by (auto intro: decider_branch_builds [OF sound])
  next
    case od: None
    show ?thesis
    proof (cases "all_same_nonterminal (pats st) ?I pos")
      case (Some nt)
      then obtain ts where
        "bit_children (build (Suc pos) 0) pos [(EStr ''-'', ?I)] st = Inr (ts, st')"
        and t: "t = GNode (node\<lparr>node_nonterminal := Some nt, skipped_bits := k\<rparr>) ts"
        using Suc.prems(1) od by (auto simp: nonterminal_branch_def rbind_eq_Inr simp del: bit_children.simps)
      from bit_children_builds [OF sound this(1)] Some show ?thesis
        unfolding t by (intro nt_node)
    next
      case nt: None
      show ?thesis
      proof (cases "some_funky_spot (pats st) ?I pos")
        case False
        with Suc.prems od nt show ?thesis
          by (auto simp: rbind_eq_Inr intro: bit_branch_builds [OF sound])
      next
        case True
        obtain ok p where r: "rearrange_at_conflict ?I pos (pats st) = (ok, p)"
          by (cases "rearrange_at_conflict ?I pos (pats st)")
        have same: "stores_same pos (pats st) p" by (rule rearrange_at_conflict_same [OF r])
        then have len: "\<forall>i \<in> set ?I. pos < length (p i)"
          using Suc.prems(2) by (simp add: stores_same_length [OF same])
        have "builds g pos k node (pats (st\<lparr>pats := p\<rparr>)) t (pats st')"
        proof (cases ok)
          case True
          with Suc.prems(1) od nt r \<open>some_funky_spot _ _ _\<close> len show ?thesis
            by (intro Suc.IH) (auto simp: rbind_eq_Inr)
        next
          case False
          with Suc.prems(1) od nt r \<open>some_funky_spot _ _ _\<close> show ?thesis
            by (intro back_split_builds [OF sound]) (auto simp: rbind_eq_Inr)
        qed
        then show ?thesis by (intro rearranged [OF same]) simp
      qed
    qed
  qed
qed

lemma at_end_0: "at_end_of_instructions p ilist pos = 0 \<Longrightarrow> \<forall>i \<in> set ilist. pos < length (p i)"
  by (auto simp: at_end_of_instructions_def list_ex_iff not_le split: if_splits)

lemma at_end_values: "at_end_of_instructions p ilist pos \<in> {0, 1, -1}"
  by (auto simp: at_end_of_instructions_def Let_def)

lemma build_sub_graph_step_sound:
  assumes "sound_builder g build"
  shows "sound_builder g (build_sub_graph_step g build)"
  unfolding sound_builder_def
proof (intro allI impI)
  fix pos k node st t st'
  assume b: "build_sub_graph_step g build pos k node st = Inr (t, st')"
  let ?I = "node_instructions node"
  consider "at_end_of_instructions (pats st) ?I pos = 0" | "at_end_of_instructions (pats st) ?I pos = 1"
    | "at_end_of_instructions (pats st) ?I pos = -1"
    using at_end_values by blast
  then show "builds g pos k node (pats st) t (pats st')"
  proof cases
    case 1
    with b have "split_loop 2 g build node pos k st = Inr (t, st')"
      by (simp add: build_sub_graph_step_def del: split_loop.simps)
    from split_loop_builds [OF assms this at_end_0 [OF 1]] show ?thesis .
  next
    case 2
    with b show ?thesis
      by (auto simp: build_sub_graph_step_def not_less intro: leaf_node back_split_builds [OF assms]
          split: if_splits)
  next
    case 3
    with b show ?thesis
      by (auto simp: build_sub_graph_step_def intro: back_split_builds [OF assms])
  qed
qed

lemma build_sub_graph_sound: "sound_builder g (build_sub_graph limit g)"
proof (induction limit)
  case 0
  then show ?case by (simp add: sound_builder_def)
next
  case (Suc limit)
  then show ?case by (simp add: build_sub_graph_step_sound)
qed

section \<open>Inputs reach their instruction\<close>

lemma builds_stores:
  "builds g pos k node p t p' \<Longrightarrow> stores_same pos p p'"
  "builds_kids g pos ks p ts p' \<Longrightarrow> stores_same pos p p'"
proof (induction rule: builds_builds_kids.inducts)
  case (rearranged p q pos k node t p')
  then show ?case by (blast intro: stores_same_trans)
next
  case (a_kid n ilist pos p t q ks ts p' key)
  then show ?case by (blast intro: stores_same_trans)
qed (auto intro: stores_same_mono)

definition wf_bits :: "bit_info list \<Rightarrow> bool" where
  "wf_bits bs \<longleftrightarrow> (\<forall>b \<in> set bs. decider_ok b)"

lemma strip_pbit_decider_ok [simp]: "decider_ok (strip_pbit b) = decider_ok b"
  by (simp add: decider_ok_def)

text \<open>
  The instructions of a node agree on which of the elements before its position are operand
  deciders; the others are the real bits an input has given so far.
\<close>

definition node_inv :: "patterns \<Rightarrow> nat list \<Rightarrow> nat \<Rightarrow> bool list \<Rightarrow> bool" where
  "node_inv p ilist pos ods \<longleftrightarrow>
     (\<forall>i \<in> set ilist. wf_bits (p i) \<and> pos \<le> length (p i) \<and>
                      map is_operand_decider (take pos (p i)) = ods)"

abbreviation real_pos :: "bool list \<Rightarrow> nat" where
  "real_pos ods \<equiv> length (filter Not ods)"

lemma same_from_wf: "same_from pos a b \<Longrightarrow> wf_bits a \<Longrightarrow> wf_bits b"
proof -
  assume s: "same_from pos a b" and a: "wf_bits a"
  have wf: "wf_bits xs \<longleftrightarrow> (\<forall>b \<in> set (map strip_pbit xs). decider_ok b)" for xs
    by (simp add: wf_bits_def)
  have "set (map strip_pbit b) = set (map strip_pbit a)"
    using s unfolding same_from_def by (metis set_mset_mset)
  with a show ?thesis unfolding wf by (simp only:)
qed

lemma same_from_ods:
  assumes "same_from pos a b"
  shows "map is_operand_decider (take pos b) = map is_operand_decider (take pos a)"
proof -
  have "map is_operand_decider xs = map is_operand_decider (map strip_pbit xs)" for xs by simp
  with assms show ?thesis unfolding same_from_def by (metis (no_types))
qed

lemma node_inv_same: "stores_same pos p q \<Longrightarrow> node_inv p ilist pos ods \<Longrightarrow> node_inv q ilist pos ods"
  unfolding node_inv_def stores_same_def
  by (metis same_from_length same_from_ods same_from_wf)

lemma stores_same_accepts: "stores_same pos p q \<Longrightarrow> accepts g env inp (q i) \<longleftrightarrow> accepts g env inp (p i)"
  unfolding stores_same_def by (blast dest: same_from_accepts)

lemma node_inv_subset: "node_inv p ilist pos ods \<Longrightarrow> set ilist' \<subseteq> set ilist \<Longrightarrow> node_inv p ilist' pos ods"
  by (auto simp: node_inv_def)

lemma node_inv_Suc:
  assumes "node_inv p ilist pos ods" and "\<forall>i \<in> set ilist. pos < length (p i) \<and> is_operand_decider (p i ! pos) = d"
  shows "node_inv p ilist (Suc pos) (ods @ [d])"
  using assms by (auto simp: node_inv_def take_Suc_conv_app_nth)

lemma bits_agree_append:
  "bits_agree inp r (xs @ ys) \<longleftrightarrow> bits_agree inp r xs \<and> bits_agree inp (r + length xs) ys"
  by (induction xs arbitrary: r) simp_all

lemma real_bits_length: "length (real_bits bs) = real_pos (map is_operand_decider bs)"
  by (induction bs) simp_all

lemma accepts_bit:
  assumes "accepts g env inp bs" and "m < length bs" and "\<not> is_operand_decider (bs ! m)"
  shows "bit_agrees (bs ! m) (inp (real_pos (map is_operand_decider (take m bs))))"
proof -
  have "real_bits bs = real_bits (take m bs) @ bs ! m # real_bits (drop (Suc m) bs)"
    using assms(3) by (subst id_take_nth_drop [OF assms(2)]) simp
  with assms(1) show ?thesis by (simp add: accepts_def bits_agree_append real_bits_length)
qed

lemma accepts_od:
  "accepts g env inp bs \<Longrightarrow> m < length bs \<Longrightarrow> is_operand_decider (bs ! m) \<Longrightarrow> od_holds g env (bs ! m)"
  by (simp add: accepts_def list_all_iff)

lemma partition_nodes_Inr:
  assumes "partition_nodes p ilist pos = Inr (ones, zeros, others)"
  shows "ones = filter (\<lambda>i. bvalue (p i ! pos) = ''1'') ilist"
    and "zeros = filter (\<lambda>i. bvalue (p i ! pos) = ''0'') ilist"
    and "others = filter (\<lambda>i. bvalue (p i ! pos) \<noteq> ''0'' \<and> bvalue (p i ! pos) \<noteq> ''1'') ilist"
    and "\<forall>i \<in> set ilist. pos < length (p i)"
  using assms
proof (induction ilist arbitrary: ones zeros others)
  case Nil
  { case 1 then show ?case by simp next case 2 then show ?case by simp
    next case 3 then show ?case by simp next case 4 then show ?case by simp }
next
  case (Cons i ilist)
  { case 1 with Cons.IH(1) show ?case by (fastforce simp: rbind_eq_Inr bit_at_def split: if_splits)
    next case 2 with Cons.IH(2) show ?case by (fastforce simp: rbind_eq_Inr bit_at_def split: if_splits)
    next case 3 with Cons.IH(3) show ?case by (fastforce simp: rbind_eq_Inr bit_at_def split: if_splits)
    next case 4 with Cons.IH(4) show ?case by (fastforce simp: rbind_eq_Inr bit_at_def split: if_splits) }
qed

lemma same_decider_loop:
  assumes "all_same_decider_loop p pos ilist last_od = Some od"
  shows "(\<forall>i \<in> set ilist. pos < length (p i) \<and> is_operand_decider (p i ! pos) \<and> btoken (p i ! pos) = btoken od) \<and>
         (\<forall>l. last_od = Some l \<longrightarrow> l = od)"
  using assms
proof (induction ilist arbitrary: last_od)
  case Nil
  then show ?case by simp
next
  case (Cons i ilist)
  have i: "pos < length (p i)" "is_operand_decider (p i ! pos)"
    using Cons.prems by (simp_all only: all_same_decider_loop.simps not_le [symmetric] split: if_splits) blast+
  show ?case
  proof (cases last_od)
    case None
    with Cons.prems i have "all_same_decider_loop p pos ilist (Some (p i ! pos)) = Some od" by simp
    from Cons.IH [OF this] None i show ?thesis by simp
  next
    case (Some l)
    with Cons.prems i have "btoken l = btoken (p i ! pos)" "all_same_decider_loop p pos ilist (Some l) = Some od"
      by (simp_all split: if_splits)
    with Cons.IH [OF this(2)] Some i show ?thesis by simp
  qed
qed

lemma same_nt_loop:
  assumes "all_same_nt_loop p pos ilist last_nt = Some nt"
  shows "\<forall>i \<in> set ilist. pos < length (p i) \<and> is_nonterminal (p i ! pos)"
  using assms
proof (induction ilist arbitrary: last_nt)
  case Nil
  then show ?case by simp
next
  case (Cons i ilist)
  have i: "pos < length (p i)" "is_nonterminal (p i ! pos)"
    using Cons.prems by (simp_all only: all_same_nt_loop.simps not_le [symmetric] split: if_splits) blast+
  have "\<exists>l. all_same_nt_loop p pos ilist l = Some nt"
    using Cons.prems i by (cases last_nt) (auto split: if_splits)
  with Cons.IH i show ?case by auto
qed

lemmas same_decider = same_decider_loop [where last_od = None, folded all_same_operand_decider_def]
lemmas same_nonterminal = same_nt_loop [where last_nt = None, folded all_same_nonterminal_def]

text \<open>An input accepted by an instruction of the node leads to exactly this instruction.\<close>

definition reaches ::
  "grammar \<Rightarrow> patterns \<Rightarrow> nat list \<Rightarrow> nat \<Rightarrow> bool list \<Rightarrow> gtree \<Rightarrow> nat \<Rightarrow> bool" where
  "reaches g p ilist pos ods t r \<longleftrightarrow>
     (\<forall>env inp i. i \<in> set ilist \<longrightarrow> accepts g env inp (p i) \<longrightarrow> walk env inp t r = Some [i])"

lemma reachesD:
  "reaches g p ilist pos ods t r \<Longrightarrow> i \<in> set ilist \<Longrightarrow> accepts g env inp (p i) \<Longrightarrow>
   walk env inp t r = Some [i]"
  by (simp add: reaches_def)

lemma walk_inner:
  assumes "map_of ts key = Some t" and "walk_edge env inp n (dkeys ts) (r + skipped_bits n) = (key, r')"
    and "walk env inp t r' = res"
  shows "walk env inp (GNode n ts) r = res"
proof -
  have "ts \<noteq> []" using assms(1) by auto
  with assms show ?thesis by (simp add: walk.simps)
qed

lemma all_kids_reach:
  assumes "list_all2 (\<lambda>kl kt. fst kl = fst kt \<and> reaches g p (snd kl) pos ods (snd kt) r) ks ts"
    and "dict_ok ks" and "map_of ks key = Some ilist" and "i \<in> set ilist" and "accepts g env inp (p i)"
  shows "\<exists>t. map_of ts key = Some t \<and> walk env inp t r = Some [i]"
  using assms
proof (induction rule: list_all2_induct)
  case Nil
  then show ?case by simp
next
  case (Cons kl ks kt ts)
  then show ?case
    by (cases kl; cases kt) (auto simp: dict_ok_def reaches_def split: if_splits)
qed

lemma reaches_same:
  "stores_same pos' p q \<Longrightarrow> reaches g q ilist pos ods t r \<Longrightarrow> reaches g p ilist pos ods t r"
  by (simp add: reaches_def stores_same_accepts)

lemma kids_dkeys:
  "list_all2 (\<lambda>kl kt. fst kl = fst kt \<and> P kl kt) ks ts \<Longrightarrow> dkeys ts = dkeys ks"
  by (induction rule: list_all2_induct) auto

lemma builds_reaches:
  "builds g pos k node p t p' \<Longrightarrow> fresh node \<Longrightarrow> node_inv p (node_instructions node) pos ods \<Longrightarrow>
   k \<le> real_pos ods \<Longrightarrow> reaches g p (node_instructions node) pos ods t (real_pos ods - k)"
  "builds_kids g pos ks p ts p' \<Longrightarrow> (\<forall>(key, il) \<in> set ks. node_inv p il pos ods) \<Longrightarrow>
   list_all2 (\<lambda>kl kt. fst kl = fst kt \<and> reaches g p (snd kl) pos ods (snd kt) (real_pos ods)) ks ts"
proof (induction arbitrary: ods and ods rule: builds_builds_kids.inducts)
  case (leaf_node node pos k p)
  then have "i \<in> set (node_instructions node) \<Longrightarrow> node_instructions node = [i]" for i
    by (cases "node_instructions node") auto
  then show ?case by (simp add: reaches_def walk.simps)
next
  case (rearranged pos p q k node t p')
  then show ?case by (blast intro: reaches_same node_inv_same)
next
  case (skip_bit p node pos k t p')
  have "\<forall>i \<in> set (node_instructions node). pos < length (p i) \<and> is_operand_decider (p i ! pos) = False"
    using skip_bit.hyps(1,2) by (auto simp: some_funky_spot_def list_ex_iff)
  from node_inv_Suc [OF skip_bit.prems(2) this] skip_bit.prems skip_bit.IH(2) [of "ods @ [False]"]
  show ?case by (simp add: reaches_def)
next
  case (back_split_node p node sp ones zeros pos r ts p' k)
  let ?I = "node_instructions node"
  note part = partition_nodes_Inr [OF back_split_node.hyps(1)]
  have sub: "set zeros \<subseteq> set ?I" "set ones \<subseteq> set ?I" using part(1,2) by auto
  have kids: "list_all2 (\<lambda>kl kt. fst kl = fst kt \<and> reaches g p (snd kl) pos ods (snd kt) (real_pos ods))
      [(EStr ''0'', zeros), (EStr ''1'', ones)] ts"
    using back_split_node.prems(2) sub by (intro back_split_node.IH(2)) (auto elim: node_inv_subset)
  show ?case
    unfolding reaches_def
  proof (intro allI impI)
    fix env inp i
    assume i: "i \<in> set ?I" and acc: "accepts g env inp (p i)"
    have ods: "map is_operand_decider (take sp (p j)) = take sp ods" "wf_bits (p j)" "sp < length (p j)"
      if "j \<in> set ?I" for j
      using back_split_node.prems(2) back_split_node.hyps(2) that
      by (auto simp: node_inv_def take_map [symmetric] min_def)
    have r: "r = real_pos (take sp ods)"
      using back_split_node.hyps(3) ods
      by (cases ?I) (auto simp: convert_splitpos_to_bit_index_def real_bits_length)
    have v: "bvalue (p i ! sp) = ''0'' \<or> bvalue (p i ! sp) = ''1''"
      using part(3) i by (auto simp: filter_empty_conv eq_commute [of "[]"])
    then have "\<not> is_operand_decider (p i ! sp)"
      using ods(2,3) [OF i] by (auto simp: wf_bits_def decider_ok_def)
    from accepts_bit [OF acc ods(3) [OF i] this]
    have "bit_agrees (p i ! sp) (inp r)" by (simp only: ods(1) [OF i] r)
    with v have key: "map_of [(EStr ''0'', zeros), (EStr ''1'', ones)] (EStr [bit_char (inp r)]) =
        Some (if inp r then ones else zeros)" "i \<in> set (if inp r then ones else zeros)"
      using i part(1,2) by (auto simp: bit_agrees_def bit_char_def)
    from all_kids_reach [OF kids _ key acc] obtain t where
      t: "map_of ts (EStr [bit_char (inp r)]) = Some t" "walk env inp t (real_pos ods) = Some [i]"
      by (auto simp: dict_ok_def)
    show "walk env inp (GNode (node\<lparr>skipped_bits := k, decider_bits := 1, back_split_pos := Some r\<rparr>) ts)
            (real_pos ods - k) = Some [i]"
      using back_split_node.prems(1,3)
      by (intro walk_inner [OF t(1) _ t(2)]) (simp add: walk_edge_def fresh_def)
  qed
next
  case (bit_node p node pos ones zeros ks ts p' k)
  let ?I = "node_instructions node"
  note part = partition_nodes_Inr [OF bit_node.hyps(1)]
  have sub: "set zeros \<subseteq> set ?I" "set ones \<subseteq> set ?I" using part(1,2) by auto
  have real: "\<forall>i \<in> set ?I. pos < length (p i) \<and> is_operand_decider (p i ! pos) = False"
    using part(4) bit_node.hyps(2) by (auto simp: some_funky_spot_def list_ex_iff)
  note inv = node_inv_Suc [OF bit_node.prems(2) real]
  have kids: "list_all2 (\<lambda>kl kt. fst kl = fst kt \<and>
      reaches g p (snd kl) (Suc pos) (ods @ [False]) (snd kt) (real_pos (ods @ [False]))) ks ts"
    using inv sub bit_node.hyps(3) by (intro bit_node.IH(2)) (auto elim: node_inv_subset)
  show ?case
    unfolding reaches_def
  proof (intro allI impI)
    fix env inp i
    assume i: "i \<in> set ?I" and acc: "accepts g env inp (p i)"
    have ods: "map is_operand_decider (take pos (p i)) = ods"
      using bit_node.prems(2) i by (simp add: node_inv_def)
    have v: "bvalue (p i ! pos) = ''0'' \<or> bvalue (p i ! pos) = ''1''"
      using part(3) i by (auto simp: filter_empty_conv eq_commute [of "[]"])
    have "bit_agrees (p i ! pos) (inp (real_pos ods))"
      using accepts_bit [OF acc, of pos] real i by (simp add: ods)
    with v have "i \<in> set (if inp (real_pos ods) then ones else zeros)"
      using i part(1,2) by (auto simp: bit_agrees_def)
    moreover from this have "map_of ks (EStr [bit_char (inp (real_pos ods))]) =
        Some (if inp (real_pos ods) then ones else zeros)"
      using bit_node.hyps(3,4,5) by (auto simp: bit_char_def split: if_splits)
    moreover have "dict_ok ks" using bit_node.hyps(3) by (auto simp: dict_ok_def)
    ultimately obtain t where
      t: "map_of ts (EStr [bit_char (inp (real_pos ods))]) = Some t"
        "walk env inp t (real_pos (ods @ [False])) = Some [i]"
      using all_kids_reach [OF kids _ _ _ acc] by blast
    show "walk env inp (GNode (node\<lparr>skipped_bits := k, decider_bits := 1\<rparr>) ts) (real_pos ods - k) = Some [i]"
      using bit_node.prems(1,3)
      by (intro walk_inner [OF t(1) _ t(2)]) (simp add: walk_edge_def fresh_def)
  qed
next
  case (nt_node p node pos nt ts p' k)
  let ?I = "node_instructions node"
  have real: "\<forall>i \<in> set ?I. pos < length (p i) \<and> is_operand_decider (p i ! pos) = False"
    using same_nonterminal [OF nt_node.hyps(1)] by (auto simp: bit_kind_simps split: if_splits)
  note inv = node_inv_Suc [OF nt_node.prems(2) real]
  have kids: "list_all2 (\<lambda>kl kt. fst kl = fst kt \<and>
      reaches g p (snd kl) (Suc pos) (ods @ [False]) (snd kt) (real_pos (ods @ [False])))
      [(EStr ''-'', ?I)] ts"
    using inv by (intro nt_node.IH(2)) auto
  show ?case
    unfolding reaches_def
  proof (intro allI impI)
    fix env inp i
    assume i: "i \<in> set ?I" and acc: "accepts g env inp (p i)"
    obtain t where t: "map_of ts (EStr ''-'') = Some t" "walk env inp t (real_pos (ods @ [False])) = Some [i]"
      using all_kids_reach [OF kids _ _ i acc, of "EStr ''-''"] by (auto simp: dict_ok_def)
    show "walk env inp (GNode (node\<lparr>node_nonterminal := Some nt, skipped_bits := k\<rparr>) ts)
            (real_pos ods - k) = Some [i]"
      using nt_node.prems(1,3)
      by (intro walk_inner [OF t(1) _ t(2)]) (simp add: walk_edge_def fresh_def)
  qed
next
  case (od_node p node pos od parts vals ts p' k)
  let ?I = "node_instructions node"
  let ?ks = "map (\<lambda>(key, part). (key, map entry_instruction part)) (final_parts parts)"
  note same = same_decider [OF od_node.hyps(1)]
  then have dec: "\<forall>i \<in> set ?I. pos < length (p i) \<and> is_operand_decider (p i ! pos) = True" by auto
  have wf: "\<forall>i \<in> set ?I. btest (p i ! pos) \<noteq> None"
    using od_node.prems(2) dec by (auto simp: node_inv_def wf_bits_def decider_ok_def)
  note ok = partition_by_required_values_ok [OF od_node.IH(1) wf]
  note inv = node_inv_Suc [OF od_node.prems(2) dec]
  have dk: "dict_ok (final_parts parts)" by (rule final_parts_dict_ok [OF ok])
  have keys: "dkeys ?ks = dkeys (final_parts parts)" by (simp add: comp_def split_beta)
  have look: "map_of ?ks key = map_option (map entry_instruction) (map_of (final_parts parts) key)" for key
    by (simp add: map_of_map)
  have kids: "list_all2 (\<lambda>kl kt. fst kl = fst kt \<and>
      reaches g p (snd kl) (Suc pos) (ods @ [True]) (snd kt) (real_pos (ods @ [True]))) ?ks ts"
  proof (rule od_node.IH(3), clarify)
    fix key il
    assume "(key, il) \<in> set ?ks"
    then obtain part where "(key, part) \<in> set (final_parts parts)" "il = map entry_instruction part" by auto
    then have "set il \<subseteq> set ?I"
      using final_parts_instructions(2) [OF ok] dk by (simp add: dict_ok_map_of_iff)
    with inv show "node_inv p il (Suc pos) (ods @ [True])" by (rule node_inv_subset)
  qed
  show ?case
    unfolding reaches_def
  proof (intro allI impI)
    fix env inp i
    assume i: "i \<in> set ?I" and acc: "accepts g env inp (p i)"
    have tok: "token_of (p i ! pos) = token_of od" using same i by (simp add: token_of_def)
    obtain part where
      part: "map_of (final_parts parts) (od_key (env (token_of od)) (dkeys (final_parts parts))) = Some part"
        "i \<in> entry_instruction ` set part"
      using final_parts_select [OF ok i accepts_od [OF acc] refl] dec i tok by auto
    have dk': "dict_ok ?ks" using dk unfolding dict_ok_def keys .
    have look': "map_of ?ks (od_key (env (token_of od)) (dkeys (final_parts parts))) =
        Some (map entry_instruction part)" unfolding look part(1) by simp
    have i': "i \<in> set (map entry_instruction part)" using part(2) by simp
    obtain t where
      t: "map_of ts (od_key (env (token_of od)) (dkeys (final_parts parts))) = Some t"
        "walk env inp t (real_pos (ods @ [True])) = Some [i]"
      using all_kids_reach [OF kids dk' look' i' acc] by blast
    show "walk env inp (GNode (node\<lparr>node_decider := Some od, skipped_bits := k,
            child_od_key_values := Some vals\<rparr>) ts) (real_pos ods - k) = Some [i]"
      using od_node.prems(1,3) kids_dkeys [OF kids, unfolded keys]
      by (intro walk_inner [OF t(1) _ t(2)]) (simp add: walk_edge_def)
  qed
next
  case (no_kids pos p)
  then show ?case by simp
next
  case (a_kid n ilist pos p t q ks ts p' key)
  have pq: "stores_same pos p q" by (rule builds_stores(1) [OF a_kid.IH(1)])
  have "reaches g p ilist pos ods t (real_pos ods)"
    using a_kid.IH(2) [of ods] a_kid.hyps(1,2) a_kid.prems by simp
  moreover have "list_all2 (\<lambda>kl kt. fst kl = fst kt \<and> reaches g q (snd kl) pos ods (snd kt) (real_pos ods)) ks ts"
    using a_kid.prems node_inv_same [OF pq] by (intro a_kid.IH(4)) auto
  then have "list_all2 (\<lambda>kl kt. fst kl = fst kt \<and> reaches g p (snd kl) pos ods (snd kt) (real_pos ods)) ks ts"
    by (rule list_all2_mono) (blast intro: reaches_same [OF pq])
  ultimately show ?case by simp
qed

section \<open>Properties\<close>

definition parsed_pattern ::
  "(string, nat) dict \<Rightarrow> (string \<Rightarrow> bool res) \<Rightarrow> (string, string list) dict \<Rightarrow> bit_info list \<Rightarrow> bool" where
  "parsed_pattern widths skip sd bs \<longleftrightarrow>
     (\<exists>line spec other. parse_opcode_spec widths skip line sd = Inr (Some spec, other) \<and>
        bs = all_bit_infos spec)"

lemma parsed_pattern_wf: "parsed_pattern widths skip sd bs \<Longrightarrow> wf_bits bs"
  by (auto simp: parsed_pattern_def spec_ok_def infos_ok_def wf_bits_def dest: parse_opcode_spec_ok)

lemma build_graph_builds:
  assumes "build_graph limit g nt_name ilist st = Inr (t, st')"
  obtains n where "fresh n" "node_instructions n = ilist" "builds g 0 0 n (pats st) t (pats st')"
proof -
  obtain n st1 where n: "graph_node_new (EStr nt_name) 0 st = (n, st1)"
    by (cases "graph_node_new (EStr nt_name) 0 st")
  have st1: "pats st1 = pats st" using n graph_node_new_sel(1) [of "EStr nt_name" 0 st] by simp
  have b: "build_sub_graph limit g 0 0 (n\<lparr>node_instructions := ilist\<rparr>) st1 = Inr (t, st')"
    using assms by (simp add: build_graph_def n)
  show thesis
    by (rule that [OF _ _ sound_builderD [OF build_sub_graph_sound b, unfolded st1]])
      (use n in \<open>auto simp: graph_node_new_def fresh_def\<close>)
qed

lemma build_graph_walk:
  assumes "build_graph limit g nt_name ilist st = Inr (t, st')"
    and "\<forall>i \<in> set ilist. wf_bits (pats st i)" and "i \<in> set ilist" and "accepts g env inp (pats st i)"
  shows "walk env inp t 0 = Some [i]"
proof -
  obtain n where n: "fresh n" "node_instructions n = ilist" "builds g 0 0 n (pats st) t (pats st')"
    using assms(1) by (rule build_graph_builds)
  have "node_inv (pats st) (node_instructions n) 0 []"
    using assms(2) by (simp add: node_inv_def n(2))
  from builds_reaches(1) [OF n(3,1) this] assms(3,4) show ?thesis
    by (simp add: reaches_def n(2))
qed

text \<open>
  C5: When the graph of a list of parsed patterns can be built, an input (operand values and bits)
  that the pattern of an instruction accepts leads from the root to a leaf that holds exactly this
  instruction, whatever splits, back-splits, splattering and rearrangements the construction made.
\<close>

theorem decode_graph_finds:
  assumes "build_graph limit g nt_name ilist st = Inr (t, st')"
    and "\<forall>i \<in> set ilist. parsed_pattern widths skip sd (pats st i)"
    and "i \<in> set ilist" and "accepts g env inp (pats st i)"
  shows "walk env inp t 0 = Some [i]"
  using assms by (intro build_graph_walk) (auto intro: parsed_pattern_wf)

definition sample_grammar :: grammar where
  "sample_grammar = \<lparr>state_space = [(''MOD'', [0, 1, 2, 3])], storage_dict = []\<rparr>"

definition sample_pattern_lines :: "string list" where
  "sample_pattern_lines = [''MOD=3 01'', ''0 MOD!=3 1'', ''MOD=3 1n'']"

definition sample_bit :: "char \<Rightarrow> int \<Rightarrow> bit_info" where
  "sample_bit c k = \<lparr>btype = get_btype c, bvalue = [c], pbit = k, btoken = None, btest = None,
     brequirement = None\<rparr>"

definition sample_od :: "od_test \<Rightarrow> string \<Rightarrow> int \<Rightarrow> bit_info" where
  "sample_od test v k = \<lparr>btype = BOperand, bvalue = v, pbit = k, btoken = Some ''MOD'', btest = Some test,
     brequirement = Some 3\<rparr>"

definition sample_bits :: "bit_info list list" where
  "sample_bits =
     [[sample_od OdEq ''MOD=3'' 0, sample_bit CHR ''0'' 1, sample_bit CHR ''1'' 2],
      [sample_bit CHR ''0'' 0, sample_od OdNe ''MOD!=3'' 1, sample_bit CHR ''1'' 2],
      [sample_od OdEq ''MOD=3'' 0, sample_bit CHR ''1'' 1, sample_bit CHR ''n'' 2]]"

definition sample_graph_state :: graph_state where
  "sample_graph_state =
     \<lparr>pats = (\<lambda>i. if i < 3 then sample_bits ! i else []), global_node_num = 0\<rparr>"

definition sample_graph :: gtree where
  "sample_graph =
     (case build_graph 12 sample_grammar ''NT'' [0, 1, 2] sample_graph_state of
        Inr (t, st') \<Rightarrow> t | Inl e \<Rightarrow> GNode (fst (graph_node_new (EStr ''NT'') 0 sample_graph_state)) [])"

lemma sample_patterns_parsed:
  "\<forall>i \<in> set [0, 1, 2]. parsed_pattern [] (\<lambda>_. Inr False) [] (pats sample_graph_state i)"
proof
  fix i :: nat assume "i \<in> set [0, 1, 2]"
  then have i: "i \<in> {0, 1, 2}" by simp
  have "\<forall>i \<in> {0, 1, 2}. (case parse_opcode_spec [] (\<lambda>_. Inr False) (sample_pattern_lines ! i) [] of
      Inr (Some spec, other) \<Rightarrow> all_bit_infos spec = pats sample_graph_state i | _ \<Rightarrow> False)"
    by code_simp
  with i have "(case parse_opcode_spec [] (\<lambda>_. Inr False) (sample_pattern_lines ! i) [] of
      Inr (Some spec, other) \<Rightarrow> all_bit_infos spec = pats sample_graph_state i | _ \<Rightarrow> False)"
    by (rule bspec [rotated])
  then show "parsed_pattern [] (\<lambda>_. Inr False) [] (pats sample_graph_state i)"
    unfolding parsed_pattern_def by (simp split: sum.splits prod.splits option.splits) metis
qed

lemma sample_graph_built:
  obtains st' where
    "build_graph 12 sample_grammar ''NT'' [0, 1, 2] sample_graph_state = Inr (sample_graph, st')"
proof -
  have "(case build_graph 12 sample_grammar ''NT'' [0, 1, 2] sample_graph_state of
      Inr (t, st') \<Rightarrow> True | Inl e \<Rightarrow> False)" by code_simp
  with that show thesis by (auto simp: sample_graph_def split: sum.splits prod.splits)
qed

definition sample_env :: "string \<Rightarrow> int" where
  "sample_env = (\<lambda>_. 1)"

theorem decode_graph_finds_witness:
  "accepts sample_grammar sample_env (\<lambda>k. k = 1) (pats sample_graph_state 1) \<and>
   walk sample_env (\<lambda>k. k = 1) sample_graph 0 = Some [1]"
proof -
  obtain st' where
    b: "build_graph 12 sample_grammar ''NT'' [0, 1, 2] sample_graph_state = Inr (sample_graph, st')"
    by (rule sample_graph_built)
  have acc: "accepts sample_grammar sample_env (\<lambda>k. k = 1) (pats sample_graph_state 1)" by code_simp
  from decode_graph_finds [OF b sample_patterns_parsed _ this] acc show ?thesis by simp
qed

text \<open>
  C18: When the graph of a list of parsed patterns can be built, no input is accepted by two of the
  instructions, and the patterns the construction leaves behind accept the same inputs as before.
\<close>

theorem decode_patterns_unambiguous:
  assumes "build_graph limit g nt_name ilist st = Inr (t, st')"
    and "\<forall>i \<in> set ilist. parsed_pattern widths skip sd (pats st i)"
  shows "(\<forall>i \<in> set ilist. \<forall>j \<in> set ilist. i \<noteq> j \<longrightarrow>
            \<not> (accepts g env inp (pats st i) \<and> accepts g env inp (pats st j))) \<and>
         (\<forall>i. accepts g env inp (pats st' i) = accepts g env inp (pats st i))"
proof -
  have wf: "\<forall>i \<in> set ilist. wf_bits (pats st i)" using assms(2) by (auto intro: parsed_pattern_wf)
  obtain n where "builds g 0 0 n (pats st) t (pats st')" using assms(1) by (rule build_graph_builds)
  then have "stores_same 0 (pats st) (pats st')" by (rule builds_stores(1))
  with build_graph_walk [OF assms(1) wf] show ?thesis
    by (auto simp: stores_same_accepts) (metis option.inject list.inject)
qed

theorem decode_patterns_unambiguous_witness:
  "accepts sample_grammar sample_env (\<lambda>k. k = 1) (pats sample_graph_state 1) \<and>
   \<not> accepts sample_grammar sample_env (\<lambda>k. k = 1) (pats sample_graph_state 0) \<and>
   \<not> accepts sample_grammar sample_env (\<lambda>k. k = 1) (pats sample_graph_state 2)"
proof -
  obtain st' where
    b: "build_graph 12 sample_grammar ''NT'' [0, 1, 2] sample_graph_state = Inr (sample_graph, st')"
    by (rule sample_graph_built)
  have acc: "accepts sample_grammar sample_env (\<lambda>k. k = 1) (pats sample_graph_state 1)" by code_simp
  note u = decode_patterns_unambiguous [OF b sample_patterns_parsed, where env = sample_env
      and inp = "\<lambda>k. k = 1", THEN conjunct1]
  have "\<not> accepts sample_grammar sample_env (\<lambda>k. k = 1) (pats sample_graph_state i)"
    if "i \<in> set [0, 1, 2]" "i \<noteq> 1" for i
    using u [THEN bspec, OF that(1), THEN bspec, of 1] that(2) acc by simp
  with acc show ?thesis by simp
qed

end
