(* ===== verification/Graph_Total.thy ===== *)
theory Graph_Total
  imports Decode_Graph
begin

text \<open>
  How deep the construction of a decode graph recurses: every call either looks at the next
  element of the patterns or, at a back-split, has fewer instructions.  A depth of the longest
  pattern plus the number of instructions is therefore enough, and the construction then either
  returns a graph or ends with a message; without instructions no depth is enough.
\<close>

section \<open>Errors the construction may end with\<close>

text \<open>A message, or the variable that is never set for an enumeration outside the state space.\<close>

definition benign :: "'a res \<Rightarrow> bool" where
  "benign r \<longleftrightarrow> (case r of Inr x \<Rightarrow> True | Inl (Die m) \<Rightarrow> True | Inl UnboundLocalError \<Rightarrow> True | _ \<Rightarrow> False)"

lemma benign_simps [simp]:
  "benign (Inr x)" "benign (Inl (Die m))" "benign (Inl UnboundLocalError)"
  "\<not> benign (Inl IndexError)" "\<not> benign (Inl RecursionError)"
  by (simp_all add: benign_def)

lemma benign_rbind:
  "benign r \<Longrightarrow> (\<And>x. r = Inr x \<Longrightarrow> benign (f x)) \<Longrightarrow> benign (rbind r f)"
  by (cases r) (auto simp: benign_def split: py_error.splits)

lemma benign_foldM:
  "(\<And>x s. x \<in> set xs \<Longrightarrow> benign (f x s)) \<Longrightarrow> benign (foldM f xs s)"
  by (induction xs arbitrary: s) (auto intro: benign_rbind)

lemma bit_at_benign: "pos < length (p i) \<Longrightarrow> bit_at p pos i = Inr (p i ! pos)"
  by (simp add: bit_at_def)

lemma partition_nodes_benign:
  "\<forall>i \<in> set ilist. pos < length (p i) \<Longrightarrow> benign (partition_nodes p ilist pos)"
  by (induction ilist) (auto simp: bit_at_benign intro!: benign_rbind split: prod.splits)

lemma no_dont_cares_benign:
  "\<forall>i \<in> set ilist. pos < length (p i) \<Longrightarrow> benign (no_dont_cares p ilist pos)"
  by (induction ilist) (auto simp: bit_at_benign)

lemma some_different_benign:
  assumes "\<forall>i \<in> set ilist. pos < length (p i)"
  shows "benign (some_different p ilist pos)"
proof -
  have "benign (count_bits p ilist pos)"
    using assms by (induction ilist) (auto simp: bit_at_benign intro!: benign_rbind split: prod.splits)
  then show ?thesis by (auto simp: some_different_def intro!: benign_rbind)
qed

lemma scan_backwards_benign:
  "\<forall>i \<in> set ilist. pos \<le> length (p i) \<Longrightarrow>
   benign (scan_backwards_for_distinguishing_bit p ilist pos)"
proof (induction pos)
  case 0
  then show ?case by simp
next
  case (Suc pos)
  then have "\<forall>i \<in> set ilist. pos < length (p i)" "\<forall>i \<in> set ilist. pos \<le> length (p i)" by auto
  with Suc.IH show ?case
    by (auto intro!: benign_rbind no_dont_cares_benign some_different_benign)
qed

lemma collect_required_values_benign:
  "\<forall>i \<in> set ilist. pos < length (p i) \<Longrightarrow> benign (collect_required_values p ilist pos d)"
  by (induction ilist arbitrary: d) (auto simp: bit_at_benign)

lemma od_values_benign: "benign (od_values g token)"
  by (simp add: od_values_def split: option.splits)

lemma partition_by_required_values_benign:
  assumes "\<forall>i \<in> set ilist. pos < length (p i)"
  shows "benign (partition_by_required_values g p ilist pos token)"
  unfolding partition_by_required_values_def partition_one_def
  using assms
  by (auto simp: bit_at_benign split_beta intro!: benign_rbind benign_foldM od_values_benign)

lemma make_od_children_benign: "benign (make_od_children pos parts st)"
proof (induction pos parts st rule: make_od_children.induct)
  case (1 pos st)
  then show ?case by simp
next
  case (2 pos k part parts st)
  then show ?case
    by (cases "graph_node_new k pos st") (auto intro!: benign_rbind)
qed

section \<open>A sufficient depth\<close>

text \<open>The calls a bound covers: the rest of the patterns plus the number of instructions.\<close>

definition covered :: "nat \<Rightarrow> nat \<Rightarrow> nat list \<Rightarrow> nat \<Rightarrow> patterns \<Rightarrow> bool" where
  "covered n pos ilist len p \<longleftrightarrow>
     ilist \<noteq> [] \<and> (\<forall>i \<in> set ilist. wf_bits (p i) \<and> pos \<le> length (p i) \<and> length (p i) \<le> len) \<and>
     len - pos + card (set ilist) < n"

definition ample :: "nat \<Rightarrow> builder \<Rightarrow> bool" where
  "ample n build \<longleftrightarrow>
     (\<forall>pos k node st len. covered n pos (node_instructions node) len (pats st) \<longrightarrow>
        benign (build pos k node st))"

lemma ampleD:
  "ample n build \<Longrightarrow> covered n pos (node_instructions node) len (pats st) \<Longrightarrow>
   benign (build pos k node st)"
  unfolding ample_def by blast

lemma stores_same_wf: "stores_same pos p q \<Longrightarrow> wf_bits (p i) \<Longrightarrow> wf_bits (q i)"
  unfolding stores_same_def by (blast intro: same_from_wf)

lemma covered_same: "stores_same pos' p q \<Longrightarrow> covered n pos ilist len p \<Longrightarrow> covered n pos ilist len q"
  by (auto simp: covered_def stores_same_length intro: stores_same_wf)

lemma covered_wf: "covered n pos ilist len p \<Longrightarrow> \<forall>i \<in> set ilist. wf_bits (p i)"
  by (simp add: covered_def)

lemma covered_next:
  assumes "covered (Suc n) pos ilist len p" and "\<forall>i \<in> set ilist. pos < length (p i)"
    and "ilist' \<noteq> []" and "set ilist' \<subseteq> set ilist"
  shows "covered n (Suc pos) ilist' len p"
proof -
  have "card (set ilist') \<le> card (set ilist)" using assms(4) by (intro card_mono) auto
  moreover obtain i where "i \<in> set ilist" using assms(1) by (cases ilist) (auto simp: covered_def)
  then have "pos < len" using assms(1,2) by (fastforce simp: covered_def)
  ultimately show ?thesis using assms by (auto simp: covered_def subset_iff Suc_le_eq)
qed

lemma covered_fewer:
  assumes "covered (Suc n) pos ilist len p" and "ilist' \<noteq> []" and "set ilist' \<subset> set ilist"
  shows "covered n pos ilist' len p"
proof -
  have "card (set ilist') < card (set ilist)" using assms(3) by (intro psubset_card_mono) auto
  with assms show ?thesis by (auto simp: covered_def)
qed

lemma bit_children_benign:
  assumes ample: "ample n build" and sound: "sound_builder g build"
  shows "\<forall>(key, il) \<in> set ks. covered n pos il len (pats st) \<Longrightarrow>
         benign (bit_children (build pos 0) bitpos ks st)"
proof (induction ks arbitrary: st)
  case Nil
  then show ?case by simp
next
  case (Cons ki ks)
  obtain key il where ki: "ki = (key, il)" by (cases ki)
  obtain m st1 where m: "graph_node_new key bitpos st = (m, st1)" by (cases "graph_node_new key bitpos st")
  have st1: "pats st1 = pats st" using m graph_node_new_sel(1) [of key bitpos st] by simp
  have "benign (build pos 0 (m\<lparr>node_instructions := il\<rparr>) st1)"
    using Cons.prems by (intro ampleD [OF ample, where len = len]) (simp add: ki st1)
  moreover have "benign (bit_children (build pos 0) bitpos ks st2)"
    if "build pos 0 (m\<lparr>node_instructions := il\<rparr>) st1 = Inr (t, st2)" for t st2
  proof -
    have "stores_same pos (pats st) (pats st2)"
      using builds_stores(1) [OF sound_builderD [OF sound that]] by (simp add: st1)
    then show ?thesis using Cons.prems covered_same by (intro Cons.IH) (auto simp: ki)
  qed
  ultimately show ?case by (auto simp: ki bit_child_def m intro!: benign_rbind)
qed

lemma build_children_benign:
  assumes ample: "ample n build" and sound: "sound_builder g build"
  shows "\<forall>(key, node) \<in> set ns. covered n pos (node_instructions node) len (pats st) \<Longrightarrow>
         benign (build_children (build pos 0) ns st)"
proof (induction ns arbitrary: st)
  case Nil
  then show ?case by simp
next
  case (Cons kn ns)
  obtain key node where kn: "kn = (key, node)" by (cases kn)
  have "benign (build pos 0 node st)"
    using Cons.prems by (intro ampleD [OF ample, where len = len]) (simp add: kn)
  moreover have "benign (build_children (build pos 0) ns st2)"
    if "build pos 0 node st = Inr (t, st2)" for t st2
  proof -
    have "stores_same pos (pats st) (pats st2)"
      by (rule builds_stores(1) [OF sound_builderD [OF sound that]])
    then show ?thesis using Cons.prems covered_same by (intro Cons.IH) (auto simp: kn)
  qed
  ultimately show ?case by (auto simp: kn intro!: benign_rbind)
qed

lemma back_split_benign:
  assumes ample: "ample n build" and sound: "sound_builder g build"
    and cov: "covered (Suc n) pos (node_instructions node) len (pats st)"
  shows "benign (back_split build node pos k msg st)"
proof -
  let ?I = "node_instructions node"
  have le: "\<forall>i \<in> set ?I. pos \<le> length (pats st i)" using cov by (simp add: covered_def)
  have graph: "benign (back_split_graph build node pos k sp st)" if sp: "sp < pos" for sp
  proof -
    have lt: "\<forall>i \<in> set ?I. sp < length (pats st i)" using le sp by auto
    have "benign (bit_children (build pos 0) (pos + 7) [(EStr ''0'', zeros), (EStr ''1'', ones)] st)"
      if part: "partition_nodes (pats st) ?I sp = Inr (ones, zeros, others)" "zeros \<noteq> []" "ones \<noteq> []"
      for ones zeros others
    proof -
      have "set zeros \<inter> set ones = {}" "set zeros \<subseteq> set ?I" "set ones \<subseteq> set ?I"
        using partition_nodes_Inr(1,2) [OF part(1)] by auto
      moreover obtain i j where "i \<in> set zeros" "j \<in> set ones"
        using part(2,3) by (cases zeros; cases ones) auto
      ultimately have sub: "set zeros \<subset> set ?I" "set ones \<subset> set ?I" by auto
      show ?thesis
        using covered_fewer [OF cov part(2) sub(1)] covered_fewer [OF cov part(3) sub(2)]
        by (intro bit_children_benign [OF ample sound, where len = len]) auto
    qed
    moreover have "benign (convert_splitpos_to_bit_index (pats st) ?I sp)"
      using cov by (auto simp: convert_splitpos_to_bit_index_def covered_def split: list.splits)
    ultimately show ?thesis
      unfolding back_split_graph_def
      by (auto simp del: bit_children.simps intro!: benign_rbind partition_nodes_benign [OF lt])
  qed
  show ?thesis
    unfolding back_split_def
    by (auto intro!: benign_rbind scan_backwards_benign [OF le] graph dest: scan_backwards_less
        split: option.splits)
qed

lemma decider_branch_benign:
  assumes ample: "ample n build" and sound: "sound_builder g build"
    and cov: "covered (Suc n) pos (node_instructions node) len (pats st)"
    and same: "all_same_operand_decider (pats st) (node_instructions node) pos = Some od"
  shows "benign (decider_branch g build node pos k od st)"
proof -
  let ?I = "node_instructions node"
  have lt: "\<forall>i \<in> set ?I. pos < length (pats st i)" using same_decider [OF same] by auto
  have kids: "benign (build_children (build (Suc pos) 0) ns st1)"
    if part: "partition_by_required_values g (pats st) ?I pos (btoken od) = Inr (parts, vals)"
      and ns: "make_od_children pos (final_parts parts) st = Inr (ns, st1)" for parts vals ns st1
  proof (intro build_children_benign [OF ample sound, where len = len] ballI, clarify)
    fix key child
    assume mem: "(key, child) \<in> set ns"
    have "\<forall>i \<in> set ?I. btest (pats st i ! pos) \<noteq> None"
      using covered_wf [OF cov] same_decider [OF same] by (auto simp: wf_bits_def decider_ok_def)
    note ok = partition_by_required_values_ok [OF part this]
    have "(key, node_instructions child) \<in> set (map (\<lambda>(key, n). (key, node_instructions n)) ns)"
      using mem by force
    then obtain p where p: "(key, p) \<in> set (final_parts parts)"
        "node_instructions child = map entry_instruction p"
      using make_od_children_Inr [OF ns] by auto
    from p(1) have "map_of (final_parts parts) key = Some p"
      using final_parts_dict_ok [OF ok] by (simp add: dict_ok_map_of_iff)
    from final_parts_instructions [OF ok this]
    show "covered n (Suc pos) (node_instructions child) len (pats st1)"
      using covered_next [OF cov lt] make_od_children_Inr [OF ns] p(2) by simp
  qed
  show ?thesis
    unfolding decider_branch_def
    using kids
    by (auto intro!: benign_rbind collect_required_values_benign [OF lt] make_od_children_benign
        partition_by_required_values_benign [OF lt])
qed

lemma bit_branch_benign:
  assumes ample: "ample n build" and sound: "sound_builder g build"
    and cov: "covered (Suc n) pos (node_instructions node) len (pats st)"
    and lt: "\<forall>i \<in> set (node_instructions node). pos < length (pats st i)"
  shows "benign (bit_branch build node pos k st)"
proof -
  let ?I = "node_instructions node"
  have main: "benign (bit_children (build (Suc pos) 0) pos
      (if ones \<noteq> [] \<and> zeros = [] then [(EStr ''1'', ones)]
       else if ones = [] \<and> zeros \<noteq> [] then [(EStr ''0'', zeros)]
       else [(EStr ''0'', zeros), (EStr ''1'', ones)]) st)"
    if part: "partition_nodes (pats st) ?I pos = Inr (ones, zeros, [])" for ones zeros
  proof -
    note p = partition_nodes_Inr(1,2,3) [OF part]
    obtain i where "i \<in> set ?I" using cov by (cases ?I) (auto simp: covered_def)
    then have "i \<in> set ones \<or> i \<in> set zeros" using p by (auto simp: filter_empty_conv eq_commute [of "[]"])
    then have ne: "ones \<noteq> [] \<or> zeros \<noteq> []" by auto
    have "set zeros \<subseteq> set ?I" "set ones \<subseteq> set ?I" using p(1,2) by auto
    with ne show ?thesis
      using covered_next [OF cov lt]
      by (intro bit_children_benign [OF ample sound, where len = len]) (auto split: if_splits)
  qed
  have skip: "benign (build (Suc pos) (Suc k) node st)"
    using covered_next [OF cov lt, of ?I] cov by (intro ampleD [OF ample, where len = len]) (auto simp: covered_def)
  show ?thesis
    unfolding bit_branch_def Let_def
    using main skip
    by (auto simp del: bit_children.simps intro!: benign_rbind partition_nodes_benign [OF lt] split: if_splits)
qed

lemma split_loop_benign:
  assumes ample: "ample n build" and sound: "sound_builder g build"
  shows "covered (Suc n) pos (node_instructions node) len (pats st) \<Longrightarrow>
         \<forall>i \<in> set (node_instructions node). pos < length (pats st i) \<Longrightarrow>
         benign (split_loop m g build node pos k st)"
proof (induction m arbitrary: st)
  case 0
  then show ?case by simp
next
  case (Suc m)
  let ?I = "node_instructions node"
  note cov = Suc.prems(1) and lt = Suc.prems(2)
  show ?case
  proof (cases "all_same_operand_decider (pats st) ?I pos")
    case (Some od)
    with decider_branch_benign [OF ample sound cov Some] show ?thesis by simp
  next
    case od: None
    show ?thesis
    proof (cases "all_same_nonterminal (pats st) ?I pos")
      case (Some nt)
      have "benign (bit_children (build (Suc pos) 0) pos [(EStr ''-'', ?I)] st)"
        using covered_next [OF cov lt] cov
        by (intro bit_children_benign [OF ample sound, where len = len]) (auto simp: covered_def)
      with od Some show ?thesis
        by (auto simp: nonterminal_branch_def simp del: bit_children.simps intro!: benign_rbind)
    next
      case nt: None
      obtain ok p where r: "rearrange_at_conflict ?I pos (pats st) = (ok, p)"
        by (cases "rearrange_at_conflict ?I pos (pats st)")
      have same: "stores_same pos (pats st) p" by (rule rearrange_at_conflict_same [OF r])
      let ?st = "st\<lparr>pats := p\<rparr>"
      have cov': "covered (Suc n) pos ?I len (pats ?st)"
        using covered_same [OF same cov] by simp
      have "\<forall>i \<in> set ?I. pos < length (pats ?st i)"
        using lt by (simp add: stores_same_length [OF same])
      then have "benign (split_loop m g build node pos k ?st)" by (rule Suc.IH [OF cov'])
      moreover have "benign (back_split build node pos k msg ?st)" for msg
        by (rule back_split_benign [OF ample sound cov'])
      moreover have "benign (bit_branch build node pos k st)"
        by (rule bit_branch_benign [OF ample sound cov lt])
      ultimately show ?thesis
        using od nt r by (auto simp: Let_def intro!: benign_rbind partition_nodes_benign [OF lt])
    qed
  qed
qed

lemma build_sub_graph_step_ample:
  assumes ample: "ample n build" and sound: "sound_builder g build"
  shows "ample (Suc n) (build_sub_graph_step g build)"
  unfolding ample_def
proof (intro allI impI)
  fix pos k :: nat and node :: graph_node and st :: graph_state and len :: nat
  assume cov: "covered (Suc n) pos (node_instructions node) len (pats st)"
  let ?I = "node_instructions node"
  have bs: "benign (back_split build node pos k msg st)" for msg
    by (rule back_split_benign [OF ample sound cov])
  consider "at_end_of_instructions (pats st) ?I pos = 0" | "at_end_of_instructions (pats st) ?I pos = 1"
    | "at_end_of_instructions (pats st) ?I pos = -1"
    using at_end_values by blast
  then show "benign (build_sub_graph_step g build pos k node st)"
  proof cases
    case 1
    with split_loop_benign [OF ample sound cov at_end_0 [OF 1], of 2 k] show ?thesis
      by (simp add: build_sub_graph_step_def del: split_loop.simps)
  next
    case 2
    with bs show ?thesis by (auto simp: build_sub_graph_step_def)
  next
    case 3
    with bs show ?thesis by (auto simp: build_sub_graph_step_def)
  qed
qed

lemma build_sub_graph_ample: "ample limit (build_sub_graph limit g)"
proof (induction limit)
  case 0
  then show ?case by (simp add: ample_def covered_def)
next
  case (Suc limit)
  then show ?case by (simp add: build_sub_graph_step_ample build_sub_graph_sound)
qed

section \<open>Properties\<close>

text \<open>
  C15: For a non-empty list of instructions whose patterns come from the pattern parser and are at
  most \<open>len\<close> elements long, a recursion depth of \<open>len\<close> plus the number of instructions plus one
  is enough: the construction returns a graph or ends with one of its messages (or with the
  variable left unset for an enumeration); it never exhausts the recursion and never indexes past
  the end of a pattern.
\<close>

theorem graph_construction_terminates:
  assumes "ilist \<noteq> []" and "len + card (set ilist) < limit"
    and "\<forall>i \<in> set ilist. length (pats st i) \<le> len \<and> parsed_pattern widths skip sd (pats st i)"
  shows "(\<exists>t st'. build_graph limit g nt_name ilist st = Inr (t, st')) \<or>
         (\<exists>msg. build_graph limit g nt_name ilist st = Inl (Die msg)) \<or>
         build_graph limit g nt_name ilist st = Inl UnboundLocalError"
proof -
  obtain n st1 where n: "graph_node_new (EStr nt_name) 0 st = (n, st1)"
    by (cases "graph_node_new (EStr nt_name) 0 st")
  have "pats st1 = pats st" using n graph_node_new_sel(1) [of "EStr nt_name" 0 st] by simp
  moreover have "wf_bits (pats st i)" if "i \<in> set ilist" for i
    using assms(3) that by (auto intro: parsed_pattern_wf)
  ultimately have "covered limit 0 (node_instructions (n\<lparr>node_instructions := ilist\<rparr>)) len (pats st1)"
    using assms by (auto simp: covered_def)
  from ampleD [OF build_sub_graph_ample this]
  have "benign (build_graph limit g nt_name ilist st)" by (simp add: build_graph_def n)
  then show ?thesis
    by (cases "build_graph limit g nt_name ilist st")
      (auto simp: benign_def split: py_error.splits)
qed

theorem graph_construction_terminates_witness:
  "(\<exists>t st'. build_graph 12 sample_grammar ''NT'' [0, 1, 2] sample_graph_state = Inr (t, st')) \<or>
   (\<exists>msg. build_graph 12 sample_grammar ''NT'' [0, 1, 2] sample_graph_state = Inl (Die msg)) \<or>
   build_graph 12 sample_grammar ''NT'' [0, 1, 2] sample_graph_state = Inl UnboundLocalError"
proof -
  have "\<forall>i \<in> set [0, 1, 2]. length (pats sample_graph_state i) \<le> 8" by code_simp
  then have "\<forall>i \<in> set [0, 1, 2]. length (pats sample_graph_state i) \<le> 8 \<and>
      parsed_pattern [] (\<lambda>_. Inr False) [] (pats sample_graph_state i)"
    using sample_patterns_parsed by blast
  then show ?thesis by (rule graph_construction_terminates [rotated 2]) simp_all
qed

lemma build_sub_graph_nothing:
  "node_instructions node = [] \<Longrightarrow> build_sub_graph limit g pos k node st = Inl RecursionError"
proof (induction limit arbitrary: pos k node st)
  case 0
  then show ?case by simp
next
  case (Suc limit)
  have two: "(2::nat) = Suc 1" by simp
  obtain n st1 where n: "graph_node_new (EStr ''0'') pos st = (n, st1)"
    by (cases "graph_node_new (EStr ''0'') pos st")
  show ?case
    using Suc
    by (simp add: build_sub_graph_step_def at_end_of_instructions_def two n
        all_same_operand_decider_def all_same_nonterminal_def some_funky_spot_def bit_branch_def bit_child_def)
qed

text \<open>
  C40: For a nonterminal without instructions the construction does not end: no recursion depth is
  enough.
\<close>

theorem graph_of_no_instructions:
  "build_graph limit g nt_name [] st = Inl RecursionError"
  by (cases "graph_node_new (EStr nt_name) 0 st") (simp add: build_graph_def build_sub_graph_nothing)

end
