(* ===== verification/Graph_Merge.thy ===== *)
theory Graph_Merge
  imports Graph_Total
begin

text \<open>
  The passes over a finished decode graph (\<open>merge_nodes\<close>, \<open>renumber_nodes\<close>, \<open>optimize_graph\<close>,
  \<open>epsilon_label_graph\<close>, \<open>collect_tree_depth\<close> of \<open>pysrc/generator.py\<close>).  Merging joins a node on
  bits with its children on bits, so that it decides more bits at once.  The lemmas show that on a
  graph the construction made, the passes succeed, that every input still leads to the same leaf,
  and that the new node numbers are consecutive.
\<close>

section \<open>Merging\<close>

definition edge_str :: "edge \<Rightarrow> string" where
  "edge_str k = (case k of EStr s \<Rightarrow> s | ENum v \<Rightarrow> str_int v)"

definition all_the_same :: "'a list \<Rightarrow> bool res" where
  "all_the_same lst =
     (case lst of [] \<Rightarrow> Inl IndexError | first # _ \<Rightarrow> Inr (list_all (\<lambda>x. x = first) lst))"

definition set_token :: "edge \<Rightarrow> gtree \<Rightarrow> gtree" where
  "set_token token t = GNode (node_of t\<lparr>node_token := token\<rparr>) (kids t)"

definition add_grandchild ::
  "edge \<Rightarrow> edge \<times> gtree \<Rightarrow> (edge, gtree) dict \<Rightarrow> (edge, gtree) dict" where
  "add_grandchild k jg tnode =
     (let bigkey = EStr (edge_str k @ edge_str (fst jg))
      in dset bigkey (set_token bigkey (snd jg)) tnode)"

definition add_grandchildren :: "edge \<times> gtree \<Rightarrow> (edge, gtree) dict \<Rightarrow> (edge, gtree) dict" where
  "add_grandchildren kc tnode = fold (add_grandchild (fst kc)) (kids (snd kc)) tnode"

definition merge_child_nodes :: "gtree \<Rightarrow> gtree" where
  "merge_child_nodes t =
     GNode (node_of t\<lparr>decider_bits := decider_bits (node_of t) + 1\<rparr>)
       (fold add_grandchildren (kids t) [])"

text \<open>The tests before a merge, on the children.\<close>

definition child_matches :: "graph_node \<Rightarrow> bool" where
  "child_matches child \<longleftrightarrow>
     back_split_pos child = None \<and> \<not> node_is_nonterminal child \<and> decider_bits child \<noteq> 0 \<and>
     skipped_bits child = 0"

definition may_merge :: "gtree \<Rightarrow> bool res" where
  "may_merge t =
     (let bits = map (\<lambda>c. decider_bits (node_of c)) (dvals (kids t))
      in rbind (all_the_same bits) (\<lambda>same.
           Inr (same \<and> hd bits \<noteq> 8 \<and> list_all (\<lambda>c. child_matches (node_of c)) (dvals (kids t)))))"

fun gsize :: "gtree \<Rightarrow> nat" where
  "gsize (GNode n ks) = Suc (sum_list (map (\<lambda>kc. gsize (snd kc)) ks))"

abbreviation kids_size :: "(edge \<times> gtree) list \<Rightarrow> nat" where
  "kids_size ks \<equiv> sum_list (map (\<lambda>kc. gsize (snd kc)) ks)"

lemma gsize_kids: "gsize t = Suc (kids_size (kids t))"
  by (cases t) simp

lemma gsize_set_token [simp]: "gsize (set_token k t) = gsize t"
  by (cases t) (simp add: set_token_def)

lemma kids_size_dset: "kids_size (dset k t d) \<le> kids_size d + gsize t"
  by (induction d) auto

lemma kids_size_grandchildren:
  "kids_size (add_grandchildren kc d) \<le> kids_size d + kids_size (kids (snd kc))"
proof -
  have "kids_size (fold (add_grandchild k) ks d) \<le> kids_size d + kids_size ks" for k ks d
  proof (induction ks arbitrary: d)
    case Nil
    then show ?case by simp
  next
    case (Cons jg ks)
    have "kids_size (add_grandchild k jg d) \<le> kids_size d + gsize (snd jg)"
      unfolding add_grandchild_def Let_def
      by (rule order_trans [OF kids_size_dset]) simp
    with Cons.IH [of "add_grandchild k jg d"] show ?case by simp
  qed
  then show ?thesis by (simp add: add_grandchildren_def)
qed

lemma merge_child_nodes_size:
  assumes "kids t \<noteq> []"
  shows "gsize (merge_child_nodes t) < gsize t"
proof -
  have le: "kids_size (fold add_grandchildren ks d) + length ks \<le> kids_size d + kids_size ks" for ks d
  proof (induction ks arbitrary: d)
    case Nil
    then show ?case by simp
  next
    case (Cons kc ks)
    have "gsize (snd kc) = Suc (kids_size (kids (snd kc)))" by (rule gsize_kids)
    with Cons.IH [of "add_grandchildren kc d"] kids_size_grandchildren [of kc d] show ?case by simp
  qed
  have "0 < length (kids t)" using assms by simp
  moreover have "kids_size (fold add_grandchildren (kids t) []) + length (kids t) \<le> kids_size (kids t)"
    using le [of "kids t" "[]"] by simp
  ultimately have "kids_size (fold add_grandchildren (kids t) []) < kids_size (kids t)" by linarith
  then show ?thesis by (simp add: gsize_kids [of t] merge_child_nodes_def)
qed

lemma may_merge_kids: "may_merge t = Inr b \<Longrightarrow> kids t \<noteq> []"
  by (auto simp: may_merge_def all_the_same_def)

function merge_loop :: "gtree \<Rightarrow> gtree res" where
  "merge_loop t =
     rbind (may_merge t) (\<lambda>b. if b then merge_loop (merge_child_nodes t) else Inr t)"
  by pat_completeness auto
termination
  by (relation "measure gsize") (auto intro: merge_child_nodes_size dest: may_merge_kids)

declare merge_loop.simps [simp del]

lemma merge_loop_size: "merge_loop t = Inr t' \<Longrightarrow> gsize t' \<le> gsize t"
proof (induction t rule: merge_loop.induct)
  case (1 t)
  from "1.prems" obtain b where b: "may_merge t = Inr b"
    and t': "(if b then merge_loop (merge_child_nodes t) else Inr t) = Inr t'"
    by (subst (asm) merge_loop.simps) (auto simp: rbind_eq_Inr)
  show ?case
  proof (cases b)
    case True
    with "1.IH" [OF b] t' merge_child_nodes_size [OF may_merge_kids [OF b]] show ?thesis by simp
  next
    case False
    with t' show ?thesis by simp
  qed
qed

lemma mapM_cong [fundef_cong]:
  assumes "xs = ys" and "\<And>x. x \<in> set ys \<Longrightarrow> f x = h x"
  shows "mapM f xs = mapM h ys"
proof -
  have "mapM f ys = mapM h ys" using assms(2) by (induction ys) auto
  then show ?thesis by (simp add: assms(1))
qed

lemma kid_gsize: "kc \<in> set ks \<Longrightarrow> gsize (snd kc) \<le> kids_size ks"
  by (rule member_le_sum_list) auto

definition mergeable :: "gtree \<Rightarrow> bool" where
  "mergeable t \<longleftrightarrow>
     \<not> node_is_nonterminal (node_of t) \<and> \<not> leaf t \<and> \<not> node_is_operand_decider (node_of t)"

function merge_nodes :: "gtree \<Rightarrow> gtree res" where
  "merge_nodes t =
     rbind (if mergeable t then merge_loop t else Inr t) (\<lambda>t'.
     rbind (mapM (\<lambda>kc. rbind (merge_nodes (snd kc)) (\<lambda>c. Inr (fst kc, c))) (kids t')) (\<lambda>ks.
       Inr (GNode (node_of t') ks)))"
  by pat_completeness auto
termination
proof (relation "measure gsize", simp)
  fix t t' kc
  assume t': "(if mergeable t then merge_loop t else Inr t) = Inr t'" and kc: "kc \<in> set (kids t')"
  have "gsize t' \<le> gsize t" using t' merge_loop_size by (auto split: if_splits)
  with kid_gsize [OF kc] show "(snd kc, t) \<in> measure gsize" by (simp add: gsize_kids [of t'])
qed

declare merge_nodes.simps [simp del]

section \<open>Renumbering and labelling\<close>

text \<open>The counter is the next number.\<close>

fun renumber_nodes_sub :: "gtree \<Rightarrow> nat \<Rightarrow> gtree \<times> nat"
  and renumber_kids :: "(edge \<times> gtree) list \<Rightarrow> nat \<Rightarrow> (edge \<times> gtree) list \<times> nat" where
  "renumber_nodes_sub (GNode n ks) renum =
     (case renumber_kids ks (Suc renum) of
        (ks, next_renum) \<Rightarrow> (GNode (n\<lparr>node_id := renum\<rparr>) ks, next_renum))"
| "renumber_kids [] renum = ([], renum)"
| "renumber_kids ((k, t) # ks) renum =
     (case renumber_nodes_sub t renum of
        (t, renum) \<Rightarrow> (case renumber_kids ks renum of (ks, renum) \<Rightarrow> ((k, t) # ks, renum)))"

definition renumber_nodes :: "gtree \<Rightarrow> nat \<Rightarrow> gtree \<times> nat" where
  "renumber_nodes t renum = renumber_nodes_sub t renum"

definition optimize_graph :: "gtree \<Rightarrow> nat \<Rightarrow> (gtree \<times> nat) res" where
  "optimize_graph t renum = rbind (merge_nodes t) (\<lambda>t. Inr (renumber_nodes t renum))"

fun epsilon_label_graph :: "gtree \<Rightarrow> gtree" where
  "epsilon_label_graph (GNode n ks) =
     GNode (n\<lparr>otherwise_ok := True\<rparr>) (map (\<lambda>(k, t). (k, epsilon_label_graph t)) ks)"

fun collect_tree_depth :: "gtree \<Rightarrow> (nat, nat) dict \<Rightarrow> nat \<Rightarrow> (nat, nat) dict" where
  "collect_tree_depth (GNode n ks) depths depth =
     (if ks = [] then dset (Suc depth) (dget_default depths (Suc depth) 0 + 1) depths
      else fold (\<lambda>kt depths. collect_tree_depth (snd kt) depths (Suc depth)) ks depths)"

section \<open>Graphs as the construction leaves them\<close>

text \<open>
  A node that decides on bits decides on \<open>d\<close> of them, its children have distinct bit strings of
  that length, and it is neither a decider nor a nonterminal node.
\<close>

definition node_shape :: "nat \<Rightarrow> graph_node \<Rightarrow> (edge \<times> gtree) list \<Rightarrow> bool" where
  "node_shape d n ks \<longleftrightarrow>
     (if decider_bits n = 0 then ks = [] \<or> node_decider n \<noteq> None \<or> node_nonterminal n \<noteq> None
      else decider_bits n = d \<and> ks \<noteq> [] \<and> node_decider n = None \<and> node_nonterminal n = None \<and>
           dict_ok ks \<and> (\<forall>k \<in> set (dkeys ks). \<exists>s. k = EStr s \<and> length s = d))"

fun raw :: "gtree \<Rightarrow> bool" where
  "raw (GNode n ks) \<longleftrightarrow> node_shape 1 n ks \<and> (\<forall>kt \<in> set ks. raw (snd kt))"

lemma raw_iff: "raw t \<longleftrightarrow> node_shape 1 (node_of t) (kids t) \<and> (\<forall>kt \<in> set (kids t). raw (snd kt))"
  by (cases t) simp

lemma kids_keys:
  "builds_kids g pos ks p ts p' \<Longrightarrow> dkeys ts = dkeys ks"
  by (induction ks arbitrary: p ts) (auto elim: builds_kids.cases)

lemma builds_raw:
  "builds g pos k node p t p' \<Longrightarrow> fresh node \<Longrightarrow> raw t"
  "builds_kids g pos ks p ts p' \<Longrightarrow> \<forall>kt \<in> set ts. raw (snd kt)"
proof (induction rule: builds_builds_kids.inducts)
  case (back_split_node p node sp ones zeros pos r ts p' k)
  then show ?case
    using kids_keys [of g pos "[(EStr ''0'', zeros), (EStr ''1'', ones)]" p ts p']
    by (auto simp: node_shape_def fresh_def dict_ok_def)
next
  case (bit_node p node pos ones zeros ks ts p' k)
  then show ?case
    using kids_keys [of g "Suc pos" ks p ts p']
    by (auto simp: node_shape_def fresh_def dict_ok_def simp del: set_map)
next
  case (a_kid n ilist pos p t q ks ts p' key)
  then show ?case by auto
qed (auto simp: node_shape_def fresh_def)

section \<open>Merging keeps the walks\<close>

text \<open>A graph whose root has been merged to decide on \<open>d\<close> bits.\<close>

definition raw_below :: "nat \<Rightarrow> gtree \<Rightarrow> bool" where
  "raw_below d t \<longleftrightarrow> node_shape d (node_of t) (kids t) \<and> (\<forall>kt \<in> set (kids t). raw (snd kt))"

lemma walk_unfold:
  "walk env inp t r =
     (if kids t = [] then Some (node_instructions (node_of t))
      else (case walk_edge env inp (node_of t) (dkeys (kids t)) (r + skipped_bits (node_of t)) of
              (k, r) \<Rightarrow> (case map_of (kids t) k of None \<Rightarrow> None | Some t \<Rightarrow> walk env inp t r)))"
  by (cases t) (simp add: walk.simps)

lemma walk_edge_bits:
  assumes "node_decider n = None" and "node_nonterminal n = None"
  shows "\<exists>s r'. walk_edge env inp n keys r = (EStr s, r') \<and> length s = decider_bits n \<or> decider_bits n = 0"
  using assms by (auto simp: walk_edge_def split: option.splits)

lemma raw_set_token [simp]: "raw (set_token k t) = raw t"
  by (cases t) (simp add: set_token_def node_shape_def)

lemma walk_edge_token [simp]:
  "walk_edge env inp (n\<lparr>node_token := k\<rparr>) keys r = walk_edge env inp n keys r"
  by (simp add: walk_edge_def split: option.split)

lemma walk_set_token [simp]: "walk env inp (set_token k t) r = walk env inp t r"
  by (cases t) (simp add: set_token_def walk.simps)

lemma map_of_add_grandchild:
  "map_of (add_grandchild (EStr u) (EStr v, g) d) key =
   (if key = EStr (u @ v) then Some (set_token (EStr (u @ v)) g) else map_of d key)"
  by (simp add: add_grandchild_def edge_str_def Let_def)

text \<open>Where a key of the merged node leads.\<close>

lemma grandchild_lookup:
  assumes "dict_ok ks" and "\<forall>k \<in> set (dkeys ks). \<exists>s. k = EStr s \<and> length s = d"
    and "\<forall>kt \<in> set ks. \<forall>j \<in> set (dkeys (kids (snd kt))). \<exists>s. j = EStr s \<and> length s = 1"
    and "\<forall>kt \<in> set ks. dict_ok (kids (snd kt))" and "length s = d"
  shows "map_of (fold add_grandchildren ks []) (EStr (s @ [c])) =
         (case map_of ks (EStr s) of None \<Rightarrow> None
          | Some child \<Rightarrow> map_option (set_token (EStr (s @ [c]))) (map_of (kids child) (EStr [c])))"
proof -
  have inner: "map_of (fold (add_grandchild (EStr u)) gs d0) (EStr (s @ [c])) =
      (if u = s then (case map_of gs (EStr [c]) of
                        None \<Rightarrow> map_of d0 (EStr (s @ [c])) | Some g \<Rightarrow> Some (set_token (EStr (s @ [c])) g))
       else map_of d0 (EStr (s @ [c])))"
    if "\<forall>j \<in> set (dkeys gs). \<exists>v. j = EStr v \<and> length v = 1" "dict_ok gs" "length u = d" for u gs d0
    using that
  proof (induction gs arbitrary: d0)
    case Nil
    then show ?case by simp
  next
    case (Cons jg gs)
    obtain v g where jg: "jg = (EStr [v], g)"
      using Cons.prems(1) by (cases jg) (auto simp: length_Suc_conv)
    have IH: "map_of (fold (add_grandchild (EStr u)) gs d1) (EStr (s @ [c])) =
      (if u = s then (case map_of gs (EStr [c]) of
                        None \<Rightarrow> map_of d1 (EStr (s @ [c])) | Some g \<Rightarrow> Some (set_token (EStr (s @ [c])) g))
       else map_of d1 (EStr (s @ [c])))" for d1
      using Cons.prems by (intro Cons.IH) (auto simp: dict_ok_def)
    have "map_of gs (EStr [v]) = None"
      using Cons.prems(2) by (simp add: jg dict_ok_def map_of_eq_None_iff)
    then show ?case
      by (auto simp: jg IH map_of_add_grandchild split: option.splits)
  qed
  have "map_of (fold add_grandchildren ks d0) (EStr (s @ [c])) =
         (case map_of ks (EStr s) of None \<Rightarrow> map_of d0 (EStr (s @ [c]))
          | Some child \<Rightarrow> (case map_of (kids child) (EStr [c]) of
              None \<Rightarrow> map_of d0 (EStr (s @ [c])) | Some g \<Rightarrow> Some (set_token (EStr (s @ [c])) g)))" for d0
    using assms
  proof (induction ks arbitrary: d0)
    case Nil
    then show ?case by simp
  next
    case (Cons kt ks)
    obtain u child where kt: "kt = (EStr u, child)" "length u = d"
      using Cons.prems(2) by (cases kt) auto
    have IH: "map_of (fold add_grandchildren ks d1) (EStr (s @ [c])) =
         (case map_of ks (EStr s) of None \<Rightarrow> map_of d1 (EStr (s @ [c]))
          | Some child \<Rightarrow> (case map_of (kids child) (EStr [c]) of
              None \<Rightarrow> map_of d1 (EStr (s @ [c])) | Some g \<Rightarrow> Some (set_token (EStr (s @ [c])) g)))" for d1
      using Cons.prems by (intro Cons.IH) (auto simp: dict_ok_def)
    have one: "map_of (add_grandchildren kt d0) (EStr (s @ [c])) =
      (if u = s then (case map_of (kids child) (EStr [c]) of
                        None \<Rightarrow> map_of d0 (EStr (s @ [c])) | Some g \<Rightarrow> Some (set_token (EStr (s @ [c])) g))
       else map_of d0 (EStr (s @ [c])))"
      unfolding kt(1) add_grandchildren_def fst_conv snd_conv
      using Cons.prems(3,4) by (intro inner kt(2)) (auto simp: kt(1))
    have "map_of ks (EStr u) = None"
      using Cons.prems(1) by (simp add: kt(1) dict_ok_def map_of_eq_None_iff)
    then show ?case
      by (cases "u = s")
        (use one [unfolded kt(1)] in \<open>auto simp: IH kt(1) split: option.splits\<close>)
  qed
  then show ?thesis by (simp split: option.splits)
qed

lemma fold_not_Nil:
  "(\<And>x d. f x d \<noteq> []) \<Longrightarrow> d \<noteq> [] \<or> xs \<noteq> [] \<Longrightarrow> fold f xs d \<noteq> []"
  by (induction xs arbitrary: d) auto

lemma add_grandchild_not_Nil: "add_grandchild k jg d \<noteq> []"
  by (cases d) (auto simp: add_grandchild_def Let_def)

definition merged_kids :: "nat \<Rightarrow> (edge, gtree) dict \<Rightarrow> bool" where
  "merged_kids d ks \<longleftrightarrow>
     dict_ok ks \<and> (\<forall>kt \<in> set ks. (\<exists>s. fst kt = EStr s \<and> length s = d) \<and> raw (snd kt))"

lemma add_grandchild_merged:
  assumes "merged_kids d D" and "k = EStr u" and "fst jg = EStr v" and "length (u @ v) = d" and "raw (snd jg)"
  shows "merged_kids d (add_grandchild k jg D)"
  using assms set_dset_subset [of "EStr (u @ v)" "set_token (EStr (u @ v)) (snd jg)" D]
  unfolding merged_kids_def add_grandchild_def Let_def edge_str_def
  by (auto dest!: subsetD)

text \<open>What the tests say about a node and its children.\<close>

lemma may_merge_True:
  assumes "may_merge t = Inr True" and "raw_below d t" and "mergeable t"
  shows "decider_bits (node_of t) = d" "d \<noteq> 0" "kids t \<noteq> []" "dict_ok (kids t)"
    "node_decider (node_of t) = None" "node_nonterminal (node_of t) = None"
    "\<forall>k \<in> set (dkeys (kids t)). \<exists>s. k = EStr s \<and> length s = d"
    "kt \<in> set (kids t) \<Longrightarrow> decider_bits (node_of (snd kt)) = 1 \<and> skipped_bits (node_of (snd kt)) = 0 \<and>
       back_split_pos (node_of (snd kt)) = None \<and> node_nonterminal (node_of (snd kt)) = None \<and>
       node_decider (node_of (snd kt)) = None \<and> kids (snd kt) \<noteq> [] \<and> dict_ok (kids (snd kt)) \<and>
       (\<forall>k \<in> set (dkeys (kids (snd kt))). \<exists>s. k = EStr s \<and> length s = 1) \<and>
       (\<forall>g \<in> set (kids (snd kt)). raw (snd g))"
proof -
  show ne: "kids t \<noteq> []" using assms(1) by (rule may_merge_kids)
  show inner: "node_decider (node_of t) = None" "node_nonterminal (node_of t) = None"
    using assms(3) by (auto simp: mergeable_def node_is_nonterminal_def node_is_operand_decider_def)
  have "decider_bits (node_of t) \<noteq> 0"
    using assms(2) ne inner by (auto simp: raw_below_def node_shape_def split: if_splits)
  with assms(2) show "decider_bits (node_of t) = d" "d \<noteq> 0" "dict_ok (kids t)"
    "\<forall>k \<in> set (dkeys (kids t)). \<exists>s. k = EStr s \<and> length s = d"
    by (auto simp: raw_below_def node_shape_def simp del: set_map split: if_splits)
  assume kt: "kt \<in> set (kids t)"
  then have m: "child_matches (node_of (snd kt))"
    using assms(1) by (auto simp: may_merge_def rbind_eq_Inr list_all_iff Let_def)
  moreover have "raw (snd kt)" using assms(2) kt by (auto simp: raw_below_def)
  ultimately show "decider_bits (node_of (snd kt)) = 1 \<and> skipped_bits (node_of (snd kt)) = 0 \<and>
       back_split_pos (node_of (snd kt)) = None \<and> node_nonterminal (node_of (snd kt)) = None \<and>
       node_decider (node_of (snd kt)) = None \<and> kids (snd kt) \<noteq> [] \<and> dict_ok (kids (snd kt)) \<and>
       (\<forall>k \<in> set (dkeys (kids (snd kt))). \<exists>s. k = EStr s \<and> length s = 1) \<and>
       (\<forall>g \<in> set (kids (snd kt)). raw (snd g))"
    by (cases "snd kt")
      (auto simp: child_matches_def node_is_nonterminal_def node_shape_def simp del: set_map)
qed

lemma merge_child_nodes_raw:
  assumes "may_merge t = Inr True" and "raw_below d t" and "mergeable t"
  shows "raw_below (Suc d) (merge_child_nodes t)" and "mergeable (merge_child_nodes t)"
proof -
  note m = may_merge_True [OF assms]
  let ?ks = "fold add_grandchildren (kids t) []"
  have "merged_kids (Suc d) ?ks"
  proof (rule fold_pred)
    show "merged_kids (Suc d) []" by (simp add: merged_kids_def)
  next
    fix kc D assume kc: "kc \<in> set (kids t)" and D: "merged_kids (Suc d) D"
    have "fst kc \<in> set (dkeys (kids t))" using kc by simp
    then obtain u where u: "fst kc = EStr u" "length u = d" using m(7) by blast
    show "merged_kids (Suc d) (add_grandchildren kc D)"
      unfolding add_grandchildren_def using D
    proof (rule fold_pred)
      fix jg D assume jg: "jg \<in> set (kids (snd kc))" and D: "merged_kids (Suc d) D"
      have "fst jg \<in> set (dkeys (kids (snd kc)))" using jg by simp
      then obtain v where v: "fst jg = EStr v" "length v = 1" using m(8) [OF kc] by blast
      show "merged_kids (Suc d) (add_grandchild (fst kc) jg D)"
        using m(8) [OF kc] jg u v by (intro add_grandchild_merged [OF D u(1) v(1)]) auto
    qed
  qed
  moreover have "?ks \<noteq> []"
  proof -
    obtain kc rest where k: "kids t = kc # rest" using m(3) by (cases "kids t") auto
    then have "kids (snd kc) \<noteq> []" using m(8) [of kc] by simp
    then have "add_grandchildren kc [] \<noteq> []"
      unfolding add_grandchildren_def by (intro fold_not_Nil add_grandchild_not_Nil) simp
    moreover have "fold add_grandchildren xs D \<noteq> []" if "D \<noteq> []" for xs D
      using that
    proof (induction xs arbitrary: D)
      case Nil
      then show ?case by simp
    next
      case (Cons x xs)
      have "add_grandchildren x D \<noteq> []"
        unfolding add_grandchildren_def
        by (intro fold_not_Nil add_grandchild_not_Nil) (simp add: Cons.prems)
      then show ?case by (simp add: Cons.IH)
    qed
    ultimately show ?thesis by (simp add: k)
  qed
  ultimately show "raw_below (Suc d) (merge_child_nodes t)" and "mergeable (merge_child_nodes t)"
    using m(1,5,6)
    by (auto simp: raw_below_def merge_child_nodes_def node_shape_def merged_kids_def mergeable_def leaf_def
        node_is_nonterminal_def node_is_operand_decider_def)
qed

lemma merge_child_nodes_walk:
  assumes "may_merge t = Inr True" and "raw_below d t" and "mergeable t"
  shows "walk env inp (merge_child_nodes t) r = walk env inp t r"
proof -
  note m = may_merge_True [OF assms]
  let ?n = "node_of t" and ?t' = "merge_child_nodes t"
  let ?r = "r + skipped_bits ?n"
  obtain s r1 where e: "\<And>keys. walk_edge env inp ?n keys ?r = (EStr s, r1)" and s: "length s = d"
    and e': "\<And>keys. walk_edge env inp (node_of ?t') keys ?r = (EStr (s @ [bit_char (inp r1)]), Suc r1)"
  proof (cases "back_split_pos ?n")
    case None
    show thesis
      by (rule that [of "map (bit_char \<circ> inp) [?r..<?r + d]" "?r + d"])
        (simp_all add: walk_edge_def m None merge_child_nodes_def)
  next
    case (Some b)
    obtain d' where d': "d = Suc d'" using m(2) by (cases d) auto
    show thesis
      by (rule that [of "bit_char (inp b) # map (bit_char \<circ> inp) [?r..<?r + d']" "?r + d'"])
        (simp_all add: walk_edge_def m Some merge_child_nodes_def d')
  qed
  have look: "map_of (kids ?t') (EStr (s @ [bit_char (inp r1)])) =
      (case map_of (kids t) (EStr s) of None \<Rightarrow> None
       | Some child \<Rightarrow> map_option (set_token (EStr (s @ [bit_char (inp r1)])))
                        (map_of (kids child) (EStr [bit_char (inp r1)])))"
    unfolding merge_child_nodes_def gtree.sel
    using m(8) by (intro grandchild_lookup [OF m(4,7) _ _ s]) auto
  have ne: "kids ?t' \<noteq> []"
    using merge_child_nodes_raw(2) [OF assms] by (auto simp: mergeable_def leaf_def)
  have sk: "skipped_bits (node_of ?t') = skipped_bits ?n" by (simp add: merge_child_nodes_def)
  show ?thesis
  proof (cases "map_of (kids t) (EStr s)")
    case None
    then show ?thesis
      by (subst (1 2) walk_unfold) (simp add: ne m(3) sk e e' look)
  next
    case (Some child)
    note c = m(8) [OF map_of_SomeD [OF Some], unfolded snd_conv]
    have "walk_edge env inp (node_of child) keys r1 = (EStr [bit_char (inp r1)], Suc r1)" for keys
      using c by (simp add: walk_edge_def)
    then have "walk env inp child r1 =
        (case map_of (kids child) (EStr [bit_char (inp r1)]) of None \<Rightarrow> None | Some g \<Rightarrow> walk env inp g (Suc r1))"
      using c by (subst walk_unfold) simp
    then show ?thesis
      by (subst (1 2) walk_unfold) (simp add: ne m(3) sk e e' look Some split: option.split)
  qed
qed

lemma may_merge_total: "kids t \<noteq> [] \<Longrightarrow> \<exists>b. may_merge t = Inr b"
  by (cases "kids t") (auto simp: may_merge_def all_the_same_def Let_def)

lemma merge_loop_ok:
  "raw_below d t \<Longrightarrow> mergeable t \<Longrightarrow>
   \<exists>t' d'. merge_loop t = Inr t' \<and> raw_below d' t' \<and> (\<forall>env inp r. walk env inp t' r = walk env inp t r)"
proof (induction t arbitrary: d rule: merge_loop.induct)
  case (1 t)
  have "kids t \<noteq> []" using "1.prems"(2) by (simp add: mergeable_def leaf_def)
  then obtain b where b: "may_merge t = Inr b" using may_merge_total by blast
  show ?case
  proof (cases b)
    case False
    with b "1.prems" show ?thesis by (subst merge_loop.simps) auto
  next
    case True
    then have m: "may_merge t = Inr True" using b by simp
    note step = merge_child_nodes_raw [OF m "1.prems"] merge_child_nodes_walk [OF m "1.prems"]
    have "merge_loop t = merge_loop (merge_child_nodes t)"
      by (subst merge_loop.simps) (simp add: m)
    with "1.IH" [OF b True step(1,2)] step(3) show ?thesis by simp
  qed
qed

text \<open>Two lists of children with the same keys and the same walks.\<close>

definition same_walks :: "(edge \<times> gtree) list \<Rightarrow> (edge \<times> gtree) list \<Rightarrow> bool" where
  "same_walks ks ks' \<longleftrightarrow>
     list_all2 (\<lambda>kt kt'. fst kt' = fst kt \<and>
       (\<forall>env inp r. walk env inp (snd kt') r = walk env inp (snd kt) r)) ks ks'"

lemma same_walks_simps [simp]:
  "same_walks [] []" "same_walks (kt # ks) (kt' # ks') \<longleftrightarrow>
     fst kt' = fst kt \<and> (\<forall>env inp r. walk env inp (snd kt') r = walk env inp (snd kt) r) \<and> same_walks ks ks'"
  by (auto simp: same_walks_def)

lemma same_walks_lookup:
  "same_walks ks ks' \<Longrightarrow> dkeys ks' = dkeys ks \<and>
   (case map_of ks' k of None \<Rightarrow> None | Some t \<Rightarrow> walk env inp t r) =
   (case map_of ks k of None \<Rightarrow> None | Some t \<Rightarrow> walk env inp t r)"
  unfolding same_walks_def by (induction rule: list_all2_induct) auto

lemma walk_same_walks:
  assumes "same_walks ks ks'"
  shows "walk env inp (GNode n ks') r = walk env inp (GNode n ks) r"
proof -
  have "ks' = [] \<longleftrightarrow> ks = []" using assms by (auto simp: same_walks_def)
  with same_walks_lookup [OF assms] show ?thesis by (simp add: walk.simps split: prod.split)
qed

lemma mapM_list_all2:
  "\<forall>x \<in> set xs. \<exists>y. f x = Inr y \<and> P x y \<Longrightarrow> \<exists>ys. mapM f xs = Inr ys \<and> list_all2 P xs ys"
  by (induction xs) fastforce+

lemma merge_nodes_ok:
  "raw t \<Longrightarrow> \<exists>t'. merge_nodes t = Inr t' \<and> (\<forall>env inp r. walk env inp t' r = walk env inp t r)"
proof (induction t rule: merge_nodes.induct)
  case (1 t)
  have raw1: "raw_below 1 t" using "1.prems" by (simp add: raw_iff [of t] raw_below_def)
  obtain t' d where t': "(if mergeable t then merge_loop t else Inr t) = Inr t'" and d: "raw_below d t'"
    and w: "\<forall>env inp r. walk env inp t' r = walk env inp t r"
    using merge_loop_ok [OF raw1] raw1 by (cases "mergeable t") auto
  let ?f = "\<lambda>kc. rbind (merge_nodes (snd kc)) (\<lambda>c. Inr (fst kc, c))"
  have "\<forall>kc \<in> set (kids t'). \<exists>kc'. ?f kc = Inr kc' \<and>
      (fst kc' = fst kc \<and> (\<forall>env inp r. walk env inp (snd kc') r = walk env inp (snd kc) r))"
  proof
    fix kc assume kc: "kc \<in> set (kids t')"
    have "raw (snd kc)" using d kc by (simp add: raw_below_def)
    from "1.IH" [OF t' kc this] show "\<exists>kc'. ?f kc = Inr kc' \<and>
      (fst kc' = fst kc \<and> (\<forall>env inp r. walk env inp (snd kc') r = walk env inp (snd kc) r))" by auto
  qed
  from mapM_list_all2 [OF this] obtain ks where
    ks: "mapM ?f (kids t') = Inr ks" "same_walks (kids t') ks"
    by (auto simp: same_walks_def)
  have "merge_nodes t = Inr (GNode (node_of t') ks)"
    by (subst merge_nodes.simps) (simp add: t' ks(1))
  moreover have "walk env inp (GNode (node_of t') ks) r = walk env inp t' r" for env inp r
    using walk_same_walks [OF ks(2), of env inp "node_of t'" r] by simp
  ultimately show ?case using w by simp
qed

section \<open>Renumbering\<close>

fun node_ids :: "gtree \<Rightarrow> nat list" where
  "node_ids (GNode n ks) = node_id n # concat (map (\<lambda>kt. node_ids (snd kt)) ks)"

lemma walk_node_id [simp]: "walk env inp (GNode (n\<lparr>node_id := k\<rparr>) ks) r = walk env inp (GNode n ks) r"
  by (simp add: walk.simps walk_edge_def split: option.split)

lemma upt_join: "i \<le> j \<Longrightarrow> j \<le> k \<Longrightarrow> [i..<j] @ [j..<k] = [i..<k]"
  by (metis le_iff_add upt_add_eq_append)

lemma renumber_ok:
  "renumber_nodes_sub t k = (t', k') \<Longrightarrow>
   k < k' \<and> node_ids t' = [k..<k'] \<and> (\<forall>env inp r. walk env inp t' r = walk env inp t r)"
  "renumber_kids ks k = (ks', k') \<Longrightarrow>
   k \<le> k' \<and> concat (map (\<lambda>kt. node_ids (snd kt)) ks') = [k..<k'] \<and> same_walks ks ks'"
proof (induction t k and ks k arbitrary: t' k' and ks' k' rule: renumber_nodes_sub_renumber_kids.induct)
  case (1 n ks renum)
  then show ?case
    by (auto simp: upt_conv_Cons walk_same_walks split: prod.splits)
next
  case (2 renum)
  then show ?case by simp
next
  case (3 k t ks renum)
  then show ?case
    by (fastforce simp: upt_join less_imp_le split: prod.splits)
qed

lemma snds_pair: "snd kt \<in> Basic_BNFs.snds kt"
  by (cases kt) (simp add: prod_set_simps)

lemma epsilon_label_walk: "walk env inp (epsilon_label_graph t) r = walk env inp t r"
proof (induction t arbitrary: env inp r)
  case (GNode n ks)
  have "same_walks ks (map (\<lambda>(k, t). (k, epsilon_label_graph t)) ks)"
    using GNode.IH
    by (auto simp: same_walks_def list_all2_conv_all_nth split_beta dest!: nth_mem
        intro: GNode.IH [OF _ snds_pair])
  from walk_same_walks [OF this] show ?case
    by (simp add: walk.simps walk_edge_def split: option.split)
qed

section \<open>Depths\<close>

fun leaves :: "gtree \<Rightarrow> nat" where
  "leaves (GNode n ks) = (if ks = [] then 1 else sum_list (map (\<lambda>kt. leaves (snd kt)) ks))"

lemma count_dset: "sum_list (dvals (dset k (dget_default d k 0 + 1) d)) = Suc (sum_list (dvals d))"
  by (induction d) (auto simp: dget_default_def)

text \<open>The depth counts add up to the number of leaves.\<close>

lemma collect_tree_depth_leaves:
  "sum_list (dvals (collect_tree_depth t d k)) = sum_list (dvals d) + leaves t"
proof (induction t arbitrary: d k)
  case (GNode n ks)
  show ?case
  proof (cases "ks = []")
    case True
    then show ?thesis by (simp add: count_dset [simplified])
  next
    case False
    have "sum_list (dvals (fold (\<lambda>kt depths. collect_tree_depth (snd kt) depths (Suc k)) xs d)) =
        sum_list (dvals d) + sum_list (map (\<lambda>kt. leaves (snd kt)) xs)" if "set xs \<subseteq> set ks" for xs
      using that
    proof (induction xs arbitrary: d)
      case Nil
      then show ?case by simp
    next
      case (Cons kt xs)
      have "sum_list (dvals (collect_tree_depth (snd kt) d (Suc k))) = sum_list (dvals d) + leaves (snd kt)"
        using Cons.prems by (intro GNode.IH [OF _ snds_pair]) auto
      with Cons show ?case by simp
    qed
    with False show ?thesis by simp
  qed
qed

section \<open>Properties\<close>

fun gnodes :: "gtree \<Rightarrow> graph_node list" where
  "gnodes (GNode n ks) = n # concat (map (\<lambda>kt. gnodes (snd kt)) ks)"

lemma epsilon_label_nodes: "gnodes (epsilon_label_graph t) = map (\<lambda>n. n\<lparr>otherwise_ok := True\<rparr>) (gnodes t)"
proof (induction t)
  case (GNode n ks)
  have "concat (map (\<lambda>kt. gnodes (snd kt)) (map (\<lambda>(k, t). (k, epsilon_label_graph t)) xs)) =
      map (\<lambda>n. n\<lparr>otherwise_ok := True\<rparr>) (concat (map (\<lambda>kt. gnodes (snd kt)) xs))" if "set xs \<subseteq> set ks" for xs
    using that by (induction xs) (auto simp: split_beta intro: GNode.IH [OF _ snds_pair])
  from this [OF subset_refl] show ?case by simp
qed

text \<open>
  C14: On a graph the construction returned, the optimisation (merging and renumbering) succeeds, numbers
  the nodes consecutively from the given counter, and does not change where any input leads.  Labelling the
  result, as for a nonterminal with an otherwise clause, marks every node and changes no other component of
  it, and does not change where any input leads either.
\<close>

theorem optimized_graph_same_walks:
  assumes "build_graph limit g nt_name ilist st = Inr (t, st')"
  shows "\<exists>t' renum'. optimize_graph t renum = Inr (t', renum') \<and> node_ids t' = [renum..<renum'] \<and>
           (\<forall>env inp r. walk env inp t' r = walk env inp t r) \<and>
           gnodes (epsilon_label_graph t') = map (\<lambda>n. n\<lparr>otherwise_ok := True\<rparr>) (gnodes t') \<and>
           (\<forall>env inp r. walk env inp (epsilon_label_graph t') r = walk env inp t r)"
proof -
  obtain n where "fresh n" "builds g 0 0 n (pats st) t (pats st')"
    using assms by (rule build_graph_builds)
  then have "raw t" by (intro builds_raw(1))
  from merge_nodes_ok [OF this] obtain t1 where
    t1: "merge_nodes t = Inr t1" "\<forall>env inp r. walk env inp t1 r = walk env inp t r" by blast
  obtain t2 k where k: "renumber_nodes_sub t1 renum = (t2, k)" by (cases "renumber_nodes_sub t1 renum")
  from renumber_ok(1) [OF k] t1 show ?thesis
    by (simp add: optimize_graph_def renumber_nodes_def k epsilon_label_nodes epsilon_label_walk)
qed

theorem optimized_graph_same_walks_witness:
  "\<exists>t' renum'. optimize_graph sample_graph 0 = Inr (t', renum') \<and> node_ids t' = [0..<renum'] \<and>
     (\<forall>env inp r. walk env inp t' r = walk env inp sample_graph r)"
proof -
  obtain st' where
    b: "build_graph 12 sample_grammar ''NT'' [0, 1, 2] sample_graph_state = Inr (sample_graph, st')"
    by (rule sample_graph_built)
  show ?thesis using optimized_graph_same_walks [OF b, of 0] by blast
qed

end
