(* ===== verification/Flag_Gen.thy ===== *)
theory Flag_Gen
  imports Opnds Pattern_Bits
begin

text \<open>
  The flag tables (\<open>pysrc/flag_gen.py\<close>): which flags an instruction reads, writes and leaves
  undefined, parsed from its FLAGS line, and the three C tables emitted for all instructions: the
  simple records, the complex records that choose between simple ones, and the flag actions, in which
  equal sequences and prefixes share their place.
\<close>

section \<open>Flag sets\<close>

text \<open>The attributes of a \<open>flag_set_t\<close> are a dictionary from field names to values.\<close>

definition field_pairs :: "(string \<times> nat) list" where
  "field_pairs =
     [(''cf'', 1), (''must_be_1'', 1), (''pf'', 1), (''must_be_0a'', 1), (''af'', 1), (''must_be_0b'', 1),
      (''zf'', 1), (''sf'', 1), (''tf'', 1), (''_if'', 1), (''df'', 1), (''of'', 1), (''iopl'', 2),
      (''nt'', 1), (''must_be_0c'', 1), (''rf'', 1), (''vm'', 1), (''ac'', 1), (''vif'', 1), (''vip'', 1),
      (''id'', 1), (''must_be_0d'', 2), (''must_be_0e'', 4),
      (''fc0'', 1), (''fc1'', 1), (''fc2'', 1), (''fc3'', 1)]"

definition field_names :: "string list" where
  "field_names = map fst field_pairs"

type_synonym flag_set = "(string, int) dict"

definition flag_set_new :: "bool \<Rightarrow> flag_set" where
  "flag_set_new very_technically_accurate =
     map (\<lambda>(f, w). (f, if very_technically_accurate \<and> starts_with ''must_be_1'' f then 1 else 0)) field_pairs"

definition flag_set_set :: "string \<Rightarrow> int \<Rightarrow> flag_set \<Rightarrow> flag_set res" where
  "flag_set_set fld val s =
     (let fld = (if fld = ''if'' then ''_if'' else fld);
          val = (if fld = ''iopl'' then 3 else val)
      in if fld \<in> set field_names then Inr (dset fld val s)
         else Inl (Die (''Bad flags field name: '' @ fld)))"

fun as_integer_loop :: "flag_set \<Rightarrow> (string \<times> nat) list \<Rightarrow> int \<Rightarrow> nat \<Rightarrow> int res" where
  "as_integer_loop fs [] s n = Inr s"
| "as_integer_loop fs ((f, w) # ps) s n =
     (case map_of fs f of
        None \<Rightarrow> Inl AttributeError
      | Some v \<Rightarrow> as_integer_loop fs ps (s OR push_bit n (v AND (2 ^ w - 1))) (n + w))"

definition as_integer :: "flag_set \<Rightarrow> int res" where
  "as_integer fs = as_integer_loop fs field_pairs 0 0"

definition as_hex :: "flag_set \<Rightarrow> string res" where
  "as_hex fs = rbind (as_integer fs) (\<lambda>i. Inr (py_hex i))"

section \<open>Flag actions\<close>

record flag_action =
  fa_flag :: "string option"
  fa_action :: "string option"

definition valid_flag_actions :: "string list" where
  "valid_flag_actions = [''mod'', ''tst'', ''u'', ''0'', ''1'', ''ah'', ''pop'']"

text \<open>Unpacking into two names raises \<open>ValueError\<close> unless there are exactly two parts.\<close>

definition flag_action_new :: "string \<Rightarrow> flag_action res" where
  "flag_action_new s =
     (if s = ''nothing'' then Inr \<lparr>fa_flag = None, fa_action = None\<rparr>
      else case split_on CHR ''-'' (lower s) of
        [f, a] \<Rightarrow> if a \<in> set valid_flag_actions then Inr \<lparr>fa_flag = Some f, fa_action = Some a\<rparr>
                  else Inl (Die (''Invalid flag_action_t in '' @ s))
      | _ \<Rightarrow> Inl ValueError)"

definition py_str_option :: "string option \<Rightarrow> string" where
  "py_str_option x = (case x of None \<Rightarrow> ''None'' | Some s \<Rightarrow> s)"

definition flag_action_str :: "flag_action \<Rightarrow> string" where
  "flag_action_str fa =
     (case fa_flag fa of None \<Rightarrow> ''nothing'' | Some f \<Rightarrow> f @ ''-'' @ py_str_option (fa_action fa))"

definition fa_is_nothing :: "flag_action \<Rightarrow> bool" where
  "fa_is_nothing fa \<longleftrightarrow> fa_flag fa = None"

definition fa_reads_flag :: "flag_action \<Rightarrow> bool" where
  "fa_reads_flag fa \<longleftrightarrow> fa_action fa = Some ''tst''"

definition fa_writes_flag :: "flag_action \<Rightarrow> bool" where
  "fa_writes_flag fa \<longleftrightarrow> fa_action fa \<noteq> Some ''tst''"

definition makes_flag_undefined :: "flag_action \<Rightarrow> bool" where
  "makes_flag_undefined fa \<longleftrightarrow> fa_action fa = Some ''u''"

section \<open>Flag records\<close>

text \<open>The ids are \<open>None\<close> where the code has \<open>-1\<close>, before they are assigned.\<close>

record flags_rec =
  fr_qualifier :: "string option"
  may_must :: string
  flag_actions :: "flag_action list"
  read_set :: flag_set
  write_set :: flag_set
  undefined_set :: flag_set
  flag_action_index :: "nat option"
  simple_id :: "nat option"

definition valid_flags_semantics_specifiers :: "string list" where
  "valid_flags_semantics_specifiers = [''MAY'', ''MUST'', ''READONLY'']"

definition valid_flags_qualifiers :: "string list" where
  "valid_flags_qualifiers = [''REP'', ''NOREP'', ''IMM0'', ''IMM1'', ''IMMx'']"

definition flag_pattern :: regex where
  "flag_pattern =
     RSeq (RStar (RChar is_space)) (RSeq (RGroup ''qualifiers'' (RStar RDot))
       (RSeq (RPlus (RChar is_space)) (RSeq (ROneOf {CHR ''[''})
         (RSeq (RGroup ''flags'' (RStar RDot)) (ROneOf {CHR '']''})))))"

definition add_flag_action :: "string \<Rightarrow> flags_rec \<Rightarrow> flags_rec res" where
  "add_flag_action s fr =
     rbind (flag_action_new s) (\<lambda>fa.
       let fr = fr\<lparr>flag_actions := flag_actions fr @ [fa]\<rparr>
       in case fa_flag fa of
            None \<Rightarrow> Inr fr
          | Some f \<Rightarrow> if f = [] then Inr fr else
              rbind (if fa_reads_flag fa then flag_set_set f 1 (read_set fr) else Inr (read_set fr)) (\<lambda>r.
              rbind (if fa_writes_flag fa then flag_set_set f 1 (write_set fr) else Inr (write_set fr)) (\<lambda>w.
              rbind (if makes_flag_undefined fa then flag_set_set f 1 (undefined_set fr) else Inr (undefined_set fr)) (\<lambda>u.
                Inr (fr\<lparr>read_set := r, write_set := w, undefined_set := u\<rparr>)))))"

definition take_qualifier :: "string list \<Rightarrow> (string option \<times> string) res" where
  "take_qualifier qs =
     (case qs of
        [] \<Rightarrow> Inl IndexError
      | first # rest \<Rightarrow>
          if first \<in> set valid_flags_qualifiers
          then (case rest of [] \<Rightarrow> Inl IndexError | q # _ \<Rightarrow> Inr (Some first, q))
          else Inr (None, first))"

definition flags_rec_new :: "string \<Rightarrow> flags_rec res" where
  "flags_rec_new input_chunk =
     (case rx_search flag_pattern input_chunk of
        None \<Rightarrow> Inl (Die (''Could not find flags in '' @ input_chunk))
      | Some m \<Rightarrow>
          rbind (take_qualifier (split_words (strip (group ''qualifiers'' m)))) (\<lambda>(q, mm).
          if mm \<notin> set valid_flags_semantics_specifiers
          then Inl (Die (''Invalid flags specification: '' @ input_chunk))
          else foldM add_flag_action (split_words (strip (group ''flags'' m)))
            \<lparr>fr_qualifier = q, may_must = mm, flag_actions = [], read_set = flag_set_new False,
             write_set = flag_set_new False, undefined_set = flag_set_new False,
             flag_action_index = None, simple_id = None\<rparr>))"

definition fr_x86_flags :: "flags_rec \<Rightarrow> bool" where
  "fr_x86_flags fr \<longleftrightarrow>
     list_ex (\<lambda>fa. fa_flag fa \<notin> Some ` set [''fc0'', ''fc1'', ''fc2'', ''fc3'']) (flag_actions fr)"

definition reads_flags :: "flags_rec \<Rightarrow> bool" where
  "reads_flags fr \<longleftrightarrow> list_ex fa_reads_flag (flag_actions fr)"

definition writes_flags :: "flags_rec \<Rightarrow> bool" where
  "writes_flags fr \<longleftrightarrow> list_ex fa_writes_flag (flag_actions fr)"

definition conditional_writes_flags :: "flags_rec \<Rightarrow> bool" where
  "conditional_writes_flags fr \<longleftrightarrow> writes_flags fr \<and> (may_must fr = ''MAY'' \<or> may_must fr = ''REP_MAY'')"

definition fr_is_simple :: "flags_rec \<Rightarrow> bool" where
  "fr_is_simple fr \<longleftrightarrow> fr_qualifier fr = None"

definition fr_is_complex :: "flags_rec \<Rightarrow> bool" where
  "fr_is_complex fr \<longleftrightarrow> fr_qualifier fr \<noteq> None"

definition fr_is_rep :: "flags_rec \<Rightarrow> bool" where
  "fr_is_rep fr \<longleftrightarrow> fr_qualifier fr = Some ''REP'' \<or> fr_qualifier fr = Some ''NOREP''"

definition fr_is_imm :: "flags_rec \<Rightarrow> bool" where
  "fr_is_imm fr \<longleftrightarrow> fr_qualifier fr = Some ''IMM0'' \<or> fr_qualifier fr = Some ''IMM1'' \<or> fr_qualifier fr = Some ''IMMx''"

definition flags_rec_str :: "flags_rec \<Rightarrow> string" where
  "flags_rec_str fr =
     join '' '' ((case fr_qualifier fr of None \<Rightarrow> [] | Some q \<Rightarrow> [q]) @ [may_must fr, ''[''] @
       map flag_action_str (flag_actions fr) @ ['']''])"

definition fr_is_nothing :: "flags_rec \<Rightarrow> bool" where
  "fr_is_nothing fr \<longleftrightarrow> (case flag_actions fr of [fa] \<Rightarrow> fa_is_nothing fa | _ \<Rightarrow> False)"

text \<open>The loop stops after the action with number \<open>limit\<close>.  An action without a flag is an error.\<close>

definition fr_identifier_piece :: "flag_action \<Rightarrow> string res" where
  "fr_identifier_piece fa =
     (case fa_flag fa of
        None \<Rightarrow> Inl (Die ''Bogus flag!'')
      | Some f \<Rightarrow> if f = [] then Inl (Die ''Bogus flag!'') else Inr (f @ ''-'' @ py_str_option (fa_action fa)))"

definition fr_identifier :: "flags_rec \<Rightarrow> nat \<Rightarrow> string res" where
  "fr_identifier fr limit =
     rbind (mapM fr_identifier_piece (take (Suc limit) (flag_actions fr))) (\<lambda>s. Inr (join '':'' s))"

definition action_line :: "nat \<Rightarrow> flag_action \<Rightarrow> string" where
  "action_line n fa =
     ''/* '' @ str_nat n @ '' */ { XED_FLAG_'' @ py_str_option (fa_flag fa) @
     '',XED_FLAG_ACTION_'' @ py_str_option (fa_action fa) @ '' },''"

definition fr_emit_data_record :: "nat \<Rightarrow> flags_rec \<Rightarrow> string list res" where
  "fr_emit_data_record idx fr =
     mapM (\<lambda>(i, fa). rbind (fr_identifier_piece fa) (\<lambda>_. Inr (action_line (idx + i) fa)))
       (List.enumerate 0 (flag_actions fr))"

section \<open>The flags of an instruction\<close>

record flags_info =
  flags_recs :: "flags_rec list"
  complex_id :: "nat option"

definition flags_info_new :: "string \<Rightarrow> flags_info res" where
  "flags_info_new input_line =
     (if input_line = [] then Inr \<lparr>flags_recs = [], complex_id = None\<rparr>
      else rbind (mapM (\<lambda>x. flags_rec_new (strip x)) (split_on CHR '','' input_line)) (\<lambda>rs.
        Inr \<lparr>flags_recs = rs, complex_id = None\<rparr>))"

definition flags_info_str :: "flags_info \<Rightarrow> string" where
  "flags_info_str fi = join '', '' (map flags_rec_str (flags_recs fi))"

definition fi_x87_flags :: "flags_info \<Rightarrow> bool" where
  "fi_x87_flags fi \<longleftrightarrow> \<not> list_ex fr_x86_flags (flags_recs fi)"

definition fi_x86_flags :: "flags_info \<Rightarrow> bool" where
  "fi_x86_flags fi \<longleftrightarrow> list_ex fr_x86_flags (flags_recs fi)"

definition rw_action_step :: "flags_rec \<Rightarrow> string \<times> string \<times> string \<times> bool \<Rightarrow> string \<times> string \<times> string \<times> bool" where
  "rw_action_step fr = (\<lambda>(r, w, c, has_nothing_record).
     let has_nothing_record = (has_nothing_record \<or> fr_is_nothing fr);
         r = (if reads_flags fr then ''r'' else r);
         w' = (if writes_flags fr then ''w'' else w);
         c = (if writes_flags fr \<and> conditional_writes_flags fr then ''c'' else c)
     in (r, w', c, has_nothing_record))"

definition rw_action :: "flags_info \<Rightarrow> string" where
  "rw_action fi =
     (case fold rw_action_step (flags_recs fi) ('''', '''', '''', False) of
        (r, w, c, has_nothing_record) \<Rightarrow> r @ (if has_nothing_record then ''c'' else c) @ w)"

definition make_case_name :: "string option \<Rightarrow> string res" where
  "make_case_name q =
     (case q of
        Some x \<Rightarrow>
          if x = ''IMMx'' then Inr ''IMMED_OTHER''
          else if x = ''IMM0'' then Inr ''IMMED_ZERO''
          else if x = ''IMM1'' then Inr ''IMMED_ONE''
          else if x = ''REP'' then Inr ''HAS_REP''
          else if x = ''NOREP'' then Inr ''NO_REP''
          else Inl (Die (''Unhandled flags qualifier: '' @ x))
      | None \<Rightarrow> Inl (Die ''Unhandled flags qualifier: None''))"

definition fi_is_complex :: "flags_info \<Rightarrow> bool" where
  "fi_is_complex fi \<longleftrightarrow> list_ex fr_is_complex (flags_recs fi)"

definition fi_is_rep :: "flags_info \<Rightarrow> bool" where
  "fi_is_rep fi \<longleftrightarrow> list_ex fr_is_rep (flags_recs fi)"

definition fi_is_imm :: "flags_info \<Rightarrow> bool" where
  "fi_is_imm fi \<longleftrightarrow> list_ex fr_is_imm (flags_recs fi)"

section \<open>The tables\<close>

text \<open>
  The class attributes of \<open>flags_info_t\<close>, and the entries of the three C arrays.  The arrays of
  simple and complex records start with an invalid entry, written when the files are opened.
\<close>

record flag_tables =
  flag_simple_rec :: nat
  flag_complex_rec :: nat
  max_flag_actions :: nat
  fa_table :: "(string, nat) dict"
  fr_table :: "(string, nat) dict"
  simple_lines :: "string list"
  complex_lines :: "string list"
  action_lines :: "string list"

definition flag_tables_new :: flag_tables where
  "flag_tables_new =
     \<lparr>flag_simple_rec = 1, flag_complex_rec = 1, max_flag_actions = 0, fa_table = [], fr_table = [],
      simple_lines = [''/* 0 */ {0,0,0,{0},{0},{0},0}, /* invalid */''],
      complex_lines = [''/* 0 */ {0,0,{0,0,0,0,0},}, /* invalid */''],
      action_lines = []\<rparr>"

definition curly_list :: "string list \<Rightarrow> string" where
  "curly_list x = ''{'' @ join '','' x @ ''},''"

definition curly_string :: "string \<Rightarrow> string" where
  "curly_string x = ''{'' @ x @ ''}''"

definition compute_assign_flag_action_id ::
  "flags_rec \<Rightarrow> flag_tables \<Rightarrow> (nat \<times> flags_rec \<times> flag_tables) res" where
  "compute_assign_flag_action_id fr st =
     rbind (fr_identifier fr 99) (\<lambda>i.
     case map_of (fa_table st) i of
       Some t \<Rightarrow> Inr (t, fr\<lparr>flag_action_index := Some t\<rparr>, st)
     | None \<Rightarrow>
         let t = max_flag_actions st; n = length (flag_actions fr)
         in rbind (foldM (\<lambda>k tab. rbind (fr_identifier fr k) (\<lambda>j. Inr (dset j t tab))) [0..<n] (fa_table st)) (\<lambda>tab.
            rbind (fr_emit_data_record t fr) (\<lambda>rows.
              Inr (t, fr\<lparr>flag_action_index := Some t\<rparr>,
                st\<lparr>max_flag_actions := t + n, fa_table := tab, action_lines := action_lines st @ rows\<rparr>))))"

definition simple_text :: "flags_rec \<Rightarrow> nat \<Rightarrow> string res" where
  "simple_text fr idx =
     rbind (as_hex (read_set fr)) (\<lambda>r.
     rbind (as_hex (write_set fr)) (\<lambda>w.
     rbind (as_hex (undefined_set fr)) (\<lambda>u.
       Inr (curly_list [str_nat (length (flag_actions fr)),
         if may_must fr = ''MAY'' then ''1'' else ''0'', if may_must fr = ''MUST'' then ''1'' else ''0'',
         curly_string r, curly_string w, curly_string u, str_nat idx]))))"

definition numbered_line :: "nat \<Rightarrow> string \<Rightarrow> string" where
  "numbered_line n t = ''/* '' @ str_nat n @ '' */ '' @ t"

definition emit_simple_record :: "flags_rec \<Rightarrow> flag_tables \<Rightarrow> (nat \<times> flags_rec \<times> flag_tables) res" where
  "emit_simple_record fr st =
     rbind (compute_assign_flag_action_id fr st) (\<lambda>(idx, fr, st).
     rbind (simple_text fr idx) (\<lambda>t.
       case map_of (fr_table st) t of
         Some n \<Rightarrow> Inr (n, fr\<lparr>simple_id := Some n\<rparr>, st)
       | None \<Rightarrow>
           let n = flag_simple_rec st
           in Inr (n, fr\<lparr>simple_id := Some n\<rparr>,
                st\<lparr>flag_simple_rec := n + 1, fr_table := dset t n (fr_table st),
                   simple_lines := simple_lines st @ [numbered_line n t]\<rparr>)))"

fun emit_simple_records ::
  "flags_rec list \<Rightarrow> nat option \<Rightarrow> flag_tables \<Rightarrow> (nat option \<times> flags_rec list \<times> flag_tables) res" where
  "emit_simple_records [] flag_id st = Inr (flag_id, [], st)"
| "emit_simple_records (fr # frs) flag_id st =
     rbind (emit_simple_record fr st) (\<lambda>(n, fr, st).
     rbind (emit_simple_records frs (Some n) st) (\<lambda>(flag_id, frs, st). Inr (flag_id, fr # frs, st)))"

definition ordered_cases :: "string list" where
  "ordered_cases = [''IMMED_ZERO'', ''IMMED_ONE'', ''IMMED_OTHER'', ''HAS_REP'', ''NO_REP'']"

fun find_case :: "string \<Rightarrow> flags_rec list \<Rightarrow> flags_rec option res" where
  "find_case c [] = Inr None"
| "find_case c (fr # frs) =
     rbind (make_case_name (fr_qualifier fr)) (\<lambda>cname. if c = cname then Inr (Some fr) else find_case c frs)"

definition case_entry :: "flags_rec list \<Rightarrow> string \<Rightarrow> int res" where
  "case_entry frs c =
     rbind (find_case c frs) (\<lambda>found.
       Inr (case found of None \<Rightarrow> 0 | Some fr \<Rightarrow> (case simple_id fr of None \<Rightarrow> - 1 | Some n \<Rightarrow> int n)))"

definition complex_text :: "bool \<Rightarrow> bool \<Rightarrow> int list \<Rightarrow> string" where
  "complex_text rep imm cases =
     curly_list [if rep then ''1'' else ''0'', if imm then ''1'' else ''0'', curly_list (map str_int cases)]"

definition emit_complex_record :: "flags_info \<Rightarrow> flag_tables \<Rightarrow> (nat \<times> flags_info \<times> flag_tables) res" where
  "emit_complex_record fi st =
     (let n = flag_complex_rec st; fi = fi\<lparr>complex_id := Some n\<rparr>
      in rbind (mapM (case_entry (flags_recs fi)) ordered_cases) (\<lambda>cases.
           Inr (n, fi, st\<lparr>flag_complex_rec := n + 1,
             complex_lines := complex_lines st @
               [numbered_line n (complex_text (fi_is_rep fi) (fi_is_imm fi) cases)]\<rparr>)))"

definition fi_emit_data_record :: "flags_info \<Rightarrow> flag_tables \<Rightarrow> ((nat \<times> bool) \<times> flags_info \<times> flag_tables) res" where
  "fi_emit_data_record fi st =
     rbind (emit_simple_records (flags_recs fi) None st) (\<lambda>(flag_id, frs, st).
       let fi = fi\<lparr>flags_recs := frs\<rparr>
       in if fi_is_complex fi
          then rbind (emit_complex_record fi st) (\<lambda>(n, fi, st). Inr ((n, True), fi, st))
          else case flag_id of
            None \<Rightarrow> Inl (Die ''flag_id was not set'')
          | Some n \<Rightarrow> Inr ((n, False), fi, st))"

text \<open>The instructions in the order of code generation.\<close>

fun emit_flags :: "flags_info list \<Rightarrow> flag_tables \<Rightarrow> (((nat \<times> bool) \<times> flags_info) list \<times> flag_tables) res" where
  "emit_flags [] st = Inr ([], st)"
| "emit_flags (fi # fis) st =
     rbind (fi_emit_data_record fi st) (\<lambda>(i, fi, st).
     rbind (emit_flags fis st) (\<lambda>(rs, st). Inr ((i, fi) # rs, st)))"

section \<open>Masks\<close>

lemma as_integer_loop_bits:
  assumes "as_integer_loop fs ps s n = Inr i" "0 \<le> s" "s < 2 ^ n"
  shows "take_bit n i = s \<and> 0 \<le> i \<and> i < 2 ^ (n + sum_list (map snd ps)) \<and>
    (\<forall>qs f w rs. ps = qs @ (f, w) # rs \<longrightarrow>
       map_option (take_bit w) (map_of fs f) = Some (take_bit w (drop_bit (n + sum_list (map snd qs)) i)))"
  using assms
proof (induction ps arbitrary: s n)
  case Nil
  then show ?case by (simp add: take_bit_int_eq_self)
next
  case (Cons p ps)
  obtain f w where p: "p = (f, w)" by (cases p)
  with Cons.prems obtain v where v: "map_of fs f = Some v"
    and run: "as_integer_loop fs ps (s OR push_bit n (v AND (2 ^ w - 1))) (n + w) = Inr i"
    by (auto split: option.splits)
  define s' where "s' = s OR push_bit n (take_bit w v)"
  have m: "v AND (2 ^ w - 1) = take_bit w v" by (simp add: take_bit_eq_mask mask_eq_exp_minus_1)
  have s: "take_bit n s = s" using Cons.prems(2,3) by (simp add: take_bit_int_eq_self)
  have s': "take_bit n s' = s" "drop_bit n s' = take_bit w v"
    using s by (simp_all add: s'_def take_bit_or drop_bit_or take_bit_push_bit drop_bit_push_bit)
      (metis drop_bit_take_bit diff_self_eq_0 or.left_neutral take_bit_0)
  have lt: "s' < 2 ^ (n + w)"
  proof -
    have "take_bit (n + w) s' = s'"
      using s by (simp add: s'_def take_bit_or take_bit_push_bit)
        (metis le_add1 min.absorb2 min.commute take_bit_take_bit)
    then show ?thesis by (metis take_bit_int_less_exp)
  qed
  have ge: "0 \<le> s'" using Cons.prems(2) by (simp add: s'_def)
  from Cons.IH [OF run [unfolded m, folded s'_def] ge lt] have IH: "take_bit (n + w) i = s'" "0 \<le> i" "i < 2 ^ (n + w + sum_list (map snd ps))"
    "\<And>qs g u rs. ps = qs @ (g, u) # rs \<Longrightarrow>
       map_option (take_bit u) (map_of fs g) = Some (take_bit u (drop_bit (n + w + sum_list (map snd qs)) i))"
    by blast+
  have "take_bit n i = s"
    using s'(1) by (metis IH(1) le_add1 min.absorb1 take_bit_take_bit)
  moreover have "take_bit w (drop_bit n i) = take_bit w v"
    using IH(1) s'(2) by (metis add.commute drop_bit_take_bit add_diff_cancel_left')
  ultimately show ?case
    using IH(2-4) v p by (auto simp: Cons_eq_append_conv ac_simps)
qed

lemma as_integer_bits:
  assumes "as_integer fs = Inr i" "field_pairs = qs @ (f, w) # rs"
  shows "map_option (take_bit w) (map_of fs f) = Some (take_bit w (drop_bit (sum_list (map snd qs)) i))"
    and "0 \<le> i" "i < 2 ^ 36"
  using as_integer_loop_bits [of fs field_pairs 0 0 i] assms
  by (simp_all add: as_integer_def) (simp_all add: field_pairs_def)

text \<open>The field a flag of the grammar sets, and the value it gets.\<close>

definition field_of :: "string \<Rightarrow> string" where
  "field_of f = (if f = ''if'' then ''_if'' else f)"

definition set_value :: "string \<Rightarrow> int" where
  "set_value f = (if f = ''iopl'' then 3 else 1)"

definition acts_on :: "(flag_action \<Rightarrow> bool) \<Rightarrow> flag_action list \<Rightarrow> string \<Rightarrow> bool" where
  "acts_on P fas f \<longleftrightarrow> (\<exists>fa \<in> set fas. P fa \<and> map_option field_of (fa_flag fa) = Some f)"

definition marked :: "(flag_action \<Rightarrow> bool) \<Rightarrow> flag_action list \<Rightarrow> flag_set \<Rightarrow> bool" where
  "marked P fas fs \<longleftrightarrow> (\<forall>f \<in> set field_names. map_of fs f = Some (if acts_on P fas f then set_value f else 0))"

definition action_ok :: "flag_action \<Rightarrow> bool" where
  "action_ok fa \<longleftrightarrow>
     (case fa_flag fa of
        None \<Rightarrow> fa_action fa = None
      | Some f \<Rightarrow> (f = [] \<or> field_of f \<in> set field_names) \<and> (\<exists>a \<in> set valid_flag_actions. fa_action fa = Some a))"

definition rec_ok :: "flags_rec \<Rightarrow> bool" where
  "rec_ok fr \<longleftrightarrow>
     marked fa_reads_flag (flag_actions fr) (read_set fr) \<and>
     marked fa_writes_flag (flag_actions fr) (write_set fr) \<and>
     marked makes_flag_undefined (flag_actions fr) (undefined_set fr) \<and>
     (\<forall>fa \<in> set (flag_actions fr). action_ok fa) \<and>
     may_must fr \<in> set valid_flags_semantics_specifiers \<and>
     (\<forall>q. fr_qualifier fr = Some q \<longrightarrow> q \<in> set valid_flags_qualifiers) \<and>
     flag_action_index fr = None \<and> simple_id fr = None"

lemma marked_new: "marked P [] (flag_set_new False)"
  by (simp add: marked_def acts_on_def flag_set_new_def field_names_def field_pairs_def)

lemma flag_set_set_eq:
  "flag_set_set f 1 fs = (if field_of f \<in> set field_names then Inr (dset (field_of f) (set_value (field_of f)) fs)
     else Inl (Die (''Bad flags field name: '' @ field_of f)))"
  by (simp add: flag_set_set_def field_of_def set_value_def Let_def)

lemma marked_step:
  assumes "marked P fas fs" "fa_flag fa = Some f" "P fa" "flag_set_set f 1 fs = Inr fs'"
  shows "marked P (fas @ [fa]) fs'" and "field_of f \<in> set field_names"
proof -
  have fs': "field_of f \<in> set field_names" "fs' = dset (field_of f) (set_value (field_of f)) fs"
    using assms(4) by (simp_all add: flag_set_set_eq split: if_splits)
  have "acts_on P (fas @ [fa]) g \<longleftrightarrow> g = field_of f \<or> acts_on P fas g" for g
    using assms(2,3) by (auto simp: acts_on_def)
  then show "marked P (fas @ [fa]) fs'" using assms(1) by (simp add: marked_def fs'(2))
  show "field_of f \<in> set field_names" by (rule fs')
qed

lemma marked_skip:
  assumes "marked P fas fs" "fa_flag fa = None \<or> fa_flag fa = Some [] \<or> \<not> P fa"
  shows "marked P (fas @ [fa]) fs"
proof -
  have "field_of [] = []" "[] \<notin> set field_names" by (simp_all add: field_names_def field_pairs_def field_of_def)
  then have "acts_on P (fas @ [fa]) g \<longleftrightarrow> acts_on P fas g" if "g \<in> set field_names" for g
    using assms(2) that unfolding acts_on_def by auto
  then show ?thesis using assms(1) by (simp add: marked_def)
qed

lemma flag_action_new_ok:
  "flag_action_new s = Inr fa \<Longrightarrow> (fa_flag fa = None \<longrightarrow> fa_action fa = None) \<and>
     (\<forall>f. fa_flag fa = Some f \<longrightarrow> (\<exists>a \<in> set valid_flag_actions. fa_action fa = Some a))"
  by (auto simp: flag_action_new_def split: if_splits list.splits)

lemma reads_or_writes: "fa_reads_flag fa \<or> fa_writes_flag fa"
  by (simp add: fa_reads_flag_def fa_writes_flag_def)

lemma add_flag_action_ok:
  assumes "rec_ok fr" "add_flag_action s fr = Inr fr'"
  shows "rec_ok fr'"
proof -
  from assms(2) obtain fa where fa: "flag_action_new s = Inr fa"
    by (auto simp: add_flag_action_def rbind_eq_Inr)
  note ok = flag_action_new_ok [OF fa] and r = reads_or_writes [of fa]
  show ?thesis
  proof (cases "fa_flag fa = None \<or> fa_flag fa = Some []")
    case True
    then have "fr' = fr\<lparr>flag_actions := flag_actions fr @ [fa]\<rparr>"
      using assms(2) fa by (auto simp: add_flag_action_def)
    then show ?thesis using assms(1) True ok by (auto simp: rec_ok_def action_ok_def intro!: marked_skip)
  next
    case False
    then obtain f where f: "fa_flag fa = Some f" "f \<noteq> []" by auto
    with assms(2) fa obtain x y z where
      x: "(if fa_reads_flag fa then flag_set_set f 1 (read_set fr) else Inr (read_set fr)) = Inr x" and
      y: "(if fa_writes_flag fa then flag_set_set f 1 (write_set fr) else Inr (write_set fr)) = Inr y" and
      z: "(if makes_flag_undefined fa then flag_set_set f 1 (undefined_set fr) else Inr (undefined_set fr)) = Inr z" and
      fr': "fr' = fr\<lparr>flag_actions := flag_actions fr @ [fa], read_set := x, write_set := y, undefined_set := z\<rparr>"
      by (auto simp: add_flag_action_def rbind_eq_Inr Let_def cong: if_cong)
    have step: "marked P (flag_actions fr @ [fa]) s'"
      if "marked P (flag_actions fr) s" "(if P fa then flag_set_set f 1 s else Inr s) = Inr s'" for P s s'
      using that f by (auto split: if_splits intro: marked_step marked_skip)
    have "field_of f \<in> set field_names"
      using x y r by (auto simp: flag_set_set_eq split: if_splits)
    then show ?thesis
      using assms(1) ok f step [of fa_reads_flag, OF _ x] step [of fa_writes_flag, OF _ y]
        step [of makes_flag_undefined, OF _ z] by (auto simp: fr' rec_ok_def action_ok_def)
  qed
qed

lemma take_qualifier_ok:
  "take_qualifier qs = Inr (q, mm) \<Longrightarrow> q = Some x \<Longrightarrow> x \<in> set valid_flags_qualifiers"
  by (auto simp: take_qualifier_def split: list.splits if_splits)

lemma flags_rec_new_ok:
  assumes "flags_rec_new s = Inr fr"
  shows "rec_ok fr"
proof -
  from assms obtain m q mm where m: "rx_search flag_pattern s = Some m"
    and q: "take_qualifier (split_words (strip (group ''qualifiers'' m))) = Inr (q, mm)"
    and mm: "mm \<in> set valid_flags_semantics_specifiers"
    and run: "foldM add_flag_action (split_words (strip (group ''flags'' m)))
      \<lparr>fr_qualifier = q, may_must = mm, flag_actions = [], read_set = flag_set_new False,
       write_set = flag_set_new False, undefined_set = flag_set_new False,
       flag_action_index = None, simple_id = None\<rparr> = Inr fr"
    by (auto simp: flags_rec_new_def rbind_eq_Inr split: option.splits if_splits)
  show ?thesis
  proof (rule foldM_invariant [OF run, where I = rec_ok])
    show "rec_ok \<lparr>fr_qualifier = q, may_must = mm, flag_actions = [], read_set = flag_set_new False,
       write_set = flag_set_new False, undefined_set = flag_set_new False,
       flag_action_index = None, simple_id = None\<rparr>"
      using take_qualifier_ok [OF q] mm by (simp add: rec_ok_def marked_new)
  qed (rule add_flag_action_ok)
qed

text \<open>The part of a mask that belongs to the field after the fields \<open>qs\<close>.\<close>

definition mask_field :: "int \<Rightarrow> (string \<times> nat) list \<Rightarrow> nat \<Rightarrow> int" where
  "mask_field m qs w = take_bit w (drop_bit (sum_list (map snd qs)) m)"

text \<open>
  C24: the masks of a parsed record mean its actions.  The read, written and undefined masks emitted for a
  FLAGS record have, in the position of a flag in the flags register, the value one (both bits for the
  two-bit IOPL) when some action of the record reads, writes or undefines that flag, and zero otherwise.
\<close>

theorem flag_masks_exact:
  assumes parsed: "flags_rec_new s = Inr fr"
    and field: "field_pairs = qs @ (f, w) # rs"
    and masks: "as_integer (read_set fr) = Inr r" "as_integer (write_set fr) = Inr wr" "as_integer (undefined_set fr) = Inr u"
  shows "mask_field r qs w = (if acts_on fa_reads_flag (flag_actions fr) f then set_value f else 0) \<and>
    mask_field wr qs w = (if acts_on fa_writes_flag (flag_actions fr) f then set_value f else 0) \<and>
    mask_field u qs w = (if acts_on makes_flag_undefined (flag_actions fr) f then set_value f else 0)"
proof -
  have f: "f \<in> set field_names" by (simp add: field_names_def field)
  have "(f, w) \<in> set field_pairs" by (simp add: field)
  then have "0 \<le> set_value f" "set_value f < 2 ^ w" by (auto simp: field_pairs_def set_value_def)
  then have fit: "take_bit w (set_value f) = set_value f" by (rule take_bit_int_eq_self)
  have go: "mask_field m qs w = (if acts_on P (flag_actions fr) f then set_value f else 0)"
    if "as_integer fs = Inr m" "marked P (flag_actions fr) fs" for m P fs
    using as_integer_bits(1) [OF that(1) field] that(2) f fit by (auto simp: marked_def mask_field_def split: if_splits)
  note ok = flags_rec_new_ok [OF parsed, unfolded rec_ok_def]
  show ?thesis
    by (intro conjI go [OF masks(1)] go [OF masks(2)] go [OF masks(3)]) (use ok in \<open>simp_all only:\<close>)
qed

section \<open>The tables read back\<close>

lemma as_integer_total:
  "marked P fas fs \<Longrightarrow> \<exists>i. as_integer fs = Inr i"
proof -
  assume m: "marked P fas fs"
  have "\<exists>i. as_integer_loop fs ps s n = Inr i" if "\<forall>(f, w) \<in> set ps. map_of fs f \<noteq> None" for ps s n
    using that by (induction ps arbitrary: s n) auto
  moreover have "\<forall>(f, w) \<in> set field_pairs. map_of fs f \<noteq> None"
    using m by (force simp: marked_def field_names_def)
  ultimately show ?thesis by (simp add: as_integer_def)
qed

lemma fr_identifier_piece_Inr:
  "fr_identifier_piece fa = Inr i \<longleftrightarrow> (\<exists>f. fa_flag fa = Some f \<and> f \<noteq> [] \<and> i = f @ ''-'' @ py_str_option (fa_action fa))"
  by (auto simp: fr_identifier_piece_def split: option.splits)

lemma mapM_append: "mapM f (xs @ ys) = rbind (mapM f xs) (\<lambda>a. rbind (mapM f ys) (\<lambda>b. Inr (a @ b)))"
  by (induction xs) (auto simp: rbind_def split: sum.splits)

text \<open>Valid actions are determined by the identifying string.\<close>

definition plain_action :: "flag_action \<Rightarrow> bool" where
  "plain_action fa \<longleftrightarrow> action_ok fa \<and> fa_flag fa \<noteq> None \<and> fa_flag fa \<noteq> Some []"

definition piece_of :: "flag_action \<Rightarrow> string" where
  "piece_of fa = py_str_option (fa_flag fa) @ ''-'' @ py_str_option (fa_action fa)"

lemma plain_piece: "plain_action fa \<Longrightarrow> fr_identifier_piece fa = Inr (piece_of fa)"
  by (auto simp: fr_identifier_piece_def plain_action_def piece_of_def py_str_option_def split: option.splits)

lemma field_chars:
  "field_of f \<in> set field_names \<Longrightarrow> CHR ''-'' \<notin> set f \<and> CHR '':'' \<notin> set f"
  by (auto simp: field_of_def field_names_def field_pairs_def split: if_splits)

lemma action_chars: "a \<in> set valid_flag_actions \<Longrightarrow> CHR ''-'' \<notin> set a \<and> CHR '':'' \<notin> set a"
  by (auto simp: valid_flag_actions_def)

lemma piece_inj:
  assumes "plain_action x" "plain_action y" "piece_of x = piece_of y"
  shows "x = y"
proof -
  from assms obtain f a g b where x: "x = \<lparr>fa_flag = Some f, fa_action = Some a\<rparr>" and y: "y = \<lparr>fa_flag = Some g, fa_action = Some b\<rparr>"
    and c: "CHR ''-'' \<notin> set f" "CHR ''-'' \<notin> set a" "CHR ''-'' \<notin> set g" "CHR ''-'' \<notin> set b"
    using field_chars action_chars
    by (cases x; cases y) (auto simp: plain_action_def action_ok_def split: option.splits)
  have "split_on CHR ''-'' (join ''-'' [f, a]) = split_on CHR ''-'' (join ''-'' [g, b])"
    using assms(3) by (simp add: x y piece_of_def py_str_option_def)
  moreover have "split_on CHR ''-'' (join ''-'' [f, a]) = [f, a]" "split_on CHR ''-'' (join ''-'' [g, b]) = [g, b]"
    by (rule split_on_join; use c in simp)+
  ultimately show ?thesis by (simp add: x y)
qed

lemma piece_chars: "plain_action x \<Longrightarrow> CHR '':'' \<notin> set (piece_of x)"
  using field_chars action_chars
  by (auto simp: plain_action_def action_ok_def piece_of_def py_str_option_def split: option.splits)

lemma pieces_inj:
  assumes "\<forall>x \<in> set xs. plain_action x" "\<forall>y \<in> set ys. plain_action y"
    "join '':'' (map piece_of xs) = join '':'' (map piece_of ys)"
  shows "xs = ys"
proof -
  have sp: "split_on CHR '':'' (join '':'' (map piece_of zs)) = (if zs = [] then [[]] else map piece_of zs)"
    if "\<forall>z \<in> set zs. plain_action z" for zs
    using that piece_chars by (cases "zs = []") (auto intro!: split_on_join)
  have ne: "map piece_of zs \<noteq> [[]]" for zs by (cases zs) (simp_all add: piece_of_def)
  have "(if xs = [] then [[]] else map piece_of xs) = (if ys = [] then [[]] else map piece_of ys)"
    using sp [OF assms(1)] sp [OF assms(2)] unfolding assms(3) by (rule trans [OF sym])
  then have "map piece_of xs = map piece_of ys"
    using ne [of xs] ne [of ys] not_sym by (cases "xs = []"; cases "ys = []") simp_all
  moreover have "inj_on piece_of {x. plain_action x}" by (auto intro!: inj_onI piece_inj)
  ultimately show ?thesis using assms(1,2) by (auto intro: map_inj_on [OF _ inj_on_subset])
qed

definition rows_at :: "string list \<Rightarrow> nat \<Rightarrow> flag_action list \<Rightarrow> bool" where
  "rows_at ls t fas \<longleftrightarrow>
     t + length fas \<le> length ls \<and> (\<forall>j < length fas. ls ! (t + j) = action_line (t + j) (fas ! j))"

definition tables_ok :: "flag_tables \<Rightarrow> bool" where
  "tables_ok st \<longleftrightarrow>
     max_flag_actions st = length (action_lines st) \<and>
     (\<forall>i t. map_of (fa_table st) i = Some t \<longrightarrow>
        (\<exists>fas. (\<forall>fa \<in> set fas. plain_action fa) \<and> i = join '':'' (map piece_of fas) \<and> rows_at (action_lines st) t fas)) \<and>
     flag_simple_rec st = length (simple_lines st) \<and>
     (\<forall>t n. map_of (fr_table st) t = Some n \<longrightarrow>
        n < length (simple_lines st) \<and> simple_lines st ! n = numbered_line n t) \<and>
     flag_complex_rec st = length (complex_lines st)"

definition extends :: "flag_tables \<Rightarrow> flag_tables \<Rightarrow> bool" where
  "extends st st' \<longleftrightarrow>
     (\<exists>xs. action_lines st' = action_lines st @ xs) \<and> (\<exists>xs. simple_lines st' = simple_lines st @ xs) \<and>
     (\<exists>xs. complex_lines st' = complex_lines st @ xs)"

lemma extends_refl [simp]: "extends st st"
  by (simp add: extends_def)

lemma extends_trans: "extends a b \<Longrightarrow> extends b c \<Longrightarrow> extends a c"
  by (auto simp: extends_def)

lemma rows_at_append: "rows_at ls t fas \<Longrightarrow> rows_at (ls @ xs) t fas"
  by (auto simp: rows_at_def nth_append)

lemma rows_at_take: "rows_at ls t fas \<Longrightarrow> rows_at ls t (take k fas)"
  by (auto simp: rows_at_def)

lemma pieces_plain:
  assumes "mapM fr_identifier_piece fas = Inr ps" "\<forall>fa \<in> set fas. action_ok fa"
  shows "(\<forall>fa \<in> set fas. plain_action fa) \<and> ps = map piece_of fas"
  using assms
proof (induction fas arbitrary: ps)
  case (Cons fa fas)
  then obtain f where "fa_flag fa = Some f" "f \<noteq> []"
    by (auto simp: rbind_eq_Inr fr_identifier_piece_Inr)
  then have p: "plain_action fa" using Cons.prems by (simp add: plain_action_def)
  from Cons.prems obtain qs where "mapM fr_identifier_piece fas = Inr qs" "ps = piece_of fa # qs"
    by (auto simp: rbind_eq_Inr plain_piece [OF p])
  then show ?case using Cons.IH Cons.prems(2) p by auto
qed simp

lemma identifier_plain:
  assumes "\<forall>fa \<in> set (flag_actions fr). plain_action fa"
  shows "fr_identifier fr k = Inr (join '':'' (map piece_of (take (Suc k) (flag_actions fr))))"
proof -
  have "mapM fr_identifier_piece (take (Suc k) (flag_actions fr)) = Inr (map piece_of (take (Suc k) (flag_actions fr)))"
    by (rule mapM_total) (meson assms in_set_takeD plain_piece)
  then show ?thesis by (simp add: fr_identifier_def)
qed

lemma emitted_rows:
  assumes "\<forall>fa \<in> set (flag_actions fr). plain_action fa"
  shows "fr_emit_data_record t fr = Inr (map (\<lambda>(i, fa). action_line (t + i) fa) (List.enumerate 0 (flag_actions fr)))"
proof -
  have "rbind (fr_identifier_piece fa) (\<lambda>_. Inr (action_line (t + i) fa)) = Inr (action_line (t + i) fa)"
    if "(i, fa) \<in> set (List.enumerate 0 (flag_actions fr))" for i fa
  proof -
    have "fa \<in> set (flag_actions fr)" using that by (simp add: in_set_enumerate_eq) (metis nth_mem)
    then show ?thesis using assms by (simp add: plain_piece)
  qed
  then show ?thesis unfolding fr_emit_data_record_def by (intro mapM_total) auto
qed

lemma rows_at_new: "rows_at (ls @ map (\<lambda>(i, fa). action_line (length ls + i) fa) (List.enumerate 0 fas)) (length ls) fas"
  by (simp add: rows_at_def nth_append nth_enumerate_eq)

text \<open>Installing the prefixes of a record's actions.\<close>

lemma install_prefixes:
  assumes "foldM (\<lambda>k tab. rbind (fr_identifier fr k) (\<lambda>j. Inr (dset j t tab))) ks tab = Inr tab'"
    and "\<forall>fa \<in> set (flag_actions fr). plain_action fa" "map_of tab' i = Some u"
  shows "map_of tab i = Some u \<or> (u = t \<and> (\<exists>k. i = join '':'' (map piece_of (take k (flag_actions fr)))))"
  using assms(1,3)
proof (induction ks arbitrary: tab)
  case (Cons k ks)
  let ?j = "join '':'' (map piece_of (take (Suc k) (flag_actions fr)))"
  have "map_of (dset ?j t tab) i = Some u \<or> (u = t \<and> (\<exists>k. i = join '':'' (map piece_of (take k (flag_actions fr)))))"
    using Cons.prems by (intro Cons.IH) (simp_all add: identifier_plain [OF assms(2)])
  then show ?case by (auto split: if_splits)
qed simp

lemma compute_assign_ok:
  assumes ok: "tables_ok st" and valid: "\<forall>fa \<in> set (flag_actions fr). action_ok fa" "length (flag_actions fr) \<le> 100"
    and run: "compute_assign_flag_action_id fr st = Inr (t, fr', st')"
  shows "tables_ok st' \<and> extends st st' \<and> fr' = fr\<lparr>flag_action_index := Some t\<rparr> \<and>
    rows_at (action_lines st') t (flag_actions fr) \<and>
    simple_lines st' = simple_lines st \<and> complex_lines st' = complex_lines st"
proof -
  have all: "take (Suc 99) (flag_actions fr) = flag_actions fr" using valid(2) by simp
  from run obtain i where "fr_identifier fr 99 = Inr i" by (auto simp: compute_assign_flag_action_id_def rbind_eq_Inr)
  then have plain: "\<forall>fa \<in> set (flag_actions fr). plain_action fa"
    using pieces_plain [OF _ valid(1)] unfolding fr_identifier_def all by (auto simp: rbind_eq_Inr)
  have i: "fr_identifier fr 99 = Inr (join '':'' (map piece_of (flag_actions fr)))"
    unfolding identifier_plain [OF plain] all by simp
  show ?thesis
  proof (cases "map_of (fa_table st) (join '':'' (map piece_of (flag_actions fr)))")
    case (Some u)
    then have r: "t = u" "st' = st" "fr' = fr\<lparr>flag_action_index := Some t\<rparr>"
      using run i by (auto simp: compute_assign_flag_action_id_def)
    from ok Some obtain fas where fas: "\<forall>fa \<in> set fas. plain_action fa"
      "join '':'' (map piece_of (flag_actions fr)) = join '':'' (map piece_of fas)" "rows_at (action_lines st) u fas"
      unfolding tables_ok_def by blast
    then have "rows_at (action_lines st) u (flag_actions fr)" using pieces_inj [OF plain] by metis
    then show ?thesis using ok r by simp
  next
    case None
    define rows where "rows = map (\<lambda>(i, fa). action_line (length (action_lines st) + i) fa) (List.enumerate 0 (flag_actions fr))"
    have max: "max_flag_actions st = length (action_lines st)" using ok by (simp add: tables_ok_def)
    obtain tab where tab: "foldM (\<lambda>k tab. rbind (fr_identifier fr k) (\<lambda>j. Inr (dset j (max_flag_actions st) tab)))
        [0..<length (flag_actions fr)] (fa_table st) = Inr tab"
      and r: "t = max_flag_actions st" "fr' = fr\<lparr>flag_action_index := Some t\<rparr>"
        "st' = st\<lparr>max_flag_actions := t + length (flag_actions fr), fa_table := tab, action_lines := action_lines st @ rows\<rparr>"
      using run i None
      by (auto simp: compute_assign_flag_action_id_def rbind_eq_Inr Let_def emitted_rows [OF plain] max rows_def)
    have new: "rows_at (action_lines st @ rows) t (flag_actions fr)"
      unfolding rows_def r(1) max by (rule rows_at_new)
    have "\<exists>fas. (\<forall>fa \<in> set fas. plain_action fa) \<and> j = join '':'' (map piece_of fas) \<and> rows_at (action_lines st @ rows) u fas"
      if "map_of tab j = Some u" for j u
      using install_prefixes [OF tab plain that]
    proof
      assume "map_of (fa_table st) j = Some u"
      then show ?thesis using ok rows_at_append unfolding tables_ok_def by metis
    next
      assume "u = max_flag_actions st \<and> (\<exists>k. j = join '':'' (map piece_of (take k (flag_actions fr))))"
      then obtain k where "u = t" "j = join '':'' (map piece_of (take k (flag_actions fr)))" using r(1) by blast
      then show ?thesis
        using rows_at_take [OF new, of k] plain by (intro exI [of _ "take k (flag_actions fr)"]) (auto dest: in_set_takeD)
    qed
    then have "tables_ok st'" using ok by (simp add: tables_ok_def r(3) max r(1) rows_def)
    then show ?thesis using new by (simp add: r(2,3) extends_def)
  qed
qed

definition simple_at :: "flag_tables \<Rightarrow> flags_rec \<Rightarrow> bool" where
  "simple_at st fr \<longleftrightarrow>
     (\<exists>n idx t. simple_id fr = Some n \<and> flag_action_index fr = Some idx \<and> simple_text fr idx = Inr t \<and>
        n < length (simple_lines st) \<and> simple_lines st ! n = numbered_line n t \<and>
        rows_at (action_lines st) idx (flag_actions fr))"

definition complex_at :: "flag_tables \<Rightarrow> flags_info \<Rightarrow> bool" where
  "complex_at st fi \<longleftrightarrow>
     (\<exists>n cases. complex_id fi = Some n \<and> mapM (case_entry (flags_recs fi)) ordered_cases = Inr cases \<and>
        n < length (complex_lines st) \<and>
        complex_lines st ! n = numbered_line n (complex_text (fi_is_rep fi) (fi_is_imm fi) cases))"

text \<open>A record without its assigned numbers.\<close>

definition unassigned :: "flags_rec \<Rightarrow> flags_rec" where
  "unassigned fr = fr\<lparr>flag_action_index := None, simple_id := None\<rparr>"

lemma simple_at_extends: "extends st st' \<Longrightarrow> simple_at st fr \<Longrightarrow> simple_at st' fr"
  by (auto simp: extends_def simple_at_def nth_append rows_at_append)

lemma complex_at_extends: "extends st st' \<Longrightarrow> complex_at st fi \<Longrightarrow> complex_at st' fi"
  by (auto simp: extends_def complex_at_def nth_append)

lemma simple_text_ids [simp]:
  "simple_text (fr\<lparr>flag_action_index := a\<rparr>) i = simple_text fr i"
  "simple_text (fr\<lparr>simple_id := b\<rparr>) i = simple_text fr i"
  by (simp_all add: simple_text_def)

definition small_rec :: "flags_rec \<Rightarrow> bool" where
  "small_rec fr \<longleftrightarrow> (\<forall>fa \<in> set (flag_actions fr). action_ok fa) \<and> length (flag_actions fr) \<le> 100"

lemma emit_simple_record_ok:
  assumes ok: "tables_ok st" and small: "small_rec fr" and run: "emit_simple_record fr st = Inr (n, fr', st')"
  shows "tables_ok st' \<and> extends st st' \<and> unassigned fr' = unassigned fr \<and> simple_id fr' = Some n \<and> simple_at st' fr'"
proof -
  from run obtain p where p: "compute_assign_flag_action_id fr st = Inr p"
    unfolding emit_simple_record_def by (rule rbind_eq_InrE)
  obtain idx fr1 st1 where c: "compute_assign_flag_action_id fr st = Inr (idx, fr1, st1)"
    using p by (cases p) auto
  with run obtain t where t: "simple_text fr1 idx = Inr t"
    and rest: "(case map_of (fr_table st1) t of
         Some n \<Rightarrow> Inr (n, fr1\<lparr>simple_id := Some n\<rparr>, st1)
       | None \<Rightarrow>
           let n = flag_simple_rec st1
           in Inr (n, fr1\<lparr>simple_id := Some n\<rparr>,
                st1\<lparr>flag_simple_rec := n + 1, fr_table := dset t n (fr_table st1),
                   simple_lines := simple_lines st1 @ [numbered_line n t]\<rparr>)) = (Inr (n, fr', st') :: (nat \<times> flags_rec \<times> flag_tables) res)"
    unfolding emit_simple_record_def c by (simp only: rbind_simps prod.case) (erule rbind_eq_InrE)
  from small compute_assign_ok [OF ok _ _ c] have st1: "tables_ok st1" "extends st st1"
    "fr1 = fr\<lparr>flag_action_index := Some idx\<rparr>" "rows_at (action_lines st1) idx (flag_actions fr)"
    by (auto simp: small_rec_def)
  have fr': "fr' = fr1\<lparr>simple_id := Some n\<rparr>" using rest by (auto simp: Let_def split: option.splits)
  have len: "flag_simple_rec st1 = length (simple_lines st1)" using st1(1) by (simp add: tables_ok_def)
  have "tables_ok st' \<and> extends st1 st' \<and> n < length (simple_lines st') \<and> simple_lines st' ! n = numbered_line n t \<and>
      action_lines st' = action_lines st1"
  proof (cases "map_of (fr_table st1) t")
    case None
    then have st': "n = flag_simple_rec st1" "st' = st1\<lparr>flag_simple_rec := n + 1, fr_table := dset t n (fr_table st1),
        simple_lines := simple_lines st1 @ [numbered_line n t]\<rparr>"
      using rest by (auto simp: Let_def)
    have "k < Suc (length (simple_lines st1)) \<and> (simple_lines st1 @ [numbered_line n t]) ! k = numbered_line k s"
      if "map_of (dset t n (fr_table st1)) s = Some k" for s k
    proof (cases "s = t")
      case True
      then show ?thesis using that st'(1) len by (auto simp: nth_append)
    next
      case False
      then have "map_of (fr_table st1) s = Some k" using that by simp
      then have "k < length (simple_lines st1)" "simple_lines st1 ! k = numbered_line k s"
        using st1(1) unfolding tables_ok_def by blast+
      then show ?thesis by (simp add: nth_append)
    qed
    then show ?thesis using st1(1) len by (simp add: st' tables_ok_def extends_def)
  next
    case (Some m)
    then have "n = m" "st' = st1" using rest by auto
    moreover have "m < length (simple_lines st1)" "simple_lines st1 ! m = numbered_line m t"
      using st1(1) Some unfolding tables_ok_def by blast+
    ultimately show ?thesis using st1(1) by simp
  qed
  then show ?thesis
    using st1 t by (auto simp: fr' simple_at_def unassigned_def intro: extends_trans)
qed

lemma emit_simple_records_ok:
  assumes "tables_ok st" "\<forall>fr \<in> set frs. small_rec fr" "emit_simple_records frs d st = Inr (e, frs', st')"
  shows "tables_ok st' \<and> extends st st' \<and> map unassigned frs' = map unassigned frs \<and>
    (\<forall>fr \<in> set frs'. simple_at st' fr) \<and> e = (if frs = [] then d else simple_id (last frs'))"
  using assms
proof (induction frs arbitrary: d st frs')
  case (Cons fr frs)
  then obtain n fr1 st1 frs1 where a: "emit_simple_record fr st = Inr (n, fr1, st1)"
    and b: "emit_simple_records frs (Some n) st1 = Inr (e, frs1, st')" and frs': "frs' = fr1 # frs1"
    by (auto simp: rbind_eq_Inr)
  note A = emit_simple_record_ok [OF Cons.prems(1) _ a]
  have B: "tables_ok st' \<and> extends st1 st' \<and> map unassigned frs1 = map unassigned frs \<and>
      (\<forall>fr \<in> set frs1. simple_at st' fr) \<and> e = (if frs = [] then Some n else simple_id (last frs1))"
    using A Cons.prems(2) by (intro Cons.IH [OF _ _ b]) auto
  then have "frs = [] \<longleftrightarrow> frs1 = []" by auto
  then show ?case
    using A B Cons.prems(2) by (auto simp: frs' intro: extends_trans simple_at_extends)
qed simp

lemma fi_emit_ok:
  assumes ok: "tables_ok st" and small: "\<forall>fr \<in> set (flags_recs fi). small_rec fr"
    and run: "fi_emit_data_record fi st = Inr ((n, c), fi', st')"
  shows "tables_ok st' \<and> extends st st' \<and> map unassigned (flags_recs fi') = map unassigned (flags_recs fi) \<and>
    (\<forall>fr \<in> set (flags_recs fi'). simple_at st' fr) \<and> c = fi_is_complex fi' \<and>
    (if c then complex_id fi' = Some n \<and> complex_at st' fi' else simple_id (last (flags_recs fi')) = Some n)"
proof -
  from run obtain p where p: "emit_simple_records (flags_recs fi) None st = Inr p"
    unfolding fi_emit_data_record_def by (rule rbind_eq_InrE)
  obtain d frs st1 where s: "emit_simple_records (flags_recs fi) None st = Inr (d, frs, st1)"
    using p by (cases p) auto
  note S = emit_simple_records_ok [OF ok small s]
  let ?fi = "fi\<lparr>flags_recs := frs\<rparr>"
  show ?thesis
  proof (cases "fi_is_complex ?fi")
    case True
    with run s obtain cases where cases: "mapM (case_entry frs) ordered_cases = Inr cases"
      and r: "n = flag_complex_rec st1" "c = True" "fi' = ?fi\<lparr>complex_id := Some n\<rparr>"
        "st' = st1\<lparr>flag_complex_rec := n + 1, complex_lines := complex_lines st1 @
           [numbered_line n (complex_text (fi_is_rep fi') (fi_is_imm fi') cases)]\<rparr>"
      by (auto simp: fi_emit_data_record_def emit_complex_record_def rbind_eq_Inr Let_def)
    have len: "flag_complex_rec st1 = length (complex_lines st1)" using S by (simp add: tables_ok_def)
    have "tables_ok st'" "extends st1 st'" using S len by (auto simp: r(4) r(1) tables_ok_def extends_def)
    moreover have "complex_at st' fi'" using cases len by (simp add: complex_at_def r)
    moreover have "fi_is_complex fi'" using True by (simp add: fi_is_complex_def r(3))
    ultimately show ?thesis using S by (auto simp: r(2,3) intro: extends_trans simple_at_extends)
  next
    case False
    with run s have r: "d = Some n" "c = False" "fi' = ?fi" "st' = st1"
      by (auto simp: fi_emit_data_record_def Let_def split: option.splits)
    then have "flags_recs fi \<noteq> []" "frs \<noteq> []" using S by (auto split: if_splits)
    then show ?thesis using S r False by (auto split: if_splits)
  qed
qed

lemma emit_flags_ok:
  assumes "tables_ok st" "\<forall>fi \<in> set fis. \<forall>fr \<in> set (flags_recs fi). small_rec fr"
    and "emit_flags fis st = Inr (rs, st')"
  shows "tables_ok st' \<and> extends st st' \<and> list_all2 (\<lambda>fi ((n, c), fi').
    map unassigned (flags_recs fi') = map unassigned (flags_recs fi) \<and> (\<forall>fr \<in> set (flags_recs fi'). simple_at st' fr) \<and>
    c = fi_is_complex fi' \<and>
    (if c then complex_id fi' = Some n \<and> complex_at st' fi' else simple_id (last (flags_recs fi')) = Some n)) fis rs"
  using assms
proof (induction fis arbitrary: st rs)
  case (Cons fi fis)
  from Cons.prems(3) obtain p where p: "fi_emit_data_record fi st = Inr p"
    unfolding emit_flags.simps by (rule rbind_eq_InrE)
  obtain n c fi' st1 where a: "fi_emit_data_record fi st = Inr ((n, c), fi', st1)"
    using p by (cases p) auto
  with Cons.prems(3) obtain rs1 where b: "emit_flags fis st1 = Inr (rs1, st')" and rs: "rs = ((n, c), fi') # rs1"
    by (auto simp: rbind_eq_Inr)
  note A = fi_emit_ok [OF Cons.prems(1) _ a]
  have B: "tables_ok st' \<and> extends st1 st' \<and> list_all2 (\<lambda>fi ((n, c), fi').
    map unassigned (flags_recs fi') = map unassigned (flags_recs fi) \<and> (\<forall>fr \<in> set (flags_recs fi'). simple_at st' fr) \<and>
    c = fi_is_complex fi' \<and>
    (if c then complex_id fi' = Some n \<and> complex_at st' fi' else simple_id (last (flags_recs fi')) = Some n)) fis rs1"
    using A Cons.prems(2) by (intro Cons.IH [OF _ _ b]) auto
  then show ?case
    using A Cons.prems(2) by (auto simp: rs intro: extends_trans simple_at_extends complex_at_extends split: if_splits)
qed simp

lemma tables_ok_new: "tables_ok flag_tables_new"
  by (simp add: tables_ok_def flag_tables_new_def)

lemma parsed_small:
  assumes "flags_info_new s = Inr fi" "fr \<in> set (flags_recs fi)"
  shows "rec_ok fr"
proof -
  from assms obtain ts where "mapM (\<lambda>x. flags_rec_new (strip x)) ts = Inr (flags_recs fi)"
    by (auto simp: flags_info_new_def rbind_eq_Inr split: if_splits)
  then show ?thesis using assms(2) by (metis flags_rec_new_ok in_set_conv_nth mapM_Inr_length mapM_Inr_nth)
qed

text \<open>
  C20: the emitted flag tables hold what every FLAGS line says.  For instructions parsed from their lines and
  emitted in order, the result of every instruction is an index into the final tables: its records keep
  their parsed contents, the line of the simple table at a record's number shows that record's counts and
  masks and its place in the table of actions, where exactly its actions stand in order (shared or not);
  a complex instruction has a line in the complex table made of the numbers of its simple records.
\<close>

theorem flag_tables_read_back:
  assumes parsed: "mapM flags_info_new ls = Inr fis"
    and small: "\<forall>fi \<in> set fis. \<forall>fr \<in> set (flags_recs fi). length (flag_actions fr) \<le> 100"
    and emitted: "emit_flags fis flag_tables_new = Inr (rs, st)"
    and k: "k < length ls" "rs ! k = ((n, complex), fi)"
  shows "(\<exists>fi0. flags_info_new (ls ! k) = Inr fi0 \<and> map unassigned (flags_recs fi) = flags_recs fi0) \<and>
    (\<forall>fr \<in> set (flags_recs fi). \<exists>m idx t. simple_id fr = Some m \<and> flag_action_index fr = Some idx \<and>
       simple_text fr idx = Inr t \<and> m < length (simple_lines st) \<and> simple_lines st ! m = numbered_line m t \<and>
       idx + length (flag_actions fr) \<le> length (action_lines st) \<and>
       (\<forall>j < length (flag_actions fr). action_lines st ! (idx + j) = action_line (idx + j) (flag_actions fr ! j))) \<and>
    (if complex
     then \<exists>cases. mapM (case_entry (flags_recs fi)) ordered_cases = Inr cases \<and> n < length (complex_lines st) \<and>
       complex_lines st ! n = numbered_line n (complex_text (fi_is_rep fi) (fi_is_imm fi) cases)
     else simple_id (last (flags_recs fi)) = Some n)"
proof -
  have len: "length fis = length ls" and pk: "flags_info_new (ls ! k) = Inr (fis ! k)"
    using mapM_Inr_length [OF parsed] mapM_Inr_nth [OF parsed k(1)] by simp_all
  have rec: "rec_ok fr" if "fi \<in> set fis" "fr \<in> set (flags_recs fi)" for fi fr
    using parsed that parsed_small by (metis in_set_conv_nth mapM_Inr_length mapM_Inr_nth)
  then have "\<forall>fi \<in> set fis. \<forall>fr \<in> set (flags_recs fi). small_rec fr"
    using small by (auto simp: small_rec_def rec_ok_def)
  from emit_flags_ok [OF tables_ok_new this emitted] k len
  have E: "map unassigned (flags_recs fi) = map unassigned (flags_recs (fis ! k))" "\<forall>fr \<in> set (flags_recs fi). simple_at st fr"
    "if complex then complex_id fi = Some n \<and> complex_at st fi else simple_id (last (flags_recs fi)) = Some n"
    by (auto simp: list_all2_conv_all_nth)
  have "map unassigned (flags_recs (fis ! k)) = flags_recs (fis ! k)"
  proof (rule map_idI)
    fix x assume "x \<in> set (flags_recs (fis ! k))"
    moreover have "fis ! k \<in> set fis" using k(1) len by simp
    ultimately have "rec_ok x" by (intro rec)
    then show "unassigned x = x" by (cases x) (simp add: unassigned_def rec_ok_def)
  qed
  then show ?thesis
    using pk E by (auto simp: simple_at_def complex_at_def rows_at_def split: if_splits)
qed

section \<open>Instances\<close>

definition sample_flags :: "string list" where
  "sample_flags = [''MUST [ cf-mod pf-tst ]'', ''IMM0 MAY [ cf-mod ], IMMx MUST [ cf-mod pf-tst ]'']"

lemma sample_flags_run:
  "\<exists>fis rs st fi. mapM flags_info_new sample_flags = Inr fis \<and>
     (\<forall>fi \<in> set fis. \<forall>fr \<in> set (flags_recs fi). length (flag_actions fr) \<le> 100) \<and>
     emit_flags fis flag_tables_new = Inr (rs, st) \<and> rs ! 1 = ((1, True), fi)"
proof -
  have "(case mapM flags_info_new sample_flags of
      Inl _ \<Rightarrow> False
    | Inr fis \<Rightarrow> list_all (\<lambda>fi. list_all (\<lambda>fr. length (flag_actions fr) \<le> 100) (flags_recs fi)) fis \<and>
        (case emit_flags fis flag_tables_new of Inl _ \<Rightarrow> False | Inr (rs, st) \<Rightarrow> fst (rs ! 1) = (1, True))) = True"
    by code_simp
  then obtain fis rs st where "mapM flags_info_new sample_flags = Inr fis"
    "list_all (\<lambda>fi. list_all (\<lambda>fr. length (flag_actions fr) \<le> 100) (flags_recs fi)) fis"
    "emit_flags fis flag_tables_new = Inr (rs, st)" "fst (rs ! 1) = (1, True)"
    by (auto split: sum.splits)
  then show ?thesis by (cases "rs ! 1") (auto simp: list_all_iff)
qed

theorem flag_tables_read_back_witness:
  "\<exists>fis rs st cases. mapM flags_info_new sample_flags = Inr fis \<and> emit_flags fis flag_tables_new = Inr (rs, st) \<and>
     complex_lines st ! 1 = numbered_line 1 (complex_text (fi_is_rep (snd (rs ! 1))) (fi_is_imm (snd (rs ! 1))) cases)"
proof -
  obtain fis rs st fi where s: "mapM flags_info_new sample_flags = Inr fis"
    "\<forall>fi \<in> set fis. \<forall>fr \<in> set (flags_recs fi). length (flag_actions fr) \<le> 100"
    "emit_flags fis flag_tables_new = Inr (rs, st)" "rs ! 1 = ((1, True), fi)"
    using sample_flags_run by blast
  have "1 < length sample_flags" by (simp add: sample_flags_def)
  from flag_tables_read_back [OF s(1-3) this s(4)] s show ?thesis by force
qed

lemma sample_rec_run:
  "\<exists>fr. flags_rec_new ''MUST [ cf-mod pf-tst ]'' = Inr fr \<and> as_integer (read_set fr) = Inr 4 \<and>
     as_integer (write_set fr) = Inr 1 \<and> as_integer (undefined_set fr) = Inr 0"
proof -
  have "(case flags_rec_new ''MUST [ cf-mod pf-tst ]'' of
      Inl _ \<Rightarrow> False
    | Inr fr \<Rightarrow> as_integer (read_set fr) = Inr 4 \<and> as_integer (write_set fr) = Inr 1 \<and> as_integer (undefined_set fr) = Inr 0) = True"
    by code_simp
  then show ?thesis by (auto split: sum.splits)
qed

theorem flag_masks_exact_witness:
  "\<exists>fr. flags_rec_new ''MUST [ cf-mod pf-tst ]'' = Inr fr \<and> acts_on fa_reads_flag (flag_actions fr) ''pf'' \<and>
     \<not> acts_on fa_writes_flag (flag_actions fr) ''pf''"
proof -
  obtain fr where fr: "flags_rec_new ''MUST [ cf-mod pf-tst ]'' = Inr fr" "as_integer (read_set fr) = Inr 4"
    "as_integer (write_set fr) = Inr 1" "as_integer (undefined_set fr) = Inr 0"
    using sample_rec_run by blast
  have "field_pairs = take 2 field_pairs @ (''pf'', 1) # drop 3 field_pairs" by (simp add: field_pairs_def)
  from flag_masks_exact [OF fr(1) this fr(2-4)] fr(1) show ?thesis
    by (auto simp: mask_field_def field_pairs_def set_value_def drop_bit_eq_div take_bit_eq_mod split: if_splits)
qed

end
