(* ===== verification/Py_Words.thy ===== *)
theory Py_Words
  imports Pattern_Bits
begin

text \<open>
  Words of a text: what \<open>split()\<close>, \<open>strip()\<close> and \<open>' '.join\<close> do to each other.
\<close>

definition is_word :: "string \<Rightarrow> bool" where
  "is_word w \<longleftrightarrow> w \<noteq> [] \<and> (\<forall>c \<in> set w. \<not> is_space c)"

lemma split_words_blank: "split_words (CHR '' '' # s) = split_words s"
  by (simp add: split_words.simps [of "CHR '' '' # s"] split_words.simps [of s] lstrip_def is_space_def)

lemma split_words_Nil [simp]: "split_words [] = []"
  by (simp add: split_words.simps lstrip_def)

lemma split_words_word:
  assumes "is_word w"
  shows "split_words w = [w]" and "split_words (w @ CHR '' '' # s) = w # split_words s"
proof -
  have l: "lstrip (w @ t) = w @ t" for t using assms by (cases w) (auto simp: lstrip_def is_word_def)
  have ne: "w \<noteq> []" using assms by (simp add: is_word_def)
  have a: "takeWhile (\<lambda>c. \<not> is_space c) w = w" "dropWhile (\<lambda>c. \<not> is_space c) w = []"
    using assms by (auto simp: is_word_def takeWhile_eq_all_conv)
  have b: "takeWhile (\<lambda>c. \<not> is_space c) (w @ CHR '' '' # s) = w"
    "dropWhile (\<lambda>c. \<not> is_space c) (w @ CHR '' '' # s) = CHR '' '' # s"
    using assms by (simp_all add: is_word_def takeWhile_append dropWhile_append is_space_def)
  show "split_words w = [w]" using l [of "[]"] ne by (simp add: split_words.simps [of w] a)
  show "split_words (w @ CHR '' '' # s) = w # split_words s"
    using l [of "CHR '' '' # s"] ne b split_words_blank [of s] by (simp add: split_words.simps [of "w @ CHR '' '' # s"])
qed

lemma split_words_join: "\<forall>w \<in> set ws. is_word w \<Longrightarrow> split_words (join '' '' ws) = ws"
proof (induction ws)
  case (Cons w ws)
  then show ?case by (cases ws) (auto simp: split_words_word)
qed simp

lemma strip_inner:
  assumes "s = [] \<or> \<not> is_space (hd s) \<and> \<not> is_space (last s)"
  shows "strip (replicate n CHR '' '' @ s @ replicate m CHR '' '') = s"
proof -
  have sp: "is_space CHR '' ''" by (simp add: is_space_def)
  have r: "dropWhile is_space (replicate n CHR '' '' @ t) = dropWhile is_space t" for n t
    by (induction n) (simp_all add: sp)
  have rep: "rev (replicate m CHR '' '') = replicate m CHR '' ''" by simp
  show ?thesis
  proof (cases "s = []")
    case True
    have "dropWhile is_space (replicate k CHR '' '') = []" for k using r [of k "[]"] by simp
    then show ?thesis using True r by (simp add: strip_def rstrip_def lstrip_def)
  next
    case False
    then have "dropWhile is_space (s @ t) = s @ t" for t using assms by (cases s) auto
    moreover have "dropWhile is_space (rev s) = rev s" using assms False by (cases "rev s") (auto simp: hd_rev [symmetric])
    ultimately show ?thesis by (simp add: strip_def rstrip_def lstrip_def r)
  qed
qed

lemma hd_join: "ws \<noteq> [] \<Longrightarrow> hd ws \<noteq> [] \<Longrightarrow> join x ws \<noteq> [] \<and> hd (join x ws) = hd (hd ws)"
  by (cases "(x, ws)" rule: join.cases) auto

lemma last_join: "ws \<noteq> [] \<Longrightarrow> last ws \<noteq> [] \<Longrightarrow> join x ws \<noteq> [] \<and> last (join x ws) = last (last ws)"
  by (induction x ws rule: join.induct) auto

lemma set_join: "set (join x ws) \<subseteq> set x \<union> \<Union> (set ` set ws)"
  by (induction x ws rule: join.induct) auto

lemma join_append: "xs \<noteq> [] \<Longrightarrow> ys \<noteq> [] \<Longrightarrow> join x (xs @ ys) = join x xs @ x @ join x ys"
  by (induction x xs rule: join.induct) (auto simp: neq_Nil_conv)

lemma words_ends:
  assumes "ws \<noteq> []" "\<forall>w \<in> set ws. is_word w"
  shows "join '' '' ws \<noteq> []" "\<not> is_space (hd (join '' '' ws))" "\<not> is_space (last (join '' '' ws))"
proof -
  have "is_word (hd ws)" "is_word (last ws)" using assms by auto
  then show "join '' '' ws \<noteq> []" "\<not> is_space (hd (join '' '' ws))" "\<not> is_space (last (join '' '' ws))"
    using hd_join [OF assms(1)] last_join [OF assms(1)] by (auto simp: is_word_def)
qed

lemma join_chars:
  "c \<notin> set x \<Longrightarrow> \<forall>w \<in> set ws. c \<notin> set w \<Longrightarrow> c \<notin> set (join x ws)"
  using set_join [of x ws] by auto

end
