(* ===== verification/Flag_Print.thy ===== *)
theory Flag_Print
  imports Flag_Gen Py_Words
begin

text \<open>
  Printing a FLAGS record and parsing what was printed (\<open>pysrc/flag_gen.py\<close>): the search of the record
  pattern in a printed record, the words it is split into, and the round trip.
\<close>

section \<open>Printing and parsing a record\<close>

lemma hd_concat_rev:
  assumes "\<And>k. m < k \<Longrightarrow> k < n \<Longrightarrow> f k = []" "f m = x # xs" "m < n"
  shows "\<exists>ys. concat (map f (rev [0..<n])) = x # ys"
proof -
  have "[0..<n] = [0..<m] @ [m..<n]"
    using upt_add_eq_append [of 0 m "n - m"] assms(3) by simp
  then have "[0..<n] = [0..<m] @ m # [Suc m..<n]" using assms(3) by (simp add: upt_conv_Cons)
  moreover have c: "concat (map f (rev [Suc m..<n])) = []" using assms(1) by auto
  ultimately show ?thesis
    by (intro exI [of _ "xs @ concat (map f (rev [0..<m]))"]) (simp add: assms(2) c del: concat_eq_Nil_conv)
qed

definition bracket_tail :: regex where
  "bracket_tail = RSeq (ROneOf {CHR ''[''}) (RSeq (RGroup ''flags'' (RStar RDot)) (ROneOf {CHR '']''}))"

lemma flags_part:
  assumes "CHR '']'' \<notin> set rest" "CHR 0x0A \<notin> set rest"
  shows "\<exists>ys. rx_steps bracket_tail (p, CHR ''['' # rest @ '']'', g) =
    (Suc (p + length rest + 1), [], dset ''flags'' rest g) # ys"
proof -
  let ?s = "rest @ '']''"
  let ?f = "\<lambda>k. rx_steps (ROneOf {CHR '']''}) (Suc p + k, drop k ?s, dset ''flags'' (take k ?s) g)"
  have tw: "takeWhile (\<lambda>c. c \<notin> {CHR 0x0A}) ?s = ?s" using assms(2) by (auto simp: takeWhile_eq_all_conv)
  have "rx_steps bracket_tail (p, CHR ''['' # ?s, g) = concat (map ?f (rev [0..<Suc (length ?s)]))"
    by (simp add: bracket_tail_def ROneOf_def RDot_def RNoneOf_def rx_steps_star_char tw [simplified] o_def rev_map del: upt_Suc rx_steps.simps(7))
  moreover have "\<exists>ys. concat (map ?f (rev [0..<Suc (length ?s)])) = (Suc (p + length rest + 1), [], dset ''flags'' rest g) # ys"
    by (rule hd_concat_rev [where m = "length rest"]) (auto simp: ROneOf_def)
  ultimately show ?thesis by simp
qed

lemma no_bracket:
  assumes "CHR ''['' \<notin> set s"
  shows "rx_steps (RSeq (RPlus (RChar is_space)) bracket_tail) (p, s, g) = []"
proof -
  have "rx_steps bracket_tail (q, drop k s, h) = []" for q k h
  proof (cases "drop k s")
    case (Cons c t)
    then have "c \<in> set s" using in_set_dropD [of c k s] by simp
    then have "c \<noteq> CHR ''[''" using assms by auto
    then show ?thesis by (simp add: bracket_tail_def ROneOf_def Cons)
  qed (simp add: bracket_tail_def ROneOf_def)
  then show ?thesis by (simp add: rx_steps_plus_char o_def del: upt_Suc)
qed

lemma flag_pattern_steps:
  assumes "takeWhile is_space s = []" "CHR 0x0A \<notin> set s"
  shows "rx_steps flag_pattern (0, s, []) =
    concat (map (\<lambda>k. rx_steps (RSeq (RPlus (RChar is_space)) bracket_tail) (k, drop k s, [(''qualifiers'', take k s)]))
      (rev [0..<Suc (length s)]))"
proof -
  have tw: "takeWhile (\<lambda>c. c \<noteq> CHR 0x0A) s = s" using assms(2) by (auto simp: takeWhile_eq_all_conv)
  have e: "flag_pattern = RSeq (RStar (RChar is_space))
      (RSeq (RGroup ''qualifiers'' (RStar RDot)) (RSeq (RPlus (RChar is_space)) bracket_tail))"
    by (simp add: flag_pattern_def bracket_tail_def)
  have one: "[0..<Suc 0] = [0]" by simp
  show ?thesis
    unfolding e by (simp add: one rx_steps_star_char assms(1) RDot_def RNoneOf_def tw o_def rev_map del: upt_Suc rx_steps.simps(7))
qed

lemma record_search:
  assumes pre: "pre = c # pre'" "\<not> is_space c" "CHR ''['' \<notin> set pre" "CHR 0x0A \<notin> set pre"
    and rest: "CHR ''['' \<notin> set rest" "CHR '']'' \<notin> set rest" "CHR 0x0A \<notin> set rest"
  shows "rx_search flag_pattern (pre @ '' ['' @ rest @ '']'') = Some [(''qualifiers'', pre), (''flags'', rest)]"
proof -
  let ?s = "pre @ '' ['' @ rest @ '']''"
  let ?tail = "RSeq (RPlus (RChar is_space)) bracket_tail"
  let ?f = "\<lambda>k. rx_steps ?tail (k, drop k ?s, [(''qualifiers'', take k ?s)])"
  have steps: "rx_steps flag_pattern (0, ?s, []) = concat (map ?f (rev [0..<Suc (length ?s)]))"
    by (rule flag_pattern_steps) (use pre rest in auto)
  have hit: "\<exists>ys. ?f (length pre) = (length ?s, [], [(''qualifiers'', pre), (''flags'', rest)]) # ys"
  proof -
    obtain ys where "rx_steps bracket_tail (Suc (length pre), CHR ''['' # rest @ '']'', [(''qualifiers'', pre)]) =
        (Suc (Suc (length pre) + length rest + 1), [], dset ''flags'' rest [(''qualifiers'', pre)]) # ys"
      using flags_part [OF rest(2,3)] by blast
    then show ?thesis by (simp add: rx_steps_plus_char is_space_def)
  qed
  have miss: "?f k = []" if "length pre < k" for k
  proof (cases "k = Suc (length pre)")
    case True
    have "\<not> is_space CHR ''[''" by (simp add: is_space_def)
    then show ?thesis using True by (simp add: rx_steps_plus_char)
  next
    case False
    then have "drop k ?s = drop (k - length pre - 2) (rest @ '']'')" using that by (simp add: drop_Cons' numeral_2_eq_2)
    then have "CHR ''['' \<notin> set (drop k ?s)" using rest(1) by (auto dest: in_set_dropD)
    then show ?thesis by (rule no_bracket)
  qed
  obtain ys where "concat (map ?f (rev [0..<Suc (length ?s)])) = (length ?s, [], [(''qualifiers'', pre), (''flags'', rest)]) # ys"
    using hit hd_concat_rev [where f = ?f and m = "length pre" and n = "Suc (length ?s)"] miss by fastforce
  then have "rx_at flag_pattern 0 ?s = Some (length ?s, [], [(''qualifiers'', pre), (''flags'', rest)])"
    unfolding rx_at_def steps by simp
  then show ?thesis by (simp add: rx_search_def rx_find_head)
qed

text \<open>The printed record: what comes before the bracket, and the actions.\<close>

definition qualifier_words :: "flags_rec \<Rightarrow> string list" where
  "qualifier_words fr = (case fr_qualifier fr of None \<Rightarrow> [] | Some q \<Rightarrow> [q]) @ [may_must fr]"

definition action_words :: "flags_rec \<Rightarrow> string list" where
  "action_words fr = map flag_action_str (flag_actions fr)"

definition inner_blanks :: "string list \<Rightarrow> string" where
  "inner_blanks ws = (if ws = [] then '' '' else '' '' @ join '' '' ws @ '' '')"

lemma flags_rec_str_eq:
  "flags_rec_str fr = join '' '' (qualifier_words fr) @ '' ['' @ inner_blanks (action_words fr) @ '']''"
proof -
  have "flags_rec_str fr = join '' '' (qualifier_words fr @ [''[''] @ action_words fr @ ['']''])"
    by (simp add: flags_rec_str_def qualifier_words_def action_words_def)
  moreover have "qualifier_words fr \<noteq> []" by (simp add: qualifier_words_def)
  moreover have "join '' '' ([''[''] @ action_words fr @ ['']'']) = ''['' @ inner_blanks (action_words fr) @ '']''"
  proof (cases "action_words fr")
    case (Cons a as)
    then show ?thesis using join_append [of "a # as" "['']'']" "'' ''"] by (simp add: inner_blanks_def)
  qed (simp add: inner_blanks_def)
  ultimately show ?thesis by (simp add: join_append)
qed

lemma words_of_qualifiers:
  assumes "rec_ok fr" "w \<in> set (qualifier_words fr)"
  shows "is_word w \<and> CHR ''['' \<notin> set w \<and> CHR 0x0A \<notin> set w"
proof -
  have "w \<in> set (valid_flags_qualifiers @ valid_flags_semantics_specifiers)"
    using assms by (auto simp: rec_ok_def qualifier_words_def split: option.splits)
  then show ?thesis
    by (auto simp: valid_flags_semantics_specifiers_def valid_flags_qualifiers_def is_word_def is_space_def)
qed

lemma field_word:
  assumes "f = [] \<or> field_of f \<in> set field_names"
  shows "lower f = f \<and> (\<forall>c \<in> set f. \<not> is_space c \<and> c \<noteq> CHR ''['' \<and> c \<noteq> CHR '']'' \<and> c \<noteq> CHR ''-'')"
proof -
  have "list_all (\<lambda>f. lower f = f \<and> list_all (\<lambda>c. \<not> is_space c \<and> c \<noteq> CHR ''['' \<and> c \<noteq> CHR '']'' \<and> c \<noteq> CHR ''-'') f)
      ([] # ''if'' # field_names) = True"
    by code_simp
  moreover have "f \<in> set ([] # ''if'' # field_names)" using assms by (auto simp: field_of_def split: if_splits)
  ultimately show ?thesis by (simp only: list_all_iff) blast
qed

lemma action_word:
  assumes "a \<in> set valid_flag_actions"
  shows "lower a = a \<and> (\<forall>c \<in> set a. \<not> is_space c \<and> c \<noteq> CHR ''['' \<and> c \<noteq> CHR '']'' \<and> c \<noteq> CHR ''-'')"
proof -
  have "list_all (\<lambda>f. lower f = f \<and> list_all (\<lambda>c. \<not> is_space c \<and> c \<noteq> CHR ''['' \<and> c \<noteq> CHR '']'' \<and> c \<noteq> CHR ''-'') f)
      valid_flag_actions = True"
    by code_simp
  then show ?thesis using assms by (simp only: list_all_iff) blast
qed

lemma words_of_actions:
  assumes "action_ok fa"
  shows "is_word (flag_action_str fa) \<and> CHR ''['' \<notin> set (flag_action_str fa) \<and> CHR '']'' \<notin> set (flag_action_str fa)"
  using assms field_word action_word
  by (fastforce simp: action_ok_def flag_action_str_def is_word_def is_space_def py_str_option_def split: option.splits)

lemma flag_action_round_trip:
  assumes "action_ok fa"
  shows "flag_action_new (flag_action_str fa) = Inr fa"
proof (cases "fa_flag fa")
  case None
  then show ?thesis using assms by (cases fa) (simp add: flag_action_new_def flag_action_str_def action_ok_def)
next
  case (Some f)
  with assms obtain a where a: "fa_action fa = Some a" "a \<in> set valid_flag_actions" "f = [] \<or> field_of f \<in> set field_names"
    by (auto simp: action_ok_def)
  have s: "flag_action_str fa = join ''-'' [f, a]" by (simp add: flag_action_str_def Some a(1) py_str_option_def)
  have l: "lower (join ''-'' [f, a]) = join ''-'' [f, a]"
    using field_word [OF a(3)] action_word [OF a(2)] by (simp add: lower_char_def is_upper_def)
  have "split_on CHR ''-'' (join ''-'' [f, a]) = [f, a]"
    using field_word [OF a(3)] action_word [OF a(2)] by (intro split_on_join) auto
  moreover have "join ''-'' [f, a] \<noteq> ''nothing''"
  proof
    assume "join ''-'' [f, a] = ''nothing''"
    then have "CHR ''-'' \<in> set ''nothing''" by (metis in_set_conv_decomp join.simps(2,3) append.assoc append_Cons append_Nil)
    then show False by simp
  qed
  ultimately show ?thesis unfolding s flag_action_new_def l using a Some by (cases fa) simp
qed

lemma add_flag_action_cong:
  "flag_action_new s = Inr fa \<Longrightarrow> flag_action_new t = Inr fa \<Longrightarrow> add_flag_action s fr = add_flag_action t fr"
  by (simp add: add_flag_action_def)

lemma add_flag_action_appends:
  assumes "add_flag_action s fr = Inr fr'"
  shows "\<exists>fa. flag_action_new s = Inr fa \<and> flag_actions fr' = flag_actions fr @ [fa] \<and>
    fr_qualifier fr' = fr_qualifier fr \<and> may_must fr' = may_must fr"
proof -
  from assms obtain fa where fa: "flag_action_new s = Inr fa"
    unfolding add_flag_action_def by (rule rbind_eq_InrE)
  then have "flag_actions fr' = flag_actions fr @ [fa] \<and> fr_qualifier fr' = fr_qualifier fr \<and> may_must fr' = may_must fr"
    using assms by (auto simp: add_flag_action_def rbind_eq_Inr Let_def split: option.splits if_splits)
  then show ?thesis using fa by blast
qed

lemma printed_actions_run:
  assumes "foldM add_flag_action ss fr = Inr fr'" "\<forall>fa \<in> set (flag_actions fr'). action_ok fa"
  shows "\<exists>fas. flag_actions fr' = flag_actions fr @ fas \<and> foldM add_flag_action (map flag_action_str fas) fr = Inr fr' \<and>
    fr_qualifier fr' = fr_qualifier fr \<and> may_must fr' = may_must fr"
  using assms
proof (induction ss arbitrary: fr)
  case (Cons s ss)
  then obtain fr1 where a: "add_flag_action s fr = Inr fr1" and b: "foldM add_flag_action ss fr1 = Inr fr'"
    by (auto simp: rbind_eq_Inr)
  obtain fa where fa: "flag_action_new s = Inr fa" "flag_actions fr1 = flag_actions fr @ [fa]"
    "fr_qualifier fr1 = fr_qualifier fr" "may_must fr1 = may_must fr"
    using add_flag_action_appends [OF a] by blast
  obtain fas where fas: "flag_actions fr' = flag_actions fr1 @ fas" "foldM add_flag_action (map flag_action_str fas) fr1 = Inr fr'"
    "fr_qualifier fr' = fr_qualifier fr1" "may_must fr' = may_must fr1"
    using Cons.IH [OF b Cons.prems(2)] by blast
  have "action_ok fa" using Cons.prems(2) fa(2) fas(1) by simp
  then have "add_flag_action (flag_action_str fa) fr = Inr fr1"
    using add_flag_action_cong [OF fa(1) flag_action_round_trip] a by metis
  then show ?case using fa fas by (intro exI [of _ "fa # fas"]) simp
qed simp

lemma strip_words:
  assumes "\<forall>w \<in> set ws. is_word w"
  shows "split_words (strip (join '' '' ws)) = ws" "split_words (strip (inner_blanks ws)) = ws"
proof -
  let ?j = "join '' '' ws"
  have e: "?j = [] \<or> \<not> is_space (hd ?j) \<and> \<not> is_space (last ?j)"
    using words_ends [OF _ assms] by (cases "ws = []") simp_all
  show "split_words (strip ?j) = ws" using strip_inner [OF e, of 0 0] split_words_join [OF assms] by simp
  show "split_words (strip (inner_blanks ws)) = ws"
    using strip_inner [OF e, of 1 1] strip_inner [of "[]" 1 0] split_words_join [OF assms]
    by (cases "ws = []") (simp_all add: inner_blanks_def)
qed

text \<open>
  C25: a FLAGS record survives printing and parsing.  Whatever text a record was parsed from, the text it
  prints as is parsed to the same record: its qualifier, its strength, its actions in order and the three
  flag sets.
\<close>

theorem flags_record_round_trip:
  assumes "flags_rec_new s = Inr fr"
  shows "flags_rec_new (flags_rec_str fr) = Inr fr"
proof -
  note ok = flags_rec_new_ok [OF assms]
  let ?pre = "join '' '' (qualifier_words fr)" and ?rest = "inner_blanks (action_words fr)"
  let ?init = "\<lambda>q mm. \<lparr>fr_qualifier = q, may_must = mm, flag_actions = [], read_set = flag_set_new False,
       write_set = flag_set_new False, undefined_set = flag_set_new False,
       flag_action_index = None, simple_id = None\<rparr>"
  from assms obtain q mm ss where q: "mm \<in> set valid_flags_semantics_specifiers"
    and run: "foldM add_flag_action ss (?init q mm) = Inr fr"
    by (auto simp: flags_rec_new_def rbind_eq_Inr split: option.splits if_splits)
  have acts: "\<forall>fa \<in> set (flag_actions fr). action_ok fa" using ok by (simp add: rec_ok_def)
  from printed_actions_run [OF run acts]
  have again: "foldM add_flag_action (action_words fr) (?init q mm) = Inr fr"
    and f: "fr_qualifier fr = q" "may_must fr = mm"
    by (auto simp: action_words_def)
  have wq: "\<forall>w \<in> set (qualifier_words fr). is_word w" and wa: "\<forall>w \<in> set (action_words fr). is_word w"
    using words_of_qualifiers [OF ok] words_of_actions acts by (auto simp: action_words_def)
  have tq: "take_qualifier (qualifier_words fr) = Inr (q, mm)"
    using ok f q by (auto simp: rec_ok_def qualifier_words_def take_qualifier_def valid_flags_semantics_specifiers_def
        valid_flags_qualifiers_def split: option.splits)
  have pre: "?pre \<noteq> []" "\<not> is_space (hd ?pre)" using words_ends [OF _ wq] by (simp_all add: qualifier_words_def)
  have c1: "CHR ''['' \<notin> set ?pre" "CHR 0x0A \<notin> set ?pre"
    by (rule join_chars; use words_of_qualifiers [OF ok] in simp)+
  have nl: "CHR 0x0A \<notin> set w" if "is_word w" for w using that by (auto simp: is_word_def is_space_def)
  have c2: "CHR ''['' \<notin> set ?rest" "CHR '']'' \<notin> set ?rest" "CHR 0x0A \<notin> set ?rest"
  proof -
    have "CHR ''['' \<notin> set (join '' '' (action_words fr))" "CHR '']'' \<notin> set (join '' '' (action_words fr))"
      by (rule join_chars; use words_of_actions acts in \<open>simp add: action_words_def\<close>)+
    moreover have "CHR 0x0A \<notin> set (join '' '' (action_words fr))"
      by (rule join_chars) (use wa nl in simp_all)
    ultimately show "CHR ''['' \<notin> set ?rest" "CHR '']'' \<notin> set ?rest" "CHR 0x0A \<notin> set ?rest"
      by (simp_all add: inner_blanks_def)
  qed
  have "rx_search flag_pattern (flags_rec_str fr) = Some [(''qualifiers'', ?pre), (''flags'', ?rest)]"
    unfolding flags_rec_str_eq
    by (rule record_search [of _ "hd ?pre" "tl ?pre"]) (use pre c1 c2 in simp_all)
  then show ?thesis
    using strip_words(1) [OF wq] strip_words(2) [OF wa] tq q again
    by (simp add: flags_rec_new_def group_def dget_default_def)
qed

theorem flags_record_round_trip_witness:
  "\<exists>fr. flags_rec_new ''MUST [ cf-mod pf-tst ]'' = Inr fr \<and> flags_rec_new (flags_rec_str fr) = Inr fr"
  using sample_rec_run flags_record_round_trip [of "''MUST [ cf-mod pf-tst ]''"] by blast

end
