(* ===== verification/Enumer.thy ===== *)
theory Enumer
  imports Codegen Py_Words
begin

text \<open>
  Generated enumerations (\<open>pysrc/enumer.py\<close>): the values of an enumeration and its duplicates, the check
  that it is dense, the C type and the name tables emitted for it, and the functions that convert between
  enumerators and strings, whose meaning in C is stated.
\<close>

section \<open>Values\<close>

record enumer_value =
  ev_name :: string
  ev_display :: string
  ev_value :: "string option"
  ev_doxygen :: "string option"
  ev_duplicate :: bool

definition enumer_value_new ::
  "string \<Rightarrow> string option \<Rightarrow> string option \<Rightarrow> bool \<Rightarrow> string option \<Rightarrow> enumer_value" where
  "enumer_value_new name val doxygen duplicate display_str =
     \<lparr>ev_name = name,
      ev_display = (case display_str of Some d \<Rightarrow> if d = [] then name else d | None \<Rightarrow> name),
      ev_value = val, ev_doxygen = doxygen, ev_duplicate = duplicate\<rparr>"

definition in_comment :: "string \<Rightarrow> enumer_value \<Rightarrow> bool" where
  "in_comment s v = (case ev_doxygen v of Some d \<Rightarrow> d \<noteq> [] \<and> str_in s d | None \<Rightarrow> False)"

definition scan_for_preset_values :: "enumer_value list \<Rightarrow> bool" where
  "scan_for_preset_values vals = list_ex (\<lambda>v. ev_value v \<noteq> None) vals"

text \<open>\<open>None\<close> is the answer that the text is not a number.\<close>

definition make_number :: "string \<Rightarrow> int option res" where
  "make_number s =
     (if starts_with ''0x'' s then rbind (py_int 16 s) (\<lambda>n. Inr (Some n))
      else if re_line (list_all is_digit) s then rbind (py_int 10 s) (\<lambda>n. Inr (Some n))
      else Inr None)"

definition partition_duplicates :: "enumer_value list \<Rightarrow> enumer_value list \<times> enumer_value list" where
  "partition_duplicates vals = (filter (\<lambda>v. \<not> ev_duplicate v) vals, filter ev_duplicate vals)"

text \<open>
  The scan marks the values that repeat an earlier name as duplicates, also when it finds later that the
  enumeration is not dense.
\<close>

fun scan_dense :: "string list \<Rightarrow> int \<Rightarrow> enumer_value list \<Rightarrow> (enumer_value list \<times> bool) res" where
  "scan_dense previous b [] = Inr ([], True)"
| "scan_dense previous b (v # vs) =
     (case ev_value v of
        None \<Rightarrow> rbind (scan_dense (previous @ [ev_name v]) (b + 1) vs) (\<lambda>(vs, d). Inr (v # vs, d))
      | Some s \<Rightarrow>
          rbind (make_number s) (\<lambda>ov.
            if ov = Some b
            then rbind (scan_dense (previous @ [ev_name v]) (b + 1) vs) (\<lambda>(vs, d). Inr (v # vs, d))
            else if s \<in> set previous
            then rbind (scan_dense (previous @ [ev_name v]) b vs) (\<lambda>(vs, d). Inr (v\<lparr>ev_duplicate := True\<rparr> # vs, d))
            else Inr (v # vs, False)))"

definition scan_for_dense_zero_based_preset_values :: "enumer_value list \<Rightarrow> (enumer_value list \<times> bool) res" where
  "scan_for_dense_zero_based_preset_values vals = scan_dense [] 0 vals"

definition unique_step :: "enumer_value \<Rightarrow> (string, enumer_value) dict \<Rightarrow> (string, enumer_value) dict res" where
  "unique_step v uvals =
     (case map_of uvals (ev_name v) of
        Some u \<Rightarrow>
          if ev_value u \<noteq> ev_value v
          then Inl (Die (''ENUMER ERROR: duplicate key name in enumeration with different values: '' @ ev_name v))
          else Inr (dset (ev_name v) v uvals)
      | None \<Rightarrow> Inr (dset (ev_name v) v uvals))"

fun take_unique :: "enumer_value list \<Rightarrow> (string, enumer_value) dict \<Rightarrow> enumer_value list" where
  "take_unique [] uvals = []"
| "take_unique (v # vs) uvals =
     (case map_of uvals (ev_name v) of
        Some u \<Rightarrow> u # take_unique vs (AList.delete (ev_name v) uvals)
      | None \<Rightarrow> take_unique vs uvals)"

definition unique_values :: "enumer_value list \<Rightarrow> enumer_value list res" where
  "unique_values vals =
     rbind (foldM unique_step vals []) (\<lambda>uvals.
       Inr (case map_of uvals ''INVALID'' of
              Some u \<Rightarrow> u # take_unique vals (AList.delete ''INVALID'' uvals)
            | None \<Rightarrow> take_unique vals uvals))"

section \<open>Enumerations\<close>

record enumer =
  en_type_name :: string
  en_prefix :: string
  en_values :: "enumer_value list"
  en_duplicates :: "enumer_value list"
  en_density :: string
  en_add_last :: bool
  en_string_convert :: int
  en_proto_prefix :: string

definition scanned_values :: "enumer_value list \<Rightarrow> (enumer_value list \<times> bool) res" where
  "scanned_values vals =
     (if scan_for_preset_values vals then scan_for_dense_zero_based_preset_values vals else Inr (vals, True))"

definition enumer_new ::
  "string \<Rightarrow> string \<Rightarrow> enumer_value list \<Rightarrow> bool \<Rightarrow> string \<Rightarrow> string \<Rightarrow> int \<Rightarrow> enumer res" where
  "enumer_new type_name prefix vals add_last_element proto_prefix density string_convert =
     rbind (unique_values vals) (\<lambda>vals.
     let preset_values = scan_for_preset_values vals
     in rbind (scanned_values vals) (\<lambda>(vals, can_be_dense).
     let density = (if density = ''automatic'' then (if can_be_dense then ''dense'' else ''sparse'') else density)
     in if preset_values \<and> \<not> can_be_dense \<and> density = ''dense''
        then Inl (Die ''ERROR(enumer.py): dense enum had some values specified preventing dense-enum generation'')
        else
          let vals = (if add_last_element then vals @ [enumer_value_new ''LAST'' None None False None] else vals);
              (unique, duplicates) = partition_duplicates vals
          in Inr \<lparr>en_type_name = type_name, en_prefix = prefix, en_values = unique, en_duplicates = duplicates,
                  en_density = density, en_add_last = add_last_element, en_string_convert = string_convert,
                  en_proto_prefix = proto_prefix\<rparr>))"

definition invalid_or_last :: "enumer \<Rightarrow> string res" where
  "invalid_or_last e =
     (if ''INVALID'' \<in> ev_name ` set (en_values e) then Inr ''INVALID''
      else if en_values e = [] then Inl IndexError
      else Inr (ev_name (last (en_values e))))"

section \<open>The emitted text\<close>

definition emit_defines :: "enumer \<Rightarrow> string list" where
  "emit_defines e =
     map (\<lambda>v. ''#define '' @ en_prefix e @ ev_name v @ ''_DEFINED 1'') (en_values e @ en_duplicates e)"

text \<open>A line of the type: the number of the enumerator decides about the comma.\<close>

definition typedef_line :: "string \<Rightarrow> nat \<Rightarrow> nat \<Rightarrow> enumer_value \<Rightarrow> string option \<Rightarrow> string" where
  "typedef_line prefix xmax i v init =
     ''  '' @ prefix @ ev_name v @ (case init of None \<Rightarrow> '''' | Some s \<Rightarrow> ''='' @ s) @
     (if int i < int xmax - 1 then '','' else '''') @
     (case ev_doxygen v of None \<Rightarrow> '''' | Some d \<Rightarrow> '' '' @ d)"

text \<open>The initializer of an enumerator: a duplicate names the enumerator it repeats.\<close>

definition initializer_value :: "string \<Rightarrow> enumer_value \<Rightarrow> string option" where
  "initializer_value prefix v =
     (if ev_duplicate v then map_option (\<lambda>s. prefix @ s) (ev_value v) else ev_value v)"

definition emit_typedef :: "enumer \<Rightarrow> string list" where
  "emit_typedef e =
     (let xmax = length (en_values e) + length (en_duplicates e); bias = length (en_values e)
      in [''typedef enum {''] @
         map (\<lambda>(i, v). typedef_line (en_prefix e) xmax i v (ev_value v)) (List.enumerate 0 (en_values e)) @
         map (\<lambda>(i, v). typedef_line (en_prefix e) xmax (i + bias) v (initializer_value (en_prefix e) v))
           (List.enumerate 0 (en_duplicates e)) @
         [''} '' @ en_type_name e @ '';'', ''''])"

definition emit_name_table_entry :: "string \<Rightarrow> enumer_value \<Rightarrow> string" where
  "emit_name_table_entry prefix v =
     ''{'' @ [CHR 0x22] @ ev_display v @ [CHR 0x22] @ '', '' @ prefix @ ev_name v @ ''},''"

definition emit_table_end :: "enumer \<Rightarrow> string list res" where
  "emit_table_end e =
     (if en_values e = [] then Inl IndexError
      else Inr [''{0, '' @ en_prefix e @ ev_name (last (en_values e)) @ ''},'', ''};''])"

definition emit_name_table :: "enumer \<Rightarrow> string list res" where
  "emit_name_table e =
     rbind (emit_table_end e) (\<lambda>t.
       Inr ([''static const name_table_'' @ en_type_name e @ '' name_array_'' @ en_type_name e @ ''[] = {''] @
         map (emit_name_table_entry (en_prefix e)) (en_values e) @ t))"

definition emit_duplicate_name_table :: "enumer \<Rightarrow> string list res" where
  "emit_duplicate_name_table e =
     (if en_duplicates e = [] then Inr []
      else rbind (emit_table_end e) (\<lambda>t.
        Inr ([''static const name_table_'' @ en_type_name e @ '' dup_name_array_'' @ en_type_name e @ ''[] = {''] @
          map (emit_name_table_entry (en_prefix e)) (en_duplicates e) @ t)))"

definition emit_enum_comment :: "enumer \<Rightarrow> string list" where
  "emit_enum_comment e =
     [''/*'', '''', ''Here is a skeleton switch statement embedded in a comment'', '''', '''', ''  switch(p) {''] @
     map (\<lambda>v. ''  case '' @ en_prefix e @ ev_name v @ '':'') (en_values e) @
     [''  default:'', ''     xed_assert(0);'', ''  }'', ''*/'']"

section \<open>Enumerators in C\<close>

text \<open>
  An integer constant in C: hexadecimal, octal or decimal.  Any other initializer must be the name of an
  earlier enumerator of the type.
\<close>

definition c_number :: "string \<Rightarrow> int option" where
  "c_number s =
     map_option int
       (if starts_with ''0x'' s \<or> starts_with ''0X'' s then digits_val 16 (drop 2 s) 0
        else if s = [] \<or> \<not> list_all is_digit s then None
        else if hd s = CHR ''0'' then digits_val 8 s 0 else digits_val 10 s 0)"

definition c_const :: "(string, int) dict \<Rightarrow> string \<Rightarrow> int option" where
  "c_const env s = (case c_number s of Some n \<Rightarrow> Some n | None \<Rightarrow> map_of env s)"

fun c_enumerators :: "(string, int) dict \<Rightarrow> int \<Rightarrow> (string \<times> string option) list \<Rightarrow> (string, int) dict option" where
  "c_enumerators env next [] = Some env"
| "c_enumerators env next ((n, init) # items) =
     (if din n env then None
      else case init of
        None \<Rightarrow> c_enumerators (env @ [(n, next)]) (next + 1) items
      | Some s \<Rightarrow>
          (case c_const env s of
             None \<Rightarrow> None
           | Some v \<Rightarrow> c_enumerators (env @ [(n, v)]) (v + 1) items))"

definition typedef_items :: "enumer \<Rightarrow> (string \<times> string option) list" where
  "typedef_items e =
     map (\<lambda>v. (en_prefix e @ ev_name v, ev_value v)) (en_values e) @
     map (\<lambda>v. (en_prefix e @ ev_name v, initializer_value (en_prefix e) v)) (en_duplicates e)"

definition enumerators :: "enumer \<Rightarrow> (string, int) dict option" where
  "enumerators e = c_enumerators [] 0 (typedef_items e)"

section \<open>The conversion functions\<close>

text \<open>
  The functions are emitted with the tables, as stubs, or not at all.  An entry of a table is a string
  and the name of an enumerator; the last one has a null pointer and ends the searches.
\<close>

type_synonym name_table = "(string \<times> string) list"

datatype str2enum_fn =
    SearchTables name_table "name_table option" string
  | Str2EnumStub string

datatype enum2str_fn =
    SearchByValue name_table
  | IndexTable name_table string
  | Enum2StrStub

definition c_name_table :: "string \<Rightarrow> enumer_value list \<Rightarrow> name_table" where
  "c_name_table prefix vals = map (\<lambda>v. (ev_display v, prefix @ ev_name v)) vals"

definition emit_str2enum_convert :: "enumer \<Rightarrow> str2enum_fn res" where
  "emit_str2enum_convert e =
     rbind (invalid_or_last e) (\<lambda>invalid.
       Inr (SearchTables (c_name_table (en_prefix e) (en_values e))
         (if en_duplicates e = [] then None else Some (c_name_table (en_prefix e) (en_duplicates e)))
         (en_prefix e @ invalid)))"

definition emit_enum2str_convert :: "enumer \<Rightarrow> enum2str_fn res" where
  "emit_enum2str_convert e =
     rbind (invalid_or_last e) (\<lambda>invalid.
       Inr (if en_density e = ''sparse''
            then SearchByValue (c_name_table (en_prefix e) (en_values e))
            else IndexTable (c_name_table (en_prefix e) (en_values e)) (en_prefix e @ ''LAST'')))"

definition emit_str2enum_convert_stub :: "enumer \<Rightarrow> str2enum_fn res" where
  "emit_str2enum_convert_stub e = rbind (invalid_or_last e) (\<lambda>invalid. Inr (Str2EnumStub (en_prefix e @ invalid)))"

definition emit_enum2str_convert_stub :: "enumer \<Rightarrow> enum2str_fn res" where
  "emit_enum2str_convert_stub e = rbind (invalid_or_last e) (\<lambda>invalid. Inr Enum2StrStub)"

text \<open>What the source file gets: the functions and the text of their tables.\<close>

definition emit_source_file :: "enumer \<Rightarrow> ((str2enum_fn \<times> enum2str_fn) option \<times> string list) res" where
  "emit_source_file e =
     (if en_string_convert e = 1
      then rbind (emit_name_table e) (\<lambda>t1. rbind (emit_duplicate_name_table e) (\<lambda>t2.
           rbind (emit_str2enum_convert e) (\<lambda>f. rbind (emit_enum2str_convert e) (\<lambda>g.
             Inr (Some (f, g), t1 @ t2 @ emit_enum_comment e)))))
      else if en_string_convert e = 0
      then rbind (emit_str2enum_convert_stub e) (\<lambda>f. rbind (emit_enum2str_convert_stub e) (\<lambda>g.
             Inr (Some (f, g), emit_enum_comment e)))
      else Inr (None, emit_enum_comment e))"

text \<open>The functions at work; a missing enumerator is a program that does not compile.\<close>

fun run_str2enum :: "(string, int) dict \<Rightarrow> str2enum_fn \<Rightarrow> string \<Rightarrow> int option" where
  "run_str2enum env (SearchTables names dups invalid) s =
     (case find (\<lambda>(d, n). d = s) names of
        Some (d, n) \<Rightarrow> map_of env n
      | None \<Rightarrow>
          (case find (\<lambda>(d, n). d = s) (case dups of None \<Rightarrow> [] | Some t \<Rightarrow> t) of
             Some (d, n) \<Rightarrow> map_of env n
           | None \<Rightarrow> map_of env invalid))"
| "run_str2enum env (Str2EnumStub invalid) s = map_of env invalid"

text \<open>
  The dense function reads the table at the value, or at the value of the last enumerator when that is
  exceeded; reading past the strings gives no string.
\<close>

fun run_enum2str :: "(string, int) dict \<Rightarrow> enum2str_fn \<Rightarrow> int \<Rightarrow> string option" where
  "run_enum2str env (SearchByValue names) p =
     (case find (\<lambda>(d, n). map_of env n = Some p) names of Some (d, n) \<Rightarrow> Some d | None \<Rightarrow> Some ''???'')"
| "run_enum2str env (IndexTable names lst) p =
     (case map_of env lst of
        None \<Rightarrow> None
      | Some l \<Rightarrow>
          let type_idx = (if p > l then l else p)
          in if 0 \<le> type_idx \<and> type_idx < int (length names) then Some (fst (names ! nat type_idx)) else None)"
| "run_enum2str env Enum2StrStub p = Some ''INVALID''"

section \<open>Dense enumerations\<close>

lemma c_enumerators_extend:
  "c_enumerators env n items = Some env' \<Longrightarrow> \<exists>more. env' = env @ more \<and> map fst more = map fst items"
proof (induction env n items rule: c_enumerators.induct)
  case (2 env k n init items)
  then show ?case
    by (cases "init"; cases "din n env"; fastforce split: option.splits)
qed simp

lemma c_enumerators_mono: "c_enumerators env n items = Some env' \<Longrightarrow> map_of env k = Some v \<Longrightarrow> map_of env' k = Some v"
  using c_enumerators_extend by (fastforce simp: map_add_Some_iff)

lemma c_enumerators_distinct:
  "c_enumerators env n items = Some env' \<Longrightarrow> distinct (map fst env) \<Longrightarrow> distinct (map fst env')"
proof (induction env n items rule: c_enumerators.induct)
  case (2 env k n init items)
  then show ?case by (cases "din n env"; cases init) (auto simp: din_iff split: option.splits)
qed simp

text \<open>Values that are where a dense enumeration needs them, from a given number on.\<close>

fun dense_from :: "int \<Rightarrow> enumer_value list \<Rightarrow> bool" where
  "dense_from b [] = True"
| "dense_from b (v # vs) =
     ((case ev_value v of None \<Rightarrow> True | Some s \<Rightarrow> make_number s = Inr (Some b)) \<and> dense_from (b + 1) vs)"

lemma dense_from_append: "dense_from b (us @ vs) \<longleftrightarrow> dense_from b us \<and> dense_from (b + int (length us)) vs"
  by (induction us arbitrary: b) (auto simp: algebra_simps)

lemma scan_dense_values:
  assumes "scan_dense previous b vs = Inr (ws, True)" "\<forall>v \<in> set vs. \<not> ev_duplicate v"
  shows "dense_from b (filter (\<lambda>v. \<not> ev_duplicate v) ws)"
  using assms
proof (induction previous b vs arbitrary: ws rule: scan_dense.induct)
  case (2 previous b v vs)
  show ?case
  proof (cases "ev_value v")
    case None
    with 2(4) obtain us where "scan_dense (previous @ [ev_name v]) (b + 1) vs = Inr (us, True)" "ws = v # us"
      by (auto simp: rbind_eq_Inr)
    then show ?thesis using 2(1) [OF None] 2(5) None by simp
  next
    case (Some s)
    with 2(4) obtain ov where ov: "make_number s = Inr ov" by (auto simp: rbind_eq_Inr)
    show ?thesis
    proof (cases "ov = Some b")
      case True
      with 2(4) Some ov obtain us where "scan_dense (previous @ [ev_name v]) (b + 1) vs = Inr (us, True)" "ws = v # us"
        by (auto simp: rbind_eq_Inr)
      then show ?thesis using 2(2) [OF Some ov True] 2(5) Some ov True by simp
    next
      case False
      with 2(4) Some ov obtain us where s: "s \<in> set previous"
        "scan_dense (previous @ [ev_name v]) b vs = Inr (us, True)" "ws = v\<lparr>ev_duplicate := True\<rparr> # us"
        by (auto simp: rbind_eq_Inr split: if_splits)
      then show ?thesis using 2(3) [OF Some ov False s(1)] 2(5) by simp
    qed
  qed
qed simp

text \<open>A number means the same to Python and to C unless it is decimal with leading zeros.\<close>

definition c_agrees :: "enumer_value \<Rightarrow> bool" where
  "c_agrees v \<longleftrightarrow> (\<forall>s n. ev_value v = Some s \<longrightarrow> make_number s = Inr (Some n) \<longrightarrow> c_number s = Some n)"

lemma c_enumerators_dense:
  assumes "c_enumerators env b (map (\<lambda>v. (p @ ev_name v, ev_value v)) us @ items) = Some env'"
    and "dense_from b us" "\<forall>v \<in> set us. c_agrees v" "i < length us"
  shows "map_of env' (p @ ev_name (us ! i)) = Some (b + int i)"
  using assms
proof (induction us arbitrary: env b i)
  case (Cons v us)
  let ?n = "p @ ev_name v"
  have new: "\<not> din ?n env" using Cons.prems(1) by (auto split: if_splits)
  have "(case ev_value v of None \<Rightarrow> Some b | Some s \<Rightarrow> c_const env s) = Some b"
    using Cons.prems(2,3) by (auto simp: c_agrees_def c_const_def split: option.splits)
  then have run: "c_enumerators (env @ [(?n, b)]) (b + 1) (map (\<lambda>v. (p @ ev_name v, ev_value v)) us @ items) = Some env'"
    using Cons.prems(1) new by (auto split: option.splits)
  show ?case
  proof (cases i)
    case 0
    have "map_of (env @ [(?n, b)]) ?n = Some b" using new by (simp add: din_def map_add_def)
    then show ?thesis using c_enumerators_mono [OF run] 0 by simp
  next
    case (Suc j)
    then show ?thesis using Cons.IH [OF run, of j] Cons.prems by simp
  qed
qed simp

lemma take_unique_subset: "set (take_unique vs uvals) \<subseteq> snd ` set uvals"
proof (induction vs uvals rule: take_unique.induct)
  case (2 v vs uvals)
  show ?case
  proof (cases "map_of uvals (ev_name v)")
    case (Some u)
    have "set (AList.delete (ev_name v) uvals) \<subseteq> set uvals" by (auto simp: AList.delete_eq)
    then show ?thesis using 2(2) [OF Some] map_of_SomeD [OF Some] Some by force
  qed (use 2 in simp)
qed simp

lemma unique_values_subset:
  assumes "unique_values vals = Inr us"
  shows "set us \<subseteq> set vals"
proof -
  from assms obtain uvals where run: "foldM unique_step vals [] = Inr uvals"
    and us: "us = (case map_of uvals ''INVALID'' of
              Some u \<Rightarrow> u # take_unique vals (AList.delete ''INVALID'' uvals)
            | None \<Rightarrow> take_unique vals uvals)"
    by (auto simp: unique_values_def rbind_eq_Inr)
  have "snd ` set uvals \<subseteq> set vals"
  proof (rule foldM_invariant [OF run, where I = "\<lambda>d. snd ` set d \<subseteq> set vals"])
    fix v d d' assume h: "v \<in> set vals" "snd ` set d \<subseteq> set vals" "unique_step v d = Inr d'"
    then have "d' = dset (ev_name v) v d" by (auto simp: unique_step_def split: option.splits if_splits)
    then show "snd ` set d' \<subseteq> set vals" using set_dset_subset [of "ev_name v" v d] h(1,2) by (metis (no_types, lifting) image_subset_iff insertE snd_conv subset_eq)
  qed simp
  moreover have "set (AList.delete k uvals) \<subseteq> set uvals" for k by (auto simp: AList.delete_eq)
  ultimately show ?thesis
    using take_unique_subset [of vals uvals] take_unique_subset [of vals "AList.delete ''INVALID'' uvals"]
    by (auto simp: us split: option.splits dest!: map_of_SomeD) (force)+
qed

definition last_value :: enumer_value where
  "last_value = enumer_value_new ''LAST'' None None False None"

lemma enumer_newD:
  assumes "enumer_new type_name prefix vals add_last pp dens sc = Inr e"
  obtains us ws d where "unique_values vals = Inr us" "scanned_values us = Inr (ws, d)"
    "en_values e = filter (\<lambda>v. \<not> ev_duplicate v) (ws @ (if add_last then [last_value] else []))"
    "en_duplicates e = filter ev_duplicate ws"
    "en_density e = ''dense'' \<longrightarrow> scan_for_preset_values us \<longrightarrow> d"
    "en_prefix e = prefix" "en_add_last e = add_last" "en_string_convert e = sc" "en_type_name e = type_name"
proof -
  from assms obtain us where us: "unique_values vals = Inr us"
    unfolding enumer_new_def by (rule rbind_eq_InrE)
  with assms obtain p where "scanned_values us = Inr p"
    by (auto simp: enumer_new_def rbind_eq_Inr Let_def)
  then obtain ws d where s: "scanned_values us = Inr (ws, d)" by (cases p) auto
  have "\<not> ev_duplicate last_value" by (simp add: last_value_def enumer_value_new_def)
  then show ?thesis
    using assms by (intro that [OF us s])
      (auto simp: enumer_new_def us s partition_duplicates_def last_value_def [symmetric] Let_def split: if_splits)
qed

lemma scan_dense_names:
  "scan_dense previous b vs = Inr (ws, d) \<Longrightarrow>
     list_all2 (\<lambda>v w. w = v \<or> w = v\<lparr>ev_duplicate := True\<rparr>) vs ws"
proof (induction previous b vs arbitrary: ws d rule: scan_dense.induct)
  case (2 previous b v vs)
  have refl: "list_all2 (\<lambda>v w. w = v \<or> w = v\<lparr>ev_duplicate := True\<rparr>) vs vs" by (simp add: list_all2_same)
  show ?case
  proof (cases "ev_value v")
    case None
    with 2(1) [OF None] 2(4) show ?thesis by (auto simp: rbind_eq_Inr)
  next
    case (Some s)
    with 2(4) obtain ov where ov: "make_number s = Inr ov" by (auto simp: rbind_eq_Inr)
    with 2(2,3) [OF Some ov] 2(4) Some refl show ?thesis by (auto simp: rbind_eq_Inr split: if_splits)
  qed
qed simp

lemma scanned_names:
  assumes "scanned_values us = Inr (ws, d)"
  shows "list_all2 (\<lambda>v w. w = v \<or> w = v\<lparr>ev_duplicate := True\<rparr>) us ws"
  using assms scan_dense_names
  by (auto simp: scanned_values_def scan_for_dense_zero_based_preset_values_def list_all2_same split: if_splits)

lemma dense_values:
  assumes new: "enumer_new type_name prefix vals add_last pp dens sc = Inr e" "en_density e = ''dense''"
    and plain: "\<forall>v \<in> set vals. \<not> ev_duplicate v \<and> c_agrees v"
  shows "dense_from 0 (en_values e) \<and> (\<forall>v \<in> set (en_values e). c_agrees v)"
proof -
  from new(1) obtain us ws d where E: "unique_values vals = Inr us" "scanned_values us = Inr (ws, d)"
    "en_values e = filter (\<lambda>v. \<not> ev_duplicate v) (ws @ (if add_last then [last_value] else []))"
    "en_density e = ''dense'' \<longrightarrow> scan_for_preset_values us \<longrightarrow> d"
    by (rule enumer_newD) blast
  have us: "\<forall>v \<in> set us. \<not> ev_duplicate v \<and> c_agrees v" using unique_values_subset [OF E(1)] plain by auto
  have last: "ev_value last_value = None" "\<not> ev_duplicate last_value"
    by (simp_all add: last_value_def enumer_value_new_def)
  have "dense_from 0 (filter (\<lambda>v. \<not> ev_duplicate v) ws)"
  proof (cases "scan_for_preset_values us")
    case True
    then have "scan_dense [] 0 us = Inr (ws, True)"
      using E(2,4) new(2) by (simp add: scanned_values_def scan_for_dense_zero_based_preset_values_def)
    then show ?thesis by (rule scan_dense_values) (use us in simp)
  next
    case False
    then have "ws = us" and none: "\<forall>v \<in> set us. ev_value v = None"
      using E(2) by (auto simp: scanned_values_def scan_for_preset_values_def list_ex_iff)
    have "dense_from b vs" if "\<forall>v \<in> set vs. ev_value v = None" for b vs
      using that by (induction vs arbitrary: b) auto
    then show ?thesis using none \<open>ws = us\<close> by simp
  qed
  moreover have "c_agrees w" if w: "w \<in> set ws" for w
  proof -
    obtain v where "v \<in> set us" "w = v \<or> w = v\<lparr>ev_duplicate := True\<rparr>"
      using scanned_names [OF E(2)] w by (induction rule: list_all2_induct) auto
    then show ?thesis using us by (auto simp: c_agrees_def)
  qed
  moreover have "c_agrees last_value" by (simp add: c_agrees_def last)
  ultimately show ?thesis by (auto simp: E(3) dense_from_append last)
qed

lemma dense_enumeration_lemma:
  assumes new: "enumer_new type_name prefix vals True pp dens sc = Inr e" "en_density e = ''dense''"
    and plain: "\<forall>v \<in> set vals. \<not> ev_duplicate v \<and> c_agrees v"
    and compiled: "enumerators e = Some env" and f: "emit_enum2str_convert e = Inr f"
  shows "(\<forall>i < length (en_values e). map_of env (prefix @ ev_name (en_values e ! i)) = Some (int i) \<and>
      run_enum2str env f (int i) = Some (ev_display (en_values e ! i))) \<and>
    (\<forall>p \<ge> int (length (en_values e)). run_enum2str env f p = Some ''LAST'')"
proof -
  from new(1) obtain ws where E: "en_values e = filter (\<lambda>v. \<not> ev_duplicate v) (ws @ [last_value])" "en_prefix e = prefix"
    by (rule enumer_newD) (rule that; simp)
  have l: "\<not> ev_duplicate last_value" "ev_name last_value = ''LAST''" "ev_display last_value = ''LAST''"
    by (simp_all add: last_value_def enumer_value_new_def)
  define k where "k = length (filter (\<lambda>v. \<not> ev_duplicate v) ws)"
  have len: "length (en_values e) = Suc k" and end_v: "en_values e ! k = last_value"
    using l(1) by (simp_all add: E(1) k_def)
  from compiled have "c_enumerators [] 0 (map (\<lambda>v. (prefix @ ev_name v, ev_value v)) (en_values e) @
      map (\<lambda>v. (prefix @ ev_name v, initializer_value prefix v)) (en_duplicates e)) = Some env"
    by (simp add: enumerators_def typedef_items_def E(2))
  from c_enumerators_dense [OF this] dense_values [OF new plain]
  have val: "map_of env (prefix @ ev_name (en_values e ! i)) = Some (int i)" if "i < length (en_values e)" for i
    using that by auto
  have lst: "map_of env (prefix @ ''LAST'') = Some (int k)" using val [of k] by (simp add: len end_v l)
  have f': "f = IndexTable (c_name_table prefix (en_values e)) (prefix @ ''LAST'')"
    using f new(2) by (auto simp: emit_enum2str_convert_def rbind_eq_Inr E(2))
  have "run_enum2str env f (int i) = Some (ev_display (en_values e ! i))" if "i < length (en_values e)" for i
    using that by (simp add: f' lst c_name_table_def len Let_def)
  moreover have "run_enum2str env f p = Some ''LAST''" if "p \<ge> int (length (en_values e))" for p
    using that by (simp add: f' lst c_name_table_def len Let_def end_v l)
  ultimately show ?thesis using val by blast
qed

text \<open>
  C22: a dense enumeration is its name table.  When the values of an enumeration were found to be dense
  (unset, or set to the number of their place, or repeating an earlier name), the C compiler gives every
  enumerator the number of its place, the emitted conversion, which indexes the name table with the
  enumerator, returns the string of that enumerator, and every larger number is converted to the string
  of the last one.
\<close>

theorem dense_enumeration_names:
  assumes new: "enumer_new type_name prefix vals True pp dens sc = Inr e" "en_density e = ''dense''"
    and plain: "\<forall>v \<in> set vals. \<not> ev_duplicate v \<and> c_agrees v"
    and compiled: "enumerators e = Some env" and f: "emit_enum2str_convert e = Inr f"
  shows "(\<forall>i < length (en_values e). map_of env (prefix @ ev_name (en_values e ! i)) = Some (int i) \<and>
      run_enum2str env f (int i) = Some (ev_display (en_values e ! i))) \<and>
    (\<forall>p \<ge> int (length (en_values e)). run_enum2str env f p = Some ''LAST'')"
  using dense_enumeration_lemma [OF new plain compiled f] .

section \<open>Strings and back\<close>

lemma find_display:
  assumes "distinct (map ev_display vs)" "w \<in> set vs"
  shows "find (\<lambda>(d, n). d = ev_display w) (c_name_table p vs) = Some (ev_display w, p @ ev_name w)"
  using assms by (induction vs) (auto simp: c_name_table_def rev_image_eqI)

text \<open>
  C21: enumerators survive the conversion to strings.  In an enumeration whose strings are distinct, dense
  or sparse, the string of every enumerator is converted back to the same enumerator; a string of a
  duplicate is converted to the enumerator it repeats.
\<close>

theorem enumeration_string_round_trip:
  assumes new: "enumer_new type_name prefix vals True pp dens sc = Inr e" "en_density e \<in> {''dense'', ''sparse''}"
    and plain: "\<forall>v \<in> set vals. \<not> ev_duplicate v \<and> c_agrees v"
    and compiled: "enumerators e = Some env"
    and fns: "emit_enum2str_convert e = Inr f" "emit_str2enum_convert e = Inr g"
    and strings: "distinct (map ev_display (en_values e @ en_duplicates e))"
  shows "(\<forall>v \<in> set (en_values e). \<exists>x d. map_of env (prefix @ ev_name v) = Some x \<and>
      run_enum2str env f x = Some d \<and> run_str2enum env g d = Some x) \<and>
    (\<forall>u \<in> set (en_duplicates e). run_str2enum env g (ev_display u) = map_of env (prefix @ ev_name u))"
proof -
  from new(1) have p: "en_prefix e = prefix" by (rule enumer_newD) blast
  obtain invalid where g: "g = SearchTables (c_name_table prefix (en_values e))
      (if en_duplicates e = [] then None else Some (c_name_table prefix (en_duplicates e))) invalid"
    using fns(2) by (auto simp: emit_str2enum_convert_def rbind_eq_Inr p)
  have again: "run_str2enum env g (ev_display w) = map_of env (prefix @ ev_name w)" if "w \<in> set (en_values e)" for w
    using find_display [of "en_values e" w prefix] strings that by (simp add: g)
  have A: "\<forall>v \<in> set (en_values e). \<exists>x d. map_of env (prefix @ ev_name v) = Some x \<and>
      run_enum2str env f x = Some d \<and> run_str2enum env g d = Some x"
  proof
    fix v assume v: "v \<in> set (en_values e)"
    then obtain i where i: "i < length (en_values e)" "v = en_values e ! i" by (auto simp: in_set_conv_nth)
    have "prefix @ ev_name v \<in> set (map fst env)"
      using c_enumerators_extend [OF compiled [unfolded enumerators_def]] v by (force simp: typedef_items_def p)
    then obtain x where x: "map_of env (prefix @ ev_name v) = Some x"
      by (metis (no_types, lifting) list.set_map map_of_eq_None_iff not_None_eq)
    have "\<exists>w \<in> set (en_values e). run_enum2str env f x = Some (ev_display w) \<and> map_of env (prefix @ ev_name w) = Some x"
    proof (cases "en_density e = ''dense''")
      case True
      then have "map_of env (prefix @ ev_name v) = Some (int i)" "run_enum2str env f (int i) = Some (ev_display v)"
        using dense_enumeration_lemma [OF new(1) True plain compiled fns(1)] i by auto
      then show ?thesis using v x by auto
    next
      case False
      then have f: "f = SearchByValue (c_name_table prefix (en_values e))"
        using new(2) fns(1) by (auto simp: emit_enum2str_convert_def rbind_eq_Inr p)
      have "find (\<lambda>(d, n). map_of env n = Some x) (c_name_table prefix (en_values e)) \<noteq> None"
        using v x by (auto simp: find_None_iff c_name_table_def)
      then obtain d n where dn: "find (\<lambda>(d, n). map_of env n = Some x) (c_name_table prefix (en_values e)) = Some (d, n)" by auto
      then have "(d, n) \<in> set (c_name_table prefix (en_values e))" "map_of env n = Some x"
        by (auto simp: find_Some_iff) (metis nth_mem)
      then show ?thesis using dn by (auto simp: f c_name_table_def)
    qed
    then show "\<exists>x d. map_of env (prefix @ ev_name v) = Some x \<and> run_enum2str env f x = Some d \<and> run_str2enum env g d = Some x"
      using x again by metis
  qed
  have B: "\<forall>u \<in> set (en_duplicates e). run_str2enum env g (ev_display u) = map_of env (prefix @ ev_name u)"
  proof
    fix u assume u: "u \<in> set (en_duplicates e)"
    then have "\<forall>w \<in> set (en_values e). ev_display w \<noteq> ev_display u" using strings by (auto simp: rev_image_eqI)
    then have "find (\<lambda>(d, n). d = ev_display u) (c_name_table prefix (en_values e)) = None"
      by (auto simp: find_None_iff c_name_table_def)
    moreover have "find (\<lambda>(d, n). d = ev_display u) (c_name_table prefix (en_duplicates e)) = Some (ev_display u, prefix @ ev_name u)"
      using find_display [of "en_duplicates e" u prefix] strings u by simp
    ultimately show "run_str2enum env g (ev_display u) = map_of env (prefix @ ev_name u)" using u by (auto simp: g)
  qed
  show ?thesis using A B by blast
qed

section \<open>Enumerations without numbers\<close>

text \<open>
  Values that are unset or repeat the name of an earlier value, as the register enumeration has them, are
  dense, and exactly the repeating ones are duplicates.
\<close>

fun repeats_only :: "string list \<Rightarrow> enumer_value list \<Rightarrow> bool" where
  "repeats_only previous [] = True"
| "repeats_only previous (v # vs) =
     ((case ev_value v of None \<Rightarrow> True | Some s \<Rightarrow> make_number s = Inr None \<and> s \<in> set previous) \<and>
      repeats_only (previous @ [ev_name v]) vs)"

definition mark_repeat :: "enumer_value \<Rightarrow> enumer_value" where
  "mark_repeat v = (if ev_value v = None then v else v\<lparr>ev_duplicate := True\<rparr>)"

lemma repeats_only_mono: "repeats_only p vs \<Longrightarrow> set p \<subseteq> set q \<Longrightarrow> repeats_only q vs"
proof (induction vs arbitrary: p q)
  case (Cons v vs)
  have "repeats_only (q @ [ev_name v]) vs" by (rule Cons.IH) (use Cons.prems in auto)
  then show ?case using Cons.prems by (auto split: option.splits)
qed simp

lemma repeats_only_append:
  "repeats_only p (us @ vs) \<longleftrightarrow> repeats_only p us \<and> repeats_only (p @ map ev_name us) vs"
  by (induction us arbitrary: p) auto

lemma scan_repeats: "repeats_only previous vs \<Longrightarrow> scan_dense previous b vs = Inr (map mark_repeat vs, True)"
  by (induction vs arbitrary: previous b) (auto simp: mark_repeat_def split: option.splits)

lemma take_unique_filter:
  assumes "distinct (map ev_name vs)" "\<forall>v \<in> set vs. map_of d (ev_name v) = None \<or> map_of d (ev_name v) = Some v"
  shows "take_unique vs d = filter (\<lambda>v. map_of d (ev_name v) \<noteq> None) vs"
  using assms
proof (induction vs arbitrary: d)
  case (Cons v vs)
  show ?case
  proof (cases "map_of d (ev_name v)")
    case None
    then show ?thesis using Cons by simp
  next
    case (Some u)
    have other: "map_of (AList.delete (ev_name v) d) (ev_name w) = map_of d (ev_name w)" if "w \<in> set vs" for w
    proof -
      have "ev_name w \<noteq> ev_name v" using Cons.prems(1) that by (auto simp: rev_image_eqI)
      then show ?thesis by (simp add: delete_conv')
    qed
    have "take_unique vs (AList.delete (ev_name v) d) = filter (\<lambda>w. map_of (AList.delete (ev_name v) d) (ev_name w) \<noteq> None) vs"
      using Cons.prems other by (intro Cons.IH) auto
    also have "\<dots> = filter (\<lambda>w. map_of d (ev_name w) \<noteq> None) vs"
      using other by (intro filter_cong) auto
    finally show ?thesis using Some Cons.prems by auto
  qed
qed simp

lemma unique_step_new: "ev_name v \<notin> set (dkeys d) \<Longrightarrow> unique_step v d = Inr (d @ [(ev_name v, v)])"
proof -
  assume h: "ev_name v \<notin> set (dkeys d)"
  then have "map_of d (ev_name v) = None" by (simp add: map_of_eq_None_iff)
  then show ?thesis using h by (simp add: unique_step_def dset_new)
qed

lemma unique_dict:
  "distinct (map ev_name vs) \<Longrightarrow> set (map ev_name vs) \<inter> set (dkeys d) = {} \<Longrightarrow>
     foldM unique_step vs d = Inr (d @ map (\<lambda>v. (ev_name v, v)) vs)"
  by (induction vs arbitrary: d) (auto simp: unique_step_new)

lemma unique_values_distinct:
  assumes "distinct (map ev_name vs)" "v \<in> set vs" "ev_name v = ''INVALID''"
  shows "unique_values vs = Inr (v # filter (\<lambda>w. w \<noteq> v) vs)"
proof -
  let ?d = "map (\<lambda>v. (ev_name v, v)) vs"
  have run: "foldM unique_step vs [] = Inr ?d" using unique_dict [OF assms(1), of "[]"] by simp
  have inj: "w = v" if "w \<in> set vs" "ev_name w = ev_name v" for w
    using assms(1,2) that by (simp add: distinct_map inj_on_def)
  have m: "map_of ?d (ev_name w) = Some w" if "w \<in> set vs" for w
    using assms(1) that by (intro map_of_is_SomeI) (auto simp: comp_def)
  have d: "map_of (AList.delete ''INVALID'' ?d) (ev_name w) = (if w = v then None else Some w)" if "w \<in> set vs" for w
  proof (cases "w = v")
    case False
    then have "ev_name w \<noteq> ''INVALID''" using inj [OF that] assms(3) by auto
    then show ?thesis using m [OF that] False by (simp add: delete_conv')
  next
    case True
    then show ?thesis using assms(3) by (simp add: delete_conv')
  qed
  have "take_unique vs (AList.delete ''INVALID'' ?d) =
      filter (\<lambda>w. map_of (AList.delete ''INVALID'' ?d) (ev_name w) \<noteq> None) vs"
    by (rule take_unique_filter [OF assms(1)]) (use d in auto)
  also have "\<dots> = filter (\<lambda>w. w \<noteq> v) vs" using d by (intro filter_cong) auto
  finally show ?thesis using m [OF assms(2)] assms(3) run unfolding unique_values_def by simp
qed

lemma repeats_only_filter:
  assumes "repeats_only p vs" "insert (ev_name v) (set p) \<subseteq> set q"
  shows "repeats_only q (filter (\<lambda>w. w \<noteq> v) vs)"
  using assms
proof (induction vs arbitrary: p q)
  case (Cons w vs)
  have IH: "repeats_only q' (filter (\<lambda>w. w \<noteq> v) vs)" if "insert (ev_name v) (set (p @ [ev_name w])) \<subseteq> set q'" for q'
    by (rule Cons.IH [OF _ that]) (use Cons.prems(1) in simp)
  show ?case
  proof (cases "w = v")
    case True
    then show ?thesis using IH [of q] Cons.prems by simp
  next
    case False
    have "repeats_only (q @ [ev_name w]) (filter (\<lambda>w. w \<noteq> v) vs)" by (rule IH) (use Cons.prems(2) in auto)
    then show ?thesis using Cons.prems False by (auto split: option.splits)
  qed
qed simp

text \<open>The enumeration these values make.\<close>

lemma enumer_repeats:
  assumes vals: "distinct (map ev_name vs)" "v \<in> set vs" "ev_name v = ''INVALID''" "ev_value v = None" "repeats_only [] vs"
    and plain: "\<forall>u \<in> set vs. \<not> ev_duplicate u"
    and new: "enumer_new type_name prefix vs True pp ''automatic'' sc = Inr e"
  shows "en_values e = v # filter (\<lambda>u. u \<noteq> v) (filter (\<lambda>u. ev_value u = None) vs) @ [last_value]"
    and "en_duplicates e = map mark_repeat (filter (\<lambda>u. ev_value u \<noteq> None) vs)"
    and "en_density e = ''dense''" and "en_prefix e = prefix"
proof -
  let ?us = "v # filter (\<lambda>w. w \<noteq> v) vs"
  have l: "\<not> ev_duplicate last_value" by (simp add: last_value_def enumer_value_new_def)
  have rep: "repeats_only [] ?us" using repeats_only_filter [OF vals(5), of v "[ev_name v]"] vals(4) by simp
  have plain': "\<forall>u \<in> set ?us. \<not> ev_duplicate u" using plain vals(2) by auto
  have id: "map mark_repeat us = us" if "\<forall>u \<in> set us. ev_value u = None" for us
    using that by (simp add: mark_repeat_def map_idI)
  have s: "scanned_values ?us = Inr (map mark_repeat ?us, True)"
  proof (cases "scan_for_preset_values ?us")
    case True
    then show ?thesis
      by (simp add: scanned_values_def scan_for_dense_zero_based_preset_values_def scan_repeats [OF rep] del: list.map repeats_only.simps scan_dense.simps)
  next
    case False
    then have "\<forall>u \<in> set ?us. ev_value u = None" by (auto simp: scan_for_preset_values_def list_ex_iff)
    then have "map mark_repeat ?us = ?us" by (rule id)
    then show ?thesis using False by (simp add: scanned_values_def del: list.map)
  qed
  from new obtain d where E: "en_values e = filter (\<lambda>u. \<not> ev_duplicate u) (map mark_repeat ?us @ [last_value])"
    "en_duplicates e = filter ev_duplicate (map mark_repeat ?us)"
    "en_density e = ''dense''" "en_prefix e = prefix"
    using unique_values_distinct [OF vals(1-3)] s l
    by (auto simp: enumer_new_def Let_def partition_duplicates_def last_value_def [symmetric] simp del: list.map filter.simps split: if_splits)
  have F: "filter (\<lambda>u. \<not> ev_duplicate u) (map mark_repeat us) = filter (\<lambda>u. ev_value u = None) us"
    "filter ev_duplicate (map mark_repeat us) = map mark_repeat (filter (\<lambda>u. ev_value u \<noteq> None) us)"
    if "\<forall>u \<in> set us. \<not> ev_duplicate u" for us
    using that by (induction us) (auto simp: mark_repeat_def)
  show "en_values e = v # filter (\<lambda>u. u \<noteq> v) (filter (\<lambda>u. ev_value u = None) vs) @ [last_value]"
    using E(1) F(1) [OF plain'] l vals(4) by (simp add: conj_commute del: list.map)
  have "filter (\<lambda>u. ev_value u \<noteq> None) ?us = filter (\<lambda>u. ev_value u \<noteq> None) vs"
    using vals(4) by (auto intro!: filter_cong)
  then show "en_duplicates e = map mark_repeat (filter (\<lambda>u. ev_value u \<noteq> None) vs)"
    using E(2) F(2) [OF plain'] by (simp only:)
  show "en_density e = ''dense''" "en_prefix e = prefix" by (rule E)+
qed

text \<open>A duplicate has the value of the enumerator it repeats.\<close>

lemma c_enumerators_initialized:
  assumes "c_enumerators env b items = Some env'" "(n, Some s) \<in> set items" "c_number s = None"
  shows "map_of env' n = map_of env' s \<and> map_of env' s \<noteq> None"
  using assms
proof (induction env b items rule: c_enumerators.induct)
  case (2 env k m init items)
  show ?case
  proof (cases "(m, init) = (n, Some s)")
    case True
    then obtain v where v: "map_of env s = Some v" "\<not> din n env"
      and run: "c_enumerators (env @ [(n, v)]) (v + 1) items = Some env'"
      using 2(3,5) by (auto simp: c_const_def split: if_splits option.splits)
    have "map_of (env @ [(n, v)]) n = Some v" "map_of (env @ [(n, v)]) s = Some v"
      using v by (auto simp: din_def map_add_def split: option.splits)
    then show ?thesis using c_enumerators_mono [OF run] by auto
  next
    case False
    then show ?thesis using 2 by (auto split: if_splits option.splits)
  qed
qed simp

section \<open>Instances\<close>

definition sample_values :: "enumer_value list" where
  "sample_values =
     [enumer_value_new ''INVALID'' None None False None, enumer_value_new ''AL'' None None False None,
      enumer_value_new ''GPR_FIRST'' (Some ''AL'') None False None, enumer_value_new ''CL'' None None False None,
      enumer_value_new ''GPR_LAST'' (Some ''CL'') None False None]"

definition sample_enum :: enumer where
  "sample_enum = \<lparr>en_type_name = ''t'', en_prefix = ''R_'',
     en_values = [enumer_value_new ''INVALID'' None None False None, enumer_value_new ''AL'' None None False None,
       enumer_value_new ''CL'' None None False None, enumer_value_new ''LAST'' None None False None],
     en_duplicates = [enumer_value_new ''GPR_FIRST'' (Some ''AL'') None True None,
       enumer_value_new ''GPR_LAST'' (Some ''CL'') None True None],
     en_density = ''dense'', en_add_last = True, en_string_convert = 1, en_proto_prefix = []\<rparr>"

definition sample_enum_env :: "(string, int) dict" where
  "sample_enum_env = [(''R_INVALID'', 0), (''R_AL'', 1), (''R_CL'', 2), (''R_LAST'', 3), (''R_GPR_FIRST'', 1), (''R_GPR_LAST'', 2)]"

lemma sample_enum_facts:
  "enumer_new ''t'' ''R_'' sample_values True [] ''automatic'' 1 = Inr sample_enum"
  "enumerators sample_enum = Some sample_enum_env"
  "emit_enum2str_convert sample_enum = Inr (IndexTable (c_name_table ''R_'' (en_values sample_enum)) ''R_LAST'')"
  "emit_str2enum_convert sample_enum = Inr (SearchTables (c_name_table ''R_'' (en_values sample_enum))
     (Some (c_name_table ''R_'' (en_duplicates sample_enum))) ''R_INVALID'')"
  by code_simp+

lemma sample_plain: "\<forall>v \<in> set sample_values. \<not> ev_duplicate v \<and> c_agrees v"
proof -
  have "make_number ''AL'' = Inr None" "make_number ''CL'' = Inr None" by code_simp+
  then show ?thesis by (auto simp: sample_values_def enumer_value_new_def c_agrees_def)
qed

theorem dense_enumeration_names_witness:
  "map_of sample_enum_env ''R_CL'' = Some 2 \<and>
     run_enum2str sample_enum_env (IndexTable (c_name_table ''R_'' (en_values sample_enum)) ''R_LAST'') 2 = Some ''CL''"
proof -
  have d: "en_density sample_enum = ''dense''" by (simp add: sample_enum_def)
  have v: "en_values sample_enum ! 2 = enumer_value_new ''CL'' None None False None" "2 < length (en_values sample_enum)"
    by (simp_all add: sample_enum_def)
  from dense_enumeration_names [OF sample_enum_facts(1) d sample_plain sample_enum_facts(2,3)] v
  show ?thesis by (fastforce simp: enumer_value_new_def)
qed

theorem enumeration_string_round_trip_witness:
  "run_str2enum sample_enum_env (SearchTables (c_name_table ''R_'' (en_values sample_enum))
     (Some (c_name_table ''R_'' (en_duplicates sample_enum))) ''R_INVALID'') ''GPR_LAST'' = map_of sample_enum_env ''R_GPR_LAST''"
proof -
  have d: "en_density sample_enum \<in> {''dense'', ''sparse''}"
    "distinct (map ev_display (en_values sample_enum @ en_duplicates sample_enum))"
    by (simp_all add: sample_enum_def enumer_value_new_def)
  let ?u = "enumer_value_new ''GPR_LAST'' (Some ''CL'') None True None"
  have u: "?u \<in> set (en_duplicates sample_enum)" "ev_display ?u = ''GPR_LAST''" "''R_'' @ ev_name ?u = ''R_GPR_LAST''"
    by (simp_all add: sample_enum_def enumer_value_new_def)
  from enumeration_string_round_trip [OF sample_enum_facts(1) d(1) sample_plain sample_enum_facts(2-4) d(2)]
  have "\<forall>u \<in> set (en_duplicates sample_enum). run_str2enum sample_enum_env (SearchTables (c_name_table ''R_'' (en_values sample_enum))
     (Some (c_name_table ''R_'' (en_duplicates sample_enum))) ''R_INVALID'') (ev_display u) = map_of sample_enum_env (''R_'' @ ev_name u)"
    by (rule conjunct2)
  from bspec [OF this u(1)] show ?thesis unfolding u(2,3) .
qed

end
