(* ===== verification/Reg_Enum.thy ===== *)
theory Reg_Enum
  imports Enumer Opnds "HOL-Library.List_Lexorder" "HOL-Library.Char_ord"
begin

text \<open>
  Registers (\<open>pysrc/refine_regs.py\<close>): reading the register file, the order of the register
  enumeration with the pseudo registers that bracket every class, the numbering the encoder generator
  recomputes (\<open>pysrc/nt_func_gen.py\<close>) and the initialization of the class and width arrays
  (\<open>pysrc/generator.py\<close>).  Texts are compared by their characters, as Python does.
\<close>

section \<open>Reading the registers\<close>

record reg_info =
  ri_name :: string
  ri_display :: string
  ri_type :: string
  ri_width :: string
  ri_max_enclosing :: string
  ri_max_enclosing_32 :: "string option"
  ri_ordinal :: int
  ri_hreg :: "string option"
  ri_rtype :: string

definition reg_info_new ::
  "string \<Rightarrow> string \<Rightarrow> string \<Rightarrow> string \<Rightarrow> int \<Rightarrow> string option \<Rightarrow> string option \<Rightarrow> string option \<Rightarrow> reg_info" where
  "reg_info_new name ty width mer ordinal hreg mer_32 display_str =
     (let name = upper name; ty = upper ty
      in \<lparr>ri_name = name,
          ri_display = (case display_str of None \<Rightarrow> name | Some d \<Rightarrow> if d = [] then name else upper d),
          ri_type = ty, ri_width = width, ri_max_enclosing = mer, ri_max_enclosing_32 = mer_32,
          ri_ordinal = ordinal, ri_hreg = hreg,
          ri_rtype =
            (if ty = ''GPR''
             then (case hreg of None \<Rightarrow> ty @ width | Some h \<Rightarrow> ty @ width @ h)
             else ty)\<rparr>)"

text \<open>\<open>re.compile(r'#.*$').sub('', line)\<close>, for a line that ends at its newline.\<close>

definition sub_line_comment :: "string \<Rightarrow> string" where
  "sub_line_comment line =
     takeWhile (\<lambda>c. c \<noteq> CHR ''#'') line @
     dropWhile (\<lambda>c. c \<noteq> CHR 0x0A) (dropWhile (\<lambda>c. c \<noteq> CHR ''#'') line)"

definition enclosing_regs :: "string \<Rightarrow> (string \<times> string option) res" where
  "enclosing_regs w =
     (if CHR ''/'' \<in> set w
      then (case split_on CHR ''/'' w of [a, b] \<Rightarrow> Inr (a, Some b) | _ \<Rightarrow> Inl ValueError)
      else Inr (w, None))"

definition short_width :: "string \<Rightarrow> string" where
  "short_width width =
     (if width = ''NA'' then ''1'' else takeWhile (\<lambda>c. c \<noteq> CHR ''/'') width)"

definition widest :: "string \<Rightarrow> int \<Rightarrow> (string, int) dict \<Rightarrow> (string, int) dict" where
  "widest name iw d =
     (case map_of d name of
        Some w \<Rightarrow> if w < iw then dset name iw d else d
      | None \<Rightarrow> dset name iw d)"

text \<open>The words of a line; a register with three words is its own enclosing register.\<close>

definition refine_words ::
  "string \<Rightarrow> string list \<Rightarrow> reg_info list \<times> (string, int) dict \<Rightarrow> (reg_info list \<times> (string, int) dict) res" where
  "refine_words line wrds = (\<lambda>(all_ri, reg_width_dict).
     let wrds = (if length wrds = 3 then wrds @ [hd wrds] else wrds);
         n = length wrds
     in if n = 6 \<and> wrds ! 5 \<notin> {''h'', ''-''} then Inl (Die (''regs-read: Illegal final token on line: '' @ line))
        else if n < 4 \<or> n > 7 then Inl (Die (''regs-read: Bad number of tokens on line: '' @ line))
        else
          rbind (enclosing_regs (wrds ! 3)) (\<lambda>(mer, mer_32).
          rbind (if n \<ge> 5 then py_int 10 (wrds ! 4) else Inr 0) (\<lambda>ordinal.
          let hreg = (if n \<ge> 6 \<and> wrds ! 5 = ''h'' then Some ''h'' else None);
              display_str = (if n \<ge> 7 then Some (wrds ! 6) else None);
              ri = reg_info_new (wrds ! 0) (wrds ! 1) (wrds ! 2) mer ordinal hreg mer_32 display_str
          in rbind (py_int 10 (short_width (wrds ! 2))) (\<lambda>iw.
               Inr (all_ri @ [ri], widest (wrds ! 0) iw reg_width_dict)))))"

definition refine_line ::
  "string \<Rightarrow> reg_info list \<times> (string, int) dict \<Rightarrow> (reg_info list \<times> (string, int) dict) res" where
  "refine_line line st =
     (let pline = strip (sub_line_comment line)
      in if pline = [] then Inr st else refine_words line (split_words pline) st)"

text \<open>
  Of the lines with one name the wider is kept, where widths are compared as texts; between equal ones,
  that with the wider enclosing register.
\<close>

definition keep_wider ::
  "(string, int) dict \<Rightarrow> reg_info \<Rightarrow> (string, reg_info) dict \<Rightarrow> (string, reg_info) dict res" where
  "keep_wider reg_width_dict ri regs_dict =
     (case map_of regs_dict (ri_name ri) of
        None \<Rightarrow> Inr (dset (ri_name ri) ri regs_dict)
      | Some old \<Rightarrow>
          if ri_width old < ri_width ri then Inr (dset (ri_name ri) ri regs_dict)
          else rbind (dget reg_width_dict (ri_max_enclosing old)) (\<lambda>a.
               rbind (dget reg_width_dict (ri_max_enclosing ri)) (\<lambda>b.
                 if a < b then Inr (dset (ri_name ri) ri regs_dict) else Inr regs_dict)))"

text \<open>The list of names in the order of their first lines is the order of the dictionary's keys.\<close>

definition refine_regs_input :: "string list \<Rightarrow> reg_info list res" where
  "refine_regs_input lines =
     rbind (foldM refine_line lines ([], [])) (\<lambda>(all_ri, reg_width_dict).
     rbind (foldM (keep_wider reg_width_dict) all_ri []) (\<lambda>regs_dict. Inr (dvals regs_dict)))"

section \<open>The order of the enumeration\<close>

definition reg_value :: "reg_info \<Rightarrow> enumer_value" where
  "reg_value ri = enumer_value_new (ri_name ri) None None False (Some (ri_display ri))"

definition regs_of_group :: "reg_info list \<Rightarrow> string \<Rightarrow> reg_info list" where
  "regs_of_group regs_list g = sort_key ri_ordinal (filter (\<lambda>x. ri_rtype x = g) regs_list)"

definition group_values :: "reg_info list \<Rightarrow> string \<Rightarrow> enumer_value list" where
  "group_values regs_list g =
     (let k = regs_of_group regs_list g
      in [reg_value (hd k),
          enumer_value_new (g @ ''_FIRST'') (Some (ri_name (hd k))) (Some ''//< PSEUDO'') False None] @
         map reg_value (tl k) @
         [enumer_value_new (g @ ''_LAST'') (Some (ri_name (last k))) (Some ''//<PSEUDO'') False None])"

definition reg_groups :: "reg_info list \<Rightarrow> string list" where
  "reg_groups regs_list = uniqueify (map ri_rtype regs_list)"

definition rearrange_regs :: "reg_info list \<Rightarrow> enumer_value list" where
  "rearrange_regs regs_list = concat (map (group_values regs_list) (reg_groups regs_list))"

definition reg_enum :: "reg_info list \<Rightarrow> enumer res" where
  "reg_enum regs_list =
     enumer_new ''xed_reg_enum_t'' ''XED_REG_'' (rearrange_regs regs_list) True ''XED_DLL_EXPORT'' ''automatic'' 1"

section \<open>The numbering of the encoder generator\<close>

text \<open>\<open>regs.remove(x)\<close>\<close>

fun remove_first :: "'a \<Rightarrow> 'a list \<Rightarrow> 'a list res" where
  "remove_first x [] = Inl ValueError"
| "remove_first x (y # ys) = (if x = y then Inr ys else rbind (remove_first x ys) (\<lambda>zs. Inr (y # zs)))"

definition check_duplications :: "string list \<Rightarrow> unit res" where
  "check_duplications regs =
     (case find (\<lambda>r. count_list regs r > 1) regs of
        Some r \<Rightarrow> Inl (Die (''reg '' @ r @ '' defined more than once''))
      | None \<Rightarrow> Inr ())"

text \<open>\<open>math.log\<close> of zero is an error.\<close>

definition log_bits :: "nat \<Rightarrow> nat res" where
  "log_bits max_reg = (if max_reg = 0 then Inl ValueError else Inr (ilog2 max_reg + 1))"

definition gen_regs_dict :: "reg_info list \<Rightarrow> ((string, nat) dict \<times> nat) res" where
  "gen_regs_dict regs_list =
     (let tmp = filter (\<lambda>x. \<not> in_comment ''PSEUDO'' x) (rearrange_regs regs_list);
          regs = map ev_name tmp
      in rbind (remove_first ''INVALID'' regs) (\<lambda>regs.
         let grouped_regs = ''INVALID'' # regs;
             full_reg_name = map (\<lambda>x. ''XED_REG_'' @ x) grouped_regs
         in rbind (check_duplications full_reg_name) (\<lambda>_.
            let reg2int = fold (\<lambda>(i, reg) d. dset reg i d) (List.enumerate 0 full_reg_name) []
            in rbind (if regs_list = [] then Inl ValueError else log_bits (length regs_list - 1)) (\<lambda>bits_width.
                 Inr (reg2int, bits_width)))))"

section \<open>Register classes\<close>

definition reg_class_step :: "reg_info \<Rightarrow> (string, bool) dict \<Rightarrow> (string, bool) dict" where
  "reg_class_step ri rclasses =
     (let rclasses = (if din (ri_type ri) rclasses then rclasses else dset (ri_type ri) True rclasses)
      in if ri_type ri = ''GPR''
         then (let fine_rclass = ''GPR'' @ ri_width ri
               in if din fine_rclass rclasses then rclasses else dset fine_rclass True rclasses)
         else rclasses)"

definition reg_class_names :: "reg_info list \<Rightarrow> string list res" where
  "reg_class_names regs_list =
     (let rclasses = fold reg_class_step regs_list []
      in if din ''INVALID'' rclasses
         then Inr (''INVALID'' # sort (dkeys (AList.delete ''INVALID'' rclasses)))
         else Inl KeyError)"

text \<open>The assignments of the initialization function, with the array, the register and the value.\<close>

definition class_assignments :: "reg_info list \<Rightarrow> (string \<times> string \<times> string) list" where
  "class_assignments regs_list =
     map (\<lambda>ri. (''xed_reg_class_array'', ri_name ri, ''XED_REG_CLASS_'' @ ri_type ri)) regs_list @
     concat (map (\<lambda>ri.
       [(''xed_largest_enclosing_register_array'', ri_name ri, ''XED_REG_'' @ ri_max_enclosing ri),
        (''xed_largest_enclosing_register_array_32'', ri_name ri, ''XED_REG_'' @
          (case ri_max_enclosing_32 ri of None \<Rightarrow> ''INVALID'' | Some m \<Rightarrow> if m = [] then ''INVALID'' else m))]) regs_list) @
     map (\<lambda>ri. (''xed_gpr_reg_class_array'', ri_name ri, ''XED_REG_CLASS_'' @ ri_type ri @ ri_width ri))
       (filter (\<lambda>ri. ri_type ri = ''GPR'') regs_list)"

definition width_pair :: "string \<Rightarrow> string \<times> string" where
  "width_pair w =
     (if w = ''NA'' then (''0'', ''0'')
      else if CHR ''/'' \<in> set w then (let chunks = split_on CHR ''/'' w in (chunks ! 0, chunks ! 1))
      else (w, w))"

definition width_assignments :: "reg_info list \<Rightarrow> (string \<times> nat \<times> string) list" where
  "width_assignments regs_list =
     concat (map (\<lambda>ri. [(ri_name ri, 0, fst (width_pair (ri_width ri))), (ri_name ri, 1, snd (width_pair (ri_width ri)))]) regs_list)"

definition emit_reg_class_mappings :: "reg_info list \<Rightarrow> string list" where
  "emit_reg_class_mappings regs_list =
     map (\<lambda>(a, r, v). a @ ''[XED_REG_'' @ r @ '']= '' @ v @ '';'') (class_assignments regs_list) @
     map (\<lambda>(r, i, w). ''xed_reg_width_bits[XED_REG_'' @ r @ ''][''  @ str_nat i @ ''] = '' @ w @ '';'') (width_assignments regs_list)"

section \<open>The values of the register enumeration\<close>

text \<open>A name that is not a number for the enumeration: it has a character other than a digit.\<close>

definition plain_name :: "string \<Rightarrow> bool" where
  "plain_name s \<longleftrightarrow> make_number s = Inr None"

lemma in_pseudo: "in_comment ''PSEUDO'' (reg_value r) = False"
  "in_comment ''PSEUDO'' (enumer_value_new n v (Some ''//< PSEUDO'') b d) = True"
  "in_comment ''PSEUDO'' (enumer_value_new n v (Some ''//<PSEUDO'') b d) = True"
  by (simp_all add: in_comment_def reg_value_def enumer_value_new_def starts_with_def)

lemma ev_fields [simp]:
  "ev_name (enumer_value_new n v c b d) = n" "ev_value (enumer_value_new n v c b d) = v"
  "ev_duplicate (enumer_value_new n v c b d) = b"
  "ev_name (reg_value r) = ri_name r" "ev_value (reg_value r) = None" "ev_duplicate (reg_value r) = False"
  by (simp_all add: enumer_value_new_def reg_value_def)

lemma group_nonempty:
  assumes "g \<in> set (reg_groups regs)"
  shows "regs_of_group regs g \<noteq> []" and "set (regs_of_group regs g) = {r \<in> set regs. ri_rtype r = g}"
  using assms by (auto simp: reg_groups_def uniqueify_def regs_of_group_def) (metis (mono_tags, lifting) filter_empty_conv length_0_conv length_sort)

lemma filter_group:
  assumes "g \<in> set (reg_groups regs)"
  shows "filter (\<lambda>v. \<not> in_comment ''PSEUDO'' v) (group_values regs g) = map reg_value (regs_of_group regs g)"
    and "filter (\<lambda>v. ev_value v = None) (group_values regs g) = map reg_value (regs_of_group regs g)"
  using group_nonempty [OF assms]
  by (cases "regs_of_group regs g"; simp add: group_values_def in_pseudo filter_map comp_def)+

lemma filter_concat_map: "(\<And>x. x \<in> set xs \<Longrightarrow> filter P (f x) = h x) \<Longrightarrow> filter P (concat (map f xs)) = concat (map h xs)"
  by (induction xs) auto

definition grouped_regs :: "reg_info list \<Rightarrow> reg_info list" where
  "grouped_regs regs = concat (map (regs_of_group regs) (reg_groups regs))"

lemma real_values:
  "filter (\<lambda>v. \<not> in_comment ''PSEUDO'' v) (rearrange_regs regs) = map reg_value (grouped_regs regs)"
  "filter (\<lambda>v. ev_value v = None) (rearrange_regs regs) = map reg_value (grouped_regs regs)"
  unfolding rearrange_regs_def grouped_regs_def map_concat map_map comp_def
  by (rule filter_concat_map; simp only: filter_group)+

lemma grouped_regs_set: "set (grouped_regs regs) = set regs"
proof -
  have "set (grouped_regs regs) = (\<Union>g \<in> set (reg_groups regs). {r \<in> set regs. ri_rtype r = g})"
    using group_nonempty(2) by (auto simp: grouped_regs_def)
  also have "\<dots> = set regs" by (auto simp: reg_groups_def uniqueify_def)
  finally show ?thesis .
qed

lemma group_repeats:
  assumes "g \<in> set (reg_groups regs)" "\<forall>r \<in> set regs. plain_name (ri_name r)"
  shows "repeats_only p (group_values regs g)"
proof -
  obtain r rs where k: "regs_of_group regs g = r # rs" using group_nonempty(1) [OF assms(1)] by (cases "regs_of_group regs g") auto
  have "set (r # rs) \<subseteq> set regs" using group_nonempty(2) [OF assms(1)] k by auto
  then have n: "make_number (ri_name x) = Inr None" if "x \<in> set (r # rs)" for x
    using assms(2) that by (auto simp: plain_name_def)
  have none: "repeats_only q (map reg_value xs)" for q xs by (induction xs arbitrary: q) auto
  have "ri_name (last (r # rs)) \<in> set (ri_name r # map ri_name rs)"
    using last_in_set [of "r # rs"] by (metis image_eqI list.distinct(1) list.set_map list.simps(9))
  moreover have "make_number (ri_name r) = Inr None" "make_number (ri_name (last (r # rs))) = Inr None"
    by (rule n, simp)+
  ultimately show ?thesis
    by (auto simp: group_values_def k repeats_only_append none comp_def simp del: last.simps split: if_splits)
qed

lemma rearranged_repeats:
  assumes "\<forall>r \<in> set regs. plain_name (ri_name r)"
  shows "repeats_only p (rearrange_regs regs)"
proof -
  have "repeats_only p (concat (map (group_values regs) gs))" if "set gs \<subseteq> set (reg_groups regs)" for gs p
    using that by (induction gs arbitrary: p) (auto simp: repeats_only_append group_repeats assms)
  then show ?thesis by (simp add: rearrange_regs_def)
qed

lemma filter_unique_name:
  "distinct (map f xs) \<Longrightarrow> x \<in> set xs \<Longrightarrow> f x = n \<Longrightarrow> filter (\<lambda>y. f y = n) xs = [x]"
  by (induction xs) (auto simp: filter_empty_conv rev_image_eqI)

text \<open>What the register file has to satisfy: the names are distinct and no numbers, and INVALID is one.\<close>

definition reg_names_ok :: "reg_info list \<Rightarrow> bool" where
  "reg_names_ok regs \<longleftrightarrow>
     ''INVALID'' \<in> ri_name ` set regs \<and>
     distinct (map ev_name (rearrange_regs regs)) \<and> (\<forall>r \<in> set regs. plain_name (ri_name r))"

text \<open>The order of the enumeration: INVALID, then the other registers by class.\<close>

definition ordered_regs :: "reg_info list \<Rightarrow> reg_info list" where
  "ordered_regs regs =
     filter (\<lambda>r. ri_name r = ''INVALID'') (grouped_regs regs) @ filter (\<lambda>r. ri_name r \<noteq> ''INVALID'') (grouped_regs regs)"

lemma grouped_distinct:
  assumes "reg_names_ok regs"
  shows "distinct (map ri_name (grouped_regs regs))"
proof -
  have "map ri_name (grouped_regs regs) = map ev_name (filter (\<lambda>v. ev_value v = None) (rearrange_regs regs))"
    by (simp add: real_values comp_def)
  then show ?thesis using assms by (simp add: reg_names_ok_def distinct_map_filter)
qed

lemma ordered_distinct:
  assumes "reg_names_ok regs"
  shows "distinct (map ri_name (ordered_regs regs))" and "set (ordered_regs regs) = set regs"
proof -
  show "set (ordered_regs regs) = set regs" by (auto simp: ordered_regs_def grouped_regs_set)
  show "distinct (map ri_name (ordered_regs regs))"
    using distinct_map_filter [OF grouped_distinct [OF assms]] by (auto simp: ordered_regs_def)
qed

lemma ordered_first:
  assumes "reg_names_ok regs"
  obtains r where "r \<in> set regs" "ri_name r = ''INVALID''"
    "ordered_regs regs = r # filter (\<lambda>r. ri_name r \<noteq> ''INVALID'') (grouped_regs regs)"
proof -
  obtain r where r: "r \<in> set regs" "ri_name r = ''INVALID''" using assms by (auto simp: reg_names_ok_def)
  have d: "distinct (map ri_name (grouped_regs regs))" by (rule grouped_distinct [OF assms])
  then have "filter (\<lambda>x. ri_name x = ''INVALID'') (grouped_regs regs) = [r]"
    using r by (intro filter_unique_name) (auto simp: grouped_regs_set)
  then show ?thesis using that r by (simp add: ordered_regs_def)
qed

lemma reg_enum_values:
  assumes "reg_names_ok regs" "reg_enum regs = Inr e"
  shows "en_values e = map reg_value (ordered_regs regs) @ [last_value]"
    and "en_duplicates e = map mark_repeat (filter (\<lambda>u. ev_value u \<noteq> None) (rearrange_regs regs))"
    and "en_density e = ''dense''" and "en_prefix e = ''XED_REG_''"
proof -
  obtain r where r: "r \<in> set regs" "ri_name r = ''INVALID''"
    "ordered_regs regs = r # filter (\<lambda>r. ri_name r \<noteq> ''INVALID'') (grouped_regs regs)"
    using ordered_first [OF assms(1)] .
  have nd: "\<forall>u \<in> set (rearrange_regs regs). \<not> ev_duplicate u"
    by (auto simp: rearrange_regs_def group_values_def Let_def)
  have "reg_value r \<in> set (filter (\<lambda>v. ev_value v = None) (rearrange_regs regs))"
    using r(1) by (simp add: real_values grouped_regs_set del: set_filter)
  then have v: "reg_value r \<in> set (rearrange_regs regs)" by simp
  have d: "distinct (map ev_name (rearrange_regs regs))" and p: "\<forall>r \<in> set regs. plain_name (ri_name r)"
    using assms(1) by (simp_all add: reg_names_ok_def)
  note R = enumer_repeats [OF d v _ _ rearranged_repeats [OF p] nd assms(2) [unfolded reg_enum_def]]
  have "filter (\<lambda>u. u \<noteq> reg_value r) (map reg_value (grouped_regs regs)) =
      map reg_value (filter (\<lambda>x. ri_name x \<noteq> ''INVALID'') (grouped_regs regs))"
  proof -
    have "reg_value x \<noteq> reg_value r \<longleftrightarrow> ri_name x \<noteq> ''INVALID''" if "x \<in> set (grouped_regs regs)" for x
    proof -
      have "ri_name x = ''INVALID'' \<Longrightarrow> x = r"
        using grouped_distinct [OF assms(1)] that r(1,2) by (simp add: distinct_map inj_on_def grouped_regs_set)
      moreover have "reg_value x = reg_value r \<Longrightarrow> ri_name x = ''INVALID''"
      proof -
        assume "reg_value x = reg_value r"
        then have "ev_name (reg_value x) = ev_name (reg_value r)" by (rule arg_cong)
        then show ?thesis using r(2) unfolding ev_fields by simp
      qed
      ultimately show ?thesis by blast
    qed
    then show ?thesis
      unfolding filter_map comp_def by (intro arg_cong [where f = "map reg_value"] filter_cong) simp_all
  qed
  then show "en_values e = map reg_value (ordered_regs regs) @ [last_value]"
    using R(1) r(2) by (simp add: real_values r(3))
  show "en_duplicates e = map mark_repeat (filter (\<lambda>u. ev_value u \<noteq> None) (rearrange_regs regs))"
    using R(2) r(2) by simp
  show "en_density e = ''dense''" "en_prefix e = ''XED_REG_''" using R(3,4) r(2) by simp_all
qed

lemma reg_values_plain:
  assumes "\<forall>r \<in> set regs. plain_name (ri_name r)"
  shows "\<forall>v \<in> set (rearrange_regs regs). \<not> ev_duplicate v \<and> c_agrees v"
proof
  fix v assume "v \<in> set (rearrange_regs regs)"
  then obtain g where g: "g \<in> set (reg_groups regs)" "v \<in> set (group_values regs g)" by (auto simp: rearrange_regs_def)
  have "hd (regs_of_group regs g) \<in> set regs" "last (regs_of_group regs g) \<in> set regs"
    using group_nonempty [OF g(1)] hd_in_set last_in_set by blast+
  then have "make_number (ri_name (hd (regs_of_group regs g))) = Inr None" "make_number (ri_name (last (regs_of_group regs g))) = Inr None"
    using assms by (auto simp: plain_name_def)
  then show "\<not> ev_duplicate v \<and> c_agrees v"
    using g(2) by (auto simp: group_values_def Let_def c_agrees_def)
qed

lemma reg_number:
  assumes "reg_names_ok regs" "reg_enum regs = Inr e" "enumerators e = Some env" "i < length (ordered_regs regs)"
  shows "map_of env (''XED_REG_'' @ ri_name (ordered_regs regs ! i)) = Some (int i)"
proof -
  note R = reg_enum_values [OF assms(1,2)]
  have plain: "\<forall>r \<in> set regs. plain_name (ri_name r)" using assms(1) by (simp add: reg_names_ok_def)
  have "c_enumerators [] 0 (map (\<lambda>v. (''XED_REG_'' @ ev_name v, ev_value v)) (en_values e) @
      map (\<lambda>v. (''XED_REG_'' @ ev_name v, initializer_value ''XED_REG_'' v)) (en_duplicates e)) = Some env"
    using assms(3) by (simp add: enumerators_def typedef_items_def R(4))
  from c_enumerators_dense [OF this] dense_values [OF assms(2) [unfolded reg_enum_def] R(3) reg_values_plain [OF plain]]
  have "map_of env (''XED_REG_'' @ ev_name (en_values e ! i)) = Some (0 + int i)"
    using assms(4) by (simp add: R(1))
  moreover have "en_values e ! i = reg_value (ordered_regs regs ! i)" using assms(4) by (simp add: R(1) nth_append)
  ultimately show ?thesis by simp
qed

fun find_index_of :: "'a \<Rightarrow> 'a list \<Rightarrow> nat option" where
  "find_index_of y [] = None"
| "find_index_of y (x # xs) = (if x = y then Some 0 else map_option Suc (find_index_of y xs))"

lemma find_index_of_nth: "distinct xs \<Longrightarrow> i < length xs \<Longrightarrow> find_index_of (xs ! i) xs = Some i"
  by (induction xs arbitrary: i) (auto simp: nth_Cons split: nat.splits)

lemma enumerate_dict:
  assumes "distinct xs" "\<forall>x \<in> set xs. map_of d x = None"
  shows "map_of (fold (\<lambda>(i, x) d. dset x i d) (List.enumerate n xs) d) y =
    (if y \<in> set xs then map_option (\<lambda>i. n + i) (find_index_of y xs) else map_of d y)"
  using assms
proof (induction xs arbitrary: n d)
  case (Cons x xs)
  have "map_of (fold (\<lambda>(i, x) d. dset x i d) (List.enumerate (Suc n) xs) (dset x n d)) y =
    (if y \<in> set xs then map_option (\<lambda>i. Suc n + i) (find_index_of y xs) else map_of (dset x n d) y)"
    using Cons.prems by (intro Cons.IH) auto
  then show ?case using Cons.prems by (cases "find_index_of y xs") auto
qed simp

lemma enumerate_dict_nth:
  assumes "distinct xs" "i < length xs"
  shows "map_of (fold (\<lambda>(i, x) d. dset x i d) (List.enumerate 0 xs) []) (xs ! i) = Some i"
  using enumerate_dict [OF assms(1), of "[]" 0 "xs ! i"] assms(2) find_index_of_nth [OF assms] by simp

lemma remove_unique_name:
  "distinct (map f xs) \<Longrightarrow> y \<in> set xs \<Longrightarrow> f y = n \<Longrightarrow>
     remove_first n (map f xs) = Inr (map f (filter (\<lambda>x. f x \<noteq> n) xs))"
proof (induction xs)
  case (Cons x xs)
  show ?case
  proof (cases "f x = n")
    case True
    then have "\<forall>z \<in> set xs. f z \<noteq> n" using Cons.prems(1) by (auto simp: rev_image_eqI)
    then show ?thesis using True by simp
  next
    case False
    then show ?thesis using Cons by auto
  qed
qed simp

lemma ilog2_bound: "n < 2 ^ (ilog2 n + 1)"
proof (induction n rule: ilog2.induct)
  case (1 n)
  then show ?case by (cases "n < 2") (auto simp: ilog2.simps [of n])
qed

text \<open>
  C19: the two numberings of the registers agree.  For registers with distinct names of which INVALID comes
  first, the number the encoder generator computes for a register is the value the C compiler gives its
  enumerator in the type emitted by the decoder generator, and it fits the number of bits computed for
  register operands.
\<close>

theorem register_numbers_agree:
  assumes ok: "reg_names_ok regs" and e: "reg_enum regs = Inr e" "enumerators e = Some env"
    and enc: "gen_regs_dict regs = Inr (reg2int, bits)"
  shows "\<forall>r \<in> set regs. \<exists>i. map_of reg2int (''XED_REG_'' @ ri_name r) = Some i \<and>
    map_of env (''XED_REG_'' @ ri_name r) = Some (int i) \<and> i < 2 ^ bits"
proof
  fix r assume "r \<in> set regs"
  then obtain i where i: "i < length (ordered_regs regs)" "r = ordered_regs regs ! i"
    using ordered_distinct(2) [OF ok] by (metis in_set_conv_nth)
  define rs where "rs = filter (\<lambda>r. ri_name r \<noteq> ''INVALID'') (grouped_regs regs)"
  obtain r0 where hd: "ordered_regs regs = r0 # rs" "ri_name r0 = ''INVALID''" and r0: "r0 \<in> set regs"
    using ordered_first [OF ok] unfolding rs_def .
  let ?names = "map (\<lambda>x. ''XED_REG_'' @ x) (map ri_name (ordered_regs regs))"
  have names: "?names = map (\<lambda>x. ''XED_REG_'' @ x) (''INVALID'' # map ri_name rs)"
    by (simp add: hd comp_def)
  have bits: "bits = ilog2 (length regs - 1) + 1"
    and dict: "reg2int = fold (\<lambda>(i, reg) d. dset reg i d) (List.enumerate 0 ?names) []"
  proof -
    have rf: "remove_first ''INVALID'' (map ev_name (filter (\<lambda>x. \<not> in_comment ''PSEUDO'' x) (rearrange_regs regs))) = Inr (map ri_name rs)"
    proof -
      have "map ev_name (map reg_value xs) = map ri_name xs" for xs by simp
      then show ?thesis
        using remove_unique_name [OF grouped_distinct [OF ok]] r0 hd(2)
        unfolding real_values(1) rs_def by (metis grouped_regs_set)
    qed
    have "rbind (check_duplications ?names) (\<lambda>_. rbind (if regs = [] then Inl ValueError else log_bits (length regs - 1)) (\<lambda>bits_width.
        Inr (fold (\<lambda>(i, reg) d. dset reg i d) (List.enumerate 0 ?names) [], bits_width))) = Inr (reg2int, bits)"
      using enc unfolding gen_regs_dict_def Let_def rf rbind_simps names .
    then obtain n where "(if regs = [] then Inl ValueError else log_bits (length regs - 1)) = Inr n"
      "Inr (fold (\<lambda>(i, reg) d. dset reg i d) (List.enumerate 0 ?names) [], n) = (Inr (reg2int, bits) :: ((string, nat) dict \<times> nat) res)"
      by (elim rbind_eq_InrE) blast
    then show "bits = ilog2 (length regs - 1) + 1"
      "reg2int = fold (\<lambda>(i, reg) d. dset reg i d) (List.enumerate 0 ?names) []"
      by (auto simp: log_bits_def simp del: list.map split: if_splits)
  qed
  have dist: "distinct ?names"
    using ordered_distinct(1) [OF ok] by (subst distinct_map) (simp add: inj_on_def)
  have "?names ! i = ''XED_REG_'' @ ri_name r" "i < length ?names" using i by simp_all
  then have "map_of reg2int (''XED_REG_'' @ ri_name r) = Some i"
    using enumerate_dict_nth [OF dist, of i] unfolding dict by metis
  moreover have "map_of env (''XED_REG_'' @ ri_name r) = Some (int i)"
    using reg_number [OF ok e i(1)] i(2) by simp
  moreover have "i < 2 ^ bits"
  proof -
    have "length (ordered_regs regs) = card (set regs)"
      using ordered_distinct [OF ok] distinct_card [of "ordered_regs regs"] by (simp add: distinct_map)
    then have "i \<le> length regs - 1" using i(1) card_length [of regs] by simp
    then show ?thesis using ilog2_bound [of "length regs - 1"] unfolding bits by simp
  qed
  ultimately show "\<exists>i. map_of reg2int (''XED_REG_'' @ ri_name r) = Some i \<and>
    map_of env (''XED_REG_'' @ ri_name r) = Some (int i) \<and> i < 2 ^ bits" by blast
qed

section \<open>Class ranges\<close>

lemma pseudo_value:
  assumes "reg_names_ok regs" "reg_enum regs = Inr e" "enumerators e = Some env"
    and "v \<in> set (rearrange_regs regs)" "ev_value v = Some s"
  shows "map_of env (''XED_REG_'' @ ev_name v) = map_of env (''XED_REG_'' @ s)"
proof -
  note R = reg_enum_values [OF assms(1,2)]
  have "mark_repeat v \<in> set (en_duplicates e)" using assms(4,5) by (simp add: R(2))
  then have "(''XED_REG_'' @ ev_name v, Some (''XED_REG_'' @ s)) \<in> set (typedef_items e)"
  proof -
    have "(''XED_REG_'' @ ev_name (mark_repeat v), initializer_value ''XED_REG_'' (mark_repeat v)) \<in> set (typedef_items e)"
      using \<open>mark_repeat v \<in> set (en_duplicates e)\<close> by (auto simp: typedef_items_def R(4))
    then show ?thesis using assms(5) by (simp add: mark_repeat_def initializer_value_def)
  qed
  moreover have "c_number (''XED_REG_'' @ s) = None"
    by (simp add: c_number_def starts_with_def is_digit_def)
  ultimately show ?thesis using c_enumerators_initialized assms(3) unfolding enumerators_def by blast
qed

lemma middle_segment:
  assumes "distinct (map f (xs @ ys @ zs))" "i < length (xs @ ys @ zs)" "ys \<noteq> []"
  shows "length xs \<le> i \<and> i \<le> length xs + length ys - 1 \<longleftrightarrow> (xs @ ys @ zs) ! i \<in> set ys"
proof -
  have d: "distinct (xs @ ys @ zs)" using assms(1) by (simp only: distinct_map)
  show ?thesis
  proof
    assume "length xs \<le> i \<and> i \<le> length xs + length ys - 1"
    then have "i - length xs < length ys" "length xs \<le> i" using assms(3) by (cases ys; simp)+
    then show "(xs @ ys @ zs) ! i \<in> set ys" by (simp add: nth_append)
  next
    assume "(xs @ ys @ zs) ! i \<in> set ys"
    then obtain j where j: "j < length ys" "ys ! j = (xs @ ys @ zs) ! i" by (auto simp: in_set_conv_nth)
    then have "(xs @ ys @ zs) ! (length xs + j) = (xs @ ys @ zs) ! i" by (simp add: nth_append)
    then have "length xs + j = i" using d j(1) assms(2) nth_eq_iff_index_eq by (metis add_strict_left_mono length_append trans_less_add1 add.assoc)
    then show "length xs \<le> i \<and> i \<le> length xs + length ys - 1" using j(1) by simp
  qed
qed

text \<open>
  C23: the pseudo registers bracket their class.  In the emitted register enumeration the enumerators
  FIRST and LAST of a class exist, and a register of the file lies between them exactly when it belongs to
  the class (for general purpose registers, the class with their width, high byte registers apart).  The
  class of INVALID itself is excepted: INVALID is moved to the front of the enumeration, away from its class.
\<close>

theorem register_class_range:
  assumes ok: "reg_names_ok regs" and e: "reg_enum regs = Inr e" "enumerators e = Some env"
    and r: "r \<in> set regs" and g: "g \<in> ri_rtype ` set regs"
    and other: "\<forall>r \<in> set regs. ri_name r = ''INVALID'' \<longrightarrow> ri_rtype r \<noteq> g"
  shows "\<exists>lo hi x. map_of env (''XED_REG_'' @ g @ ''_FIRST'') = Some lo \<and> map_of env (''XED_REG_'' @ g @ ''_LAST'') = Some hi \<and>
    map_of env (''XED_REG_'' @ ri_name r) = Some x \<and> (lo \<le> x \<and> x \<le> hi \<longleftrightarrow> ri_rtype r = g)"
proof -
  have gs: "g \<in> set (reg_groups regs)" using g by (auto simp: reg_groups_def uniqueify_def)
  then obtain as bs where split: "reg_groups regs = as @ g # bs" by (auto simp: in_set_conv_decomp)
  define k where "k = regs_of_group regs g"
  define xs where "xs = filter (\<lambda>r. ri_name r = ''INVALID'') (grouped_regs regs) @
    filter (\<lambda>r. ri_name r \<noteq> ''INVALID'') (concat (map (regs_of_group regs) as))"
  define zs where "zs = filter (\<lambda>r. ri_name r \<noteq> ''INVALID'') (concat (map (regs_of_group regs) bs))"
  have k: "k \<noteq> []" "set k = {r \<in> set regs. ri_rtype r = g}" unfolding k_def by (rule group_nonempty [OF gs])+
  have "filter (\<lambda>r. ri_name r \<noteq> ''INVALID'') k = k" using k(2) other by (auto simp: filter_id_conv)
  then have ord: "ordered_regs regs = xs @ k @ zs"
    by (simp add: ordered_regs_def xs_def zs_def) (simp add: grouped_regs_def split k_def)
  have num: "map_of env (''XED_REG_'' @ ri_name ((xs @ k @ zs) ! i)) = Some (int i)" if "i < length (xs @ k @ zs)" for i
    using reg_number [OF ok e, unfolded ord, OF that] .
  have "set (group_values regs g) \<subseteq> set (rearrange_regs regs)" using gs by (auto simp: rearrange_regs_def)
  then have mem: "enumer_value_new (g @ ''_FIRST'') (Some (ri_name (hd k))) (Some ''//< PSEUDO'') False None \<in> set (rearrange_regs regs)"
    "enumer_value_new (g @ ''_LAST'') (Some (ri_name (last k))) (Some ''//<PSEUDO'') False None \<in> set (rearrange_regs regs)"
    by (auto simp: group_values_def Let_def k_def)
  have "hd k = (xs @ k @ zs) ! length xs" using k(1) by (simp add: nth_append hd_conv_nth)
  then have lo: "map_of env (''XED_REG_'' @ g @ ''_FIRST'') = Some (int (length xs))"
    using pseudo_value [OF ok e mem(1)] num [of "length xs"] k(1) by simp
  have "last k = (xs @ k @ zs) ! (length xs + length k - 1)" using k(1) by (cases k rule: rev_cases) (simp_all add: nth_append)
  then have hi: "map_of env (''XED_REG_'' @ g @ ''_LAST'') = Some (int (length xs + length k - 1))"
    using pseudo_value [OF ok e mem(2)] num [of "length xs + length k - 1"] k(1) by (cases k) simp_all
  obtain i where i: "i < length (xs @ k @ zs)" "r = (xs @ k @ zs) ! i"
    using r ordered_distinct(2) [OF ok] unfolding ord by (metis in_set_conv_nth)
  have "length xs \<le> i \<and> i \<le> length xs + length k - 1 \<longleftrightarrow> r \<in> set k"
    using middle_segment [of ri_name xs k zs i] ordered_distinct(1) [OF ok] i k(1) unfolding ord by blast
  then have "int (length xs) \<le> int i \<and> int i \<le> int (length xs + length k - 1) \<longleftrightarrow> ri_rtype r = g"
    using r k(2) by (simp only: of_nat_le_iff) simp
  moreover have "map_of env (''XED_REG_'' @ ri_name r) = Some (int i)" using num [OF i(1)] i(2) by simp
  ultimately show ?thesis using lo hi by (intro exI conjI) assumption+
qed

section \<open>Instances\<close>

definition sample_reg_lines :: "string list" where
  "sample_reg_lines = [''INVALID INVALID 0'', ''AX gpr 16 AX 0'', ''CX gpr 16 CX 1 # count'', ''AL gpr 8 AX 0'']"

definition sample_regs :: "reg_info list" where
  "sample_regs =
     [reg_info_new ''INVALID'' ''INVALID'' ''0'' ''INVALID'' 0 None None None,
      reg_info_new ''AX'' ''gpr'' ''16'' ''AX'' 0 None None None,
      reg_info_new ''CX'' ''gpr'' ''16'' ''CX'' 1 None None None,
      reg_info_new ''AL'' ''gpr'' ''8'' ''AX'' 0 None None None]"

lemma sample_regs_read: "refine_regs_input sample_reg_lines = Inr sample_regs"
  by code_simp

definition sample_reg_env :: "(string, int) dict" where
  "sample_reg_env = map (\<lambda>(n, i). (''XED_REG_'' @ n, i))
     [(''INVALID'', 0), (''AX'', 1), (''CX'', 2), (''AL'', 3), (''LAST'', 4), (''GPR16_FIRST'', 1), (''GPR16_LAST'', 2),
      (''GPR8_FIRST'', 3), (''GPR8_LAST'', 3), (''INVALID_FIRST'', 0), (''INVALID_LAST'', 0)]"

lemma sample_regs_ok: "reg_names_ok sample_regs"
  unfolding reg_names_ok_def plain_name_def by code_simp

lemma sample_reg_enum: "\<exists>e. reg_enum sample_regs = Inr e \<and> enumerators e = Some sample_reg_env"
proof -
  have "(case reg_enum sample_regs of Inl _ \<Rightarrow> False | Inr e \<Rightarrow> enumerators e = Some sample_reg_env) = True" by code_simp
  then show ?thesis by (auto split: sum.splits)
qed

lemma sample_reg_dict: "gen_regs_dict sample_regs =
    Inr ([(''XED_REG_INVALID'', 0), (''XED_REG_AX'', 1), (''XED_REG_CX'', 2), (''XED_REG_AL'', 3)], 2)"
  by code_simp

theorem register_numbers_agree_witness:
  "map_of sample_reg_env (''XED_REG_'' @ ri_name (sample_regs ! 2)) = Some 2"
proof -
  obtain e where e: "reg_enum sample_regs = Inr e" "enumerators e = Some sample_reg_env" using sample_reg_enum by blast
  have "sample_regs ! 2 \<in> set sample_regs" by (simp add: sample_regs_def)
  moreover have "ri_name (sample_regs ! 2) = ''CX''" by code_simp
  ultimately show ?thesis using register_numbers_agree [OF sample_regs_ok e sample_reg_dict] by force
qed

theorem register_class_range_witness:
  "\<exists>x. map_of sample_reg_env (''XED_REG_'' @ ri_name (sample_regs ! 2)) = Some x \<and> 1 \<le> x \<and> x \<le> 2"
proof -
  obtain e where e: "reg_enum sample_regs = Inr e" "enumerators e = Some sample_reg_env" using sample_reg_enum by blast
  have m: "sample_regs ! 2 \<in> set sample_regs" by (simp add: sample_regs_def)
  have t: "(ri_rtype (sample_regs ! 2) = ''GPR16'' \<and> ''GPR16'' \<in> set (map ri_rtype sample_regs) \<and>
      list_all (\<lambda>r. ri_name r = ''INVALID'' \<longrightarrow> ri_rtype r \<noteq> ''GPR16'') sample_regs \<and>
      map_of sample_reg_env ''XED_REG_GPR16_FIRST'' = Some 1 \<and> map_of sample_reg_env ''XED_REG_GPR16_LAST'' = Some 2) = True"
    by code_simp
  have "\<exists>lo hi x. map_of sample_reg_env (''XED_REG_'' @ ''GPR16'' @ ''_FIRST'') = Some lo \<and>
      map_of sample_reg_env (''XED_REG_'' @ ''GPR16'' @ ''_LAST'') = Some hi \<and>
      map_of sample_reg_env (''XED_REG_'' @ ri_name (sample_regs ! 2)) = Some x \<and>
      (lo \<le> x \<and> x \<le> hi \<longleftrightarrow> ri_rtype (sample_regs ! 2) = ''GPR16'')"
    by (rule register_class_range [OF sample_regs_ok e m]) (use t in \<open>simp_all add: list_all_iff\<close>)
  then show ?thesis using t by auto
qed

end
